(* ===== verification/Prelude.thy ===== *)
theory Prelude
  imports Main "HOL-Library.Word"
begin

text \<open>
  The prelude of the development: the outcome of a C function that can stop the process,
  the byte arrays and the little-endian integers the file system stores on its device, the
  error numbers its functions return, and the generic lemmas the component theories share.
\<close>

unbundle bit_operations_syntax

section \<open>Collections of facts\<close>

named_theorems fs_consts \<open>the sizes and layout constants of the file system\<close>
named_theorems outcome_simps \<open>evaluation and inversion of outcomes\<close>

section \<open>Outcomes\<close>

text \<open>
  A C function of the repository returns, or it stops the whole process: a failed
  \<^verbatim>\<open>assert\<close>, the macro \<^verbatim>\<open>EXIT\<close> (or a call of \<^verbatim>\<open>exit\<close>), or an access outside the
  object a pointer refers to or an overflow of a signed 64-bit sum, which C leaves undefined; or it
  never returns. Every one of these is a branch of the model. Negative error numbers are ordinary return values, as in the code.
\<close>

datatype crash = AssertFail | ExitCall | MemFault | SignedOverflow | Diverges

datatype 'a outcome = Ok 'a | Crash crash

primrec and_then :: "'a outcome \<Rightarrow> ('a \<Rightarrow> 'b outcome) \<Rightarrow> 'b outcome" where
  "and_then (Ok x) f = f x"
| "and_then (Crash c) f = Crash c"

definition c_assert :: "bool \<Rightarrow> 'a outcome \<Rightarrow> 'a outcome" where
  "c_assert b m = (if b then m else Crash AssertFail)"

definition mem_check :: "bool \<Rightarrow> 'a outcome \<Rightarrow> 'a outcome" where
  "mem_check b m = (if b then m else Crash MemFault)"

definition no_crash :: "'a outcome \<Rightarrow> bool" where
  "no_crash m \<longleftrightarrow> (\<exists>x. m = Ok x)"

lemma and_then_Ok_iff [outcome_simps]:
  "and_then m f = Ok y \<longleftrightarrow> (\<exists>x. m = Ok x \<and> f x = Ok y)"
  by (cases m) auto

lemma and_then_Crash_iff:
  "and_then m f = Crash c \<longleftrightarrow> m = Crash c \<or> (\<exists>x. m = Ok x \<and> f x = Crash c)"
  by (cases m) auto

lemma and_then_assoc: "and_then (and_then m f) g = and_then m (\<lambda>x. and_then (f x) g)"
  by (cases m) auto

lemma c_assert_True [simp]: "c_assert True m = m"
  by (simp add: c_assert_def)

lemma c_assert_False [simp]: "c_assert False m = Crash AssertFail"
  by (simp add: c_assert_def)

lemma mem_check_True [simp]: "mem_check True m = m"
  by (simp add: mem_check_def)

lemma mem_check_False [simp]: "mem_check False m = Crash MemFault"
  by (simp add: mem_check_def)

lemma c_assert_Ok_iff [outcome_simps]: "c_assert b m = Ok y \<longleftrightarrow> b \<and> m = Ok y"
  by (simp add: c_assert_def)

lemma mem_check_Ok_iff [outcome_simps]: "mem_check b m = Ok y \<longleftrightarrow> b \<and> m = Ok y"
  by (simp add: mem_check_def)

lemma no_crash_simps [simp]: "no_crash (Ok x)" "\<not> no_crash (Crash c)"
  by (simp_all add: no_crash_def)

section \<open>Error numbers\<close>

text \<open>The values of \<^verbatim>\<open>errno.h\<close> the file system returns (negated).\<close>

definition ENOENT :: int where "ENOENT = 2"
definition ENOMEM :: int where "ENOMEM = 12"
definition EEXIST :: int where "EEXIST = 17"
definition ENOTDIR :: int where "ENOTDIR = 20"
definition EISDIR :: int where "EISDIR = 21"
definition EINVAL :: int where "EINVAL = 22"
definition EFBIG :: int where "EFBIG = 27"
definition ENOSPC :: int where "ENOSPC = 28"
definition ENOTEMPTY :: int where "ENOTEMPTY = 39"

lemmas errno_defs = ENOENT_def ENOMEM_def EEXIST_def ENOTDIR_def EISDIR_def EINVAL_def
  EFBIG_def ENOSPC_def ENOTEMPTY_def

section \<open>Single bits of a byte\<close>

type_synonym byte = "8 word"

lemma and_mask_zero_iff: "(w :: byte) AND 2 ^ k = 0 \<longleftrightarrow> \<not> bit w k"
  by (simp add: and_exp_eq_0_iff_not_bit)

lemma bit_or_mask: "bit ((w :: byte) OR 2 ^ k) j \<longleftrightarrow> bit w j \<or> (j = k \<and> k < 8)"
  by (auto simp: bit_simps)

lemma bit_and_not_mask: "bit ((w :: byte) AND NOT (2 ^ k)) j \<longleftrightarrow> bit w j \<and> j \<noteq> k"
  by (auto simp: bit_simps dest: bit_imp_le_length)

lemma byte_255: "(255 :: byte) = - 1"
  by simp

lemma byte_all_ones_bit: "k < 8 \<Longrightarrow> bit (255 :: byte) k"
  by (subst byte_255) simp

lemma byte_not_all_ones:
  assumes "(w :: byte) \<noteq> 255"
  shows "\<exists>k < 8. \<not> bit w k"
proof (rule ccontr)
  assume "\<not> ?thesis"
  then have "\<And>k. k < 8 \<Longrightarrow> bit w k" by blast
  then have "w = - 1"
    by (intro bit_word_eqI) simp
  with assms byte_255 show False by metis
qed

section \<open>Byte arrays and little-endian integers\<close>

text \<open>
  A buffer of bytes (\<^verbatim>\<open>char *\<close> into a block, a free map, an on-disk structure) is a function
  from offsets to bytes, so that pointer arithmetic is a shift of the argument. Integers of the
  on-disk structures are stored the way the compiler lays them out on x86-64: little-endian, at
  the offset of the field.
\<close>

type_synonym arr = "nat \<Rightarrow> byte"

definition zero_arr :: arr where "zero_arr = (\<lambda>_. 0)"

definition arr_of :: "byte list \<Rightarrow> arr" where
  "arr_of xs = (\<lambda>i. if i < length xs then xs ! i else 0)"

definition byte_of :: "'a::len word \<Rightarrow> nat \<Rightarrow> byte" where
  "byte_of w k = ucast (drop_bit (8 * k) w)"

primrec le_load :: "nat \<Rightarrow> arr \<Rightarrow> 'a::len word" where
  "le_load 0 a = 0"
| "le_load (Suc n) a = ucast (a 0) OR push_bit 8 (le_load n (\<lambda>i. a (Suc i)))"

definition get_word :: "nat \<Rightarrow> arr \<Rightarrow> nat \<Rightarrow> 'a::len word" where
  "get_word n a off = le_load n (\<lambda>i. a (off + i))"

definition put_word :: "nat \<Rightarrow> arr \<Rightarrow> nat \<Rightarrow> 'a::len word \<Rightarrow> arr" where
  "put_word n a off w = (\<lambda>i. if off \<le> i \<and> i < off + n then byte_of w (i - off) else a i)"

definition get_s32 :: "arr \<Rightarrow> nat \<Rightarrow> int" where
  "get_s32 a off = sint (get_word 4 a off :: 32 word)"

definition put_s32 :: "arr \<Rightarrow> nat \<Rightarrow> int \<Rightarrow> arr" where
  "put_s32 a off x = put_word 4 a off (word_of_int x :: 32 word)"

definition get_s64 :: "arr \<Rightarrow> nat \<Rightarrow> int" where
  "get_s64 a off = sint (get_word 8 a off :: 64 word)"

definition put_s64 :: "arr \<Rightarrow> nat \<Rightarrow> int \<Rightarrow> arr" where
  "put_s64 a off x = put_word 8 a off (word_of_int x :: 64 word)"

definition is_s32 :: "int \<Rightarrow> bool" where
  "is_s32 x \<longleftrightarrow> - (2 ^ 31) \<le> x \<and> x < 2 ^ 31"

definition is_s64 :: "int \<Rightarrow> bool" where
  "is_s64 x \<longleftrightarrow> - (2 ^ 63) \<le> x \<and> x < 2 ^ 63"

definition s64_check :: "int \<Rightarrow> 'a outcome \<Rightarrow> 'a outcome" where
  "s64_check x m = (if is_s64 x then m else Crash SignedOverflow)"

text \<open>Division of C truncates towards zero.\<close>

definition c_div :: "int \<Rightarrow> int \<Rightarrow> int" where
  "c_div a b = sgn a * sgn b * (\<bar>a\<bar> div \<bar>b\<bar>)"

definition c_mod :: "int \<Rightarrow> int \<Rightarrow> int" where
  "c_mod a b = a - c_div a b * b"

lemma c_div_nonneg [simp]: "0 \<le> a \<Longrightarrow> 0 < b \<Longrightarrow> c_div a b = a div b"
  by (auto simp: c_div_def sgn_if)

lemma c_mod_nonneg [simp]: "0 \<le> a \<Longrightarrow> 0 < b \<Longrightarrow> c_mod a b = a mod b"
  by (simp add: c_mod_def minus_div_mult_eq_mod)

lemma bit_byte_of: "bit (byte_of (w :: 'a::len word) k) j \<longleftrightarrow> j < 8 \<and> bit w (8 * k + j)"
  by (auto simp: byte_of_def bit_simps)

lemma bit_le_load:
  "bit (le_load n a :: 'a::len word) k \<longleftrightarrow> k < LENGTH('a) \<and> k div 8 < n \<and> bit (a (k div 8)) (k mod 8)"
proof (induction n arbitrary: a k)
  case 0
  then show ?case by simp
next
  case (Suc n)
  show ?case
  proof (cases "k < 8")
    case True
    then show ?thesis by (auto simp: bit_simps)
  next
    case False
    then have "k div 8 = Suc ((k - 8) div 8)" "k mod 8 = (k - 8) mod 8"
      by (auto simp: le_div_geq le_mod_geq)
    moreover have "\<not> bit (a 0) k" using False bit_imp_le_length by fastforce
    ultimately show ?thesis using False by (auto simp: bit_simps Suc.IH)
  qed
qed

lemma le_load_byte_of: "LENGTH('a) \<le> 8 * n \<Longrightarrow> le_load n (byte_of (w :: 'a::len word)) = w"
  by (rule bit_word_eqI) (auto simp: bit_le_load bit_byte_of)

lemma le_load_cong:
  "(\<And>i. i < n \<Longrightarrow> a i = b i) \<Longrightarrow> (le_load n a :: 'a::len word) = le_load n b"
proof (induction n arbitrary: a b)
  case (Suc n)
  have "(le_load n (\<lambda>i. a (Suc i)) :: 'a word) = le_load n (\<lambda>i. b (Suc i))"
    using Suc.prems by (intro Suc.IH) simp
  with Suc.prems [of 0] show ?case by simp
qed simp

lemma get_put_word:
  assumes "LENGTH('a) \<le> 8 * n"
  shows "get_word n (put_word n a off (w :: 'a::len word)) off = w"
proof -
  have "(get_word n (put_word n a off w) off :: 'a word) = le_load n (byte_of w)"
    unfolding get_word_def by (rule le_load_cong) (simp add: put_word_def)
  with assms show ?thesis by (simp add: le_load_byte_of)
qed

lemma get_put_word_other:
  "off + n \<le> off' \<or> off' + m \<le> off \<Longrightarrow> get_word m (put_word n a off w) off' = get_word m a off'"
  unfolding get_word_def by (rule le_load_cong) (auto simp: put_word_def)

lemma sint_word_of_int_s32: "is_s32 x \<Longrightarrow> sint (word_of_int x :: 32 word) = x"
  by (simp add: is_s32_def int_word_sint)

lemma sint_word_of_int_s64: "is_s64 x \<Longrightarrow> sint (word_of_int x :: 64 word) = x"
  by (simp add: is_s64_def int_word_sint)

lemma get_put_s32: "is_s32 x \<Longrightarrow> get_s32 (put_s32 a off x) off = x"
  by (simp add: get_s32_def put_s32_def get_put_word sint_word_of_int_s32)

lemma get_put_s64: "is_s64 x \<Longrightarrow> get_s64 (put_s64 a off x) off = x"
  by (simp add: get_s64_def put_s64_def get_put_word sint_word_of_int_s64)

lemma get_s32_zero [simp]: "get_s32 zero_arr off = 0"
proof -
  have "(le_load 4 (\<lambda>_. 0) :: 32 word) = 0" by (rule bit_word_eqI) (simp add: bit_le_load)
  then show ?thesis by (simp add: get_s32_def get_word_def zero_arr_def)
qed

section \<open>Lemmas on natural numbers\<close>

lemma index_in_blocks: "k < n \<Longrightarrow> i < m \<Longrightarrow> k * m + i < n * (m :: nat)"
proof -
  assume "k < n" "i < m"
  then have "Suc k * m \<le> n * m" by (intro mult_le_mono1) simp
  with \<open>i < m\<close> show ?thesis by simp
qed


lemma subset_lessThan_card: "A \<subseteq> {..<n :: nat} \<Longrightarrow> A \<noteq> {..<n} \<longleftrightarrow> card A < n"
proof -
  assume A: "A \<subseteq> {..<n}"
  have "card A \<le> n" using card_mono [OF _ A] by simp
  moreover have "card A = n \<Longrightarrow> A = {..<n}" using card_subset_eq [OF _ A] by simp
  ultimately show ?thesis by fastforce
qed


end
