(* ===== verification/Interfaces.thy ===== *)
theory Interfaces
  imports Prelude
begin

text \<open>
  The interfaces between components: what a client may rely on, stated once as locales,
  with the client's lemmas proved inside them. Each locale is interpreted on the model's own
  definitions in the theory of the component that provides them.
\<close>

section \<open>Allocators of indices\<close>

text \<open>
  The contract of a free map: \<open>alloc\<close> hands out an index that is not in use, or reports
  that none is left, and \<open>release\<close> takes a used index back. The super block relies on it
  for both the inode and the block free map.
\<close>

locale index_allocator =
  fixes inv :: "'b \<Rightarrow> bool"
    and cap :: "'b \<Rightarrow> nat"
    and used :: "'b \<Rightarrow> nat set"
    and alloc :: "'b \<Rightarrow> (nat \<times> 'b) option"
    and release :: "'b \<Rightarrow> nat \<Rightarrow> 'b"
  assumes used_bound: "inv b \<Longrightarrow> used b \<subseteq> {..<cap b}"
    and alloc_inv: "inv b \<Longrightarrow> alloc b = Some (i, b') \<Longrightarrow> inv b' \<and> cap b' = cap b"
    and alloc_used: "inv b \<Longrightarrow> alloc b = Some (i, b') \<Longrightarrow> i \<notin> used b \<and> used b' = insert i (used b)"
    and alloc_full: "inv b \<Longrightarrow> alloc b = None \<Longrightarrow> used b = {..<cap b}"
    and release_inv: "inv b \<Longrightarrow> i \<in> used b \<Longrightarrow> inv (release b i) \<and> cap (release b i) = cap b"
    and release_used: "inv b \<Longrightarrow> i \<in> used b \<Longrightarrow> used (release b i) = used b - {i}"
begin

lemma finite_used: "inv b \<Longrightarrow> finite (used b)"
  using used_bound finite_subset by blast

lemma card_alloc: "inv b \<Longrightarrow> alloc b = Some (i, b') \<Longrightarrow> card (used b') = Suc (card (used b))"
  using alloc_used [of b i b'] finite_used [of b] by simp

lemma card_release: "inv b \<Longrightarrow> i \<in> used b \<Longrightarrow> Suc (card (used (release b i))) = card (used b)"
  using release_used [of b i] finite_used [of b] card_Suc_Diff1 [of "used b" i] by simp

lemma alloc_bound: "inv b \<Longrightarrow> alloc b = Some (i, b') \<Longrightarrow> i < cap b"
  using alloc_inv [of b i b'] alloc_used [of b i b'] used_bound [of b'] by auto

lemma alloc_not_full:
  assumes "inv b" and a: "alloc b = Some (i, b')"
  shows "card (used b) < cap b"
proof -
  have "used b' \<subseteq> {..<cap b}"
    using alloc_inv [OF assms] used_bound [of b'] by simp
  from card_mono [OF _ this] have "card (used b') \<le> cap b" by simp
  with card_alloc [OF assms] show ?thesis by simp
qed

lemma alloc_None_iff: "inv b \<Longrightarrow> alloc b = None \<longleftrightarrow> card (used b) = cap b"
  using alloc_full [of b] alloc_not_full [of b] by (cases "alloc b") auto

lemma release_alloc: "inv b \<Longrightarrow> alloc b = Some (i, b') \<Longrightarrow> used (release b' i) = used b"
  using alloc_inv [of b i b'] alloc_used [of b i b'] release_used [of b' i] by auto

text \<open>Repeated allocation, collecting the indices handed out.\<close>

primrec alloc_many :: "nat \<Rightarrow> 'b \<Rightarrow> (nat list \<times> 'b) option" where
  "alloc_many 0 b = Some ([], b)"
| "alloc_many (Suc n) b =
     (case alloc b of None \<Rightarrow> None
      | Some (i, b') \<Rightarrow> (case alloc_many n b' of None \<Rightarrow> None | Some (is, b'') \<Rightarrow> Some (i # is, b'')))"

lemma alloc_many_distinct:
  "inv b \<Longrightarrow> alloc_many n b = Some (is, b') \<Longrightarrow>
    inv b' \<and> cap b' = cap b \<and> distinct is \<and> length is = n \<and> set is \<inter> used b = {} \<and> used b' = used b \<union> set is"
proof (induction n arbitrary: b "is")
  case 0
  then show ?case by auto
next
  case (Suc n)
  from Suc.prems(2) obtain i b1 js where a: "alloc b = Some (i, b1)"
    and m: "alloc_many n b1 = Some (js, b')" and "is": "is = i # js"
    by (auto split: option.splits)
  have "inv b1" using alloc_inv [OF Suc.prems(1) a] by simp
  from Suc.IH [OF this m] alloc_used [OF Suc.prems(1) a] alloc_inv [OF Suc.prems(1) a] "is"
  show ?case by auto
qed

lemma alloc_many_enough:
  "inv b \<Longrightarrow> card (used b) + n \<le> cap b \<Longrightarrow> \<exists>is b'. alloc_many n b = Some (is, b')"
proof (induction n arbitrary: b)
  case 0
  then show ?case by simp
next
  case (Suc n)
  then have "alloc b \<noteq> None" using alloc_None_iff by fastforce
  then obtain i b1 where a: "alloc b = Some (i, b1)" by auto
  have "inv b1" and "card (used b1) + n \<le> cap b1"
    using alloc_inv [OF Suc.prems(1) a] card_alloc [OF Suc.prems(1) a] Suc.prems(2) by auto
  with Suc.IH a show ?case by fastforce
qed

end

section \<open>First-in first-out queues\<close>

text \<open>
  The contract of a queue: while there is room an element is added at the end, and the element at the
  front is taken. The ready and wait queues of the thread library and the request buffer of the
  web server both give it.
\<close>

locale fifo_queue =
  fixes inv :: "'s \<Rightarrow> bool"
    and contents :: "'s \<Rightarrow> 'a list"
    and has_room :: "'s \<Rightarrow> bool"
    and enq :: "'s \<Rightarrow> 'a \<Rightarrow> 's outcome"
    and deq :: "'s \<Rightarrow> ('a \<times> 's) outcome"
  assumes enq_ok: "inv s \<Longrightarrow> has_room s \<Longrightarrow> \<exists>s'. enq s x = Ok s' \<and> inv s' \<and> contents s' = contents s @ [x]"
    and deq_ok: "inv s \<Longrightarrow> contents s = x # xs \<Longrightarrow> \<exists>s'. deq s = Ok (x, s') \<and> inv s' \<and> contents s' = xs"
begin

text \<open>
  A run of additions (\<open>Some x\<close>) and removals (\<open>None\<close>); a removal from an empty queue or an addition to a
  full one does not happen.
\<close>

fun run :: "'a option list \<Rightarrow> 's \<Rightarrow> ('a list \<times> 's) option" where
  "run [] s = Some ([], s)"
| "run (Some x # ops) s =
     (if has_room s then (case enq s x of Ok s' \<Rightarrow> run ops s' | Crash _ \<Rightarrow> None) else None)"
| "run (None # ops) s =
     (if contents s = [] then None
      else case deq s of Ok (x, s') \<Rightarrow> map_option (\<lambda>(out, t). (x # out, t)) (run ops s') | Crash _ \<Rightarrow> None)"

lemma enq_cases:
  assumes "inv s" and "has_room s"
  obtains s' where "enq s x = Ok s'" "inv s'" "contents s' = contents s @ [x]"
  using enq_ok [OF assms] by blast

lemma deq_cases:
  assumes "inv s" and "contents s \<noteq> []"
  obtains x s' where "deq s = Ok (x, s')" "inv s'" "contents s = x # contents s'"
  using assms deq_ok [of s] by (metis neq_Nil_conv)

text \<open>Whatever the order of the operations, elements leave in the order they came.\<close>

lemma run_fifo:
  "inv s \<Longrightarrow> run ops s = Some (out, s') \<Longrightarrow> inv s' \<and> contents s @ List.map_filter id ops = out @ contents s'"
proof (induction ops s arbitrary: out rule: run.induct)
  case (1 s)
  then show ?case by simp
next
  case (2 x ops s)
  from 2(3) have room: "has_room s" by (simp split: if_splits)
  from enq_cases [OF 2(2) room] obtain t where t: "enq s x = Ok t" "inv t" "contents t = contents s @ [x]" .
  from 2(1) [OF room t(1) t(2)] 2(3) t room show ?case by simp
next
  case (3 ops s)
  from 3(3) have ne: "contents s \<noteq> []" by (simp split: if_splits)
  from deq_cases [OF 3(2) ne] obtain x t where t: "deq s = Ok (x, t)" "inv t" "contents s = x # contents t" .
  from 3(3) ne t obtain out' where out': "run ops t = Some (out', s')" "out = x # out'" by (auto split: option.splits)
  from 3(1) [OF ne t(1) refl t(2) out'(1)] out'(2) t(3) show ?case by simp
qed

end

section \<open>Caches of files\<close>

text \<open>
  What a cache holds, from the least to the most recently used item. A lookup counts one more user and makes the
  item the most recently used one; an insertion drops the least recently used items without a
  user until there is room.
\<close>

record 'n item =
  it_name :: 'n
  it_size :: int
  it_uses :: int

definition total_size :: "'n item list \<Rightarrow> int" where
  "total_size its = sum_list (map it_size its)"

definition spec_lookup :: "'n \<Rightarrow> 'n item list \<Rightarrow> 'n item list" where
  "spec_lookup nm its =
     (case find (\<lambda>i. it_name i = nm) its of None \<Rightarrow> its
      | Some i \<Rightarrow> filter (\<lambda>j. it_name j \<noteq> nm) its @ [i\<lparr>it_uses := it_uses i + 1\<rparr>])"

fun spec_evict :: "int \<Rightarrow> 'n item list \<Rightarrow> 'n item list" where
  "spec_evict m [] = []"
| "spec_evict m (i # its) =
     (if it_uses i > 0 then i # spec_evict m its else if m \<le> it_size i then its else spec_evict (m - it_size i) its)"

definition spec_room :: "int \<Rightarrow> int \<Rightarrow> 'n item list \<Rightarrow> 'n item list" where
  "spec_room mx sz its = (if total_size its + sz > mx then spec_evict (total_size its + sz - mx) its else its)"

definition spec_insert :: "int \<Rightarrow> 'n \<Rightarrow> int \<Rightarrow> 'n item list \<Rightarrow> int \<times> 'n item list" where
  "spec_insert mx nm sz its =
     (if nm \<in> it_name ` set its \<or> sz > mx then (0, its)
      else if total_size (spec_room mx sz its) + sz > mx then (0, spec_room mx sz its)
      else (1, spec_room mx sz its @ [\<lparr>it_name = nm, it_size = sz, it_uses = 0\<rparr>]))"

lemma spec_evict_sub: "set (spec_evict m its) \<subseteq> set its"
  by (induction m its rule: spec_evict.induct) auto

lemma spec_evict_used: "i \<in> set its \<Longrightarrow> it_uses i > 0 \<Longrightarrow> i \<in> set (spec_evict m its)"
  by (induction m its rule: spec_evict.induct) auto

lemma spec_evict_total:
  "\<forall>i \<in> set its. 0 \<le> it_size i \<Longrightarrow>
   total_size (spec_evict m its) + m \<le> total_size its \<or> spec_evict m its = filter (\<lambda>i. it_uses i > 0) its"
  by (induction m its rule: spec_evict.induct) (auto simp: total_size_def)

lemma total_size_nonneg: "\<forall>i \<in> set its. 0 \<le> it_size i \<Longrightarrow> 0 \<le> total_size its"
  unfolding total_size_def by (intro sum_list_nonneg) auto

lemma total_size_filter: "\<forall>i \<in> set its. 0 \<le> it_size i \<Longrightarrow> total_size (filter P its) \<le> total_size its"
  by (induction its) (auto simp: total_size_def)

lemma find_last: "\<forall>i \<in> set xs. \<not> P i \<Longrightarrow> P x \<Longrightarrow> find P (xs @ [x]) = Some x"
  by (induction xs) auto

lemma spec_evict_ge_used:
  "\<forall>i \<in> set its. 0 \<le> it_size i \<Longrightarrow> total_size (filter (\<lambda>i. it_uses i > 0) its) \<le> total_size (spec_evict m its)"
proof (induction m its rule: spec_evict.induct)
  case (2 m i its)
  from total_size_filter [of its] 2 show ?case by (auto simp: total_size_def)
qed simp

locale lru_cache =
  fixes inv :: "'c \<Rightarrow> bool" and items :: "'c \<Rightarrow> 'n item list" and limit :: "'c \<Rightarrow> int" and data :: "'c \<Rightarrow> 'f \<Rightarrow> ('n \<times> int) option"
    and lookup :: "'c \<Rightarrow> 'n \<Rightarrow> ('e option \<times> 'c) outcome" and insert :: "'c \<Rightarrow> 'f \<Rightarrow> (int \<times> 'c) outcome"
  assumes lookup_law: "inv c \<Longrightarrow> \<exists>r c'. lookup c nm = Ok (r, c') \<and> inv c' \<and> items c' = spec_lookup nm (items c) \<and>
      (r \<noteq> None \<longleftrightarrow> nm \<in> it_name ` set (items c)) \<and> limit c' = limit c \<and> data c' = data c"
    and insert_law: "inv c \<Longrightarrow> data c f = Some (nm, sz) \<Longrightarrow> 0 \<le> sz \<Longrightarrow> \<exists>c'. insert c f = Ok (fst (spec_insert (limit c) nm sz (items c)), c') \<and> inv c' \<and>
      items c' = snd (spec_insert (limit c) nm sz (items c)) \<and> limit c' = limit c \<and> data c' = data c"
    and items_law: "inv c \<Longrightarrow> total_size (items c) \<le> limit c \<and> distinct (map it_name (items c)) \<and> (\<forall>i \<in> set (items c). 0 \<le> it_size i \<and> 0 \<le> it_uses i)"
begin

lemma insert_result:
  assumes "inv c" and "data c f = Some (nm, sz)" and "0 \<le> sz"
  shows "\<exists>r c'. insert c f = Ok (r, c') \<and> inv c' \<and> total_size (items c') \<le> limit c \<and>
    (r = 1 \<longleftrightarrow> nm \<notin> it_name ` set (items c) \<and> total_size (filter (\<lambda>i. it_uses i > 0) (items c)) + sz \<le> limit c) \<and>
    (\<forall>i \<in> set (items c). it_uses i > 0 \<longrightarrow> i \<in> set (items c'))"
proof -
  let ?its = "items c" and ?mx = "limit c"
  obtain c' where c': "insert c f = Ok (fst (spec_insert ?mx nm sz ?its), c')" "inv c'" "items c' = snd (spec_insert ?mx nm sz ?its)" "limit c' = ?mx"
    using insert_law [OF assms] by blast
  have I: "total_size ?its \<le> ?mx" "\<forall>i \<in> set ?its. 0 \<le> it_size i" using items_law [OF assms(1)] by auto
  have used: "0 \<le> total_size (filter (\<lambda>i. it_uses i > 0) ?its)" by (rule total_size_nonneg) (use I(2) in auto)
  have "total_size (filter (\<lambda>i. it_uses i > 0) ?its) + sz \<le> ?mx \<longleftrightarrow> total_size (spec_room ?mx sz ?its) + sz \<le> ?mx"
    using spec_evict_total [OF I(2), of "total_size ?its + sz - ?mx"] spec_evict_ge_used [OF I(2), of "total_size ?its + sz - ?mx"]
      total_size_filter [OF I(2), of "\<lambda>i. it_uses i > 0"]
    by (auto simp: spec_room_def)
  then have "fst (spec_insert ?mx nm sz ?its) = 1 \<longleftrightarrow> nm \<notin> it_name ` set ?its \<and> total_size (filter (\<lambda>i. it_uses i > 0) ?its) + sz \<le> ?mx"
    using used by (auto simp: spec_insert_def)
  moreover have "i \<in> set (items c')" if "i \<in> set ?its" "it_uses i > 0" for i
    using that spec_evict_used [OF that] by (simp add: c'(3) spec_insert_def spec_room_def)
  moreover have "total_size (items c') \<le> ?mx" using items_law [OF c'(2)] c'(4) by simp
  ultimately show ?thesis using c'(1,2) by auto
qed

lemma lookup_after_insert:
  assumes "inv c" and "data c f = Some (nm, sz)" and "0 \<le> sz" and ins: "insert c f = Ok (1, c')"
  shows "\<exists>e c''. lookup c' nm = Ok (Some e, c'') \<and> inv c'' \<and> (\<exists>its. items c'' = its @ [\<lparr>it_name = nm, it_size = sz, it_uses = 1\<rparr>])"
proof -
  from insert_law [OF assms(1-3)] ins have c': "fst (spec_insert (limit c) nm sz (items c)) = 1" "inv c'" "items c' = snd (spec_insert (limit c) nm sz (items c))" by auto
  let ?new = "\<lparr>it_name = nm, it_size = sz, it_uses = 0\<rparr>"
  obtain its where its: "items c' = its @ [?new]" using c'(1,3) by (auto simp: spec_insert_def split: if_splits)
  with items_law [OF c'(2)] have "\<forall>i \<in> set its. it_name i \<noteq> nm" by auto
  then have "find (\<lambda>i. it_name i = nm) (items c') = Some ?new" unfolding its by (intro find_last) simp_all
  then have "spec_lookup nm (items c') = filter (\<lambda>j. it_name j \<noteq> nm) (items c') @ [\<lparr>it_name = nm, it_size = sz, it_uses = 1\<rparr>]" by (simp add: spec_lookup_def)
  moreover have "nm \<in> it_name ` set (items c')" by (simp add: its)
  ultimately show ?thesis using lookup_law [OF c'(2), of nm] by auto
qed

end

end
