(* ===== verification/FS_Bitmap.thy ===== *)
theory FS_Bitmap
  imports Interfaces
begin

text \<open>
  The bitmap of \<^verbatim>\<open>fs/bitmap.c\<close>: a fixed-size array of bits held in bytes, with the
  operations that allocate, set, clear and test a bit. A bit index is a
  \<^verbatim>\<open>u_int32_t\<close>, here a natural number; the only computation of the file that can wrap,
  rounding the number of bits up to bytes, has its wrap-around written out.
\<close>

section \<open>Definitions\<close>

definition BITS_PER_WORD :: nat where "BITS_PER_WORD = 8"

definition WORD_ALLBITS :: byte where "WORD_ALLBITS = 255"

definition DIVROUNDUP_u32 :: "nat \<Rightarrow> nat \<Rightarrow> nat" where
  "DIVROUNDUP_u32 a b = ((a + b - 1) mod 2 ^ 32) div b"

record bitmap =
  nbits :: nat
  bm_v :: "byte list"

text \<open>The loop of \<open>bitmap_create\<close> that marks the bits from \<open>j\<close> to the end of a word.\<close>

function mark_leftover :: "byte \<Rightarrow> nat \<Rightarrow> byte" where
  "mark_leftover w j =
     (if j < BITS_PER_WORD then mark_leftover (w OR push_bit j 1) (Suc j) else w)"
  by pat_completeness auto
termination
  by (relation "measure (\<lambda>(w, j). BITS_PER_WORD - j)") auto

text \<open>The two arguments say whether the two calls of \<^verbatim>\<open>malloc\<close> succeed.\<close>

definition bitmap_create :: "bool \<Rightarrow> bool \<Rightarrow> nat \<Rightarrow> (int \<times> bitmap option) outcome" where
  "bitmap_create malloc_b malloc_v nb =
     (let words = DIVROUNDUP_u32 nb BITS_PER_WORD; v0 = replicate words 0 in
      if \<not> malloc_b then Ok (- ENOMEM, None)
      else if \<not> malloc_v then Ok (- ENOMEM, None)
      else if nb div BITS_PER_WORD < words then
        let ix = words - 1; overbits = nb - ix * BITS_PER_WORD in
        c_assert (nb div BITS_PER_WORD = words - 1)
          (c_assert (overbits > 0 \<and> overbits < BITS_PER_WORD)
            (Ok (0, Some \<lparr>nbits = nb, bm_v = v0[ix := mark_leftover (v0 ! ix) overbits]\<rparr>)))
      else Ok (0, Some \<lparr>nbits = nb, bm_v = v0\<rparr>))"

definition bitmap_getdata :: "bitmap \<Rightarrow> byte list" where
  "bitmap_getdata b = bm_v b"

definition bitmap_getsize :: "bitmap \<Rightarrow> nat" where
  "bitmap_getsize b = nbits b"

text \<open>
  \<open>bitmap_alloc\<close>: the inner loop looks for a clear bit of the word \<open>ix\<close>, the outer loop
  for a word that is not full. The out-parameter \<^verbatim>\<open>index\<close> is an argument (its value
  before the call) and a component of the result.
\<close>

function alloc_in_word :: "bitmap \<Rightarrow> nat \<Rightarrow> nat \<Rightarrow> (int \<times> nat \<times> bitmap) outcome" where
  "alloc_in_word b ix off =
     (if off < BITS_PER_WORD then
        let mask = push_bit off 1 in
        if bm_v b ! ix AND mask = 0 then
          let i = ix * BITS_PER_WORD + off in
          c_assert (i < nbits b) (Ok (0, i, b\<lparr>bm_v := (bm_v b)[ix := bm_v b ! ix OR mask]\<rparr>))
        else alloc_in_word b ix (Suc off)
      else Crash AssertFail)"
  by pat_completeness auto
termination
  by (relation "measure (\<lambda>(b, ix, off). BITS_PER_WORD - off)") auto

function bitmap_alloc_from :: "bitmap \<Rightarrow> nat \<Rightarrow> nat \<Rightarrow> nat \<Rightarrow> (int \<times> nat \<times> bitmap) outcome" where
  "bitmap_alloc_from b index maxix ix =
     (if ix < maxix then
        mem_check (ix < length (bm_v b))
          (if bm_v b ! ix \<noteq> WORD_ALLBITS then alloc_in_word b ix 0
           else bitmap_alloc_from b index maxix (Suc ix))
      else Ok (- ENOSPC, index, b))"
  by pat_completeness auto
termination
  by (relation "measure (\<lambda>(b, index, maxix, ix). maxix - ix)") auto

definition bitmap_alloc :: "bitmap \<Rightarrow> nat \<Rightarrow> (int \<times> nat \<times> bitmap) outcome" where
  "bitmap_alloc b index =
     bitmap_alloc_from b index (DIVROUNDUP_u32 (nbits b) BITS_PER_WORD) 0"

definition bitmap_translate :: "nat \<Rightarrow> nat \<times> byte" where
  "bitmap_translate bitno =
     (let ix = bitno div BITS_PER_WORD; off = bitno mod BITS_PER_WORD in (ix, push_bit off 1))"

definition bitmap_mark :: "bitmap \<Rightarrow> nat \<Rightarrow> bitmap outcome" where
  "bitmap_mark b index =
     c_assert (index < nbits b)
       (let (ix, mask) = bitmap_translate index in
        mem_check (ix < length (bm_v b))
          (c_assert (bm_v b ! ix AND mask = 0)
            (Ok (b\<lparr>bm_v := (bm_v b)[ix := bm_v b ! ix OR mask]\<rparr>))))"

definition bitmap_unmark :: "bitmap \<Rightarrow> nat \<Rightarrow> bitmap outcome" where
  "bitmap_unmark b index =
     c_assert (index < nbits b)
       (let (ix, mask) = bitmap_translate index in
        mem_check (ix < length (bm_v b))
          (c_assert (bm_v b ! ix AND mask \<noteq> 0)
            (Ok (b\<lparr>bm_v := (bm_v b)[ix := bm_v b ! ix AND NOT mask]\<rparr>))))"

text \<open>\<open>bitmap_isset\<close> does not check its index against \<open>nbits\<close>; it returns the masked word.\<close>

definition bitmap_isset :: "bitmap \<Rightarrow> nat \<Rightarrow> int outcome" where
  "bitmap_isset b index =
     (let (ix, mask) = bitmap_translate index in
      mem_check (ix < length (bm_v b)) (Ok (uint (bm_v b ! ix AND mask))))"

function nr_allocated_from :: "bitmap \<Rightarrow> nat \<Rightarrow> int \<Rightarrow> int outcome" where
  "nr_allocated_from b i nr =
     (if i < nbits b then
        and_then (bitmap_isset b i) (\<lambda>r. nr_allocated_from b (Suc i) (if r \<noteq> 0 then nr + 1 else nr))
      else Ok nr)"
  by pat_completeness auto
termination
  by (relation "measure (\<lambda>(b, i, nr). nbits b - i)") auto

definition bitmap_nr_allocated :: "bitmap \<Rightarrow> int outcome" where
  "bitmap_nr_allocated b = nr_allocated_from b 0 0"

declare mark_leftover.simps [simp del] alloc_in_word.simps [simp del]
  bitmap_alloc_from.simps [simp del] nr_allocated_from.simps [simp del]

section \<open>Well-formed bitmaps and the set they stand for\<close>

definition bit_set :: "bitmap \<Rightarrow> nat \<Rightarrow> bool" where
  "bit_set b i \<longleftrightarrow> bit (bm_v b ! (i div 8)) (i mod 8)"

definition used_bits :: "bitmap \<Rightarrow> nat set" where
  "used_bits b = {i. i < nbits b \<and> bit_set b i}"

text \<open>
  The byte array covers the bits, and the bits past the end are marked, so that
  \<open>bitmap_alloc\<close> never finds one of them. The bound on \<open>nbits\<close> excludes the wrap-around
  of the rounding.
\<close>

definition bitmap_wf :: "bitmap \<Rightarrow> bool" where
  "bitmap_wf b \<longleftrightarrow> nbits b + 7 < 2 ^ 32 \<and> length (bm_v b) = (nbits b + 7) div 8 \<and>
     (\<forall>i. nbits b \<le> i \<and> i < 8 * length (bm_v b) \<longrightarrow> bit_set b i)"

section \<open>Lemmas on the operations\<close>

lemma bitmap_wf_words: "bitmap_wf b \<Longrightarrow> DIVROUNDUP_u32 (nbits b) BITS_PER_WORD = length (bm_v b)"
  by (simp add: bitmap_wf_def DIVROUNDUP_u32_def BITS_PER_WORD_def)

lemma bitmap_wf_index: "bitmap_wf b \<Longrightarrow> i < nbits b \<Longrightarrow> i div 8 < length (bm_v b)"
  by (simp add: bitmap_wf_def)

lemma used_bits_bound: "used_bits b \<subseteq> {..<nbits b}"
  by (auto simp: used_bits_def)

text \<open>Writing one byte of the array changes the bits of that byte only.\<close>

lemma bit_set_or:
  assumes "i div 8 < length (bm_v b)"
  shows "bit_set (b\<lparr>bm_v := (bm_v b)[i div 8 := bm_v b ! (i div 8) OR 2 ^ (i mod 8)]\<rparr>) j
      \<longleftrightarrow> bit_set b j \<or> j = i"
proof (cases "j div 8 = i div 8")
  case True
  then have "j mod 8 = i mod 8 \<longleftrightarrow> j = i" by (metis mod_div_mult_eq)
  with True assms show ?thesis by (auto simp: bit_set_def bit_or_mask)
qed (use assms in \<open>auto simp: bit_set_def\<close>)

lemma bit_set_and_not:
  assumes "i div 8 < length (bm_v b)"
  shows "bit_set (b\<lparr>bm_v := (bm_v b)[i div 8 := bm_v b ! (i div 8) AND NOT (2 ^ (i mod 8))]\<rparr>) j
      \<longleftrightarrow> bit_set b j \<and> j \<noteq> i"
proof (cases "j div 8 = i div 8")
  case True
  then have "j mod 8 = i mod 8 \<longleftrightarrow> j = i" by (metis mod_div_mult_eq)
  with True assms show ?thesis by (auto simp: bit_set_def bit_and_not_mask)
qed (use assms in \<open>auto simp: bit_set_def\<close>)

definition set_bit_at :: "bitmap \<Rightarrow> nat \<Rightarrow> bitmap" where
  "set_bit_at b i = b\<lparr>bm_v := (bm_v b)[i div 8 := bm_v b ! (i div 8) OR 2 ^ (i mod 8)]\<rparr>"

definition clear_bit_at :: "bitmap \<Rightarrow> nat \<Rightarrow> bitmap" where
  "clear_bit_at b i =
     b\<lparr>bm_v := (bm_v b)[i div 8 := bm_v b ! (i div 8) AND NOT (2 ^ (i mod 8))]\<rparr>"

lemma set_bit_at_used:
  assumes "bitmap_wf b" and "i < nbits b"
  shows "bitmap_wf (set_bit_at b i)" and "used_bits (set_bit_at b i) = insert i (used_bits b)"
    and "nbits (set_bit_at b i) = nbits b" and "length (bm_v (set_bit_at b i)) = length (bm_v b)"
proof -
  note ix = bitmap_wf_index [OF assms]
  show "bitmap_wf (set_bit_at b i)"
    using assms bit_set_or [OF ix] by (auto simp: bitmap_wf_def set_bit_at_def)
  show "used_bits (set_bit_at b i) = insert i (used_bits b)"
    using assms bit_set_or [OF ix] by (auto simp: used_bits_def set_bit_at_def)
qed (simp_all add: set_bit_at_def)

lemma clear_bit_at_used:
  assumes "bitmap_wf b" and "i < nbits b"
  shows "bitmap_wf (clear_bit_at b i)" and "used_bits (clear_bit_at b i) = used_bits b - {i}"
    and "nbits (clear_bit_at b i) = nbits b" and "length (bm_v (clear_bit_at b i)) = length (bm_v b)"
proof -
  note ix = bitmap_wf_index [OF assms]
  show "bitmap_wf (clear_bit_at b i)"
    using assms bit_set_and_not [OF ix] by (auto simp: bitmap_wf_def clear_bit_at_def)
  show "used_bits (clear_bit_at b i) = used_bits b - {i}"
    using assms bit_set_and_not [OF ix] by (auto simp: used_bits_def clear_bit_at_def)
qed (simp_all add: clear_bit_at_def)

text \<open>The inner loop finds the first clear bit of a word that is not full.\<close>

lemma alloc_in_word_first:
  assumes "\<And>j. off \<le> j \<Longrightarrow> j < k \<Longrightarrow> bit (bm_v b ! ix) j" and "\<not> bit (bm_v b ! ix) k"
    and "off \<le> k" and "k < 8" and "ix * 8 + k < nbits b"
  shows "alloc_in_word b ix off = Ok (0, ix * 8 + k, set_bit_at b (ix * 8 + k))"
  using assms
proof (induction b ix off rule: alloc_in_word.induct)
  case (1 b ix off)
  show ?case
  proof (cases "off = k")
    case True
    with "1.prems" show ?thesis
      by (subst alloc_in_word.simps) (simp add: BITS_PER_WORD_def and_mask_zero_iff set_bit_at_def Let_def)
  next
    case False
    with "1.prems" have "bit (bm_v b ! ix) off" "off < 8" by auto
    with "1.IH" "1.prems" False show ?thesis
      by (subst alloc_in_word.simps) (simp add: BITS_PER_WORD_def and_mask_zero_iff Let_def)
  qed
qed

definition least_clear :: "bitmap \<Rightarrow> nat \<Rightarrow> bool" where
  "least_clear b i \<longleftrightarrow> \<not> bit_set b i \<and> (\<forall>j < i. bit_set b j)"

lemma full_word_bits: "bm_v b ! ix = WORD_ALLBITS \<Longrightarrow> ix * 8 \<le> j \<Longrightarrow> j < Suc ix * 8 \<Longrightarrow> bit_set b j"
proof -
  assume "bm_v b ! ix = WORD_ALLBITS" "ix * 8 \<le> j" "j < Suc ix * 8"
  moreover from this have "j div 8 = ix" by simp
  ultimately show ?thesis
    using byte_all_ones_bit [of "j mod 8"] by (simp only: bit_set_def WORD_ALLBITS_def)
qed

lemma bitmap_alloc_from_cases:
  assumes "bitmap_wf b" and "ix \<le> length (bm_v b)" and "\<And>j. j < ix * 8 \<Longrightarrow> bit_set b j"
  shows "(\<exists>i. i < nbits b \<and> least_clear b i \<and>
            bitmap_alloc_from b index (length (bm_v b)) ix = Ok (0, i, set_bit_at b i))
       \<or> (\<forall>j < 8 * length (bm_v b). bit_set b j) \<and>
            bitmap_alloc_from b index (length (bm_v b)) ix = Ok (- ENOSPC, index, b)"
  using assms(2,3)
proof (induction "length (bm_v b) - ix" arbitrary: ix)
  case 0
  then show ?case by (subst bitmap_alloc_from.simps) (simp add: mult.commute)
next
  case (Suc n)
  then have ix: "ix < length (bm_v b)" by simp
  show ?case
  proof (cases "bm_v b ! ix = WORD_ALLBITS")
    case True
    have "\<And>j. j < Suc ix * 8 \<Longrightarrow> bit_set b j"
      using Suc.prems(2) full_word_bits [OF True] by (metis linorder_not_less)
    with Suc.hyps(1) [of "Suc ix"] Suc.hyps(2) ix True show ?thesis
      by (subst (1 2) bitmap_alloc_from.simps) (simp add: True)
  next
    case False
    define k where "k = (LEAST k. \<not> bit (bm_v b ! ix) k)"
    obtain k0 where k0: "k0 < 8" "\<not> bit (bm_v b ! ix) k0"
      using byte_not_all_ones False by (auto simp: WORD_ALLBITS_def)
    have k: "\<not> bit (bm_v b ! ix) k" unfolding k_def using k0(2) by (rule LeastI)
    have "k \<le> k0" unfolding k_def using k0(2) by (rule Least_le)
    with k0(1) have "k < 8" by simp
    have below: "\<And>j. j < k \<Longrightarrow> bit (bm_v b ! ix) j" using not_less_Least k_def by blast
    have clear: "\<not> bit_set b (ix * 8 + k)" using k \<open>k < 8\<close> by (simp add: bit_set_def)
    have "ix * 8 + k < 8 * length (bm_v b)" using ix \<open>k < 8\<close> by simp
    then have in_range: "ix * 8 + k < nbits b"
      using clear assms(1) unfolding bitmap_wf_def by (meson linorder_not_less)
    have "least_clear b (ix * 8 + k)"
      unfolding least_clear_def
    proof (intro conjI allI impI clear)
      fix j assume "j < ix * 8 + k"
      show "bit_set b j"
      proof (cases "j < ix * 8")
        case False
        then obtain m where "j = ix * 8 + m" by (metis le_iff_add not_le)
        with \<open>j < ix * 8 + k\<close> \<open>k < 8\<close> below show ?thesis by (simp add: bit_set_def)
      qed (rule Suc.prems(2))
    qed
    then show ?thesis
      using alloc_in_word_first [of 0 k b ix] below k \<open>k < 8\<close> in_range ix False
      by (subst (1 2) bitmap_alloc_from.simps) auto
  qed
qed

lemma least_clear_used:
  "i < nbits b \<Longrightarrow> least_clear b i \<Longrightarrow> i \<notin> used_bits b \<and> {..<i} \<subseteq> used_bits b"
  by (auto simp: least_clear_def used_bits_def)

lemma bitmap_alloc_cases [consumes 1, case_names found full]:
  assumes "bitmap_wf b"
  obtains (found) i where "i < nbits b" "i \<notin> used_bits b" "{..<i} \<subseteq> used_bits b"
      "bitmap_alloc b index = Ok (0, i, set_bit_at b i)"
  | (full) "used_bits b = {..<nbits b}" "bitmap_alloc b index = Ok (- ENOSPC, index, b)"
proof -
  have all: "\<forall>j < 8 * length (bm_v b). bit_set b j \<Longrightarrow> used_bits b = {..<nbits b}"
    using bitmap_wf_index [OF assms] by (auto simp: used_bits_def) (metis div_less_iff_less_mult mult.commute zero_less_numeral)
  from bitmap_alloc_from_cases [OF assms, of 0 index] show thesis
    unfolding bitmap_alloc_def bitmap_wf_words [OF assms]
    using least_clear_used found full all unfolding bitmap_alloc_def bitmap_wf_words [OF assms] by fastforce
qed

lemma bitmap_unmark_used:
  assumes "bitmap_wf b" and "i \<in> used_bits b"
  shows "bitmap_unmark b i = Ok (clear_bit_at b i)"
  using assms bitmap_wf_index [OF assms(1), of i]
  by (simp add: bitmap_unmark_def bitmap_translate_def BITS_PER_WORD_def used_bits_def bit_set_def
      and_mask_zero_iff clear_bit_at_def Let_def)

lemma bitmap_mark_unused:
  assumes "bitmap_wf b" and "i < nbits b" and "i \<notin> used_bits b"
  shows "bitmap_mark b i = Ok (set_bit_at b i)"
  using assms bitmap_wf_index [OF assms(1), of i]
  by (simp add: bitmap_mark_def bitmap_translate_def BITS_PER_WORD_def used_bits_def bit_set_def
      and_mask_zero_iff set_bit_at_def Let_def)

lemma bitmap_unmark_assert:
  "bitmap_wf b \<Longrightarrow> i \<notin> used_bits b \<Longrightarrow> bitmap_unmark b i = Crash AssertFail"
  using bitmap_wf_index [of b i]
  by (auto simp: bitmap_unmark_def bitmap_translate_def BITS_PER_WORD_def used_bits_def bit_set_def
      and_mask_zero_iff Let_def c_assert_def mem_check_def)

lemma bitmap_mark_assert:
  "bitmap_wf b \<Longrightarrow> i \<in> used_bits b \<or> nbits b \<le> i \<Longrightarrow> bitmap_mark b i = Crash AssertFail"
  using bitmap_wf_index [of b i]
  by (auto simp: bitmap_mark_def bitmap_translate_def BITS_PER_WORD_def used_bits_def bit_set_def
      and_mask_zero_iff Let_def c_assert_def mem_check_def)

lemma bitmap_isset_iff:
  assumes "bitmap_wf b" and "i < nbits b"
  shows "\<exists>r. bitmap_isset b i = Ok r \<and> (r \<noteq> 0 \<longleftrightarrow> i \<in> used_bits b)"
  using assms bitmap_wf_index [OF assms]
  by (auto simp: bitmap_isset_def bitmap_translate_def BITS_PER_WORD_def used_bits_def bit_set_def
      Let_def uint_0_iff and_mask_zero_iff)

lemma nr_allocated_from_card:
  assumes "bitmap_wf b" and "i \<le> nbits b"
  shows "nr_allocated_from b i nr = Ok (nr + int (card (used_bits b \<inter> {i..})))"
  using assms(2)
proof (induction "nbits b - i" arbitrary: i nr)
  case 0
  then have "used_bits b \<inter> {i..} = {}" using used_bits_bound [of b] by auto
  with 0 show ?case by (subst nr_allocated_from.simps) simp
next
  case (Suc n)
  then have i: "i < nbits b" by simp
  have fin: "finite (used_bits b)" using used_bits_bound finite_subset by blast
  from bitmap_isset_iff [OF assms(1) i] obtain r where
    r: "bitmap_isset b i = Ok r" "r \<noteq> 0 \<longleftrightarrow> i \<in> used_bits b" by blast
  have split: "used_bits b \<inter> {i..} =
      (if i \<in> used_bits b then insert i (used_bits b \<inter> {Suc i..}) else used_bits b \<inter> {Suc i..})"
    by (auto simp: not_less_eq_eq le_Suc_eq) (metis le_antisym not_less_eq_eq)+
  from Suc.hyps(1) [of "Suc i"] Suc.hyps(2) i r fin show ?case
    by (subst nr_allocated_from.simps) (simp add: split)
qed

lemma bit_mark_leftover: "bit (mark_leftover w j) k \<longleftrightarrow> bit w k \<or> j \<le> k \<and> k < 8"
proof (induction w j rule: mark_leftover.induct)
  case (1 w j)
  show ?case
  proof (cases "j < 8")
    case True
    with "1" show ?thesis
      by (subst mark_leftover.simps) (auto simp: BITS_PER_WORD_def bit_or_mask)
  next
    case False
    then show ?thesis by (subst mark_leftover.simps) (auto simp: BITS_PER_WORD_def)
  qed
qed

lemma bitmap_create_empty:
  assumes "nb + 7 < 2 ^ 32"
  shows "\<exists>b. bitmap_create True True nb = Ok (0, Some b) \<and> bitmap_wf b \<and> nbits b = nb \<and> used_bits b = {}"
proof -
  define n where "n = (nb + 7) div 8"
  have words: "DIVROUNDUP_u32 nb 8 = n"
    using assms by (simp add: DIVROUNDUP_u32_def n_def)
  show ?thesis
  proof (cases "nb div 8 < n")
    case False
    then have "8 * n = nb" by (simp add: n_def)
    then show ?thesis using assms False
      by (auto simp: bitmap_create_def words Let_def bitmap_wf_def used_bits_def bit_set_def n_def BITS_PER_WORD_def)
  next
    case True
    let ?b = "\<lparr>nbits = nb, bm_v = (replicate n 0)[n - 1 := mark_leftover 0 (nb - (n - 1) * 8)]\<rparr>"
    have eq: "nb div 8 = n - 1" and over: "nb - (n - 1) * 8 > 0" "nb - (n - 1) * 8 < 8"
      using True by (auto simp: n_def)
    have bits: "bit_set ?b i \<longleftrightarrow> nb \<le> i" if "i < 8 * n" for i
    proof (cases "i div 8 = n - 1")
      case True
      then have "i = (n - 1) * 8 + i mod 8" by (metis div_mult_mod_eq)
      with True that over eq show ?thesis
        by (simp add: bit_set_def bit_mark_leftover) linarith
    next
      case False
      with that have "i div 8 < n - 1" by linarith
      moreover from this eq have "i < nb" by (metis div_le_mono leD not_le_imp_less)
      ultimately show ?thesis by (simp add: bit_set_def)
    qed
    have "nb \<le> 8 * n" by (simp add: n_def)
    then have "bitmap_wf ?b \<and> used_bits ?b = {}"
      using assms bits by (auto simp: bitmap_wf_def used_bits_def n_def)
    moreover have "bitmap_create True True nb = Ok (0, Some ?b)"
      using eq over True by (simp add: bitmap_create_def words Let_def BITS_PER_WORD_def)
    ultimately show ?thesis by simp
  qed
qed

section \<open>The bitmap as an allocator of indices\<close>

text \<open>The two operations in the form of the interface \<open>index_allocator\<close>.\<close>

definition bm_alloc :: "bitmap \<Rightarrow> (nat \<times> bitmap) option" where
  "bm_alloc b = (case bitmap_alloc b 0 of Ok (r, i, b') \<Rightarrow> if r < 0 then None else Some (i, b')
                                         | Crash _ \<Rightarrow> None)"

definition bm_release :: "bitmap \<Rightarrow> nat \<Rightarrow> bitmap" where
  "bm_release b i = (case bitmap_unmark b i of Ok b' \<Rightarrow> b' | Crash _ \<Rightarrow> b)"

interpretation bm: index_allocator bitmap_wf nbits used_bits bm_alloc bm_release
proof unfold_locales
  fix b :: bitmap
  show "used_bits b \<subseteq> {..<nbits b}" by (rule used_bits_bound)
next
  fix b b' :: bitmap and i
  assume wf: "bitmap_wf b" and "bm_alloc b = Some (i, b')"
  then have *: "i < nbits b \<and> i \<notin> used_bits b \<and> b' = set_bit_at b i"
    by (cases rule: bitmap_alloc_cases [where index = 0]) (auto simp: bm_alloc_def ENOSPC_def)
  with set_bit_at_used [OF wf, of i]
  show "bitmap_wf b' \<and> nbits b' = nbits b"
    and "i \<notin> used_bits b \<and> used_bits b' = insert i (used_bits b)" by auto
next
  fix b :: bitmap
  assume wf: "bitmap_wf b" and "bm_alloc b = None"
  then show "used_bits b = {..<nbits b}"
    by (cases rule: bitmap_alloc_cases [where index = 0]) (auto simp: bm_alloc_def)
next
  fix b :: bitmap and i
  assume wf: "bitmap_wf b" and i: "i \<in> used_bits b"
  then have "i < nbits b" using used_bits_bound by blast
  with clear_bit_at_used [OF wf this] bitmap_unmark_used [OF wf i]
  show "bitmap_wf (bm_release b i) \<and> nbits (bm_release b i) = nbits b"
    and "used_bits (bm_release b i) = used_bits b - {i}" by (auto simp: bm_release_def)
qed

section \<open>Properties\<close>

text \<open>
  \<open>bitmap_alloc\<close> on a well-formed bitmap never crashes. If some bit is clear it returns 0
  and the least clear index, and the new bitmap is well-formed, of the same size and has exactly
  that bit set in addition; it returns \<open>-ENOSPC\<close> and changes nothing exactly when every bit
  is set.
\<close>

theorem bitmap_alloc_correct:
  assumes "bitmap_wf b"
  shows "if used_bits b = {..<nbits b} then bitmap_alloc b index = Ok (- ENOSPC, index, b)
         else \<exists>b'. bitmap_alloc b index = Ok (0, LEAST i. i \<notin> used_bits b, b') \<and> bitmap_wf b' \<and>
                nbits b' = nbits b \<and> used_bits b' = insert (LEAST i. i \<notin> used_bits b) (used_bits b)"
  using assms
proof (cases rule: bitmap_alloc_cases [where index = index])
  case (found i)
  have "(LEAST i. i \<notin> used_bits b) = i"
    using found(2,3) by (intro Least_equality) (auto simp: subset_eq not_less[symmetric])
  with found set_bit_at_used [OF assms found(1)] show ?thesis by auto
qed simp

theorem bitmap_alloc_correct_witness:
  "bitmap_wf \<lparr>nbits = 8, bm_v = [5]\<rparr> \<and> used_bits \<lparr>nbits = 8, bm_v = [5]\<rparr> = {0, 2} \<and>
   (\<exists>b'. bitmap_alloc \<lparr>nbits = 8, bm_v = [5]\<rparr> 0 = Ok (0, 1, b') \<and> used_bits b' = {0, 1, 2})"
proof -
  let ?b = "\<lparr>nbits = 8, bm_v = [5]\<rparr>"
  have wf: "bitmap_wf ?b" by (auto simp: bitmap_wf_def)
  have used: "used_bits ?b = {0, 2}"
  proof -
    have "used_bits ?b = set (filter (\<lambda>i. bit (5 :: byte) i) [0..<8])"
      by (auto simp: used_bits_def bit_set_def)
    also have "filter (\<lambda>i. bit (5 :: byte) i) [0..<8] = [0, 2]"
      by (simp add: upt_rec)
    finally show ?thesis by simp
  qed
  have least: "(LEAST i. i \<notin> used_bits ?b) = 1"
    unfolding used by (rule Least_equality) auto
  have "1 \<in> {..<nbits ?b}" and "1 \<notin> used_bits ?b" unfolding used by simp_all
  then have neq: "used_bits ?b \<noteq> {..<nbits ?b}" by blast
  from bitmap_alloc_correct [OF wf, of 0] obtain b' where
    b': "bitmap_alloc ?b 0 = Ok (0, 1, b')" "used_bits b' = insert 1 (used_bits ?b)"
    unfolding if_not_P [OF neq] least by blast
  have "used_bits b' = {0, 1, 2}" unfolding b'(2) used by (rule insert_commute)
  with wf used b'(1) show ?thesis by blast
qed

text \<open>
  Clearing a bit: \<open>bitmap_unmark\<close> of a set bit succeeds, keeps the bitmap well-formed and
  removes exactly that index; of any other index (clear, or past the end) the assertions of the
  code stop the process, so a block or inode is never released twice.
\<close>

theorem bitmap_unmark_correct:
  assumes "bitmap_wf b"
  shows "if i \<in> used_bits b
         then \<exists>b'. bitmap_unmark b i = Ok b' \<and> bitmap_wf b' \<and> nbits b' = nbits b \<and> used_bits b' = used_bits b - {i}
         else bitmap_unmark b i = Crash AssertFail"
proof (cases "i \<in> used_bits b")
  case True
  then have "i < nbits b" using used_bits_bound by blast
  with clear_bit_at_used [OF assms this] bitmap_unmark_used [OF assms True] True show ?thesis by simp
qed (simp add: bitmap_unmark_assert [OF assms])

theorem bitmap_unmark_correct_witness:
  "bitmap_wf \<lparr>nbits = 3, bm_v = [255]\<rparr> \<and> bitmap_unmark \<lparr>nbits = 3, bm_v = [255]\<rparr> 5 = Crash AssertFail"
proof -
  have wf: "bitmap_wf \<lparr>nbits = 3, bm_v = [255]\<rparr>"
    using byte_all_ones_bit by (auto simp: bitmap_wf_def bit_set_def)
  have "5 \<notin> used_bits \<lparr>nbits = 3, bm_v = [255]\<rparr>" by (simp add: used_bits_def)
  with wf bitmap_unmark_correct [OF wf, of 5] show ?thesis by simp
qed

text \<open>
  From a freshly created bitmap of \<open>nb\<close> bits, \<open>n \<le> nb\<close> allocations in a row all succeed
  and hand out \<open>n\<close> different indices; \<open>bitmap_nr_allocated\<close> then counts \<open>n\<close> set bits, the
  bits that pad the last byte not among them.
\<close>

theorem bitmap_fresh_allocations:
  assumes "nb + 7 < 2 ^ 32" and "n \<le> nb"
  shows "\<exists>b is b'. bitmap_create True True nb = Ok (0, Some b) \<and> bm.alloc_many n b = Some (is, b') \<and>
           distinct is \<and> length is = n \<and> used_bits b' = set is \<and> bitmap_nr_allocated b' = Ok (int n)"
proof -
  from bitmap_create_empty [OF assms(1)] obtain b where
    b: "bitmap_create True True nb = Ok (0, Some b)" "bitmap_wf b" "nbits b = nb" "used_bits b = {}" by blast
  from bm.alloc_many_enough [OF b(2), of n] b(3,4) assms(2) obtain "is" b' where
    m: "bm.alloc_many n b = Some (is, b')" by auto
  from bm.alloc_many_distinct [OF b(2) m] b(4) have
    d: "bitmap_wf b'" "distinct is" "length is = n" "used_bits b' = set is" by auto
  have "bitmap_nr_allocated b' = Ok (int n)"
    using nr_allocated_from_card [OF d(1), of 0] d distinct_card
    by (fastforce simp: bitmap_nr_allocated_def)
  with b(1) m d show ?thesis by blast
qed

theorem bitmap_fresh_allocations_witness:
  "\<exists>b is b'. bitmap_create True True 11 = Ok (0, Some b) \<and> bm.alloc_many 3 b = Some (is, b') \<and>
     distinct is \<and> length is = 3 \<and> used_bits b' = set is \<and> bitmap_nr_allocated b' = Ok 3"
  using bitmap_fresh_allocations [of 11 3] by simp

end
