(* ===== verification/FS_Block.thy ===== *)
theory FS_Block
  imports FS_Bitmap
begin

text \<open>
  The device of the file system and the block operations of \<^verbatim>\<open>fs/block.c\<close>, with the
  structures of \<^verbatim>\<open>fs/super.h\<close> they work on and the constants of \<^verbatim>\<open>fs/testfs.h\<close>.
  The device is a regular file that is only read and written in whole blocks: its length in
  blocks and the contents of each. A short read makes \<^verbatim>\<open>fread\<close> return less than asked and
  the code leaves through \<^verbatim>\<open>EXIT\<close>; a write past the end extends the file, and the
  blocks skipped read as zeros. Every block operation restores the file position, which is
  therefore no part of the state; I/O errors of the host are not modelled.
\<close>

section \<open>Definitions\<close>

definition BLOCK_SIZE :: nat where [fs_consts]: "BLOCK_SIZE = 8192"
definition SUPER_BLOCK_SIZE :: nat where [fs_consts]: "SUPER_BLOCK_SIZE = 1"
definition INODE_FREEMAP_SIZE :: nat where [fs_consts]: "INODE_FREEMAP_SIZE = 1"
definition BLOCK_FREEMAP_SIZE :: nat where [fs_consts]: "BLOCK_FREEMAP_SIZE = 16"
definition NR_INODE_BLOCKS :: nat where [fs_consts]: "NR_INODE_BLOCKS = 128"

record dsuper_block =
  inode_freemap_start :: "32 word"
  block_freemap_start :: "32 word"
  inode_blocks_start :: "32 word"
  data_blocks_start :: "32 word"
  used_inode_count :: "32 word"
  used_block_count :: "32 word"
  max_fs_blocks :: "64 word"

record device =
  dlen :: nat
  dblk :: "nat \<Rightarrow> arr"

record super_block =
  dsb :: dsuper_block
  dev :: device
  inode_freemap :: "bitmap option"
  block_freemap :: "bitmap option"

definition testfs_get_dev :: "super_block \<Rightarrow> device" where
  "testfs_get_dev sb = dev sb"

text \<open>\<^verbatim>\<open>fwrite\<close> of \<open>nr\<close> blocks from a buffer at block \<open>start\<close>.\<close>

definition dev_write :: "device \<Rightarrow> nat \<Rightarrow> nat \<Rightarrow> arr \<Rightarrow> device" where
  "dev_write d start nr a =
     \<lparr>dlen = (if nr = 0 then dlen d else max (dlen d) (start + nr)),
      dblk = (\<lambda>b. if start \<le> b \<and> b < start + nr
                  then (\<lambda>i. if i < BLOCK_SIZE then a ((b - start) * BLOCK_SIZE + i) else 0)
                  else dblk d b)\<rparr>"

definition write_blocks :: "super_block \<Rightarrow> arr \<Rightarrow> int \<Rightarrow> nat \<Rightarrow> super_block outcome" where
  "write_blocks sb blocks start nr =
     (if start < 0 then Crash ExitCall
      else Ok (sb\<lparr>dev := dev_write (testfs_get_dev sb) (nat start) nr blocks\<rparr>))"

function zero_blocks_from :: "super_block \<Rightarrow> int \<Rightarrow> nat \<Rightarrow> nat \<Rightarrow> super_block outcome" where
  "zero_blocks_from sb start i nr =
     (if i < nr then
        and_then (write_blocks sb zero_arr (start + int i) 1) (\<lambda>sb. zero_blocks_from sb start (Suc i) nr)
      else Ok sb)"
  by pat_completeness auto
termination
  by (relation "measure (\<lambda>(sb, start, i, nr). nr - i)") auto

definition zero_blocks :: "super_block \<Rightarrow> int \<Rightarrow> nat \<Rightarrow> super_block outcome" where
  "zero_blocks sb start nr = zero_blocks_from sb start 0 nr"

definition read_blocks :: "super_block \<Rightarrow> int \<Rightarrow> nat \<Rightarrow> arr outcome" where
  "read_blocks sb start nr =
     (let d = testfs_get_dev sb in
      if start < 0 \<or> dlen d < nat start + nr then Crash ExitCall
      else Ok (\<lambda>i. if i < nr * BLOCK_SIZE then dblk d (nat start + i div BLOCK_SIZE) (i mod BLOCK_SIZE)
                   else 0))"

declare zero_blocks_from.simps [simp del]

section \<open>The contents of the device\<close>

text \<open>A device keeps nothing past its end or past the end of a block.\<close>

definition dev_ok :: "device \<Rightarrow> bool" where
  "dev_ok d \<longleftrightarrow> (\<forall>b i. dlen d \<le> b \<or> BLOCK_SIZE \<le> i \<longrightarrow> dblk d b i = 0)"

definition trunc_arr :: "arr \<Rightarrow> arr" where
  "trunc_arr a = (\<lambda>i. if i < BLOCK_SIZE then a i else 0)"

definition block_arr :: "arr \<Rightarrow> bool" where
  "block_arr a \<longleftrightarrow> (\<forall>i \<ge> BLOCK_SIZE. a i = 0)"

lemma trunc_block_arr [simp]: "block_arr a \<Longrightarrow> trunc_arr a = a"
  by (auto simp: block_arr_def trunc_arr_def)

lemma block_arr_trunc [simp]: "block_arr (trunc_arr a)"
  by (simp add: block_arr_def trunc_arr_def)

lemma block_arr_zero [simp]: "block_arr zero_arr"
  by (simp add: block_arr_def zero_arr_def)

lemma block_arr_dblk [simp]: "dev_ok d \<Longrightarrow> block_arr (dblk d b)"
  by (simp add: block_arr_def dev_ok_def)

lemma dev_ok_write [simp]: "dev_ok d \<Longrightarrow> dev_ok (dev_write d start nr a)"
  by (auto simp: dev_ok_def dev_write_def)

lemma dlen_dev_write_1 [simp]: "dlen (dev_write d b (Suc 0) a) = max (dlen d) (Suc b)"
  by (simp add: dev_write_def)

lemma dblk_dev_write_1:
  "dblk (dev_write d b (Suc 0) a) = (dblk d)(b := trunc_arr a)"
  by (auto simp: dev_write_def trunc_arr_def fun_eq_iff)

lemma write_blocks_1:
  "0 \<le> b \<Longrightarrow> write_blocks sb a b 1 = Ok (sb\<lparr>dev := dev_write (dev sb) (nat b) 1 a\<rparr>)"
  by (simp add: write_blocks_def testfs_get_dev_def)

lemma read_blocks_1:
  assumes "dev_ok (dev sb)" and "0 \<le> b" and "nat b < dlen (dev sb)"
  shows "read_blocks sb b 1 = Ok (dblk (dev sb) (nat b))"
proof -
  have "(\<lambda>i. if i < BLOCK_SIZE then dblk (dev sb) (nat b + i div BLOCK_SIZE) (i mod BLOCK_SIZE) else 0)
      = dblk (dev sb) (nat b)"
    using assms(1) by (auto simp: dev_ok_def fun_eq_iff)
  with assms show ?thesis by (simp add: read_blocks_def testfs_get_dev_def)
qed

lemma read_blocks_past_end:
  "dlen (dev sb) < nat b + nr \<Longrightarrow> read_blocks sb b nr = Crash ExitCall"
  by (simp add: read_blocks_def testfs_get_dev_def)

lemma zero_blocks_1:
  "0 \<le> b \<Longrightarrow> zero_blocks sb b 1 = Ok (sb\<lparr>dev := dev_write (dev sb) (nat b) 1 zero_arr\<rparr>)"
  by (simp add: zero_blocks_def zero_blocks_from.simps write_blocks_1 [simplified])

end
