(* ===== verification/FS_Super.thy ===== *)
theory FS_Super
  imports FS_Block
begin

text \<open>
  Allocation through the super block, \<^verbatim>\<open>fs/super.c\<close>: the on-disk super block, the two
  free maps that are written through to the device on every change, and the operations that
  allocate and release inodes and data blocks. (Creating, opening and closing a file system is
  in \<open>FS_Mount\<close>, after the inode table.)
\<close>

section \<open>Definitions\<close>

text \<open>\<^verbatim>\<open>struct dsuper_block\<close> in memory and on disk: six 32-bit fields and one 64-bit field.\<close>

definition sizeof_dsuper_block :: nat where [fs_consts]: "sizeof_dsuper_block = 32"

definition encode_dsuper :: "dsuper_block \<Rightarrow> arr" where
  "encode_dsuper d =
     put_word 8 (put_word 4 (put_word 4 (put_word 4 (put_word 4 (put_word 4 (put_word 4 zero_arr
       0 (inode_freemap_start d)) 4 (block_freemap_start d)) 8 (inode_blocks_start d))
       12 (data_blocks_start d)) 16 (used_inode_count d)) 20 (used_block_count d))
       24 (max_fs_blocks d)"

definition decode_dsuper :: "arr \<Rightarrow> dsuper_block" where
  "decode_dsuper a =
     \<lparr>inode_freemap_start = get_word 4 a 0, block_freemap_start = get_word 4 a 4,
      inode_blocks_start = get_word 4 a 8, data_blocks_start = get_word 4 a 12,
      used_inode_count = get_word 4 a 16, used_block_count = get_word 4 a 20,
      max_fs_blocks = get_word 8 a 24\<rparr>"

definition testfs_write_super_block :: "super_block \<Rightarrow> super_block outcome" where
  "testfs_write_super_block sb =
     c_assert (sizeof_dsuper_block \<le> BLOCK_SIZE) (write_blocks sb (encode_dsuper (dsb sb)) 0 1)"

text \<open>
  The block of a free map that holds a given bit is written to the device. The argument is
  an \<^verbatim>\<open>int\<close> that the callers have just passed to the bitmap as an index, so the
  division is one of a non-negative number.
\<close>

definition testfs_write_inode_freemap :: "super_block \<Rightarrow> int \<Rightarrow> super_block outcome" where
  "testfs_write_inode_freemap sb inode_nr =
     (case inode_freemap sb of None \<Rightarrow> Crash AssertFail
      | Some b \<Rightarrow>
          let freemap = arr_of (bitmap_getdata b);
              nr = inode_nr div int (BLOCK_SIZE * BITS_PER_WORD) in
          write_blocks sb (\<lambda>i. freemap (nat nr * BLOCK_SIZE + i))
            (uint (inode_freemap_start (dsb sb) + word_of_int nr)) 1)"

definition testfs_write_block_freemap :: "super_block \<Rightarrow> int \<Rightarrow> super_block outcome" where
  "testfs_write_block_freemap sb block_nr =
     (case block_freemap sb of None \<Rightarrow> Crash AssertFail
      | Some b \<Rightarrow>
          let freemap = arr_of (bitmap_getdata b);
              nr = block_nr div int (BLOCK_SIZE * BITS_PER_WORD) in
          write_blocks sb (\<lambda>i. freemap (nat nr * BLOCK_SIZE + i))
            (uint (block_freemap_start (dsb sb) + word_of_int nr)) 1)"

text \<open>The implicit conversions between \<^verbatim>\<open>int\<close> and \<^verbatim>\<open>u_int32_t\<close>.\<close>

definition int_of_u32 :: "nat \<Rightarrow> int" where
  "int_of_u32 n = sint (of_nat n :: 32 word)"

definition u32_of_int :: "int \<Rightarrow> nat" where
  "u32_of_int x = nat (x mod 2 ^ 32)"

definition testfs_get_block_freemap :: "super_block \<Rightarrow> (int \<times> super_block) outcome" where
  "testfs_get_block_freemap sb =
     (case block_freemap sb of None \<Rightarrow> Crash AssertFail
      | Some b \<Rightarrow>
          and_then (bitmap_alloc b 0) (\<lambda>(ret, index, b').
            let sb = sb\<lparr>block_freemap := Some b'\<rparr> in
            if ret < 0 then Ok (ret, sb)
            else and_then (testfs_write_block_freemap sb (int_of_u32 index)) (\<lambda>sb.
              Ok (int_of_u32 index, sb))))"

definition testfs_put_block_freemap :: "super_block \<Rightarrow> int \<Rightarrow> super_block outcome" where
  "testfs_put_block_freemap sb block_nr =
     (case block_freemap sb of None \<Rightarrow> Crash AssertFail
      | Some b \<Rightarrow>
          and_then (bitmap_unmark b (u32_of_int block_nr)) (\<lambda>b'.
            testfs_write_block_freemap (sb\<lparr>block_freemap := Some b'\<rparr>) block_nr))"

definition testfs_get_inode_freemap :: "super_block \<Rightarrow> (int \<times> super_block) outcome" where
  "testfs_get_inode_freemap sb =
     (case inode_freemap sb of None \<Rightarrow> Crash AssertFail
      | Some b \<Rightarrow>
          and_then (bitmap_alloc b 0) (\<lambda>(ret, index, b').
            let sb = sb\<lparr>inode_freemap := Some b'\<rparr> in
            if ret < 0 then Ok (ret, sb)
            else and_then (testfs_write_inode_freemap sb (int_of_u32 index)) (\<lambda>sb.
              let sb = sb\<lparr>dsb := (dsb sb)\<lparr>used_inode_count := used_inode_count (dsb sb) + 1\<rparr>\<rparr> in
              and_then (testfs_write_super_block sb) (\<lambda>sb. Ok (int_of_u32 index, sb)))))"

definition testfs_put_inode_freemap :: "super_block \<Rightarrow> int \<Rightarrow> super_block outcome" where
  "testfs_put_inode_freemap sb inode_nr =
     (case inode_freemap sb of None \<Rightarrow> Crash AssertFail
      | Some b \<Rightarrow>
          and_then (bitmap_unmark b (u32_of_int inode_nr)) (\<lambda>b'.
          and_then (testfs_write_inode_freemap (sb\<lparr>inode_freemap := Some b'\<rparr>) inode_nr) (\<lambda>sb.
            c_assert (used_inode_count (dsb sb) > 0)
              (testfs_write_super_block
                (sb\<lparr>dsb := (dsb sb)\<lparr>used_inode_count := used_inode_count (dsb sb) - 1\<rparr>\<rparr>)))))"

definition testfs_alloc_block :: "super_block \<Rightarrow> (int \<times> super_block) outcome" where
  "testfs_alloc_block sb =
     (if unat (used_block_count (dsb sb)) \<ge> unat (max_fs_blocks (dsb sb)) then Ok (- ENOSPC, sb)
      else and_then (testfs_get_block_freemap sb) (\<lambda>(phy_block_nr, sb).
        if phy_block_nr < 0 then Ok (phy_block_nr, sb)
        else
          let sb = sb\<lparr>dsb := (dsb sb)\<lparr>used_block_count := used_block_count (dsb sb) + 1\<rparr>\<rparr> in
          and_then (testfs_write_super_block sb) (\<lambda>sb.
            Ok (sint (data_blocks_start (dsb sb) + word_of_int phy_block_nr), sb))))"

definition testfs_free_block :: "super_block \<Rightarrow> int \<Rightarrow> (int \<times> super_block) outcome" where
  "testfs_free_block sb block_nr =
     and_then (zero_blocks sb block_nr 1) (\<lambda>sb.
       let block_nr = sint (word_of_int block_nr - data_blocks_start (dsb sb)) in
       c_assert (block_nr \<ge> 0)
         (and_then (testfs_put_block_freemap sb block_nr) (\<lambda>sb.
           c_assert (used_block_count (dsb sb) > 0)
             (and_then (testfs_write_super_block
                 (sb\<lparr>dsb := (dsb sb)\<lparr>used_block_count := used_block_count (dsb sb) - 1\<rparr>\<rparr>)) (\<lambda>sb.
               Ok (0, sb))))))"

section \<open>The invariant of the super block\<close>

text \<open>The layout \<^verbatim>\<open>mktestfs\<close> gives a device; the first data block is block 146.\<close>

definition DATA_START :: nat where
  [fs_consts]: "DATA_START = SUPER_BLOCK_SIZE + INODE_FREEMAP_SIZE + BLOCK_FREEMAP_SIZE + NR_INODE_BLOCKS"

definition layout_ok :: "super_block \<Rightarrow> bool" where
  "layout_ok sb \<longleftrightarrow> inode_freemap_start (dsb sb) = 1 \<and> block_freemap_start (dsb sb) = 2 \<and>
     inode_blocks_start (dsb sb) = 18 \<and> data_blocks_start (dsb sb) = 146 \<and>
     DATA_START \<le> dlen (dev sb) \<and> dev_ok (dev sb)"

text \<open>
  A free map agrees with its counter and with its copy on the device, which starts at block
  \<open>start\<close> and occupies \<open>n\<close> blocks.
\<close>

definition freemap_ok :: "device \<Rightarrow> nat \<Rightarrow> nat \<Rightarrow> 32 word \<Rightarrow> bitmap \<Rightarrow> bool" where
  "freemap_ok d start n count b \<longleftrightarrow> bitmap_wf b \<and> nbits b = n * BLOCK_SIZE * BITS_PER_WORD \<and>
     unat count = card (used_bits b) \<and>
     (\<forall>k < n. \<forall>i < BLOCK_SIZE. dblk d (start + k) i = bm_v b ! (k * BLOCK_SIZE + i))"

definition inode_map :: "super_block \<Rightarrow> bitmap" where
  "inode_map sb = the (inode_freemap sb)"

definition block_map :: "super_block \<Rightarrow> bitmap" where
  "block_map sb = the (block_freemap sb)"

definition super_inv :: "super_block \<Rightarrow> bool" where
  "super_inv sb \<longleftrightarrow> layout_ok sb \<and> inode_freemap sb \<noteq> None \<and> block_freemap sb \<noteq> None \<and>
     freemap_ok (dev sb) 1 INODE_FREEMAP_SIZE (used_inode_count (dsb sb)) (inode_map sb) \<and>
     freemap_ok (dev sb) 2 BLOCK_FREEMAP_SIZE (used_block_count (dsb sb)) (block_map sb) \<and>
     dblk (dev sb) 0 = encode_dsuper (dsb sb)"

text \<open>The data blocks in use, and the free space the allocator may still hand out.\<close>

definition used_blocks :: "super_block \<Rightarrow> nat set" where
  "used_blocks sb = (\<lambda>i. DATA_START + i) ` used_bits (block_map sb)"

definition can_alloc :: "super_block \<Rightarrow> bool" where
  "can_alloc sb \<longleftrightarrow> card (used_blocks sb) < unat (max_fs_blocks (dsb sb)) \<and>
     card (used_blocks sb) < BLOCK_FREEMAP_SIZE * BLOCK_SIZE * BITS_PER_WORD"

section \<open>The on-disk super block\<close>

lemma decode_encode_dsuper: "decode_dsuper (encode_dsuper d) = d"
  by (simp add: decode_dsuper_def encode_dsuper_def get_put_word get_put_word_other)

lemma block_arr_encode_dsuper [simp]: "block_arr (encode_dsuper d)"
  by (simp add: block_arr_def encode_dsuper_def put_word_def zero_arr_def BLOCK_SIZE_def)

section \<open>Writing the free maps through\<close>

definition freemap_sync :: "device \<Rightarrow> nat \<Rightarrow> nat \<Rightarrow> bitmap \<Rightarrow> bool" where
  "freemap_sync d start n b \<longleftrightarrow>
     (\<forall>k < n. \<forall>i < BLOCK_SIZE. dblk d (start + k) i = bm_v b ! (k * BLOCK_SIZE + i))"

lemma freemap_ok_alt:
  "freemap_ok d start n count b \<longleftrightarrow> bitmap_wf b \<and> nbits b = n * BLOCK_SIZE * BITS_PER_WORD \<and>
     unat count = card (used_bits b) \<and> freemap_sync d start n b"
  by (simp add: freemap_ok_def freemap_sync_def)

lemma freemap_sync_write:
  assumes "freemap_sync d start n b" and "length (bm_v b) = n * BLOCK_SIZE" and "j < n * BLOCK_SIZE"
    and "bm_v b' = (bm_v b)[j := x]"
  shows "freemap_sync (dev_write d (start + j div BLOCK_SIZE) (Suc 0)
           (\<lambda>i. arr_of (bm_v b') (j div BLOCK_SIZE * BLOCK_SIZE + i))) start n b'"
  unfolding freemap_sync_def
proof (intro allI impI)
  fix k i assume k: "k < n" and i: "i < BLOCK_SIZE"
  then have len: "k * BLOCK_SIZE + i < n * BLOCK_SIZE"
    by (rule index_in_blocks)
  show "dblk (dev_write d (start + j div BLOCK_SIZE) (Suc 0)
           (\<lambda>i. arr_of (bm_v b') (j div BLOCK_SIZE * BLOCK_SIZE + i))) (start + k) i
      = bm_v b' ! (k * BLOCK_SIZE + i)"
  proof (cases "k = j div BLOCK_SIZE")
    case True
    with i len assms(2,4) show ?thesis
      by (simp add: dblk_dev_write_1 trunc_arr_def arr_of_def)
  next
    case False
    then have "k * BLOCK_SIZE + i \<noteq> j" using i by auto
    with False assms(1,4) k i show ?thesis
      by (simp add: dblk_dev_write_1 freemap_sync_def)
  qed
qed

lemma freemap_sync_other:
  "p < start \<or> start + n \<le> p \<Longrightarrow> freemap_sync (dev_write d p (Suc 0) a) start n b = freemap_sync d start n b"
  by (auto simp: freemap_sync_def dblk_dev_write_1)

lemma unat_add_small:
  "k < 2 ^ 31 \<Longrightarrow> unat ((1 :: 32 word) + of_nat k) = 1 + k"
  "k < 2 ^ 31 \<Longrightarrow> unat ((2 :: 32 word) + of_nat k) = 2 + k"
  by (simp_all add: unat_word_ariths unat_of_nat)

lemma int_of_u32_small: "n < 2 ^ 31 \<Longrightarrow> int_of_u32 n = int n"
  using sint_word_of_int_s32 [of "int n"] by (simp add: int_of_u32_def is_s32_def)

lemma u32_of_int_small: "n < 2 ^ 31 \<Longrightarrow> u32_of_int (int n) = n"
  by (simp add: u32_of_int_def nat_mod_distrib)

lemma unat_add_1_u32: "unat (w :: 32 word) < n \<Longrightarrow> n < 2 ^ 32 \<Longrightarrow> unat (w + 1) = Suc (unat w)"
  by (simp add: unat_word_ariths)

lemma unat_sub_1_u32: "0 < (w :: 32 word) \<Longrightarrow> unat (w - 1) = unat w - 1"
  by (simp add: unat_minus_one word_neq_0_conv)

lemma super_invD:
  assumes "super_inv sb"
  shows "layout_ok sb" "inode_freemap sb = Some (inode_map sb)" "block_freemap sb = Some (block_map sb)"
    "freemap_ok (dev sb) 1 1 (used_inode_count (dsb sb)) (inode_map sb)"
    "freemap_ok (dev sb) 2 16 (used_block_count (dsb sb)) (block_map sb)"
    "dblk (dev sb) 0 = encode_dsuper (dsb sb)"
  using assms by (auto simp: super_inv_def inode_map_def block_map_def fs_consts)

lemma freemap_length: "freemap_ok d start n c b \<Longrightarrow> length (bm_v b) = n * BLOCK_SIZE"
  by (simp add: freemap_ok_def bitmap_wf_def BITS_PER_WORD_def)

text \<open>One bit of the block free map changes: the device copy follows.\<close>

lemma write_block_freemap_eq:
  assumes "super_inv sb" and "i < 2 ^ 20"
  shows "testfs_write_block_freemap (sb\<lparr>block_freemap := Some b'\<rparr>) (int i) =
    Ok (sb\<lparr>block_freemap := Some b',
           dev := dev_write (dev sb) (2 + i div 8 div BLOCK_SIZE) (Suc 0)
             (\<lambda>k. arr_of (bm_v b') (i div 8 div BLOCK_SIZE * BLOCK_SIZE + k))\<rparr>)"
proof -
  have nr: "int i div int (BLOCK_SIZE * BITS_PER_WORD) = int (i div 8 div BLOCK_SIZE)"
    by (simp add: fs_consts BITS_PER_WORD_def div_mult2_eq [symmetric] zdiv_int)
  have "i div 8 div BLOCK_SIZE < 2 ^ 31" using assms(2) by (auto simp: fs_consts)
  from unat_add_small(2) [OF this] super_invD(1) [OF assms(1)] nr show ?thesis
    by (simp add: testfs_write_block_freemap_def layout_ok_def Let_def bitmap_getdata_def
        write_blocks_def testfs_get_dev_def)
qed

lemma write_super_block_eq:
  "testfs_write_super_block sb = Ok (sb\<lparr>dev := dev_write (dev sb) 0 (Suc 0) (encode_dsuper (dsb sb))\<rparr>)"
  by (simp add: testfs_write_super_block_def fs_consts write_blocks_def testfs_get_dev_def)

text \<open>
  The state after the block free map has become \<open>b'\<close>, which differs from the old one in the
  byte of bit \<open>i\<close>, and the counter \<open>c\<close>, both written through.
\<close>

definition block_map_update :: "super_block \<Rightarrow> nat \<Rightarrow> bitmap \<Rightarrow> 32 word \<Rightarrow> super_block" where
  "block_map_update sb i b' c =
     sb\<lparr>block_freemap := Some b', dsb := (dsb sb)\<lparr>used_block_count := c\<rparr>,
        dev := dev_write (dev_write (dev sb) (2 + i div 8 div BLOCK_SIZE) (Suc 0)
                 (\<lambda>k. arr_of (bm_v b') (i div 8 div BLOCK_SIZE * BLOCK_SIZE + k)))
               0 (Suc 0) (encode_dsuper ((dsb sb)\<lparr>used_block_count := c\<rparr>))\<rparr>"

lemma block_map_update_simps [simp]:
  "block_map (block_map_update sb i b' c) = b'"
  "inode_freemap (block_map_update sb i b' c) = inode_freemap sb"
  "max_fs_blocks (dsb (block_map_update sb i b' c)) = max_fs_blocks (dsb sb)"
  "used_block_count (dsb (block_map_update sb i b' c)) = c"
  "data_blocks_start (dsb (block_map_update sb i b' c)) = data_blocks_start (dsb sb)"
  by (simp_all add: block_map_update_def block_map_def)

lemma block_map_update_dev:
  assumes "super_inv sb" and "i < 2 ^ 20"
  shows "dlen (dev (block_map_update sb i b' c)) = dlen (dev sb)"
    and "18 \<le> p \<Longrightarrow> dblk (dev (block_map_update sb i b' c)) p = dblk (dev sb) p"
  using super_invD(1) [OF assms(1)] assms(2)
  by (auto simp: block_map_update_def layout_ok_def fs_consts dblk_dev_write_1)

lemma super_inv_block_map_update:
  assumes inv: "super_inv sb" and i: "i < 2 ^ 20" and wf: "bitmap_wf b'" "nbits b' = nbits (block_map sb)"
    and v: "bm_v b' = (bm_v (block_map sb))[i div 8 := x]" and c: "unat c = card (used_bits b')"
  shows "super_inv (block_map_update sb i b' c)"
proof -
  note D = super_invD [OF inv]
  let ?sb = "block_map_update sb i b' c" and ?nr = "i div 8 div BLOCK_SIZE"
  have nr: "2 + ?nr < 18" using i by (simp add: BLOCK_SIZE_def)
  have "i div 8 < 16 * BLOCK_SIZE" using i by (simp add: BLOCK_SIZE_def)
  have sync: "freemap_sync (dev ?sb) 2 16 b'"
  proof -
    have "freemap_sync (dev sb) 2 16 (block_map sb)" using D(5) by (simp add: freemap_ok_alt)
    from freemap_sync_write [OF this freemap_length [OF D(5)] \<open>i div 8 < 16 * BLOCK_SIZE\<close> v]
    show ?thesis by (simp add: block_map_update_def freemap_sync_other)
  qed
  have isync: "freemap_sync (dev ?sb) 1 1 (inode_map sb)"
  proof -
    have "freemap_sync (dev sb) 1 1 (inode_map sb)" using D(4) by (simp add: freemap_ok_alt)
    then show ?thesis by (simp add: block_map_update_def freemap_sync_other)
  qed
  have enc: "dblk (dev ?sb) 0 = encode_dsuper (dsb ?sb)"
    by (simp add: block_map_update_def dblk_dev_write_1)
  have lay: "layout_ok ?sb"
    using D(1) nr by (simp add: block_map_update_def layout_ok_def fs_consts)
  have bok: "freemap_ok (dev ?sb) 2 16 c b'"
    using D(5) sync wf c by (simp add: freemap_ok_alt)
  have iok: "freemap_ok (dev ?sb) 1 1 (used_inode_count (dsb sb)) (inode_map sb)"
    using D(4) isync by (simp add: freemap_ok_alt)
  have "inode_map ?sb = inode_map sb" by (simp add: inode_map_def)
  moreover have "used_inode_count (dsb ?sb) = used_inode_count (dsb sb)"
    and "block_freemap ?sb \<noteq> None" by (simp_all add: block_map_update_def)
  ultimately show ?thesis
    using D(2) lay enc bok iok
    by (simp add: super_inv_def INODE_FREEMAP_SIZE_def BLOCK_FREEMAP_SIZE_def)
qed


lemma block_map_facts:
  assumes "super_inv sb"
  shows "bitmap_wf (block_map sb)" "nbits (block_map sb) = 2 ^ 20"
    "unat (used_block_count (dsb sb)) = card (used_bits (block_map sb))"
    "card (used_bits (block_map sb)) \<le> 2 ^ 20" "finite (used_bits (block_map sb))"
proof -
  note D = super_invD(5) [OF assms]
  show "bitmap_wf (block_map sb)" "unat (used_block_count (dsb sb)) = card (used_bits (block_map sb))"
    using D by (simp_all add: freemap_ok_alt)
  show n: "nbits (block_map sb) = 2 ^ 20"
    using D by (simp add: freemap_ok_alt fs_consts BITS_PER_WORD_def)
  have "used_bits (block_map sb) \<subseteq> {..<2 ^ 20}" using used_bits_bound [of "block_map sb"] n by simp
  then show "finite (used_bits (block_map sb))" "card (used_bits (block_map sb)) \<le> 2 ^ 20"
    using finite_subset card_mono [of "{..<2 ^ 20}"] by fastforce+
qed

lemma card_used_blocks [simp]: "card (used_blocks sb) = card (used_bits (block_map sb))"
  by (simp add: used_blocks_def card_image)

lemma used_blocks_iff: "p \<in> used_blocks sb \<longleftrightarrow> DATA_START \<le> p \<and> p - DATA_START \<in> used_bits (block_map sb)"
  by (force simp: used_blocks_def)

lemma used_blocks_bound:
  assumes "super_inv sb" and "p \<in> used_blocks sb"
  shows "DATA_START \<le> p" "p < DATA_START + 2 ^ 20"
proof -
  show "DATA_START \<le> p" using assms(2) by (simp add: used_blocks_iff)
  have "p - DATA_START < 2 ^ 20"
    using assms(2) used_bits_bound [of "block_map sb"] block_map_facts(2) [OF assms(1)]
    by (auto simp: used_blocks_iff)
  then show "p < DATA_START + 2 ^ 20" by simp
qed

lemma finite_used_blocks: "super_inv sb \<Longrightarrow> finite (used_blocks sb)"
  using block_map_facts(5) by (simp add: used_blocks_def)

lemma can_alloc_iff:
  assumes "super_inv sb"
  shows "can_alloc sb \<longleftrightarrow> card (used_bits (block_map sb)) < unat (max_fs_blocks (dsb sb)) \<and>
     used_bits (block_map sb) \<noteq> {..<2 ^ 20}"
proof -
  have "used_bits (block_map sb) \<subseteq> {..<2 ^ 20}"
    using used_bits_bound [of "block_map sb"] block_map_facts(2) [OF assms] by simp
  then have "used_bits (block_map sb) \<noteq> {..<2 ^ 20} \<longleftrightarrow> card (used_bits (block_map sb)) < 2 ^ 20"
    by (rule subset_lessThan_card)
  then show ?thesis by (simp add: can_alloc_def fs_consts BITS_PER_WORD_def)
qed

text \<open>Two states that agree on everything above the free maps.\<close>

definition same_data :: "super_block \<Rightarrow> super_block \<Rightarrow> bool" where
  "same_data sb sb' \<longleftrightarrow> dlen (dev sb') = dlen (dev sb) \<and> (\<forall>p \<ge> 18. dblk (dev sb') p = dblk (dev sb) p) \<and>
     inode_freemap sb' = inode_freemap sb \<and> max_fs_blocks (dsb sb') = max_fs_blocks (dsb sb)"

lemma same_data_update: "super_inv sb \<Longrightarrow> i < 2 ^ 20 \<Longrightarrow> same_data sb (block_map_update sb i b' c)"
  by (simp add: same_data_def block_map_update_dev)

lemma alloc_block_nr:
  "i < 2 ^ 20 \<Longrightarrow> sint ((146 :: 32 word) + word_of_int (int i)) = int (DATA_START + i)"
  using sint_word_of_int_s32 [of "146 + int i"] by (simp add: is_s32_def fs_consts)

lemma testfs_alloc_block_cases [consumes 1, case_names full found]:
  assumes inv: "super_inv sb"
  obtains (full) "\<not> can_alloc sb" "testfs_alloc_block sb = Ok (- ENOSPC, sb)"
  | (found) p sb' where "can_alloc sb" "p \<notin> used_blocks sb" "DATA_START \<le> p"
      "testfs_alloc_block sb = Ok (int p, sb')" "super_inv sb'" "used_blocks sb' = insert p (used_blocks sb)"
      "same_data sb sb'"
proof -
  note F = block_map_facts [OF inv] and D = super_invD [OF inv]
  have count: "unat (used_block_count (dsb sb)) = card (used_bits (block_map sb))" by (rule F(3))
  show thesis
  proof (cases "card (used_bits (block_map sb)) < unat (max_fs_blocks (dsb sb))")
    case False
    then have "\<not> can_alloc sb" by (simp add: can_alloc_iff [OF inv])
    moreover have "testfs_alloc_block sb = Ok (- ENOSPC, sb)"
      using False count by (simp add: testfs_alloc_block_def)
    ultimately show thesis by (rule full)
  next
    case room: True
    from F(1) show thesis
    proof (cases rule: bitmap_alloc_cases [where index = 0])
      case full': full
      then have "\<not> can_alloc sb" by (simp add: can_alloc_iff [OF inv] F(2))
      moreover have "testfs_alloc_block sb = Ok (- ENOSPC, sb)"
        using full' room count D(3)
        by (simp add: testfs_alloc_block_def testfs_get_block_freemap_def ENOSPC_def Let_def)
      ultimately show thesis by (rule full)
    next
      case (found i)
      let ?b' = "set_bit_at (block_map sb) i" and ?c = "used_block_count (dsb sb) + 1"
      let ?sb' = "block_map_update sb i ?b' ?c"
      from found(1) F(2) have i: "i < 2 ^ 20" by simp
      note S = set_bit_at_used [OF F(1) found(1)]
      have c: "unat ?c = card (used_bits ?b')"
      proof -
        have "unat (used_block_count (dsb sb)) < 2 ^ 20 + 1" using count F(4) by simp
        then have "unat ?c = Suc (unat (used_block_count (dsb sb)))" by (rule unat_add_1_u32) simp
        with count S(2) found(2) F(5) show ?thesis by simp
      qed
      have inv': "super_inv ?sb'"
        using i S(1,3) by (intro super_inv_block_map_update [OF inv _ _ _ _ c]) (auto simp: set_bit_at_def)
      have "testfs_get_block_freemap sb = Ok (int i, sb\<lparr>block_freemap := Some ?b',
           dev := dev_write (dev sb) (2 + i div 8 div BLOCK_SIZE) (Suc 0)
             (\<lambda>k. arr_of (bm_v ?b') (i div 8 div BLOCK_SIZE * BLOCK_SIZE + k))\<rparr>)"
        using found(4) D(3) write_block_freemap_eq [OF inv i, of ?b'] i
        by (simp add: testfs_get_block_freemap_def Let_def int_of_u32_small)
      then have ret: "testfs_alloc_block sb = Ok (int (DATA_START + i), ?sb')"
        using room count alloc_block_nr [OF i] D(1)
        by (simp add: testfs_alloc_block_def Let_def write_super_block_eq block_map_update_def layout_ok_def)
      have "can_alloc sb" using room found(1,2) F(2) by (auto simp: can_alloc_iff [OF inv])
      moreover have "DATA_START + i \<notin> used_blocks sb" using found(2) by (simp add: used_blocks_iff)
      moreover have "used_blocks ?sb' = insert (DATA_START + i) (used_blocks sb)"
        using S(2) by (simp add: used_blocks_def)
      ultimately show thesis
        using that(2) [OF _ _ _ ret inv' _ same_data_update [OF inv i]] by simp
    qed
  qed
qed


text \<open>Releasing a used data block: it is zeroed, and its bit and the counter go back.\<close>

lemma free_block_nr:
  "DATA_START \<le> p \<Longrightarrow> p < DATA_START + 2 ^ 20 \<Longrightarrow>
    sint ((word_of_int (int p) :: 32 word) - 146) = int (p - DATA_START)"
  using sint_word_of_int_s32 [of "int p - 146"] by (simp add: is_s32_def fs_consts)

lemma super_inv_data_write:
  assumes "super_inv sb" and "18 \<le> p"
  shows "super_inv (sb\<lparr>dev := dev_write (dev sb) p (Suc 0) a\<rparr>)"
proof -
  note D = super_invD [OF assms(1)]
  have "layout_ok (sb\<lparr>dev := dev_write (dev sb) p (Suc 0) a\<rparr>)"
    using D(1) by (simp add: layout_ok_def le_max_iff_disj)
  moreover have "freemap_sync (dev_write (dev sb) p (Suc 0) a) 1 1 (inode_map sb)"
    using D(4) assms(2) by (simp add: freemap_sync_other freemap_ok_alt)
  moreover have "freemap_sync (dev_write (dev sb) p (Suc 0) a) 2 16 (block_map sb)"
    using D(5) assms(2) by (simp add: freemap_sync_other freemap_ok_alt)
  moreover have "dblk (dev_write (dev sb) p (Suc 0) a) 0 = encode_dsuper (dsb sb)"
    using D(6) assms(2) by (simp add: dblk_dev_write_1)
  moreover have "inode_map (sb\<lparr>dev := dev_write (dev sb) p (Suc 0) a\<rparr>) = inode_map sb"
    and "block_map (sb\<lparr>dev := dev_write (dev sb) p (Suc 0) a\<rparr>) = block_map sb"
    by (simp_all add: inode_map_def block_map_def)
  ultimately show ?thesis
    using D(2-5) by (simp add: super_inv_def freemap_ok_alt INODE_FREEMAP_SIZE_def BLOCK_FREEMAP_SIZE_def)
qed

lemma testfs_free_block_used:
  assumes inv: "super_inv sb" and p: "p \<in> used_blocks sb"
  shows "\<exists>sb'. testfs_free_block sb (int p) = Ok (0, sb') \<and> super_inv sb' \<and>
     used_blocks sb' = used_blocks sb - {p} \<and>
     same_data (sb\<lparr>dev := dev_write (dev sb) p (Suc 0) zero_arr\<rparr>) sb'"
proof -
  let ?sb1 = "sb\<lparr>dev := dev_write (dev sb) p (Suc 0) zero_arr\<rparr>"
  note P = used_blocks_bound [OF inv p]
  have inv1: "super_inv ?sb1" using P by (intro super_inv_data_write [OF inv]) (simp add: fs_consts)
  have bm: "block_map ?sb1 = block_map sb" by (simp add: block_map_def)
  note F = block_map_facts [OF inv] and D = super_invD [OF inv]
  define i where "i = p - DATA_START"
  have i: "i < 2 ^ 20" and used: "i \<in> used_bits (block_map sb)" and p_eq: "p = DATA_START + i"
    using P p by (auto simp: i_def used_blocks_iff)
  let ?b' = "clear_bit_at (block_map sb) i" and ?c = "used_block_count (dsb sb) - 1"
  let ?sb' = "block_map_update ?sb1 i ?b' ?c"
  note S = clear_bit_at_used [OF F(1), of i, unfolded F(2), OF i]
  have card: "card (used_bits (block_map sb)) > 0" using used F(5) card_gt_0_iff by blast
  then have pos: "used_block_count (dsb sb) > 0" using F(3) by (metis unat_gt_0 word_gt_0)
  have c: "unat ?c = card (used_bits ?b')"
    using F(3) S(2) used F(5) unat_sub_1_u32 [OF pos] by simp
  have inv': "super_inv ?sb'"
    using i S(1,3) F(2) bm by (intro super_inv_block_map_update [OF inv1 _ _ _ _ c]) (auto simp: clear_bit_at_def)
  have put: "testfs_put_block_freemap ?sb1 (int i) = Ok (?sb1\<lparr>block_freemap := Some ?b',
       dev := dev_write (dev ?sb1) (2 + i div 8 div BLOCK_SIZE) (Suc 0)
         (\<lambda>k. arr_of (bm_v ?b') (i div 8 div BLOCK_SIZE * BLOCK_SIZE + k))\<rparr>)"
    using bitmap_unmark_used [OF F(1) used] write_block_freemap_eq [OF inv1 i, of ?b'] D(3) i
    by (simp add: testfs_put_block_freemap_def u32_of_int_small)
  have zero: "zero_blocks sb (int p) 1 = Ok ?sb1" using zero_blocks_1 [of "int p" sb] by simp
  have start: "data_blocks_start (dsb ?sb1) = 146" using D(1) by (simp add: layout_ok_def)
  have "testfs_free_block sb (int p) = Ok (0, ?sb')"
    unfolding testfs_free_block_def zero and_then.simps Let_def start free_block_nr [OF P] i_def [symmetric]
      put c_assert_def write_super_block_eq
    using pos by (simp add: block_map_update_def)
  moreover have "used_blocks ?sb' = used_blocks sb - {p}"
    unfolding used_blocks_def block_map_update_simps S(2) p_eq
    by (subst image_set_diff) (simp_all add: inj_def)
  ultimately show ?thesis using inv' same_data_update [OF inv1 i] by blast
qed

section \<open>The inode free map\<close>

definition inode_map_update :: "super_block \<Rightarrow> nat \<Rightarrow> bitmap \<Rightarrow> 32 word \<Rightarrow> super_block" where
  "inode_map_update sb i b' c =
     sb\<lparr>inode_freemap := Some b', dsb := (dsb sb)\<lparr>used_inode_count := c\<rparr>,
        dev := dev_write (dev_write (dev sb) 1 (Suc 0) (\<lambda>k. arr_of (bm_v b') k))
               0 (Suc 0) (encode_dsuper ((dsb sb)\<lparr>used_inode_count := c\<rparr>))\<rparr>"

lemma inode_map_update_simps [simp]:
  "inode_map (inode_map_update sb i b' c) = b'"
  "block_freemap (inode_map_update sb i b' c) = block_freemap sb"
  "block_map (inode_map_update sb i b' c) = block_map sb"
  "max_fs_blocks (dsb (inode_map_update sb i b' c)) = max_fs_blocks (dsb sb)"
  "used_blocks (inode_map_update sb i b' c) = used_blocks sb"
  by (simp_all add: inode_map_update_def inode_map_def block_map_def used_blocks_def)

lemma inode_map_facts:
  assumes "super_inv sb"
  shows "bitmap_wf (inode_map sb)" "nbits (inode_map sb) = 2 ^ 16"
    "unat (used_inode_count (dsb sb)) = card (used_bits (inode_map sb))"
    "card (used_bits (inode_map sb)) \<le> 2 ^ 16" "finite (used_bits (inode_map sb))"
proof -
  note D = super_invD(4) [OF assms]
  show "bitmap_wf (inode_map sb)" "unat (used_inode_count (dsb sb)) = card (used_bits (inode_map sb))"
    using D by (simp_all add: freemap_ok_alt)
  show n: "nbits (inode_map sb) = 2 ^ 16"
    using D by (simp add: freemap_ok_alt fs_consts BITS_PER_WORD_def)
  have "used_bits (inode_map sb) \<subseteq> {..<2 ^ 16}" using used_bits_bound [of "inode_map sb"] n by simp
  then show "finite (used_bits (inode_map sb))" "card (used_bits (inode_map sb)) \<le> 2 ^ 16"
    using finite_subset card_mono [of "{..<2 ^ 16}"] by fastforce+
qed

lemma write_inode_freemap_eq:
  assumes "super_inv sb" and "i < 2 ^ 16"
  shows "testfs_write_inode_freemap (sb\<lparr>inode_freemap := Some b'\<rparr>) (int i) =
    Ok (sb\<lparr>inode_freemap := Some b', dev := dev_write (dev sb) 1 (Suc 0) (\<lambda>k. arr_of (bm_v b') k)\<rparr>)"
proof -
  have "int i div int (BLOCK_SIZE * BITS_PER_WORD) = 0"
    using assms(2) by (simp add: fs_consts BITS_PER_WORD_def)
  with super_invD(1) [OF assms(1)] show ?thesis
    by (simp add: testfs_write_inode_freemap_def layout_ok_def Let_def bitmap_getdata_def
        write_blocks_def testfs_get_dev_def)
qed

definition same_blocks :: "super_block \<Rightarrow> super_block \<Rightarrow> bool" where
  "same_blocks sb sb' \<longleftrightarrow> dlen (dev sb') = dlen (dev sb) \<and> (\<forall>p \<ge> 2. dblk (dev sb') p = dblk (dev sb) p) \<and>
     block_freemap sb' = block_freemap sb \<and> max_fs_blocks (dsb sb') = max_fs_blocks (dsb sb)"

lemma same_blocks_update: "super_inv sb \<Longrightarrow> same_blocks sb (inode_map_update sb i b' c)"
  using super_invD(1) [of sb]
  by (auto simp: same_blocks_def inode_map_update_def layout_ok_def fs_consts dblk_dev_write_1)

lemma super_inv_inode_map_update:
  assumes inv: "super_inv sb" and i: "i < 2 ^ 16" and wf: "bitmap_wf b'" "nbits b' = nbits (inode_map sb)"
    and v: "bm_v b' = (bm_v (inode_map sb))[i div 8 := x]" and c: "unat c = card (used_bits b')"
  shows "super_inv (inode_map_update sb i b' c)"
proof -
  note D = super_invD [OF inv]
  let ?sb = "inode_map_update sb i b' c"
  have i8: "i div 8 < 1 * BLOCK_SIZE" and nr: "i div 8 div BLOCK_SIZE = 0"
    using i by (simp_all add: BLOCK_SIZE_def)
  have sync: "freemap_sync (dev ?sb) 1 1 b'"
  proof -
    have "freemap_sync (dev sb) 1 1 (inode_map sb)" using D(4) by (simp add: freemap_ok_alt)
    from freemap_sync_write [OF this freemap_length [OF D(4)] i8 v]
    show ?thesis by (simp add: inode_map_update_def freemap_sync_other nr)
  qed
  have bsync: "freemap_sync (dev ?sb) 2 16 (block_map sb)"
  proof -
    have "freemap_sync (dev sb) 2 16 (block_map sb)" using D(5) by (simp add: freemap_ok_alt)
    then show ?thesis by (simp add: inode_map_update_def freemap_sync_other)
  qed
  have enc: "dblk (dev ?sb) 0 = encode_dsuper (dsb ?sb)"
    by (simp add: inode_map_update_def dblk_dev_write_1)
  have lay: "layout_ok ?sb"
    using D(1) by (simp add: inode_map_update_def layout_ok_def fs_consts)
  have iok: "freemap_ok (dev ?sb) 1 1 c b'"
    using D(4) sync wf c by (simp add: freemap_ok_alt)
  have bok: "freemap_ok (dev ?sb) 2 16 (used_block_count (dsb sb)) (block_map sb)"
    using D(5) bsync by (simp add: freemap_ok_alt)
  have "used_block_count (dsb ?sb) = used_block_count (dsb sb)"
    and "inode_freemap ?sb \<noteq> None" and "used_inode_count (dsb ?sb) = c"
    by (simp_all add: inode_map_update_def)
  with D(3) lay enc bok iok show ?thesis
    by (simp add: super_inv_def INODE_FREEMAP_SIZE_def BLOCK_FREEMAP_SIZE_def)
qed

lemma testfs_get_inode_freemap_cases [consumes 1, case_names full found]:
  assumes inv: "super_inv sb"
  obtains (full) "used_bits (inode_map sb) = {..<2 ^ 16}" "testfs_get_inode_freemap sb = Ok (- ENOSPC, sb)"
  | (found) i sb' where "i < 2 ^ 16" "i \<notin> used_bits (inode_map sb)" "{..<i} \<subseteq> used_bits (inode_map sb)"
      "testfs_get_inode_freemap sb = Ok (int i, sb')" "super_inv sb'"
      "used_bits (inode_map sb') = insert i (used_bits (inode_map sb))" "same_blocks sb sb'"
proof -
  note F = inode_map_facts [OF inv] and D = super_invD [OF inv]
  from F(1) show thesis
  proof (cases rule: bitmap_alloc_cases [where index = 0])
    case full': full
    have "testfs_get_inode_freemap sb = Ok (- ENOSPC, sb)"
      using full'(2) D(2) by (simp add: testfs_get_inode_freemap_def ENOSPC_def Let_def)
    with full'(1) F(2) show thesis by (intro full) simp_all
  next
    case (found i)
    let ?b' = "set_bit_at (inode_map sb) i" and ?c = "used_inode_count (dsb sb) + 1"
    let ?sb' = "inode_map_update sb i ?b' ?c"
    from found(1) F(2) have i: "i < 2 ^ 16" by simp
    note S = set_bit_at_used [OF F(1) found(1)]
    have c: "unat ?c = card (used_bits ?b')"
    proof -
      have "unat (used_inode_count (dsb sb)) < 2 ^ 16 + 1" using F(3,4) by simp
      then have "unat ?c = Suc (unat (used_inode_count (dsb sb)))" by (rule unat_add_1_u32) simp
      with F(3) S(2) found(2) F(5) show ?thesis by simp
    qed
    have inv': "super_inv ?sb'"
      using i S(1,3) by (intro super_inv_inode_map_update [OF inv _ _ _ _ c]) (auto simp: set_bit_at_def)
    have ret: "testfs_get_inode_freemap sb = Ok (int i, ?sb')"
      using found(4) D(2) write_inode_freemap_eq [OF inv i, of ?b'] i
      by (simp add: testfs_get_inode_freemap_def Let_def int_of_u32_small write_super_block_eq inode_map_update_def)
    show thesis
      using that(2) [OF i found(2,3) ret inv' _ same_blocks_update [OF inv]] S(2) by simp
  qed
qed

lemma testfs_put_inode_freemap_used:
  assumes inv: "super_inv sb" and used: "i \<in> used_bits (inode_map sb)"
  shows "\<exists>sb'. testfs_put_inode_freemap sb (int i) = Ok sb' \<and> super_inv sb' \<and>
     used_bits (inode_map sb') = used_bits (inode_map sb) - {i} \<and> same_blocks sb sb'"
proof -
  note F = inode_map_facts [OF inv] and D = super_invD [OF inv]
  have i: "i < 2 ^ 16" using used used_bits_bound [of "inode_map sb"] F(2) by auto
  let ?b' = "clear_bit_at (inode_map sb) i" and ?c = "used_inode_count (dsb sb) - 1"
  let ?sb' = "inode_map_update sb i ?b' ?c"
  note S = clear_bit_at_used [OF F(1), of i, unfolded F(2), OF i]
  have "card (used_bits (inode_map sb)) > 0" using used F(5) card_gt_0_iff by blast
  then have pos: "used_inode_count (dsb sb) > 0" using F(3) by (metis unat_gt_0 word_gt_0)
  have c: "unat ?c = card (used_bits ?b')"
    using F(3) S(2) used F(5) unat_sub_1_u32 [OF pos] by simp
  have inv': "super_inv ?sb'"
    using i S(1,3) F(2) by (intro super_inv_inode_map_update [OF inv _ _ _ _ c]) (auto simp: clear_bit_at_def)
  have "testfs_put_inode_freemap sb (int i) = Ok ?sb'"
    using bitmap_unmark_used [OF F(1) used] write_inode_freemap_eq [OF inv i, of ?b'] D(2) i pos
    by (simp add: testfs_put_inode_freemap_def u32_of_int_small write_super_block_eq inode_map_update_def)
  with inv' S(2) same_blocks_update [OF inv] show ?thesis by auto
qed

lemma testfs_free_block_unused:
  assumes inv: "super_inv sb" and p: "p \<notin> used_blocks sb" "p < 2 ^ 31"
  shows "testfs_free_block sb (int p) = Crash AssertFail"
proof -
  let ?sb1 = "sb\<lparr>dev := dev_write (dev sb) p (Suc 0) zero_arr\<rparr>"
  note D = super_invD [OF inv]
  have zero: "zero_blocks sb (int p) 1 = Ok ?sb1" using zero_blocks_1 [of "int p" sb] by simp
  have start: "data_blocks_start (dsb ?sb1) = 146" using D(1) by (simp add: layout_ok_def)
  have nr: "sint ((word_of_int (int p) :: 32 word) - 146) = int p - 146"
    using sint_word_of_int_s32 [of "int p - 146"] p(2) by (simp add: is_s32_def)
  show ?thesis
  proof (cases "p < 146")
    case True
    then show ?thesis unfolding testfs_free_block_def zero and_then.simps Let_def start nr by simp
  next
    case False
    then have eq: "int p - 146 = int (p - 146)" by simp
    have "p - 146 \<notin> used_bits (block_map sb)" using p(1) False by (simp add: used_blocks_iff fs_consts)
    then have "bitmap_unmark (block_map sb) (p - 146) = Crash AssertFail"
      by (rule bitmap_unmark_assert [OF block_map_facts(1) [OF inv]])
    then have "testfs_put_block_freemap ?sb1 (int (p - 146)) = Crash AssertFail"
      using D(3) p(2) by (simp add: testfs_put_block_freemap_def u32_of_int_small del: of_nat_diff)
    then show ?thesis unfolding testfs_free_block_def zero and_then.simps Let_def start nr eq by simp
  qed
qed

section \<open>An empty file system\<close>

text \<open>The state of an empty file system limited to \<open>m\<close> blocks.\<close>

definition empty_super :: "64 word \<Rightarrow> dsuper_block" where
  "empty_super m =
     \<lparr>inode_freemap_start = 1, block_freemap_start = 2, inode_blocks_start = 18, data_blocks_start = 146,
      used_inode_count = 0, used_block_count = 0, max_fs_blocks = m\<rparr>"

definition empty_map :: "nat \<Rightarrow> bitmap" where
  "empty_map n = \<lparr>nbits = n * BLOCK_SIZE * BITS_PER_WORD, bm_v = replicate (n * BLOCK_SIZE) 0\<rparr>"

definition empty_fs :: "64 word \<Rightarrow> super_block" where
  "empty_fs m =
     \<lparr>dsb = empty_super m, dev = \<lparr>dlen = DATA_START, dblk = (\<lambda>_. zero_arr)(0 := encode_dsuper (empty_super m))\<rparr>,
      inode_freemap = Some (empty_map INODE_FREEMAP_SIZE), block_freemap = Some (empty_map BLOCK_FREEMAP_SIZE)\<rparr>"

lemma used_bits_empty_map: "used_bits (empty_map n) = {}"
proof -
  have "\<not> bit_set (empty_map n) i" if "i < nbits (empty_map n)" for i
  proof -
    have "i div 8 < n * BLOCK_SIZE" using that by (simp add: empty_map_def BITS_PER_WORD_def)
    then show ?thesis by (simp add: bit_set_def empty_map_def)
  qed
  then show ?thesis by (auto simp: used_bits_def)
qed

lemma bitmap_wf_empty_map: "n \<le> 16 \<Longrightarrow> bitmap_wf (empty_map n)"
  by (auto simp: bitmap_wf_def empty_map_def BITS_PER_WORD_def BLOCK_SIZE_def)

lemma freemap_ok_empty:
  assumes "n \<le> 16" and "\<And>k. k < n \<Longrightarrow> dblk d (start + k) = zero_arr"
  shows "freemap_ok d start n 0 (empty_map n)"
  using assms bitmap_wf_empty_map [OF assms(1)] index_in_blocks [of _ n]
  by (simp add: freemap_ok_def used_bits_empty_map) (simp add: empty_map_def zero_arr_def)

lemma super_inv_empty_fs: "super_inv (empty_fs m)"
proof -
  have "dev_ok (dev (empty_fs m))"
    using block_arr_encode_dsuper [of "empty_super m"]
    by (auto simp: dev_ok_def empty_fs_def zero_arr_def block_arr_def fs_consts)
  then have "layout_ok (empty_fs m)"
    by (simp add: layout_ok_def) (simp add: empty_fs_def empty_super_def fs_consts)
  moreover have "freemap_ok (dev (empty_fs m)) 1 INODE_FREEMAP_SIZE 0 (empty_map INODE_FREEMAP_SIZE)"
    by (rule freemap_ok_empty) (simp_all add: INODE_FREEMAP_SIZE_def empty_fs_def)
  moreover have "freemap_ok (dev (empty_fs m)) 2 BLOCK_FREEMAP_SIZE 0 (empty_map BLOCK_FREEMAP_SIZE)"
    by (rule freemap_ok_empty) (simp_all add: BLOCK_FREEMAP_SIZE_def empty_fs_def)
  moreover have "inode_map (empty_fs m) = empty_map INODE_FREEMAP_SIZE"
    "block_map (empty_fs m) = empty_map BLOCK_FREEMAP_SIZE"
    by (simp_all add: inode_map_def block_map_def empty_fs_def)
  ultimately show ?thesis
    by (simp add: super_inv_def) (simp add: empty_fs_def empty_super_def)
qed

lemma used_blocks_empty_fs [simp]: "used_blocks (empty_fs m) = {}"
  by (simp add: used_blocks_def block_map_def empty_fs_def used_bits_empty_map)

lemma max_empty_fs [simp]: "max_fs_blocks (dsb (empty_fs m)) = m"
  by (simp add: empty_fs_def empty_super_def)

lemma can_alloc_empty_fs: "0 < m \<Longrightarrow> can_alloc (empty_fs m)"
  using used_blocks_empty_fs [of m] by (simp add: can_alloc_def unat_gt_0 fs_consts BITS_PER_WORD_def del: card_used_blocks)

section \<open>Properties\<close>

text \<open>
  (C40) Block allocation. On a consistent super block \<open>testfs_alloc_block\<close> never crashes. While
  fewer blocks are in use than \<open>max_fs_blocks\<close> and the free map has room, it returns a data block
  that was not in use, and the state stays consistent: the free map, its copy on the device and
  the counter all gain exactly that block, and no block at or above the inode table changes.
  Otherwise it returns \<open>-ENOSPC\<close> and changes nothing.
\<close>

theorem testfs_alloc_block_correct:
  assumes "super_inv sb"
  shows "if can_alloc sb
         then \<exists>p sb'. testfs_alloc_block sb = Ok (int p, sb') \<and> DATA_START \<le> p \<and> p \<notin> used_blocks sb \<and>
                super_inv sb' \<and> used_blocks sb' = insert p (used_blocks sb) \<and> same_data sb sb'
         else testfs_alloc_block sb = Ok (- ENOSPC, sb)"
  using assms
proof (cases rule: testfs_alloc_block_cases)
  case full
  then show ?thesis by simp
next
  case (found p sb')
  then show ?thesis by auto
qed

theorem testfs_alloc_block_correct_witness:
  "super_inv (empty_fs 10) \<and> (\<exists>p sb'. testfs_alloc_block (empty_fs 10) = Ok (int p, sb') \<and> used_blocks sb' = {p})"
  using testfs_alloc_block_correct [OF super_inv_empty_fs, of 10] super_inv_empty_fs [of 10]
    can_alloc_empty_fs [of 10] by auto

text \<open>
  Block release. Freeing a used block zeroes it, removes exactly it from the free map, its
  copy on the device and the counter, and leaves every other data block as it was. Freeing any
  other block number stops the process at an assertion: a double free is never silent.
\<close>

theorem testfs_free_block_correct:
  assumes "super_inv sb" and "p < 2 ^ 31"
  shows "if p \<in> used_blocks sb
         then \<exists>sb'. testfs_free_block sb (int p) = Ok (0, sb') \<and> super_inv sb' \<and>
                used_blocks sb' = used_blocks sb - {p} \<and> dblk (dev sb') p = zero_arr \<and>
                (\<forall>q \<ge> DATA_START. q \<noteq> p \<longrightarrow> dblk (dev sb') q = dblk (dev sb) q)
         else testfs_free_block sb (int p) = Crash AssertFail"
proof (cases "p \<in> used_blocks sb")
  case True
  from testfs_free_block_used [OF assms(1) True] obtain sb' where
    sb': "testfs_free_block sb (int p) = Ok (0, sb')" "super_inv sb'" "used_blocks sb' = used_blocks sb - {p}"
    "same_data (sb\<lparr>dev := dev_write (dev sb) p (Suc 0) zero_arr\<rparr>) sb'" by blast
  have "18 \<le> p" using used_blocks_bound(1) [OF assms(1) True] by (simp add: fs_consts)
  then have "dblk (dev sb') p = zero_arr"
    and "\<forall>q \<ge> DATA_START. q \<noteq> p \<longrightarrow> dblk (dev sb') q = dblk (dev sb) q"
    using sb'(4) by (simp_all add: same_data_def dblk_dev_write_1 fs_consts)
  with sb' True show ?thesis by auto
qed (simp add: testfs_free_block_unused [OF assms(1) _ assms(2)])

theorem testfs_free_block_correct_witness:
  "super_inv (empty_fs 10) \<and> testfs_free_block (empty_fs 10) 200 = Crash AssertFail"
  using testfs_free_block_correct [OF super_inv_empty_fs, of 200 10] super_inv_empty_fs [of 10] by simp

text \<open>
  Inode numbers. \<open>testfs_get_inode_freemap\<close> returns the least inode number not in use and
  marks it, or \<open>-ENOSPC\<close> when all 65536 bits are set; \<open>testfs_put_inode_freemap\<close> of a number
  just obtained gives back the same set of used numbers, and neither touches the block free map.
\<close>

theorem testfs_inode_number_round_trip:
  assumes "super_inv sb"
  shows "if used_bits (inode_map sb) = {..<2 ^ 16} then testfs_get_inode_freemap sb = Ok (- ENOSPC, sb)
         else \<exists>i sb' sb''. testfs_get_inode_freemap sb = Ok (int i, sb') \<and> super_inv sb' \<and>
                i = (LEAST n. n \<notin> used_bits (inode_map sb)) \<and>
                used_bits (inode_map sb') = insert i (used_bits (inode_map sb)) \<and>
                testfs_put_inode_freemap sb' (int i) = Ok sb'' \<and> super_inv sb'' \<and>
                used_bits (inode_map sb'') = used_bits (inode_map sb) \<and> used_blocks sb'' = used_blocks sb"
  using assms
proof (cases rule: testfs_get_inode_freemap_cases)
  case full
  then show ?thesis by simp
next
  case (found i sb')
  have "i \<in> used_bits (inode_map sb')" using found(6) by simp
  from testfs_put_inode_freemap_used [OF found(5) this] obtain sb'' where
    sb'': "testfs_put_inode_freemap sb' (int i) = Ok sb''" "super_inv sb''"
    "used_bits (inode_map sb'') = used_bits (inode_map sb') - {i}" "same_blocks sb' sb''" by blast
  have "used_blocks sb'' = used_blocks sb"
    using found(7) sb''(4) by (simp add: same_blocks_def used_blocks_def block_map_def)
  moreover have "(LEAST n. n \<notin> used_bits (inode_map sb)) = i"
    using found(2,3) by (intro Least_equality) (auto simp: subset_eq not_less [symmetric])
  moreover have "i \<in> {..<2 ^ 16}" using found(1) by simp
  then have "used_bits (inode_map sb) \<noteq> {..<2 ^ 16}" using found(2) by blast
  ultimately show ?thesis using found sb'' by auto
qed

theorem testfs_inode_number_round_trip_witness:
  "super_inv (empty_fs 10) \<and> (\<exists>sb'. testfs_get_inode_freemap (empty_fs 10) = Ok (0, sb'))"
proof -
  have empty: "used_bits (inode_map (empty_fs 10)) = {}"
    by (simp add: inode_map_def empty_fs_def used_bits_empty_map)
  have "0 \<in> {..<2 ^ 16 :: nat}" by simp
  then have "used_bits (inode_map (empty_fs 10)) \<noteq> {..<2 ^ 16}" unfolding empty by blast
  moreover have "(LEAST n. n \<notin> used_bits (inode_map (empty_fs 10))) = 0" unfolding empty by simp
  ultimately show ?thesis
    using testfs_inode_number_round_trip [OF super_inv_empty_fs, of 10] super_inv_empty_fs [of 10] by auto
qed

end
