(* ===== verification/FS_Inode.thy ===== *)
theory FS_Inode
  imports FS_Super
begin

text \<open>
  The inode structure of \<^verbatim>\<open>fs/inode.h\<close> and the operations of \<^verbatim>\<open>fs/inode.c\<close> on one
  inode: its place and encoding in the inode blocks, writing a dirty inode back, and
  allocating or freeing a block on behalf of an inode. An inode a function works on through a
  pointer is an argument and a component of the result; the table of in-memory inodes, with
  sharing and reference counts, is in \<open>FS_ITable\<close>.
\<close>

section \<open>Definitions\<close>

datatype inode_type = I_NONE | I_FILE | I_DIR

fun int_of_type :: "inode_type \<Rightarrow> int" where
  "int_of_type I_NONE = 0"
| "int_of_type I_FILE = 1"
| "int_of_type I_DIR = 2"

definition NR_DIRECT_BLOCKS :: int where [fs_consts]: "NR_DIRECT_BLOCKS = 10"
definition NR_INDIRECT_BLOCKS :: int where [fs_consts]: "NR_INDIRECT_BLOCKS = int BLOCK_SIZE div 4"

record dinode =
  i_type :: int
  i_block_nr :: "int list"
  i_indirect :: int
  i_dindirect :: int
  block_count :: int
  i_size :: int

record inode =
  din :: dinode
  i_flags :: "32 word"
  i_nr :: int
  i_count :: int

definition I_FLAGS_DIRTY :: "32 word" where "I_FLAGS_DIRTY = 1"

definition sizeof_dinode :: nat where [fs_consts]: "sizeof_dinode = 64"
definition INODES_PER_BLOCK :: nat where [fs_consts]: "INODES_PER_BLOCK = BLOCK_SIZE div sizeof_dinode"

definition set_dirty :: "inode \<Rightarrow> inode" where
  "set_dirty inn = inn\<lparr>i_flags := i_flags inn OR I_FLAGS_DIRTY\<rparr>"

text \<open>
  \<^verbatim>\<open>memcpy\<close> between \<^verbatim>\<open>struct dinode\<close> and 64 bytes of a block: fourteen 32-bit fields and
  the 64-bit size at offset 56.
\<close>

definition encode_dinode :: "arr \<Rightarrow> nat \<Rightarrow> dinode \<Rightarrow> arr" where
  "encode_dinode a off d =
     put_s64 (put_s32 (put_s32 (put_s32
       (fold (\<lambda>k a. put_s32 a (off + 4 + 4 * k) (i_block_nr d ! k)) [0..<10]
         (put_s32 a off (i_type d)))
       (off + 44) (i_indirect d)) (off + 48) (i_dindirect d)) (off + 52) (block_count d))
       (off + 56) (i_size d)"

definition decode_dinode :: "arr \<Rightarrow> nat \<Rightarrow> dinode" where
  "decode_dinode a off =
     \<lparr>i_type = get_s32 a off, i_block_nr = map (\<lambda>k. get_s32 a (off + 4 + 4 * k)) [0..<10],
      i_indirect = get_s32 a (off + 44), i_dindirect = get_s32 a (off + 48),
      block_count = get_s32 a (off + 52), i_size = get_s64 a (off + 56)\<rparr>"

definition zero_dinode :: dinode where
  "zero_dinode = \<lparr>i_type = 0, i_block_nr = replicate 10 0, i_indirect = 0, i_dindirect = 0,
                  block_count = 0, i_size = 0\<rparr>"

text \<open>
  The inode number is divided as an unsigned number, because \<^verbatim>\<open>INODES_PER_BLOCK\<close> is one; the
  quotient and the offset fit an \<^verbatim>\<open>int\<close>, so the assertions that they are not negative hold.
\<close>

definition testfs_inode_to_block_nr :: "int \<Rightarrow> nat outcome" where
  "testfs_inode_to_block_nr nr =
     (let block_nr = u32_of_int nr div INODES_PER_BLOCK in
      c_assert (block_nr < NR_INODE_BLOCKS) (Ok block_nr))"

definition testfs_inode_to_block_offset :: "int \<Rightarrow> nat outcome" where
  "testfs_inode_to_block_offset nr =
     (let block_offset = u32_of_int nr mod INODES_PER_BLOCK * sizeof_dinode in
      c_assert (block_offset < BLOCK_SIZE) (Ok block_offset))"

definition testfs_inode_blocks_start :: "super_block \<Rightarrow> 32 word" where
  "testfs_inode_blocks_start sb = inode_blocks_start (dsb sb)"

definition testfs_read_inode_block :: "super_block \<Rightarrow> int \<Rightarrow> arr outcome" where
  "testfs_read_inode_block sb nr =
     and_then (testfs_inode_to_block_nr nr) (\<lambda>block_nr.
       read_blocks sb (uint (inode_blocks_start (dsb sb) + of_nat block_nr)) 1)"

definition testfs_write_inode_block :: "super_block \<Rightarrow> int \<Rightarrow> arr \<Rightarrow> super_block outcome" where
  "testfs_write_inode_block sb nr block =
     and_then (testfs_inode_to_block_nr nr) (\<lambda>block_nr.
       write_blocks sb block (uint (inode_blocks_start (dsb sb) + of_nat block_nr)) 1)"

text \<open>The part of \<open>testfs_get_inode\<close> that reads an inode that is not in memory.\<close>

definition read_inode :: "super_block \<Rightarrow> int \<Rightarrow> inode outcome" where
  "read_inode sb nr =
     and_then (testfs_read_inode_block sb nr) (\<lambda>block.
     and_then (testfs_inode_to_block_offset nr) (\<lambda>off.
       Ok \<lparr>din = decode_dinode block off, i_flags = 0, i_nr = nr, i_count = 1\<rparr>))"

definition testfs_sync_inode :: "super_block \<Rightarrow> inode \<Rightarrow> (inode \<times> super_block) outcome" where
  "testfs_sync_inode sb inn =
     (if i_flags inn AND I_FLAGS_DIRTY = 0 then Ok (inn, sb)
      else
        and_then (testfs_read_inode_block sb (i_nr inn)) (\<lambda>block.
        and_then (testfs_inode_to_block_offset (i_nr inn)) (\<lambda>off.
        and_then (testfs_write_inode_block sb (i_nr inn) (encode_dinode block off (din inn))) (\<lambda>sb.
          Ok (inn\<lparr>i_flags := i_flags inn AND NOT I_FLAGS_DIRTY\<rparr>, sb)))))"

definition testfs_inode_get_nr :: "inode \<Rightarrow> int" where
  "testfs_inode_get_nr inn = i_nr inn"

definition testfs_inode_get_type :: "inode \<Rightarrow> int" where
  "testfs_inode_get_type inn = i_type (din inn)"

definition testfs_inode_get_size :: "inode \<Rightarrow> int" where
  "testfs_inode_get_size inn = i_size (din inn)"

definition testfs_inode_get_block_count :: "inode \<Rightarrow> int" where
  "testfs_inode_get_block_count inn = block_count (din inn)"

definition testfs_alloc_block_for_inode :: "super_block \<Rightarrow> inode \<Rightarrow> (int \<times> inode \<times> super_block) outcome" where
  "testfs_alloc_block_for_inode sb inn =
     and_then (testfs_alloc_block sb) (\<lambda>(phy_block_nr, sb).
       if phy_block_nr \<ge> 0
       then Ok (phy_block_nr, set_dirty (inn\<lparr>din := (din inn)\<lparr>block_count := block_count (din inn) + 1\<rparr>\<rparr>), sb)
       else Ok (phy_block_nr, inn, sb))"

definition testfs_free_block_from_inode :: "super_block \<Rightarrow> inode \<Rightarrow> int \<Rightarrow> (inode \<times> super_block) outcome" where
  "testfs_free_block_from_inode sb inn phy_block_nr =
     (if phy_block_nr = 0 then Ok (inn, sb)
      else and_then (testfs_free_block sb phy_block_nr) (\<lambda>(_, sb).
        Ok (set_dirty (inn\<lparr>din := (din inn)\<lparr>block_count := block_count (din inn) - 1\<rparr>\<rparr>), sb)))"

end
