(* ===== verification/FS_ReadWrite.thy ===== *)
theory FS_ReadWrite
  imports FS_Inode
begin

text \<open>
  Reading and writing the contents of a file, \<^verbatim>\<open>fs/read_write.c\<close>: the map from logical to
  physical blocks through ten direct, one indirect and one doubly indirect block, allocation of
  missing blocks, byte-range reads and writes, and the release of all blocks of a file. An
  \<^verbatim>\<open>int *\<close> view of a block is \<open>get_int\<close> and \<open>put_int\<close>; block numbers of a file are
  \<^verbatim>\<open>int\<close>s that stay far below the 32-bit limit (\<open>MAX_BLOCK_NR\<close> is about four million).
\<close>

section \<open>Definitions\<close>

definition MAX_BLOCK_NR :: int where
  [fs_consts]: "MAX_BLOCK_NR = NR_DIRECT_BLOCKS + NR_INDIRECT_BLOCKS + NR_INDIRECT_BLOCKS * NR_INDIRECT_BLOCKS"

definition MAX_FILE_SIZE :: int where
  [fs_consts]: "MAX_FILE_SIZE = MAX_BLOCK_NR * int BLOCK_SIZE"

definition get_int :: "arr \<Rightarrow> int \<Rightarrow> int" where
  "get_int block k = get_s32 block (4 * nat k)"

definition put_int :: "arr \<Rightarrow> int \<Rightarrow> int \<Rightarrow> arr" where
  "put_int block k x = put_s32 block (4 * nat k) x"

text \<open>
  The physical block number of a logical block, 0 if there is none: the first part of
  \<open>testfs_read_block\<close>.
\<close>

definition lookup_block :: "super_block \<Rightarrow> dinode \<Rightarrow> int \<Rightarrow> int outcome" where
  "lookup_block sb d log_block_nr =
     (if log_block_nr < NR_DIRECT_BLOCKS then Ok (i_block_nr d ! nat log_block_nr)
      else
        let log_block_nr = log_block_nr - NR_DIRECT_BLOCKS in
        if log_block_nr \<ge> NR_INDIRECT_BLOCKS then
          let log_block_nr = log_block_nr - NR_INDIRECT_BLOCKS;
              id_block_nr = log_block_nr div NR_INDIRECT_BLOCKS in
          if id_block_nr \<le> NR_INDIRECT_BLOCKS then
            let log_block_nr = log_block_nr mod NR_INDIRECT_BLOCKS in
            if i_dindirect d > 0 then
              and_then (read_blocks sb (i_dindirect d) 1) (\<lambda>block.
                let id_block = get_int block id_block_nr in
                if id_block > 0 then
                  and_then (read_blocks sb id_block 1) (\<lambda>block. Ok (get_int block log_block_nr))
                else Ok 0)
            else Ok 0
          else Ok 0
        else if i_indirect d > 0 then
          and_then (read_blocks sb (i_indirect d) 1) (\<lambda>block. Ok (get_int block log_block_nr))
        else Ok 0)"

text \<open>
  \<open>testfs_read_block\<close> returns the physical block number and the buffer it fills; the callers do
  not use the buffer when the number is negative. A block that is not allocated reads as zeros.
\<close>

definition testfs_read_block :: "super_block \<Rightarrow> inode \<Rightarrow> int \<Rightarrow> (int \<times> arr) outcome" where
  "testfs_read_block sb inn log_block_nr =
     (if log_block_nr \<ge> MAX_BLOCK_NR then Ok (- EFBIG, zero_arr)
      else c_assert (log_block_nr \<ge> 0)
        (and_then (lookup_block sb (din inn) log_block_nr) (\<lambda>phy_block_nr.
          if phy_block_nr > 0 then
            and_then (read_blocks sb phy_block_nr 1) (\<lambda>block. Ok (phy_block_nr, block))
          else Ok (phy_block_nr, zero_arr))))"

text \<open>
  The loop of \<open>testfs_read_data\<close>. The bytes copied so far are the list \<open>buf\<close>, so that the
  variable \<^verbatim>\<open>pos\<close> is its length; \<open>cap\<close> is the number of bytes the caller's buffer has, and a
  \<^verbatim>\<open>memcpy\<close> past it is an access out of bounds. The result is \<^verbatim>\<open>pos\<close> converted to an
  \<^verbatim>\<open>int\<close>.
\<close>

function read_data_loop ::
    "super_block \<Rightarrow> inode \<Rightarrow> nat \<Rightarrow> nat \<Rightarrow> int \<Rightarrow> nat \<Rightarrow> byte list \<Rightarrow> (int \<times> byte list) outcome" where
  "read_data_loop sb inn cap sz block_nr block_ix buf =
     (if sz > 0 then
        and_then (testfs_read_block sb inn block_nr) (\<lambda>(ret, block).
          if ret < 0 then Ok (ret, buf)
          else
            let size_to_read = min (BLOCK_SIZE - block_ix) sz in
            if block_ix < BLOCK_SIZE \<and> length buf + size_to_read \<le> cap then
              read_data_loop sb inn cap (sz - size_to_read) (block_nr + 1) 0
                (buf @ map block [block_ix..<block_ix + size_to_read])
            else Crash MemFault)
      else Ok (int_of_u32 (length buf), buf))"
  by pat_completeness auto
termination
  by (relation "measure (\<lambda>(sb, inn, cap, sz, block_nr, block_ix, buf). sz)") auto

definition s64_of_u64 :: "nat \<Rightarrow> int" where
  "s64_of_u64 n = sint (of_nat n :: 64 word)"

definition u64_of_s64 :: "int \<Rightarrow> nat" where
  "u64_of_s64 x = nat (x mod 2 ^ 64)"

definition testfs_read_data ::
    "super_block \<Rightarrow> inode \<Rightarrow> nat \<Rightarrow> int \<Rightarrow> nat \<Rightarrow> (int \<times> byte list) outcome" where
  "testfs_read_data sb inn cap start sz =
     (if start \<ge> MAX_FILE_SIZE then Ok (- EFBIG, [])
      else
        let block_nr = c_div start (int BLOCK_SIZE); block_ix = c_mod start (int BLOCK_SIZE) in
        s64_check (start + s64_of_u64 sz)
          (let sz = (if start + s64_of_u64 sz > i_size (din inn)
                       then u64_of_s64 (i_size (din inn) - start) else sz) in
           read_data_loop sb inn cap sz block_nr (nat block_ix) []))"

text \<open>
  \<open>testfs_allocate_block\<close> for a logical block below the doubly indirect block (an entry of the
  block \<^verbatim>\<open>id_block\<close>, itself an entry of the doubly indirect block): \<^verbatim>\<open>log_block_nr\<close> counts from
  the first such block. The three steps of the code: the doubly indirect block, its entry, and
  the entry of that block.
\<close>

definition dindirect_leaf ::
    "super_block \<Rightarrow> inode \<Rightarrow> int \<Rightarrow> arr \<Rightarrow> arr \<Rightarrow> bool \<Rightarrow> arr \<Rightarrow> bool \<Rightarrow> int \<Rightarrow> (int \<times> arr \<times> inode \<times> super_block) outcome" where
  "dindirect_leaf sb inn log_block_nr block dindirect dindirect_allocated indirect indirect_allocated id_block =
     c_assert (get_int indirect log_block_nr = 0)
       (and_then (testfs_alloc_block_for_inode sb inn) (\<lambda>(phy_block_nr, inn, sb).
         if phy_block_nr \<ge> 0 then
           and_then (write_blocks sb (put_int indirect log_block_nr phy_block_nr) id_block 1) (\<lambda>sb.
             if indirect_allocated then
               and_then (write_blocks sb dindirect (i_dindirect (din inn)) 1) (\<lambda>sb.
                 Ok (phy_block_nr, block, inn, sb))
             else Ok (phy_block_nr, block, inn, sb))
         else if indirect_allocated then
           and_then (testfs_free_block_from_inode sb inn id_block) (\<lambda>(inn, sb).
             if dindirect_allocated then
               and_then (testfs_free_block_from_inode sb inn (i_dindirect (din inn))) (\<lambda>(inn, sb).
                 Ok (phy_block_nr, block, inn\<lparr>din := (din inn)\<lparr>i_dindirect := 0\<rparr>\<rparr>, sb))
             else Ok (phy_block_nr, block, inn, sb))
         else Ok (phy_block_nr, block, inn, sb)))"

definition dindirect_entry ::
    "super_block \<Rightarrow> inode \<Rightarrow> int \<Rightarrow> int \<Rightarrow> arr \<Rightarrow> arr \<Rightarrow> bool \<Rightarrow> (int \<times> arr \<times> inode \<times> super_block) outcome" where
  "dindirect_entry sb inn id_block_nr log_block_nr block dindirect dindirect_allocated =
     (let id_block = get_int dindirect id_block_nr in
      if id_block = 0 then
        and_then (testfs_alloc_block_for_inode sb inn) (\<lambda>(phy_block_nr, inn, sb).
          if phy_block_nr < 0 then
            if dindirect_allocated then
              and_then (testfs_free_block_from_inode sb inn (i_dindirect (din inn))) (\<lambda>(inn, sb).
                Ok (phy_block_nr, block, inn\<lparr>din := (din inn)\<lparr>i_dindirect := 0\<rparr>\<rparr>, sb))
            else Ok (phy_block_nr, block, inn, sb)
          else dindirect_leaf sb inn log_block_nr block (put_int dindirect id_block_nr phy_block_nr)
                 dindirect_allocated zero_arr True phy_block_nr)
      else
        and_then (read_blocks sb id_block 1) (\<lambda>indirect.
          dindirect_leaf sb inn log_block_nr block dindirect dindirect_allocated indirect False id_block))"

definition allocate_dindirect ::
    "super_block \<Rightarrow> inode \<Rightarrow> int \<Rightarrow> arr \<Rightarrow> (int \<times> arr \<times> inode \<times> super_block) outcome" where
  "allocate_dindirect sb inn log_block_nr block =
     (let id_block_nr = log_block_nr div NR_INDIRECT_BLOCKS;
          log_block_nr = log_block_nr mod NR_INDIRECT_BLOCKS in
      if i_dindirect (din inn) = 0 then
        and_then (testfs_alloc_block_for_inode sb inn) (\<lambda>(phy_block_nr, inn, sb).
          if phy_block_nr < 0 then Ok (phy_block_nr, block, inn, sb)
          else dindirect_entry sb (inn\<lparr>din := (din inn)\<lparr>i_dindirect := phy_block_nr\<rparr>\<rparr>)
                 id_block_nr log_block_nr block zero_arr True)
      else
        and_then (read_blocks sb (i_dindirect (din inn)) 1) (\<lambda>dindirect.
          dindirect_entry sb inn id_block_nr log_block_nr block dindirect False))"

text \<open>The same for an entry of the indirect block.\<close>

definition allocate_indirect ::
    "super_block \<Rightarrow> inode \<Rightarrow> int \<Rightarrow> arr \<Rightarrow> (int \<times> arr \<times> inode \<times> super_block) outcome" where
  "allocate_indirect sb inn log_block_nr block =
     (let alloc_leaf = (\<lambda>sb inn indirect indirect_allocated.
        c_assert (get_int indirect log_block_nr = 0)
          (and_then (testfs_alloc_block_for_inode sb inn) (\<lambda>(phy_block_nr, inn, sb).
            if phy_block_nr \<ge> 0 then
              and_then (write_blocks sb (put_int indirect log_block_nr phy_block_nr) (i_indirect (din inn)) 1)
                (\<lambda>sb. Ok (phy_block_nr, block, inn, sb))
            else if indirect_allocated then
              and_then (testfs_free_block_from_inode sb inn (i_indirect (din inn))) (\<lambda>(inn, sb).
                Ok (phy_block_nr, block, inn\<lparr>din := (din inn)\<lparr>i_indirect := 0\<rparr>\<rparr>, sb))
            else Ok (phy_block_nr, block, inn, sb))))
      in
      if i_indirect (din inn) = 0 then
        and_then (testfs_alloc_block_for_inode sb inn) (\<lambda>(phy_block_nr, inn, sb).
          if phy_block_nr < 0 then Ok (phy_block_nr, block, inn, sb)
          else alloc_leaf sb (inn\<lparr>din := (din inn)\<lparr>i_indirect := phy_block_nr\<rparr>\<rparr>) zero_arr True)
      else
        and_then (read_blocks sb (i_indirect (din inn)) 1) (\<lambda>indirect. alloc_leaf sb inn indirect False))"

definition testfs_allocate_block ::
    "super_block \<Rightarrow> inode \<Rightarrow> int \<Rightarrow> (int \<times> arr \<times> inode \<times> super_block) outcome" where
  "testfs_allocate_block sb inn log_block_nr =
     (if log_block_nr \<ge> MAX_BLOCK_NR then Ok (- EFBIG, zero_arr, inn, sb)
      else c_assert (log_block_nr \<ge> 0)
        (and_then (testfs_read_block sb inn log_block_nr) (\<lambda>(phy_block_nr, block).
          if phy_block_nr \<noteq> 0 then Ok (phy_block_nr, block, inn, sb)
          else if log_block_nr < NR_DIRECT_BLOCKS then
            c_assert (i_block_nr (din inn) ! nat log_block_nr = 0)
              (and_then (testfs_alloc_block_for_inode sb inn) (\<lambda>(phy_block_nr, inn, sb).
                if phy_block_nr \<ge> 0 then
                  Ok (phy_block_nr, block,
                      inn\<lparr>din := (din inn)\<lparr>i_block_nr := (i_block_nr (din inn))[nat log_block_nr := phy_block_nr]\<rparr>\<rparr>, sb)
                else Ok (phy_block_nr, block, inn, sb)))
          else
            let log_block_nr = log_block_nr - NR_DIRECT_BLOCKS in
            if log_block_nr \<ge> NR_INDIRECT_BLOCKS
            then allocate_dindirect sb inn (log_block_nr - NR_INDIRECT_BLOCKS) block
            else allocate_indirect sb inn log_block_nr block)))"

text \<open>
  \<open>testfs_write_data\<close>: the buffer \<open>buf\<close> has at least \<open>sz\<close> (in the code: \<^verbatim>\<open>size\<close>) bytes, and a \<^verbatim>\<open>memcpy\<close> from past
  its end is an access out of bounds. The result is the value returned, the inode and the file
  system; on an error after a partial write the size is updated but the inode not marked dirty.
\<close>

definition memcpy_block :: "arr \<Rightarrow> nat \<Rightarrow> byte list \<Rightarrow> nat \<Rightarrow> nat \<Rightarrow> arr" where
  "memcpy_block block ix buf pos n =
     (\<lambda>i. if ix \<le> i \<and> i < ix + n then buf ! (pos + (i - ix)) else block i)"

function write_data_loop ::
    "super_block \<Rightarrow> inode \<Rightarrow> byte list \<Rightarrow> int \<Rightarrow> nat \<Rightarrow> int \<Rightarrow> nat \<Rightarrow> nat \<Rightarrow> (int \<times> inode \<times> super_block) outcome" where
  "write_data_loop sb inn buf start sz block_nr block_ix pos =
     (if sz > 0 then
        and_then (testfs_allocate_block sb inn block_nr) (\<lambda>(ret, block, inn, sb).
          if ret < 0 then
            Ok (ret, if pos > 0 then inn\<lparr>din := (din inn)\<lparr>i_size := max (i_size (din inn)) (start + int pos)\<rparr>\<rparr>
                     else inn, sb)
          else
            let size_to_write = min (BLOCK_SIZE - block_ix) sz in
            if block_ix < BLOCK_SIZE \<and> pos + size_to_write \<le> length buf then
              and_then (write_blocks sb (memcpy_block block block_ix buf pos size_to_write) ret 1) (\<lambda>sb.
                write_data_loop sb inn buf start (sz - size_to_write) (block_nr + 1) 0 (pos + size_to_write))
            else Crash MemFault)
      else
        let inn = (if pos > 0 then inn\<lparr>din := (din inn)\<lparr>i_size := max (i_size (din inn)) (start + int pos)\<rparr>\<rparr> else inn) in
        Ok (int_of_u32 pos, set_dirty inn, sb))"
  by pat_completeness auto
termination
  by (relation "measure (\<lambda>(sb, inn, buf, start, sz, block_nr, block_ix, pos). sz)") auto

definition testfs_write_data ::
    "super_block \<Rightarrow> inode \<Rightarrow> byte list \<Rightarrow> int \<Rightarrow> nat \<Rightarrow> (int \<times> inode \<times> super_block) outcome" where
  "testfs_write_data sb inn buf start sz =
     (if start \<ge> MAX_FILE_SIZE then Ok (- EFBIG, inn, sb)
      else
        let block_nr = c_div start (int BLOCK_SIZE); block_ix = c_mod start (int BLOCK_SIZE) in
        write_data_loop sb inn buf start sz block_nr (nat block_ix) 0)"

text \<open>
  \<open>testfs_free_blocks\<close>: the loop over the direct blocks; the loop over the entries of a block of
  block numbers (used for the indirect block and, inside the third loop, for each block the
  doubly indirect block refers to; clearing an entry of the local copy has no effect, because no
  entry is read twice); and the loop over the doubly indirect block, whose result includes what
  is left of \<^verbatim>\<open>e_block_nr\<close>.
\<close>

function free_direct :: "super_block \<Rightarrow> inode \<Rightarrow> int \<Rightarrow> nat \<Rightarrow> (inode \<times> super_block) outcome" where
  "free_direct sb inn e i =
     (if int i < e \<and> int i < NR_DIRECT_BLOCKS then
        if i_block_nr (din inn) ! i = 0 then free_direct sb inn e (Suc i)
        else
          and_then (testfs_free_block_from_inode sb inn (i_block_nr (din inn) ! i)) (\<lambda>(inn, sb).
            free_direct sb (inn\<lparr>din := (din inn)\<lparr>i_block_nr := (i_block_nr (din inn))[i := 0]\<rparr>\<rparr>) e (Suc i))
      else Ok (inn, sb))"
  by pat_completeness auto
termination
  by (relation "measure (\<lambda>(sb, inn, e, i). nat NR_DIRECT_BLOCKS - i)") (auto simp: fs_consts)

function free_entries :: "super_block \<Rightarrow> inode \<Rightarrow> arr \<Rightarrow> int \<Rightarrow> nat \<Rightarrow> (inode \<times> super_block) outcome" where
  "free_entries sb inn block e i =
     (if int i < e \<and> int i < NR_INDIRECT_BLOCKS then
        if get_int block (int i) = 0 then free_entries sb inn block e (Suc i)
        else
          and_then (testfs_free_block_from_inode sb inn (get_int block (int i))) (\<lambda>(inn, sb).
            free_entries sb inn block e (Suc i))
      else Ok (inn, sb))"
  by pat_completeness auto
termination
  by (relation "measure (\<lambda>(sb, inn, block, e, i). nat NR_INDIRECT_BLOCKS - i)") (auto simp: fs_consts)

function free_dindirect ::
    "super_block \<Rightarrow> inode \<Rightarrow> arr \<Rightarrow> int \<Rightarrow> nat \<Rightarrow> (int \<times> inode \<times> super_block) outcome" where
  "free_dindirect sb inn did_block e i =
     (if int i < NR_INDIRECT_BLOCKS \<and> e > 0 then
        let id_block = get_int did_block (int i) in
        if id_block = 0 then free_dindirect sb inn did_block (e - NR_INDIRECT_BLOCKS) (Suc i)
        else
          and_then (read_blocks sb id_block 1) (\<lambda>block.
          and_then (free_entries sb inn block e 0) (\<lambda>(inn, sb).
          and_then (testfs_free_block_from_inode sb inn id_block) (\<lambda>(inn, sb).
            free_dindirect sb inn did_block (e - NR_INDIRECT_BLOCKS) (Suc i))))
      else Ok (e, inn, sb))"
  by pat_completeness auto
termination
  by (relation "measure (\<lambda>(sb, inn, did_block, e, i). nat NR_INDIRECT_BLOCKS - i)") (auto simp: fs_consts)

definition testfs_free_blocks :: "super_block \<Rightarrow> inode \<Rightarrow> (int \<times> inode \<times> super_block) outcome" where
  "testfs_free_blocks sb inn =
     (let e_block_nr = c_div (i_size (din inn) + int BLOCK_SIZE - 1) (int BLOCK_SIZE) in
      and_then (free_direct sb inn e_block_nr 0) (\<lambda>(inn, sb).
      let e_block_nr = e_block_nr - NR_DIRECT_BLOCKS in
      and_then
        (if i_indirect (din inn) > 0 then
           c_assert (e_block_nr > 0)
             (and_then (read_blocks sb (i_indirect (din inn)) 1) (\<lambda>block.
              and_then (free_entries sb inn block e_block_nr 0) (\<lambda>(inn, sb).
              and_then (testfs_free_block_from_inode sb inn (i_indirect (din inn))) (\<lambda>(inn, sb).
                Ok (inn\<lparr>din := (din inn)\<lparr>i_indirect := 0\<rparr>\<rparr>, sb)))))
         else Ok (inn, sb)) (\<lambda>(inn, sb).
      let e_block_nr = e_block_nr - NR_INDIRECT_BLOCKS in
      and_then
        (if e_block_nr > 0 \<and> i_dindirect (din inn) > 0 then
           and_then (read_blocks sb (i_dindirect (din inn)) 1) (\<lambda>did_block.
           and_then (free_dindirect sb inn did_block e_block_nr 0) (\<lambda>(e_block_nr, inn, sb).
           and_then (testfs_free_block_from_inode sb inn (i_dindirect (din inn))) (\<lambda>(inn, sb).
             Ok (e_block_nr, inn\<lparr>din := (din inn)\<lparr>i_dindirect := 0\<rparr>\<rparr>, sb))))
         else Ok (e_block_nr, inn, sb)) (\<lambda>(e_block_nr, inn, sb).
      c_assert (e_block_nr \<le> 0)
        (Ok (0, set_dirty (inn\<lparr>din := (din inn)\<lparr>i_size := 0\<rparr>\<rparr>), sb))))))"

declare read_data_loop.simps [simp del] write_data_loop.simps [simp del] free_direct.simps [simp del]
  free_entries.simps [simp del] free_dindirect.simps [simp del]

end
