(* ===== verification/FS_FileMap.thy ===== *)
theory FS_FileMap
  imports FS_ReadWrite
begin

text \<open>
  The block map of a file: which physical block each logical block is in, as the direct, indirect
  and doubly indirect references of an inode give it, when such a map is consistent, and the
  behaviour of the lookup and of the allocation of \<^verbatim>\<open>fs/read_write.c\<close> in terms of it.
\<close>

section \<open>Entries of index blocks\<close>

lemma get_int_put_int:
  "is_s32 x \<Longrightarrow> 0 \<le> j \<Longrightarrow> 0 \<le> k \<Longrightarrow> get_int (put_int a k x) j = (if j = k then x else get_int a j)"
proof -
  assume x: "is_s32 x" and j: "0 \<le> j" and k: "0 \<le> k"
  show ?thesis
  proof (cases "j = k")
    case True
    with x show ?thesis by (simp add: get_int_def put_int_def get_put_s32)
  next
    case False
    then have "4 * nat k + 4 \<le> 4 * nat j \<or> 4 * nat j + 4 \<le> 4 * nat k" using j k by linarith
    then show ?thesis using False
      by (auto simp: get_int_def put_int_def get_s32_def put_s32_def get_put_word_other)
  qed
qed

lemma get_int_zero [simp]: "get_int zero_arr k = 0"
  by (simp add: get_int_def)

lemma get_int_trunc:
  assumes "k < 2048"
  shows "get_int (trunc_arr a) k = get_int a k"
proof -
  have "4 * nat k + 4 \<le> BLOCK_SIZE" using assms by (simp add: BLOCK_SIZE_def)
  then have "(get_word 4 (trunc_arr a) (4 * nat k) :: 32 word) = get_word 4 a (4 * nat k)"
    unfolding get_word_def by (intro le_load_cong) (simp add: trunc_arr_def)
  then show ?thesis by (simp add: get_int_def get_s32_def)
qed

section \<open>The block map of a file\<close>

text \<open>
  Where a file can refer to a block: logical block \<open>l\<close>, the indirect and the doubly indirect
  block, and the \<open>k\<close>-th block the latter refers to.
\<close>

datatype slot = S_data nat | S_ind | S_dind | S_id nat

definition slots :: "slot set" where
  "slots = S_data ` {..<4196362} \<union> {S_ind, S_dind} \<union> S_id ` {..<2048}"

definition idx :: "device \<Rightarrow> int \<Rightarrow> nat \<Rightarrow> int" where
  "idx d p k = (if p > 0 then get_int (dblk d (nat p)) (int k) else 0)"

definition bmap :: "device \<Rightarrow> dinode \<Rightarrow> nat \<Rightarrow> int" where
  "bmap d di l =
     (if l < 10 then i_block_nr di ! l
      else if l < 2058 then idx d (i_indirect di) (l - 10)
      else idx d (idx d (i_dindirect di) ((l - 2058) div 2048)) ((l - 2058) mod 2048))"

fun slot_val :: "device \<Rightarrow> dinode \<Rightarrow> slot \<Rightarrow> int" where
  "slot_val d di (S_data l) = bmap d di l"
| "slot_val d di S_ind = i_indirect di"
| "slot_val d di S_dind = i_dindirect di"
| "slot_val d di (S_id k) = idx d (i_dindirect di) k"

definition live :: "device \<Rightarrow> dinode \<Rightarrow> slot set" where
  "live d di = {s \<in> slots. slot_val d di s \<noteq> 0}"

text \<open>The blocks a file owns, and its index blocks among them.\<close>

definition owned :: "device \<Rightarrow> dinode \<Rightarrow> nat set" where
  "owned d di = (\<lambda>s. nat (slot_val d di s)) ` live d di"

definition index_blocks :: "device \<Rightarrow> dinode \<Rightarrow> nat set" where
  "index_blocks d di = (\<lambda>s. nat (slot_val d di s)) ` (live d di - range S_data)"

text \<open>
  A consistent block map: every reference is empty or a used block on the device (the
  slots of \<open>X\<close> may be blocks that were just allocated and never written), no block is referred to
  twice, and the counter of the inode is the number of references.
\<close>

definition map_wf :: "slot set \<Rightarrow> super_block \<Rightarrow> dinode \<Rightarrow> bool" where
  "map_wf X sb di \<longleftrightarrow> length (i_block_nr di) = 10 \<and>
     (\<forall>s \<in> live (dev sb) di. 0 < slot_val (dev sb) di s \<and> nat (slot_val (dev sb) di s) \<in> used_blocks sb \<and>
        (s \<in> X \<or> nat (slot_val (dev sb) di s) < dlen (dev sb))) \<and>
     inj_on (slot_val (dev sb) di) (live (dev sb) di) \<and>
     block_count di = int (card (live (dev sb) di))"

lemma finite_slots: "finite slots"
  by (simp add: slots_def)

lemma slots_simps [simp]:
  "S_data l \<in> slots \<longleftrightarrow> l < 4196362" "S_ind \<in> slots" "S_dind \<in> slots" "S_id k \<in> slots \<longleftrightarrow> k < 2048"
  by (auto simp: slots_def)

lemma index_slots [simp]: "S_ind \<notin> range S_data" "S_dind \<notin> range S_data" "S_id k \<notin> range S_data"
  by auto

lemma finite_live: "finite (live d di)"
  using finite_slots by (simp add: live_def)

lemma map_wf_slot:
  assumes "map_wf X sb di" and "s \<in> slots" and "slot_val (dev sb) di s \<noteq> 0"
  shows "0 < slot_val (dev sb) di s" "nat (slot_val (dev sb) di s) \<in> used_blocks sb"
    "s \<notin> X \<Longrightarrow> nat (slot_val (dev sb) di s) < dlen (dev sb)"
  using assms by (auto simp: map_wf_def live_def)

lemma map_wf_inj:
  assumes "map_wf X sb di" and "s \<in> slots" "t \<in> slots" and "slot_val (dev sb) di s \<noteq> 0"
    and "slot_val (dev sb) di s = slot_val (dev sb) di t"
  shows "s = t"
  using assms by (auto simp: map_wf_def live_def inj_on_def)

lemma map_wf_nonneg: "map_wf X sb di \<Longrightarrow> s \<in> slots \<Longrightarrow> 0 \<le> slot_val (dev sb) di s"
  using map_wf_slot(1) by fastforce

text \<open>
  The central lemma on growing a file: some empty slots \<open>N\<close> receive distinct fresh blocks,
  everything else is as before.
\<close>

lemma map_wf_extend:
  assumes wf: "map_wf X sb di" and N: "N \<subseteq> slots" "\<And>s. s \<in> N \<Longrightarrow> slot_val (dev sb) di s = 0"
    and val: "\<And>s. s \<in> slots \<Longrightarrow> slot_val (dev sb') di' s = (if s \<in> N then f s else slot_val (dev sb) di s)"
    and f: "inj_on f N" "\<And>s. s \<in> N \<Longrightarrow> 0 < f s \<and> nat (f s) \<notin> used_blocks sb \<and> nat (f s) \<in> used_blocks sb'"
    and written: "\<And>s. s \<in> N \<Longrightarrow> s \<in> X' \<or> nat (f s) < dlen (dev sb')"
    and used: "used_blocks sb \<subseteq> used_blocks sb'" and len: "dlen (dev sb) \<le> dlen (dev sb')" and "X \<subseteq> X'"
    and di: "length (i_block_nr di') = 10" "block_count di' = block_count di + int (card N)"
  shows "map_wf X' sb' di'"
proof -
  have live: "live (dev sb') di' = live (dev sb) di \<union> N"
  proof (rule set_eqI)
    fix s
    show "s \<in> live (dev sb') di' \<longleftrightarrow> s \<in> live (dev sb) di \<union> N"
      using N(1) f(2) [of s] val [of s] by (cases "s \<in> N") (auto simp: live_def)
  qed
  have disj: "live (dev sb) di \<inter> N = {}" using N by (auto simp: live_def)
  have "finite N" using N(1) finite_slots finite_subset by blast
  then have card: "card (live (dev sb') di') = card (live (dev sb) di) + card N"
    unfolding live using disj finite_live by (simp add: card_Un_disjoint)
  have old: "slot_val (dev sb') di' s = slot_val (dev sb) di s" if "s \<in> live (dev sb) di" for s
    using that val disj by (auto simp: live_def)
  have new: "slot_val (dev sb') di' s = f s" if "s \<in> N" for s using that val N(1) by auto
  have inj: "inj_on (slot_val (dev sb') di') (live (dev sb) di \<union> N)"
  proof (rule inj_onI)
    fix s t
    assume s: "s \<in> live (dev sb) di \<union> N" and t: "t \<in> live (dev sb) di \<union> N"
      and eq: "slot_val (dev sb') di' s = slot_val (dev sb') di' t"
    have cross: False if "u \<in> live (dev sb) di" "w \<in> N" "slot_val (dev sb') di' u = slot_val (dev sb') di' w" for u w
    proof -
      have "nat (slot_val (dev sb) di u) \<in> used_blocks sb" using wf that(1) by (auto simp: map_wf_def)
      with that old new f(2) show False by metis
    qed
    show "s = t"
    proof (cases "s \<in> N")
      case True
      show ?thesis
      proof (cases "t \<in> N")
        case True
        with \<open>s \<in> N\<close> eq new f(1) show ?thesis by (auto simp: inj_on_def)
      next
        case False
        with t True eq cross [of t s] show ?thesis by auto
      qed
    next
      case False
      with s have s': "s \<in> live (dev sb) di" by simp
      show ?thesis
      proof (cases "t \<in> N")
        case True
        with s' eq cross [of s t] show ?thesis by auto
      next
        case False
        with t have t': "t \<in> live (dev sb) di" by simp
        have "inj_on (slot_val (dev sb) di) (live (dev sb) di)" using wf by (simp add: map_wf_def)
        with s' t' eq old show ?thesis by (metis inj_onD)
      qed
    qed
  qed
  have each: "0 < slot_val (dev sb') di' s \<and> nat (slot_val (dev sb') di' s) \<in> used_blocks sb' \<and>
      (s \<in> X' \<or> nat (slot_val (dev sb') di' s) < dlen (dev sb'))" if "s \<in> live (dev sb) di \<union> N" for s
  proof (cases "s \<in> N")
    case True
    with new f(2) written show ?thesis by simp
  next
    case False
    with that have s: "s \<in> live (dev sb) di" by simp
    then have "0 < slot_val (dev sb) di s \<and> nat (slot_val (dev sb) di s) \<in> used_blocks sb \<and>
      (s \<in> X \<or> nat (slot_val (dev sb) di s) < dlen (dev sb))" using wf by (simp add: map_wf_def)
    with old [OF s] used len \<open>X \<subseteq> X'\<close> show ?thesis by auto
  qed
  show ?thesis
    unfolding map_wf_def live using di card inj each wf live by (simp add: map_wf_def)
qed

section \<open>Looking a block up\<close>

lemma bmap_nonneg: "map_wf X sb di \<Longrightarrow> l < 4196362 \<Longrightarrow> 0 \<le> bmap (dev sb) di l"
  using map_wf_nonneg [of X sb di "S_data l"] by simp

lemma read_index_block:
  assumes "super_inv sb" and "map_wf X sb di" and "X \<subseteq> range S_data" and "s \<in> slots - range S_data"
    and "slot_val (dev sb) di s \<noteq> 0"
  shows "read_blocks sb (slot_val (dev sb) di s) 1 = Ok (dblk (dev sb) (nat (slot_val (dev sb) di s)))"
proof -
  have "s \<notin> X" using assms(3,4) by blast
  with map_wf_slot [OF assms(2) _ assms(5)] assms(4) super_invD(1) [OF assms(1)] show ?thesis
    by (intro read_blocks_1) (auto simp: layout_ok_def)
qed

lemma lookup_block_bmap:
  assumes "super_inv sb" and "map_wf X sb di" and "X \<subseteq> range S_data" and "l < 4196362"
  shows "lookup_block sb di (int l) = Ok (bmap (dev sb) di l)"
proof -
  note read = read_index_block [OF assms(1-3)]
  consider (direct) "l < 10" | (ind) "10 \<le> l" "l < 2058" | (dind) "2058 \<le> l" by linarith
  then show ?thesis
  proof cases
    case direct
    then show ?thesis by (simp add: lookup_block_def bmap_def fs_consts)
  next
    case ind
    then have "int l - 10 = int (l - 10)" by simp
    moreover have "0 \<le> i_indirect di" using map_wf_nonneg [OF assms(2), of S_ind] by simp
    ultimately show ?thesis
    proof (cases "i_indirect di = 0")
      case False
      with read [of S_ind] have "read_blocks sb (i_indirect di) 1 = Ok (dblk (dev sb) (nat (i_indirect di)))" by simp
      with False \<open>0 \<le> i_indirect di\<close> \<open>int l - 10 = int (l - 10)\<close> ind show ?thesis
        by (simp add: lookup_block_def bmap_def fs_consts idx_def del: of_nat_diff)
    qed (use ind in \<open>simp add: lookup_block_def bmap_def fs_consts idx_def\<close>)
  next
    case dind
    define k j where "k = (l - 2058) div 2048" and "j = (l - 2058) mod 2048"
    have eq: "int l - 10 - 2048 = int (l - 2058)" using dind by simp
    have k: "(int l - 10 - 2048) div 2048 = int k" and j: "(int l - 10 - 2048) mod 2048 = int j"
      unfolding eq k_def j_def by (simp_all only: of_nat_div of_nat_mod of_nat_numeral)
    have k_less: "k < 2048" using assms(4) by (simp add: k_def)
    have nonneg: "0 \<le> i_dindirect di" using map_wf_nonneg [OF assms(2), of S_dind] by simp
    show ?thesis
    proof (cases "i_dindirect di = 0")
      case True
      with dind k k_less show ?thesis by (simp add: lookup_block_def bmap_def fs_consts idx_def Let_def)
    next
      case False
      have "0 \<le> idx (dev sb) (i_dindirect di) k"
        using map_wf_nonneg [OF assms(2), of "S_id k"] k_less by simp
      moreover have "read_blocks sb (i_dindirect di) 1 = Ok (dblk (dev sb) (nat (i_dindirect di)))"
        using read [of S_dind] False by simp
      moreover have "idx (dev sb) (i_dindirect di) k \<noteq> 0 \<Longrightarrow>
          read_blocks sb (idx (dev sb) (i_dindirect di) k) 1 = Ok (dblk (dev sb) (nat (idx (dev sb) (i_dindirect di) k)))"
        using read [of "S_id k"] k_less by simp
      moreover have "get_int (dblk (dev sb) (nat (i_dindirect di))) (int k) = idx (dev sb) (i_dindirect di) k"
        using False nonneg by (simp add: idx_def)
      moreover have "bmap (dev sb) di l = idx (dev sb) (idx (dev sb) (i_dindirect di) k) j"
        using dind by (simp add: bmap_def k_def j_def)
      moreover have "lookup_block sb di (int l) = and_then (read_blocks sb (i_dindirect di) 1) (\<lambda>block.
          if get_int block (int k) > 0 then and_then (read_blocks sb (get_int block (int k)) 1) (\<lambda>block. Ok (get_int block (int j)))
          else Ok 0)"
        using dind k j k_less False nonneg by (simp add: lookup_block_def fs_consts Let_def)
      ultimately show ?thesis by (auto simp: idx_def [of _ "idx _ _ _"])
    qed
  qed
qed

definition block_data :: "device \<Rightarrow> dinode \<Rightarrow> nat \<Rightarrow> arr" where
  "block_data d di l = (if bmap d di l = 0 then zero_arr else dblk d (nat (bmap d di l)))"

lemma testfs_read_block_eq:
  assumes "super_inv sb" and "map_wf {} sb (din inn)" and "l < 4196362"
  shows "testfs_read_block sb inn (int l) = Ok (bmap (dev sb) (din inn) l, block_data (dev sb) (din inn) l)"
proof -
  have max: "int l < MAX_BLOCK_NR" using assms(3) by (simp add: fs_consts)
  have look: "lookup_block sb (din inn) (int l) = Ok (bmap (dev sb) (din inn) l)"
    using lookup_block_bmap [OF assms(1,2) _ assms(3)] by simp
  show ?thesis
  proof (cases "bmap (dev sb) (din inn) l = 0")
    case True
    with max look show ?thesis by (simp add: testfs_read_block_def block_data_def)
  next
    case False
    with map_wf_slot [OF assms(2), of "S_data l"] assms(3)
    have "0 < bmap (dev sb) (din inn) l" "nat (bmap (dev sb) (din inn) l) < dlen (dev sb)" by simp_all
    with False max look super_invD(1) [OF assms(1)] show ?thesis
      by (simp add: testfs_read_block_def block_data_def layout_ok_def read_blocks_1 [simplified])
  qed
qed

lemma testfs_read_block_too_big:
  "l \<ge> 4196362 \<Longrightarrow> testfs_read_block sb inn (int l) = Ok (- EFBIG, zero_arr)"
  by (simp add: testfs_read_block_def fs_consts)

section \<open>Frames\<close>

text \<open>Nothing above the free maps changes but the blocks of \<open>A\<close>.\<close>

definition fs_frame :: "nat set \<Rightarrow> super_block \<Rightarrow> super_block \<Rightarrow> bool" where
  "fs_frame A sb sb' \<longleftrightarrow> inode_freemap sb' = inode_freemap sb \<and> max_fs_blocks (dsb sb') = max_fs_blocks (dsb sb) \<and>
     dlen (dev sb) \<le> dlen (dev sb') \<and> (\<forall>q \<ge> 18. q \<notin> A \<longrightarrow> dblk (dev sb') q = dblk (dev sb) q)"

lemma fs_frame_refl [simp]: "fs_frame A sb sb"
  by (simp add: fs_frame_def)

lemma fs_frame_trans: "fs_frame A sb sb' \<Longrightarrow> fs_frame B sb' sb'' \<Longrightarrow> fs_frame (A \<union> B) sb sb''"
  by (auto simp: fs_frame_def)

lemma fs_frame_mono: "fs_frame A sb sb' \<Longrightarrow> A \<subseteq> B \<Longrightarrow> fs_frame B sb sb'"
  by (auto simp: fs_frame_def)

lemma fs_frame_chain: "fs_frame A sb sb' \<Longrightarrow> fs_frame B sb' sb'' \<Longrightarrow> A \<subseteq> C \<Longrightarrow> B \<subseteq> C \<Longrightarrow> fs_frame C sb sb''"
  using fs_frame_mono [OF fs_frame_trans] by blast

lemma same_data_frame: "same_data sb sb' \<Longrightarrow> fs_frame {} sb sb'"
  by (simp add: same_data_def fs_frame_def)

lemma write_frame: "fs_frame {p} sb (sb\<lparr>dev := dev_write (dev sb) p (Suc 0) a\<rparr>)"
  by (simp add: fs_frame_def dblk_dev_write_1)

lemma fs_frameD: "fs_frame A sb sb' \<Longrightarrow> 18 \<le> q \<Longrightarrow> q \<notin> A \<Longrightarrow> dblk (dev sb') q = dblk (dev sb) q"
  by (simp add: fs_frame_def)

lemma fs_frame_dlen: "fs_frame A sb sb' \<Longrightarrow> dlen (dev sb) \<le> dlen (dev sb')"
  by (simp add: fs_frame_def)

text \<open>What an operation on a file may change: its own index blocks and blocks that are not in use.\<close>

definition may_change :: "super_block \<Rightarrow> dinode \<Rightarrow> nat set" where
  "may_change sb di = {q. DATA_START \<le> q \<and> (q \<in> used_blocks sb \<longrightarrow> q \<in> index_blocks (dev sb) di)}"

section \<open>Blocks allocated and released for an inode\<close>

definition counted :: "inode \<Rightarrow> int \<Rightarrow> inode" where
  "counted inn c = set_dirty (inn\<lparr>din := (din inn)\<lparr>block_count := block_count (din inn) + c\<rparr>\<rparr>)"

lemma din_counted [simp]: "din (counted inn c) = (din inn)\<lparr>block_count := block_count (din inn) + c\<rparr>"
  "i_nr (counted inn c) = i_nr inn" "i_count (counted inn c) = i_count inn"
  "i_flags (counted inn c) = i_flags inn OR I_FLAGS_DIRTY"
  by (simp_all add: counted_def set_dirty_def)

lemma alloc_for_inode_cases [consumes 1, case_names full found]:
  assumes inv: "super_inv sb"
  obtains (full) "\<not> can_alloc sb" "\<And>inn. testfs_alloc_block_for_inode sb inn = Ok (- ENOSPC, inn, sb)"
  | (found) p sb' where "p \<notin> used_blocks sb" "DATA_START \<le> p" "p < 2 ^ 31"
      "\<And>inn. testfs_alloc_block_for_inode sb inn = Ok (int p, counted inn 1, sb')" "super_inv sb'"
      "used_blocks sb' = insert p (used_blocks sb)" "fs_frame {} sb sb'"
  using inv
proof (cases rule: testfs_alloc_block_cases)
  case full
  then show thesis by (intro that(1)) (simp_all add: testfs_alloc_block_for_inode_def ENOSPC_def)
next
  case (found p sb')
  have "p \<in> used_blocks sb'" using found(6) by simp
  with used_blocks_bound(2) [OF found(5) this] have "p < 2 ^ 31" by (simp add: fs_consts)
  with found same_data_frame [OF found(7)] show thesis
    by (intro that(2)) (simp_all add: testfs_alloc_block_for_inode_def counted_def)
qed

lemma free_from_inode_used:
  assumes "super_inv sb" and "p \<in> used_blocks sb"
  obtains sb' where "\<forall>inn. testfs_free_block_from_inode sb inn (int p) = Ok (counted inn (- 1), sb')"
    "super_inv sb'" "used_blocks sb' = used_blocks sb - {p}" "fs_frame {p} sb sb'" "p < dlen (dev sb')"
proof -
  from testfs_free_block_used [OF assms] obtain sb' where
    sb': "testfs_free_block sb (int p) = Ok (0, sb')" "super_inv sb'" "used_blocks sb' = used_blocks sb - {p}"
    "same_data (sb\<lparr>dev := dev_write (dev sb) p (Suc 0) zero_arr\<rparr>) sb'" by blast
  have "p \<noteq> 0" using used_blocks_bound(1) [OF assms] by (auto simp: fs_consts)
  then have "\<forall>inn. testfs_free_block_from_inode sb inn (int p) = Ok (counted inn (- 1), sb')"
    using sb'(1) by (simp add: testfs_free_block_from_inode_def counted_def)
  moreover have "fs_frame {p} sb sb'"
    using fs_frame_trans [OF write_frame [of p sb zero_arr] same_data_frame [OF sb'(4)]] by simp
  moreover have "p < dlen (dev sb')" using sb'(4) by (simp add: same_data_def)
  ultimately show thesis using sb'(2,3) by (intro that)
qed

section \<open>Frames and the block map\<close>

lemma index_blocks_used:
  assumes "super_inv sb" and "map_wf X sb di" and "q \<in> index_blocks (dev sb) di"
  shows "q \<in> used_blocks sb" "DATA_START \<le> q"
proof -
  show "q \<in> used_blocks sb" using assms(2,3) by (auto simp: index_blocks_def map_wf_def)
  then show "DATA_START \<le> q" using used_blocks_bound(1) [OF assms(1)] by simp
qed

lemma slot_in_index_blocks:
  "s \<in> slots - range S_data \<Longrightarrow> slot_val d di s \<noteq> 0 \<Longrightarrow> nat (slot_val d di s) \<in> index_blocks d di"
  by (auto simp: index_blocks_def live_def)

lemma idx_cong: "dblk d' (nat p) = dblk d (nat p) \<Longrightarrow> idx d' p k = idx d p k"
  by (simp add: idx_def)

lemma idx_zero [simp]: "idx d 0 k = 0"
  by (simp add: idx_def)

lemma slot_val_frame:
  assumes inv: "super_inv sb" and wf: "map_wf X sb di" and fr: "fs_frame A sb sb'"
    and A: "A \<inter> index_blocks (dev sb) di = {}" and s: "s \<in> slots"
  shows "slot_val (dev sb') di s = slot_val (dev sb) di s"
proof -
  have same: "idx (dev sb') (slot_val (dev sb) di t) k = idx (dev sb) (slot_val (dev sb) di t) k"
    if "t \<in> slots - range S_data" for t k
  proof (cases "slot_val (dev sb) di t = 0")
    case False
    then have *: "nat (slot_val (dev sb) di t) \<in> index_blocks (dev sb) di"
      by (rule slot_in_index_blocks [OF that])
    moreover have "18 \<le> nat (slot_val (dev sb) di t)"
      using index_blocks_used(2) [OF inv wf *] by (simp add: fs_consts)
    ultimately show ?thesis using A fr by (intro idx_cong fs_frameD [of A sb]) auto
  qed simp
  show ?thesis
  proof (cases s)
    case (S_data l)
    have k: "(l - 2058) div 2048 < 2048" using s S_data by simp
    show ?thesis using S_data same [of S_ind] same [of S_dind] same [of "S_id ((l - 2058) div 2048)"] k
      by (simp add: bmap_def)
  qed (use s same [of S_dind] in simp_all)
qed

lemma live_cong:
  "(\<And>s. s \<in> slots \<Longrightarrow> slot_val d' di' s = slot_val d di s) \<Longrightarrow> live d' di' = live d di"
  by (auto simp: live_def)

lemma index_blocks_cong:
  "(\<And>s. s \<in> slots \<Longrightarrow> slot_val d' di' s = slot_val d di s) \<Longrightarrow> index_blocks d' di' = index_blocks d di"
  using live_cong [of d' di' d di] by (auto simp: index_blocks_def live_def image_def)

lemma owned_cong:
  "(\<And>s. s \<in> slots \<Longrightarrow> slot_val d' di' s = slot_val d di s) \<Longrightarrow> owned d' di' = owned d di"
  using live_cong [of d' di' d di] by (auto simp: owned_def live_def image_def)

lemma map_wf_cong:
  assumes wf: "map_wf X sb di" and val: "\<And>s. s \<in> slots \<Longrightarrow> slot_val (dev sb') di' s = slot_val (dev sb) di s"
    and used: "\<And>q. q \<in> owned (dev sb) di \<Longrightarrow> q \<in> used_blocks sb'" and len: "dlen (dev sb) \<le> dlen (dev sb')"
    and "X \<subseteq> X'" and "length (i_block_nr di') = 10" "block_count di' = block_count di"
  shows "map_wf X' sb' di'"
proof -
  have L: "live (dev sb') di' = live (dev sb) di" by (rule live_cong) (rule val)
  have v: "slot_val (dev sb') di' s = slot_val (dev sb) di s" if "s \<in> live (dev sb) di" for s
    using that val by (simp add: live_def)
  have "nat (slot_val (dev sb) di s) \<in> used_blocks sb'" if "s \<in> live (dev sb) di" for s
    using used that by (simp add: owned_def)
  moreover have "inj_on (slot_val (dev sb') di') (live (dev sb) di)"
    using wf v by (auto simp: map_wf_def inj_on_def)
  ultimately show ?thesis using wf assms(4-7) v unfolding map_wf_def L by fastforce
qed

lemma owned_used: "map_wf X sb di \<Longrightarrow> owned (dev sb) di \<subseteq> used_blocks sb"
  by (auto simp: owned_def map_wf_def)

lemma index_blocks_owned: "index_blocks d di \<subseteq> owned d di"
  by (auto simp: index_blocks_def owned_def)

section \<open>Growing a file by one block\<close>

text \<open>The first logical block that a slot is needed for.\<close>

fun slot_start :: "slot \<Rightarrow> nat" where
  "slot_start (S_data l) = l"
| "slot_start S_ind = 10"
| "slot_start S_dind = 2058"
| "slot_start (S_id k) = 2058 + 2048 * k"

definition same_meta :: "inode \<Rightarrow> inode \<Rightarrow> bool" where
  "same_meta inn inn' \<longleftrightarrow> i_nr inn' = i_nr inn \<and> i_count inn' = i_count inn \<and>
     i_type (din inn') = i_type (din inn) \<and> i_size (din inn') = i_size (din inn)"

text \<open>
  Logical block \<open>l\<close>, a hole before, now has the fresh physical block \<open>p\<close>; the file owns what it
  owned and every block allocated meanwhile; nobody else's block has changed.
\<close>

definition grown :: "super_block \<Rightarrow> inode \<Rightarrow> nat \<Rightarrow> nat \<Rightarrow> super_block \<Rightarrow> inode \<Rightarrow> bool" where
  "grown sb inn l p sb' inn' \<longleftrightarrow>
     super_inv sb' \<and> map_wf {S_data l} sb' (din inn') \<and> same_meta inn inn' \<and>
     i_flags inn' = i_flags inn OR I_FLAGS_DIRTY \<and> 0 < p \<and> p \<notin> used_blocks sb \<and>
     (\<forall>k < 4196362. bmap (dev sb') (din inn') k = (if k = l then int p else bmap (dev sb) (din inn) k)) \<and>
     used_blocks sb \<subseteq> used_blocks sb' \<and>
     owned (dev sb') (din inn') = owned (dev sb) (din inn) \<union> (used_blocks sb' - used_blocks sb) \<and>
     live (dev sb) (din inn) \<subseteq> live (dev sb') (din inn') \<and>
     (\<forall>s \<in> live (dev sb') (din inn') - live (dev sb) (din inn). slot_start s \<le> l) \<and>
     fs_frame (may_change sb (din inn)) sb sb'"

lemma grownI:
  assumes inv': "super_inv sb'" and wf: "map_wf {} sb (din inn)" and l: "l < 4196362"
    and N: "N \<subseteq> slots" "S_data l \<in> N" "N \<inter> range S_data \<subseteq> {S_data l}"
      "\<And>s. s \<in> N \<Longrightarrow> slot_val (dev sb) (din inn) s = 0 \<and> slot_start s \<le> l"
    and val: "\<And>s. s \<in> slots \<Longrightarrow> slot_val (dev sb') (din inn') s = (if s \<in> N then int (f s) else slot_val (dev sb) (din inn) s)"
    and f: "inj_on f N" "f ` N \<inter> used_blocks sb = {}" "used_blocks sb' = used_blocks sb \<union> f ` N" "f (S_data l) = p"
    and written: "\<And>s. s \<in> N \<Longrightarrow> s = S_data l \<or> f s < dlen (dev sb')"
    and meta: "same_meta inn inn'" "i_flags inn' = i_flags inn OR I_FLAGS_DIRTY"
      "length (i_block_nr (din inn')) = 10" "block_count (din inn') = block_count (din inn) + int (card N)"
    and fr: "fs_frame A sb sb'" "A \<subseteq> may_change sb (din inn)"
  shows "grown sb inn l p sb' inn'"
proof -
  have pos: "0 < f s" if "s \<in> N" for s
  proof -
    have "f s \<in> used_blocks sb'" using f(3) that by auto
    from used_blocks_bound(1) [OF inv' this] show ?thesis by (simp add: fs_consts)
  qed
  have wf': "map_wf {S_data l} sb' (din inn')"
  proof (rule map_wf_extend [where f = "\<lambda>s. int (f s)" and X = "{}" and N = N, OF wf N(1)])
    show "inj_on (\<lambda>s. int (f s)) N" using f(1) by (auto simp: inj_on_def)
  next
    fix s assume "s \<in> N"
    then show "0 < int (f s) \<and> nat (int (f s)) \<notin> used_blocks sb \<and> nat (int (f s)) \<in> used_blocks sb'"
      using pos f(2,3) by auto
    show "s \<in> {S_data l} \<or> nat (int (f s)) < dlen (dev sb')" using written [OF \<open>s \<in> N\<close>] by auto
  qed (use N(4) f(3) val meta fs_frame_dlen [OF fr(1)] in auto)
  have live: "live (dev sb') (din inn') = live (dev sb) (din inn) \<union> N"
  proof (rule set_eqI)
    fix s show "s \<in> live (dev sb') (din inn') \<longleftrightarrow> s \<in> live (dev sb) (din inn) \<union> N"
      using N(1) pos [of s] val [of s] by (cases "s \<in> N") (auto simp: live_def)
  qed
  have eq: "(\<lambda>s. nat (slot_val (dev sb') (din inn') s)) ` N = f ` N"
    using N(1) val by (intro image_cong) auto
  have eq': "(\<lambda>s. nat (slot_val (dev sb') (din inn') s)) ` live (dev sb) (din inn) = owned (dev sb) (din inn)"
    unfolding owned_def using val N(4) by (intro image_cong) (auto simp: live_def)
  have owned: "owned (dev sb') (din inn') = owned (dev sb) (din inn) \<union> (used_blocks sb' - used_blocks sb)"
    using f(2,3) unfolding owned_def [of "dev sb'"] live image_Un eq eq' by blast
  have bm: "bmap (dev sb') (din inn') k = (if k = l then int p else bmap (dev sb) (din inn) k)" if "k < 4196362" for k
  proof (cases "S_data k \<in> N")
    case True
    with N(3) have "k = l" by auto
    with val [of "S_data k"] that True f(4) show ?thesis by simp
  next
    case False
    with N(2) have "k \<noteq> l" by auto
    with val [of "S_data k"] that False show ?thesis by simp
  qed
  have "p \<notin> used_blocks sb" "0 < p" using f(2,4) N(2) pos by blast+
  moreover have "\<forall>s \<in> live (dev sb') (din inn') - live (dev sb) (din inn). slot_start s \<le> l"
    using N(4) live by auto
  ultimately show ?thesis
    using inv' wf' meta(1,2) bm owned f(3) fs_frame_mono [OF fr] live by (auto simp: grown_def)
qed

lemma may_change_fresh: "p \<notin> used_blocks sb \<Longrightarrow> DATA_START \<le> p \<Longrightarrow> p \<in> may_change sb di"
  by (simp add: may_change_def)

lemma may_change_index:
  "super_inv sb \<Longrightarrow> map_wf X sb di \<Longrightarrow> q \<in> index_blocks (dev sb) di \<Longrightarrow> q \<in> may_change sb di"
  using index_blocks_used by (simp add: may_change_def)

text \<open>A direct block.\<close>

lemma allocate_direct:
  assumes inv: "super_inv sb" and wf: "map_wf {} sb (din inn)" and l: "l < 10" "bmap (dev sb) (din inn) l = 0"
    and p: "p \<notin> used_blocks sb" "super_inv sb'" "used_blocks sb' = insert p (used_blocks sb)" "fs_frame {} sb sb'"
  shows "grown sb inn l p sb' ((counted inn 1)\<lparr>din := (din (counted inn 1))\<lparr>i_block_nr := (i_block_nr (din inn))[l := int p]\<rparr>\<rparr>)"
    (is "grown sb inn l p sb' ?inn'")
proof (rule grownI [where N = "{S_data l}" and f = "\<lambda>_. p" and A = "{}"])
  fix s assume s: "s \<in> slots"
  have len: "length (i_block_nr (din inn)) = 10" using wf by (simp add: map_wf_def)
  have same: "slot_val (dev sb') (din inn) s = slot_val (dev sb) (din inn) s"
    using slot_val_frame [OF inv wf p(4) _ s] by simp
  have "slot_val (dev sb') (din ?inn') s = (if s = S_data l then int p else slot_val (dev sb') (din inn) s)"
    using l(1) len by (cases s) (auto simp: bmap_def nth_list_update)
  with same show "slot_val (dev sb') (din ?inn') s = (if s \<in> {S_data l} then int p else slot_val (dev sb) (din inn) s)"
    by simp
qed (use assms in \<open>auto simp: same_meta_def map_wf_def\<close>)

section \<open>Updates of index blocks\<close>

lemma idx_written:
  assumes "dblk d (nat P) = trunc_arr (put_int a (int j) x)" and "0 < P" and "is_s32 x" and "k < 2048"
  shows "idx d P k = (if k = j then x else get_int a (int k))"
proof -
  have "idx d P k = get_int (put_int a (int j) x) (int k)"
    using assms(1,2,4) get_int_trunc [of "int k"] by (simp add: idx_def)
  then show ?thesis using assms(3) by (simp add: get_int_put_int)
qed

lemma slot_val_ind:
  assumes l: "10 \<le> l" "l < 2058" and di': "i_block_nr di' = i_block_nr di" "i_dindirect di' = i_dindirect di"
    and ind: "\<And>k. k < 2048 \<Longrightarrow> idx d' (i_indirect di') k = (if k = l - 10 then p else idx d (i_indirect di) k)"
    and other: "\<And>t k. t \<in> slots - range S_data - {S_ind} \<Longrightarrow> idx d' (slot_val d di t) k = idx d (slot_val d di t) k"
    and s: "s \<in> slots"
  shows "slot_val d' di' s =
    (if s = S_data l then p else if s = S_ind then i_indirect di' else slot_val d di s)"
proof (cases s)
  case (S_data m)
  have k: "(m - 2058) div 2048 < 2048" using s S_data by simp
  consider "m < 10" | "10 \<le> m" "m < 2058" | "2058 \<le> m" by linarith
  then show ?thesis
  proof cases
    case 2
    then have "m - 10 < 2048" by simp
    from ind [OF this] l 2 S_data show ?thesis by (auto simp: bmap_def)
  next
    case 3
    with l other [of S_dind] other [of "S_id ((m - 2058) div 2048)"] k S_data di' show ?thesis
      by (simp add: bmap_def)
  qed (use S_data di' l in \<open>auto simp: bmap_def\<close>)
qed (use s di' other [of S_dind] in auto)

lemma slot_val_dind:
  assumes l: "2058 \<le> l" "l < 4196362" and k: "k = (l - 2058) div 2048" and j: "j = (l - 2058) mod 2048"
    and di': "i_block_nr di' = i_block_nr di" "i_indirect di' = i_indirect di"
    and D: "\<And>m. m < 2048 \<Longrightarrow> idx d' (i_dindirect di') m = (if m = k then I else idx d (i_dindirect di) m)"
    and I: "\<And>m. m < 2048 \<Longrightarrow> idx d' I m = (if m = j then p else idx d (idx d (i_dindirect di) k) m)"
    and other: "\<And>t i. t \<in> slots - range S_data - {S_dind, S_id k} \<Longrightarrow> idx d' (slot_val d di t) i = idx d (slot_val d di t) i"
    and s: "s \<in> slots"
  shows "slot_val d' di' s =
    (if s = S_data l then p else if s = S_id k then I else if s = S_dind then i_dindirect di' else slot_val d di s)"
proof (cases s)
  case (S_data m)
  define a b where "a = (m - 2058) div 2048" and "b = (m - 2058) mod 2048"
  have a: "a < 2048" and b: "b < 2048" using s S_data by (simp_all add: a_def b_def)
  show ?thesis
  proof (cases "m < 2058")
    case True
    with l have "m \<noteq> l" by simp
    moreover have "idx d' (i_indirect di) (m - 10) = idx d (i_indirect di) (m - 10)" using other [of S_ind] by simp
    ultimately show ?thesis using True S_data di' by (simp add: bmap_def)
  next
    case False
    have eq: "m = l \<longleftrightarrow> a = k \<and> b = j"
    proof
      assume "a = k \<and> b = j"
      then have "m - 2058 = l - 2058" unfolding a_def b_def k j by (metis div_mult_mod_eq)
      with False l show "m = l" by simp
    qed (simp add: a_def b_def k j)
    have bm: "bmap d' di' m = idx d' (idx d' (i_dindirect di') a) b" "bmap d di m = idx d (idx d (i_dindirect di) a) b"
      using False by (simp_all add: bmap_def a_def b_def)
    show ?thesis
    proof (cases "a = k")
      case True
      with S_data bm D [OF a] I [OF b] eq show ?thesis by simp
    next
      case False
      with S_data bm D [OF a] other [of "S_id a"] a eq show ?thesis by simp
    qed
  qed
qed (use s di' D in auto)

text \<open>The common frame of the cases below: index blocks other than the one rewritten stay.\<close>

lemma idx_frame:
  assumes inv: "super_inv sb" and wf: "map_wf X sb di" and fr: "fs_frame A sb sb'"
    and t: "t \<in> slots - range S_data" and A: "slot_val (dev sb) di t \<noteq> 0 \<Longrightarrow> nat (slot_val (dev sb) di t) \<notin> A"
  shows "idx (dev sb') (slot_val (dev sb) di t) k = idx (dev sb) (slot_val (dev sb) di t) k"
proof (cases "slot_val (dev sb) di t = 0")
  case False
  have "18 \<le> nat (slot_val (dev sb) di t)"
    using index_blocks_used(2) [OF inv wf slot_in_index_blocks [OF t False]] by (simp add: fs_consts)
  with A [OF False] fr show ?thesis by (intro idx_cong fs_frameD [of A sb])
qed simp

lemma index_slot_distinct:
  assumes "map_wf X sb di" and "s \<in> slots" "t \<in> slots" "s \<noteq> t" and "slot_val (dev sb) di s \<noteq> 0" "slot_val (dev sb) di t \<noteq> 0"
  shows "nat (slot_val (dev sb) di s) \<noteq> nat (slot_val (dev sb) di t)"
  using map_wf_inj [OF assms(1-3,5)] map_wf_slot(1) [OF assms(1)] assms by fastforce

lemma index_slot_fresh:
  assumes "map_wf X sb di" and "s \<in> slots" and "slot_val (dev sb) di s \<noteq> 0" and "q \<notin> used_blocks sb"
  shows "nat (slot_val (dev sb) di s) \<noteq> q"
  using map_wf_slot(2) [OF assms(1-3)] assms(4) by auto

lemma used_blocks_dev [simp]: "used_blocks (sb\<lparr>dev := d\<rparr>) = used_blocks sb"
  by (simp add: used_blocks_def block_map_def)

lemma is_s32_nat: "p < 2 ^ 31 \<Longrightarrow> is_s32 (int p)"
  by (simp add: is_s32_def)

section \<open>A block below the indirect block\<close>

lemma grown_indirect_old:
  assumes inv: "super_inv sb" and wf: "map_wf {} sb (din inn)" and l: "10 \<le> l" "l < 2058" "bmap (dev sb) (din inn) l = 0"
    and ind: "i_indirect (din inn) = int q" "0 < q"
    and p: "p \<notin> used_blocks sb" "DATA_START \<le> p" "p < 2 ^ 31" "super_inv sb1" "used_blocks sb1 = insert p (used_blocks sb)"
      "fs_frame {} sb sb1"
  shows "grown sb inn l p
    (sb1\<lparr>dev := dev_write (dev sb1) q (Suc 0) (put_int (dblk (dev sb) q) (int (l - 10)) (int p))\<rparr>) (counted inn 1)"
    (is "grown sb inn l p ?sb' ?inn'")
proof (rule grownI [where N = "{S_data l}" and f = "\<lambda>_. p" and A = "{q}"])
  have qi: "q \<in> index_blocks (dev sb) (din inn)"
    using slot_in_index_blocks [of S_ind "dev sb" "din inn"] ind by simp
  have fr: "fs_frame {q} sb ?sb'" using fs_frame_trans [OF p(6) write_frame] by simp
  then show "fs_frame {q} sb ?sb'" .
  show "{q} \<subseteq> may_change sb (din inn)" using may_change_index [OF inv wf qi] by simp
  show "super_inv ?sb'"
    using index_blocks_used(2) [OF inv wf qi] by (intro super_inv_data_write [OF p(4)]) (simp add: fs_consts)
  fix s assume s: "s \<in> slots"
  have "slot_val (dev ?sb') (din ?inn') s =
    (if s = S_data l then int p else if s = S_ind then i_indirect (din ?inn') else slot_val (dev sb) (din inn) s)"
  proof (rule slot_val_ind [OF l(1,2) _ _ _ _ s])
    fix k :: nat assume "k < 2048"
    then show "idx (dev ?sb') (i_indirect (din ?inn')) k =
        (if k = l - 10 then int p else idx (dev sb) (i_indirect (din inn)) k)"
      using ind p(3) idx_written [of "dev ?sb'" "int q" "dblk (dev sb) q" "l - 10" "int p" k]
      by (simp add: dblk_dev_write_1 is_s32_nat idx_def [of "dev sb"] del: of_nat_diff)
  next
    fix t :: slot and k assume t: "t \<in> slots - range S_data - {S_ind}"
    show "idx (dev ?sb') (slot_val (dev sb) (din inn) t) k = idx (dev sb) (slot_val (dev sb) (din inn) t) k"
    proof (rule idx_frame [OF inv wf fr])
      assume "slot_val (dev sb) (din inn) t \<noteq> 0"
      with index_slot_distinct [OF wf, of t S_ind] t ind show "nat (slot_val (dev sb) (din inn) t) \<notin> {q}" by auto
    qed (use t in auto)
  qed simp_all
  then show "slot_val (dev ?sb') (din ?inn') s = (if s \<in> {S_data l} then int p else slot_val (dev sb) (din inn) s)"
    by simp
qed (use assms in \<open>auto simp: same_meta_def map_wf_def\<close>)

lemma grown_indirect_new:
  assumes inv: "super_inv sb" and wf: "map_wf {} sb (din inn)" and l: "10 \<le> l" "l < 2058" "bmap (dev sb) (din inn) l = 0"
    and ind: "i_indirect (din inn) = 0"
    and q: "q \<notin> used_blocks sb" "DATA_START \<le> q" "q < 2 ^ 31" "used_blocks sb0 = insert q (used_blocks sb)" "fs_frame {} sb sb0"
    and p: "p \<notin> used_blocks sb0" "DATA_START \<le> p" "p < 2 ^ 31" "super_inv sb1" "used_blocks sb1 = insert p (used_blocks sb0)"
      "fs_frame {} sb0 sb1"
    and inn': "din inn' = (din inn)\<lparr>i_indirect := int q, block_count := block_count (din inn) + 2\<rparr>" "same_meta inn inn'"
      "i_flags inn' = i_flags inn OR I_FLAGS_DIRTY"
  shows "grown sb inn l p
    (sb1\<lparr>dev := dev_write (dev sb1) q (Suc 0) (put_int zero_arr (int (l - 10)) (int p))\<rparr>) inn'"
    (is "grown sb inn l p ?sb' _")
proof (rule grownI [where N = "{S_data l, S_ind}" and f = "\<lambda>s. if s = S_ind then q else p" and A = "{q}"])
  have fr: "fs_frame {q} sb ?sb'" using fs_frame_trans [OF fs_frame_trans [OF q(5) p(6)] write_frame] by simp
  then show "fs_frame {q} sb ?sb'" .
  show "{q} \<subseteq> may_change sb (din inn)" using may_change_fresh [OF q(1,2)] by simp
  show "super_inv ?sb'" using q(2) by (intro super_inv_data_write [OF p(4)]) (simp add: fs_consts)
  fix s assume s: "s \<in> slots"
  have q0: "0 < q" using q(2) by (simp add: fs_consts)
  have "slot_val (dev ?sb') (din inn') s =
    (if s = S_data l then int p else if s = S_ind then i_indirect (din inn') else slot_val (dev sb) (din inn) s)"
  proof (rule slot_val_ind [OF l(1,2) _ _ _ _ s])
    fix k :: nat assume "k < 2048"
    then show "idx (dev ?sb') (i_indirect (din inn')) k =
        (if k = l - 10 then int p else idx (dev sb) (i_indirect (din inn)) k)"
      using ind p(3) q0 inn' idx_written [of "dev ?sb'" "int q" zero_arr "l - 10" "int p" k]
      by (simp add: dblk_dev_write_1 is_s32_nat del: of_nat_diff)
  next
    fix t :: slot and k assume t: "t \<in> slots - range S_data - {S_ind}"
    show "idx (dev ?sb') (slot_val (dev sb) (din inn) t) k = idx (dev sb) (slot_val (dev sb) (din inn) t) k"
    proof (rule idx_frame [OF inv wf fr])
      assume "slot_val (dev sb) (din inn) t \<noteq> 0"
      with index_slot_fresh [OF wf, of t q] t q(1) show "nat (slot_val (dev sb) (din inn) t) \<notin> {q}" by auto
    qed (use t in auto)
  qed (use inn' in simp_all)
  then show "slot_val (dev ?sb') (din inn') s = (if s \<in> {S_data l, S_ind} then int (if s = S_ind then q else p) else slot_val (dev sb) (din inn) s)"
    using inn' by auto
qed (use assms in \<open>auto simp: same_meta_def map_wf_def inj_on_def\<close>)

section \<open>A block below the doubly indirect block\<close>

text \<open>
  \<open>D\<close> is the doubly indirect block, \<open>I\<close> its entry \<open>k\<close>; those of the two slots in \<open>N\<close> were empty
  before.
\<close>

lemma grown_dindirect:
  fixes sb sb' :: super_block and inn inn' :: inode and D I p l :: nat and N :: "slot set" and aI aD :: arr
  defines "f \<equiv> \<lambda>s. if s = S_dind then D else if s = S_data l then p else I"
  assumes inv: "super_inv sb" "super_inv sb'" and wf: "map_wf {} sb (din inn)"
    and l: "2058 \<le> l" "l < 4196362" "bmap (dev sb) (din inn) l = 0"
    and kj: "k = (l - 2058) div 2048" "j = (l - 2058) mod 2048"
    and N: "N \<subseteq> {S_dind, S_id k}" and pos: "0 < D" "D < 2 ^ 31" "0 < I" "I < 2 ^ 31" "p < 2 ^ 31"
    and oldD: "i_dindirect (din inn) = (if S_dind \<in> N then 0 else int D)"
    and oldI: "idx (dev sb) (i_dindirect (din inn)) k = (if S_id k \<in> N then 0 else int I)"
    and newI: "dblk (dev sb') I = trunc_arr (put_int aI (int j) (int p))"
      "\<And>m. m < 2048 \<Longrightarrow> get_int aI (int m) = idx (dev sb) (idx (dev sb) (i_dindirect (din inn)) k) m"
    and newD: "\<And>m. m < 2048 \<Longrightarrow> idx (dev sb') (int D) m = (if m = k then int I else idx (dev sb) (i_dindirect (din inn)) m)"
    and f: "inj_on f (insert (S_data l) N)" "f ` insert (S_data l) N \<inter> used_blocks sb = {}"
      "used_blocks sb' = used_blocks sb \<union> f ` insert (S_data l) N"
    and inn': "din inn' = (din inn)\<lparr>i_dindirect := int D, block_count := block_count (din inn) + 1 + int (card N)\<rparr>"
      "same_meta inn inn'" "i_flags inn' = i_flags inn OR I_FLAGS_DIRTY"
    and fr: "fs_frame {D, I} sb sb'" and len: "D < dlen (dev sb')" "I < dlen (dev sb')"
  shows "grown sb inn l p sb' inn'"
proof (rule grownI [where N = "insert (S_data l) N" and f = f and A = "{D, I}"])
  let ?di = "din inn"
  have k: "k < 2048" using kj l by simp
  have fin: "finite N" using N by (rule finite_subset) simp
  have notin: "S_data l \<notin> N" using N by auto
  have fresh: "q \<notin> used_blocks sb \<and> DATA_START \<le> q" if "s \<in> N" "f s = q" for s q
  proof -
    have "q \<in> used_blocks sb'" using f(3) that by auto
    with used_blocks_bound(1) [OF inv(2)] f(2) that show ?thesis by auto
  qed
  have freshD: "D \<notin> used_blocks sb \<and> DATA_START \<le> D" if "S_dind \<in> N" using fresh [OF that, of D] by (simp add: f_def)
  have freshI: "I \<notin> used_blocks sb \<and> DATA_START \<le> I" if "S_id k \<in> N" using fresh [OF that, of I] by (simp add: f_def)
  have valD: "slot_val (dev sb) ?di S_dind = int D" if "S_dind \<notin> N" using oldD that by simp
  have valI: "slot_val (dev sb) ?di (S_id k) = int I" if "S_id k \<notin> N" using oldI that by simp
  have D_not: "nat (slot_val (dev sb) ?di t) \<noteq> D"
    if t: "t \<in> slots - range S_data - {S_dind, S_id k}" "slot_val (dev sb) ?di t \<noteq> 0" for t
    using index_slot_fresh [OF wf, of t D] freshD index_slot_distinct [OF wf, of t S_dind] valD pos(1) t
    by (cases "S_dind \<in> N") auto
  have I_not: "nat (slot_val (dev sb) ?di t) \<noteq> I"
    if t: "t \<in> slots - range S_data - {S_dind, S_id k}" "slot_val (dev sb) ?di t \<noteq> 0" for t
    using index_slot_fresh [OF wf, of t I] freshI index_slot_distinct [OF wf, of t "S_id k"] valI pos(3) t k
    by (cases "S_id k \<in> N") auto
  show "{D, I} \<subseteq> may_change sb ?di"
  proof -
    have "D \<in> may_change sb ?di"
      using may_change_fresh freshD may_change_index [OF inv(1) wf] slot_in_index_blocks [of S_dind "dev sb" ?di] valD pos(1)
      by (cases "S_dind \<in> N") auto
    moreover have "I \<in> may_change sb ?di"
      using may_change_fresh freshI may_change_index [OF inv(1) wf] slot_in_index_blocks [of "S_id k" "dev sb" ?di] valI pos(3) k
      by (cases "S_id k \<in> N") auto
    ultimately show ?thesis by simp
  qed
  show "block_count (din inn') = block_count ?di + int (card (insert (S_data l) N))"
    using inn'(1) fin notin by simp
  show "length (i_block_nr (din inn')) = 10" using inn'(1) wf by (simp add: map_wf_def)
  fix s
  show "slot_val (dev sb') (din inn') s = (if s \<in> insert (S_data l) N then int (f s) else slot_val (dev sb) ?di s)"
    if s: "s \<in> slots"
  proof -
    have "slot_val (dev sb') (din inn') s =
      (if s = S_data l then int p else if s = S_id k then int I else if s = S_dind then i_dindirect (din inn')
       else slot_val (dev sb) ?di s)"
    proof (rule slot_val_dind [OF l(1,2) kj])
      fix m :: nat assume "m < 2048"
      then show "idx (dev sb') (int I) m = (if m = j then int p else idx (dev sb) (idx (dev sb) (i_dindirect ?di) k) m)"
        using idx_written [of "dev sb'" "int I" aI j "int p" m] newI pos by (simp add: is_s32_nat)
    next
      fix t :: slot and i assume t: "t \<in> slots - range S_data - {S_dind, S_id k}"
      show "idx (dev sb') (slot_val (dev sb) ?di t) i = idx (dev sb) (slot_val (dev sb) ?di t) i"
        using D_not [OF t] I_not [OF t] t by (intro idx_frame [OF inv(1) wf fr]) auto
    qed (use inn' newD s in simp_all)
    also have "\<dots> = (if s \<in> insert (S_data l) N then int (f s) else slot_val (dev sb) ?di s)"
      using N valD valI inn'(1) by (auto simp: f_def)
    finally show ?thesis .
  qed
  show "slot_val (dev sb) ?di s = 0 \<and> slot_start s \<le> l" if "s \<in> insert (S_data l) N"
  proof -
    have "2058 + 2048 * k \<le> l" using l kj by simp
    with that N oldD oldI l show ?thesis by (auto split: if_splits)
  qed
  show "s = S_data l \<or> f s < dlen (dev sb')" using len by (simp add: f_def)
  show "insert (S_data l) N \<subseteq> slots" "insert (S_data l) N \<inter> range S_data \<subseteq> {S_data l}" using N k l by auto
  show "f (S_data l) = p" by (simp add: f_def)
qed (fact | simp)+

section \<open>Allocation of a logical block\<close>

text \<open>There are \<open>n\<close> more blocks to allocate.\<close>

definition room :: "super_block \<Rightarrow> nat \<Rightarrow> bool" where
  "room sb n \<longleftrightarrow> card (used_blocks sb) + n \<le> unat (max_fs_blocks (dsb sb)) \<and> card (used_blocks sb) + n \<le> 2 ^ 20"

text \<open>A failed allocation: everything taken has been given back.\<close>

definition unchanged :: "super_block \<Rightarrow> inode \<Rightarrow> super_block \<Rightarrow> inode \<Rightarrow> bool" where
  "unchanged sb inn sb' inn' \<longleftrightarrow>
     super_inv sb' \<and> map_wf {} sb' (din inn') \<and> used_blocks sb' = used_blocks sb \<and> din inn' = din inn \<and>
     same_meta inn inn' \<and> i_flags inn' \<in> {i_flags inn, i_flags inn OR I_FLAGS_DIRTY} \<and>
     (\<forall>s \<in> slots. slot_val (dev sb') (din inn) s = slot_val (dev sb) (din inn) s) \<and>
     fs_frame (may_change sb (din inn)) sb sb'"

definition alloc_spec :: "super_block \<Rightarrow> inode \<Rightarrow> nat \<Rightarrow> (int \<times> arr \<times> inode \<times> super_block) outcome \<Rightarrow> bool" where
  "alloc_spec sb inn l r \<longleftrightarrow>
     (\<exists>p inn' sb'. r = Ok (int p, zero_arr, inn', sb') \<and> grown sb inn l p sb' inn') \<or>
     (\<exists>inn' sb'. \<not> room sb 3 \<and> r = Ok (- ENOSPC, zero_arr, inn', sb') \<and> unchanged sb inn sb' inn')"

lemma can_alloc_room: "\<not> can_alloc sb \<Longrightarrow> \<not> room sb 1"
  by (auto simp: can_alloc_def room_def fs_consts BITS_PER_WORD_def)

lemma not_room_extend:
  assumes "\<not> can_alloc sb'" and "used_blocks sb' = used_blocks sb \<union> F" and "finite F" and "card F \<le> 2" and "finite (used_blocks sb)"
    and "fs_frame A sb sb'"
  shows "\<not> room sb 3"
proof
  assume "room sb 3"
  have "card (used_blocks sb') \<le> card (used_blocks sb) + 2"
    using card_Un_le [of "used_blocks sb" F] assms(2,4) by simp
  with \<open>room sb 3\<close> assms(6) have "room sb' 1" by (simp add: room_def fs_frame_def)
  with can_alloc_room [OF assms(1)] show False by simp
qed

lemma alloc_specI_grown: "r = Ok (int p, zero_arr, inn', sb') \<Longrightarrow> grown sb inn l p sb' inn' \<Longrightarrow> alloc_spec sb inn l r"
  by (auto simp: alloc_spec_def)

lemma alloc_specI_full:
  assumes inv: "super_inv sb" and wf: "map_wf {} sb (din inn)" and r: "r = Ok (- ENOSPC, zero_arr, inn', sb')"
    and room: "\<not> room sb 3" and inv': "super_inv sb'" and used: "used_blocks sb' = used_blocks sb"
    and fr: "fs_frame A sb sb'" "A \<inter> used_blocks sb = {}" "\<And>q. q \<in> A \<Longrightarrow> DATA_START \<le> q"
    and inn': "din inn' = din inn" "same_meta inn inn'" "i_flags inn' \<in> {i_flags inn, i_flags inn OR I_FLAGS_DIRTY}"
  shows "alloc_spec sb inn l r"
proof -
  have idx: "A \<inter> index_blocks (dev sb) (din inn) = {}" using index_blocks_used(1) [OF inv wf] fr(2) by blast
  have val: "slot_val (dev sb') (din inn) s = slot_val (dev sb) (din inn) s" if "s \<in> slots" for s
    using slot_val_frame [OF inv wf fr(1) idx that] .
  have "map_wf {} sb' (din inn')"
    using owned_used [OF wf] used fs_frame_dlen [OF fr(1)] wf inn'(1)
    by (intro map_wf_cong [OF wf]) (auto simp: val map_wf_def)
  moreover have "fs_frame (may_change sb (din inn)) sb sb'"
    using fr(2,3) by (intro fs_frame_mono [OF fr(1)]) (auto simp: may_change_def)
  ultimately show ?thesis using r room inv' used inn' val by (auto simp: alloc_spec_def unchanged_def)
qed

lemma allocate_indirect_spec:
  assumes inv: "super_inv sb" and wf: "map_wf {} sb (din inn)" and l: "10 \<le> l" "l < 2058" "bmap (dev sb) (din inn) l = 0"
  shows "alloc_spec sb inn l (allocate_indirect sb inn (int (l - 10)) zero_arr)"
proof (cases "i_indirect (din inn) = 0")
  case False
  define q where "q = nat (i_indirect (din inn))"
  have q: "i_indirect (din inn) = int q" "0 < q"
    using map_wf_nonneg [OF wf, of S_ind] False by (simp_all add: q_def)
  have read: "read_blocks sb (int q) 1 = Ok (dblk (dev sb) q)"
    using read_index_block [OF inv wf, of S_ind] q by simp
  have zero: "get_int (dblk (dev sb) q) (int (l - 10)) = 0"
    using l q by (simp add: bmap_def idx_def del: of_nat_diff)
  from inv show ?thesis
  proof (cases rule: alloc_for_inode_cases)
    case full
    from full(2) have "allocate_indirect sb inn (int (l - 10)) zero_arr = Ok (- ENOSPC, zero_arr, inn, sb)"
      using False q read zero by (simp add: allocate_indirect_def Let_def ENOSPC_def)
    from alloc_specI_full [OF inv wf this not_room_extend [OF full(1), of sb "{}" "{}"] inv, of "{}"] finite_used_blocks [OF inv]
    show ?thesis by (simp add: same_meta_def)
  next
    case (found p sb1)
    have "allocate_indirect sb inn (int (l - 10)) zero_arr = Ok (int p, zero_arr, counted inn 1,
       sb1\<lparr>dev := dev_write (dev sb1) q (Suc 0) (put_int (dblk (dev sb) q) (int (l - 10)) (int p))\<rparr>)"
      using False q read zero found(4) write_blocks_1 [of "int q" sb1] by (simp add: allocate_indirect_def Let_def del: of_nat_diff)
    from alloc_specI_grown [OF this grown_indirect_old [OF inv wf l q found(1-3,5-7)]] show ?thesis .
  qed
next
  case True
  from inv show ?thesis
  proof (cases rule: alloc_for_inode_cases)
    case full
    from full(2) True have "allocate_indirect sb inn (int (l - 10)) zero_arr = Ok (- ENOSPC, zero_arr, inn, sb)"
      by (simp add: allocate_indirect_def Let_def ENOSPC_def)
    from alloc_specI_full [OF inv wf this not_room_extend [OF full(1), of sb "{}" "{}"] inv, of "{}"] finite_used_blocks [OF inv]
    show ?thesis by (simp add: same_meta_def)
  next
    case q: (found q sb0)
    let ?inn0 = "(counted inn 1)\<lparr>din := (din (counted inn 1))\<lparr>i_indirect := int q\<rparr>\<rparr>"
    from q(5) show ?thesis
    proof (cases rule: alloc_for_inode_cases)
      case full
      have "q \<in> used_blocks sb0" using q(6) by simp
      then obtain sb' where
        sb': "\<forall>inn. testfs_free_block_from_inode sb0 inn (int q) = Ok (counted inn (- 1), sb')"
          "super_inv sb'" "used_blocks sb' = used_blocks sb0 - {q}" "fs_frame {q} sb0 sb'" "q < dlen (dev sb')"
        by (rule free_from_inode_used [OF q(5)])
      let ?inn' = "(counted ?inn0 (- 1))\<lparr>din := (din (counted ?inn0 (- 1)))\<lparr>i_indirect := 0\<rparr>\<rparr>"
      have ret: "allocate_indirect sb inn (int (l - 10)) zero_arr = Ok (- ENOSPC, zero_arr, ?inn', sb')"
        using True q(4) full(2) sb'(1) by (simp add: allocate_indirect_def Let_def ENOSPC_def)
      have room: "\<not> room sb 3"
        using q(6) by (intro not_room_extend [OF full(1) _ _ _ finite_used_blocks [OF inv] q(7), of "{q}"]) auto
      have "din ?inn' = din inn" "same_meta inn ?inn'" "i_flags ?inn' = i_flags inn OR I_FLAGS_DIRTY"
        using True by (simp_all add: same_meta_def)
      moreover have "used_blocks sb' = used_blocks sb" using sb'(3) q(1,6) by simp
      ultimately show ?thesis
        using q(1,2) by (intro alloc_specI_full [OF inv wf ret room sb'(2) _ fs_frame_trans [OF q(7) sb'(4)]]) simp_all
    next
      case (found p sb1)
      have "allocate_indirect sb inn (int (l - 10)) zero_arr = Ok (int p, zero_arr, counted ?inn0 1,
         sb1\<lparr>dev := dev_write (dev sb1) q (Suc 0) (put_int zero_arr (int (l - 10)) (int p))\<rparr>)"
        using True q(4) found(4) write_blocks_1 [of "int q" sb1] by (simp add: allocate_indirect_def Let_def del: of_nat_diff)
      moreover have "grown sb inn l p (sb1\<lparr>dev := dev_write (dev sb1) q (Suc 0) (put_int zero_arr (int (l - 10)) (int p))\<rparr>) (counted ?inn0 1)"
        by (rule grown_indirect_new [OF inv wf l True q(1-3,6,7) found(1-3,5-7)]) (simp_all add: same_meta_def)
      ultimately show ?thesis by (rule alloc_specI_grown)
    qed
  qed
qed

text \<open>
  The state between the steps of a doubly indirect allocation: \<open>F\<close> are the blocks taken so far,
  none of them written yet.
\<close>

definition pending :: "super_block \<Rightarrow> inode \<Rightarrow> nat set \<Rightarrow> int \<Rightarrow> super_block \<Rightarrow> inode \<Rightarrow> bool" where
  "pending sb inn F D sb0 inn0 \<longleftrightarrow>
     super_inv sb0 \<and> finite F \<and> F \<inter> used_blocks sb = {} \<and> used_blocks sb0 = used_blocks sb \<union> F \<and> fs_frame {} sb sb0 \<and>
     din inn0 = (din inn)\<lparr>i_dindirect := D, block_count := block_count (din inn) + int (card F)\<rparr> \<and>
     same_meta inn inn0 \<and> i_flags inn0 = (if F = {} then i_flags inn else i_flags inn OR I_FLAGS_DIRTY)"

lemma pending_alloc:
  assumes "pending sb inn F D sb0 inn0" and "p \<notin> used_blocks sb0" "super_inv sb1" "used_blocks sb1 = insert p (used_blocks sb0)"
    "fs_frame {} sb0 sb1"
  shows "pending sb inn (insert p F) D sb1 (counted inn0 1)"
  using assms fs_frame_trans [of "{}" sb sb0 "{}" sb1] by (auto simp: pending_def same_meta_def)

text \<open>Giving back what was taken, the entry step's block first.\<close>

lemma alloc_spec_undo:
  assumes inv: "super_inv sb" and wf: "map_wf {} sb (din inn)" and room: "\<not> room sb 3"
    and r: "r = Ok (- ENOSPC, zero_arr, inn', sb')" and inv': "super_inv sb'" "used_blocks sb' = used_blocks sb" "fs_frame F sb sb'"
    and F: "F \<inter> used_blocks sb = {}" "\<And>q. q \<in> F \<Longrightarrow> DATA_START \<le> q"
    and inn': "din inn' = din inn" "same_meta inn inn'" "i_flags inn' \<in> {i_flags inn, i_flags inn OR I_FLAGS_DIRTY}"
  shows "alloc_spec sb inn l r"
  using alloc_specI_full [OF inv wf r room inv'(1,2,3) F] inn' by blast

lemma pending_not_room:
  assumes "super_inv sb" and "pending sb inn F D sb0 inn0" and "\<not> can_alloc sb0" and "card F \<le> 2"
  shows "\<not> room sb 3"
  using assms not_room_extend [OF assms(3), of sb F "{}"] finite_used_blocks [OF assms(1)] by (auto simp: pending_def)

lemma dindirect_leaf_full:
  assumes inv: "super_inv sb" and wf: "map_wf {} sb (din inn)"
    and pend: "pending sb inn F D sb0 inn0" and F: "F = (if dA then {nat D} else {}) \<union> (if iA then {I} else {})"
    and dA: "dA \<Longrightarrow> iA \<and> nat D \<noteq> I" "if dA then i_dindirect (din inn) = 0 \<and> 0 < D else i_dindirect (din inn) = D"
    and zero: "get_int ind j = 0"
    and full: "\<not> can_alloc sb0" "\<And>inn. testfs_alloc_block_for_inode sb0 inn = Ok (- ENOSPC, inn, sb0)"
  shows "alloc_spec sb inn l (dindirect_leaf sb0 inn0 j zero_arr dind dA ind iA (int I))"
proof -
  note P = pend [unfolded pending_def]
  have room: "\<not> room sb 3" using pending_not_room [OF inv pend full(1)] dA(1) F by (auto split: if_splits)
  have data: "DATA_START \<le> q" if "q \<in> F" for q
    using P that used_blocks_bound(1) [of sb0 q] by auto
  have fresh: "F \<inter> used_blocks sb = {}" using P by simp
  show ?thesis
  proof (cases iA)
    case False
    with dA(1) F have F0: "F = {}" and ret: "dindirect_leaf sb0 inn0 j zero_arr dind dA ind iA (int I) = Ok (- ENOSPC, zero_arr, inn0, sb0)"
      using full(2) zero by (auto simp: dindirect_leaf_def ENOSPC_def)
    from False dA have "D = i_dindirect (din inn)" by (auto split: if_splits)
    then have "din inn0 = din inn" using P F0 by simp
    then show ?thesis using P F0 by (intro alloc_spec_undo [OF inv wf room ret, of "{}"]) auto
  next
    case iA: True
    with F have "I \<in> used_blocks sb0" using P by auto
    then obtain sb1 where sb1: "\<forall>inn. testfs_free_block_from_inode sb0 inn (int I) = Ok (counted inn (- 1), sb1)"
      "super_inv sb1" "used_blocks sb1 = used_blocks sb0 - {I}" "fs_frame {I} sb0 sb1" "I < dlen (dev sb1)"
      using P by (auto intro: free_from_inode_used)
    have fr1: "fs_frame {I} sb sb1" using P fs_frame_trans [of "{}" sb sb0 "{I}" sb1] sb1(4) by simp
    show ?thesis
    proof (cases dA)
      case False
      have ret: "dindirect_leaf sb0 inn0 j zero_arr dind dA ind iA (int I) = Ok (- ENOSPC, zero_arr, counted inn0 (- 1), sb1)"
        using full(2) zero iA False sb1(1) by (simp add: dindirect_leaf_def ENOSPC_def)
      have FI: "F = {I}" using F iA False by simp
      have "used_blocks sb1 = used_blocks sb" using P FI sb1(3) by auto
      moreover have "din (counted inn0 (- 1)) = din inn" using P FI dA(2) False by simp
      ultimately show ?thesis using P FI data fresh
        by (intro alloc_spec_undo [OF inv wf room ret sb1(2) _ fr1]) (auto simp: same_meta_def)
    next
      case True
      define d where "d = nat D"
      have d: "D = int d" "d \<noteq> I" "F = {d, I}" using dA True F iA by (auto simp: d_def)
      have "d \<in> used_blocks sb1" using P d sb1(3) by auto
      then obtain sb2 where sb2: "\<forall>inn. testfs_free_block_from_inode sb1 inn (int d) = Ok (counted inn (- 1), sb2)"
        "super_inv sb2" "used_blocks sb2 = used_blocks sb1 - {d}" "fs_frame {d} sb1 sb2" "d < dlen (dev sb2)"
        by (rule free_from_inode_used [OF sb1(2)])
      let ?inn' = "(counted (counted inn0 (- 1)) (- 1))\<lparr>din := (din (counted (counted inn0 (- 1)) (- 1)))\<lparr>i_dindirect := 0\<rparr>\<rparr>"
      have "i_dindirect (din inn0) = int d" using P d by simp
      then have ret: "dindirect_leaf sb0 inn0 j zero_arr dind dA ind iA (int I) = Ok (- ENOSPC, zero_arr, ?inn', sb2)"
        using full(2) zero iA True sb1(1) sb2(1) by (simp add: dindirect_leaf_def ENOSPC_def)
      have "used_blocks sb2 = used_blocks sb" using P d sb1(3) sb2(3) by auto
      moreover have "fs_frame F sb sb2" using fs_frame_trans [OF fr1 sb2(4)] d(3) by (simp add: insert_commute)
      moreover have "din ?inn' = din inn" using P d dA(2) True by simp
      moreover have "same_meta inn ?inn'" "i_flags ?inn' = i_flags inn OR I_FLAGS_DIRTY"
        using P d(3) by (simp_all add: same_meta_def)
      ultimately show ?thesis using data fresh
        by (intro alloc_spec_undo [OF inv wf room ret sb2(2), of F]) simp_all
    qed
  qed
qed

lemma dindirect_leaf_found:
  assumes inv: "super_inv sb" and wf: "map_wf {} sb (din inn)"
    and l: "2058 \<le> l" "l < 4196362" "bmap (dev sb) (din inn) l = 0"
    and kj: "k = (l - 2058) div 2048" "j = (l - 2058) mod 2048"
    and pend: "pending sb inn F (int D) sb0 inn0" and F: "F = (if dA then {D} else {}) \<union> (if iA then {I} else {})"
    and dA: "dA \<Longrightarrow> iA" "D \<noteq> I" "i_dindirect (din inn) = (if dA then 0 else int D)" "0 < D" "D < 2 ^ 31"
    and iA: "idx (dev sb) (i_dindirect (din inn)) k = (if iA then 0 else int I)" "0 < I" "I < 2 ^ 31"
    and ind: "\<And>m. m < 2048 \<Longrightarrow> get_int ind (int m) = idx (dev sb) (idx (dev sb) (i_dindirect (din inn)) k) m"
    and dind: "\<And>m. m < 2048 \<Longrightarrow> iA \<Longrightarrow> get_int dind (int m) = (if m = k then int I else idx (dev sb) (i_dindirect (din inn)) m)"
    and p: "p \<notin> used_blocks sb0" "DATA_START \<le> p" "p < 2 ^ 31" "super_inv sb1" "used_blocks sb1 = insert p (used_blocks sb0)"
      "fs_frame {} sb0 sb1" "\<And>inn. testfs_alloc_block_for_inode sb0 inn = Ok (int p, counted inn 1, sb1)"
  shows "alloc_spec sb inn l (dindirect_leaf sb0 inn0 (int j) zero_arr dind dA ind iA (int I))"
proof -
  define N where "N = (if dA then {S_dind} else {}) \<union> (if iA then {S_id k} else {})"
  define sb2 where "sb2 = sb1\<lparr>dev := dev_write (dev sb1) I (Suc 0) (put_int ind (int j) (int p))\<rparr>"
  define sb3 where "sb3 = (if iA then sb2\<lparr>dev := dev_write (dev sb2) D (Suc 0) dind\<rparr> else sb2)"
  note P = pend [unfolded pending_def] and P1 = pending_alloc [OF pend p(1,4,5,6), unfolded pending_def]
  have k: "k < 2048" "j < 2048" using kj l by simp_all
  have zero: "get_int ind (int j) = 0"
    using ind [OF k(2)] l(1,3) by (simp add: bmap_def kj)
  have D_data: "DATA_START \<le> D"
  proof (cases dA)
    case True
    with F P used_blocks_bound(1) [of sb0 D] show ?thesis by auto
  next
    case False
    with dA(3,4) map_wf_slot(2) [OF wf, of S_dind] used_blocks_bound(1) [OF inv] show ?thesis by simp
  qed
  have I_data: "DATA_START \<le> I"
  proof (cases iA)
    case True
    with F P used_blocks_bound(1) [of sb0 I] show ?thesis by auto
  next
    case False
    with iA k(1) map_wf_slot(2) [OF wf, of "S_id k"] used_blocks_bound(1) [OF inv] show ?thesis by simp
  qed
  have inv2: "super_inv sb2"
    unfolding sb2_def using I_data by (intro super_inv_data_write [OF p(4)]) (simp add: fs_consts)
  then have inv3: "super_inv sb3"
    using D_data super_inv_data_write [OF inv2, of D dind] by (simp add: sb3_def fs_consts)
  have ret: "dindirect_leaf sb0 inn0 (int j) zero_arr dind dA ind iA (int I) = Ok (int p, zero_arr, counted inn0 1, sb3)"
    using zero p(7) P write_blocks_1 [of "int I" sb1] write_blocks_1 [of "int D" sb2]
    by (auto simp: dindirect_leaf_def sb2_def sb3_def)
  have used: "used_blocks sb3 = insert p (used_blocks sb0)" using p(5) by (simp add: sb3_def sb2_def)
  have fr1: "fs_frame {} sb sb1" using P1 by simp
  have fr2: "fs_frame {I} sb sb2" using fs_frame_trans [OF fr1 write_frame [of I sb1]] by (simp add: sb2_def)
  have fr: "fs_frame {D, I} sb sb3"
    using fs_frame_trans [OF fr2 write_frame [of D sb2 dind]] fs_frame_mono [OF fr2, of "{D, I}"]
    by (simp add: sb3_def insert_commute)
  let ?f = "\<lambda>s. if s = S_dind then D else if s = S_data l then p else I"
  have img: "?f ` insert (S_data l) N = insert p F" by (auto simp: N_def F)
  have inj: "inj_on ?f (insert (S_data l) N)"
    using dA(2) p(1) P F by (auto simp: N_def inj_on_def split: if_splits)
  have card: "card N = card F" using dA(2) by (simp add: N_def F)
  have p_new: "p \<notin> used_blocks sb" using p(1) P by auto
  have "grown sb inn l p sb3 (counted inn0 1)"
  proof (intro grown_dindirect [where D = D and I = I and N = N and aI = ind and k = k and j = j])
    show "?f ` insert (S_data l) N \<inter> used_blocks sb = {}"
      "used_blocks sb3 = used_blocks sb \<union> ?f ` insert (S_data l) N"
      unfolding img using P used p_new by auto
    show "inj_on ?f (insert (S_data l) N)" by (rule inj)
    show "N \<subseteq> {S_dind, S_id k}" by (auto simp: N_def)
    show "i_dindirect (din inn) = (if S_dind \<in> N then 0 else int D)" using dA(3) by (simp add: N_def)
    show "idx (dev sb) (i_dindirect (din inn)) k = (if S_id k \<in> N then 0 else int I)" using iA(1) by (simp add: N_def)
    show "dblk (dev sb3) I = trunc_arr (put_int ind (int j) (int p))"
      using dA(2) by (simp add: sb3_def sb2_def dblk_dev_write_1)
    show "din (counted inn0 1) = (din inn)\<lparr>i_dindirect := int D, block_count := block_count (din inn) + 1 + int (card N)\<rparr>"
      using P card by simp
    show "same_meta inn (counted inn0 1)" "i_flags (counted inn0 1) = i_flags inn OR I_FLAGS_DIRTY"
      using P by (auto simp: same_meta_def)
    have len1: "dlen (dev sb) \<le> dlen (dev sb1)" using fs_frame_dlen [OF fr1] .
    show "I < dlen (dev sb3)" by (simp add: sb3_def sb2_def less_max_iff_disj)
    show "D < dlen (dev sb3)"
    proof (cases iA)
      case False
      with dA have "i_dindirect (din inn) = int D" by (auto split: if_splits)
      with dA(4) map_wf_slot(3) [OF wf, of S_dind] have "D < dlen (dev sb)" by auto
      with len1 show ?thesis by (simp add: sb3_def sb2_def False)
    qed (simp add: sb3_def)
    fix m :: nat assume m: "m < 2048"
    show "get_int ind (int m) = idx (dev sb) (idx (dev sb) (i_dindirect (din inn)) k) m" by (rule ind [OF m])
    show "idx (dev sb3) (int D) m = (if m = k then int I else idx (dev sb) (i_dindirect (din inn)) m)"
    proof (cases iA)
      case True
      have "dblk (dev sb3) D = trunc_arr dind" using True by (simp add: sb3_def dblk_dev_write_1)
      then show ?thesis using dind [OF m True] dA(4) get_int_trunc [of "int m" dind] m by (simp add: idx_def [of "dev sb3"])
    next
      case False
      with dA have "\<not> dA" by auto
      have "idx (dev sb3) (int D) m = idx (dev sb) (int D) m"
        using fs_frameD [OF fr2, of D] D_data dA(2) False by (intro idx_cong) (simp add: sb3_def fs_consts)
      with False \<open>\<not> dA\<close> dA(3) iA(1) show ?thesis by auto
    qed
  qed (fact+)
  with ret show ?thesis by (rule alloc_specI_grown)
qed

lemma dindirect_leaf_spec:
  assumes inv: "super_inv sb" and wf: "map_wf {} sb (din inn)"
    and l: "2058 \<le> l" "l < 4196362" "bmap (dev sb) (din inn) l = 0"
    and kj: "k = (l - 2058) div 2048" "j = (l - 2058) mod 2048"
    and pend: "pending sb inn F (int D) sb0 inn0" and F: "F = (if dA then {D} else {}) \<union> (if iA then {I} else {})"
    and dA: "dA \<Longrightarrow> iA" "D \<noteq> I" "i_dindirect (din inn) = (if dA then 0 else int D)" "0 < D" "D < 2 ^ 31"
    and iA: "idx (dev sb) (i_dindirect (din inn)) k = (if iA then 0 else int I)" "0 < I" "I < 2 ^ 31"
    and ind: "\<And>m. m < 2048 \<Longrightarrow> get_int ind (int m) = idx (dev sb) (idx (dev sb) (i_dindirect (din inn)) k) m"
    and dind: "\<And>m. m < 2048 \<Longrightarrow> iA \<Longrightarrow> get_int dind (int m) = (if m = k then int I else idx (dev sb) (i_dindirect (din inn)) m)"
  shows "alloc_spec sb inn l (dindirect_leaf sb0 inn0 (int j) zero_arr dind dA ind iA (int I))"
proof -
  have inv0: "super_inv sb0" using pend by (simp add: pending_def)
  have j: "j < 2048" using kj by simp
  have zero: "get_int ind (int j) = 0"
    using ind [OF j] l(1,3) by (simp add: bmap_def kj)
  from inv0 show ?thesis
  proof (cases rule: alloc_for_inode_cases)
    case full
    show ?thesis
      using dA F zero by (intro dindirect_leaf_full [OF inv wf pend _ _ _ _ full]) simp_all
  next
    case (found p sb1)
    show ?thesis
      by (rule dindirect_leaf_found [OF inv wf l kj pend F dA iA ind dind found(1-3,5-7,4)])
  qed
qed

lemma dindirect_entry_spec:
  assumes inv: "super_inv sb" and wf: "map_wf {} sb (din inn)"
    and l: "2058 \<le> l" "l < 4196362" "bmap (dev sb) (din inn) l = 0"
    and kj: "k = (l - 2058) div 2048" "j = (l - 2058) mod 2048"
    and pend: "pending sb inn F (int D) sb0 inn0" and F: "F = (if dA then {D} else {})"
    and dA: "i_dindirect (din inn) = (if dA then 0 else int D)" "0 < D" "D < 2 ^ 31"
    and dind: "\<And>m. m < 2048 \<Longrightarrow> get_int dind (int m) = idx (dev sb) (i_dindirect (din inn)) m"
  shows "alloc_spec sb inn l (dindirect_entry sb0 inn0 (int k) (int j) zero_arr dind dA)"
proof -
  note P = pend [unfolded pending_def]
  have inv0: "super_inv sb0" using P by simp
  have k: "k < 2048" using kj l by simp
  show ?thesis
  proof (cases "get_int dind (int k) = 0")
    case True
    then have I0: "idx (dev sb) (i_dindirect (din inn)) k = 0" using dind k by simp
    from inv0 show ?thesis
    proof (cases rule: alloc_for_inode_cases)
      case full
      have room: "\<not> room sb 3" using pending_not_room [OF inv pend full(1)] F by (auto split: if_splits)
      show ?thesis
      proof (cases dA)
        case False
        with True full(2) have ret: "dindirect_entry sb0 inn0 (int k) (int j) zero_arr dind dA = Ok (- ENOSPC, zero_arr, inn0, sb0)"
          by (simp add: dindirect_entry_def ENOSPC_def)
        have "din inn0 = din inn" using P F False dA(1) by simp
        then show ?thesis using P F False by (intro alloc_spec_undo [OF inv wf room ret, of "{}"]) auto
      next
        case dA': True
        then have "D \<in> used_blocks sb0" using P F by simp
        then obtain sb1 where sb1: "\<forall>inn. testfs_free_block_from_inode sb0 inn (int D) = Ok (counted inn (- 1), sb1)"
          "super_inv sb1" "used_blocks sb1 = used_blocks sb0 - {D}" "fs_frame {D} sb0 sb1" "D < dlen (dev sb1)"
          by (rule free_from_inode_used [OF inv0])
        let ?inn' = "(counted inn0 (- 1))\<lparr>din := (din (counted inn0 (- 1)))\<lparr>i_dindirect := 0\<rparr>\<rparr>"
        have ret: "dindirect_entry sb0 inn0 (int k) (int j) zero_arr dind dA = Ok (- ENOSPC, zero_arr, ?inn', sb1)"
          using True full(2) dA' sb1(1) P by (simp add: dindirect_entry_def ENOSPC_def)
        have "used_blocks sb1 = used_blocks sb" using P F dA' sb1(3) by auto
        moreover have "fs_frame F sb sb1" using fs_frame_trans [of "{}" sb sb0 "{D}" sb1] P sb1(4) F dA' by simp
        moreover have "din ?inn' = din inn" "same_meta inn ?inn'" "i_flags ?inn' = i_flags inn OR I_FLAGS_DIRTY"
          using P F dA' dA(1) by (simp_all add: same_meta_def)
        moreover have "F \<inter> used_blocks sb = {}" using P by simp
        moreover have "DATA_START \<le> q" if "q \<in> F" for q
          using P that used_blocks_bound(1) [OF inv0, of q] by auto
        ultimately show ?thesis by (intro alloc_spec_undo [OF inv wf room ret sb1(2), of F]) simp_all
      qed
    next
      case (found I sb1)
      have ret: "dindirect_entry sb0 inn0 (int k) (int j) zero_arr dind dA =
          dindirect_leaf sb1 (counted inn0 1) (int j) zero_arr (put_int dind (int k) (int I)) dA zero_arr True (int I)"
        using True found(4) by (simp add: dindirect_entry_def)
      have "D \<noteq> I"
      proof (cases dA)
        case True
        with found(1) P F show ?thesis by auto
      next
        case False
        with dA map_wf_slot(2) [OF wf, of S_dind] found(1) P show ?thesis by auto
      qed
      have "0 < I" using found(2) by (simp add: fs_consts)
      show ?thesis unfolding ret
      proof (rule dindirect_leaf_spec [OF inv wf l kj pending_alloc [OF pend found(1,5-7)] _ _ \<open>D \<noteq> I\<close> dA _ \<open>0 < I\<close> found(3)])
        show "insert I F = (if dA then {D} else {}) \<union> (if True then {I} else {})" using F by simp
        fix m :: nat assume "m < 2048"
        then show "get_int (put_int dind (int k) (int I)) (int m) = (if m = k then int I else idx (dev sb) (i_dindirect (din inn)) m)"
          using dind found(3) by (simp add: get_int_put_int is_s32_nat)
      qed (use I0 in simp_all)
    qed
  next
    case False
    define I where "I = nat (get_int dind (int k))"
    have I: "get_int dind (int k) = int I" "0 < I" and idxI: "idx (dev sb) (i_dindirect (din inn)) k = int I"
      using map_wf_nonneg [OF wf, of "S_id k"] False dind [OF k] k by (simp_all add: I_def)
    have "\<not> dA" using idxI I dA(1) by auto
    then have F0: "F = {}" and D: "i_dindirect (din inn) = int D" using F dA(1) by simp_all
    have used: "I \<in> used_blocks sb" and len: "I < dlen (dev sb)"
      using map_wf_slot(2,3) [OF wf, of "S_id k"] idxI I k by auto
    have I31: "I < 2 ^ 31" using used_blocks_bound(2) [OF inv used] by (simp add: fs_consts)
    have same: "dblk (dev sb0) I = dblk (dev sb) I"
      using P used_blocks_bound(1) [OF inv used] by (intro fs_frameD [of "{}"]) (simp_all add: fs_consts)
    have "I < dlen (dev sb0)" using P len fs_frame_dlen [of "{}" sb sb0] by simp
    then have "read_blocks sb0 (int I) 1 = Ok (dblk (dev sb) I)"
      using read_blocks_1 [of sb0 "int I"] super_invD(1) [OF inv0] same by (simp add: layout_ok_def)
    then have ret: "dindirect_entry sb0 inn0 (int k) (int j) zero_arr dind dA =
        dindirect_leaf sb0 inn0 (int j) zero_arr dind dA (dblk (dev sb) I) False (int I)"
      using I by (simp add: dindirect_entry_def)
    have "D \<noteq> I" using index_slot_distinct [OF wf, of S_dind "S_id k"] D idxI I dA(2) k by simp
    show ?thesis unfolding ret
    proof (rule dindirect_leaf_spec [OF inv wf l kj pend _ _ \<open>D \<noteq> I\<close> dA _ I(2) I31])
      fix m :: nat assume "m < 2048"
      show "get_int (dblk (dev sb) I) (int m) = idx (dev sb) (idx (dev sb) (i_dindirect (din inn)) k) m"
        using idxI I(2) by (simp add: idx_def [of _ "int I"])
    qed (use F \<open>\<not> dA\<close> idxI in simp_all)
  qed
qed

lemma allocate_dindirect_spec:
  assumes inv: "super_inv sb" and wf: "map_wf {} sb (din inn)"
    and l: "2058 \<le> l" "l < 4196362" "bmap (dev sb) (din inn) l = 0"
  shows "alloc_spec sb inn l (allocate_dindirect sb inn (int (l - 2058)) zero_arr)"
proof -
  define k j where "k = (l - 2058) div 2048" and "j = (l - 2058) mod 2048"
  have kj: "int (l - 2058) div NR_INDIRECT_BLOCKS = int k" "int (l - 2058) mod NR_INDIRECT_BLOCKS = int j"
    unfolding k_def j_def by (simp_all add: fs_consts of_nat_div of_nat_mod del: of_nat_diff)
  show ?thesis
  proof (cases "i_dindirect (din inn) = 0")
    case True
    from inv show ?thesis
    proof (cases rule: alloc_for_inode_cases)
      case full
      from full(2) True have ret: "allocate_dindirect sb inn (int (l - 2058)) zero_arr = Ok (- ENOSPC, zero_arr, inn, sb)"
        by (simp add: allocate_dindirect_def ENOSPC_def)
      have "\<not> room sb 3" using not_room_extend [OF full(1), of sb "{}" "{}"] finite_used_blocks [OF inv] by simp
      from alloc_spec_undo [OF inv wf this ret inv, of "{}"] show ?thesis by (simp add: same_meta_def)
    next
      case (found D sb0)
      let ?inn0 = "(counted inn 1)\<lparr>din := (din (counted inn 1))\<lparr>i_dindirect := int D\<rparr>\<rparr>"
      have ret: "allocate_dindirect sb inn (int (l - 2058)) zero_arr = dindirect_entry sb0 ?inn0 (int k) (int j) zero_arr zero_arr True"
        unfolding allocate_dindirect_def Let_def kj using True found(4) by simp
      have pend: "pending sb inn {D} (int D) sb0 ?inn0"
        using found by (simp add: pending_def same_meta_def)
      have "0 < D" using found(2) by (simp add: fs_consts)
      then show ?thesis unfolding ret using True found(3)
        by (intro dindirect_entry_spec [OF inv wf l k_def j_def pend]) simp_all
    qed
  next
    case False
    define D where "D = nat (i_dindirect (din inn))"
    have D: "i_dindirect (din inn) = int D" "0 < D"
      using map_wf_nonneg [OF wf, of S_dind] False by (simp_all add: D_def)
    have "D \<in> used_blocks sb" using map_wf_slot(2) [OF wf, of S_dind] D by simp
    then have D31: "D < 2 ^ 31" using used_blocks_bound(2) [OF inv] by (fastforce simp: fs_consts)
    have read: "read_blocks sb (int D) 1 = Ok (dblk (dev sb) D)"
      using read_index_block [OF inv wf, of S_dind] D by simp
    then have ret: "allocate_dindirect sb inn (int (l - 2058)) zero_arr =
        dindirect_entry sb inn (int k) (int j) zero_arr (dblk (dev sb) D) False"
      unfolding allocate_dindirect_def Let_def kj using D by simp
    have pend: "pending sb inn {} (int D) sb inn" using inv D by (simp add: pending_def same_meta_def)
    show ?thesis unfolding ret using D D31
      by (intro dindirect_entry_spec [OF inv wf l k_def j_def pend]) (simp_all add: idx_def)
  qed
qed

lemma allocate_block_spec:
  assumes inv: "super_inv sb" and wf: "map_wf {} sb (din inn)" and l: "l < 4196362" and hole: "bmap (dev sb) (din inn) l = 0"
  shows "alloc_spec sb inn l (testfs_allocate_block sb inn (int l))"
proof -
  have read: "testfs_read_block sb inn (int l) = Ok (0, zero_arr)"
    using testfs_read_block_eq [OF inv wf l] hole by (simp add: block_data_def)
  have max: "int l < MAX_BLOCK_NR" using l by (simp add: fs_consts)
  consider "l < 10" | "10 \<le> l" "l < 2058" | "2058 \<le> l" by linarith
  then show ?thesis
  proof cases
    case 1
    then have zero: "i_block_nr (din inn) ! l = 0" using hole by (simp add: bmap_def)
    from inv show ?thesis
    proof (cases rule: alloc_for_inode_cases)
      case full
      from full(2) have ret: "testfs_allocate_block sb inn (int l) = Ok (- ENOSPC, zero_arr, inn, sb)"
        using max read zero 1 by (simp add: testfs_allocate_block_def NR_DIRECT_BLOCKS_def ENOSPC_def)
      have "\<not> room sb 3" using not_room_extend [OF full(1), of sb "{}" "{}"] finite_used_blocks [OF inv] by simp
      from alloc_spec_undo [OF inv wf this ret inv, of "{}"] show ?thesis by (simp add: same_meta_def)
    next
      case (found p sb1)
      have "testfs_allocate_block sb inn (int l) = Ok (int p, zero_arr,
          (counted inn 1)\<lparr>din := (din (counted inn 1))\<lparr>i_block_nr := (i_block_nr (din inn))[l := int p]\<rparr>\<rparr>, sb1)"
        using found(4) max read zero 1 by (simp add: testfs_allocate_block_def NR_DIRECT_BLOCKS_def)
      from alloc_specI_grown [OF this allocate_direct [OF inv wf 1 hole found(1,5-7)]] show ?thesis .
    qed
  next
    case 2
    then have eq: "int l - NR_DIRECT_BLOCKS = int (l - 10)" by (simp add: fs_consts)
    have "int (l - 10) < NR_INDIRECT_BLOCKS" "\<not> int l < NR_DIRECT_BLOCKS" using 2 by (simp_all add: fs_consts)
    then have "testfs_allocate_block sb inn (int l) = allocate_indirect sb inn (int (l - 10)) zero_arr"
      unfolding testfs_allocate_block_def Let_def eq using max read by simp
    with allocate_indirect_spec [OF inv wf 2 hole] show ?thesis by simp
  next
    case 3
    then have eq: "int l - NR_DIRECT_BLOCKS - NR_INDIRECT_BLOCKS = int (l - 2058)" by (simp add: fs_consts)
    have "\<not> int l - NR_DIRECT_BLOCKS < NR_INDIRECT_BLOCKS" "\<not> int l < NR_DIRECT_BLOCKS" using 3 by (simp_all add: fs_consts)
    then have "testfs_allocate_block sb inn (int l) = allocate_dindirect sb inn (int (l - 2058)) zero_arr"
      unfolding testfs_allocate_block_def Let_def eq using max read by simp
    with allocate_dindirect_spec [OF inv wf 3 l hole] show ?thesis by simp
  qed
qed

lemma allocate_block_present:
  assumes inv: "super_inv sb" and wf: "map_wf {} sb (din inn)" and l: "l < 4196362" and "bmap (dev sb) (din inn) l \<noteq> 0"
  shows "testfs_allocate_block sb inn (int l) =
    Ok (bmap (dev sb) (din inn) l, block_data (dev sb) (din inn) l, inn, sb)"
proof -
  have "int l < MAX_BLOCK_NR" using l by (simp add: fs_consts)
  with testfs_read_block_eq [OF assms(1-3)] assms(4) show ?thesis by (simp add: testfs_allocate_block_def)
qed

section \<open>An inode without blocks\<close>

definition new_inode :: "int \<Rightarrow> inode" where
  "new_inode nr = \<lparr>din = zero_dinode, i_flags = 0, i_nr = nr, i_count = 1\<rparr>"

lemma slot_val_zero_dinode [simp]: "slot_val d zero_dinode s = 0"
proof (cases s)
  case (S_data l)
  have "l < 10 \<Longrightarrow> replicate 10 (0 :: int) ! l = 0" by (rule nth_replicate)
  with S_data show ?thesis by (auto simp: bmap_def zero_dinode_def)
qed (simp_all add: zero_dinode_def)

lemma live_zero_dinode [simp]: "live d zero_dinode = {}"
  by (simp add: live_def)

lemma map_wf_zero_dinode: "map_wf X sb zero_dinode"
  by (simp add: map_wf_def) (simp add: zero_dinode_def)

section \<open>Properties\<close>

text \<open>
  (C34) Reading a logical block of a consistent file. Through the direct, indirect and doubly indirect
  references \<open>testfs_read_block\<close> finds the block \<open>bmap\<close> assigns to the number and returns its contents; a
  hole reads as zeros with number 0; a number past the largest file is \<open>-EFBIG\<close>. It never crashes.
\<close>

theorem testfs_read_block_correct:
  assumes "super_inv sb" and "map_wf {} sb (din inn)"
  shows "testfs_read_block sb inn (int l) =
    (if l < 4196362 then Ok (bmap (dev sb) (din inn) l, block_data (dev sb) (din inn) l) else Ok (- EFBIG, zero_arr))"
  using testfs_read_block_eq [OF assms] testfs_read_block_too_big [of l] by simp

theorem testfs_read_block_correct_witness:
  "super_inv (empty_fs 10) \<and> map_wf {} (empty_fs 10) (din (new_inode 1)) \<and>
   testfs_read_block (empty_fs 10) (new_inode 1) (int 3000) = Ok (0, zero_arr)"
  using testfs_read_block_correct [OF super_inv_empty_fs, of 10 "new_inode 1" 3000] super_inv_empty_fs [of 10]
    map_wf_zero_dinode [of "{}" "empty_fs 10"] slot_val_zero_dinode [of _ "S_data 3000"]
  by (simp add: new_inode_def block_data_def del: slot_val_zero_dinode)

text \<open>
  (C32) Giving a file a block. On a consistent file \<open>testfs_allocate_block\<close> returns the block a logical number
  already has, or takes a fresh one, with fresh indirect blocks where they are missing: then only this
  logical block gets a new physical block, every other one keeps its own, no block has two owners,
  the counter of the inode follows and no block of another file changes (\<open>grown\<close>). If the device is
  full, which takes fewer than three free blocks, it returns \<open>-ENOSPC\<close> and every block taken on the
  way has been given back (\<open>unchanged\<close>). It never crashes.
\<close>

theorem testfs_allocate_block_correct:
  assumes "super_inv sb" and "map_wf {} sb (din inn)" and "l < 4196362"
  shows "if bmap (dev sb) (din inn) l \<noteq> 0
         then testfs_allocate_block sb inn (int l) =
                Ok (bmap (dev sb) (din inn) l, block_data (dev sb) (din inn) l, inn, sb)
         else (\<exists>p inn' sb'. testfs_allocate_block sb inn (int l) = Ok (int p, zero_arr, inn', sb') \<and>
                  grown sb inn l p sb' inn') \<or>
              (\<exists>inn' sb'. \<not> room sb 3 \<and> testfs_allocate_block sb inn (int l) = Ok (- ENOSPC, zero_arr, inn', sb') \<and>
                  unchanged sb inn sb' inn')"
proof (cases "bmap (dev sb) (din inn) l = 0")
  case True
  with allocate_block_spec [OF assms] show ?thesis by (simp add: alloc_spec_def)
next
  case False
  then show ?thesis using allocate_block_present [OF assms] by simp
qed

theorem testfs_allocate_block_correct_witness:
  "super_inv (empty_fs 10) \<and> map_wf {} (empty_fs 10) (din (new_inode 1)) \<and>
   (\<exists>p inn' sb'. testfs_allocate_block (empty_fs 10) (new_inode 1) (int 3000) = Ok (int p, zero_arr, inn', sb') \<and>
      grown (empty_fs 10) (new_inode 1) 3000 p sb' inn')"
proof -
  have wf: "map_wf {} (empty_fs 10) (din (new_inode 1))" by (simp add: new_inode_def map_wf_zero_dinode)
  have "bmap (dev (empty_fs 10)) (din (new_inode 1)) 3000 = 0"
    using slot_val_zero_dinode [of _ "S_data 3000"] by (simp add: new_inode_def del: slot_val_zero_dinode)
  moreover have "room (empty_fs 10) 3" using used_blocks_empty_fs [of 10] by (simp add: room_def del: card_used_blocks)
  ultimately show ?thesis
    using testfs_allocate_block_correct [OF super_inv_empty_fs wf, of 3000] super_inv_empty_fs [of 10] wf by simp
qed

end
