(* ===== verification/FS_FileData.thy ===== *)
theory FS_FileData
  imports FS_FileMap
begin

text \<open>
  The bytes of a file: the correctness of \<^verbatim>\<open>testfs_read_data\<close> and \<^verbatim>\<open>testfs_write_data\<close> as
  operations on a byte string, on top of the block map of \<open>FS_FileMap\<close>. A write changes the
  bytes it covers and nothing that belongs to another file; on an error it has written a prefix.
\<close>

section \<open>The bytes of a file\<close>

definition fbyte :: "device \<Rightarrow> dinode \<Rightarrow> nat \<Rightarrow> byte" where
  "fbyte d di i = block_data d di (i div BLOCK_SIZE) (i mod BLOCK_SIZE)"

definition max_bytes :: nat where [fs_consts]: "max_bytes = 4196362 * BLOCK_SIZE"

definition file_bytes :: "device \<Rightarrow> dinode \<Rightarrow> byte list" where
  "file_bytes d di = map (fbyte d di) [0..<nat (i_size di)]"

text \<open>
  A consistent file: its block map is, its size is within bounds, every block it owns is needed for its
  size, its last byte is not in a hole, and the bytes past its end are zeros.
\<close>

definition covered :: "device \<Rightarrow> dinode \<Rightarrow> int \<Rightarrow> bool" where
  "covered d di n \<longleftrightarrow> (\<forall>s \<in> live d di. int (slot_start s * BLOCK_SIZE) < n) \<and>
     (0 < n \<longrightarrow> S_data (nat (n - 1) div BLOCK_SIZE) \<in> live d di)"

definition file_ok :: "super_block \<Rightarrow> dinode \<Rightarrow> bool" where
  "file_ok sb di \<longleftrightarrow> map_wf {} sb di \<and> 0 \<le> i_size di \<and> i_size di \<le> int max_bytes \<and>
     covered (dev sb) di (i_size di) \<and> (\<forall>i < max_bytes. i_size di \<le> int i \<longrightarrow> fbyte (dev sb) di i = 0)"

lemma block_of_byte: "i < max_bytes \<longleftrightarrow> i div BLOCK_SIZE < 4196362"
  by (auto simp: fs_consts)

lemma fbyte_in_block: "i < BLOCK_SIZE \<Longrightarrow> fbyte d di (b * BLOCK_SIZE + i) = block_data d di b i"
  by (simp add: fbyte_def)

lemma map_block_fbyte:
  "ix + n \<le> BLOCK_SIZE \<Longrightarrow> map (block_data d di b) [ix..<ix + n] = map (fbyte d di) [b * BLOCK_SIZE + ix..<b * BLOCK_SIZE + ix + n]"
  by (rule nth_equalityI) (simp_all add: fbyte_in_block add.assoc)

section \<open>Reading\<close>

lemma read_data_loop_eq:
  assumes "super_inv sb" and "map_wf {} sb (din inn)"
  shows "b * BLOCK_SIZE + ix + sz \<le> max_bytes \<Longrightarrow> ix < BLOCK_SIZE \<Longrightarrow> length buf + sz \<le> cap \<Longrightarrow>
    read_data_loop sb inn cap sz (int b) ix buf =
      Ok (int_of_u32 (length buf + sz),
          buf @ map (fbyte (dev sb) (din inn)) [b * BLOCK_SIZE + ix..<b * BLOCK_SIZE + ix + sz])"
proof (induction sz arbitrary: b ix buf rule: less_induct)
  case (less sz)
  show ?case
  proof (cases "sz = 0")
    case True
    then show ?thesis by (simp add: read_data_loop.simps)
  next
    case False
    define n where "n = min (BLOCK_SIZE - ix) sz"
    have n: "0 < n" "n \<le> sz" "ix + n \<le> BLOCK_SIZE" "n < sz \<Longrightarrow> ix + n = BLOCK_SIZE"
      using False less.prems(2) by (auto simp: n_def)
    have b: "b < 4196362" using less.prems(1,2) False by (simp add: fs_consts)
    let ?buf = "buf @ map (block_data (dev sb) (din inn) b) [ix..<ix + n]"
    have nonneg: "\<not> bmap (dev sb) (din inn) b < 0" using bmap_nonneg [OF assms(2) b] by simp
    have ret: "read_data_loop sb inn cap sz (int b) ix buf = read_data_loop sb inn cap (sz - n) (int (Suc b)) 0 ?buf"
      using False less.prems(2,3) n nonneg
      by (subst read_data_loop.simps) (simp add: testfs_read_block_eq [OF assms b] n_def [symmetric] add.commute)
    show ?thesis
    proof (cases "n = sz")
      case True
      then show ?thesis
        using ret n(3) by (simp add: map_block_fbyte read_data_loop.simps [of _ _ _ 0])
    next
      case False
      with n have eq: "ix + n = BLOCK_SIZE" by simp
      then have next_b: "Suc b * BLOCK_SIZE = b * BLOCK_SIZE + ix + n" by simp
      let ?a = "b * BLOCK_SIZE + ix" and ?f = "fbyte (dev sb) (din inn)"
      have "Suc b * BLOCK_SIZE + 0 + (sz - n) \<le> max_bytes" "length ?buf + (sz - n) \<le> cap"
        using less.prems n(2) next_b by simp_all
      from less.IH [OF _ this(1) _ this(2)] n
      have "read_data_loop sb inn cap (sz - n) (int (Suc b)) 0 ?buf =
        Ok (int_of_u32 (length ?buf + (sz - n)), ?buf @ map ?f [Suc b * BLOCK_SIZE + 0..<Suc b * BLOCK_SIZE + 0 + (sz - n)])"
        by (simp add: BLOCK_SIZE_def)
      moreover have "[?a..<?a + n] @ [?a + n..<?a + n + (sz - n)] = [?a..<?a + sz]"
        using n(2) upt_add_eq_append [of ?a "?a + n" "sz - n"] by (simp add: add.assoc)
      moreover have "length ?buf + (sz - n) = length buf + sz" using n(2) by simp
      moreover note map_block_fbyte [OF n(3), of "dev sb" "din inn" b]
      ultimately show ?thesis unfolding ret next_b by (simp only: append_assoc map_append [symmetric] add_0_right)
    qed
  qed
qed

lemma s64_of_u64_small: "n < 2 ^ 63 \<Longrightarrow> s64_of_u64 n = int n"
  using sint_word_of_int_s64 [of "int n"] by (simp add: s64_of_u64_def is_s64_def)

lemma u64_of_s64_nonneg: "0 \<le> x \<Longrightarrow> x < 2 ^ 63 \<Longrightarrow> u64_of_s64 x = nat x"
  by (simp add: u64_of_s64_def)

lemma read_data_eq:
  assumes inv: "super_inv sb" and ok: "file_ok sb (din inn)" and start: "start \<le> length (file_bytes (dev sb) (din inn))"
    and cap: "sz \<le> cap" "sz < 2 ^ 31" and big: "start < max_bytes"
  shows "testfs_read_data sb inn cap (int start) sz =
    (let bytes = take sz (drop start (file_bytes (dev sb) (din inn))) in Ok (int (length bytes), bytes))"
proof -
  note F = ok [unfolded file_ok_def]
  define n where "n = min sz (nat (i_size (din inn)) - start)"
  have len: "start \<le> nat (i_size (din inn))" using start by (simp add: file_bytes_def)
  have n: "n < 2 ^ 31" "n \<le> cap" using cap by (auto simp: n_def)
  have size: "nat (i_size (din inn)) \<le> max_bytes" using F by (simp add: nat_le_iff)
  have small: "start + sz < 2 ^ 62" using big cap by (simp add: fs_consts)
  then have s64: "s64_of_u64 sz = int sz" by (intro s64_of_u64_small) simp
  have eff: "(if int start + int sz > i_size (din inn) then u64_of_s64 (i_size (din inn) - int start) else sz) = n"
    using len F by (auto simp: n_def u64_of_s64_nonneg fs_consts)
  have max: "\<not> MAX_FILE_SIZE \<le> int start" using big by (simp add: fs_consts)
  have pos: "start div BLOCK_SIZE * BLOCK_SIZE + start mod BLOCK_SIZE = start" by simp
  have div: "c_div (int start) (int BLOCK_SIZE) = int (start div BLOCK_SIZE)"
    "nat (c_mod (int start) (int BLOCK_SIZE)) = start mod BLOCK_SIZE"
    by (simp_all add: of_nat_div nat_mod_distrib BLOCK_SIZE_def)
  have "testfs_read_data sb inn cap (int start) sz =
      read_data_loop sb inn cap n (int (start div BLOCK_SIZE)) (start mod BLOCK_SIZE) []"
    unfolding testfs_read_data_def Let_def s64 eff div using small max by (simp add: s64_check_def is_s64_def)
  also have "\<dots> = Ok (int_of_u32 n, map (fbyte (dev sb) (din inn)) [start..<start + n])"
  proof -
    have "start + n \<le> max_bytes" using size len by (simp add: n_def)
    with read_data_loop_eq [OF inv, of inn "start div BLOCK_SIZE" "start mod BLOCK_SIZE" n "[]" cap] F n(2)
    show ?thesis unfolding pos by (simp add: BLOCK_SIZE_def)
  qed
  also have "map (fbyte (dev sb) (din inn)) [start..<start + n] = take sz (drop start (file_bytes (dev sb) (din inn)))"
    using len by (auto simp: file_bytes_def drop_map take_map n_def min_def)
  also have "int_of_u32 n = int (length (take sz (drop start (file_bytes (dev sb) (din inn)))))"
    using n by (simp add: int_of_u32_small file_bytes_def n_def min.commute)
  finally show ?thesis by simp
qed

section \<open>What a write leaves alone\<close>

text \<open>The blocks in use that are not the file's own: other files, directories.\<close>

definition foreign :: "super_block \<Rightarrow> dinode \<Rightarrow> nat set" where
  "foreign sb di = used_blocks sb - owned (dev sb) di"

definition keeps_foreign :: "super_block \<Rightarrow> dinode \<Rightarrow> super_block \<Rightarrow> dinode \<Rightarrow> bool" where
  "keeps_foreign sb di sb' di' \<longleftrightarrow> foreign sb' di' = foreign sb di \<and>
     fs_frame {q. DATA_START \<le> q \<and> q \<notin> foreign sb di} sb sb'"

lemma keeps_foreign_refl [simp]: "keeps_foreign sb di sb di"
  by (simp add: keeps_foreign_def)

lemma keeps_foreign_trans:
  "keeps_foreign sb di sb' di' \<Longrightarrow> keeps_foreign sb' di' sb'' di'' \<Longrightarrow> keeps_foreign sb di sb'' di''"
  using fs_frame_trans [of _ sb sb' _ sb''] by (fastforce simp: keeps_foreign_def)

lemma may_change_foreign: "may_change sb di \<subseteq> {q. DATA_START \<le> q \<and> q \<notin> foreign sb di}"
  using index_blocks_owned by (fastforce simp: may_change_def foreign_def)

definition same_id :: "inode \<Rightarrow> inode \<Rightarrow> bool" where
  "same_id inn inn' \<longleftrightarrow> i_nr inn' = i_nr inn \<and> i_count inn' = i_count inn \<and> i_type (din inn') = i_type (din inn)"

text \<open>One step of a file operation that keeps the inode's identity.\<close>

definition fstep :: "super_block \<Rightarrow> inode \<Rightarrow> super_block \<Rightarrow> inode \<Rightarrow> bool" where
  "fstep sb inn sb' inn' \<longleftrightarrow> super_inv sb' \<and> map_wf {} sb' (din inn') \<and> keeps_foreign sb (din inn) sb' (din inn') \<and>
     same_id inn inn' \<and> i_flags inn' \<in> {i_flags inn, i_flags inn OR I_FLAGS_DIRTY}"

lemma fstep_refl: "super_inv sb \<Longrightarrow> map_wf {} sb (din inn) \<Longrightarrow> fstep sb inn sb inn"
  by (simp add: fstep_def same_id_def)

lemma fstep_trans: "fstep sb inn sb' inn' \<Longrightarrow> fstep sb' inn' sb'' inn'' \<Longrightarrow> fstep sb inn sb'' inn''"
  by (auto simp: fstep_def same_id_def intro: keeps_foreign_trans)

lemma data_not_index:
  assumes wf: "map_wf X sb di" and k: "k < 4196362" and "bmap (dev sb) di k \<noteq> 0"
  shows "nat (bmap (dev sb) di k) \<notin> index_blocks (dev sb) di"
proof
  assume "nat (bmap (dev sb) di k) \<in> index_blocks (dev sb) di"
  then obtain s where s: "s \<in> live (dev sb) di" "s \<notin> range S_data" "nat (bmap (dev sb) di k) = nat (slot_val (dev sb) di s)"
    by (auto simp: index_blocks_def)
  with index_slot_distinct [OF wf, of "S_data k" s] assms show False by (auto simp: live_def)
qed

lemma block_data_frame:
  assumes inv: "super_inv sb" and wf: "map_wf X sb di" and k: "k < 4196362"
    and bm: "bmap (dev sb') di' k = bmap (dev sb) di k" and fr: "fs_frame A sb sb'"
    and A: "bmap (dev sb) di k \<noteq> 0 \<Longrightarrow> nat (bmap (dev sb) di k) \<notin> A"
  shows "block_data (dev sb') di' k = block_data (dev sb) di k"
proof (cases "bmap (dev sb) di k = 0")
  case False
  have used: "nat (bmap (dev sb) di k) \<in> used_blocks sb" using map_wf_slot(2) [OF wf, of "S_data k"] False k by simp
  have "18 \<le> nat (bmap (dev sb) di k)" using used_blocks_bound(1) [OF inv used] by (simp add: fs_consts)
  with fr A [OF False] have "dblk (dev sb') (nat (bmap (dev sb) di k)) = dblk (dev sb) (nat (bmap (dev sb) di k))"
    by (intro fs_frameD)
  with bm show ?thesis by (simp add: block_data_def)
qed (simp add: block_data_def bm)

lemma data_not_may_change:
  assumes "map_wf X sb di" and "k < 4196362" and "bmap (dev sb) di k \<noteq> 0"
  shows "nat (bmap (dev sb) di k) \<notin> may_change sb di"
  using data_not_index [OF assms] map_wf_slot(2) [OF assms(1), of "S_data k"] assms(2,3) by (simp add: may_change_def)

lemma fstep_unchanged:
  assumes "unchanged sb inn sb' inn'"
  shows "fstep sb inn sb' inn'"
    and "k < 4196362 \<Longrightarrow> super_inv sb \<Longrightarrow> map_wf {} sb (din inn) \<Longrightarrow> block_data (dev sb') (din inn') k = block_data (dev sb) (din inn) k"
    and "live (dev sb') (din inn') = live (dev sb) (din inn)"
proof -
  note U = assms [unfolded unchanged_def]
  have "owned (dev sb') (din inn') = owned (dev sb) (din inn)" using U by (intro owned_cong) simp
  then have "foreign sb' (din inn') = foreign sb (din inn)" using U by (simp add: foreign_def)
  then show "fstep sb inn sb' inn'"
    using U fs_frame_mono [OF _ may_change_foreign] by (auto simp: fstep_def keeps_foreign_def same_meta_def same_id_def)
  show "live (dev sb') (din inn') = live (dev sb) (din inn)" using U by (intro live_cong) simp
  assume k: "k < 4196362" and inv: "super_inv sb" and wf: "map_wf {} sb (din inn)"
  from U have "\<forall>s \<in> slots. slot_val (dev sb') (din inn) s = slot_val (dev sb) (din inn) s" by blast
  from bspec [OF this, of "S_data k"] k have bm: "bmap (dev sb') (din inn') k = bmap (dev sb) (din inn) k" using U by simp
  show "block_data (dev sb') (din inn') k = block_data (dev sb) (din inn) k"
    using U data_not_may_change [OF wf k] by (intro block_data_frame [OF inv wf k bm, of "may_change sb (din inn)"]) auto
qed

text \<open>One block is allocated where needed and written.\<close>

lemma slot_val_dev_write:
  assumes inv: "super_inv sb" and wf: "map_wf X sb di" and k: "k < 4196362" "bmap (dev sb) di k = int p" "0 < p"
    and s: "s \<in> slots"
  shows "slot_val (dev_write (dev sb) p (Suc 0) a) di s = slot_val (dev sb) di s"
proof -
  have "p \<notin> index_blocks (dev sb) di" using data_not_index [OF wf k(1)] k by simp
  with slot_val_frame [OF inv wf write_frame [of p sb a] _ s] show ?thesis by simp
qed

lemma write_data_block:
  fixes a :: arr
  assumes inv: "super_inv sb" and wf: "map_wf {S_data k} sb di" and k: "k < 4196362" "bmap (dev sb) di k = int p" "0 < p"
  defines "sb' \<equiv> sb\<lparr>dev := dev_write (dev sb) p (Suc 0) a\<rparr>"
  shows "super_inv sb'" "map_wf {} sb' di" "live (dev sb') di = live (dev sb) di" "owned (dev sb') di = owned (dev sb) di"
    "j < 4196362 \<Longrightarrow> block_data (dev sb') di j = (if j = k then trunc_arr a else block_data (dev sb) di j)"
proof -
  have used: "p \<in> used_blocks sb" using map_wf_slot(2) [OF wf, of "S_data k"] k by simp
  then have "18 \<le> p" using used_blocks_bound(1) [OF inv] by (fastforce simp: fs_consts)
  then show "super_inv sb'" unfolding sb'_def by (rule super_inv_data_write [OF inv])
  have val: "slot_val (dev sb') di s = slot_val (dev sb) di s" if "s \<in> slots" for s
    using slot_val_dev_write [OF inv wf k that] by (simp add: sb'_def)
  show "live (dev sb') di = live (dev sb) di" by (rule live_cong) (rule val)
  show "owned (dev sb') di = owned (dev sb) di" by (rule owned_cong) (rule val)
  have "used_blocks sb' = used_blocks sb" "dlen (dev sb) \<le> dlen (dev sb')" "length (i_block_nr di) = 10"
    using wf by (simp_all add: sb'_def map_wf_def)
  with owned_used [OF wf] have "map_wf {S_data k} sb' di"
    by (intro map_wf_cong [OF wf]) (auto simp: val)
  moreover have "nat (slot_val (dev sb') di (S_data k)) < dlen (dev sb')"
    using val [of "S_data k"] k by (simp add: sb'_def)
  ultimately show "map_wf {} sb' di" by (auto simp: map_wf_def)
  assume j: "j < 4196362"
  have bm: "bmap (dev sb') di j = bmap (dev sb) di j" using val [of "S_data j"] j by simp
  show "block_data (dev sb') di j = (if j = k then trunc_arr a else block_data (dev sb) di j)"
  proof (cases "j = k")
    case True
    with bm k have "block_data (dev sb') di j = dblk (dev sb') p" by (simp add: block_data_def)
    with True show ?thesis by (simp add: sb'_def dblk_dev_write_1)
  next
    case False
    have "nat (bmap (dev sb) di j) \<notin> {p}" if "bmap (dev sb) di j \<noteq> 0"
      using index_slot_distinct [OF wf, of "S_data j" "S_data k"] False that j k by simp
    with block_data_frame [OF inv wf j bm, of "{p}"] write_frame [of p sb a] False show ?thesis
      by (simp add: sb'_def)
  qed
qed

lemma data_owned: "k < 4196362 \<Longrightarrow> bmap d di k = int p \<Longrightarrow> 0 < p \<Longrightarrow> p \<in> owned d di"
  unfolding owned_def by (rule rev_image_eqI [of "S_data k"]) (simp_all add: live_def)

text \<open>New slots are at or below logical block \<open>l\<close>, which has a block now.\<close>

definition grows_to :: "nat \<Rightarrow> slot set \<Rightarrow> slot set \<Rightarrow> bool" where
  "grows_to l A B \<longleftrightarrow> A \<subseteq> B \<and> S_data l \<in> B \<and> (\<forall>s \<in> B - A. slot_start s \<le> l)"

lemma write_step_cases [consumes 3, case_names full written]:
  assumes inv: "super_inv sb" and wf: "map_wf {} sb (din inn)" and l: "l < 4196362"
  obtains (full) inn' sb' where "testfs_allocate_block sb inn (int l) = Ok (- ENOSPC, zero_arr, inn', sb')"
      "fstep sb inn sb' inn'" "i_size (din inn') = i_size (din inn)" "\<not> room sb' 3" "used_blocks sb' = used_blocks sb"
      "live (dev sb') (din inn') = live (dev sb) (din inn)"
      "\<forall>k < 4196362. block_data (dev sb') (din inn') k = block_data (dev sb) (din inn) k"
  | (written) p inn' sb' where
      "testfs_allocate_block sb inn (int l) = Ok (int p, block_data (dev sb) (din inn) l, inn', sb')"
      "i_size (din inn') = i_size (din inn)"
      "\<forall>a. let sb'' = sb'\<lparr>dev := dev_write (dev sb') p (Suc 0) a\<rparr> in fstep sb inn sb'' inn' \<and>
         grows_to l (live (dev sb) (din inn)) (live (dev sb'') (din inn')) \<and>
         (\<forall>k < 4196362. block_data (dev sb'') (din inn') k = (if k = l then trunc_arr a else block_data (dev sb) (din inn) k))"
proof (cases "bmap (dev sb) (din inn) l = 0")
  case False
  define p where "p = nat (bmap (dev sb) (din inn) l)"
  have p: "bmap (dev sb) (din inn) l = int p" "0 < p" using False bmap_nonneg [OF wf l] by (simp_all add: p_def)
  have wf': "map_wf {S_data l} sb (din inn)" using wf by (auto simp: map_wf_def)
  note W = write_data_block [OF inv wf' l p]
  have own: "p \<in> owned (dev sb) (din inn)" by (rule data_owned [OF l p])
  have "DATA_START \<le> p" using own owned_used [OF wf] used_blocks_bound(1) [OF inv] by blast
  have kf: "keeps_foreign sb (din inn) (sb\<lparr>dev := dev_write (dev sb) p (Suc 0) a\<rparr>) (din inn)" for a
    using own \<open>DATA_START \<le> p\<close> W(4) [of a] fs_frame_mono [OF write_frame [of p sb a]] by (simp add: keeps_foreign_def foreign_def)
  show thesis
  proof (rule written)
    show "testfs_allocate_block sb inn (int l) = Ok (int p, block_data (dev sb) (din inn) l, inn, sb)"
      using allocate_block_present [OF inv wf l False] p by simp
    show "\<forall>a. let sb'' = sb\<lparr>dev := dev_write (dev sb) p (Suc 0) a\<rparr> in fstep sb inn sb'' inn \<and>
         grows_to l (live (dev sb) (din inn)) (live (dev sb'') (din inn)) \<and>
         (\<forall>k < 4196362. block_data (dev sb'') (din inn) k = (if k = l then trunc_arr a else block_data (dev sb) (din inn) k))"
      using W kf False l by (simp add: Let_def fstep_def same_id_def grows_to_def) (simp add: live_def)
  qed simp
next
  case True
  from allocate_block_spec [OF inv wf l True] consider
    (grown) p inn' sb' where "testfs_allocate_block sb inn (int l) = Ok (int p, zero_arr, inn', sb')" "grown sb inn l p sb' inn'"
  | (no) inn' sb' where "\<not> room sb 3" "testfs_allocate_block sb inn (int l) = Ok (- ENOSPC, zero_arr, inn', sb')" "unchanged sb inn sb' inn'"
    by (auto simp: alloc_spec_def)
  then show thesis
  proof cases
    case no
    have "\<not> room sb' 3" using no(1,3) by (simp add: room_def unchanged_def fs_frame_def del: card_used_blocks)
    with no fstep_unchanged [OF no(3)] inv wf show thesis
      by (intro full [OF no(2)]) (auto simp: unchanged_def same_meta_def)
  next
    case grown
    note G = grown(2) [unfolded grown_def]
    have bm: "bmap (dev sb') (din inn') k = (if k = l then int p else bmap (dev sb) (din inn) k)" if "k < 4196362" for k
      using G that by auto
    have inv': "super_inv sb'" and wf': "map_wf {S_data l} sb' (din inn')" using G by auto
    have p: "bmap (dev sb') (din inn') l = int p" "0 < p" using bm [OF l] G by simp_all
    note W = write_data_block [OF inv' wf' l p]
    have own: "p \<in> owned (dev sb') (din inn')" by (rule data_owned [OF l p])
    have "DATA_START \<le> p" using own owned_used [OF wf'] used_blocks_bound(1) [OF inv'] by blast
    have old: "block_data (dev sb') (din inn') k = block_data (dev sb) (din inn) k" if "k < 4196362" "k \<noteq> l" for k
      using G that(2) data_not_may_change [OF wf that(1)] bm [OF that(1)]
      by (intro block_data_frame [OF inv wf that(1), of _ _ "may_change sb (din inn)"]) auto
    have for_eq: "foreign sb' (din inn') = foreign sb (din inn)" using G owned_used [OF wf] by (auto simp: foreign_def)
    have grows: "grows_to l (live (dev sb) (din inn)) (live (dev sb') (din inn'))"
      using G l p by (simp add: grows_to_def) (simp add: live_def)
    have kf: "keeps_foreign sb (din inn) (sb'\<lparr>dev := dev_write (dev sb') p (Suc 0) a\<rparr>) (din inn')" for a
    proof -
      have "fs_frame (may_change sb (din inn) \<union> {p}) sb (sb'\<lparr>dev := dev_write (dev sb') p (Suc 0) a\<rparr>)"
        using G by (intro fs_frame_trans [OF _ write_frame]) auto
      then have "fs_frame {q. DATA_START \<le> q \<and> q \<notin> foreign sb (din inn)} sb (sb'\<lparr>dev := dev_write (dev sb') p (Suc 0) a\<rparr>)"
        using may_change_foreign own \<open>DATA_START \<le> p\<close> for_eq by (rule_tac fs_frame_mono) (auto simp: foreign_def)
      with for_eq W(4) [of a] show ?thesis by (simp add: keeps_foreign_def foreign_def)
    qed
    show thesis
    proof (rule written)
      show "testfs_allocate_block sb inn (int l) = Ok (int p, block_data (dev sb) (din inn) l, inn', sb')"
        using grown(1) True by (simp add: block_data_def)
      show "\<forall>a. let sb'' = sb'\<lparr>dev := dev_write (dev sb') p (Suc 0) a\<rparr> in fstep sb inn sb'' inn' \<and>
         grows_to l (live (dev sb) (din inn)) (live (dev sb'') (din inn')) \<and>
         (\<forall>k < 4196362. block_data (dev sb'') (din inn') k = (if k = l then trunc_arr a else block_data (dev sb) (din inn) k))"
        using W kf G old grows by (simp add: Let_def fstep_def same_id_def same_meta_def)
    qed (use G in \<open>simp add: same_meta_def\<close>)
  qed
qed

section \<open>The size of an inode and its block map\<close>

lemma bmap_i_size [simp]: "bmap d (di\<lparr>i_size := n\<rparr>) l = bmap d di l"
  by (simp add: bmap_def)

lemma slot_val_i_size [simp]: "slot_val d (di\<lparr>i_size := n\<rparr>) s = slot_val d di s"
  by (cases s) simp_all

lemma size_update_simps [simp]:
  "live d (di\<lparr>i_size := n\<rparr>) = live d di" "owned d (di\<lparr>i_size := n\<rparr>) = owned d di"
  "fbyte d (di\<lparr>i_size := n\<rparr>) = fbyte d di" "foreign sb (di\<lparr>i_size := n\<rparr>) = foreign sb di"
  by (auto simp: live_def owned_def fbyte_def block_data_def fun_eq_iff foreign_def)

lemma slot_val_i_size_fun: "slot_val d (di\<lparr>i_size := n\<rparr>) = slot_val d di"
  by (rule ext) simp

lemma map_wf_i_size [simp]: "map_wf X sb (di\<lparr>i_size := n\<rparr>) = map_wf X sb di"
  by (simp add: map_wf_def slot_val_i_size_fun)

lemma covered_i_size [simp]: "covered d (di\<lparr>i_size := n\<rparr>) m = covered d di m"
  by (simp add: covered_def)

lemma keeps_foreign_i_size [simp]:
  "keeps_foreign sb di sb' (di'\<lparr>i_size := n\<rparr>) = keeps_foreign sb di sb' di'"
  by (simp add: keeps_foreign_def)

section \<open>Writing\<close>

definition cur_size :: "inode \<Rightarrow> int \<Rightarrow> nat \<Rightarrow> int" where
  "cur_size inn start pos = (if pos > 0 then max (i_size (din inn)) (start + int pos) else i_size (din inn))"

definition verdict :: "nat \<Rightarrow> nat \<Rightarrow> nat \<Rightarrow> nat \<Rightarrow> int \<Rightarrow> inode \<Rightarrow> inode \<Rightarrow> super_block \<Rightarrow> bool" where
  "verdict start pos sz m ret inn inn' sb' \<longleftrightarrow>
     m = sz \<and> ret = int (pos + sz) \<and> i_flags inn' = i_flags inn OR I_FLAGS_DIRTY \<or>
     m < sz \<and> ret = - ENOSPC \<and> \<not> room sb' 3 \<or>
     m < sz \<and> ret = - EFBIG \<and> start + pos + m = max_bytes"

definition spliced :: "(nat \<Rightarrow> byte) \<Rightarrow> nat \<Rightarrow> nat \<Rightarrow> byte list \<Rightarrow> nat \<Rightarrow> nat \<Rightarrow> byte" where
  "spliced f a n buf pos i = (if a \<le> i \<and> i < a + n then buf ! (pos + (i - a)) else f i)"

lemma spliced_append:
  "spliced (spliced f a n buf pos) (a + n) m buf (pos + n) i = spliced f a (n + m) buf pos i"
  by (auto simp: spliced_def)

lemma fbyte_memcpy:
  assumes "ix + n \<le> BLOCK_SIZE" and "\<forall>k < 4196362. block_data d' di' k =
      (if k = b then trunc_arr (memcpy_block (block_data d di b) ix buf pos n) else block_data d di k)"
    and "i < max_bytes"
  shows "fbyte d' di' i = spliced (fbyte d di) (b * BLOCK_SIZE + ix) n buf pos i"
proof (cases "i div BLOCK_SIZE = b")
  case True
  define r where "r = i mod BLOCK_SIZE"
  have i: "i = b * BLOCK_SIZE + r" "r < BLOCK_SIZE" using True by (auto simp: r_def BLOCK_SIZE_def)
  have "b < 4196362" using True assms(3) block_of_byte by simp
  then have "fbyte d' di' i = trunc_arr (memcpy_block (block_data d di b) ix buf pos n) r"
    using assms(2) i by (simp add: fbyte_in_block)
  with i assms(1) show ?thesis by (simp add: spliced_def trunc_arr_def memcpy_block_def fbyte_in_block)
next
  case False
  have "\<not> (b * BLOCK_SIZE + ix \<le> i \<and> i < b * BLOCK_SIZE + ix + n)"
  proof
    assume "b * BLOCK_SIZE + ix \<le> i \<and> i < b * BLOCK_SIZE + ix + n"
    then have "b * BLOCK_SIZE \<le> i" "i < Suc b * BLOCK_SIZE" using assms(1) by auto
    then have "i div BLOCK_SIZE = b" by (auto simp: BLOCK_SIZE_def)
    with False show False ..
  qed
  moreover have "i div BLOCK_SIZE < 4196362" using assms(3) block_of_byte by simp
  ultimately show ?thesis using assms(2) False by (auto simp: spliced_def fbyte_def)
qed

lemma covered_grow:
  assumes cov: "covered d di m" and g: "grows_to b (live d di) (live d' di')"
    and n: "int (b * BLOCK_SIZE) < n" "n \<le> int (Suc b * BLOCK_SIZE)"
  shows "covered d' di' (max m n)"
proof -
  have "int (slot_start s * BLOCK_SIZE) < max m n" if s: "s \<in> live d' di'" for s
  proof (cases "s \<in> live d di")
    case True
    with cov show ?thesis by (auto simp: covered_def less_max_iff_disj)
  next
    case False
    with s g have "slot_start s * BLOCK_SIZE \<le> b * BLOCK_SIZE" by (simp add: grows_to_def)
    with n(1) show ?thesis by linarith
  qed
  moreover have "S_data (nat (max m n - 1) div BLOCK_SIZE) \<in> live d' di'"
  proof (cases "n \<le> m")
    case True
    have "0 \<le> int (b * BLOCK_SIZE)" by simp
    with True n(1) have "0 < m" by linarith
    with True cov g show ?thesis by (auto simp: covered_def grows_to_def max_def)
  next
    case False
    have "b * BLOCK_SIZE \<le> nat (n - 1)" "nat (n - 1) < Suc b * BLOCK_SIZE" using n by linarith+
    then have "nat (n - 1) div BLOCK_SIZE = b" by (auto simp: BLOCK_SIZE_def)
    with False g show ?thesis by (simp add: grows_to_def max_def)
  qed
  ultimately show ?thesis by (simp add: covered_def)
qed

definition set_size :: "inode \<Rightarrow> int \<Rightarrow> inode" where
  "set_size inn n = inn\<lparr>din := (din inn)\<lparr>i_size := n\<rparr>\<rparr>"

lemma set_size_simps [simp]:
  "din (set_size inn n) = (din inn)\<lparr>i_size := n\<rparr>" "i_flags (set_size inn n) = i_flags inn"
  "i_nr (set_size inn n) = i_nr inn" "i_count (set_size inn n) = i_count inn"
  by (simp_all add: set_size_def)

lemma fstep_set_size: "fstep sb inn sb' inn' \<Longrightarrow> fstep sb inn sb' (set_size inn' n)"
  by (simp add: fstep_def same_id_def)

lemma fstep_set_dirty: "fstep sb inn sb' inn' \<Longrightarrow> fstep sb inn sb' (set_dirty inn')"
  by (auto simp: fstep_def same_id_def set_dirty_def)

lemma spliced_0 [simp]: "spliced f a 0 buf pos i = f i"
  by (auto simp: spliced_def)

text \<open>The state after the loop, \<open>m\<close> more bytes written.\<close>

definition wrote :: "super_block \<Rightarrow> inode \<Rightarrow> byte list \<Rightarrow> nat \<Rightarrow> nat \<Rightarrow> nat \<Rightarrow> super_block \<Rightarrow> inode \<Rightarrow> bool" where
  "wrote sb inn buf start pos m sb' inn' \<longleftrightarrow> fstep sb inn sb' inn' \<and> i_size (din inn') = cur_size inn (int start) (pos + m) \<and>
     covered (dev sb') (din inn') (i_size (din inn')) \<and> start + pos + m \<le> max_bytes \<and>
     (\<forall>i < max_bytes. fbyte (dev sb') (din inn') i = spliced (fbyte (dev sb) (din inn)) (start + pos) m buf pos i)"

lemma wrote_trans:
  assumes w: "wrote sb1 inn1 buf start (pos + n) m sb' inn'" and st: "fstep sb inn sb1 inn1" and "i_size (din inn1) = i_size (din inn)"
    and fb: "\<And>i. i < max_bytes \<Longrightarrow> fbyte (dev sb1) (din inn1) i = spliced (fbyte (dev sb) (din inn)) (start + pos) n buf pos i"
  shows "wrote sb inn buf start pos (n + m) sb' inn'"
proof -
  note W = w [unfolded wrote_def]
  have "fbyte (dev sb') (din inn') i = spliced (fbyte (dev sb) (din inn)) (start + pos) (n + m) buf pos i" if "i < max_bytes" for i
  proof -
    have "fbyte (dev sb') (din inn') i = spliced (fbyte (dev sb1) (din inn1)) (start + pos + n) m buf (pos + n) i"
      using W that by (simp add: add.assoc)
    also have "\<dots> = spliced (spliced (fbyte (dev sb) (din inn)) (start + pos) n buf pos) (start + pos + n) m buf (pos + n) i"
      using fb [OF that] by (simp add: spliced_def)
    finally show ?thesis by (simp add: spliced_append)
  qed
  moreover have "cur_size inn1 (int start) (pos + n + m) = cur_size inn (int start) (pos + (n + m))"
    using assms(3) by (simp add: cur_size_def add.assoc)
  ultimately show ?thesis using W fstep_trans [OF st] unfolding wrote_def by (auto simp: add.assoc)
qed

lemma write_data_loop_spec:
  "\<lbrakk>super_inv sb; map_wf {} sb (din inn); ix < BLOCK_SIZE; pos + sz \<le> length buf; start + pos = b * BLOCK_SIZE + ix;
    start + pos \<le> max_bytes; pos + sz < 2 ^ 31; covered (dev sb) (din inn) (cur_size inn (int start) pos)\<rbrakk> \<Longrightarrow>
   \<exists>m ret inn' sb'. write_data_loop sb inn buf (int start) sz (int b) ix pos = Ok (ret, inn', sb') \<and>
     m \<le> sz \<and> wrote sb inn buf start pos m sb' inn' \<and> verdict start pos sz m ret inn inn' sb'"
proof (induction sz arbitrary: sb inn b ix pos rule: less_induct)
  case (less sz)
  note prems = less.prems
  have size: "(if pos > 0 then inn\<lparr>din := (din inn)\<lparr>i_size := max (i_size (din inn)) (int start + int pos)\<rparr>\<rparr> else inn) =
      set_size inn (cur_size inn (int start) pos)" for inn
    by (simp add: cur_size_def set_size_def)
  have stop: "wrote sb inn buf start pos 0 sb' (set_size inn' (cur_size inn' (int start) pos))"
    if "fstep sb inn sb' inn'" "i_size (din inn') = i_size (din inn)" "live (dev sb') (din inn') = live (dev sb) (din inn)"
      "\<forall>k < 4196362. block_data (dev sb') (din inn') k = block_data (dev sb) (din inn) k" for sb' inn'
  proof -
    have "fbyte (dev sb') (din inn') i = fbyte (dev sb) (din inn) i" if "i < max_bytes" for i
      using that \<open>\<forall>k < 4196362. _\<close> block_of_byte by (simp add: fbyte_def)
    moreover have "cur_size inn' (int start) pos = cur_size inn (int start) pos" using that(2) by (simp add: cur_size_def)
    moreover have "covered (dev sb') (din inn') (cur_size inn (int start) pos)" using prems(8) that(3) by (simp add: covered_def)
    ultimately show ?thesis using fstep_set_size [OF that(1)] prems(6) by (simp add: wrote_def)
  qed
  show ?case
  proof (cases "sz = 0")
    case True
    let ?inn = "set_size inn (cur_size inn (int start) pos)"
    have "write_data_loop sb inn buf (int start) sz (int b) ix pos = Ok (int_of_u32 pos, set_dirty ?inn, sb)"
      using True size by (simp add: write_data_loop.simps)
    moreover have "wrote sb inn buf start pos 0 sb (set_dirty ?inn)"
    proof -
      have "wrote sb inn buf start pos 0 sb ?inn" by (rule stop) (simp_all add: fstep_refl prems)
      then show ?thesis by (simp add: wrote_def fstep_set_dirty) (simp add: set_dirty_def)
    qed
    moreover have "verdict start pos sz 0 (int_of_u32 pos) inn (set_dirty ?inn) sb"
      using True prems(7) by (simp add: verdict_def int_of_u32_small set_dirty_def)
    ultimately show ?thesis using True by blast
  next
    case False
    show ?thesis
    proof (cases "b < 4196362")
      case big: False
      then have "MAX_BLOCK_NR \<le> int b" by (simp add: fs_consts)
      then have ret: "write_data_loop sb inn buf (int start) sz (int b) ix pos =
          Ok (- EFBIG, set_size inn (cur_size inn (int start) pos), sb)"
        using False size [of inn] by (subst write_data_loop.simps) (simp add: testfs_allocate_block_def EFBIG_def)
      have "4196362 * BLOCK_SIZE \<le> b * BLOCK_SIZE" using big by (intro mult_le_mono1) simp
      with prems(5,6) have "start + pos = max_bytes" unfolding max_bytes_def by linarith
      then have "verdict start pos sz 0 (- EFBIG) inn (set_size inn (cur_size inn (int start) pos)) sb"
        using False by (simp add: verdict_def)
      moreover have "wrote sb inn buf start pos 0 sb (set_size inn (cur_size inn (int start) pos))"
        by (rule stop) (simp_all add: fstep_refl prems)
      ultimately show ?thesis using ret by blast
    next
      case b: True
      from prems(1,2) b show ?thesis
      proof (cases rule: write_step_cases)
        case (full inn' sb')
        have ret: "write_data_loop sb inn buf (int start) sz (int b) ix pos =
          Ok (- ENOSPC, set_size inn' (cur_size inn' (int start) pos), sb')"
          using False full(1) size [of inn'] by (subst write_data_loop.simps) (simp add: ENOSPC_def)
        have "verdict start pos sz 0 (- ENOSPC) inn (set_size inn' (cur_size inn' (int start) pos)) sb'"
          using False full(4) by (simp add: verdict_def)
        with ret stop [OF full(2,3,6,7)] show ?thesis by blast
      next
        case (written p inn1 sb0)
        define n where "n = min (BLOCK_SIZE - ix) sz"
        have n: "0 < n" "n \<le> sz" "ix + n \<le> BLOCK_SIZE" "n < sz \<Longrightarrow> ix + n = BLOCK_SIZE"
          using False prems(3) by (auto simp: n_def)
        define sb1 where "sb1 = sb0\<lparr>dev := dev_write (dev sb0) p (Suc 0) (memcpy_block (block_data (dev sb) (din inn) b) ix buf pos n)\<rparr>"
        have st: "fstep sb inn sb1 inn1" "grows_to b (live (dev sb) (din inn)) (live (dev sb1) (din inn1))"
          and bd: "\<forall>k < 4196362. block_data (dev sb1) (din inn1) k =
            (if k = b then trunc_arr (memcpy_block (block_data (dev sb) (din inn) b) ix buf pos n) else block_data (dev sb) (din inn) k)"
          using written(3) by (auto simp: Let_def sb1_def)
        have ret: "write_data_loop sb inn buf (int start) sz (int b) ix pos =
            write_data_loop sb1 inn1 buf (int start) (sz - n) (int (Suc b)) 0 (pos + n)"
          using False written(1) prems(3,4) n(2) write_blocks_1 [of "int p" sb0]
          by (subst write_data_loop.simps) (simp add: n_def [symmetric] sb1_def add.commute)
        have fb: "fbyte (dev sb1) (din inn1) i = spliced (fbyte (dev sb) (din inn)) (start + pos) n buf pos i" if "i < max_bytes" for i
          using fbyte_memcpy [OF n(3) bd that] prems(5) by simp
        have cov: "covered (dev sb1) (din inn1) (cur_size inn1 (int start) (pos + n))"
        proof -
          have "int (b * BLOCK_SIZE) < int (start + pos + n)" "int (start + pos + n) \<le> int (Suc b * BLOCK_SIZE)"
            using n(1,3) prems(5) by (simp_all only: of_nat_less_iff of_nat_le_iff mult_Suc)
          from covered_grow [OF prems(8) st(2) this]
          have "covered (dev sb1) (din inn1) (max (cur_size inn (int start) pos) (int (start + pos + n)))" .
          moreover have "max (cur_size inn (int start) pos) (int (start + pos + n)) = cur_size inn1 (int start) (pos + n)"
            using n(1) written(2) by (auto simp: cur_size_def max_def)
          ultimately show ?thesis by simp
        qed
        have end_le: "start + (pos + n) \<le> max_bytes"
        proof -
          have "Suc b * BLOCK_SIZE \<le> 4196362 * BLOCK_SIZE" using b by (intro mult_le_mono1) simp
          then show ?thesis using prems(5) n(3) unfolding max_bytes_def by (simp only: mult_Suc)
        qed
        have inv1: "super_inv sb1" "map_wf {} sb1 (din inn1)" using st(1) by (simp_all add: fstep_def)
        have flags: "i_flags inn1 OR I_FLAGS_DIRTY = i_flags inn OR I_FLAGS_DIRTY" using st(1) by (auto simp: fstep_def)
        have "\<exists>m ret inn' sb'. write_data_loop sb1 inn1 buf (int start) (sz - n) (int (Suc b)) 0 (pos + n) = Ok (ret, inn', sb') \<and>
          m \<le> sz - n \<and> wrote sb1 inn1 buf start (pos + n) m sb' inn' \<and> verdict start (pos + n) (sz - n) m ret inn1 inn' sb'"
        proof (cases "n = sz")
          case True
          let ?inn = "set_size inn1 (cur_size inn1 (int start) (pos + n))"
          have "write_data_loop sb1 inn1 buf (int start) (sz - n) (int (Suc b)) 0 (pos + n) = Ok (int_of_u32 (pos + n), set_dirty ?inn, sb1)"
            using True n(1) by (simp add: write_data_loop.simps [of _ _ _ _ 0] cur_size_def set_size_def)
          moreover have "wrote sb1 inn1 buf start (pos + n) 0 sb1 (set_dirty ?inn)"
            using fstep_set_dirty [OF fstep_set_size [OF fstep_refl [OF inv1]]] cov end_le
            by (simp add: wrote_def set_dirty_def)
          moreover have "verdict start (pos + n) (sz - n) 0 (int_of_u32 (pos + n)) inn1 (set_dirty ?inn) sb1"
            using True prems(7) by (simp add: verdict_def int_of_u32_small set_dirty_def)
          ultimately show ?thesis using True by blast
        next
          case False
          then have "n < sz" "ix + n = BLOCK_SIZE" using n by simp_all
          then show ?thesis using prems(4,5,7) n cov end_le inv1
            by (intro less.IH) (simp_all add: BLOCK_SIZE_def)
        qed
        then obtain m r inn' sb' where
          loop: "write_data_loop sb1 inn1 buf (int start) (sz - n) (int (Suc b)) 0 (pos + n) = Ok (r, inn', sb')"
          "m \<le> sz - n" "wrote sb1 inn1 buf start (pos + n) m sb' inn'" "verdict start (pos + n) (sz - n) m r inn1 inn' sb'" by blast
        have "wrote sb inn buf start pos (n + m) sb' inn'" by (rule wrote_trans [OF loop(3) st(1) written(2) fb])
        moreover have "verdict start pos sz (n + m) r inn inn' sb'"
          using loop(2,4) n(2) flags by (auto simp: verdict_def)
        ultimately show ?thesis using ret loop(1,2) n(2) by (intro exI [of _ "n + m"]) auto
      qed
    qed
  qed
qed

lemma write_data_eq:
  assumes inv: "super_inv sb" and ok: "file_ok sb (din inn)" and buf: "sz \<le> length buf" "sz < 2 ^ 31" and start: "start < max_bytes"
  shows "\<exists>m ret inn' sb'. testfs_write_data sb inn buf (int start) sz = Ok (ret, inn', sb') \<and>
     m \<le> sz \<and> wrote sb inn buf start 0 m sb' inn' \<and> verdict start 0 sz m ret inn inn' sb'"
proof -
  note F = ok [unfolded file_ok_def]
  have max: "\<not> MAX_FILE_SIZE \<le> int start" using start by (simp add: fs_consts)
  have div: "c_div (int start) (int BLOCK_SIZE) = int (start div BLOCK_SIZE)"
    "nat (c_mod (int start) (int BLOCK_SIZE)) = start mod BLOCK_SIZE"
    by (simp_all add: of_nat_div nat_mod_distrib BLOCK_SIZE_def)
  have "testfs_write_data sb inn buf (int start) sz =
      write_data_loop sb inn buf (int start) sz (int (start div BLOCK_SIZE)) (start mod BLOCK_SIZE) 0"
    unfolding testfs_write_data_def Let_def div using max by simp
  with write_data_loop_spec [OF inv, of inn "start mod BLOCK_SIZE" 0 sz buf start "start div BLOCK_SIZE"] F buf start
  show ?thesis by (simp add: cur_size_def BLOCK_SIZE_def)
qed

section \<open>Writes as list operations\<close>

text \<open>Overwriting part of a byte string, extending it with zeros where it is too short.\<close>

definition splice :: "byte list \<Rightarrow> nat \<Rightarrow> byte list \<Rightarrow> byte list" where
  "splice xs start ys =
     (if ys = [] then xs
      else take start (xs @ replicate (start - length xs) 0) @ ys @ drop (start + length ys) xs)"

lemma length_splice: "length (splice xs start ys) = (if ys = [] then length xs else max (length xs) (start + length ys))"
  by (auto simp: splice_def max_def)

lemma nth_splice:
  assumes "i < length (splice xs start ys)"
  shows "splice xs start ys ! i =
    (if start \<le> i \<and> i < start + length ys then ys ! (i - start) else if i < length xs then xs ! i else 0)"
proof (cases "ys = []")
  case True
  with assms show ?thesis by (auto simp: splice_def)
next
  case False
  let ?pre = "take start (xs @ replicate (start - length xs) 0)"
  have len: "length ?pre = start" by simp
  consider "i < start" | "start \<le> i" "i < start + length ys" | "start + length ys \<le> i" by linarith
  then show ?thesis
  proof cases
    case 1
    with False len show ?thesis by (auto simp: splice_def nth_append)
  next
    case 2
    with False len show ?thesis by (auto simp: splice_def nth_append)
  next
    case 3
    with assms False have "i < length xs" by (auto simp: length_splice split: if_splits)
    with 3 False len show ?thesis by (auto simp: splice_def nth_append)
  qed
qed

lemma wrote_file:
  assumes inv: "super_inv sb" and ok: "file_ok sb (din inn)" and w: "wrote sb inn buf start 0 m sb' inn'" and m: "m \<le> length buf"
  shows "super_inv sb'" "file_ok sb' (din inn')" "keeps_foreign sb (din inn) sb' (din inn')" "same_id inn inn'"
    "file_bytes (dev sb') (din inn') = splice (file_bytes (dev sb) (din inn)) start (take m buf)"
proof -
  note F = ok [unfolded file_ok_def] and W = w [unfolded wrote_def]
  show "super_inv sb'" "keeps_foreign sb (din inn) sb' (din inn')" "same_id inn inn'" using W by (simp_all add: fstep_def)
  have fb: "fbyte (dev sb') (din inn') i = (if start \<le> i \<and> i < start + m then buf ! (i - start) else fbyte (dev sb) (din inn) i)"
    if "i < max_bytes" for i using W that by (simp add: spliced_def)
  have size: "i_size (din inn') = (if m > 0 then max (i_size (din inn)) (int start + int m) else i_size (din inn))"
    using W by (simp add: cur_size_def)
  have le: "start + m \<le> max_bytes" using W by simp
  have "fbyte (dev sb') (din inn') i = 0" if "i < max_bytes" "i_size (din inn') \<le> int i" for i
    using fb [OF that(1)] that F size by (auto split: if_splits)
  then show "file_ok sb' (din inn')" using W F le size by (auto simp: file_ok_def fstep_def split: if_splits)
  have len: "length (file_bytes (dev sb') (din inn')) = length (splice (file_bytes (dev sb) (din inn)) start (take m buf))"
    using size m F by (auto simp: file_bytes_def length_splice max_def)
  have bound: "nat (i_size (din inn')) \<le> max_bytes" using \<open>file_ok sb' (din inn')\<close> by (simp add: file_ok_def nat_le_iff)
  show "file_bytes (dev sb') (din inn') = splice (file_bytes (dev sb) (din inn)) start (take m buf)"
  proof (rule nth_equalityI [OF len])
    fix i assume i: "i < length (file_bytes (dev sb') (din inn'))"
    then have i': "i < max_bytes" "i < nat (i_size (din inn'))" using bound by (simp_all add: file_bytes_def)
    have "file_bytes (dev sb') (din inn') ! i = fbyte (dev sb') (din inn') i" using i by (simp add: file_bytes_def)
    also have "\<dots> = splice (file_bytes (dev sb) (din inn)) start (take m buf) ! i"
      using fb [OF i'(1)] F i' m by (subst nth_splice) (use i len in \<open>auto simp: file_bytes_def min_def\<close>)
    finally show "file_bytes (dev sb') (din inn') ! i = splice (file_bytes (dev sb) (din inn)) start (take m buf) ! i" .
  qed
qed

section \<open>An empty file\<close>

lemma fbyte_zero_dinode: "fbyte d zero_dinode i = 0"
  using slot_val_zero_dinode [of d "S_data (i div BLOCK_SIZE)"] by (simp add: fbyte_def block_data_def zero_arr_def del: slot_val_zero_dinode)

lemma file_ok_zero_dinode: "file_ok sb zero_dinode"
  by (simp add: file_ok_def map_wf_zero_dinode covered_def fbyte_zero_dinode) (simp add: zero_dinode_def)

lemma file_bytes_zero_dinode [simp]: "file_bytes d zero_dinode = []"
  by (simp add: file_bytes_def zero_dinode_def)

section \<open>A write that runs out of space\<close>

lemma allocate_direct_full:
  assumes inv: "super_inv sb" and wf: "map_wf {} sb (din inn)" and l: "l < 10" "bmap (dev sb) (din inn) l = 0" and full: "\<not> can_alloc sb"
  shows "testfs_allocate_block sb inn (int l) = Ok (- ENOSPC, zero_arr, inn, sb)"
proof -
  have "testfs_read_block sb inn (int l) = Ok (0, zero_arr)"
    using testfs_read_block_eq [OF inv wf, of l] l by (simp add: block_data_def)
  moreover have "testfs_alloc_block sb = Ok (- ENOSPC, sb)" using inv full by (cases rule: testfs_alloc_block_cases) auto
  ultimately show ?thesis
    using l by (simp add: testfs_allocate_block_def testfs_alloc_block_for_inode_def fs_consts ENOSPC_def bmap_def)
qed

lemma write_past_full:
  assumes inv: "super_inv sb" and ok: "file_ok sb (din inn)" and full: "\<not> can_alloc sb"
    and b: "bmap (dev sb) (din inn) 0 \<noteq> 0" "bmap (dev sb) (din inn) 1 = 0"
    and sz: "BLOCK_SIZE < sz" "sz \<le> length buf"
  shows "\<exists>sb'. testfs_write_data sb inn buf 0 sz =
     Ok (- ENOSPC, set_size inn (max (i_size (din inn)) (int BLOCK_SIZE)), sb')"
proof -
  have wf: "map_wf {} sb (din inn)" using ok by (simp add: file_ok_def)
  define p where "p = nat (bmap (dev sb) (din inn) 0)"
  have p: "bmap (dev sb) (din inn) 0 = int p" "0 < p" using b(1) bmap_nonneg [OF wf, of 0] by (simp_all add: p_def)
  define sb1 where "sb1 = sb\<lparr>dev := dev_write (dev sb) p (Suc 0) (memcpy_block (block_data (dev sb) (din inn) 0) 0 buf 0 BLOCK_SIZE)\<rparr>"
  have wf': "map_wf {S_data 0} sb (din inn)" using wf by (auto simp: map_wf_def)
  note W = write_data_block [OF inv wf' _ p, where a = "memcpy_block (block_data (dev sb) (din inn) 0) 0 buf 0 BLOCK_SIZE"]
  have inv1: "super_inv sb1" "map_wf {} sb1 (din inn)" using W(1,2) by (simp_all add: sb1_def)
  have "bmap (dev sb1) (din inn) 1 = 0"
    using slot_val_dev_write [OF inv wf _ p, of "S_data 1"] b(2) by (simp add: sb1_def)
  moreover have "\<not> can_alloc sb1" using full by (simp add: can_alloc_def sb1_def del: card_used_blocks)
  ultimately have fail: "testfs_allocate_block sb1 inn 1 = Ok (- ENOSPC, zero_arr, inn, sb1)"
    using allocate_direct_full [OF inv1, of 1] by simp
  have first: "testfs_allocate_block sb inn 0 = Ok (int p, block_data (dev sb) (din inn) 0, inn, sb)"
    using allocate_block_present [OF inv wf, of 0] b(1) p by simp
  have "testfs_write_data sb inn buf 0 sz = write_data_loop sb inn buf 0 sz 0 0 0"
    by (simp add: testfs_write_data_def fs_consts)
  also have "\<dots> = write_data_loop sb1 inn buf 0 (sz - BLOCK_SIZE) 1 0 BLOCK_SIZE"
    using first sz p write_blocks_1 [of "int p" sb] by (subst write_data_loop.simps) (simp add: sb1_def min_def fs_consts)
  also have "\<dots> = Ok (- ENOSPC, set_size inn (max (i_size (din inn)) (int BLOCK_SIZE)), sb1)"
    using fail sz by (subst write_data_loop.simps) (simp add: set_size_def ENOSPC_def BLOCK_SIZE_def)
  finally show ?thesis by blast
qed

text \<open>With three free blocks a write inside one block cannot fail.\<close>

lemma write_one_block:
  assumes inv: "super_inv sb" and wf: "map_wf {} sb (din inn)" and room: "room sb 3" and buf: "length buf < BLOCK_SIZE - start"
  shows "\<exists>inn' sb'. testfs_write_data sb inn buf (int start) (length buf) = Ok (int (length buf), inn', sb')"
proof -
  have start: "start < BLOCK_SIZE" using buf by simp
  have u32: "int_of_u32 (length buf) = int (length buf)" using buf by (intro int_of_u32_small) (simp add: BLOCK_SIZE_def)
  have "start div BLOCK_SIZE = 0" "start mod BLOCK_SIZE = start" using start by simp_all
  then have div: "c_div (int start) (int BLOCK_SIZE) = 0" "nat (c_mod (int start) (int BLOCK_SIZE)) = start"
    using start by (simp_all add: BLOCK_SIZE_def)
  have loop: "testfs_write_data sb inn buf (int start) (length buf) = write_data_loop sb inn buf (int start) (length buf) 0 start 0"
    unfolding testfs_write_data_def Let_def div using start by (simp add: fs_consts)
  show ?thesis
  proof (cases "buf = []")
    case True
    then show ?thesis unfolding loop using u32 by (simp add: write_data_loop.simps)
  next
    case False
    have l: "0 < (4196362 :: nat)" by simp
    from inv wf l show ?thesis
    proof (cases rule: write_step_cases)
      case (full inn' sb')
      then have "\<not> room sb 3"
        by (simp add: room_def fstep_def keeps_foreign_def fs_frame_def del: card_used_blocks)
      with room show ?thesis by simp
    next
      case (written p inn' sb')
      have "min (BLOCK_SIZE - start) (length buf) = length buf" using buf by simp
      then show ?thesis
        unfolding loop using False written(1) start write_blocks_1 [of "int p" sb'] u32
        by (subst write_data_loop.simps) (simp add: write_data_loop.simps [of _ _ _ _ 0] Let_def)
    qed
  qed
qed

text \<open>A file of one block on a device whose only block it has.\<close>

lemma full_device_file:
  obtains sb and inn :: inode where "super_inv sb" "file_ok sb (din inn)" "\<not> can_alloc sb" "bmap (dev sb) (din inn) 0 \<noteq> 0"
    "bmap (dev sb) (din inn) 1 = 0" "i_flags inn = 0" "i_size (din inn) = 1"
proof -
  let ?sb = "empty_fs 1" and ?inn = "new_inode 1"
  have wf: "map_wf {} ?sb (din ?inn)" by (simp add: new_inode_def map_wf_zero_dinode)
  have zero: "bmap (dev ?sb) (din ?inn) k = 0" for k
    using slot_val_zero_dinode [of "dev ?sb" "S_data k"] by (simp add: new_inode_def del: slot_val_zero_dinode)
  from super_inv_empty_fs [of 1] show thesis
  proof (cases rule: alloc_for_inode_cases)
    case full
    with can_alloc_empty_fs [of 1] show thesis by simp
  next
    case (found p sb1)
    define inn1 where "inn1 = (counted ?inn 1)\<lparr>din := (din (counted ?inn 1))\<lparr>i_block_nr := (i_block_nr (din ?inn))[0 := int p]\<rparr>\<rparr>"
    have "grown ?sb ?inn 0 p sb1 inn1"
      unfolding inn1_def using allocate_direct [OF super_inv_empty_fs wf _ zero found(1,5-7), of 0] by simp
    note G = this [unfolded grown_def]
    have p: "bmap (dev sb1) (din inn1) 0 = int p" "0 < p" using G by simp_all
    define sb2 where "sb2 = sb1\<lparr>dev := dev_write (dev sb1) p (Suc 0) zero_arr\<rparr>"
    note W = write_data_block [OF _ _ _ p, where a = zero_arr, folded sb2_def]
    have sb2: "super_inv sb2" "map_wf {} sb2 (din inn1)" "live (dev sb2) (din inn1) = live (dev sb1) (din inn1)" using W(1-3) G by simp_all
    have bd: "block_data (dev sb2) (din inn1) j = (if j = 0 then zero_arr else block_data (dev sb1) (din inn1) j)" if "j < 4196362" for j
      using W(5) [OF _ _ _ that] G by simp
    have bm1: "bmap (dev sb1) (din inn1) k = (if k = 0 then int p else 0)" if "k < 4196362" for k
      using G that zero by simp
    have bm: "bmap (dev sb2) (din inn1) k = (if k = 0 then int p else 0)" if "k < 4196362" for k
      using slot_val_dev_write [OF _ _ _ p, of "{S_data 0}" "S_data k" zero_arr] G that bm1 [OF that]
      by (simp add: sb2_def)
    have zb: "block_data (dev sb2) (din inn1) b = zero_arr" if "b < 4196362" for b
      using bd [OF that] bm [OF that] by (cases "b = 0") (simp_all add: block_data_def [of "dev sb2"])
    have fb: "fbyte (dev sb2) (din inn1) i = 0" if "i < max_bytes" for i
      unfolding fbyte_def using zb that block_of_byte by (simp add: zero_arr_def)
    have cov: "covered (dev sb2) (din inn1) 1"
    proof -
      have "covered (dev ?sb) (din ?inn) 0" by (simp add: new_inode_def covered_def)
      moreover have "grows_to 0 (live (dev ?sb) (din ?inn)) (live (dev sb2) (din inn1))"
        using G sb2(3) p by (simp add: grows_to_def) (simp add: live_def)
      ultimately show ?thesis using covered_grow [of "dev ?sb" "din ?inn" 0 0 "dev sb2" "din inn1" 1]
        by (simp add: BLOCK_SIZE_def)
    qed
    define inn2 where "inn2 = (set_size inn1 1)\<lparr>i_flags := 0\<rparr>"
    have "file_ok sb2 (din inn2)" using sb2 cov fb by (simp add: file_ok_def inn2_def fs_consts)
    moreover have "\<not> can_alloc sb2"
      using found(6,7) by (simp add: can_alloc_def sb2_def fs_frame_def del: card_used_blocks)
    ultimately show thesis using that [of sb2 inn2] sb2(1) bm p(2) by (simp add: inn2_def)
  qed
qed

section \<open>Properties\<close>

text \<open>
  (C30) Reading a byte range. For a start inside the file, \<open>testfs_read_data\<close> copies exactly the bytes of
  the file from there, as many as were asked for or as there are before its end, returns their
  number, and never leaves the caller's buffer.
\<close>

theorem testfs_read_data_correct:
  assumes "super_inv sb" and "file_ok sb (din inn)" and "start \<le> length (file_bytes (dev sb) (din inn))"
    and "start < max_bytes" and "sz \<le> cap" and "sz < 2 ^ 31"
  shows "testfs_read_data sb inn cap (int start) sz =
    (let bytes = take sz (drop start (file_bytes (dev sb) (din inn))) in Ok (int (length bytes), bytes))"
  using read_data_eq [OF assms(1-3,5,6,4)] .

theorem testfs_read_data_correct_witness:
  "super_inv (empty_fs 10) \<and> file_ok (empty_fs 10) (din (new_inode 1)) \<and>
   testfs_read_data (empty_fs 10) (new_inode 1) 100 (int 0) 5 = Ok (0, [])"
  using testfs_read_data_correct [of "empty_fs 10" "new_inode 1" 0 5 100] super_inv_empty_fs [of 10]
    file_ok_zero_dinode [of "empty_fs 10"] by (simp add: new_inode_def fs_consts)

lemma testfs_write_data_bytes:
  assumes "super_inv sb" and "file_ok sb (din inn)" and "sz \<le> length buf" and "sz < 2 ^ 31" and "start < max_bytes"
  shows "\<exists>m ret inn' sb'. testfs_write_data sb inn buf (int start) sz = Ok (ret, inn', sb') \<and> m \<le> sz \<and>
     super_inv sb' \<and> file_ok sb' (din inn') \<and>
     file_bytes (dev sb') (din inn') = splice (file_bytes (dev sb) (din inn)) start (take m buf) \<and>
     keeps_foreign sb (din inn) sb' (din inn') \<and> same_id inn inn' \<and> i_flags inn' \<in> {i_flags inn, i_flags inn OR I_FLAGS_DIRTY} \<and>
     (m = sz \<and> ret = int sz \<and> i_flags inn' = i_flags inn OR I_FLAGS_DIRTY \<or>
      m < sz \<and> ret = - ENOSPC \<and> \<not> room sb' 3 \<or>
      m < sz \<and> ret = - EFBIG \<and> start + m = max_bytes)"
proof -
  from write_data_eq [OF assms] obtain m ret inn' sb' where
    w: "testfs_write_data sb inn buf (int start) sz = Ok (ret, inn', sb')" "m \<le> sz" "wrote sb inn buf start 0 m sb' inn'"
      "verdict start 0 sz m ret inn inn' sb'" by blast
  have "i_flags inn' \<in> {i_flags inn, i_flags inn OR I_FLAGS_DIRTY}" using w(3) by (simp add: wrote_def fstep_def)
  with wrote_file [OF assms(1,2) w(3)] w assms(3) show ?thesis
    by (intro exI [of _ m] exI [of _ ret] exI [of _ inn'] exI [of _ sb']) (auto simp: verdict_def)
qed

text \<open>
  (C29) Writing a byte range. \<open>testfs_write_data\<close> of \<open>sz\<close> bytes at any offset below the largest file size
  overwrites exactly the bytes from \<open>start\<close> with the first \<open>m\<close> bytes of the buffer, filling a gap after the
  old end with zeros. Either all bytes are written, their number is returned and the inode is dirty; or
  fewer are, because the device has fewer than three free blocks (\<open>-ENOSPC\<close>) or the largest
  file size is reached (\<open>-EFBIG\<close>). In every case the file stays consistent, the super block does, and no
  block of another file or of the inode table changes.
\<close>

theorem testfs_write_data_correct:
  assumes "super_inv sb" and "file_ok sb (din inn)" and "sz \<le> length buf" and "sz < 2 ^ 31" and "start < max_bytes"
  shows "\<exists>m ret inn' sb'. testfs_write_data sb inn buf (int start) sz = Ok (ret, inn', sb') \<and> m \<le> sz \<and>
     super_inv sb' \<and> file_ok sb' (din inn') \<and>
     file_bytes (dev sb') (din inn') = splice (file_bytes (dev sb) (din inn)) start (take m buf) \<and>
     keeps_foreign sb (din inn) sb' (din inn') \<and> same_id inn inn' \<and>
     (m = sz \<and> ret = int sz \<and> i_flags inn' = i_flags inn OR I_FLAGS_DIRTY \<or>
      m < sz \<and> ret = - ENOSPC \<and> \<not> room sb' 3 \<or>
      m < sz \<and> ret = - EFBIG \<and> start + m = max_bytes)"
  using testfs_write_data_bytes [OF assms] by (elim exE conjE) (intro exI conjI; assumption)

theorem testfs_write_data_correct_witness:
  "super_inv (empty_fs 10) \<and> file_ok (empty_fs 10) (din (new_inode 1)) \<and>
   (\<exists>m ret inn' sb'. testfs_write_data (empty_fs 10) (new_inode 1) [7, 8, 9] (int 2) 3 = Ok (ret, inn', sb') \<and>
      file_bytes (dev sb') (din inn') = splice [] 2 (take m [7, 8, 9]))"
  using testfs_write_data_correct [of "empty_fs 10" "new_inode 1" 3 "[7, 8, 9]" 2] super_inv_empty_fs [of 10]
    file_ok_zero_dinode [of "empty_fs 10"] by (auto simp: new_inode_def fs_consts)

text \<open>
  (C31) Reading back what was written. After a write that returned its full length, reading the same range
  of the same file returns exactly the bytes written.
\<close>

theorem testfs_read_after_write:
  assumes "super_inv sb" and "file_ok sb (din inn)" and "0 < length buf" and "length buf < 2 ^ 31" and "start < max_bytes"
    and "testfs_write_data sb inn buf (int start) (length buf) = Ok (int (length buf), inn', sb')"
  shows "testfs_read_data sb' inn' (length buf) (int start) (length buf) = Ok (int (length buf), buf)"
proof -
  from write_data_eq [OF assms(1,2) order_refl assms(4,5)] assms(6) obtain m where
    w: "wrote sb inn buf start 0 m sb' inn'" "verdict start 0 (length buf) m (int (length buf)) inn inn' sb'" by auto
  from w(2) have m: "m = length buf" by (auto simp: verdict_def ENOSPC_def EFBIG_def)
  note W = wrote_file [OF assms(1,2) w(1)]
  have bytes: "file_bytes (dev sb') (din inn') = splice (file_bytes (dev sb) (din inn)) start buf" using W(5) m by simp
  have "take (length buf) (drop start (file_bytes (dev sb') (din inn'))) = buf"
    unfolding bytes using assms(3) by (auto simp: splice_def)
  moreover have "start \<le> length (file_bytes (dev sb') (din inn'))" unfolding bytes length_splice using assms(3) by simp
  ultimately show ?thesis
    using read_data_eq [OF W(1,2) _ order_refl assms(4,5)] m by (simp add: Let_def)
qed

theorem testfs_read_after_write_witness:
  "\<exists>inn' sb'. testfs_write_data (empty_fs 10) (new_inode 1) [7, 8, 9] (int 2) 3 = Ok (3, inn', sb') \<and>
     testfs_read_data sb' inn' 3 (int 2) 3 = Ok (3, [7, 8, 9])"
proof -
  let ?buf = "[7, 8, 9] :: byte list"
  have ok: "file_ok (empty_fs 10) (din (new_inode 1))" by (simp add: new_inode_def file_ok_zero_dinode)
  then have wf: "map_wf {} (empty_fs 10) (din (new_inode 1))" by (simp add: file_ok_def)
  have "room (empty_fs 10) 3" using used_blocks_empty_fs [of 10] by (simp add: room_def del: card_used_blocks)
  from write_one_block [OF super_inv_empty_fs wf this, of ?buf 2] obtain inn' sb' where
    w: "testfs_write_data (empty_fs 10) (new_inode 1) ?buf (int 2) (length ?buf) = Ok (int (length ?buf), inn', sb')"
    by (auto simp: BLOCK_SIZE_def)
  from testfs_read_after_write [OF super_inv_empty_fs ok _ _ _ w] w show ?thesis by (auto simp: fs_consts numeral_3_eq_3)
qed

text \<open>
  (C35) A write that runs out of space can lose its growth. When a clean inode's file has its first block,
  the device is full and a write goes past that block, \<open>testfs_write_data\<close> returns \<open>-ENOSPC\<close> with the size
  of the inode in memory raised to the bytes written, but the inode is still not dirty:
  \<open>testfs_sync_inode\<close> writes nothing, so the inode table keeps the old size.
\<close>

theorem testfs_write_data_lost_size:
  assumes "super_inv sb" and "file_ok sb (din inn)" and "\<not> can_alloc sb" and "i_flags inn AND I_FLAGS_DIRTY = 0"
    and "bmap (dev sb) (din inn) 0 \<noteq> 0" and "bmap (dev sb) (din inn) 1 = 0" and "BLOCK_SIZE < sz" and "sz \<le> length buf"
  shows "\<exists>inn' sb'. testfs_write_data sb inn buf 0 sz = Ok (- ENOSPC, inn', sb') \<and>
     i_size (din inn') = max (i_size (din inn)) (int BLOCK_SIZE) \<and> testfs_sync_inode sb' inn' = Ok (inn', sb')"
proof -
  from write_past_full [OF assms(1-3,5-8)] obtain sb' where
    "testfs_write_data sb inn buf 0 sz = Ok (- ENOSPC, set_size inn (max (i_size (din inn)) (int BLOCK_SIZE)), sb')" by blast
  with assms(4) show ?thesis by (auto simp: testfs_sync_inode_def)
qed

theorem testfs_write_data_lost_size_witness:
  "\<exists>sb inn inn' sb'. i_size (din inn) = 1 \<and> i_flags inn = 0 \<and>
     testfs_write_data sb inn (replicate 9000 0) 0 9000 = Ok (- ENOSPC, inn', sb') \<and>
     i_size (din inn') = 8192 \<and> testfs_sync_inode sb' inn' = Ok (inn', sb')"
proof -
  obtain sb and inn :: inode where F: "super_inv sb" "file_ok sb (din inn)" "\<not> can_alloc sb" "bmap (dev sb) (din inn) 0 \<noteq> 0"
    "bmap (dev sb) (din inn) 1 = 0" "i_flags inn = 0" "i_size (din inn) = 1" by (rule full_device_file)
  from F testfs_write_data_lost_size [of sb inn 9000 "replicate 9000 0"] show ?thesis
    by (auto simp: BLOCK_SIZE_def)
qed

end
