(* ===== verification/FS_Dir.thy ===== *)
theory FS_Dir
  imports FS_FileData
begin

text \<open>
  Directories, the part of \<^verbatim>\<open>fs/dir.c\<close> that works on one directory: the entries in the bytes of its file, walking
  over them, looking a name up and adding an entry. The functions that also use other inodes are in \<open>FS_Tree\<close>.
\<close>

unbundle bit_operations_syntax

section \<open>Definitions\<close>

text \<open>
  A directory entry: the structure of eight bytes and the name behind it. A name is compared with \<^verbatim>\<open>strcmp\<close>, so it ends at a zero byte; a comparison that
  runs past the end of the name in memory is an error.
\<close>

record dirent =
  d_name_len :: int
  d_inode_nr :: int
  d_name :: "byte list"

definition sizeof_dirent :: nat where [fs_consts]: "sizeof_dirent = 8"

definition s32_bytes :: "int \<Rightarrow> byte list" where
  "s32_bytes x = map (put_s32 zero_arr 0 x) [0..<4]"

definition dirent_bytes :: "dirent \<Rightarrow> byte list" where
  "dirent_bytes d = s32_bytes (d_name_len d) @ s32_bytes (d_inode_nr d) @ d_name d"

definition strcmp_eq :: "byte list \<Rightarrow> byte list \<Rightarrow> bool outcome" where
  "strcmp_eq mem nm =
     (if length nm < length mem \<or> take (length mem) nm \<noteq> mem then Ok (take (Suc (length nm)) mem = nm @ [0]) else Crash MemFault)"

text \<open>
  The next entry of a directory and the offset behind it. \<^verbatim>\<open>malloc\<close> is taken to succeed. A read that comes short leaves part of the structure unset; using
  it is an error.
\<close>

definition testfs_next_dirent :: "super_block \<Rightarrow> inode \<Rightarrow> int \<Rightarrow> (dirent \<times> int) option outcome" where
  "testfs_next_dirent sb dir offset =
     c_assert (testfs_inode_get_type dir = int_of_type I_DIR)
       (if offset \<ge> testfs_inode_get_size dir then Ok None
        else and_then (testfs_read_data sb dir sizeof_dirent offset sizeof_dirent) (\<lambda>(ret, d).
          if ret < 0 then Ok None
          else mem_check (length d = sizeof_dirent)
            (let len = get_s32 (arr_of d) 0; nr = get_s32 (arr_of d) 4 in
             c_assert (len > 0)
               (and_then (testfs_read_data sb dir (nat len) (offset + int sizeof_dirent) (nat len)) (\<lambda>(ret, nm).
                 if ret < 0 then Ok None
                 else Ok (Some (\<lparr>d_name_len = len, d_inode_nr = nr, d_name = nm\<rparr>, offset + int sizeof_dirent + len)))))))"

lemma next_dirent_progress:
  "testfs_next_dirent sb dir offset = Ok (Some (d, offset')) \<Longrightarrow> offset < testfs_inode_get_size dir \<and> offset < offset'"
  by (auto simp: testfs_next_dirent_def and_then_Ok_iff c_assert_Ok_iff mem_check_Ok_iff Let_def split: if_splits)

text \<open>The loops over the entries. Each step moves the offset on, so they end.\<close>

function find_dirent_from :: "super_block \<Rightarrow> inode \<Rightarrow> int \<Rightarrow> int \<Rightarrow> dirent option outcome" where
  "find_dirent_from sb dir inode_nr offset =
     (case testfs_next_dirent sb dir offset of
        Crash c \<Rightarrow> Crash c
      | Ok None \<Rightarrow> Ok None
      | Ok (Some (d, offset')) \<Rightarrow> if d_inode_nr d = inode_nr then Ok (Some d) else find_dirent_from sb dir inode_nr offset')"
  by pat_completeness auto
termination
  by (relation "measure (\<lambda>(sb, dir, nr, offset). nat (testfs_inode_get_size dir - offset))") (auto dest: next_dirent_progress)

definition testfs_find_dirent :: "super_block \<Rightarrow> inode \<Rightarrow> int \<Rightarrow> dirent option outcome" where
  "testfs_find_dirent sb dir inode_nr =
     c_assert (testfs_inode_get_type dir = int_of_type I_DIR) (c_assert (inode_nr \<ge> 0) (find_dirent_from sb dir inode_nr 0))"

function name_from :: "super_block \<Rightarrow> inode \<Rightarrow> byte list \<Rightarrow> int \<Rightarrow> int outcome" where
  "name_from sb dir name offset =
     (case testfs_next_dirent sb dir offset of
        Crash c \<Rightarrow> Crash c
      | Ok None \<Rightarrow> Ok (- ENOENT)
      | Ok (Some (d, offset')) \<Rightarrow>
          if d_inode_nr d < 0 then name_from sb dir name offset'
          else and_then (strcmp_eq (d_name d) name) (\<lambda>eq.
            if eq then Ok (d_inode_nr d) else name_from sb dir name offset'))"
  by pat_completeness auto
termination
  by (relation "measure (\<lambda>(sb, dir, name, offset). nat (testfs_inode_get_size dir - offset))") (auto dest: next_dirent_progress)

definition testfs_dir_name_to_inode_nr :: "super_block \<Rightarrow> inode \<Rightarrow> byte list \<Rightarrow> int outcome" where
  "testfs_dir_name_to_inode_nr sb dir name =
     c_assert (testfs_inode_get_type dir = int_of_type I_DIR) (name_from sb dir name 0)"

text \<open>\<open>write_dirent\<close> takes its offset as an \<^verbatim>\<open>int\<close>; the name is written with its terminating zero.\<close>

definition testfs_write_dirent :: "super_block \<Rightarrow> inode \<Rightarrow> byte list \<Rightarrow> int \<Rightarrow> int \<Rightarrow> int \<Rightarrow> (int \<times> inode \<times> super_block) outcome" where
  "testfs_write_dirent sb dir name len inode_nr offset =
     c_assert (inode_nr \<ge> 0)
       (testfs_write_data sb dir (dirent_bytes \<lparr>d_name_len = len, d_inode_nr = inode_nr, d_name = name @ [0]\<rparr>)
         (sint (word_of_int offset :: 32 word)) (sizeof_dirent + nat len))"

text \<open>The search of \<open>add_dirent\<close>: the name exists, a free entry of the same length, or the end of the directory.\<close>

datatype place = Exists | Found int | Full int

function add_scan :: "super_block \<Rightarrow> inode \<Rightarrow> byte list \<Rightarrow> int \<Rightarrow> int \<Rightarrow> place outcome" where
  "add_scan sb dir name len offset =
     (case testfs_next_dirent sb dir offset of
        Crash c \<Rightarrow> Crash c
      | Ok None \<Rightarrow> Ok (Full offset)
      | Ok (Some (d, offset')) \<Rightarrow>
          and_then (if d_inode_nr d \<ge> 0 then strcmp_eq (d_name d) name else Ok False) (\<lambda>eq.
            if eq then Ok Exists
            else if d_inode_nr d \<ge> 0 \<or> d_name_len d \<noteq> len then add_scan sb dir name len offset'
            else Ok (Found offset)))"
  by pat_completeness auto
termination
  by (relation "measure (\<lambda>(sb, dir, name, len, offset). nat (testfs_inode_get_size dir - offset))")
    (auto dest: next_dirent_progress)

definition testfs_add_dirent :: "super_block \<Rightarrow> inode \<Rightarrow> byte list \<Rightarrow> int \<Rightarrow> (int \<times> inode \<times> super_block) outcome" where
  "testfs_add_dirent sb dir name inode_nr =
     (let len = int (length name) + 1 in
      c_assert (testfs_inode_get_type dir = int_of_type I_DIR)
        (and_then (add_scan sb dir name len 0) (\<lambda>p.
          case p of
            Exists \<Rightarrow> Ok (- EEXIST, dir, sb)
          | Found p_offset \<Rightarrow> testfs_write_dirent sb dir name len inode_nr p_offset
          | Full p_offset \<Rightarrow> c_assert (p_offset = testfs_inode_get_size dir) (testfs_write_dirent sb dir name len inode_nr p_offset))))"

declare find_dirent_from.simps [simp del] name_from.simps [simp del] add_scan.simps [simp del]

section \<open>The entries of a directory\<close>

definition dent_ok :: "dirent \<Rightarrow> bool" where
  "dent_ok d \<longleftrightarrow> (\<exists>nm. d_name d = nm @ [0] \<and> 0 \<notin> set nm) \<and> d_name_len d = int (length (d_name d)) \<and> is_s32 (d_name_len d) \<and> is_s32 (d_inode_nr d)"

text \<open>A directory whose bytes are those of the entries \<open>ds\<close>, one behind the other.\<close>

definition dir_rep :: "super_block \<Rightarrow> inode \<Rightarrow> dirent list \<Rightarrow> bool" where
  "dir_rep sb dir ds \<longleftrightarrow> super_inv sb \<and> file_ok sb (din dir) \<and> i_type (din dir) = int_of_type I_DIR \<and> i_size (din dir) < 2 ^ 31 \<and>
     file_bytes (dev sb) (din dir) = concat (map dirent_bytes ds) \<and> (\<forall>d \<in> set ds. dent_ok d)"

definition off :: "dirent list \<Rightarrow> nat" where
  "off ds = length (concat (map dirent_bytes ds))"

lemma length_s32_bytes [simp]: "length (s32_bytes x) = 4"
  by (simp add: s32_bytes_def)

lemma off_simps [simp]: "off [] = 0" "off (d # ds) = 8 + length (d_name d) + off ds" "off (us @ vs) = off us + off vs"
  by (simp_all add: off_def dirent_bytes_def)

lemma get_s32_bytes:
  assumes "is_s32 x"
  shows "get_s32 (arr_of (s32_bytes x @ ys)) 0 = x"
proof -
  have "get_s32 (arr_of (s32_bytes x @ ys)) 0 = get_s32 (put_s32 zero_arr 0 x) 0"
    unfolding get_s32_def get_word_def by (rule arg_cong [of _ _ sint], rule le_load_cong) (simp add: arr_of_def s32_bytes_def nth_append)
  then show ?thesis using get_put_s32 [OF assms] by simp
qed

lemma get_s32_bytes_second: "is_s32 x \<Longrightarrow> get_s32 (arr_of (s32_bytes y @ s32_bytes x)) 4 = x"
proof -
  assume x: "is_s32 x"
  have "get_s32 (arr_of (s32_bytes y @ s32_bytes x)) 4 = get_s32 (arr_of (s32_bytes x @ [])) 0"
    unfolding get_s32_def get_word_def by (rule arg_cong [of _ _ sint], rule le_load_cong) (simp add: arr_of_def nth_append)
  then show ?thesis using get_s32_bytes [OF x, of "[]"] by simp
qed

lemma dir_repD:
  assumes "dir_rep sb dir ds"
  shows "super_inv sb" "file_ok sb (din dir)" "i_type (din dir) = int_of_type I_DIR" "i_size (din dir) = int (off ds)" "off ds < 2 ^ 31"
    "file_bytes (dev sb) (din dir) = concat (map dirent_bytes ds)" "d \<in> set ds \<Longrightarrow> dent_ok d"
proof -
  show "super_inv sb" "file_ok sb (din dir)" "i_type (din dir) = int_of_type I_DIR" "file_bytes (dev sb) (din dir) = concat (map dirent_bytes ds)" "d \<in> set ds \<Longrightarrow> dent_ok d"
    using assms by (simp_all add: dir_rep_def)
  have "nat (i_size (din dir)) = off ds" using assms by (metis (no_types, lifting) dir_rep_def file_bytes_def length_map diff_zero length_upt off_def)
  moreover have "0 \<le> i_size (din dir)" "i_size (din dir) < 2 ^ 31" using assms by (simp_all add: dir_rep_def file_ok_def)
  ultimately show "i_size (din dir) = int (off ds)" "off ds < 2 ^ 31" by auto
qed

lemma read_dir:
  assumes r: "dir_rep sb dir ds" and s: "start \<le> off ds" and sz: "sz < 2 ^ 31"
  shows "testfs_read_data sb dir sz (int start) sz = (let bytes = take sz (drop start (concat (map dirent_bytes ds))) in Ok (int (length bytes), bytes))"
proof -
  note D = dir_repD [OF r]
  have "length (file_bytes (dev sb) (din dir)) = off ds" using D(6) by (simp add: off_def)
  then show ?thesis using read_data_eq [OF D(1,2), of start sz sz] s sz D(5,6) by (simp add: fs_consts)
qed

lemma next_dirent_rep:
  assumes r: "dir_rep sb dir (us @ vs)"
  shows "testfs_next_dirent sb dir (int (off us)) = Ok (case vs of [] \<Rightarrow> None | d # _ \<Rightarrow> Some (d, int (off (us @ [d]))))"
proof (cases vs)
  case Nil
  then show ?thesis using dir_repD(3,4) [OF r] by (simp add: testfs_next_dirent_def testfs_inode_get_type_def testfs_inode_get_size_def)
next
  case (Cons d ws)
  note D = dir_repD [OF r]
  have d: "dent_ok d" using D(7) Cons by simp
  then have dn: "d_name_len d = int (length (d_name d))" "is_s32 (d_name_len d)" "is_s32 (d_inode_nr d)" "0 < length (d_name d)" by (auto simp: dent_ok_def)
  let ?bs = "concat (map dirent_bytes (us @ vs))"
  have split: "drop (off us) ?bs = s32_bytes (d_name_len d) @ s32_bytes (d_inode_nr d) @ d_name d @ concat (map dirent_bytes ws)"
    by (simp add: Cons off_def dirent_bytes_def)
  have 1: "testfs_read_data sb dir 8 (int (off us)) 8 = Ok (8, s32_bytes (d_name_len d) @ s32_bytes (d_inode_nr d))"
    using read_dir [OF r, of "off us" 8, unfolded split Let_def] by simp
  have "drop (off us + 8) ?bs = drop 8 (drop (off us) ?bs)" by (simp only: drop_drop add.commute)
  then have split2: "drop (off us + 8) ?bs = d_name d @ concat (map dirent_bytes ws)" unfolding split by simp
  have 2: "testfs_read_data sb dir (length (d_name d)) (int (off us) + 8) (length (d_name d)) = Ok (int (length (d_name d)), d_name d)"
    using read_dir [OF r, of "off us + 8" "length (d_name d)", unfolded split2 Let_def] D(5) Cons by simp
  have "\<not> testfs_inode_get_size dir \<le> int (off us)" using D(4) Cons by (simp add: testfs_inode_get_size_def)
  then show ?thesis
    using D(3) 1 2 dn get_s32_bytes [OF dn(2), of "s32_bytes (d_inode_nr d)"] get_s32_bytes_second [OF dn(3), of "d_name_len d"] Cons
    by (simp add: testfs_next_dirent_def testfs_inode_get_type_def sizeof_dirent_def Let_def)
qed

lemma strcmp_names:
  assumes "0 \<notin> set m" and "0 \<notin> set nm"
  shows "strcmp_eq (m @ [0]) nm = Ok (m = nm)"
proof (cases "length nm < Suc (length m)")
  case True
  have "take (Suc (length nm)) (m @ [0]) = nm @ [0] \<longleftrightarrow> m = nm"
  proof
    assume a: "take (Suc (length nm)) (m @ [0]) = nm @ [0]"
    have "length nm = length m"
    proof (rule ccontr)
      assume "length nm \<noteq> length m"
      with True have "Suc (length nm) \<le> length m" by simp
      with a have "take (Suc (length nm)) m = nm @ [0]" by simp
      then have "0 \<in> set (take (Suc (length nm)) m)" by simp
      with assms(1) show False using set_take_subset by fastforce
    qed
    with a show "m = nm" by simp
  qed simp
  with True show ?thesis by (simp add: strcmp_eq_def)
next
  case False
  have "take (length (m @ [0])) nm \<noteq> m @ [0]"
  proof
    assume "take (length (m @ [0])) nm = m @ [0]"
    then have "0 \<in> set (take (length (m @ [0])) nm)" by (simp only: set_append) simp
    with assms(2) show False using set_take_subset by fastforce
  qed
  moreover have "m \<noteq> nm" using False by auto
  moreover have "take (Suc (length nm)) (m @ [0]) \<noteq> nm @ [0]" using False calculation(2) by auto
  ultimately show ?thesis using False by (simp add: strcmp_eq_def)
qed

lemma strcmp_dent: "dent_ok d \<Longrightarrow> 0 \<notin> set nm \<Longrightarrow> strcmp_eq (d_name d) nm = Ok (d_name d = nm @ [0])"
  by (auto simp: dent_ok_def strcmp_names)

text \<open>What a lookup finds: the first entry in use with the name.\<close>

definition live_name :: "byte list \<Rightarrow> dirent \<Rightarrow> bool" where
  "live_name nm d \<longleftrightarrow> 0 \<le> d_inode_nr d \<and> d_name d = nm @ [0]"

definition dir_lookup :: "dirent list \<Rightarrow> byte list \<Rightarrow> int" where
  "dir_lookup ds nm = (case find (live_name nm) ds of None \<Rightarrow> - ENOENT | Some d \<Rightarrow> d_inode_nr d)"

lemma name_from_rep:
  "dir_rep sb dir (us @ vs) \<Longrightarrow> 0 \<notin> set nm \<Longrightarrow> name_from sb dir nm (int (off us)) = Ok (dir_lookup vs nm)"
proof (induction vs arbitrary: us)
  case Nil
  then show ?case using next_dirent_rep [OF Nil(1)] by (subst name_from.simps) (simp add: dir_lookup_def)
next
  case (Cons d vs)
  have "dent_ok d" using dir_repD(7) [OF Cons.prems(1), of d] by simp
  then have eq: "strcmp_eq (d_name d) nm = Ok (d_name d = nm @ [0])" by (rule strcmp_dent [OF _ Cons.prems(2)])
  have IH: "name_from sb dir nm (int (off (us @ [d]))) = Ok (dir_lookup vs nm)" using Cons.IH [of "us @ [d]"] Cons.prems by simp
  show ?case using next_dirent_rep [OF Cons.prems(1)] eq IH by (subst name_from.simps) (auto simp: dir_lookup_def live_name_def)
qed

lemma find_from_rep:
  "dir_rep sb dir (us @ vs) \<Longrightarrow> find_dirent_from sb dir nr (int (off us)) = Ok (find (\<lambda>d. d_inode_nr d = nr) vs)"
proof (induction vs arbitrary: us)
  case Nil
  then show ?case using next_dirent_rep [OF Nil(1)] by (subst find_dirent_from.simps) simp
next
  case (Cons d vs)
  have IH: "find_dirent_from sb dir nr (int (off (us @ [d]))) = Ok (find (\<lambda>d. d_inode_nr d = nr) vs)" using Cons.IH [of "us @ [d]"] Cons.prems by simp
  show ?case using next_dirent_rep [OF Cons.prems(1)] IH by (subst find_dirent_from.simps) auto
qed

section \<open>Adding an entry\<close>

lemma write_entry:
  assumes r: "dir_rep sb dir (us @ vs)" and e: "dent_ok e" and v: "vs = [] \<or> length (d_name (hd vs)) = length (d_name e)"
    and b: "off us + off [e] < 2 ^ 31"
  shows "\<exists>ret dir' sb'. testfs_write_data sb dir (dirent_bytes e) (int (off us)) (off [e]) = Ok (ret, dir', sb') \<and>
    super_inv sb' \<and> file_ok sb' (din dir') \<and> keeps_foreign sb (din dir) sb' (din dir') \<and> same_id dir dir' \<and> i_flags dir' \<in> {i_flags dir, i_flags dir OR I_FLAGS_DIRTY} \<and>
    (ret = int (off [e]) \<and> dir_rep sb' dir' (us @ e # tl vs) \<and> i_flags dir' = i_flags dir OR I_FLAGS_DIRTY \<or>
     ret = - ENOSPC \<and> \<not> room sb' 3 \<and> i_size (din dir') \<le> int (off (us @ vs) + off [e]))"
proof -
  note D = dir_repD [OF r]
  have len: "length (dirent_bytes e) = off [e]" by (simp add: dirent_bytes_def)
  have "off [e] \<le> length (dirent_bytes e)" "off [e] < 2 ^ 31" "off us < max_bytes" using len b by (simp_all add: fs_consts)
  from testfs_write_data_bytes [OF D(1,2) this] obtain m ret dir' sb' where W:
    "testfs_write_data sb dir (dirent_bytes e) (int (off us)) (off [e]) = Ok (ret, dir', sb')" "m \<le> off [e]" "super_inv sb'" "file_ok sb' (din dir')"
    "file_bytes (dev sb') (din dir') = splice (file_bytes (dev sb) (din dir)) (off us) (take m (dirent_bytes e))"
    "keeps_foreign sb (din dir) sb' (din dir')" "same_id dir dir'" "i_flags dir' \<in> {i_flags dir, i_flags dir OR I_FLAGS_DIRTY}"
    "m = off [e] \<and> ret = int (off [e]) \<and> i_flags dir' = i_flags dir OR I_FLAGS_DIRTY \<or> m < off [e] \<and> ret = - ENOSPC \<and> \<not> room sb' 3 \<or> m < off [e] \<and> ret = - EFBIG \<and> off us + m = max_bytes" by blast
  have "\<not> (m < off [e] \<and> off us + m = max_bytes)" using b by (simp add: fs_consts)
  then consider (full) "m = off [e]" "ret = int (off [e])" "i_flags dir' = i_flags dir OR I_FLAGS_DIRTY" | (nospc) "ret = - ENOSPC" "\<not> room sb' 3" using W(9) by blast
  then show ?thesis
  proof cases
    case full
    let ?X = "concat (map dirent_bytes (us @ vs))"
    have ne: "dirent_bytes e \<noteq> []" by (simp add: dirent_bytes_def s32_bytes_def)
    have behind: "drop (off us + off [e]) (concat (map dirent_bytes (us @ vs))) = concat (map dirent_bytes (tl vs))"
    proof (cases vs)
      case (Cons d ws)
      then have "off [e] = length (dirent_bytes d)" using v by (simp add: dirent_bytes_def)
      then show ?thesis using Cons by (simp add: off_def)
    qed (simp add: off_def)
    have front: "take (off us) (?X @ zs) = concat (map dirent_bytes us)" for zs by (simp add: off_def)
    have "file_bytes (dev sb') (din dir') = splice ?X (off us) (dirent_bytes e)" using W(5) full(1) len D(6) by simp
    also have "\<dots> = concat (map dirent_bytes (us @ e # tl vs))" unfolding splice_def front len behind using ne by simp
    finally have "file_bytes (dev sb') (din dir') = concat (map dirent_bytes (us @ e # tl vs))" .
    moreover have "i_size (din dir') < 2 ^ 31"
    proof -
      have "length (file_bytes (dev sb') (din dir')) = off (us @ e # tl vs)" using calculation by (simp only: off_def)
      also have "\<dots> < 2 ^ 31" using b D(5) v by (cases vs) auto
      finally show ?thesis using W(4) by (simp add: file_bytes_def file_ok_def nat_less_iff)
    qed
    moreover have "i_type (din dir') = int_of_type I_DIR" using W(7) D(3) by (simp add: same_id_def)
    moreover have "\<forall>d \<in> set (us @ e # tl vs). dent_ok d" using D(7) e by (cases vs) auto
    ultimately have "dir_rep sb' dir' (us @ e # tl vs)" using W(3,4) by (simp add: dir_rep_def)
    then show ?thesis using W full by blast
  next
    case nospc
    let ?Y = "take m (dirent_bytes e)"
    have "length ?Y \<le> off [e]" using W(2) by (simp del: off_simps)
    moreover have "length (file_bytes (dev sb) (din dir)) = off (us @ vs)" unfolding D(6) off_def ..
    moreover have "off us \<le> off (us @ vs)" by simp
    ultimately have "length (file_bytes (dev sb') (din dir')) \<le> off (us @ vs) + off [e]"
      unfolding W(5) length_splice by (simp del: off_simps)
    then have "i_size (din dir') \<le> int (off (us @ vs) + off [e])" by (simp add: file_bytes_def)
    with W(1,3,4,6-8) nospc show ?thesis
      by (intro exI [of _ ret] exI [of _ dir'] exI [of _ sb']) (intro conjI disjI2)
  qed
qed

text \<open>Adding an entry: nothing when the name is in use, else the first free entry of the same length, else the end.\<close>

fun dir_add :: "dirent \<Rightarrow> dirent list \<Rightarrow> dirent list option" where
  "dir_add e [] = Some [e]"
| "dir_add e (d # ds) =
     (if 0 \<le> d_inode_nr d \<and> d_name d = d_name e then None
      else if 0 \<le> d_inode_nr d \<or> length (d_name d) \<noteq> length (d_name e) then map_option (Cons d) (dir_add e ds)
      else Some (e # ds))"

definition new_entry :: "byte list \<Rightarrow> int \<Rightarrow> dirent" where
  "new_entry nm nr = \<lparr>d_name_len = int (length nm) + 1, d_inode_nr = nr, d_name = nm @ [0]\<rparr>"

lemma new_entry_ok: "0 \<notin> set nm \<Longrightarrow> length nm < 2 ^ 30 \<Longrightarrow> 0 \<le> nr \<Longrightarrow> is_s32 nr \<Longrightarrow> dent_ok (new_entry nm nr)"
  by (auto simp: dent_ok_def new_entry_def is_s32_def)

lemma add_scan_rep:
  assumes "0 \<notin> set nm"
  shows "dir_rep sb dir (us @ vs) \<Longrightarrow>
    (case dir_add (new_entry nm nr) vs of
       None \<Rightarrow> add_scan sb dir nm (int (length nm) + 1) (int (off us)) = Ok Exists
     | Some vs' \<Rightarrow> \<exists>ws xs. vs = ws @ xs \<and> vs' = ws @ new_entry nm nr # tl xs \<and> (xs \<noteq> [] \<longrightarrow> length (d_name (hd xs)) = Suc (length nm)) \<and>
         add_scan sb dir nm (int (length nm) + 1) (int (off us)) =
           Ok (if xs = [] then Full (int (off (us @ ws))) else Found (int (off (us @ ws)))))"
proof (induction vs arbitrary: us)
  case Nil
  then show ?case using next_dirent_rep [OF Nil] by (subst add_scan.simps) simp
next
  case (Cons d vs)
  have d: "dent_ok d" using dir_repD(7) [OF Cons.prems, of d] by simp
  then have eq: "strcmp_eq (d_name d) nm = Ok (d_name d = nm @ [0])" by (rule strcmp_dent [OF _ assms])
  have dn: "d_name_len d = int (length (d_name d))" using d by (simp add: dent_ok_def)
  have IH: "case dir_add (new_entry nm nr) vs of
       None \<Rightarrow> add_scan sb dir nm (int (length nm) + 1) (int (off (us @ [d]))) = Ok Exists
     | Some vs' \<Rightarrow> \<exists>ws xs. vs = ws @ xs \<and> vs' = ws @ new_entry nm nr # tl xs \<and> (xs \<noteq> [] \<longrightarrow> length (d_name (hd xs)) = Suc (length nm)) \<and>
         add_scan sb dir nm (int (length nm) + 1) (int (off (us @ [d]))) =
           Ok (if xs = [] then Full (int (off ((us @ [d]) @ ws))) else Found (int (off ((us @ [d]) @ ws))))"
    using Cons.IH [of "us @ [d]"] Cons.prems by simp
  note step = next_dirent_rep [OF Cons.prems, simplified]
  consider (same) "0 \<le> d_inode_nr d" "d_name d = nm @ [0]" | (free) "d_inode_nr d < 0" "length (d_name d) = Suc (length nm)"
    | (other) "\<not> (0 \<le> d_inode_nr d \<and> d_name d = nm @ [0])" "0 \<le> d_inode_nr d \<or> length (d_name d) \<noteq> Suc (length nm)" by linarith
  then show ?case
  proof cases
    case same
    then show ?thesis using step eq by (subst add_scan.simps) (simp add: new_entry_def)
  next
    case free
    then have "add_scan sb dir nm (int (length nm) + 1) (int (off us)) = Ok (Found (int (off us)))" using step dn by (subst add_scan.simps) simp
    moreover have "dir_add (new_entry nm nr) (d # vs) = Some (new_entry nm nr # vs)" using free by (simp add: new_entry_def)
    moreover have "length (d_name (new_entry nm nr)) = Suc (length nm)" by (simp add: new_entry_def)
    ultimately show ?thesis using free by (simp del: dir_add.simps) (rule exI [of _ "[]"], rule exI [of _ "d # vs"], simp)
  next
    case other
    then have go: "add_scan sb dir nm (int (length nm) + 1) (int (off us)) = add_scan sb dir nm (int (length nm) + 1) (int (off (us @ [d])))"
      using step eq dn by (subst add_scan.simps) (cases "0 \<le> d_inode_nr d", auto)
    have add: "dir_add (new_entry nm nr) (d # vs) = map_option (Cons d) (dir_add (new_entry nm nr) vs)" using other by (auto simp: new_entry_def)
    show ?thesis
    proof (cases "dir_add (new_entry nm nr) vs")
      case None
      then show ?thesis using IH go add by simp
    next
      case (Some vs')
      with IH obtain ws xs where W: "vs = ws @ xs" "vs' = ws @ new_entry nm nr # tl xs" "xs \<noteq> [] \<longrightarrow> length (d_name (hd xs)) = Suc (length nm)"
        "add_scan sb dir nm (int (length nm) + 1) (int (off (us @ [d]))) = Ok (if xs = [] then Full (int (off ((us @ [d]) @ ws))) else Found (int (off ((us @ [d]) @ ws))))" by auto
      show ?thesis unfolding add Some option.map option.case go W(4)
        by (rule exI [of _ "d # ws"], rule exI [of _ xs]) (use W(1-3) in simp)
    qed
  qed
qed

lemma add_dirent_rep:
  assumes r: "dir_rep sb dir ds" and nm: "0 \<notin> set nm" "length nm < 2 ^ 30" and nr: "0 \<le> nr" "is_s32 nr"
    and b: "off ds + off [new_entry nm nr] < 2 ^ 31"
  shows "case dir_add (new_entry nm nr) ds of
      None \<Rightarrow> testfs_add_dirent sb dir nm nr = Ok (- EEXIST, dir, sb)
    | Some ds' \<Rightarrow> \<exists>ret dir' sb'. testfs_add_dirent sb dir nm nr = Ok (ret, dir', sb') \<and>
        super_inv sb' \<and> file_ok sb' (din dir') \<and> keeps_foreign sb (din dir) sb' (din dir') \<and> same_id dir dir' \<and> i_flags dir' \<in> {i_flags dir, i_flags dir OR I_FLAGS_DIRTY} \<and>
        (ret = int (off [new_entry nm nr]) \<and> dir_rep sb' dir' ds' \<and> i_flags dir' = i_flags dir OR I_FLAGS_DIRTY \<or>
         ret = - ENOSPC \<and> \<not> room sb' 3 \<and> i_size (din dir') \<le> int (off ds + off [new_entry nm nr]))"
proof (cases "dir_add (new_entry nm nr) ds")
  case None
  with add_scan_rep [OF nm(1), of sb dir "[]" ds nr] r dir_repD(3) [OF r] show ?thesis
    by (simp add: testfs_add_dirent_def testfs_inode_get_type_def)
next
  case (Some ds')
  let ?e = "new_entry nm nr"
  have "dir_rep sb dir ([] @ ds)" using r by simp
  from add_scan_rep [OF nm(1) this, of nr, unfolded Some option.case append.append_Nil off_simps int_ops(1)] obtain us vs where
    S: "ds = us @ vs" "ds' = us @ ?e # tl vs" "vs \<noteq> [] \<longrightarrow> length (d_name (hd vs)) = Suc (length nm)"
      "add_scan sb dir nm (int (length nm) + 1) 0 = Ok (if vs = [] then Full (int (off us)) else Found (int (off us)))"
    by (elim exE conjE)
  have e: "dent_ok ?e" using new_entry_ok nm nr by blast
  have ub: "off us + off [?e] < 2 ^ 31" using b S(1) by simp
  have len: "off [?e] = sizeof_dirent + nat (int (length nm) + 1)" by (simp add: new_entry_def sizeof_dirent_def nat_add_distrib)
  have "testfs_add_dirent sb dir nm nr = testfs_write_dirent sb dir nm (int (length nm) + 1) nr (int (off us))"
    using S dir_repD(3,4) [OF r] by (auto simp: testfs_add_dirent_def testfs_inode_get_type_def testfs_inode_get_size_def)
  also have "\<dots> = testfs_write_data sb dir (dirent_bytes ?e) (int (off us)) (off [?e])"
    using nr(1) ub sint_word_of_int_s32 [of "int (off us)"] unfolding len
    by (simp add: testfs_write_dirent_def is_s32_def new_entry_def [symmetric])
  finally have eq: "testfs_add_dirent sb dir nm nr = testfs_write_data sb dir (dirent_bytes ?e) (int (off us)) (off [?e])" .
  have "vs = [] \<or> length (d_name (hd vs)) = length (d_name ?e)" using S(3) by (auto simp: new_entry_def)
  from write_entry [OF r [unfolded S(1)] e this ub] show ?thesis
    unfolding eq Some option.case unfolding S(2) unfolding S(1) .
qed

lemma dir_add_lookup:
  assumes "dir_add (new_entry nm nr) ds = Some ds'" and "0 \<le> nr"
  shows "dir_lookup ds' nm = nr" and "n \<noteq> nm \<Longrightarrow> dir_lookup ds' n = dir_lookup ds n"
  using assms
  by (induction ds arbitrary: ds') (auto simp: dir_lookup_def live_name_def new_entry_def split: if_splits)

lemma dir_add_absent: "find (live_name nm) ds = None \<Longrightarrow> dir_add (new_entry nm nr) ds \<noteq> None"
  by (induction ds) (auto simp: live_name_def new_entry_def split: if_splits)

lemma dir_add_present:
  "find (live_name nm) ds \<noteq> None \<Longrightarrow> \<forall>d \<in> set ds. d_inode_nr d < 0 \<longrightarrow> length (d_name d) \<noteq> Suc (length nm) \<Longrightarrow> dir_add (new_entry nm nr) ds = None"
  by (induction ds) (auto simp: live_name_def new_entry_def split: if_splits)

lemma dir_lookup_neg: "dir_lookup ds nm < 0 \<longleftrightarrow> find (live_name nm) ds = None"
proof (cases "find (live_name nm) ds")
  case (Some d)
  then have "live_name nm d" by (auto simp: find_Some_iff)
  with Some show ?thesis by (simp add: dir_lookup_def live_name_def)
qed (simp add: dir_lookup_def ENOENT_def)

section \<open>The properties\<close>

text \<open>A directory without entries, and one with the entry of itself.\<close>

definition empty_dir :: "int \<Rightarrow> inode" where
  "empty_dir nr = (new_inode nr)\<lparr>din := zero_dinode\<lparr>i_type := int_of_type I_DIR\<rparr>\<rparr>"

lemma bmap_i_type [simp]: "bmap d (di\<lparr>i_type := t\<rparr>) l = bmap d di l"
  by (simp add: bmap_def)

lemma slot_val_i_type [simp]: "slot_val d (di\<lparr>i_type := t\<rparr>) = slot_val d di"
proof
  show "slot_val d (di\<lparr>i_type := t\<rparr>) s = slot_val d di s" for s by (cases s) simp_all
qed

lemma live_i_type [simp]: "live d (di\<lparr>i_type := t\<rparr>) = live d di" "owned d (di\<lparr>i_type := t\<rparr>) = owned d di"
  "fbyte d (di\<lparr>i_type := t\<rparr>) = fbyte d di" "foreign sb (di\<lparr>i_type := t\<rparr>) = foreign sb di"
  by (simp_all add: live_def owned_def fbyte_def block_data_def foreign_def fun_eq_iff)

lemma file_ok_i_type [simp]: "file_ok sb (di\<lparr>i_type := t\<rparr>) = file_ok sb di"
  by (simp add: file_ok_def map_wf_def covered_def)

lemma dir_rep_empty: "dir_rep (empty_fs m) (empty_dir nr) []"
  by (simp add: dir_rep_def empty_dir_def super_inv_empty_fs file_ok_zero_dinode file_bytes_def) (simp add: zero_dinode_def)

lemma first_entry:
  "\<exists>dir sb. testfs_add_dirent (empty_fs 10) (empty_dir 1) [46] 1 = Ok (10, dir, sb) \<and> dir_rep sb dir [new_entry [46] 1]"
proof -
  have r: "dir_rep (empty_fs 10) (empty_dir 1) []" by (rule dir_rep_empty)
  note A = add_dirent_rep [OF r, of "[46]" 1]
  have wf: "map_wf {} (empty_fs 10) (din (empty_dir 1))" using dir_repD(2) [OF r] by (simp add: file_ok_def)
  have "room (empty_fs 10) 3" using used_blocks_empty_fs [of 10] by (simp add: room_def del: card_used_blocks)
  from write_one_block [OF super_inv_empty_fs wf this, of "dirent_bytes (new_entry [46] 1)" 0] obtain dir sb where
    "testfs_write_data (empty_fs 10) (empty_dir 1) (dirent_bytes (new_entry [46] 1)) 0 10 = Ok (10, dir, sb)"
    by (auto simp: BLOCK_SIZE_def dirent_bytes_def new_entry_def)
  moreover have "testfs_add_dirent (empty_fs 10) (empty_dir 1) [46] 1 =
      testfs_write_data (empty_fs 10) (empty_dir 1) (dirent_bytes (new_entry [46] 1)) 0 10"
    by (subst testfs_add_dirent_def, subst add_scan.simps)
      (simp add: testfs_next_dirent_def testfs_inode_get_type_def testfs_inode_get_size_def empty_dir_def zero_dinode_def
        testfs_write_dirent_def new_entry_def sizeof_dirent_def)
  ultimately show ?thesis using A by (auto simp: new_entry_def is_s32_def ENOSPC_def)
qed

text \<open>
  Looking a name up. In a directory whose file holds the entries \<open>ds\<close>, \<open>testfs_dir_name_to_inode_nr\<close>
  returns the inode number of the first entry in use with that name and \<open>-ENOENT\<close> when there is none; it never
  fails an assertion and never reads outside an entry.
\<close>

theorem testfs_dir_name_to_inode_nr_correct:
  assumes "dir_rep sb dir ds" and "0 \<notin> set nm"
  shows "testfs_dir_name_to_inode_nr sb dir nm = Ok (dir_lookup ds nm)"
  using name_from_rep [of sb dir "[]" ds nm] assms dir_repD(3) [OF assms(1)]
  by (simp add: testfs_dir_name_to_inode_nr_def testfs_inode_get_type_def)

theorem testfs_dir_name_to_inode_nr_correct_witness:
  "\<exists>dir sb. dir_rep sb dir [new_entry [46] 1] \<and> testfs_dir_name_to_inode_nr sb dir [46] = Ok 1 \<and>
     testfs_dir_name_to_inode_nr sb dir [46, 46] = Ok (- 2)"
proof -
  from first_entry obtain dir sb where r: "dir_rep sb dir [new_entry [46] 1]" by blast
  with testfs_dir_name_to_inode_nr_correct [OF r, of "[46]"] testfs_dir_name_to_inode_nr_correct [OF r, of "[46, 46]"] show ?thesis
    by (intro exI [of _ dir] exI [of _ sb]) (simp add: dir_lookup_def live_name_def new_entry_def ENOENT_def)
qed

text \<open>
  Adding an entry. When the name is not in use, \<open>testfs_add_dirent\<close> writes the entry into the first free entry of the same
  name length, or behind the last one, and returns the number of bytes written: a
  lookup of the name then finds the new inode number, lookups of other names are unchanged and the directory is dirty;
  it fails only with \<open>-ENOSPC\<close>, when fewer than three blocks are free. When the name is in use and no free entry has its length,
  it returns \<open>-EEXIST\<close> and changes nothing. In every case no block of another file or of the inode table changes.
\<close>

theorem testfs_add_dirent_correct:
  assumes r: "dir_rep sb dir ds" and nm: "0 \<notin> set nm" "length nm < 2 ^ 30" and nr: "0 \<le> nr" "is_s32 nr"
    and b: "off ds + length nm + 9 < 2 ^ 31"
  shows "\<exists>ret dir' sb'. testfs_add_dirent sb dir nm nr = Ok (ret, dir', sb') \<and>
    keeps_foreign sb (din dir) sb' (din dir') \<and> same_id dir dir' \<and>
    (dir_lookup ds nm < 0 \<longrightarrow>
       ret = int (length nm) + 9 \<and> i_flags dir' = i_flags dir OR I_FLAGS_DIRTY \<and>
       (\<exists>ds'. dir_rep sb' dir' ds' \<and> dir_lookup ds' nm = nr \<and> (\<forall>n. n \<noteq> nm \<longrightarrow> dir_lookup ds' n = dir_lookup ds n)) \<or>
       ret = - ENOSPC \<and> \<not> room sb' 3) \<and>
    (0 \<le> dir_lookup ds nm \<and> (\<forall>d \<in> set ds. d_inode_nr d < 0 \<longrightarrow> length (d_name d) \<noteq> Suc (length nm)) \<longrightarrow>
       ret = - EEXIST \<and> dir' = dir \<and> sb' = sb)"
proof -
  have b': "off ds + off [new_entry nm nr] < 2 ^ 31" using b by (simp add: new_entry_def)
  note A = add_dirent_rep [OF r nm nr b']
  show ?thesis
  proof (cases "dir_add (new_entry nm nr) ds")
    case None
    then have "\<not> dir_lookup ds nm < 0" using dir_lookup_neg [of ds nm] dir_add_absent [of nm ds nr] by auto
    with None A show ?thesis by (auto simp: same_id_def)
  next
    case (Some ds')
    then have no: "\<not> (0 \<le> dir_lookup ds nm \<and> (\<forall>d \<in> set ds. d_inode_nr d < 0 \<longrightarrow> length (d_name d) \<noteq> Suc (length nm)))"
      using dir_lookup_neg [of ds nm] dir_add_present [of nm ds nr] by auto
    have len: "int (off [new_entry nm nr]) = int (length nm) + 9" by (simp add: new_entry_def)
    from A [unfolded Some option.case len] obtain ret dir' sb' where W:
      "testfs_add_dirent sb dir nm nr = Ok (ret, dir', sb')" "keeps_foreign sb (din dir) sb' (din dir')" "same_id dir dir'"
      "ret = int (length nm) + 9 \<and> dir_rep sb' dir' ds' \<and> i_flags dir' = i_flags dir OR I_FLAGS_DIRTY \<or>
       ret = - ENOSPC \<and> \<not> room sb' 3 \<and> i_size (din dir') \<le> int (off ds + off [new_entry nm nr])"
      by (elim exE conjE)
    with no dir_add_lookup [OF Some nr(1)] show ?thesis by (intro exI [of _ ret] exI [of _ dir'] exI [of _ sb']) auto
  qed
qed

theorem testfs_add_dirent_correct_witness:
  "\<exists>dir sb dir' sb' ret. dir_rep sb dir [new_entry [46] 1] \<and> testfs_add_dirent sb dir [46, 46] 0 = Ok (ret, dir', sb') \<and>
     keeps_foreign sb (din dir) sb' (din dir') \<and> (ret = 11 \<or> ret = - 28)"
proof -
  from first_entry obtain dir sb where r: "dir_rep sb dir [new_entry [46] 1]" by blast
  have "dir_lookup [new_entry [46] 1] [46, 46] < 0" by (simp add: dir_lookup_def live_name_def new_entry_def ENOENT_def)
  moreover have "off [new_entry [46] 1] + length ([46, 46] :: byte list) + 9 < 2 ^ 31" by (simp add: new_entry_def)
  ultimately obtain ret dir' sb' where "testfs_add_dirent sb dir [46, 46] 0 = Ok (ret, dir', sb')"
    "keeps_foreign sb (din dir) sb' (din dir')" "ret = 11 \<or> ret = - 28"
    using testfs_add_dirent_correct [OF r, of "[46, 46]" 0] by (auto simp: is_s32_def ENOSPC_def)
  with r show ?thesis by blast
qed

end
