(* ===== verification/FS_FileFree.thy ===== *)
theory FS_FileFree
  imports FS_FileData
begin

text \<open>
  Releasing a file: \<^verbatim>\<open>testfs_free_blocks\<close> walks the direct, indirect and doubly indirect blocks up
  to the size of the file. On a consistent file it frees exactly what the file owns, each block
  once, and its assertions hold.
\<close>

section \<open>Releasing a set of blocks\<close>

definition freed :: "nat set \<Rightarrow> super_block \<Rightarrow> inode \<Rightarrow> super_block \<Rightarrow> inode \<Rightarrow> bool" where
  "freed B sb inn sb' inn' \<longleftrightarrow> super_inv sb' \<and> B \<subseteq> used_blocks sb \<and> used_blocks sb' = used_blocks sb - B \<and> fs_frame B sb sb' \<and>
     din inn' = (din inn)\<lparr>block_count := block_count (din inn) - int (card B)\<rparr> \<and> i_nr inn' = i_nr inn \<and> i_count inn' = i_count inn \<and>
     i_flags inn' \<in> {i_flags inn, i_flags inn OR I_FLAGS_DIRTY}"

lemma freed_refl: "super_inv sb \<Longrightarrow> freed {} sb inn sb inn"
  by (simp add: freed_def)

lemma freed_trans:
  assumes "super_inv sb" and "freed B sb inn sb1 inn1" and "freed C sb1 inn1 sb2 inn2"
  shows "freed (B \<union> C) sb inn sb2 inn2"
proof -
  note F = assms(2) [unfolded freed_def] and G = assms(3) [unfolded freed_def]
  have disj: "B \<inter> C = {}" and C: "C \<subseteq> used_blocks sb" using F G by auto
  have "finite B" "finite C" using F C finite_used_blocks [OF assms(1)] finite_subset by blast+
  then have "int (card (B \<union> C)) = int (card B) + int (card C)" using disj by (simp add: card_Un_disjoint)
  then show ?thesis using F G C fs_frame_trans [of B sb sb1 C sb2] by (auto simp: freed_def)
qed

lemma freed_block:
  assumes "super_inv sb" and "p \<in> used_blocks sb"
  obtains sb' where "\<forall>inn. testfs_free_block_from_inode sb inn (int p) = Ok (counted inn (- 1), sb')"
    "\<forall>inn. freed {p} sb inn sb' (counted inn (- 1))"
proof -
  obtain sb' where sb': "\<forall>inn. testfs_free_block_from_inode sb inn (int p) = Ok (counted inn (- 1), sb')"
    "super_inv sb'" "used_blocks sb' = used_blocks sb - {p}" "fs_frame {p} sb sb'" "p < dlen (dev sb')"
    by (rule free_from_inode_used [OF assms])
  then show thesis using assms(2) by (intro that [of sb']) (auto simp: freed_def)
qed

section \<open>The loops\<close>

definition entries :: "arr \<Rightarrow> nat \<Rightarrow> nat \<Rightarrow> nat set" where
  "entries block i n = (\<lambda>k. nat (get_int block (int k))) ` {k. i \<le> k \<and> k < n \<and> get_int block (int k) \<noteq> 0}"

lemma entries_step:
  "i < n \<Longrightarrow> entries block i n =
    (if get_int block (int i) = 0 then entries block (Suc i) n else insert (nat (get_int block (int i))) (entries block (Suc i) n))"
proof -
  assume "i < n"
  then have "{k. i \<le> k \<and> k < n \<and> get_int block (int k) \<noteq> 0} =
    (if get_int block (int i) = 0 then {} else {i}) \<union> {k. Suc i \<le> k \<and> k < n \<and> get_int block (int k) \<noteq> 0}"
    by (auto simp: le_eq_less_or_eq Suc_le_eq)
  then show ?thesis by (simp add: entries_def)
qed

lemma entries_done: "n \<le> i \<Longrightarrow> entries block i n = {}"
  by (auto simp: entries_def)

definition distinct_entries :: "arr \<Rightarrow> bool" where
  "distinct_entries block \<longleftrightarrow> inj_on (\<lambda>k. get_int block (int k)) {k. k < 2048 \<and> get_int block (int k) \<noteq> 0} \<and>
     (\<forall>k < 2048. 0 \<le> get_int block (int k))"

lemma entry_not_later:
  assumes "distinct_entries block" and "i < 2048" and "get_int block (int i) \<noteq> 0" and "n \<le> 2048"
  shows "nat (get_int block (int i)) \<notin> entries block (Suc i) n"
proof
  assume "nat (get_int block (int i)) \<in> entries block (Suc i) n"
  then obtain k where k: "Suc i \<le> k" "k < n" "get_int block (int k) \<noteq> 0"
    "nat (get_int block (int i)) = nat (get_int block (int k))" by (auto simp: entries_def)
  moreover have "0 \<le> get_int block (int i)" "0 \<le> get_int block (int k)"
    using assms k(2) by (simp_all add: distinct_entries_def)
  ultimately have "get_int block (int i) = get_int block (int k)" by simp
  with assms k have "i = k" by (intro inj_onD [of "\<lambda>k. get_int block (int k)" "{k. k < 2048 \<and> get_int block (int k) \<noteq> 0}"]) (auto simp: distinct_entries_def)
  with k(1) show False by simp
qed

lemma free_entries_spec:
  "\<lbrakk>super_inv sb; distinct_entries block; n = min (nat e) 2048; entries block i n \<subseteq> used_blocks sb\<rbrakk> \<Longrightarrow>
   \<exists>inn' sb'. free_entries sb inn block e i = Ok (inn', sb') \<and> freed (entries block i n) sb inn sb' inn'"
proof (induction "2048 - i" arbitrary: i sb inn)
  case 0
  then show ?case by (subst free_entries.simps) (simp add: fs_consts entries_done freed_refl)
next
  case (Suc d)
  note prems = Suc.prems
  show ?case
  proof (cases "i < n")
    case False
    then have "\<not> (int i < e \<and> int i < NR_INDIRECT_BLOCKS)" using prems(3) by (auto simp: fs_consts)
    then have "free_entries sb inn block e i = Ok (inn, sb)" by (subst free_entries.simps) (rule if_not_P)
    then show ?thesis using False prems(1) by (simp add: entries_done freed_refl)
  next
    case True
    then have run: "int i < e" "int i < NR_INDIRECT_BLOCKS" "i < 2048" using prems(3) by (auto simp: fs_consts)
    have d: "d = 2048 - Suc i" using Suc(2) by simp
    show ?thesis
    proof (cases "get_int block (int i) = 0")
      case zero: True
      have "entries block i n = entries block (Suc i) n" using True zero by (simp add: entries_step)
      moreover have "free_entries sb inn block e i = free_entries sb inn block e (Suc i)"
        using run zero by (subst free_entries.simps) simp
      ultimately show ?thesis using Suc.hyps(1) [OF d prems(1-3), of inn] prems(4) by simp
    next
      case nz: False
      define p where "p = nat (get_int block (int i))"
      have p: "get_int block (int i) = int p" using prems(2) run(3) by (simp add: distinct_entries_def p_def)
      have ent: "entries block i n = insert p (entries block (Suc i) n)" using True nz by (simp add: entries_step p_def)
      then have "p \<in> used_blocks sb" using prems(4) by simp
      then obtain sb1 where sb1: "\<forall>inn. testfs_free_block_from_inode sb inn (int p) = Ok (counted inn (- 1), sb1)"
        "\<forall>inn. freed {p} sb inn sb1 (counted inn (- 1))" by (rule freed_block [OF prems(1)])
      have "p \<notin> entries block (Suc i) n"
        using entry_not_later [OF prems(2) run(3) nz] prems(3) by (simp add: p_def)
      with sb1(2) ent prems(4) have "entries block (Suc i) n \<subseteq> used_blocks sb1" "super_inv sb1" by (auto simp: freed_def)
      from Suc.hyps(1) [OF d this(2) prems(2,3) this(1)] obtain inn' sb' where
        rest: "free_entries sb1 (counted inn (- 1)) block e (Suc i) = Ok (inn', sb')"
          "freed (entries block (Suc i) n) sb1 (counted inn (- 1)) sb' inn'" by blast
      have "free_entries sb inn block e i = Ok (inn', sb')"
        using run nz p sb1(1) rest(1) by (subst free_entries.simps) simp
      moreover have "freed (entries block i n) sb inn sb' inn'"
        using freed_trans [OF prems(1) spec [OF sb1(2)] rest(2)] ent by simp
      ultimately show ?thesis by blast
    qed
  qed
qed

definition direct_blocks :: "int list \<Rightarrow> nat \<Rightarrow> nat \<Rightarrow> nat set" where
  "direct_blocks bs i n = (\<lambda>k. nat (bs ! k)) ` {k. i \<le> k \<and> k < n \<and> bs ! k \<noteq> 0}"

definition zero_from :: "int list \<Rightarrow> nat \<Rightarrow> nat \<Rightarrow> int list" where
  "zero_from bs i n = map (\<lambda>k. if i \<le> k \<and> k < n then 0 else bs ! k) [0..<length bs]"

lemma direct_blocks_step:
  assumes "i < n"
  shows "direct_blocks bs i n = (if bs ! i = 0 then {} else {nat (bs ! i)}) \<union> direct_blocks bs (Suc i) n"
proof -
  have "{k. i \<le> k \<and> k < n \<and> bs ! k \<noteq> 0} = (if bs ! i = 0 then {} else {i}) \<union> {k. Suc i \<le> k \<and> k < n \<and> bs ! k \<noteq> 0}"
    using assms by (auto simp: le_eq_less_or_eq Suc_le_eq)
  then show ?thesis by (simp add: direct_blocks_def)
qed

lemma direct_blocks_update: "i < k \<Longrightarrow> direct_blocks (bs[i := x]) k n = direct_blocks bs k n"
  by (auto simp: direct_blocks_def nth_list_update image_def)

lemma zero_from_step:
  "i < n \<Longrightarrow> i < length bs \<Longrightarrow> zero_from bs i n = zero_from (bs[i := 0]) (Suc i) n"
  by (rule nth_equalityI) (auto simp: zero_from_def nth_list_update le_eq_less_or_eq Suc_le_eq)

lemma zero_from_done: "n \<le> i \<Longrightarrow> zero_from bs i n = bs"
  by (rule nth_equalityI) (auto simp: zero_from_def)

definition set_block_nr :: "inode \<Rightarrow> int list \<Rightarrow> inode" where
  "set_block_nr inn bs = inn\<lparr>din := (din inn)\<lparr>i_block_nr := bs\<rparr>\<rparr>"

lemma set_block_nr_same [simp]: "set_block_nr inn (i_block_nr (din inn)) = inn"
  by (simp add: set_block_nr_def)

lemma free_direct_spec:
  "\<lbrakk>super_inv sb; length (i_block_nr (din inn)) = 10; \<forall>k < 10. 0 \<le> i_block_nr (din inn) ! k;
    inj_on ((!) (i_block_nr (din inn))) {k. i \<le> k \<and> k < 10 \<and> i_block_nr (din inn) ! k \<noteq> 0};
    n = min (nat e) 10; direct_blocks (i_block_nr (din inn)) i n \<subseteq> used_blocks sb\<rbrakk> \<Longrightarrow>
   \<exists>inn' sb'. free_direct sb inn e i = Ok (set_block_nr inn' (zero_from (i_block_nr (din inn)) i n), sb') \<and>
     freed (direct_blocks (i_block_nr (din inn)) i n) sb inn sb' inn'"
proof (induction "10 - i" arbitrary: i sb inn)
  case 0
  then have "direct_blocks (i_block_nr (din inn)) i n = {}" "zero_from (i_block_nr (din inn)) i n = i_block_nr (din inn)"
    by (auto simp: direct_blocks_def zero_from_done)
  moreover have "free_direct sb inn e i = Ok (inn, sb)" using 0 by (subst free_direct.simps) (simp add: fs_consts)
  ultimately show ?case using 0 freed_refl [OF \<open>super_inv sb\<close>, of inn] by (intro exI [of _ inn] exI [of _ sb]) simp
next
  case (Suc d)
  note prems = Suc.prems
  let ?bs = "i_block_nr (din inn)"
  show ?case
  proof (cases "i < n")
    case False
    then have "\<not> (int i < e \<and> int i < NR_DIRECT_BLOCKS)" using prems(5) by (auto simp: fs_consts)
    then have "free_direct sb inn e i = Ok (inn, sb)" by (subst free_direct.simps) (rule if_not_P)
    moreover have "direct_blocks ?bs i n = {}" using False by (auto simp: direct_blocks_def)
    ultimately show ?thesis using False freed_refl [OF prems(1), of inn]
      by (intro exI [of _ inn] exI [of _ sb]) (simp add: zero_from_done)
  next
    case True
    then have run: "int i < e" "int i < NR_DIRECT_BLOCKS" "i < 10" using prems(5) by (auto simp: fs_consts)
    have d: "d = 10 - Suc i" using Suc(2) by simp
    have step: "direct_blocks ?bs i n = (if ?bs ! i = 0 then {} else {nat (?bs ! i)}) \<union> direct_blocks ?bs (Suc i) n"
      by (rule direct_blocks_step [OF True])
    have inj: "inj_on ((!) ?bs) {k. Suc i \<le> k \<and> k < 10 \<and> ?bs ! k \<noteq> 0}" using prems(4) by (rule inj_on_subset) auto
    show ?thesis
    proof (cases "?bs ! i = 0")
      case zero: True
      have "free_direct sb inn e i = free_direct sb inn e (Suc i)" using run zero by (subst free_direct.simps) simp
      moreover have "zero_from ?bs i n = zero_from ?bs (Suc i) n"
        using zero_from_step [OF True, of ?bs] run(3) prems(2) zero list_update_id [of ?bs i] by simp
      ultimately show ?thesis
        using Suc.hyps(1) [OF d prems(1-3) inj prems(5)] prems(6) step zero by simp
    next
      case nz: False
      define p where "p = nat (?bs ! i)"
      have p: "?bs ! i = int p" using prems(3) run(3) by (simp add: p_def)
      have "p \<in> used_blocks sb" using prems(6) step nz by (simp add: p_def)
      then obtain sb1 where sb1: "\<forall>inn. testfs_free_block_from_inode sb inn (int p) = Ok (counted inn (- 1), sb1)"
        "\<forall>inn. freed {p} sb inn sb1 (counted inn (- 1))" by (rule freed_block [OF prems(1)])
      define inn1 where "inn1 = set_block_nr (counted inn (- 1)) (?bs[i := 0])"
      have bs1: "i_block_nr (din inn1) = ?bs[i := 0]" by (simp add: inn1_def set_block_nr_def)
      have inj1: "inj_on ((!) (i_block_nr (din inn1))) {k. Suc i \<le> k \<and> k < 10 \<and> i_block_nr (din inn1) ! k \<noteq> 0}"
        unfolding bs1 using inj by (auto simp: inj_on_def nth_list_update)
      have pn: "p \<notin> direct_blocks ?bs (Suc i) n"
      proof
        assume "p \<in> direct_blocks ?bs (Suc i) n"
        then obtain k where k: "Suc i \<le> k" "k < n" "?bs ! k \<noteq> 0" "p = nat (?bs ! k)" by (auto simp: direct_blocks_def)
        then have "k < 10" "?bs ! k = ?bs ! i" using prems(3,5) p by (auto simp: min_def split: if_splits)
        with k nz run(3) have "k = i" by (intro inj_onD [OF prems(4)]) auto
        with k(1) show False by simp
      qed
      have sub: "direct_blocks (i_block_nr (din inn1)) (Suc i) n \<subseteq> used_blocks sb1"
        unfolding bs1 using prems(6) step pn sb1(2) by (auto simp: direct_blocks_update freed_def)
      have inv1: "super_inv sb1" using sb1(2) by (simp add: freed_def)
      have len1: "length (i_block_nr (din inn1)) = 10" unfolding bs1 using prems(2) by simp
      have nn: "\<forall>k < 10. 0 \<le> i_block_nr (din inn1) ! k"
        unfolding bs1 using prems(2,3) run(3) by (metis nth_list_update order_refl)
      from Suc.hyps(1) [OF d inv1 len1 nn inj1 prems(5) sub] obtain inn' sb' where
        rest: "free_direct sb1 inn1 e (Suc i) = Ok (set_block_nr inn' (zero_from (?bs[i := 0]) (Suc i) n), sb')"
          "freed (direct_blocks ?bs (Suc i) n) sb1 inn1 sb' inn'"
        unfolding bs1 direct_blocks_update [OF lessI] by blast
      define inn2 where "inn2 = set_block_nr inn' ?bs"
      have "freed (direct_blocks ?bs (Suc i) n) sb1 (counted inn (- 1)) sb' inn2"
        using rest(2) by (simp add: freed_def inn1_def inn2_def set_block_nr_def)
      from freed_trans [OF prems(1) spec [OF sb1(2)] this]
      have "freed (direct_blocks ?bs i n) sb inn sb' inn2" using step nz by (simp add: p_def)
      moreover have "free_direct sb inn e i = Ok (set_block_nr inn2 (zero_from ?bs i n), sb')"
        using run nz p sb1(1) rest(1) zero_from_step [OF True, of ?bs] prems(2)
        by (subst free_direct.simps) (simp add: inn1_def inn2_def set_block_nr_def)
      ultimately show ?thesis by blast
    qed
  qed
qed

section \<open>The doubly indirect loop\<close>

text \<open>
  The blocks the loop releases from entry \<open>i\<close> on, when \<open>e\<close> logical blocks are left: the entries of
  each block below the doubly indirect one, and that block.
\<close>

definition dind_blocks :: "device \<Rightarrow> arr \<Rightarrow> int \<Rightarrow> nat \<Rightarrow> nat set" where
  "dind_blocks d did e i = (\<Union>k \<in> {k. i \<le> k \<and> k < 2048 \<and> int (2048 * (k - i)) < e \<and> get_int did (int k) \<noteq> 0}.
     insert (nat (get_int did (int k))) (entries (dblk d (nat (get_int did (int k)))) 0 (min (nat (e - int (2048 * (k - i)))) 2048)))"

lemma dind_blocks_step:
  assumes "i < 2048" and "0 < e"
  shows "dind_blocks d did e i =
    (if get_int did (int i) = 0 then {} else insert (nat (get_int did (int i))) (entries (dblk d (nat (get_int did (int i)))) 0 (min (nat e) 2048)))
    \<union> dind_blocks d did (e - 2048) (Suc i)"
proof -
  let ?K = "\<lambda>e i. {k. i \<le> k \<and> k < 2048 \<and> int (2048 * (k - i)) < e \<and> get_int did (int k) \<noteq> 0}"
  let ?G = "\<lambda>e i k. insert (nat (get_int did (int k)))
    (entries (dblk d (nat (get_int did (int k)))) 0 (min (nat (e - int (2048 * (k - i)))) 2048))"
  have shift: "int (2048 * (k - i)) = 2048 + int (2048 * (k - Suc i))" if "Suc i \<le> k" for k using that by simp
  have "?K e i = (if get_int did (int i) = 0 then {} else {i}) \<union> ?K (e - 2048) (Suc i)"
  proof (rule set_eqI)
    fix k
    show "k \<in> ?K e i \<longleftrightarrow> k \<in> (if get_int did (int i) = 0 then {} else {i}) \<union> ?K (e - 2048) (Suc i)"
    proof (cases "k = i")
      case False
      then have "i \<le> k \<longleftrightarrow> Suc i \<le> k" by auto
      with False shift [of k] show ?thesis by auto
    qed (use assms in auto)
  qed
  then have "dind_blocks d did e i = (if get_int did (int i) = 0 then {} else ?G e i i) \<union> (\<Union>k \<in> ?K (e - 2048) (Suc i). ?G e i k)"
    unfolding dind_blocks_def by (simp only: UN_Un) simp
  also have "(\<Union>k \<in> ?K (e - 2048) (Suc i). ?G e i k) = dind_blocks d did (e - 2048) (Suc i)"
    unfolding dind_blocks_def
  proof (intro SUP_cong refl)
    fix k assume "k \<in> ?K (e - 2048) (Suc i)"
    then have "e - int (2048 * (k - i)) = e - 2048 - int (2048 * (k - Suc i))" using shift [of k] by simp
    then show "?G e i k = ?G (e - 2048) (Suc i) k" by (simp only:)
  qed
  finally show ?thesis by simp
qed

lemma dind_blocks_done: "e \<le> 0 \<or> 2048 \<le> i \<Longrightarrow> dind_blocks d did e i = {}"
  by (auto simp: dind_blocks_def)

lemma dind_blocks_cong:
  assumes "\<And>k. i \<le> k \<Longrightarrow> k < 2048 \<Longrightarrow> get_int did (int k) \<noteq> 0 \<Longrightarrow>
    dblk d' (nat (get_int did (int k))) = dblk d (nat (get_int did (int k)))"
  shows "dind_blocks d' did e i = dind_blocks d did e i"
  unfolding dind_blocks_def using assms by (intro SUP_cong) auto

text \<open>
  What the loop relies on from entry \<open>i\<close> on: the blocks below the doubly indirect one can be read, their
  entries are distinct, and no two of them share a block.
\<close>

definition dind_ok :: "super_block \<Rightarrow> arr \<Rightarrow> nat \<Rightarrow> bool" where
  "dind_ok sb did i \<longleftrightarrow> (\<forall>k. i \<le> k \<and> k < 2048 \<and> get_int did (int k) \<noteq> 0 \<longrightarrow>
     (let p = nat (get_int did (int k)); es = entries (dblk (dev sb) p) 0 2048 in
      0 < get_int did (int k) \<and> p \<in> used_blocks sb \<and> p < dlen (dev sb) \<and> distinct_entries (dblk (dev sb) p) \<and>
      es \<subseteq> used_blocks sb \<and> p \<notin> es \<and>
      (\<forall>j. i \<le> j \<and> j < k \<and> get_int did (int j) \<noteq> 0 \<longrightarrow>
         insert (nat (get_int did (int j))) (entries (dblk (dev sb) (nat (get_int did (int j)))) 0 2048) \<inter> insert p es = {})))"

lemma entries_mono: "n \<le> m \<Longrightarrow> entries block i n \<subseteq> entries block i m"
  by (auto simp: entries_def)

lemma dind_okD:
  assumes "dind_ok sb did i" and "i \<le> k" "k < 2048" "get_int did (int k) \<noteq> 0"
  defines "p \<equiv> nat (get_int did (int k))"
  shows "0 < get_int did (int k)" "p \<in> used_blocks sb" "p < dlen (dev sb)" "distinct_entries (dblk (dev sb) p)"
    "entries (dblk (dev sb) p) 0 2048 \<subseteq> used_blocks sb" "p \<notin> entries (dblk (dev sb) p) 0 2048"
    "i \<le> j \<Longrightarrow> j < k \<Longrightarrow> get_int did (int j) \<noteq> 0 \<Longrightarrow>
      insert (nat (get_int did (int j))) (entries (dblk (dev sb) (nat (get_int did (int j)))) 0 2048) \<inter> insert p (entries (dblk (dev sb) p) 0 2048) = {}"
  using assms(1-4) unfolding dind_ok_def Let_def p_def by blast+

lemma dind_ok_frame:
  assumes ok: "dind_ok sb did i" and inv: "super_inv sb" and i: "i \<le> i'" and fr: "freed B sb inn sb' inn'"
    and notB: "\<And>k. i' \<le> k \<Longrightarrow> k < 2048 \<Longrightarrow> get_int did (int k) \<noteq> 0 \<Longrightarrow>
      insert (nat (get_int did (int k))) (entries (dblk (dev sb) (nat (get_int did (int k)))) 0 2048) \<inter> B = {}"
  shows "dind_ok sb' did i'"
    "\<And>k. i' \<le> k \<Longrightarrow> k < 2048 \<Longrightarrow> get_int did (int k) \<noteq> 0 \<Longrightarrow>
      dblk (dev sb') (nat (get_int did (int k))) = dblk (dev sb) (nat (get_int did (int k)))"
proof -
  note F = fr [unfolded freed_def]
  let ?p = "\<lambda>k. nat (get_int did (int k))"
  show same: "dblk (dev sb') (?p k) = dblk (dev sb) (?p k)" if k: "i' \<le> k" "k < 2048" "get_int did (int k) \<noteq> 0" for k
  proof (rule fs_frameD [of B])
    have "?p k \<in> used_blocks sb" using dind_okD(2) [OF ok] i k by simp
    then show "18 \<le> ?p k" using used_blocks_bound(1) [OF inv] by (fastforce simp: fs_consts)
    show "?p k \<notin> B" using notB [OF k] by auto
  qed (use F in simp)
  have len: "dlen (dev sb) \<le> dlen (dev sb')" using F fs_frame_dlen by auto
  show "dind_ok sb' did i'"
    unfolding dind_ok_def Let_def
  proof (intro allI impI)
    fix k assume k: "i' \<le> k \<and> k < 2048 \<and> get_int did (int k) \<noteq> 0"
    then have ik: "i \<le> k" using i by simp
    note D = dind_okD [OF ok ik]
    have E: "dblk (dev sb') (?p k) = dblk (dev sb) (?p k)" using same k by simp
    have "insert (?p j) (entries (dblk (dev sb') (?p j)) 0 2048) \<inter> insert (?p k) (entries (dblk (dev sb) (?p k)) 0 2048) = {}"
      if j: "i' \<le> j \<and> j < k \<and> get_int did (int j) \<noteq> 0" for j
      using D(7) [of j] same [of j] j k i by simp
    with D(1-6) notB [of k] k len F
    show "0 < get_int did (int k) \<and> ?p k \<in> used_blocks sb' \<and> ?p k < dlen (dev sb') \<and> distinct_entries (dblk (dev sb') (?p k)) \<and>
      entries (dblk (dev sb') (?p k)) 0 2048 \<subseteq> used_blocks sb' \<and> ?p k \<notin> entries (dblk (dev sb') (?p k)) 0 2048 \<and>
      (\<forall>j. i' \<le> j \<and> j < k \<and> get_int did (int j) \<noteq> 0 \<longrightarrow>
         insert (?p j) (entries (dblk (dev sb') (?p j)) 0 2048) \<inter> insert (?p k) (entries (dblk (dev sb') (?p k)) 0 2048) = {})"
      unfolding E by (auto simp: less_le_trans)
  qed
qed

lemma dind_ok_next:
  assumes ok: "dind_ok sb did i" and inv: "super_inv sb" and i: "i < 2048" "get_int did (int i) \<noteq> 0"
    and fr: "freed B sb inn sb' inn'" and B: "B \<subseteq> insert (nat (get_int did (int i))) (entries (dblk (dev sb) (nat (get_int did (int i)))) 0 2048)"
  shows "dind_ok sb' did (Suc i)"
    "\<And>k. Suc i \<le> k \<Longrightarrow> k < 2048 \<Longrightarrow> get_int did (int k) \<noteq> 0 \<Longrightarrow>
      dblk (dev sb') (nat (get_int did (int k))) = dblk (dev sb) (nat (get_int did (int k)))"
proof -
  have notB: "insert (nat (get_int did (int k))) (entries (dblk (dev sb) (nat (get_int did (int k)))) 0 2048) \<inter> B = {}"
    if k: "Suc i \<le> k" "k < 2048" "get_int did (int k) \<noteq> 0" for k
    using dind_okD(7) [OF ok _ k(2,3), of i] k(1) i(2) B by auto
  have le: "i \<le> Suc i" by simp
  note N = dind_ok_frame [OF ok inv le fr notB]
  show "dind_ok sb' did (Suc i)" by (rule N(1))
  show "dblk (dev sb') (nat (get_int did (int k))) = dblk (dev sb) (nat (get_int did (int k)))"
    if "Suc i \<le> k" "k < 2048" "get_int did (int k) \<noteq> 0" for k using N(2) that by blast
qed

lemma free_dindirect_spec:
  "\<lbrakk>super_inv sb; dind_ok sb did i; i \<le> 2048; e \<le> int (2048 * (2048 - i))\<rbrakk> \<Longrightarrow>
   \<exists>e' inn' sb'. free_dindirect sb inn did e i = Ok (e', inn', sb') \<and> e' \<le> 0 \<and>
     freed (dind_blocks (dev sb) did e i) sb inn sb' inn'"
proof (induction "2048 - i" arbitrary: i e sb inn)
  case 0
  then have "free_dindirect sb inn did e i = Ok (e, inn, sb)" by (subst free_dindirect.simps) (simp add: fs_consts)
  with 0 show ?case by (simp add: dind_blocks_done freed_refl)
next
  case (Suc d)
  note prems = Suc.prems
  have i: "i < 2048" and d: "d = 2048 - Suc i" using Suc(2) by simp_all
  show ?case
  proof (cases "0 < e")
    case False
    then have "free_dindirect sb inn did e i = Ok (e, inn, sb)" by (subst free_dindirect.simps) simp
    with False prems(1) show ?thesis by (simp add: dind_blocks_done freed_refl)
  next
    case e: True
    have run: "int i < NR_INDIRECT_BLOCKS \<and> 0 < e" using i e by (simp add: fs_consts)
    have e': "e - 2048 \<le> int (2048 * (2048 - Suc i))" using prems(4) i by simp
    let ?p = "nat (get_int did (int i))" and ?n = "min (nat e) 2048"
    show ?thesis
    proof (cases "get_int did (int i) = 0")
      case zero: True
      have ok: "dind_ok sb did (Suc i)" using prems(2) unfolding dind_ok_def Let_def by (meson Suc_leD)
      have "free_dindirect sb inn did e i = free_dindirect sb inn did (e - 2048) (Suc i)"
        using run zero by (subst free_dindirect.simps) (simp add: fs_consts)
      moreover have "dind_blocks (dev sb) did e i = dind_blocks (dev sb) did (e - 2048) (Suc i)"
        using dind_blocks_step [OF i e] zero by simp
      ultimately show ?thesis using Suc.hyps(1) [OF d prems(1) ok _ e', of inn] i by simp
    next
      case nz: False
      have P: "0 < get_int did (int i)" "?p \<in> used_blocks sb" "?p < dlen (dev sb)" "distinct_entries (dblk (dev sb) ?p)"
        "entries (dblk (dev sb) ?p) 0 2048 \<subseteq> used_blocks sb" "?p \<notin> entries (dblk (dev sb) ?p) 0 2048"
        using dind_okD(1-6) [OF prems(2) order_refl i nz] .
      let ?E = "entries (dblk (dev sb) ?p) 0 ?n"
      have E: "?E \<subseteq> entries (dblk (dev sb) ?p) 0 2048" by (rule entries_mono) simp
      have read: "read_blocks sb (get_int did (int i)) 1 = Ok (dblk (dev sb) ?p)"
        using P super_invD(1) [OF prems(1)] by (intro read_blocks_1) (auto simp: layout_ok_def)
      from free_entries_spec [OF prems(1) P(4) refl, where e = e and i = 0 and inn = inn] E P(5) obtain inn1 sb1 where
        fe: "free_entries sb inn (dblk (dev sb) ?p) e 0 = Ok (inn1, sb1)" "freed ?E sb inn sb1 inn1" by auto
      then have "?p \<in> used_blocks sb1" "super_inv sb1" using P E by (auto simp: freed_def)
      then obtain sb2 where sb2: "\<forall>inn. testfs_free_block_from_inode sb1 inn (int ?p) = Ok (counted inn (- 1), sb2)"
        "\<forall>inn. freed {?p} sb1 inn sb2 (counted inn (- 1))" using freed_block by blast
      have fr: "freed (insert ?p ?E) sb inn sb2 (counted inn1 (- 1))"
        using freed_trans [OF prems(1) fe(2) spec [OF sb2(2)]] by simp
      have B: "insert ?p ?E \<subseteq> insert ?p (entries (dblk (dev sb) ?p) 0 2048)" using E by auto
      note N = dind_ok_next [OF prems(2,1) i nz fr B]
      have "super_inv sb2" using fr by (simp add: freed_def)
      from Suc.hyps(1) [OF d this N(1) _ e', of "counted inn1 (- 1)"] i obtain e2 inn3 sb3 where
        rest: "free_dindirect sb2 (counted inn1 (- 1)) did (e - 2048) (Suc i) = Ok (e2, inn3, sb3)" "e2 \<le> 0"
          "freed (dind_blocks (dev sb2) did (e - 2048) (Suc i)) sb2 (counted inn1 (- 1)) sb3 inn3" by auto
      have "dind_blocks (dev sb2) did (e - 2048) (Suc i) = dind_blocks (dev sb) did (e - 2048) (Suc i)"
        using N(2) by (intro dind_blocks_cong) simp
      with freed_trans [OF prems(1) fr rest(3)] dind_blocks_step [OF i e] nz
      have "freed (dind_blocks (dev sb) did e i) sb inn sb3 inn3" by simp
      moreover have "free_dindirect sb inn did e i = Ok (e2, inn3, sb3)"
        using run nz read fe(1) sb2(1) rest(1) P(1) by (subst free_dindirect.simps) (simp add: fs_consts)
      ultimately show ?thesis using rest(2) by blast
    qed
  qed
qed

section \<open>The blocks of a file by slot\<close>

definition blocks_of :: "device \<Rightarrow> dinode \<Rightarrow> slot set \<Rightarrow> nat set" where
  "blocks_of d di S = (\<lambda>s. nat (slot_val d di s)) ` (S \<inter> live d di)"

lemma blocks_of_Un: "blocks_of d di (S \<union> T) = blocks_of d di S \<union> blocks_of d di T"
  by (auto simp: blocks_of_def)

lemma blocks_of_disjoint:
  assumes "map_wf X sb di" and "S \<inter> T = {}"
  shows "blocks_of (dev sb) di S \<inter> blocks_of (dev sb) di T = {}"
proof -
  have False if "s \<in> S \<inter> live (dev sb) di" "t \<in> T \<inter> live (dev sb) di"
    "nat (slot_val (dev sb) di s) = nat (slot_val (dev sb) di t)" for s t
  proof -
    have "s \<noteq> t" using that assms(2) by auto
    with index_slot_distinct [OF assms(1), of s t] that show False by (auto simp: live_def)
  qed
  then show ?thesis by (auto simp: blocks_of_def)
qed

lemma blocks_of_owned: "blocks_of d di UNIV = owned d di"
  by (simp add: blocks_of_def owned_def)

definition data_range :: "nat \<Rightarrow> nat \<Rightarrow> slot set" where
  "data_range a b = S_data ` {a..<b}"

lemma slots_split:
  "live d di \<subseteq> data_range 0 10 \<union> (data_range 10 2058 \<union> {S_ind}) \<union> (data_range 2058 4196362 \<union> S_id ` {..<2048} \<union> {S_dind})"
proof
  fix s assume "s \<in> live d di"
  then have "s \<in> slots" by (simp add: live_def)
  then show "s \<in> data_range 0 10 \<union> (data_range 10 2058 \<union> {S_ind}) \<union> (data_range 2058 4196362 \<union> S_id ` {..<2048} \<union> {S_dind})"
    by (cases s) (auto simp: data_range_def image_iff)
qed

text \<open>The entries of an index block are the blocks of the logical blocks it maps.\<close>

lemma entries_blocks_of:
  assumes "\<And>k. k < 2048 \<Longrightarrow> bmap d di (a + k) = get_int block (int k)" and "a + 2048 \<le> 4196362"
    and "\<And>l. S_data l \<in> live d di \<Longrightarrow> l < n" and "n - a \<le> m"
  shows "entries block 0 (min m 2048) = blocks_of d di (data_range a (a + 2048))"
proof -
  have "{k. 0 \<le> k \<and> k < min m 2048 \<and> get_int block (int k) \<noteq> 0} = {k. k < 2048 \<and> S_data (a + k) \<in> live d di}"
  proof (rule set_eqI)
    fix k
    have "k < m" if "k < 2048" "S_data (a + k) \<in> live d di" using assms(3) [OF that(2)] assms(4) by linarith
    then show "k \<in> {k. 0 \<le> k \<and> k < min m 2048 \<and> get_int block (int k) \<noteq> 0} \<longleftrightarrow> k \<in> {k. k < 2048 \<and> S_data (a + k) \<in> live d di}"
      using assms(1) [of k] assms(2) by (auto simp: live_def)
  qed
  then have "entries block 0 (min m 2048) = (\<lambda>k. nat (get_int block (int k))) ` {k. k < 2048 \<and> S_data (a + k) \<in> live d di}"
    by (simp only: entries_def)
  also have "\<dots> = (\<lambda>k. nat (bmap d di (a + k))) ` {k. k < 2048 \<and> S_data (a + k) \<in> live d di}"
    by (rule image_cong) (use assms(1) in auto)
  also have "\<dots> = blocks_of d di (data_range a (a + 2048))"
  proof -
    have "data_range a (a + 2048) \<inter> live d di = (\<lambda>k. S_data (a + k)) ` {k. k < 2048 \<and> S_data (a + k) \<in> live d di}"
    proof
      show "data_range a (a + 2048) \<inter> live d di \<subseteq> (\<lambda>k. S_data (a + k)) ` {k. k < 2048 \<and> S_data (a + k) \<in> live d di}"
      proof
        fix s assume "s \<in> data_range a (a + 2048) \<inter> live d di"
        then obtain l where "s = S_data l" "a \<le> l" "l < a + 2048" "s \<in> live d di" by (auto simp: data_range_def)
        then show "s \<in> (\<lambda>k. S_data (a + k)) ` {k. k < 2048 \<and> S_data (a + k) \<in> live d di}"
          by (intro image_eqI [of _ _ "l - a"]) auto
      qed
    qed (auto simp: data_range_def)
    then show ?thesis by (simp add: blocks_of_def image_image)
  qed
  finally show ?thesis .
qed

lemma distinct_entries_block:
  assumes wf: "map_wf X sb di" and "\<And>k. k < 2048 \<Longrightarrow> bmap (dev sb) di (a + k) = get_int block (int k)" and "a + 2048 \<le> 4196362"
  shows "distinct_entries block"
  unfolding distinct_entries_def
proof (intro conjI inj_onI allI impI)
  fix k j assume k: "k \<in> {k. k < 2048 \<and> get_int block (int k) \<noteq> 0}" and j: "j \<in> {k. k < 2048 \<and> get_int block (int k) \<noteq> 0}"
    and "get_int block (int k) = get_int block (int j)"
  then have "slot_val (dev sb) di (S_data (a + k)) = slot_val (dev sb) di (S_data (a + j))" "slot_val (dev sb) di (S_data (a + k)) \<noteq> 0"
    using assms(2) by auto
  with map_wf_inj [OF wf, of "S_data (a + k)" "S_data (a + j)"] k j assms(3) show "k = j" by auto
next
  fix k :: nat assume "k < 2048"
  with bmap_nonneg [OF wf, of "a + k"] assms(2) [of k] assms(3) show "0 \<le> get_int block (int k)" by simp
qed

text \<open>The logical blocks below entry \<open>k\<close> of the doubly indirect block.\<close>

lemma bmap_dind:
  assumes "0 < i_dindirect di" and "get_int (dblk d (nat (i_dindirect di))) (int k) > 0" and "j < 2048"
  shows "bmap d di (2058 + 2048 * k + j) = get_int (dblk d (nat (get_int (dblk d (nat (i_dindirect di))) (int k)))) (int j)"
  using assms by (simp add: bmap_def idx_def)

definition dind_group :: "nat \<Rightarrow> slot set" where
  "dind_group k = insert (S_id k) (data_range (2058 + 2048 * k) (2058 + 2048 * k + 2048))"

lemma dind_group_disjoint: "j \<noteq> k \<Longrightarrow> dind_group j \<inter> dind_group k = {}"
proof -
  have False if "j < k" "2058 + 2048 * k \<le> l" "l < 2058 + 2048 * j + 2048" for j k l :: nat using that by linarith
  then show "j \<noteq> k \<Longrightarrow> dind_group j \<inter> dind_group k = {}"
    by (cases "j < k") (auto simp: dind_group_def data_range_def nat_neq_iff)
qed

lemma dind_group_data: "data_range 2058 4196362 \<union> S_id ` {..<2048} = (\<Union>k < 2048. dind_group k)"
proof -
  have "S_data l \<in> (\<Union>k < 2048. dind_group k) \<longleftrightarrow> 2058 \<le> l \<and> l < 4196362" for l
  proof
    assume l: "2058 \<le> l \<and> l < 4196362"
    define k where "k = (l - 2058) div 2048"
    have "k < 2048" "2058 + 2048 * k \<le> l" "l < 2058 + 2048 * k + 2048"
      using l div_mult_mod_eq [of "l - 2058" 2048] mod_less_divisor [of 2048 "l - 2058"] unfolding k_def by linarith+
    then show "S_data l \<in> (\<Union>k < 2048. dind_group k)"
      by (intro UN_I [of k]) (simp_all add: dind_group_def data_range_def)
  qed (auto simp: dind_group_def data_range_def)
  then have "s \<in> data_range 2058 4196362 \<union> S_id ` {..<2048} \<longleftrightarrow> s \<in> (\<Union>k < 2048. dind_group k)" for s
    by (cases s) (auto simp: dind_group_def data_range_def)
  then show ?thesis by blast
qed

lemma blocks_of_UN: "blocks_of d di (\<Union>k \<in> K. S k) = (\<Union>k \<in> K. blocks_of d di (S k))"
  by (auto simp: blocks_of_def)

text \<open>A file whose doubly indirect block is \<open>D\<close>.\<close>

lemma dind_facts:
  assumes inv: "super_inv sb" and wf: "map_wf {} sb di" and D: "0 < i_dindirect di"
  defines "did \<equiv> dblk (dev sb) (nat (i_dindirect di))"
  assumes k: "k < 2048"
  shows "slot_val (dev sb) di (S_id k) = get_int did (int k)" "0 \<le> get_int did (int k)"
    and "get_int did (int k) = 0 \<Longrightarrow> blocks_of (dev sb) di (dind_group k) = {}"
    and "get_int did (int k) \<noteq> 0 \<Longrightarrow> distinct_entries (dblk (dev sb) (nat (get_int did (int k))))"
    and "get_int did (int k) \<noteq> 0 \<Longrightarrow> (\<And>l. S_data l \<in> live (dev sb) di \<Longrightarrow> l < n) \<Longrightarrow> n - (2058 + 2048 * k) \<le> m \<Longrightarrow>
      insert (nat (get_int did (int k))) (entries (dblk (dev sb) (nat (get_int did (int k)))) 0 (min m 2048))
        = blocks_of (dev sb) di (dind_group k)"
proof -
  show val: "slot_val (dev sb) di (S_id k) = get_int did (int k)" using D by (simp add: did_def idx_def)
  then show nonneg: "0 \<le> get_int did (int k)" using map_wf_nonneg [OF wf, of "S_id k"] k by simp
  show "blocks_of (dev sb) di (dind_group k) = {}" if z: "get_int did (int k) = 0"
  proof -
    have "S_data l \<notin> live (dev sb) di" if "2058 + 2048 * k \<le> l" "l < 2058 + 2048 * k + 2048" for l
    proof -
      have "(l - 2058) div 2048 = k" using that by (intro div_nat_eqI) simp_all
      moreover have "\<not> l < 2058" using that by simp
      ultimately have "bmap (dev sb) di l = 0" using z D by (simp add: bmap_def idx_def did_def)
      then show ?thesis by (simp add: live_def)
    qed
    moreover have "S_id k \<notin> live (dev sb) di" using val z by (simp add: live_def)
    ultimately show ?thesis by (auto simp: blocks_of_def dind_group_def data_range_def)
  qed
  assume nz: "get_int did (int k) \<noteq> 0"
  with nonneg have pos: "0 < get_int did (int k)" by simp
  have bm: "bmap (dev sb) di (2058 + 2048 * k + j) = get_int (dblk (dev sb) (nat (get_int did (int k)))) (int j)" if "j < 2048" for j
    using bmap_dind [OF D, of "dev sb" k j] pos that by (simp add: did_def)
  have top: "2058 + 2048 * k + 2048 \<le> 4196362" using k by simp
  show "distinct_entries (dblk (dev sb) (nat (get_int did (int k))))" by (rule distinct_entries_block [OF wf bm top])
  assume l: "\<And>l. S_data l \<in> live (dev sb) di \<Longrightarrow> l < n" and m: "n - (2058 + 2048 * k) \<le> m"
  have ent: "entries (dblk (dev sb) (nat (get_int did (int k)))) 0 (min m 2048) =
      blocks_of (dev sb) di (data_range (2058 + 2048 * k) (2058 + 2048 * k + 2048))"
    by (rule entries_blocks_of [OF _ top _ m]) (rule bm l, assumption)+
  have "blocks_of (dev sb) di {S_id k} = {nat (get_int did (int k))}"
  proof -
    have "{S_id k} \<inter> live (dev sb) di = {S_id k}" using val nz k by (simp add: live_def)
    with val show ?thesis by (simp add: blocks_of_def)
  qed
  then show "insert (nat (get_int did (int k))) (entries (dblk (dev sb) (nat (get_int did (int k)))) 0 (min m 2048))
        = blocks_of (dev sb) di (dind_group k)"
    unfolding dind_group_def using blocks_of_Un [of "dev sb" di "{S_id k}"] ent by simp
qed

lemma data_bound: "S_data l \<in> live d di \<Longrightarrow> l < 4196362"
  by (simp add: live_def)

lemma dind_ok_file:
  assumes inv: "super_inv sb" and wf: "map_wf {} sb di" and D: "0 < i_dindirect di"
  shows "dind_ok sb (dblk (dev sb) (nat (i_dindirect di))) 0"
  unfolding dind_ok_def Let_def
proof (intro allI impI)
  let ?did = "dblk (dev sb) (nat (i_dindirect di))"
  let ?p = "\<lambda>k. nat (get_int ?did (int k))"
  let ?G = "\<lambda>k. insert (?p k) (entries (dblk (dev sb) (?p k)) 0 2048)"
  fix k assume k: "0 \<le> k \<and> k < 2048 \<and> get_int ?did (int k) \<noteq> 0"
  have G: "?G j = blocks_of (dev sb) di (dind_group j)" if "j < 2048" "get_int ?did (int j) \<noteq> 0" for j
    using dind_facts(5) [OF inv wf D that, of 4196362 4196362] data_bound by simp
  have val: "slot_val (dev sb) di (S_id k) = get_int ?did (int k)" using dind_facts(1) [OF inv wf D] k by simp
  have pos: "0 < get_int ?did (int k)" using dind_facts(2) [OF inv wf D, of k] k by simp
  have "?p k \<in> used_blocks sb" "?p k < dlen (dev sb)"
    using map_wf_slot(2,3) [OF wf, of "S_id k"] val k by auto
  moreover have "entries (dblk (dev sb) (?p k)) 0 2048 \<subseteq> used_blocks sb"
  proof -
    have "?G k \<subseteq> owned (dev sb) di" using G k unfolding blocks_of_def owned_def by fastforce
    with owned_used [OF wf] show ?thesis by auto
  qed
  moreover have "?p k \<notin> entries (dblk (dev sb) (?p k)) 0 2048"
  proof -
    have bm: "bmap (dev sb) di (2058 + 2048 * k + j) = get_int (dblk (dev sb) (?p k)) (int j)" if "j < 2048" for j
      using bmap_dind [OF D pos that] .
    have "entries (dblk (dev sb) (?p k)) 0 (min 4196362 2048) = blocks_of (dev sb) di (data_range (2058 + 2048 * k) (2058 + 2048 * k + 2048))"
      using k by (intro entries_blocks_of [OF bm _ data_bound]) auto
    moreover have "?p k \<in> blocks_of (dev sb) di {S_id k}" using val k by (auto simp: blocks_of_def live_def)
    ultimately show ?thesis
      using blocks_of_disjoint [OF wf, of "{S_id k}" "data_range (2058 + 2048 * k) (2058 + 2048 * k + 2048)"]
      by (auto simp: data_range_def)
  qed
  moreover have "?G j \<inter> ?G k = {}" if "0 \<le> j \<and> j < k \<and> get_int ?did (int j) \<noteq> 0" for j
    using G [of j] G [of k] that k blocks_of_disjoint [OF wf dind_group_disjoint [of j k]] by simp
  ultimately show "0 < get_int ?did (int k) \<and> ?p k \<in> used_blocks sb \<and> ?p k < dlen (dev sb) \<and> distinct_entries (dblk (dev sb) (?p k)) \<and>
      entries (dblk (dev sb) (?p k)) 0 2048 \<subseteq> used_blocks sb \<and> ?p k \<notin> entries (dblk (dev sb) (?p k)) 0 2048 \<and>
      (\<forall>j. 0 \<le> j \<and> j < k \<and> get_int ?did (int j) \<noteq> 0 \<longrightarrow> ?G j \<inter> ?G k = {})"
    using pos dind_facts(4) [OF inv wf D, of k] k by auto
qed

lemma dind_blocks_file:
  assumes inv: "super_inv sb" and wf: "map_wf {} sb di" and D: "0 < i_dindirect di"
    and n: "\<forall>s \<in> live (dev sb) di. slot_start s < n" and n2: "2058 \<le> n"
  shows "dind_blocks (dev sb) (dblk (dev sb) (nat (i_dindirect di))) (int n - 2058) 0 =
    blocks_of (dev sb) di (data_range 2058 4196362 \<union> S_id ` {..<2048})"
proof -
  let ?did = "dblk (dev sb) (nat (i_dindirect di))"
  let ?K = "{k. k < 2048 \<and> get_int ?did (int k) \<noteq> 0}"
  have range: "int (2048 * k) < int n - 2058" if "k \<in> ?K" for k
  proof -
    have "S_id k \<in> live (dev sb) di" using that dind_facts(1) [OF inv wf D, of k] by (simp add: live_def)
    from bspec [OF n this] show ?thesis using n2 by simp
  qed
  have K: "{k. 0 \<le> k \<and> k < 2048 \<and> int (2048 * (k - 0)) < int n - 2058 \<and> get_int ?did (int k) \<noteq> 0} = ?K"
    using range by auto
  have l: "l < n" if "S_data l \<in> live (dev sb) di" for l using bspec [OF n that] by simp
  have "dind_blocks (dev sb) ?did (int n - 2058) 0 = (\<Union>k \<in> ?K. blocks_of (dev sb) di (dind_group k))"
    unfolding dind_blocks_def K
  proof (intro SUP_cong refl)
    fix k assume k: "k \<in> ?K"
    have "n - (2058 + 2048 * k) \<le> nat (int n - 2058 - int (2048 * (k - 0)))" using n2 by simp
    with dind_facts(5) [OF inv wf D _ _ l] k
    show "insert (nat (get_int ?did (int k))) (entries (dblk (dev sb) (nat (get_int ?did (int k)))) 0 (min (nat (int n - 2058 - int (2048 * (k - 0)))) 2048))
      = blocks_of (dev sb) di (dind_group k)" by simp
  qed
  also have "\<dots> = (\<Union>k < 2048. blocks_of (dev sb) di (dind_group k))"
    using dind_facts(3) [OF inv wf D] by auto
  also have "\<dots> = blocks_of (dev sb) di (data_range 2058 4196362 \<union> S_id ` {..<2048})"
    unfolding dind_group_data blocks_of_UN ..
  finally show ?thesis .
qed

section \<open>Releasing a file\<close>

lemma freed_frame:
  assumes inv: "super_inv sb" and fr: "freed B sb inn sb' inn'" and p: "p \<in> used_blocks sb" "p \<notin> B" "p < dlen (dev sb)"
  shows "dblk (dev sb') p = dblk (dev sb) p" "p \<in> used_blocks sb'" "read_blocks sb' (int p) 1 = Ok (dblk (dev sb) p)"
proof -
  note F = fr [unfolded freed_def]
  have "18 \<le> p" using used_blocks_bound(1) [OF inv p(1)] by (simp add: fs_consts)
  then show same: "dblk (dev sb') p = dblk (dev sb) p" using F p(2) by (intro fs_frameD [of B]) auto
  show "p \<in> used_blocks sb'" using F p by simp
  have "p < dlen (dev sb')" using F p(3) fs_frame_dlen [of B sb sb'] by simp
  moreover have "dev_ok (dev sb')" using F super_invD(1) [of sb'] by (simp add: layout_ok_def)
  ultimately show "read_blocks sb' (int p) 1 = Ok (dblk (dev sb) p)" using read_blocks_1 [of sb' "int p"] same by simp
qed

definition emptied :: "dinode \<Rightarrow> dinode" where
  "emptied di = di\<lparr>i_block_nr := replicate 10 0, i_indirect := 0, i_dindirect := 0, block_count := 0, i_size := 0\<rparr>"

lemma direct_blocks_file:
  assumes wf: "map_wf {} sb di" and n: "\<forall>s \<in> live (dev sb) di. slot_start s < n"
  shows "direct_blocks (i_block_nr di) 0 (min n 10) = blocks_of (dev sb) di (data_range 0 10)"
    "zero_from (i_block_nr di) 0 (min n 10) = replicate 10 0"
    "\<forall>k < 10. 0 \<le> i_block_nr di ! k" "inj_on ((!) (i_block_nr di)) {k. 0 \<le> k \<and> k < 10 \<and> i_block_nr di ! k \<noteq> 0}"
proof -
  have len: "length (i_block_nr di) = 10" using wf by (simp add: map_wf_def)
  have val: "slot_val (dev sb) di (S_data k) = i_block_nr di ! k" if "k < 10" for k using that by (simp add: bmap_def)
  have live: "S_data k \<in> live (dev sb) di \<longleftrightarrow> i_block_nr di ! k \<noteq> 0" if "k < 10" for k
    using that val [OF that] by (simp add: live_def)
  have lt: "k < n" if "k < 10" "i_block_nr di ! k \<noteq> 0" for k using bspec [OF n, of "S_data k"] live that by simp
  have set: "data_range 0 10 \<inter> live (dev sb) di = S_data ` {k. 0 \<le> k \<and> k < min n 10 \<and> i_block_nr di ! k \<noteq> 0}"
    using live lt by (auto simp: data_range_def)
  show "direct_blocks (i_block_nr di) 0 (min n 10) = blocks_of (dev sb) di (data_range 0 10)"
    unfolding direct_blocks_def blocks_of_def set image_image by (rule image_cong) (use val in auto)
  show "zero_from (i_block_nr di) 0 (min n 10) = replicate 10 0"
    using len lt by (intro nth_equalityI) (auto simp: zero_from_def)
  show "\<forall>k < 10. 0 \<le> i_block_nr di ! k"
  proof (intro allI impI)
    fix k :: nat assume "k < 10"
    with map_wf_nonneg [OF wf, of "S_data k"] val [of k] show "0 \<le> i_block_nr di ! k" by simp
  qed
  show "inj_on ((!) (i_block_nr di)) {k. 0 \<le> k \<and> k < 10 \<and> i_block_nr di ! k \<noteq> 0}"
  proof (rule inj_onI)
    fix j k assume "j \<in> {k. 0 \<le> k \<and> k < 10 \<and> i_block_nr di ! k \<noteq> 0}" "k \<in> {k. 0 \<le> k \<and> k < 10 \<and> i_block_nr di ! k \<noteq> 0}"
      "i_block_nr di ! j = i_block_nr di ! k"
    with map_wf_inj [OF wf, of "S_data j" "S_data k"] val [of j] val [of k] show "j = k" by simp
  qed
qed

lemma indirect_blocks_file:
  assumes wf: "map_wf {} sb di" and n: "\<forall>s \<in> live (dev sb) di. slot_start s < n" and I: "i_indirect di = int p" "0 < p"
  shows "insert p (entries (dblk (dev sb) p) 0 (min (n - 10) 2048)) = blocks_of (dev sb) di (data_range 10 2058 \<union> {S_ind})"
    "distinct_entries (dblk (dev sb) p)" "p \<notin> entries (dblk (dev sb) p) 0 (min (n - 10) 2048)" "10 < n"
    "p \<in> used_blocks sb" "p < dlen (dev sb)"
proof -
  have bm: "bmap (dev sb) di (10 + k) = get_int (dblk (dev sb) p) (int k)" if "k < 2048" for k
    using that I by (simp add: bmap_def idx_def)
  have S: "S_ind \<in> live (dev sb) di" using I by (simp add: live_def)
  have ent: "entries (dblk (dev sb) p) 0 (min (n - 10) 2048) = blocks_of (dev sb) di (data_range 10 2058)"
    using entries_blocks_of [OF bm, where n = n and m = "n - 10"] bspec [OF n, of "S_data _"] by simp
  have one: "blocks_of (dev sb) di {S_ind} = {p}" using S I by (simp add: blocks_of_def)
  show "insert p (entries (dblk (dev sb) p) 0 (min (n - 10) 2048)) = blocks_of (dev sb) di (data_range 10 2058 \<union> {S_ind})"
    unfolding ent blocks_of_Un one by simp
  show "distinct_entries (dblk (dev sb) p)" using distinct_entries_block [OF wf bm] by simp
  show "p \<notin> entries (dblk (dev sb) p) 0 (min (n - 10) 2048)"
    unfolding ent using blocks_of_disjoint [OF wf, of "{S_ind}" "data_range 10 2058"] one by (auto simp: data_range_def)
  show "10 < n" using bspec [OF n S] by simp
  show "p \<in> used_blocks sb" "p < dlen (dev sb)" using map_wf_slot(2,3) [OF wf, of S_ind] I by auto
qed

definition set_indirect :: "inode \<Rightarrow> int \<Rightarrow> inode" where
  "set_indirect inn x = inn\<lparr>din := (din inn)\<lparr>i_indirect := x\<rparr>\<rparr>"

definition set_dindirect :: "inode \<Rightarrow> int \<Rightarrow> inode" where
  "set_dindirect inn x = inn\<lparr>din := (din inn)\<lparr>i_dindirect := x\<rparr>\<rparr>"

definition ind_slots :: "slot set" where "ind_slots = data_range 10 2058 \<union> {S_ind}"

definition dind_slots :: "slot set" where "dind_slots = data_range 2058 4196362 \<union> S_id ` {..<2048} \<union> {S_dind}"

lemma blocks_of_subset: "blocks_of d di S \<subseteq> owned d di"
  by (auto simp: blocks_of_def owned_def)

lemma freed_subset:
  assumes "freed B sb inn sb1 inn1" and "S \<subseteq> used_blocks sb" and "S \<inter> B = {}"
  shows "S \<subseteq> used_blocks sb1"
  using assms by (auto simp: freed_def)

lemma free_indirect_part:
  assumes inv: "super_inv sb" and wf: "map_wf {} sb di" and n: "\<forall>s \<in> live (dev sb) di. slot_start s < n"
    and fr: "freed B sb inn0 sb1 inn0'" and B: "blocks_of (dev sb) di ind_slots \<inter> B = {}" and same: "i_indirect (din inn) = i_indirect di"
  shows "\<exists>inn' sb2.
    (if i_indirect (din inn) > 0 then
       c_assert (int n - NR_DIRECT_BLOCKS > 0)
         (and_then (read_blocks sb1 (i_indirect (din inn)) 1) (\<lambda>block.
          and_then (free_entries sb1 inn block (int n - NR_DIRECT_BLOCKS) 0) (\<lambda>(inn, sb).
          and_then (testfs_free_block_from_inode sb inn (i_indirect (din inn))) (\<lambda>(inn, sb).
            Ok (inn\<lparr>din := (din inn)\<lparr>i_indirect := 0\<rparr>\<rparr>, sb)))))
     else Ok (inn, sb1)) = Ok (set_indirect inn' 0, sb2) \<and> freed (blocks_of (dev sb) di ind_slots) sb1 inn sb2 inn'"
proof (cases "i_indirect di = 0")
  case True
  have "blocks_of (dev sb) di ind_slots = {}"
    using True by (auto simp: ind_slots_def blocks_of_def data_range_def live_def bmap_def)
  moreover have "super_inv sb1" using fr by (simp add: freed_def)
  ultimately show ?thesis using True same freed_refl [of sb1 inn] by (intro exI [of _ inn] exI [of _ sb1]) (simp add: set_indirect_def)
next
  case False
  define p where "p = nat (i_indirect di)"
  have p: "i_indirect di = int p" "0 < p" using False map_wf_nonneg [OF wf, of S_ind] by (simp_all add: p_def)
  note I = indirect_blocks_file [OF wf n p]
  let ?e = "entries (dblk (dev sb) p) 0 (min (n - 10) 2048)"
  have blocks: "blocks_of (dev sb) di ind_slots = insert p ?e" using I(1) by (simp add: ind_slots_def)
  have "blocks_of (dev sb) di ind_slots \<subseteq> used_blocks sb" using blocks_of_subset owned_used [OF wf] by blast
  then have used: "insert p ?e \<subseteq> used_blocks sb1" using freed_subset [OF fr _ B] blocks by simp
  have read: "read_blocks sb1 (int p) 1 = Ok (dblk (dev sb) p)" using freed_frame(3) [OF inv fr I(5) _ I(6)] B blocks by auto
  have inv1: "super_inv sb1" using fr by (simp add: freed_def)
  have e: "min (nat (int n - NR_DIRECT_BLOCKS)) 2048 = min (n - 10) 2048" by (simp add: fs_consts nat_diff_distrib)
  from free_entries_spec [OF inv1 I(2) refl, where e = "int n - NR_DIRECT_BLOCKS" and i = 0 and inn = inn, unfolded e] used
  obtain inn1 sb2 where fe: "free_entries sb1 inn (dblk (dev sb) p) (int n - NR_DIRECT_BLOCKS) 0 = Ok (inn1, sb2)"
    "freed ?e sb1 inn sb2 inn1" by auto
  then have "p \<in> used_blocks sb2" "super_inv sb2" and ind: "i_indirect (din inn1) = int p"
    using I(3) used same p by (auto simp: freed_def)
  then obtain sb3 where sb3: "\<forall>inn. testfs_free_block_from_inode sb2 inn (int p) = Ok (counted inn (- 1), sb3)"
    "\<forall>inn. freed {p} sb2 inn sb3 (counted inn (- 1))" using freed_block by blast
  have "freed (insert p ?e) sb1 inn sb3 (counted inn1 (- 1))" using freed_trans [OF inv1 fe(2) spec [OF sb3(2)]] by simp
  moreover have "int n - NR_DIRECT_BLOCKS > 0" using I(4) by (simp add: fs_consts)
  ultimately show ?thesis unfolding blocks
    using p same read fe(1) sb3(1) ind by (intro exI [of _ "counted inn1 (- 1)"] exI [of _ sb3]) (simp add: set_indirect_def)
qed

lemma free_dindirect_part:
  assumes inv: "super_inv sb" and wf: "map_wf {} sb di" and n: "\<forall>s \<in> live (dev sb) di. slot_start s < n"
    and last: "2058 < n \<Longrightarrow> S_data (n - 1) \<in> live (dev sb) di" "n \<le> 4196362"
    and fr: "freed B sb inn0 sb1 inn0'" and B: "blocks_of (dev sb) di dind_slots \<inter> B = {}" and same: "i_dindirect (din inn) = i_dindirect di"
  shows "\<exists>e inn' sb2.
    (if int n - NR_DIRECT_BLOCKS - NR_INDIRECT_BLOCKS > 0 \<and> i_dindirect (din inn) > 0 then
       and_then (read_blocks sb1 (i_dindirect (din inn)) 1) (\<lambda>did_block.
       and_then (free_dindirect sb1 inn did_block (int n - NR_DIRECT_BLOCKS - NR_INDIRECT_BLOCKS) 0) (\<lambda>(e_block_nr, inn, sb).
       and_then (testfs_free_block_from_inode sb inn (i_dindirect (din inn))) (\<lambda>(inn, sb).
         Ok (e_block_nr, inn\<lparr>din := (din inn)\<lparr>i_dindirect := 0\<rparr>\<rparr>, sb))))
     else Ok (int n - NR_DIRECT_BLOCKS - NR_INDIRECT_BLOCKS, inn, sb1)) = Ok (e, set_dindirect inn' 0, sb2) \<and>
    e \<le> 0 \<and> freed (blocks_of (dev sb) di dind_slots) sb1 inn sb2 inn'"
proof (cases "i_dindirect di = 0")
  case True
  have "bmap (dev sb) di l = 0" if "2058 \<le> l" for l using that True by (simp add: bmap_def)
  then have empty: "blocks_of (dev sb) di dind_slots = {}" and "\<not> 2058 < n"
    using True last(1) by (auto simp: dind_slots_def blocks_of_def data_range_def live_def)
  have "super_inv sb1" using fr by (simp add: freed_def)
  with True same empty \<open>\<not> 2058 < n\<close> freed_refl [of sb1 inn] show ?thesis
    by (intro exI [of _ "int n - NR_DIRECT_BLOCKS - NR_INDIRECT_BLOCKS"] exI [of _ inn] exI [of _ sb1]) (simp add: set_dindirect_def fs_consts)
next
  case False
  define p where "p = nat (i_dindirect di)"
  have p: "i_dindirect di = int p" "0 < p" using False map_wf_nonneg [OF wf, of S_dind] by (simp_all add: p_def)
  have D: "0 < i_dindirect di" using p by simp
  have S: "S_dind \<in> live (dev sb) di" using p by (simp add: live_def)
  from bspec [OF n S] have n2: "2058 < n" by simp
  let ?did = "dblk (dev sb) p" and ?e = "int n - 2058"
  let ?G = "blocks_of (dev sb) di (data_range 2058 4196362 \<union> S_id ` {..<2048})"
  have one: "blocks_of (dev sb) di {S_dind} = {p}" using S p by (simp add: blocks_of_def)
  have blocks: "blocks_of (dev sb) di dind_slots = insert p ?G" unfolding dind_slots_def blocks_of_Un [of _ _ _ "{S_dind}"] one by simp
  have pG: "p \<notin> ?G"
    using blocks_of_disjoint [OF wf, of "{S_dind}" "data_range 2058 4196362 \<union> S_id ` {..<2048}"] one by (auto simp: data_range_def)
  have pu: "p \<in> used_blocks sb" "p < dlen (dev sb)" using map_wf_slot(2,3) [OF wf, of S_dind] p by auto
  have read: "read_blocks sb1 (int p) 1 = Ok ?did" and pu1: "p \<in> used_blocks sb1"
    using freed_frame(2,3) [OF inv fr pu(1) _ pu(2)] B blocks by auto
  have inv1: "super_inv sb1" using fr by (simp add: freed_def)
  note ok = dind_ok_file [OF inv wf D, folded p_def]
  have notB: "insert (nat (get_int ?did (int k))) (entries (dblk (dev sb) (nat (get_int ?did (int k)))) 0 2048) \<inter> B = {}"
    if k: "0 \<le> k" "k < 2048" "get_int ?did (int k) \<noteq> 0" for k
  proof -
    have "insert (nat (get_int ?did (int k))) (entries (dblk (dev sb) (nat (get_int ?did (int k)))) 0 (min 4196362 2048)) = blocks_of (dev sb) di (dind_group k)"
      using k data_bound by (intro dind_facts(5) [OF inv wf D, folded p_def, where n = 4196362]) auto
    moreover have "blocks_of (dev sb) di (dind_group k) \<subseteq> ?G" unfolding dind_group_data blocks_of_UN using k(2) by auto
    ultimately show ?thesis using B blocks by auto
  qed
  note N = dind_ok_frame [OF ok inv order_refl fr notB]
  have eq: "dind_blocks (dev sb1) ?did ?e 0 = ?G"
    using dind_blocks_file [OF inv wf D n] n2 dind_blocks_cong [of 0 ?did "dev sb1" "dev sb" ?e] N(2) by (simp add: p_def)
  have "?e \<le> int (2048 * (2048 - 0))" using last(2) by simp
  from free_dindirect_spec [OF inv1 N(1) _ this, of inn] obtain e' inn1 sb2 where
    fd: "free_dindirect sb1 inn ?did ?e 0 = Ok (e', inn1, sb2)" "e' \<le> 0" "freed ?G sb1 inn sb2 inn1"
    unfolding eq by auto
  then have "p \<in> used_blocks sb2" "super_inv sb2" and ind: "i_dindirect (din inn1) = int p"
    using pG pu1 same p by (auto simp: freed_def)
  then obtain sb3 where sb3: "\<forall>inn. testfs_free_block_from_inode sb2 inn (int p) = Ok (counted inn (- 1), sb3)"
    "\<forall>inn. freed {p} sb2 inn sb3 (counted inn (- 1))" using freed_block by blast
  have "freed (insert p ?G) sb1 inn sb3 (counted inn1 (- 1))" using freed_trans [OF inv1 fd(3) spec [OF sb3(2)]] by simp
  then show ?thesis unfolding blocks
    using p same read fd(1,2) sb3(1) ind n2
    by (intro exI [of _ e'] exI [of _ "counted inn1 (- 1)"] exI [of _ sb3]) (simp add: set_dindirect_def fs_consts)
qed

lemma file_blocks_bound:
  assumes "file_ok sb di"
  defines "n \<equiv> nat ((i_size di + int BLOCK_SIZE - 1) div int BLOCK_SIZE)"
  shows "c_div (i_size di + int BLOCK_SIZE - 1) (int BLOCK_SIZE) = int n" "\<forall>s \<in> live (dev sb) di. slot_start s < n"
    "2058 < n \<Longrightarrow> S_data (n - 1) \<in> live (dev sb) di" "n \<le> 4196362"
proof -
  note F = assms(1) [unfolded file_ok_def covered_def]
  have size: "0 \<le> i_size di" "i_size di \<le> 4196362 * 8192" using F by (simp_all add: fs_consts)
  then show "c_div (i_size di + int BLOCK_SIZE - 1) (int BLOCK_SIZE) = int n"
    by (subst c_div_nonneg) (simp_all add: n_def BLOCK_SIZE_def)
  have num: "int n = (i_size di + 8191) div 8192" using size by (simp add: n_def BLOCK_SIZE_def add.commute)
  have bounds: "i_size di \<le> int n * 8192" "int n * 8192 < i_size di + 8192" using num size by linarith+
  show "\<forall>s \<in> live (dev sb) di. slot_start s < n"
  proof
    fix s assume "s \<in> live (dev sb) di"
    then have "int (slot_start s) * 8192 < i_size di" using F by (auto simp: BLOCK_SIZE_def)
    with bounds show "slot_start s < n" by linarith
  qed
  show "n \<le> 4196362" using bounds size by linarith
  assume "2058 < n"
  then have "0 < i_size di" using bounds by linarith
  moreover have "nat (i_size di - 1) div BLOCK_SIZE = n - 1"
    using bounds \<open>0 < i_size di\<close> \<open>2058 < n\<close> by (intro div_nat_eqI) (simp_all add: BLOCK_SIZE_def)
  ultimately show "S_data (n - 1) \<in> live (dev sb) di" using F by auto
qed

lemma blocks_of_live: "live d di \<subseteq> S \<Longrightarrow> blocks_of d di S = owned d di"
  by (auto simp: blocks_of_def owned_def)

lemma freed_meta:
  assumes "freed B sb inn sb' inn'" and "din inn = di"
  shows "i_type (din inn') = i_type di" "i_block_nr (din inn') = i_block_nr di" "i_indirect (din inn') = i_indirect di"
    "i_dindirect (din inn') = i_dindirect di" "i_size (din inn') = i_size di" "block_count (din inn') = block_count di - int (card B)"
  using assms by (simp_all add: freed_def)

lemma testfs_free_blocks_spec:
  assumes inv: "super_inv sb" and ok: "file_ok sb (din inn)"
  shows "\<exists>inn' sb'. testfs_free_blocks sb inn = Ok (0, inn', sb') \<and> super_inv sb' \<and>
    used_blocks sb' = used_blocks sb - owned (dev sb) (din inn) \<and> fs_frame (owned (dev sb) (din inn)) sb sb' \<and>
    din inn' = emptied (din inn) \<and> same_id inn inn' \<and> i_flags inn' = i_flags inn OR I_FLAGS_DIRTY"
proof -
  let ?di = "din inn"
  have wf: "map_wf {} sb ?di" using ok by (simp add: file_ok_def)
  define n where "n = nat ((i_size ?di + int BLOCK_SIZE - 1) div int BLOCK_SIZE)"
  note E = file_blocks_bound [OF ok, folded n_def]
  note D = direct_blocks_file [OF wf E(2)]
  let ?B1 = "blocks_of (dev sb) ?di (data_range 0 10)" and ?B2 = "blocks_of (dev sb) ?di ind_slots"
    and ?B3 = "blocks_of (dev sb) ?di dind_slots"
  have len: "length (i_block_nr ?di) = 10" using wf by (simp add: map_wf_def)
  have sub: "direct_blocks (i_block_nr ?di) 0 (min n 10) \<subseteq> used_blocks sb"
    unfolding D(1) using blocks_of_subset owned_used [OF wf] by blast
  from free_direct_spec [OF inv len D(3,4) _ sub, where e = "int n"] obtain inn1 sb1 where
    d1: "free_direct sb inn (int n) 0 = Ok (set_block_nr inn1 (replicate 10 0), sb1)" "freed ?B1 sb inn sb1 inn1"
    unfolding D(1,2) by auto
  have "ind_slots \<inter> data_range 0 10 = {}" "dind_slots \<inter> (data_range 0 10 \<union> ind_slots) = {}"
    by (auto simp: ind_slots_def dind_slots_def data_range_def)
  note dis = blocks_of_disjoint [OF wf this(1)] blocks_of_disjoint [OF wf this(2), unfolded blocks_of_Un]
  have i1: "i_indirect (din (set_block_nr inn1 (replicate 10 0))) = i_indirect ?di"
    using freed_meta [OF d1(2) refl] by (simp add: set_block_nr_def)
  from free_indirect_part [OF inv wf E(2) d1(2) dis(1) i1] obtain inn2 sb2 where
    d2: "(if i_indirect (din (set_block_nr inn1 (replicate 10 0))) > 0 then
       c_assert (int n - NR_DIRECT_BLOCKS > 0)
         (and_then (read_blocks sb1 (i_indirect (din (set_block_nr inn1 (replicate 10 0)))) 1) (\<lambda>block.
          and_then (free_entries sb1 (set_block_nr inn1 (replicate 10 0)) block (int n - NR_DIRECT_BLOCKS) 0) (\<lambda>(inn, sb).
          and_then (testfs_free_block_from_inode sb inn (i_indirect (din inn))) (\<lambda>(inn, sb).
            Ok (inn\<lparr>din := (din inn)\<lparr>i_indirect := 0\<rparr>\<rparr>, sb)))))
     else Ok (set_block_nr inn1 (replicate 10 0), sb1)) = Ok (set_indirect inn2 0, sb2)"
      "freed ?B2 sb1 (set_block_nr inn1 (replicate 10 0)) sb2 inn2" by blast
  define inn2' where "inn2' = set_block_nr inn2 (i_block_nr (din inn1))"
  have "freed ?B2 sb1 inn1 sb2 inn2'" using d2(2) by (simp add: freed_def inn2'_def set_block_nr_def)
  then have fr2: "freed (?B1 \<union> ?B2) sb inn sb2 inn2'" by (rule freed_trans [OF inv d1(2)])
  have i2: "i_dindirect (din (set_indirect inn2 0)) = i_dindirect ?di"
    using freed_meta [OF fr2 refl] by (simp add: inn2'_def set_block_nr_def set_indirect_def)
  from free_dindirect_part [OF inv wf E(2,3,4) fr2 dis(2) i2] obtain e inn3 sb3 where
    d3: "(if int n - NR_DIRECT_BLOCKS - NR_INDIRECT_BLOCKS > 0 \<and> i_dindirect (din (set_indirect inn2 0)) > 0 then
       and_then (read_blocks sb2 (i_dindirect (din (set_indirect inn2 0))) 1) (\<lambda>did_block.
       and_then (free_dindirect sb2 (set_indirect inn2 0) did_block (int n - NR_DIRECT_BLOCKS - NR_INDIRECT_BLOCKS) 0) (\<lambda>(e_block_nr, inn, sb).
       and_then (testfs_free_block_from_inode sb inn (i_dindirect (din inn))) (\<lambda>(inn, sb).
         Ok (e_block_nr, inn\<lparr>din := (din inn)\<lparr>i_dindirect := 0\<rparr>\<rparr>, sb))))
     else Ok (int n - NR_DIRECT_BLOCKS - NR_INDIRECT_BLOCKS, set_indirect inn2 0, sb2)) = Ok (e, set_dindirect inn3 0, sb3)" "e \<le> 0"
      "freed ?B3 sb2 (set_indirect inn2 0) sb3 inn3" by blast
  define inn3' where "inn3' = set_block_nr (set_indirect inn3 (i_indirect (din inn2))) (i_block_nr (din inn1))"
  have "freed ?B3 sb2 inn2' sb3 inn3'" using d3(3) by (simp add: freed_def inn2'_def inn3'_def set_block_nr_def set_indirect_def)
  then have "freed (?B1 \<union> ?B2 \<union> ?B3) sb inn sb3 inn3'" by (rule freed_trans [OF inv fr2])
  moreover have "?B1 \<union> ?B2 \<union> ?B3 = owned (dev sb) ?di"
    using blocks_of_live [OF slots_split] unfolding ind_slots_def dind_slots_def by (simp only: blocks_of_Un)
  ultimately have fr: "freed (owned (dev sb) ?di) sb inn sb3 inn3'" by simp
  have card: "block_count ?di = int (card (owned (dev sb) ?di))"
  proof -
    have "inj_on (\<lambda>s. nat (slot_val (dev sb) ?di s)) (live (dev sb) ?di)"
      using index_slot_distinct [OF wf] by (auto simp: inj_on_def live_def)
    then show ?thesis using wf by (simp add: owned_def card_image map_wf_def)
  qed
  let ?inn' = "set_dirty ((set_dindirect inn3 0)\<lparr>din := (din (set_dindirect inn3 0))\<lparr>i_size := 0\<rparr>\<rparr>)"
  have ret: "testfs_free_blocks sb inn = Ok (0, ?inn', sb3)"
    unfolding testfs_free_blocks_def Let_def E(1) d1(1) and_then.simps prod.case d2(1) d3(1) using d3(2) by simp
  have blk: "i_block_nr (din inn3) = replicate 10 0" "i_indirect (din inn3) = 0"
    using freed_meta [OF d3(3) refl] freed_meta [OF d2(2) refl] by (simp_all add: set_indirect_def set_block_nr_def)
  have "din ?inn' = emptied ?di"
    using freed_meta [OF fr refl] blk card
    by (simp add: inn3'_def set_block_nr_def set_indirect_def set_dindirect_def set_dirty_def emptied_def dinode.equality)
  moreover have ty: "i_type (din inn3) = i_type ?di"
    using freed_meta(1) [OF fr refl] by (simp add: inn3'_def set_block_nr_def set_indirect_def)
  moreover have "same_id inn ?inn'" "i_flags ?inn' = i_flags inn OR I_FLAGS_DIRTY"
    using fr ty by (auto simp: freed_def inn3'_def set_block_nr_def set_indirect_def set_dindirect_def set_dirty_def same_id_def)
  ultimately show ?thesis using ret fr by (auto simp: freed_def)
qed

section \<open>Properties\<close>

text \<open>
  (C33) Releasing the blocks of a file. On a consistent file \<open>testfs_free_blocks\<close> passes all its assertions,
  gives back exactly the blocks the file owns, its data blocks and its index blocks, each once, and
  leaves an inode with no blocks, count 0 and size 0 that is dirty. No block of another file and no other
  block of the device changes.
\<close>

theorem testfs_free_blocks_correct:
  assumes "super_inv sb" and "file_ok sb (din inn)"
  shows "\<exists>inn' sb'. testfs_free_blocks sb inn = Ok (0, inn', sb') \<and> super_inv sb' \<and>
    used_blocks sb' = used_blocks sb - owned (dev sb) (din inn) \<and> fs_frame (owned (dev sb) (din inn)) sb sb' \<and>
    din inn' = emptied (din inn) \<and> same_id inn inn' \<and> i_flags inn' = i_flags inn OR I_FLAGS_DIRTY"
  by (rule testfs_free_blocks_spec [OF assms])

theorem testfs_free_blocks_correct_witness:
  "\<exists>sb inn inn' sb'. super_inv sb \<and> file_ok sb (din inn) \<and> owned (dev sb) (din inn) \<noteq> {} \<and>
     testfs_free_blocks sb inn = Ok (0, inn', sb') \<and> din inn' = emptied (din inn)"
proof -
  obtain sb and inn :: inode where F: "super_inv sb" "file_ok sb (din inn)" "\<not> can_alloc sb" "bmap (dev sb) (din inn) 0 \<noteq> 0"
    "bmap (dev sb) (din inn) 1 = 0" "i_flags inn = 0" "i_size (din inn) = 1" by (rule full_device_file)
  have "S_data 0 \<in> live (dev sb) (din inn)" using F(4) by (simp add: live_def)
  then have "owned (dev sb) (din inn) \<noteq> {}" by (auto simp: owned_def)
  with testfs_free_blocks_correct [OF F(1,2)] F(1,2) show ?thesis by blast
qed

end
