(* ===== verification/FS_ITable.thy ===== *)
theory FS_ITable
  imports FS_Dir FS_FileFree
begin

text \<open>
  The table of inodes in memory, \<^verbatim>\<open>fs/inode.c\<close>: objects of type \<^verbatim>\<open>struct inode\<close> with reference counts, found by
  their number through a hash table, and the operations that get, put, synchronise, create and remove an inode. Pointers are addresses, so two
  users of an inode share one object, and using an object after it was freed is a memory fault. There is one super block, so the
  comparison of super blocks in \<^verbatim>\<open>inode_hash_find\<close> always holds; a reference count is a mathematical integer.
\<close>

unbundle bit_operations_syntax

section \<open>Definitions\<close>

text \<open>
  The state of a mounted file system: the super block, the objects of type \<^verbatim>\<open>struct inode\<close> by their address, the hash table (its
  buckets, lists of addresses; \<^verbatim>\<open>None\<close> while there is no table) and the address \<^verbatim>\<open>calloc\<close> returns next.
\<close>

record fs_state =
  fsb :: super_block
  imem :: "nat \<Rightarrow> inode option"
  inode_hash_table :: "nat list list option"
  inext :: nat

definition INODE_HASH_SHIFT :: nat where "INODE_HASH_SHIFT = 8"
definition inode_hash_size :: nat where "inode_hash_size = 2 ^ INODE_HASH_SHIFT"

definition hash_int :: "32 word \<Rightarrow> nat \<Rightarrow> 32 word" where
  "hash_int val bits = drop_bit (32 - bits) (val * 0x9e370001)"

definition inode_hashfn :: "int \<Rightarrow> nat" where
  "inode_hashfn nr = unat (hash_int (word_of_int nr) INODE_HASH_SHIFT)"

definition with_inode :: "fs_state \<Rightarrow> nat \<Rightarrow> (inode \<Rightarrow> 'a outcome) \<Rightarrow> 'a outcome" where
  "with_inode fs p f = (case imem fs p of None \<Rightarrow> Crash MemFault | Some inn \<Rightarrow> f inn)"

definition set_inode :: "nat \<Rightarrow> inode \<Rightarrow> fs_state \<Rightarrow> fs_state" where
  "set_inode p inn fs = fs\<lparr>imem := (imem fs)(p := Some inn)\<rparr>"

text \<open>An operation on one inode, applied to the inode a pointer refers to.\<close>

definition on_inode :: "fs_state \<Rightarrow> nat \<Rightarrow> (super_block \<Rightarrow> inode \<Rightarrow> ('a \<times> inode \<times> super_block) outcome) \<Rightarrow> ('a \<times> fs_state) outcome" where
  "on_inode fs p f = with_inode fs p (\<lambda>inn. and_then (f (fsb fs) inn) (\<lambda>(r, inn, sb). Ok (r, set_inode p inn (fs\<lparr>fsb := sb\<rparr>))))"

definition with_table :: "fs_state \<Rightarrow> (nat list list \<Rightarrow> 'a outcome) \<Rightarrow> 'a outcome" where
  "with_table fs f = (case inode_hash_table fs of None \<Rightarrow> Crash MemFault | Some t \<Rightarrow> f t)"

definition inode_hash_init :: "fs_state \<Rightarrow> fs_state" where
  "inode_hash_init fs = fs\<lparr>inode_hash_table := Some (replicate inode_hash_size [])\<rparr>"

definition inode_hash_destroy :: "fs_state \<Rightarrow> fs_state outcome" where
  "inode_hash_destroy fs =
     (case inode_hash_table fs of None \<Rightarrow> Crash AssertFail
      | Some t \<Rightarrow> c_assert (\<forall>b \<in> set t. b = []) (Ok (fs\<lparr>inode_hash_table := None\<rparr>)))"

fun find_in_bucket :: "fs_state \<Rightarrow> nat list \<Rightarrow> int \<Rightarrow> nat option outcome" where
  "find_in_bucket fs [] inode_nr = Ok None"
| "find_in_bucket fs (p # ps) inode_nr =
     with_inode fs p (\<lambda>inn. if i_nr inn = inode_nr then Ok (Some p) else find_in_bucket fs ps inode_nr)"

definition inode_hash_find :: "fs_state \<Rightarrow> int \<Rightarrow> nat option outcome" where
  "inode_hash_find fs inode_nr = with_table fs (\<lambda>t. find_in_bucket fs (t ! inode_hashfn inode_nr) inode_nr)"

definition inode_hash_insert :: "fs_state \<Rightarrow> nat \<Rightarrow> fs_state outcome" where
  "inode_hash_insert fs p =
     with_table fs (\<lambda>t. with_inode fs p (\<lambda>inn.
       let k = inode_hashfn (i_nr inn) in Ok (fs\<lparr>inode_hash_table := Some (t[k := p # t ! k])\<rparr>)))"

text \<open>\<^verbatim>\<open>hlist_del\<close> unlinks the node from the list it is on.\<close>

definition inode_hash_remove :: "fs_state \<Rightarrow> nat \<Rightarrow> fs_state outcome" where
  "inode_hash_remove fs p = with_table fs (\<lambda>t. Ok (fs\<lparr>inode_hash_table := Some (map (remove1 p) t)\<rparr>))"

definition testfs_get_inode :: "fs_state \<Rightarrow> int \<Rightarrow> (nat \<times> fs_state) outcome" where
  "testfs_get_inode fs inode_nr =
     and_then (inode_hash_find fs inode_nr) (\<lambda>r.
       case r of
         Some p \<Rightarrow> with_inode fs p (\<lambda>inn. Ok (p, set_inode p (inn\<lparr>i_count := i_count inn + 1\<rparr>) fs))
       | None \<Rightarrow>
           and_then (read_inode (fsb fs) inode_nr) (\<lambda>inn.
             let p = inext fs; fs = (set_inode p inn fs)\<lparr>inext := Suc p\<rparr> in
             and_then (inode_hash_insert fs p) (\<lambda>fs. Ok (p, fs))))"

definition testfs_put_inode :: "fs_state \<Rightarrow> nat \<Rightarrow> fs_state outcome" where
  "testfs_put_inode fs p =
     with_inode fs p (\<lambda>inn.
       c_assert (i_flags inn AND I_FLAGS_DIRTY = 0)
         (let inn = inn\<lparr>i_count := i_count inn - 1\<rparr>; fs = set_inode p inn fs in
          if i_count inn = 0
          then and_then (inode_hash_remove fs p) (\<lambda>fs. Ok (fs\<lparr>imem := (imem fs)(p := None)\<rparr>))
          else Ok fs))"

definition sync_inode :: "fs_state \<Rightarrow> nat \<Rightarrow> fs_state outcome" where
  "sync_inode fs p =
     and_then (on_inode fs p (\<lambda>sb inn. and_then (testfs_sync_inode sb inn) (\<lambda>(inn, sb). Ok ((), inn, sb)))) (\<lambda>(_, fs). Ok fs)"

text \<open>The division is unsigned, as in \<open>testfs_inode_to_block_nr\<close>. The pointer is stored only on success.\<close>

definition testfs_create_inode :: "fs_state \<Rightarrow> inode_type \<Rightarrow> (int \<times> nat option \<times> fs_state) outcome" where
  "testfs_create_inode fs type =
     and_then (testfs_get_inode_freemap (fsb fs)) (\<lambda>(inode_nr, sb).
       let fs = fs\<lparr>fsb := sb\<rparr> in
       if inode_nr < 0 then Ok (inode_nr, None, fs)
       else if NR_INODE_BLOCKS \<le> u32_of_int inode_nr div INODES_PER_BLOCK then
         and_then (testfs_put_inode_freemap sb inode_nr) (\<lambda>sb. Ok (- ENOSPC, None, fs\<lparr>fsb := sb\<rparr>))
       else and_then (testfs_get_inode fs inode_nr) (\<lambda>(p, fs).
         with_inode fs p (\<lambda>inn.
           Ok (0, Some p, set_inode p (set_dirty (inn\<lparr>din := (din inn)\<lparr>i_type := int_of_type type\<rparr>\<rparr>)) fs))))"

definition testfs_remove_inode :: "fs_state \<Rightarrow> nat \<Rightarrow> fs_state outcome" where
  "testfs_remove_inode fs p =
     and_then (on_inode fs p testfs_free_blocks) (\<lambda>(_, fs).
     and_then (on_inode fs p (\<lambda>sb inn. c_assert (block_count (din inn) = 0)
       (and_then (testfs_put_inode_freemap sb (i_nr inn)) (\<lambda>sb. Ok ((), set_dirty (inn\<lparr>din := zero_dinode\<rparr>), sb))))) (\<lambda>(_, fs).
     and_then (sync_inode fs p) (\<lambda>fs.
       testfs_put_inode fs p)))"

section \<open>The encoding of an inode\<close>

definition dinode_wf :: "dinode \<Rightarrow> bool" where
  "dinode_wf d \<longleftrightarrow> is_s32 (i_type d) \<and> length (i_block_nr d) = 10 \<and> (\<forall>x \<in> set (i_block_nr d). is_s32 x) \<and> is_s32 (i_indirect d) \<and>
     is_s32 (i_dindirect d) \<and> is_s32 (block_count d) \<and> is_s64 (i_size d)"

lemma get_put_other:
  "pos + 4 \<le> pos' \<or> pos' + 4 \<le> pos \<Longrightarrow> get_s32 (put_s32 a pos x) pos' = get_s32 a pos'"
  "pos + 4 \<le> pos' \<or> pos' + 8 \<le> pos \<Longrightarrow> get_s64 (put_s32 a pos x) pos' = get_s64 a pos'"
  "pos + 8 \<le> pos' \<or> pos' + 4 \<le> pos \<Longrightarrow> get_s32 (put_s64 a pos x) pos' = get_s32 a pos'"
  "pos + 8 \<le> pos' \<or> pos' + 8 \<le> pos \<Longrightarrow> get_s64 (put_s64 a pos x) pos' = get_s64 a pos'"
  by (simp_all add: get_s32_def get_s64_def put_s32_def put_s64_def get_put_word_other)

lemma upt_10: "[0..<10] = [0, 1, 2, 3, 4, 5, 6, 7, 8, 9 :: nat]"
  by (simp add: upt_rec)

lemma list_10:
  assumes "length (xs :: 'a list) = 10"
  shows "[xs ! 0, xs ! 1, xs ! 2, xs ! 3, xs ! 4, xs ! 5, xs ! 6, xs ! 7, xs ! 8, xs ! 9] = xs"
  using map_nth [of xs] assms by (simp add: upt_10)

lemma decode_encode_dinode:
  assumes "dinode_wf d"
  shows "decode_dinode (encode_dinode a pos d) pos = d"
proof -
  have n: "is_s32 (i_block_nr d ! k)" if "k < 10" for k using assms that by (simp add: dinode_wf_def)
  have "decode_dinode (encode_dinode a pos d) pos =
     \<lparr>i_type = i_type d, i_block_nr = [i_block_nr d ! 0, i_block_nr d ! 1, i_block_nr d ! 2, i_block_nr d ! 3, i_block_nr d ! 4, i_block_nr d ! 5,
        i_block_nr d ! 6, i_block_nr d ! 7, i_block_nr d ! 8, i_block_nr d ! 9], i_indirect = i_indirect d, i_dindirect = i_dindirect d,
      block_count = block_count d, i_size = i_size d\<rparr>"
    using assms n by (simp add: decode_dinode_def encode_dinode_def upt_10 get_put_other get_put_s32 get_put_s64 dinode_wf_def)
  then show ?thesis using assms list_10 [of "i_block_nr d"] by (simp add: dinode_wf_def)
qed

lemma decode_dinode_cong: "(\<And>i. pos \<le> i \<Longrightarrow> i < pos + 64 \<Longrightarrow> a i = b i) \<Longrightarrow> decode_dinode a pos = decode_dinode b pos"
  unfolding decode_dinode_def get_s32_def get_s64_def get_word_def
  by (intro dinode.equality) (auto intro!: arg_cong [of _ _ sint] le_load_cong)

lemma encode_dinode_other:
  "i < pos \<or> pos + 64 \<le> i \<Longrightarrow> encode_dinode a pos d i = a i"
  by (elim disjE) (simp_all add: encode_dinode_def upt_10 put_s32_def put_s64_def put_word_def)

lemma decode_zero: "decode_dinode zero_arr pos = zero_dinode"
proof -
  have "(le_load 8 (\<lambda>_. 0) :: 64 word) = 0" by (rule bit_word_eqI) (simp add: bit_le_load)
  then have "get_s64 zero_arr k = 0" for k by (simp add: get_s64_def get_word_def zero_arr_def)
  then show ?thesis by (simp add: decode_dinode_def zero_dinode_def map_replicate_const)
qed

lemma dinode_wf_zero: "dinode_wf zero_dinode"
  by (simp add: dinode_wf_def zero_dinode_def is_s32_def is_s64_def)

lemma file_ok_dinode_wf:
  assumes "super_inv sb" and "file_ok sb di" and "is_s32 (i_type di)"
  shows "dinode_wf di"
proof -
  have wf: "map_wf {} sb di" and sz: "0 \<le> i_size di" "i_size di \<le> int max_bytes" using assms(2) by (auto simp: file_ok_def)
  have s32: "is_s32 (slot_val (dev sb) di s)" if "s \<in> slots" for s
  proof (cases "slot_val (dev sb) di s = 0")
    case False
    note S = map_wf_slot [OF wf that False]
    from used_blocks_bound [OF assms(1) S(2)] S(1) show ?thesis by (simp add: is_s32_def fs_consts)
  qed (simp add: is_s32_def)
  have "is_s32 (i_block_nr di ! k)" if "k < 10" for k using s32 [of "S_data k"] that by (simp add: bmap_def)
  then have "\<forall>x \<in> set (i_block_nr di). is_s32 x" using wf by (auto simp: map_wf_def in_set_conv_nth)
  moreover have "is_s32 (block_count di)"
  proof -
    have "card (live (dev sb) di) \<le> card slots" by (rule card_mono [OF finite_slots]) (auto simp: live_def)
    also have "card slots \<le> 4196362 + 2 + 2048"
    proof -
      have "slots \<subseteq> S_data ` {..<4196362} \<union> {S_ind, S_dind} \<union> S_id ` {..<2048}" by (auto simp: slots_def)
      then have "card slots \<le> card (S_data ` {..<4196362} \<union> {S_ind, S_dind} \<union> S_id ` {..<2048})" by (rule card_mono [rotated]) simp
      also have "\<dots> \<le> card (S_data ` {..<4196362 :: nat}) + card {S_ind, S_dind} + card (S_id ` {..<2048 :: nat})"
        by (meson card_Un_le order_trans add_right_mono)
      also have "\<dots> \<le> 4196362 + 2 + 2048" by (intro add_mono card_image_le [THEN order_trans]) (auto simp: card_insert_if)
      finally show ?thesis .
    qed
    finally show ?thesis using wf by (simp add: map_wf_def is_s32_def)
  qed
  ultimately show ?thesis
    using assms(3) s32 [of S_ind] s32 [of S_dind] wf sz by (simp add: dinode_wf_def map_wf_def is_s64_def fs_consts)
qed

section \<open>The table of inodes\<close>

definition NR_INODES :: nat where [fs_consts]: "NR_INODES = 16384"

text \<open>
  The table is consistent: a bucket holds the addresses of the inodes with its hash value, each once; an inode number has at most one object;
  every object is in use and was allocated.
\<close>

definition buckets_ok :: "nat list list \<Rightarrow> (nat \<Rightarrow> inode option) \<Rightarrow> bool" where
  "buckets_ok t m \<longleftrightarrow> length t = inode_hash_size \<and>
     (\<forall>k < length t. distinct (t ! k) \<and> set (t ! k) = {p. \<exists>inn. m p = Some inn \<and> inode_hashfn (i_nr inn) = k})"

definition table_ok :: "fs_state \<Rightarrow> bool" where
  "table_ok fs \<longleftrightarrow> (\<exists>t. inode_hash_table fs = Some t \<and> buckets_ok t (imem fs)) \<and>
     (\<forall>p q inn jnn. imem fs p = Some inn \<and> imem fs q = Some jnn \<and> i_nr inn = i_nr jnn \<longrightarrow> p = q) \<and>
     (\<forall>p inn. imem fs p = Some inn \<longrightarrow> p < inext fs \<and> 0 < i_count inn \<and> 0 \<le> i_nr inn \<and> i_nr inn < int NR_INODES)"

text \<open>The object of an inode number, if there is one, as the hash table finds it.\<close>

definition cached :: "fs_state \<Rightarrow> int \<Rightarrow> nat \<Rightarrow> inode \<Rightarrow> bool" where
  "cached fs nr p inn \<longleftrightarrow> imem fs p = Some inn \<and> i_nr inn = nr"

lemma inode_hashfn_bound: "inode_hashfn nr < inode_hash_size"
proof -
  let ?w = "(word_of_int nr :: 32 word) * 0x9e370001"
  have "unat ?w div 2 ^ 24 < 2 ^ 8" using unsigned_less [of ?w] by (intro less_mult_imp_div_less) simp
  moreover have "unat (drop_bit 24 ?w) = unat ?w div 2 ^ 24" by (subst unat_drop_bit_eq) (rule drop_bit_eq_div)
  ultimately show ?thesis
    by (simp add: inode_hashfn_def inode_hash_size_def INODE_HASH_SHIFT_def hash_int_def)
qed

lemma find_in_bucket_hit:
  assumes p: "imem fs p = Some inn" "i_nr inn = nr" and u: "\<And>q jnn. imem fs q = Some jnn \<Longrightarrow> i_nr jnn = nr \<Longrightarrow> q = p"
  shows "p \<in> set ps \<Longrightarrow> \<forall>q \<in> set ps. imem fs q \<noteq> None \<Longrightarrow> find_in_bucket fs ps nr = Ok (Some p)"
proof (induction ps)
  case (Cons q ps)
  then obtain jnn where q: "imem fs q = Some jnn" by auto
  show ?case
  proof (cases "i_nr jnn = nr")
    case True
    then show ?thesis using u [OF q] q by (simp add: with_inode_def)
  next
    case False
    then have "q \<noteq> p" using q p by auto
    then show ?thesis using Cons q False by (simp add: with_inode_def)
  qed
qed simp

lemma find_in_bucket_miss:
  "\<forall>q \<in> set ps. \<exists>inn. imem fs q = Some inn \<and> i_nr inn \<noteq> nr \<Longrightarrow> find_in_bucket fs ps nr = Ok None"
  by (induction ps) (auto simp: with_inode_def)

definition tab :: "fs_state \<Rightarrow> nat list list" where
  "tab fs = the (inode_hash_table fs)"

lemma itable_okD:
  assumes "table_ok fs"
  shows "inode_hash_table fs = Some (tab fs)" "length (tab fs) = inode_hash_size" "k < inode_hash_size \<Longrightarrow> distinct (tab fs ! k)"
    "k < inode_hash_size \<Longrightarrow> set (tab fs ! k) = {p. \<exists>inn. imem fs p = Some inn \<and> inode_hashfn (i_nr inn) = k}"
  using assms by (auto simp: table_ok_def buckets_ok_def tab_def)

lemma table_ok_unique: "table_ok fs \<Longrightarrow> imem fs p = Some inn \<Longrightarrow> imem fs q = Some jnn \<Longrightarrow> i_nr inn = i_nr jnn \<Longrightarrow> p = q"
  by (auto simp: table_ok_def)

lemma table_ok_entry:
  assumes "table_ok fs" and "imem fs p = Some inn"
  shows "p < inext fs" "0 < i_count inn" "0 \<le> i_nr inn" "i_nr inn < int NR_INODES"
  using assms by (auto simp: table_ok_def)

lemma table_okI:
  assumes "inode_hash_table fs = Some t" and "buckets_ok t (imem fs)"
    and "\<And>p q inn jnn. imem fs p = Some inn \<Longrightarrow> imem fs q = Some jnn \<Longrightarrow> i_nr inn = i_nr jnn \<Longrightarrow> p = q"
    and "\<And>p inn. imem fs p = Some inn \<Longrightarrow> p < inext fs \<and> 0 < i_count inn \<and> 0 \<le> i_nr inn \<and> i_nr inn < int NR_INODES"
  shows "table_ok fs"
  unfolding table_ok_def using assms by blast

lemma inode_hash_find_hit:
  assumes ok: "table_ok fs" and p: "imem fs p = Some inn" "i_nr inn = nr"
  shows "inode_hash_find fs nr = Ok (Some p)"
proof -
  note b = itable_okD(4) [OF ok inode_hashfn_bound [of nr]]
  have "find_in_bucket fs (tab fs ! inode_hashfn nr) nr = Ok (Some p)"
  proof (rule find_in_bucket_hit [OF p])
    show "q = p" if "imem fs q = Some jnn" "i_nr jnn = nr" for q jnn using table_ok_unique [OF ok that(1) p(1)] that p by simp
    show "p \<in> set (tab fs ! inode_hashfn nr)" using b p by simp
    show "\<forall>q \<in> set (tab fs ! inode_hashfn nr). imem fs q \<noteq> None" unfolding b by auto
  qed
  with itable_okD(1) [OF ok] show ?thesis by (simp add: inode_hash_find_def with_table_def)
qed

lemma inode_hash_find_miss:
  assumes ok: "table_ok fs" and no: "\<And>p inn. imem fs p = Some inn \<Longrightarrow> i_nr inn \<noteq> nr"
  shows "inode_hash_find fs nr = Ok None"
proof -
  note b = itable_okD(4) [OF ok inode_hashfn_bound [of nr]]
  have "find_in_bucket fs (tab fs ! inode_hashfn nr) nr = Ok None"
    unfolding b using no by (intro find_in_bucket_miss) (simp only: b, blast)
  with itable_okD(1) [OF ok] show ?thesis by (simp add: inode_hash_find_def with_table_def)
qed

lemma set_inode_simps [simp]:
  "imem (set_inode p inn fs) = (imem fs)(p := Some inn)" "inode_hash_table (set_inode p inn fs) = inode_hash_table fs"
  "inext (set_inode p inn fs) = inext fs" "fsb (set_inode p inn fs) = fsb fs" "tab (set_inode p inn fs) = tab fs"
  by (simp_all add: set_inode_def tab_def)

text \<open>Changing an object without its number.\<close>

lemma table_ok_set:
  assumes ok: "table_ok fs" and p: "imem fs p = Some inn" and n: "i_nr inn' = i_nr inn" "0 < i_count inn'"
  shows "table_ok (set_inode p inn' fs)"
proof (rule table_okI)
  show "inode_hash_table (set_inode p inn' fs) = Some (tab fs)" using itable_okD(1) [OF ok] by simp
  have "(\<exists>jnn. ((imem fs)(p := Some inn')) q = Some jnn \<and> inode_hashfn (i_nr jnn) = k) \<longleftrightarrow> (\<exists>jnn. imem fs q = Some jnn \<and> inode_hashfn (i_nr jnn) = k)" for q k
    using p n by (cases "q = p") simp_all
  then show "buckets_ok (tab fs) (imem (set_inode p inn' fs))" using itable_okD(2-4) [OF ok] by (simp add: buckets_ok_def)
next
  fix a b ann bnn
  assume *: "imem (set_inode p inn' fs) a = Some ann" "imem (set_inode p inn' fs) b = Some bnn" "i_nr ann = i_nr bnn"
  obtain ann' where "imem fs a = Some ann'" "i_nr ann' = i_nr ann" using * p n by (cases "a = p") auto
  moreover obtain bnn' where "imem fs b = Some bnn'" "i_nr bnn' = i_nr bnn" using * p n by (cases "b = p") auto
  ultimately show "a = b" using table_ok_unique [OF ok] *(3) by metis
next
  fix a ann
  assume "imem (set_inode p inn' fs) a = Some ann"
  then show "a < inext (set_inode p inn' fs) \<and> 0 < i_count ann \<and> 0 \<le> i_nr ann \<and> i_nr ann < int NR_INODES"
    using table_ok_entry [OF ok] p n by (cases "a = p") auto
qed

section \<open>Getting and putting an inode\<close>

definition disk_dinode :: "device \<Rightarrow> nat \<Rightarrow> dinode" where
  "disk_dinode d nr = decode_dinode (dblk d (18 + nr div 128)) (nr mod 128 * 64)"

lemma u32_div_mod:
  assumes "nr < 16384"
  shows "testfs_inode_to_block_nr (int nr) = Ok (nr div 128)" "testfs_inode_to_block_offset (int nr) = Ok (nr mod 128 * 64)"
proof -
  have u: "u32_of_int (int nr) = nr" using assms by (intro u32_of_int_small) simp
  have "nr div 128 < 128" using assms by simp
  then show "testfs_inode_to_block_nr (int nr) = Ok (nr div 128)" unfolding testfs_inode_to_block_nr_def u by (simp add: fs_consts Let_def)
  have "nr mod 128 * 64 < 8192" using mod_less_divisor [of 128 nr] by linarith
  then show "testfs_inode_to_block_offset (int nr) = Ok (nr mod 128 * 64)" unfolding testfs_inode_to_block_offset_def u by (simp add: fs_consts Let_def)
qed

lemma inode_block_nr:
  assumes "super_inv sb" and "nr < 16384"
  shows "uint (inode_blocks_start (dsb sb) + of_nat (nr div 128)) = int (18 + nr div 128)" "18 + nr div 128 < dlen (dev sb)" "18 + nr div 128 < DATA_START"
proof -
  have k: "nr div 128 < 128" using assms(2) by simp
  have l: "inode_blocks_start (dsb sb) = 18" "DATA_START \<le> dlen (dev sb)" using super_invD(1) [OF assms(1)] by (simp_all add: layout_ok_def)
  have "unat ((18 :: 32 word) + of_nat (nr div 128)) = 18 + nr div 128" using k by (simp add: unat_word_ariths unat_of_nat)
  then show "uint (inode_blocks_start (dsb sb) + of_nat (nr div 128)) = int (18 + nr div 128)" unfolding l(1) by (simp only: uint_nat)
  show "18 + nr div 128 < DATA_START" using k by (simp add: fs_consts)
  then show "18 + nr div 128 < dlen (dev sb)" using l(2) by simp
qed

lemma read_inode_block_eq:
  assumes "super_inv sb" and "nr < 16384"
  shows "testfs_read_inode_block sb (int nr) = Ok (dblk (dev sb) (18 + nr div 128))"
  unfolding testfs_read_inode_block_def u32_div_mod [OF assms(2)] and_then.simps inode_block_nr(1) [OF assms]
  using inode_block_nr(2) [OF assms] super_invD(1) [OF assms(1)] by (subst read_blocks_1) (simp_all add: layout_ok_def del: of_nat_add)

lemma read_inode_eq:
  assumes "super_inv sb" and "nr < 16384"
  shows "read_inode sb (int nr) = Ok \<lparr>din = disk_dinode (dev sb) nr, i_flags = 0, i_nr = int nr, i_count = 1\<rparr>"
  by (simp add: read_inode_def read_inode_block_eq [OF assms] u32_div_mod [OF assms(2)] disk_dinode_def)

text \<open>The state after an inode that was not in memory was read, and after the last user of an inode has put it.\<close>

definition loaded :: "fs_state \<Rightarrow> inode \<Rightarrow> fs_state" where
  "loaded fs inn = fs\<lparr>imem := (imem fs)(inext fs := Some inn), inext := Suc (inext fs),
     inode_hash_table := Some ((tab fs)[inode_hashfn (i_nr inn) := inext fs # tab fs ! inode_hashfn (i_nr inn)])\<rparr>"

definition dropped :: "fs_state \<Rightarrow> nat \<Rightarrow> fs_state" where
  "dropped fs p = fs\<lparr>imem := (imem fs)(p := None), inode_hash_table := Some (map (remove1 p) (tab fs))\<rparr>"

definition uncached :: "fs_state \<Rightarrow> int \<Rightarrow> bool" where
  "uncached fs nr \<longleftrightarrow> (\<forall>p inn. imem fs p = Some inn \<longrightarrow> i_nr inn \<noteq> nr)"

definition fresh_inode :: "super_block \<Rightarrow> nat \<Rightarrow> inode" where
  "fresh_inode sb nr = \<lparr>din = disk_dinode (dev sb) nr, i_flags = 0, i_nr = int nr, i_count = 1\<rparr>"

lemma get_inode_hit:
  assumes "table_ok fs" and "imem fs p = Some inn" "i_nr inn = nr"
  shows "testfs_get_inode fs nr = Ok (p, set_inode p (inn\<lparr>i_count := i_count inn + 1\<rparr>) fs)"
  using inode_hash_find_hit [OF assms] assms(2) by (simp add: testfs_get_inode_def with_inode_def)

lemma get_inode_miss:
  assumes ok: "table_ok fs" and inv: "super_inv (fsb fs)" and no: "uncached fs (int nr)" and nr: "nr < 16384"
  shows "testfs_get_inode fs (int nr) = Ok (inext fs, loaded fs (fresh_inode (fsb fs) nr))"
proof -
  have "inode_hash_find fs (int nr) = Ok None" using inode_hash_find_miss [OF ok] no by (simp add: uncached_def)
  then show ?thesis using read_inode_eq [OF inv nr] itable_okD(1) [OF ok]
    by (simp add: testfs_get_inode_def loaded_def inode_hash_insert_def with_table_def with_inode_def fresh_inode_def Let_def set_inode_def)
qed

lemma not_in_bucket: "table_ok fs \<Longrightarrow> imem fs p = None \<Longrightarrow> k < inode_hash_size \<Longrightarrow> p \<notin> set (tab fs ! k)"
  using itable_okD(4) [of fs k] by auto

lemma inext_unused: "table_ok fs \<Longrightarrow> imem fs (inext fs) = None"
  using table_ok_entry(1) [of fs "inext fs"] by (cases "imem fs (inext fs)") auto

lemma table_ok_loaded:
  assumes ok: "table_ok fs" and no: "uncached fs (i_nr inn)" and n: "0 \<le> i_nr inn" "i_nr inn < int NR_INODES" "0 < i_count inn"
  shows "table_ok (loaded fs inn)"
proof (rule table_okI)
  let ?p = "inext fs" and ?h = "inode_hashfn (i_nr inn)"
  show "inode_hash_table (loaded fs inn) = Some ((tab fs)[?h := ?p # tab fs ! ?h])" by (simp add: loaded_def)
  have h: "?h < inode_hash_size" by (rule inode_hashfn_bound)
  have new: "imem fs ?p = None" by (rule inext_unused [OF ok])
  have eq: "(\<exists>jnn. ((imem fs)(?p := Some inn)) q = Some jnn \<and> inode_hashfn (i_nr jnn) = k) \<longleftrightarrow>
      (q = ?p \<and> k = ?h) \<or> (\<exists>jnn. imem fs q = Some jnn \<and> inode_hashfn (i_nr jnn) = k)" for q k
    using new by (cases "q = ?p") auto
  have "distinct ((tab fs)[?h := ?p # tab fs ! ?h] ! k) \<and>
      set ((tab fs)[?h := ?p # tab fs ! ?h] ! k) = {q. \<exists>jnn. ((imem fs)(?p := Some inn)) q = Some jnn \<and> inode_hashfn (i_nr jnn) = k}"
    if k: "k < inode_hash_size" for k
    unfolding eq using itable_okD(2-4) [OF ok] h k not_in_bucket [OF ok new k] by (cases "k = ?h") auto
  then show "buckets_ok ((tab fs)[?h := ?p # tab fs ! ?h]) (imem (loaded fs inn))"
    using itable_okD(2) [OF ok] by (simp add: buckets_ok_def loaded_def)
next
  fix a b ann bnn
  assume "imem (loaded fs inn) a = Some ann" "imem (loaded fs inn) b = Some bnn" "i_nr ann = i_nr bnn"
  then show "a = b" using no table_ok_unique [OF ok, of a ann b bnn]
    by (cases "a = inext fs"; cases "b = inext fs") (auto simp: loaded_def uncached_def)
next
  fix a ann
  assume "imem (loaded fs inn) a = Some ann"
  then show "a < inext (loaded fs inn) \<and> 0 < i_count ann \<and> 0 \<le> i_nr ann \<and> i_nr ann < int NR_INODES"
    using table_ok_entry [OF ok, of a ann] n by (cases "a = inext fs") (auto simp: loaded_def)
qed

lemma table_ok_dropped:
  assumes ok: "table_ok fs" and p: "imem fs p = Some inn"
  shows "table_ok (dropped fs p)"
proof (rule table_okI)
  show "inode_hash_table (dropped fs p) = Some (map (remove1 p) (tab fs))" by (simp add: dropped_def)
  have "distinct (remove1 p (tab fs ! k)) \<and>
      set (remove1 p (tab fs ! k)) = {q. \<exists>jnn. ((imem fs)(p := None)) q = Some jnn \<and> inode_hashfn (i_nr jnn) = k}"
    if k: "k < inode_hash_size" for k
    using itable_okD(3,4) [OF ok k] by auto
  then show "buckets_ok (map (remove1 p) (tab fs)) (imem (dropped fs p))"
    using itable_okD(2) [OF ok] by (simp add: buckets_ok_def dropped_def)
next
  fix a b ann bnn
  assume "imem (dropped fs p) a = Some ann" "imem (dropped fs p) b = Some bnn" "i_nr ann = i_nr bnn"
  then show "a = b" using table_ok_unique [OF ok, of a ann b bnn] by (auto simp: dropped_def split: if_splits)
next
  fix a ann
  assume "imem (dropped fs p) a = Some ann"
  then show "a < inext (dropped fs p) \<and> 0 < i_count ann \<and> 0 \<le> i_nr ann \<and> i_nr ann < int NR_INODES"
    using table_ok_entry [OF ok, of a ann] by (auto simp: dropped_def split: if_splits)
qed

lemma put_inode_eq:
  assumes ok: "table_ok fs" and p: "imem fs p = Some inn" and clean: "i_flags inn AND I_FLAGS_DIRTY = 0"
  shows "testfs_put_inode fs p = Ok (if i_count inn = 1 then dropped fs p else set_inode p (inn\<lparr>i_count := i_count inn - 1\<rparr>) fs)"
  using itable_okD(1) [OF ok] p clean
  by (simp add: testfs_put_inode_def with_inode_def Let_def inode_hash_remove_def with_table_def dropped_def set_inode_def)

lemma put_inode_dirty: "imem fs p = Some inn \<Longrightarrow> i_flags inn AND I_FLAGS_DIRTY \<noteq> 0 \<Longrightarrow> testfs_put_inode fs p = Crash AssertFail"
  by (simp add: testfs_put_inode_def with_inode_def)

end
