(* ===== verification/FS_Core.thy ===== *)
theory FS_Core
  imports FS_ITable
begin

text \<open>
  The invariant of a mounted file system and its preservation: every inode in use is a consistent file, no block belongs to two files and
  none is lost, the objects in memory agree with the device unless they are dirty. One lemma per operation of \<open>FS_ITable\<close>, and one for
  any operation on a single file.
\<close>

unbundle bit_operations_syntax

section \<open>A file whose blocks do not change\<close>

lemma file_frame:
  assumes inv: "super_inv sb" and ok: "file_ok sb di" and fr: "fs_frame A sb sb'" and A: "A \<inter> owned (dev sb) di = {}"
    and used: "owned (dev sb) di \<subseteq> used_blocks sb'"
  shows "file_ok sb' di" "owned (dev sb') di = owned (dev sb) di" "file_bytes (dev sb') di = file_bytes (dev sb) di"
proof -
  have wf: "map_wf {} sb di" and F: "0 \<le> i_size di" "i_size di \<le> int max_bytes" "covered (dev sb) di (i_size di)"
    "\<And>i. i < max_bytes \<Longrightarrow> i_size di \<le> int i \<Longrightarrow> fbyte (dev sb) di i = 0" using ok by (auto simp: file_ok_def)
  have "A \<inter> index_blocks (dev sb) di = {}" using A index_blocks_owned [of "dev sb" di] by blast
  note val = slot_val_frame [OF inv wf fr this]
  show own: "owned (dev sb') di = owned (dev sb) di" by (rule owned_cong) (rule val)
  have live: "live (dev sb') di = live (dev sb) di" by (rule live_cong) (rule val)
  have bm: "bmap (dev sb') di l = bmap (dev sb) di l" if "l < 4196362" for l using val [of "S_data l"] that by simp
  have byte: "fbyte (dev sb') di i = fbyte (dev sb) di i" if i: "i < max_bytes" for i
  proof -
    have l: "i div BLOCK_SIZE < 4196362" using i block_of_byte by blast
    show ?thesis
    proof (cases "bmap (dev sb) di (i div BLOCK_SIZE) = 0")
      case True
      then show ?thesis using bm [OF l] by (simp add: fbyte_def block_data_def)
    next
      case False
      let ?q = "nat (bmap (dev sb) di (i div BLOCK_SIZE))"
      have "?q \<in> owned (dev sb) di" using False l by (auto simp: owned_def live_def intro!: image_eqI [of _ _ "S_data (i div BLOCK_SIZE)"])
      moreover then have "?q \<in> used_blocks sb" using owned_used [OF wf] by blast
      then have "18 \<le> ?q" using used_blocks_bound(1) [OF inv, of ?q] by (simp add: fs_consts)
      ultimately have "dblk (dev sb') ?q = dblk (dev sb) ?q" using A fr by (intro fs_frameD [of A sb]) auto
      then show ?thesis using bm [OF l] by (simp add: fbyte_def block_data_def)
    qed
  qed
  show "file_bytes (dev sb') di = file_bytes (dev sb) di" using F(2) by (auto simp: file_bytes_def intro!: byte)
  have "map_wf {} sb' di"
    using wf used fs_frame_dlen [OF fr] val by (intro map_wf_cong [OF wf]) (auto simp: map_wf_def)
  moreover have "covered (dev sb') di (i_size di)" using F(3) by (simp add: covered_def live)
  ultimately show "file_ok sb' di" using F byte by (simp add: file_ok_def)
qed

section \<open>The invariant of a mounted file system\<close>

definition dirty :: "inode \<Rightarrow> bool" where
  "dirty inn \<longleftrightarrow> i_flags inn AND I_FLAGS_DIRTY \<noteq> 0"

text \<open>The inodes in use, and the current state of an inode: the one in memory if there is one, else the one on the device.\<close>

definition used_inodes :: "super_block \<Rightarrow> nat set" where
  "used_inodes sb = used_bits (inode_map sb)"

definition cur :: "fs_state \<Rightarrow> nat \<Rightarrow> dinode" where
  "cur fs nr = (if uncached fs (int nr) then disk_dinode (dev (fsb fs)) nr
     else din (the (imem fs (SOME p. \<exists>inn. imem fs p = Some inn \<and> i_nr inn = int nr))))"

lemma cur_cached:
  assumes ok: "table_ok fs" and p: "imem fs p = Some inn" "i_nr inn = int nr"
  shows "cur fs nr = din inn"
proof -
  have "q = p" if "\<exists>jnn. imem fs q = Some jnn \<and> i_nr jnn = int nr" for q using that p table_ok_unique [OF ok, of q _ p inn] by auto
  then have "(SOME q. \<exists>jnn. imem fs q = Some jnn \<and> i_nr jnn = int nr) = p" using p by (intro some_equality) blast+
  moreover have "\<not> uncached fs (int nr)" using p by (auto simp: uncached_def)
  ultimately show ?thesis using p by (simp add: cur_def)
qed

lemma cur_uncached: "uncached fs (int nr) \<Longrightarrow> cur fs nr = disk_dinode (dev (fsb fs)) nr"
  by (simp add: cur_def)

lemma cached_cases:
  assumes "table_ok fs"
  obtains (mem) p inn where "imem fs p = Some inn" "i_nr inn = int nr" "cur fs nr = din inn"
  | (disk) "uncached fs (int nr)" "cur fs nr = disk_dinode (dev (fsb fs)) nr"
  using cur_cached [OF assms] cur_uncached [of fs nr] unfolding uncached_def by metis

text \<open>
  Every inode in use is a consistent file or directory, the blocks in use are exactly those of these files and no two files share one,
  the inodes that are not in use are zero on the device and not in memory, and an inode in memory that is not dirty agrees with the device.
\<close>

definition core_inv :: "fs_state \<Rightarrow> bool" where
  "core_inv fs \<longleftrightarrow> super_inv (fsb fs) \<and> table_ok fs \<and> used_inodes (fsb fs) \<subseteq> {..<NR_INODES} \<and>
     (\<forall>nr \<in> used_inodes (fsb fs). file_ok (fsb fs) (cur fs nr) \<and> i_type (cur fs nr) \<in> {1, 2}) \<and>
     (\<forall>nr < NR_INODES. nr \<notin> used_inodes (fsb fs) \<longrightarrow> uncached fs (int nr) \<and> disk_dinode (dev (fsb fs)) nr = zero_dinode) \<and>
     (\<forall>m \<in> used_inodes (fsb fs). \<forall>n \<in> used_inodes (fsb fs). m \<noteq> n \<longrightarrow> owned (dev (fsb fs)) (cur fs m) \<inter> owned (dev (fsb fs)) (cur fs n) = {}) \<and>
     used_blocks (fsb fs) = (\<Union>nr \<in> used_inodes (fsb fs). owned (dev (fsb fs)) (cur fs nr)) \<and>
     (\<forall>p inn. imem fs p = Some inn \<and> \<not> dirty inn \<longrightarrow> disk_dinode (dev (fsb fs)) (nat (i_nr inn)) = din inn)"

lemma core_invD:
  assumes "core_inv fs"
  shows "super_inv (fsb fs)" "table_ok fs" "nr \<in> used_inodes (fsb fs) \<Longrightarrow> nr < NR_INODES"
    "nr \<in> used_inodes (fsb fs) \<Longrightarrow> file_ok (fsb fs) (cur fs nr)" "nr \<in> used_inodes (fsb fs) \<Longrightarrow> i_type (cur fs nr) \<in> {1, 2}"
    "nr < NR_INODES \<Longrightarrow> nr \<notin> used_inodes (fsb fs) \<Longrightarrow> uncached fs (int nr)"
    "nr < NR_INODES \<Longrightarrow> nr \<notin> used_inodes (fsb fs) \<Longrightarrow> disk_dinode (dev (fsb fs)) nr = zero_dinode"
    "m \<in> used_inodes (fsb fs) \<Longrightarrow> n \<in> used_inodes (fsb fs) \<Longrightarrow> m \<noteq> n \<Longrightarrow> owned (dev (fsb fs)) (cur fs m) \<inter> owned (dev (fsb fs)) (cur fs n) = {}"
    "used_blocks (fsb fs) = (\<Union>nr \<in> used_inodes (fsb fs). owned (dev (fsb fs)) (cur fs nr))"
    "imem fs p = Some inn \<Longrightarrow> \<not> dirty inn \<Longrightarrow> disk_dinode (dev (fsb fs)) (nat (i_nr inn)) = din inn"
  using assms by (simp_all add: core_inv_def subset_iff)

lemma core_invI:
  assumes "super_inv (fsb fs)" and "table_ok fs" and "\<And>nr. nr \<in> used_inodes (fsb fs) \<Longrightarrow> nr < NR_INODES"
    and "\<And>nr. nr \<in> used_inodes (fsb fs) \<Longrightarrow> file_ok (fsb fs) (cur fs nr) \<and> i_type (cur fs nr) \<in> {1, 2}"
    and "\<And>nr. nr < NR_INODES \<Longrightarrow> nr \<notin> used_inodes (fsb fs) \<Longrightarrow> uncached fs (int nr) \<and> disk_dinode (dev (fsb fs)) nr = zero_dinode"
    and "\<And>m n. m \<in> used_inodes (fsb fs) \<Longrightarrow> n \<in> used_inodes (fsb fs) \<Longrightarrow> m \<noteq> n \<Longrightarrow> owned (dev (fsb fs)) (cur fs m) \<inter> owned (dev (fsb fs)) (cur fs n) = {}"
    and "used_blocks (fsb fs) = (\<Union>nr \<in> used_inodes (fsb fs). owned (dev (fsb fs)) (cur fs nr))"
    and "\<And>p inn. imem fs p = Some inn \<Longrightarrow> \<not> dirty inn \<Longrightarrow> disk_dinode (dev (fsb fs)) (nat (i_nr inn)) = din inn"
  shows "core_inv fs"
proof (unfold core_inv_def, intro conjI)
  show "used_inodes (fsb fs) \<subseteq> {..<NR_INODES}" using assms(3) by auto
  show "\<forall>nr \<in> used_inodes (fsb fs). file_ok (fsb fs) (cur fs nr) \<and> i_type (cur fs nr) \<in> {1, 2}" using assms(4) by blast
  show "\<forall>nr < NR_INODES. nr \<notin> used_inodes (fsb fs) \<longrightarrow> uncached fs (int nr) \<and> disk_dinode (dev (fsb fs)) nr = zero_dinode" using assms(5) by blast
  show "\<forall>m \<in> used_inodes (fsb fs). \<forall>n \<in> used_inodes (fsb fs). m \<noteq> n \<longrightarrow> owned (dev (fsb fs)) (cur fs m) \<inter> owned (dev (fsb fs)) (cur fs n) = {}"
    using assms(6) by blast
  show "\<forall>p inn. imem fs p = Some inn \<and> \<not> dirty inn \<longrightarrow> disk_dinode (dev (fsb fs)) (nat (i_nr inn)) = din inn" using assms(8) by blast
qed (rule assms)+

lemma core_inv_mem:
  assumes "core_inv fs" and "imem fs p = Some inn"
  shows "nat (i_nr inn) \<in> used_inodes (fsb fs)" "int (nat (i_nr inn)) = i_nr inn" "cur fs (nat (i_nr inn)) = din inn" "file_ok (fsb fs) (din inn)"
proof -
  note E = table_ok_entry [OF core_invD(2) [OF assms(1)] assms(2)]
  show n: "int (nat (i_nr inn)) = i_nr inn" using E by simp
  show u: "nat (i_nr inn) \<in> used_inodes (fsb fs)"
  proof (rule ccontr)
    assume "nat (i_nr inn) \<notin> used_inodes (fsb fs)"
    then have "uncached fs (i_nr inn)" using core_invD(6) [OF assms(1), of "nat (i_nr inn)"] E by simp
    with assms(2) show False by (auto simp: uncached_def)
  qed
  show c: "cur fs (nat (i_nr inn)) = din inn" using cur_cached [OF core_invD(2) [OF assms(1)] assms(2)] n by simp
  show "file_ok (fsb fs) (din inn)" using core_invD(4) [OF assms(1) u] c by simp
qed

section \<open>Steps that change one inode\<close>

lemma table_ok_fsb [simp]: "table_ok (fs\<lparr>fsb := sb\<rparr>) = table_ok fs" "uncached (fs\<lparr>fsb := sb\<rparr>) nr = uncached fs nr"
  by (simp_all add: table_ok_def uncached_def)

lemma disk_dinode_frame:
  assumes "fs_frame A sb sb'" and "\<And>q. q \<in> A \<Longrightarrow> DATA_START \<le> q" and "m < NR_INODES"
  shows "disk_dinode (dev sb') m = disk_dinode (dev sb) m"
proof -
  have m: "18 + m div 128 < DATA_START" using assms(3) by (simp add: fs_consts)
  then have "18 + m div 128 \<notin> A" using assms(2) [of "18 + m div 128"] by linarith
  then show ?thesis using fs_frameD [OF assms(1)] by (simp add: disk_dinode_def)
qed

lemma used_inodes_frame: "fs_frame A sb sb' \<Longrightarrow> used_inodes sb' = used_inodes sb"
  by (simp add: fs_frame_def used_inodes_def inode_map_def)

lemma foreign_others:
  assumes core: "core_inv fs" and nr: "nr \<in> used_inodes (fsb fs)"
  shows "foreign (fsb fs) (cur fs nr) = (\<Union>m \<in> used_inodes (fsb fs) - {nr}. owned (dev (fsb fs)) (cur fs m))"
proof -
  have "owned (dev (fsb fs)) (cur fs m) \<inter> owned (dev (fsb fs)) (cur fs nr) = {}" if "m \<in> used_inodes (fsb fs) - {nr}" for m
    using core_invD(8) [OF core] that nr by blast
  then show ?thesis unfolding foreign_def core_invD(9) [OF core] using nr by blast
qed

text \<open>The other inodes are the same after the object at \<open>p\<close> was changed to \<open>inn'\<close> and the super block to \<open>sb'\<close>.\<close>

lemma cur_other:
  assumes ok: "table_ok fs" and p: "imem fs p = Some inn" and n: "i_nr inn' = i_nr inn" "0 < i_count inn'"
    and m: "int m \<noteq> i_nr inn" and disk: "disk_dinode (dev sb') m = disk_dinode (dev (fsb fs)) m"
  shows "cur (set_inode p inn' (fs\<lparr>fsb := sb'\<rparr>)) m = cur fs m"
proof -
  let ?fs' = "set_inode p inn' (fs\<lparr>fsb := sb'\<rparr>)"
  have ok': "table_ok ?fs'" using table_ok_set [of "fs\<lparr>fsb := sb'\<rparr>" p inn inn'] ok p n by simp
  from ok show ?thesis
  proof (cases rule: cached_cases [where nr = m])
    case (mem q jnn)
    then have "q \<noteq> p" using p m by auto
    then have "imem ?fs' q = Some jnn" using mem by simp
    from cur_cached [OF ok' this mem(2)] mem(3) show ?thesis by simp
  next
    case disk
    then have "uncached ?fs' (int m)" using p n m by (auto simp: uncached_def)
    then show ?thesis using disk(2) \<open>disk_dinode (dev sb') m = _\<close> by (simp add: cur_uncached)
  qed
qed

lemma file_step:
  assumes core: "core_inv fs" and p: "imem fs p = Some inn"
    and sb': "super_inv sb'" "file_ok sb' (din inn')" "keeps_foreign (fsb fs) (din inn) sb' (din inn')" and id: "same_id inn inn'"
    and dirt: "\<not> dirty inn' \<Longrightarrow> \<not> dirty inn \<and> din inn' = din inn"
    and fs': "fs' = set_inode p inn' (fs\<lparr>fsb := sb'\<rparr>)"
  shows "core_inv fs'" "used_inodes (fsb fs') = used_inodes (fsb fs)" "cur fs' (nat (i_nr inn)) = din inn'"
    "m < NR_INODES \<Longrightarrow> m \<noteq> nat (i_nr inn) \<Longrightarrow> cur fs' m = cur fs m"
    "m \<in> used_inodes (fsb fs) \<Longrightarrow> m \<noteq> nat (i_nr inn) \<Longrightarrow> file_bytes (dev (fsb fs')) (cur fs' m) = file_bytes (dev (fsb fs)) (cur fs m)"
proof -
  let ?sb = "fsb fs" and ?nr = "nat (i_nr inn)" and ?di = "din inn"
  note C = core_invD [OF core] and M = core_inv_mem [OF core p]
  have fr: "fs_frame {q. DATA_START \<le> q \<and> q \<notin> foreign ?sb ?di} ?sb sb'" and fo: "foreign sb' (din inn') = foreign ?sb ?di"
    using sb'(3) by (auto simp: keeps_foreign_def)
  have sb: "fsb fs' = sb'" by (simp add: fs')
  have used: "used_inodes sb' = used_inodes ?sb" by (rule used_inodes_frame [OF fr])
  then show "used_inodes (fsb fs') = used_inodes (fsb fs)" by (simp add: sb)
  have disk: "disk_dinode (dev sb') m = disk_dinode (dev ?sb) m" if "m < NR_INODES" for m by (rule disk_dinode_frame [OF fr _ that]) simp
  have n: "i_nr inn' = i_nr inn" "0 < i_count inn'" using id table_ok_entry(2) [OF C(2) p] by (simp_all add: same_id_def)
  have ok': "table_ok fs'" using table_ok_set [of "fs\<lparr>fsb := sb'\<rparr>" p inn inn'] C(2) p n by (simp add: fs')
  show here: "cur fs' ?nr = din inn'" using cur_cached [OF ok', of p inn' ?nr] n M(2) by (simp add: fs')
  have there: "cur fs' m = cur fs m" if "m < NR_INODES" "m \<noteq> ?nr" for m
    unfolding fs' using that by (intro cur_other [OF C(2) p n _ disk]) auto
  then show "m < NR_INODES \<Longrightarrow> m \<noteq> nat (i_nr inn) \<Longrightarrow> cur fs' m = cur fs m" .
  have others: "foreign ?sb ?di = (\<Union>m \<in> used_inodes ?sb - {?nr}. owned (dev ?sb) (cur fs m))" using foreign_others [OF core M(1)] M(3) by simp
  have keep: "file_ok sb' (cur fs m)" "owned (dev sb') (cur fs m) = owned (dev ?sb) (cur fs m)" "file_bytes (dev sb') (cur fs m) = file_bytes (dev ?sb) (cur fs m)"
    if m: "m \<in> used_inodes ?sb - {?nr}" for m
  proof -
    have "owned (dev ?sb) (cur fs m) \<subseteq> foreign ?sb ?di" unfolding others using m by blast
    moreover have "foreign ?sb ?di \<subseteq> used_blocks sb'" unfolding fo [symmetric] by (auto simp: foreign_def)
    ultimately have "{q. DATA_START \<le> q \<and> q \<notin> foreign ?sb ?di} \<inter> owned (dev ?sb) (cur fs m) = {}" "owned (dev ?sb) (cur fs m) \<subseteq> used_blocks sb'" by blast+
    note F = file_frame [OF C(1) C(4) fr this] m
    show "file_ok sb' (cur fs m)" "owned (dev sb') (cur fs m) = owned (dev ?sb) (cur fs m)" "file_bytes (dev sb') (cur fs m) = file_bytes (dev ?sb) (cur fs m)"
      using F m by blast+
  qed
  show "m \<in> used_inodes (fsb fs) \<Longrightarrow> m \<noteq> nat (i_nr inn) \<Longrightarrow> file_bytes (dev (fsb fs')) (cur fs' m) = file_bytes (dev (fsb fs)) (cur fs m)"
    using keep(3) [of m] there [of m] C(3) [of m] by (simp add: sb)
  have own: "owned (dev sb') (cur fs' m) = (if m = ?nr then owned (dev sb') (din inn') else owned (dev ?sb) (cur fs m))" if "m \<in> used_inodes ?sb" for m
    using that keep(2) [of m] there [of m] C(3) [of m] here by simp
  show "core_inv fs'"
  proof (rule core_invI, unfold sb used)
    show "super_inv sb'" "table_ok fs'" by fact+
    show "m < NR_INODES" if "m \<in> used_inodes ?sb" for m using C(3) that .
    show "file_ok sb' (cur fs' m) \<and> i_type (cur fs' m) \<in> {1, 2}" if m: "m \<in> used_inodes ?sb" for m
      using keep(1) [of m] there [of m] C(3,5) [OF m] m here sb'(2) id M(3) by (cases "m = ?nr") (auto simp: same_id_def)
    show "uncached fs' (int m) \<and> disk_dinode (dev sb') m = zero_dinode" if "m < NR_INODES" "m \<notin> used_inodes ?sb" for m
    proof -
      have "uncached fs (int m)" "m \<noteq> ?nr" using C(6) [OF that] that M(1) by auto
      then have "uncached fs' (int m)" using n M(2) p by (auto simp: uncached_def fs')
      then show ?thesis using disk that C(7) by simp
    qed
    show "owned (dev sb') (cur fs' m) \<inter> owned (dev sb') (cur fs' k) = {}" if mk: "m \<in> used_inodes ?sb" "k \<in> used_inodes ?sb" "m \<noteq> k" for m k
    proof -
      have dis: "owned (dev ?sb) (cur fs i) \<inter> owned (dev sb') (din inn') = {}" if "i \<in> used_inodes ?sb - {?nr}" for i
      proof -
        have "owned (dev ?sb) (cur fs i) \<subseteq> foreign sb' (din inn')" unfolding fo others using that by blast
        then show ?thesis by (auto simp: foreign_def)
      qed
      show ?thesis unfolding own [OF mk(1)] own [OF mk(2)] using dis [of m] dis [of k] C(8) [OF mk] mk by auto
    qed
    have "used_blocks sb' = foreign sb' (din inn') \<union> owned (dev sb') (din inn')"
      using owned_used [of "{}" sb' "din inn'"] sb'(2) by (auto simp: foreign_def file_ok_def)
    also have "\<dots> = (\<Union>m \<in> used_inodes ?sb - {?nr}. owned (dev ?sb) (cur fs m)) \<union> owned (dev sb') (din inn')" unfolding fo others ..
    also have "\<dots> = (\<Union>m \<in> used_inodes ?sb. owned (dev sb') (cur fs' m))" using own M(1) by (auto split: if_splits)
    finally show "used_blocks sb' = (\<Union>m \<in> used_inodes ?sb. owned (dev sb') (cur fs' m))" .
    show "disk_dinode (dev sb') (nat (i_nr jnn)) = din jnn" if q: "imem fs' q = Some jnn" "\<not> dirty jnn" for q jnn
    proof (cases "q = p")
      case True
      then have "jnn = inn'" using q by (simp add: fs')
      with q(2) dirt have d: "\<not> dirty inn" "din jnn = din inn" "i_nr jnn = i_nr inn" using n by auto
      show ?thesis unfolding d(2,3) using disk [OF C(3) [OF M(1)]] C(10) [OF p d(1)] by simp
    next
      case False
      then have q': "imem fs q = Some jnn" using q by (simp add: fs')
      then have "nat (i_nr jnn) < NR_INODES" using core_inv_mem(1) [OF core q'] C(3) by blast
      then show ?thesis using disk C(10) [OF q' q(2)] by simp
    qed
  qed
qed

section \<open>The operations of the table keep the invariant\<close>

lemma core_inv_cong:
  assumes core: "core_inv fs" and ok: "table_ok fs'" and sb: "fsb fs' = fsb fs" and cur: "\<And>m. m < NR_INODES \<Longrightarrow> cur fs' m = cur fs m"
    and no: "\<And>m. m < NR_INODES \<Longrightarrow> m \<notin> used_inodes (fsb fs) \<Longrightarrow> uncached fs' (int m)"
    and clean: "\<And>p inn. imem fs' p = Some inn \<Longrightarrow> \<not> dirty inn \<Longrightarrow> disk_dinode (dev (fsb fs)) (nat (i_nr inn)) = din inn"
  shows "core_inv fs'"
proof -
  note C = core_invD [OF core]
  have c: "cur fs' m = cur fs m" if "m \<in> used_inodes (fsb fs)" for m using cur C(3) that by blast
  show ?thesis
  proof (rule core_invI, unfold sb)
    show "used_blocks (fsb fs) = (\<Union>nr \<in> used_inodes (fsb fs). owned (dev (fsb fs)) (cur fs' nr))" using C(9) c by simp
    show "owned (dev (fsb fs)) (cur fs' m) \<inter> owned (dev (fsb fs)) (cur fs' n) = {}"
      if "m \<in> used_inodes (fsb fs)" "n \<in> used_inodes (fsb fs)" "m \<noteq> n" for m n using C(8) [OF that] c that by simp
    show "file_ok (fsb fs) (cur fs' nr) \<and> i_type (cur fs' nr) \<in> {1, 2}" if "nr \<in> used_inodes (fsb fs)" for nr using C(4,5) [OF that] c [OF that] by simp
  qed (use C ok no clean in auto)
qed

lemma cur_set_count:
  assumes ok: "table_ok fs" and p: "imem fs p = Some inn" and n: "i_nr inn' = i_nr inn" "0 < i_count inn'" "din inn' = din inn"
  shows "cur (set_inode p inn' fs) m = cur fs m"
proof (cases "int m = i_nr inn")
  case True
  have "table_ok (set_inode p inn' fs)" using ok p n by (intro table_ok_set) auto
  from cur_cached [OF this, of p inn' m] cur_cached [OF ok p, of m] True n show ?thesis by simp
next
  case False
  then show ?thesis using cur_other [OF ok p n(1,2), of m "fsb fs"] by simp
qed

lemma uncached_set: "imem fs p = Some inn \<Longrightarrow> i_nr inn' = i_nr inn \<Longrightarrow> uncached (set_inode p inn' fs) nr = uncached fs nr"
  by (auto simp: uncached_def)

text \<open>Changing only the reference count of an object.\<close>

lemma core_inv_count:
  assumes core: "core_inv fs" and p: "imem fs p = Some inn" and c: "0 < c"
  shows "core_inv (set_inode p (inn\<lparr>i_count := c\<rparr>) fs)" "cur (set_inode p (inn\<lparr>i_count := c\<rparr>) fs) m = cur fs m"
proof -
  note C = core_invD [OF core]
  show cur: "cur (set_inode p (inn\<lparr>i_count := c\<rparr>) fs) m = cur fs m" for m using cur_set_count [OF C(2) p] c by simp
  show "core_inv (set_inode p (inn\<lparr>i_count := c\<rparr>) fs)"
  proof (rule core_inv_cong [OF core])
    show "table_ok (set_inode p (inn\<lparr>i_count := c\<rparr>) fs)" using C(2) p c by (intro table_ok_set) auto
    show "uncached (set_inode p (inn\<lparr>i_count := c\<rparr>) fs) (int m)" if "m < NR_INODES" "m \<notin> used_inodes (fsb fs)" for m
      using C(6) [OF that] uncached_set [OF p] by simp
    show "disk_dinode (dev (fsb fs)) (nat (i_nr jnn)) = din jnn" if "imem (set_inode p (inn\<lparr>i_count := c\<rparr>) fs) q = Some jnn" "\<not> dirty jnn" for q jnn
      using that C(10) [of q jnn] C(10) [OF p] by (cases "q = p") (auto simp: dirty_def)
  qed (use cur in simp_all)
qed

lemma core_inv_loaded:
  assumes core: "core_inv fs" and nr: "nr \<in> used_inodes (fsb fs)" and no: "uncached fs (int nr)"
  defines "fs' \<equiv> loaded fs (fresh_inode (fsb fs) nr)"
  shows "core_inv fs'" "cur fs' m = cur fs m"
proof -
  note C = core_invD [OF core]
  have n: "i_nr (fresh_inode (fsb fs) nr) = int nr" "i_count (fresh_inode (fsb fs) nr) = 1" "din (fresh_inode (fsb fs) nr) = disk_dinode (dev (fsb fs)) nr"
    by (simp_all add: fresh_inode_def)
  have ok: "table_ok fs'" unfolding fs'_def using C(2) no C(3) [OF nr] n by (intro table_ok_loaded) simp_all
  have imem: "imem fs' = (imem fs)(inext fs := Some (fresh_inode (fsb fs) nr))" and sb: "fsb fs' = fsb fs" by (simp_all add: fs'_def loaded_def)
  have new: "imem fs (inext fs) = None" by (rule inext_unused [OF C(2)])
  have unc: "uncached fs' (int m) \<longleftrightarrow> uncached fs (int m) \<and> m \<noteq> nr" for m
    using n new unfolding uncached_def imem by (auto split: if_splits)
  show cur: "cur fs' m = cur fs m" for m
  proof (cases "m = nr")
    case True
    then show ?thesis using cur_cached [OF ok, of "inext fs" "fresh_inode (fsb fs) nr" nr] n imem cur_uncached [OF no] by simp
  next
    case False
    from C(2) show ?thesis
    proof (cases rule: cached_cases [where nr = m])
      case (mem q jnn)
      then have "imem fs' q = Some jnn" using new imem by auto
      from cur_cached [OF ok this mem(2)] mem show ?thesis by simp
    next
      case disk
      then show ?thesis using unc [of m] False sb by (simp add: cur_uncached)
    qed
  qed
  show "core_inv fs'"
  proof (rule core_inv_cong [OF core ok sb cur])
    show "uncached fs' (int m)" if "m < NR_INODES" "m \<notin> used_inodes (fsb fs)" for m using unc C(6) [OF that] that nr by auto
    show "disk_dinode (dev (fsb fs)) (nat (i_nr jnn)) = din jnn" if "imem fs' q = Some jnn" "\<not> dirty jnn" for q jnn
      using that C(10) [of q jnn] n imem by (cases "q = inext fs") auto
  qed
qed

lemma core_inv_dropped:
  assumes core: "core_inv fs" and p: "imem fs p = Some inn" and clean: "\<not> dirty inn"
  shows "core_inv (dropped fs p)" "cur (dropped fs p) m = cur fs m"
proof -
  note C = core_invD [OF core] and M = core_inv_mem [OF core p]
  have ok: "table_ok (dropped fs p)" by (rule table_ok_dropped [OF C(2) p])
  have imem: "imem (dropped fs p) = (imem fs)(p := None)" and sb: "fsb (dropped fs p) = fsb fs" by (simp_all add: dropped_def)
  have unc: "uncached (dropped fs p) (int m) \<longleftrightarrow> uncached fs (int m) \<or> m = nat (i_nr inn)" for m
  proof
    assume u: "uncached (dropped fs p) (int m)"
    have "i_nr jnn \<noteq> int m" if "m \<noteq> nat (i_nr inn)" "imem fs q = Some jnn" for q jnn
      using u [unfolded uncached_def, rule_format, of q jnn] that p imem by (cases "q = p") auto
    then show "uncached fs (int m) \<or> m = nat (i_nr inn)" by (auto simp: uncached_def)
  next
    assume u: "uncached fs (int m) \<or> m = nat (i_nr inn)"
    have "i_nr jnn \<noteq> int m" if q: "imem (dropped fs p) q = Some jnn" for q jnn
    proof
      assume eq: "i_nr jnn = int m"
      have "q \<noteq> p" "imem fs q = Some jnn" using q imem by (cases "q = p", simp_all)+
      then show False using u eq M(2) table_ok_unique [OF C(2) _ p, of q jnn] by (auto simp: uncached_def)
    qed
    then show "uncached (dropped fs p) (int m)" by (simp add: uncached_def)
  qed
  show cur: "cur (dropped fs p) m = cur fs m" for m
  proof (cases "m = nat (i_nr inn)")
    case True
    then show ?thesis using C(10) [OF p clean] unc [of m] M(3) sb by (simp add: cur_uncached)
  next
    case False
    from C(2) show ?thesis
    proof (cases rule: cached_cases [where nr = m])
      case (mem q jnn)
      then have "imem (dropped fs p) q = Some jnn" using imem p False by auto
      from cur_cached [OF ok this mem(2)] mem show ?thesis by simp
    next
      case disk
      then show ?thesis using unc [of m] sb by (simp add: cur_uncached)
    qed
  qed
  show "core_inv (dropped fs p)"
  proof (rule core_inv_cong [OF core ok sb cur])
    show "uncached (dropped fs p) (int m)" if "m < NR_INODES" "m \<notin> used_inodes (fsb fs)" for m using unc C(6) [OF that] by simp
    show "disk_dinode (dev (fsb fs)) (nat (i_nr jnn)) = din jnn" if "imem (dropped fs p) q = Some jnn" "\<not> dirty jnn" for q jnn
      using that C(10) [of q jnn] imem by (cases "q = p") auto
  qed
qed

lemma get_inode_core:
  assumes core: "core_inv fs" and nr: "nr \<in> used_inodes (fsb fs)"
  obtains p inn fs' where "testfs_get_inode fs (int nr) = Ok (p, fs')" "imem fs' p = Some inn" "i_nr inn = int nr" "din inn = cur fs nr"
    "core_inv fs'" "fsb fs' = fsb fs" "\<And>m. cur fs' m = cur fs m" "\<And>q. q \<noteq> p \<Longrightarrow> imem fs' q = imem fs q"
    "imem fs p = Some (inn\<lparr>i_count := i_count inn - 1\<rparr>) \<and> fs' = set_inode p inn fs \<or>
     p = inext fs \<and> imem fs p = None \<and> uncached fs (int nr) \<and> inn = fresh_inode (fsb fs) nr \<and> fs' = loaded fs inn"
proof (cases "uncached fs (int nr)")
  case True
  note C = core_invD [OF core]
  have g: "testfs_get_inode fs (int nr) = Ok (inext fs, loaded fs (fresh_inode (fsb fs) nr))"
    using get_inode_miss [OF C(2,1) True] C(3) [OF nr] by (simp add: NR_INODES_def)
  show thesis
    by (rule that [OF g]) (use True core_inv_loaded [OF core nr True] inext_unused [OF C(2)] cur_uncached [OF True] in \<open>auto simp: loaded_def fresh_inode_def\<close>)
next
  case False
  note C = core_invD [OF core]
  obtain p inn where p: "imem fs p = Some inn" "i_nr inn = int nr" using False by (auto simp: uncached_def)
  note g = get_inode_hit [OF C(2) p]
  have c: "0 < i_count inn + 1" using table_ok_entry(2) [OF C(2) p(1)] by simp
  show thesis
    by (rule that [OF g, of "inn\<lparr>i_count := i_count inn + 1\<rparr>"]) (use p core_inv_count [OF core p(1) c] cur_cached [OF C(2) p] in auto)
qed

lemma put_inode_core:
  assumes core: "core_inv fs" and p: "imem fs p = Some inn" and clean: "\<not> dirty inn"
  obtains fs' where "testfs_put_inode fs p = Ok fs'" "core_inv fs'" "fsb fs' = fsb fs" "\<And>m. cur fs' m = cur fs m" "\<And>q. q \<noteq> p \<Longrightarrow> imem fs' q = imem fs q"
    "imem fs' p = (if i_count inn = 1 then None else Some (inn\<lparr>i_count := i_count inn - 1\<rparr>))"
proof (cases "i_count inn = 1")
  case True
  note e = put_inode_eq [OF core_invD(2) [OF core] p] and D = core_inv_dropped [OF core p clean]
  show thesis by (rule that [of "dropped fs p"]) (use True e clean D in \<open>auto simp: dirty_def dropped_def\<close>)
next
  case False
  have c: "0 < i_count inn - 1" using table_ok_entry(2) [OF core_invD(2) [OF core] p] False by simp
  note e = put_inode_eq [OF core_invD(2) [OF core] p] and D = core_inv_count [OF core p c]
  show thesis by (rule that [of "set_inode p (inn\<lparr>i_count := i_count inn - 1\<rparr>) fs"]) (use False e clean D in \<open>auto simp: dirty_def\<close>)
qed

section \<open>Writing an inode back\<close>

lemma disk_dinode_write:
  assumes "dinode_wf di" and "nr < 16384" "m < 16384"
  shows "disk_dinode (dev_write d (18 + nr div 128) (Suc 0) (encode_dinode (dblk d (18 + nr div 128)) (nr mod 128 * 64) di)) m =
    (if m = nr then di else disk_dinode d m)"
proof (cases "m div 128 = nr div 128")
  case False
  then show ?thesis by (auto simp: disk_dinode_def dblk_dev_write_1)
next
  case True
  let ?a = "encode_dinode (dblk d (18 + nr div 128)) (nr mod 128 * 64) di"
  have bound: "m mod 128 * 64 + 64 \<le> BLOCK_SIZE"
  proof -
    have "m mod 128 < 128" by simp
    then have "Suc (m mod 128) * 64 \<le> 128 * 64" by (intro mult_le_mono1) linarith
    then show ?thesis by (simp add: BLOCK_SIZE_def)
  qed
  then have tr: "decode_dinode (trunc_arr ?a) (m mod 128 * 64) = decode_dinode ?a (m mod 128 * 64)"
    by (intro decode_dinode_cong) (simp add: trunc_arr_def)
  show ?thesis
  proof (cases "m = nr")
    case True
    then show ?thesis using tr decode_encode_dinode [OF assms(1)] by (simp add: disk_dinode_def dblk_dev_write_1)
  next
    case False
    then have "m mod 128 \<noteq> nr mod 128" using True by (metis div_mult_mod_eq)
    then have "m mod 128 * 64 + 64 \<le> nr mod 128 * 64 \<or> nr mod 128 * 64 + 64 \<le> m mod 128 * 64" by arith
    then have "decode_dinode ?a (m mod 128 * 64) = decode_dinode (dblk d (18 + nr div 128)) (m mod 128 * 64)"
      by (intro decode_dinode_cong encode_dinode_other) auto
    then show ?thesis using True False tr by (simp add: disk_dinode_def dblk_dev_write_1)
  qed
qed

lemma sync_inode_dirty:
  assumes inv: "super_inv sb" and d: "dirty inn" and n: "i_nr inn = int nr" "nr < NR_INODES" and wf: "dinode_wf (din inn)"
  obtains inn' sb' where "testfs_sync_inode sb inn = Ok (inn', sb')" "inn' = inn\<lparr>i_flags := i_flags inn AND NOT I_FLAGS_DIRTY\<rparr>" "\<not> dirty inn'"
    "super_inv sb'" "used_blocks sb' = used_blocks sb" "fs_frame {18 + nr div 128} sb sb'"
    "\<And>m. m < NR_INODES \<Longrightarrow> disk_dinode (dev sb') m = (if m = nr then din inn else disk_dinode (dev sb) m)"
proof -
  have nr: "nr < 16384" using n(2) by (simp add: NR_INODES_def)
  let ?a = "encode_dinode (dblk (dev sb) (18 + nr div 128)) (nr mod 128 * 64) (din inn)"
  let ?sb' = "sb\<lparr>dev := dev_write (dev sb) (18 + nr div 128) (Suc 0) ?a\<rparr>"
  have "testfs_write_inode_block sb (int nr) ?a = Ok ?sb'"
    unfolding testfs_write_inode_block_def u32_div_mod [OF nr] and_then.simps inode_block_nr(1) [OF inv nr]
    by (simp add: write_blocks_def testfs_get_dev_def nat_add_distrib)
  then have "testfs_sync_inode sb inn = Ok (inn\<lparr>i_flags := i_flags inn AND NOT I_FLAGS_DIRTY\<rparr>, ?sb')"
    using d by (simp add: testfs_sync_inode_def dirty_def n(1) read_inode_block_eq [OF inv nr] u32_div_mod [OF nr])
  moreover have "\<not> dirty (inn\<lparr>i_flags := i_flags inn AND NOT I_FLAGS_DIRTY\<rparr>)"
    by (simp add: dirty_def) (simp add: bit_eq_iff bit_simps)
  moreover have "super_inv ?sb'" by (rule super_inv_data_write [OF inv]) simp
  moreover have "disk_dinode (dev ?sb') m = (if m = nr then din inn else disk_dinode (dev sb) m)" if "m < NR_INODES" for m
    using disk_dinode_write [OF wf nr, of m "dev sb"] that by (simp add: NR_INODES_def)
  ultimately show thesis by (intro that [of _ ?sb']) (simp_all add: write_frame)
qed

section \<open>The set of inodes in use\<close>

lemma file_ok_freemap [simp]: "file_ok (sb\<lparr>inode_freemap := x\<rparr>) di = file_ok sb di"
proof -
  have "used_blocks (sb\<lparr>inode_freemap := x\<rparr>) = used_blocks sb" by (simp add: used_blocks_def block_map_def)
  then show ?thesis by (simp add: file_ok_def map_wf_def)
qed

lemma core_inv_frame:
  assumes core: "core_inv fs" and sb: "fsb fs' = sb'" and inv: "super_inv sb'" and ok: "table_ok fs'"
    and fr: "fs_frame A (fsb fs) (sb'\<lparr>inode_freemap := inode_freemap (fsb fs)\<rparr>)" "A \<subseteq> {..<DATA_START}"
    and blocks: "used_blocks sb' = used_blocks (fsb fs)" and small: "used_inodes sb' \<subseteq> {..<NR_INODES}"
    and kept: "\<And>m. m \<in> used_inodes sb' \<Longrightarrow> m \<in> used_inodes (fsb fs) \<Longrightarrow> cur fs' m = cur fs m"
    and new: "\<And>m. m \<in> used_inodes sb' \<Longrightarrow> m \<notin> used_inodes (fsb fs) \<Longrightarrow>
      file_ok sb' (cur fs' m) \<and> i_type (cur fs' m) \<in> {1, 2} \<and> owned (dev sb') (cur fs' m) = {}"
    and gone: "\<And>m. m \<in> used_inodes (fsb fs) \<Longrightarrow> m \<notin> used_inodes sb' \<Longrightarrow> owned (dev (fsb fs)) (cur fs m) = {}"
    and unused: "\<And>m. m < NR_INODES \<Longrightarrow> m \<notin> used_inodes sb' \<Longrightarrow> uncached fs' (int m) \<and> disk_dinode (dev sb') m = zero_dinode"
    and clean: "\<And>p inn. imem fs' p = Some inn \<Longrightarrow> \<not> dirty inn \<Longrightarrow> disk_dinode (dev sb') (nat (i_nr inn)) = din inn"
  shows "core_inv fs'" "m \<in> used_inodes (fsb fs) \<Longrightarrow> file_bytes (dev sb') (cur fs m) = file_bytes (dev (fsb fs)) (cur fs m)"
proof -
  note C = core_invD [OF core]
  have F: "file_ok sb' (cur fs m) \<and> owned (dev sb') (cur fs m) = owned (dev (fsb fs)) (cur fs m) \<and> file_bytes (dev sb') (cur fs m) = file_bytes (dev (fsb fs)) (cur fs m)"
    if m: "m \<in> used_inodes (fsb fs)" for m
  proof -
    have own: "owned (dev (fsb fs)) (cur fs m) \<subseteq> used_blocks (fsb fs)" using C(4) [OF m] owned_used by (auto simp: file_ok_def)
    then have "A \<inter> owned (dev (fsb fs)) (cur fs m) = {}" using used_blocks_bound(1) [OF C(1)] fr(2) by fastforce
    moreover have "used_blocks (sb'\<lparr>inode_freemap := inode_freemap (fsb fs)\<rparr>) = used_blocks sb'" by (simp add: used_blocks_def block_map_def)
    ultimately show ?thesis using file_frame [OF C(1) C(4) [OF m] fr(1)] own blocks by simp
  qed
  then show "m \<in> used_inodes (fsb fs) \<Longrightarrow> file_bytes (dev sb') (cur fs m) = file_bytes (dev (fsb fs)) (cur fs m)" by blast
  have own: "owned (dev sb') (cur fs' m) = (if m \<in> used_inodes (fsb fs) then owned (dev (fsb fs)) (cur fs m) else {})" if "m \<in> used_inodes sb'" for m
    using kept [OF that] new [OF that] F [of m] by simp
  show "core_inv fs'"
  proof (rule core_invI, unfold sb)
    show "file_ok sb' (cur fs' m) \<and> i_type (cur fs' m) \<in> {1, 2}" if "m \<in> used_inodes sb'" for m
      using kept [OF that] new [OF that] F [of m] C(5) [of m] by (cases "m \<in> used_inodes (fsb fs)") simp_all
    show "owned (dev sb') (cur fs' m) \<inter> owned (dev sb') (cur fs' n) = {}" if "m \<in> used_inodes sb'" "n \<in> used_inodes sb'" "m \<noteq> n" for m n
      using own [OF that(1)] own [OF that(2)] C(8) [of m n] that(3) by simp
    have "(\<Union>m \<in> used_inodes sb'. owned (dev sb') (cur fs' m)) = (\<Union>m \<in> used_inodes (fsb fs). owned (dev (fsb fs)) (cur fs m))"
      (is "?L = ?R")
    proof
      show "?L \<subseteq> ?R" using own by (auto split: if_splits)
      show "?R \<subseteq> ?L"
      proof
        fix q assume "q \<in> ?R"
        then obtain m where m: "m \<in> used_inodes (fsb fs)" "q \<in> owned (dev (fsb fs)) (cur fs m)" by blast
        then have "m \<in> used_inodes sb'" using gone [OF m(1)] by blast
        then show "q \<in> ?L" using own [of m] m by auto
      qed
    qed
    then show "used_blocks sb' = (\<Union>m \<in> used_inodes sb'. owned (dev sb') (cur fs' m))" using blocks C(9) by simp
  qed (use inv ok small unused clean in auto)
qed

section \<open>Synchronising, creating and removing an inode\<close>

lemma set_inode_same: "imem fs p = Some inn \<Longrightarrow> set_inode p inn fs = fs"
  by (simp add: set_inode_def fun_upd_idem)

lemma fs_frame_freemap: "fs_frame A sb sb' \<Longrightarrow> fs_frame A sb (sb'\<lparr>inode_freemap := inode_freemap sb\<rparr>)"
  by (simp add: fs_frame_def)

lemma same_blocks_frame: "same_blocks sb sb' \<Longrightarrow> fs_frame {} sb (sb'\<lparr>inode_freemap := inode_freemap sb\<rparr>)"
  by (simp add: same_blocks_def fs_frame_def)

lemma same_blocks_used: "same_blocks sb sb' \<Longrightarrow> used_blocks sb' = used_blocks sb"
  by (simp add: same_blocks_def used_blocks_def block_map_def)

lemma same_blocks_disk: "same_blocks sb sb' \<Longrightarrow> disk_dinode (dev sb') m = disk_dinode (dev sb) m"
  by (simp add: same_blocks_def disk_dinode_def)

lemma same_blocks_trans: "same_blocks sb sb' \<Longrightarrow> same_blocks sb' sb'' \<Longrightarrow> same_blocks sb sb''"
  by (simp add: same_blocks_def)

lemma core_used_small: "core_inv fs \<Longrightarrow> used_inodes (fsb fs) \<subseteq> {..<NR_INODES}"
  using core_invD(3) by blast

lemma uncached_new:
  assumes "imem fs p = None" and "imem fs' = (imem fs)(p := Some inn)" and "i_nr inn \<noteq> nr"
  shows "uncached fs' nr = uncached fs nr"
proof -
  have "(imem fs' q = Some jnn \<longrightarrow> i_nr jnn \<noteq> nr) \<longleftrightarrow> (imem fs q = Some jnn \<longrightarrow> i_nr jnn \<noteq> nr)" for q jnn
    using assms by (cases "q = p") auto
  then show ?thesis by (simp add: uncached_def)
qed

lemma sync_inode_core:
  assumes core: "core_inv fs" and p: "imem fs p = Some inn"
  obtains inn' fs' where "sync_inode fs p = Ok fs'" "core_inv fs'" "used_inodes (fsb fs') = used_inodes (fsb fs)"
    "imem fs' = (imem fs)(p := Some inn')" "\<not> dirty inn'" "din inn' = din inn" "same_id inn inn'"
    "\<And>m. m < NR_INODES \<Longrightarrow> cur fs' m = cur fs m"
    "\<And>m. m \<in> used_inodes (fsb fs) \<Longrightarrow> file_bytes (dev (fsb fs')) (cur fs m) = file_bytes (dev (fsb fs)) (cur fs m)"
    "used_blocks (fsb fs') = used_blocks (fsb fs)" "disk_dinode (dev (fsb fs')) (nat (i_nr inn)) = din inn"
proof (cases "dirty inn")
  case False
  then have "sync_inode fs p = Ok fs"
    using p by (simp add: sync_inode_def on_inode_def with_inode_def testfs_sync_inode_def dirty_def set_inode_same)
  then show thesis using core core_invD(10) [OF core p False] p False by (intro that [of fs inn]) (auto simp: same_id_def)
next
  case True
  note C = core_invD [OF core] and M = core_inv_mem [OF core p]
  have wf: "dinode_wf (din inn)"
    using file_ok_dinode_wf [OF C(1) M(4)] C(5) [OF M(1)] M(3) by (auto simp: is_s32_def)
  obtain inn' sb' where S: "testfs_sync_inode (fsb fs) inn = Ok (inn', sb')" "inn' = inn\<lparr>i_flags := i_flags inn AND NOT I_FLAGS_DIRTY\<rparr>" "\<not> dirty inn'"
    "super_inv sb'" "used_blocks sb' = used_blocks (fsb fs)" "fs_frame {18 + nat (i_nr inn) div 128} (fsb fs) sb'"
    "\<And>m. m < NR_INODES \<Longrightarrow> disk_dinode (dev sb') m = (if m = nat (i_nr inn) then din inn else disk_dinode (dev (fsb fs)) m)"
    using sync_inode_dirty [OF C(1) True _ C(3) [OF M(1)] wf] M(2) by metis
  define fs' where "fs' = set_inode p inn' (fs\<lparr>fsb := sb'\<rparr>)"
  have e: "sync_inode fs p = Ok fs'" using p S(1) by (simp add: sync_inode_def on_inode_def with_inode_def fs'_def)
  have n: "i_nr inn' = i_nr inn" "0 < i_count inn'" "din inn' = din inn" "same_id inn inn'"
    using table_ok_entry(2) [OF C(2) p] by (simp_all add: S(2) same_id_def)
  have ok: "table_ok fs'" using table_ok_set [of "fs\<lparr>fsb := sb'\<rparr>" p inn inn'] C(2) p n by (simp add: fs'_def)
  have cur: "cur fs' m = cur fs m" if "m < NR_INODES" for m
  proof (cases "m = nat (i_nr inn)")
    case True
    then show ?thesis using cur_cached [OF ok, of p inn' m] n M(2,3) by (simp add: fs'_def)
  next
    case False
    then show ?thesis unfolding fs'_def using S(7) [OF that] M(2) by (intro cur_other [OF C(2) p n(1,2)]) auto
  qed
  have used: "used_inodes sb' = used_inodes (fsb fs)" by (rule used_inodes_frame [OF S(6)])
  have blk: "{18 + nat (i_nr inn) div 128} \<subseteq> {..<DATA_START}" using C(3) [OF M(1)] by (simp add: fs_consts)
  have "uncached fs' (int m) \<and> disk_dinode (dev sb') m = zero_dinode" if m: "m < NR_INODES" "m \<notin> used_inodes (fsb fs)" for m
  proof -
    have "m \<noteq> nat (i_nr inn)" using m M(1) by auto
    then show ?thesis using C(6,7) [OF m] S(7) [OF m(1)] uncached_set [of "fs\<lparr>fsb := sb'\<rparr>" p inn inn'] p n by (simp add: fs'_def)
  qed
  moreover have "disk_dinode (dev sb') (nat (i_nr jnn)) = din jnn" if q: "imem fs' q = Some jnn" "\<not> dirty jnn" for q jnn
  proof (cases "q = p")
    case True
    then show ?thesis using q n S(7) [OF C(3) [OF M(1)]] by (simp add: fs'_def)
  next
    case False
    then have q': "imem fs q = Some jnn" using q by (simp add: fs'_def)
    have "nat (i_nr jnn) \<noteq> nat (i_nr inn)" using table_ok_unique [OF C(2) q' p] False table_ok_entry(3) [OF C(2)] p q' by (auto simp: eq_nat_nat_iff)
    then show ?thesis using S(7) C(3) core_inv_mem(1) [OF core q'] C(10) [OF q' q(2)] by simp
  qed
  ultimately have "core_inv fs'" "\<And>m. m \<in> used_inodes (fsb fs) \<Longrightarrow> file_bytes (dev sb') (cur fs m) = file_bytes (dev (fsb fs)) (cur fs m)"
    using core_inv_frame [OF core _ S(4) ok fs_frame_freemap [OF S(6)] blk S(5)] core_used_small [OF core] C(3) used cur by (auto simp: fs'_def)
  then show thesis using e S used n cur C(3) [OF M(1)] by (intro that [of fs' inn']) (auto simp: fs'_def)
qed

lemma create_inode_core [consumes 2, case_names full found]:
  assumes core: "core_inv fs" and ty: "type \<noteq> I_NONE"
  obtains (full) fs' where "testfs_create_inode fs type = Ok (- ENOSPC, None, fs')" "used_inodes (fsb fs) = {..<NR_INODES}" "core_inv fs'"
      "used_inodes (fsb fs') = used_inodes (fsb fs)" "imem fs' = imem fs" "\<And>m. cur fs' m = cur fs m"
      "\<And>m. m \<in> used_inodes (fsb fs) \<Longrightarrow> file_bytes (dev (fsb fs')) (cur fs m) = file_bytes (dev (fsb fs)) (cur fs m)"
  | (found) nr p inn fs' where "testfs_create_inode fs type = Ok (0, Some p, fs')" "nr \<notin> used_inodes (fsb fs)" "{..<nr} \<subseteq> used_inodes (fsb fs)" "nr < NR_INODES" "core_inv fs'"
      "used_inodes (fsb fs') = insert nr (used_inodes (fsb fs))" "imem fs p = None" "imem fs' = (imem fs)(p := Some inn)"
      "inn = \<lparr>din = zero_dinode\<lparr>i_type := int_of_type type\<rparr>, i_flags = I_FLAGS_DIRTY, i_nr = int nr, i_count = 1\<rparr>"
      "\<And>m. m \<in> used_inodes (fsb fs) \<Longrightarrow> cur fs' m = cur fs m"
      "\<And>m. m \<in> used_inodes (fsb fs) \<Longrightarrow> file_bytes (dev (fsb fs')) (cur fs m) = file_bytes (dev (fsb fs)) (cur fs m)"
      "used_blocks (fsb fs') = used_blocks (fsb fs)" "max_fs_blocks (dsb (fsb fs')) = max_fs_blocks (dsb (fsb fs))"
proof -
  note C = core_invD [OF core]
  from C(1) show thesis
  proof (cases rule: testfs_get_inode_freemap_cases)
    case full': full
    then have "16384 \<in> used_inodes (fsb fs)" by (simp add: used_inodes_def)
    from C(3) [OF this] show thesis by (simp add: NR_INODES_def)
  next
    case (found nr sb1)
    note U = found(6) [folded used_inodes_def]
    have u32: "u32_of_int (int nr) = nr" using found(1) by (intro u32_of_int_small) simp
    have lim: "NR_INODE_BLOCKS \<le> nr div INODES_PER_BLOCK \<longleftrightarrow> NR_INODES \<le> nr"
      using div_le_mono [of 16384 nr 128] by (auto simp: fs_consts)
    show thesis
    proof (cases "NR_INODES \<le> nr")
      case True
      have all: "used_inodes (fsb fs) = {..<NR_INODES}" using found(3) True C(3) unfolding used_inodes_def by auto
      have "nr \<in> used_bits (inode_map sb1)" using found(6) by simp
      from testfs_put_inode_freemap_used [OF found(5) this] obtain sb2 where
        S: "testfs_put_inode_freemap sb1 (int nr) = Ok sb2" "super_inv sb2" "used_inodes sb2 = used_inodes (fsb fs)" "same_blocks sb1 sb2"
        using found(2,6) by (auto simp: used_inodes_def)
      let ?fs' = "fs\<lparr>fsb := sb2\<rparr>"
      have sb: "same_blocks (fsb fs) sb2" using same_blocks_trans [OF found(7) S(4)] .
      have cur: "cur ?fs' m = cur fs m" for m using same_blocks_disk [OF sb] by (simp add: cur_def)
      have e: "testfs_create_inode fs type = Ok (- ENOSPC, None, ?fs')"
        using found(4) S(1) lim True u32 by (simp add: testfs_create_inode_def Let_def)
      have "core_inv ?fs'" "\<And>m. m \<in> used_inodes (fsb fs) \<Longrightarrow> file_bytes (dev sb2) (cur fs m) = file_bytes (dev (fsb fs)) (cur fs m)"
        using core_inv_frame [OF core, of ?fs' sb2 "{}"] S C(2,3,6,7,10) same_blocks_frame [OF sb] same_blocks_used [OF sb] same_blocks_disk [OF sb] cur by auto
      then show thesis using e all S(3) cur by (intro full [of ?fs']) auto
    next
      case False
      then have nr: "nr < NR_INODES" "nr < 16384" by (simp_all add: NR_INODES_def)
      have no: "nr \<notin> used_inodes (fsb fs)" using found(2) by (simp add: used_inodes_def)
      note Z = C(6,7) [OF nr(1) no]
      let ?fs1 = "fs\<lparr>fsb := sb1\<rparr>"
      have fresh: "fresh_inode sb1 nr = \<lparr>din = zero_dinode, i_flags = 0, i_nr = int nr, i_count = 1\<rparr>"
        using Z(2) same_blocks_disk [OF found(7)] by (simp add: fresh_inode_def)
      have g: "testfs_get_inode ?fs1 (int nr) = Ok (inext fs, loaded ?fs1 (fresh_inode sb1 nr))"
        using get_inode_miss [of ?fs1 nr] C(2) found(5) Z(1) nr(2) by simp
      define inn where "inn = \<lparr>din = zero_dinode\<lparr>i_type := int_of_type type\<rparr>, i_flags = I_FLAGS_DIRTY, i_nr = int nr, i_count = 1\<rparr>"
      define fs' where "fs' = set_inode (inext fs) inn (loaded ?fs1 (fresh_inode sb1 nr))"
      have sb': "fsb fs' = sb1" and imem: "imem fs' = (imem fs)(inext fs := Some inn)" by (simp_all add: fs'_def loaded_def)
      have e: "testfs_create_inode fs type = Ok (0, Some (inext fs), fs')"
        using found(4) g lim False u32 fresh by (simp add: testfs_create_inode_def Let_def with_inode_def loaded_def set_dirty_def inn_def fs'_def)
      have unused: "imem fs (inext fs) = None" by (rule inext_unused [OF C(2)])
      have ok1: "table_ok (loaded ?fs1 (fresh_inode sb1 nr))"
        using C(2) Z(1) nr by (intro table_ok_loaded) (simp_all add: fresh)
      have ok: "table_ok fs'" unfolding fs'_def
        by (rule table_ok_set [OF ok1, of _ "fresh_inode sb1 nr"]) (simp_all add: fresh inn_def loaded_def)
      have here: "cur fs' nr = zero_dinode\<lparr>i_type := int_of_type type\<rparr>"
        using cur_cached [OF ok, of "inext fs" inn nr] imem by (simp add: inn_def)
      have unc: "uncached fs' (int m) \<longleftrightarrow> uncached fs (int m)" if "m \<noteq> nr" for m
        by (rule uncached_new [OF unused imem]) (use that in \<open>simp add: inn_def\<close>)
      have there: "cur fs' m = cur fs m" if "m \<noteq> nr" for m
        using C(2)
      proof (cases rule: cached_cases [where nr = m])
        case (mem q jnn)
        then have "imem fs' q = Some jnn" using imem unused by auto
        from cur_cached [OF ok this mem(2)] mem show ?thesis by simp
      next
        case disk
        then show ?thesis using unc [OF that] same_blocks_disk [OF found(7)] sb' by (simp add: cur_uncached)
      qed
      have kept: "cur fs' m = cur fs m" if "m \<in> used_inodes (fsb fs)" for m using there [of m] that no by (cases "m = nr") simp_all
      have "core_inv fs'" "\<And>m. m \<in> used_inodes (fsb fs) \<Longrightarrow> file_bytes (dev sb1) (cur fs m) = file_bytes (dev (fsb fs)) (cur fs m)"
      proof (atomize (full), intro conjI allI impI)
        have new: "file_ok sb1 (cur fs' nr) \<and> i_type (cur fs' nr) \<in> {1, 2} \<and> owned (dev sb1) (cur fs' nr) = {}"
          using ty unfolding here by (cases type) (simp_all add: file_ok_zero_dinode owned_def)
        have U': "used_inodes sb1 = insert nr (used_inodes (fsb fs))" by (rule U)
        note K = core_inv_frame [OF core sb' found(5) ok same_blocks_frame [OF found(7)] _ same_blocks_used [OF found(7)]]
        have *: "disk_dinode (dev sb1) (nat (i_nr jnn)) = din jnn" if "imem fs' q = Some jnn" "\<not> dirty jnn" for q jnn
          using that C(10) [of q jnn] same_blocks_disk [OF found(7)] imem by (cases "q = inext fs") (auto simp: inn_def dirty_def I_FLAGS_DIRTY_def)
        have **: "uncached fs' (int m) \<and> disk_dinode (dev sb1) m = zero_dinode" if "m < NR_INODES" "m \<notin> used_inodes sb1" for m
          using that U' unc [of m] C(6,7) [of m] same_blocks_disk [OF found(7)] by auto
        show "core_inv fs'" using C(3) nr new kept * ** by (intro K(1)) (auto simp: U')
        show "file_bytes (dev sb1) (cur fs m) = file_bytes (dev (fsb fs)) (cur fs m)" if "m \<in> used_inodes (fsb fs)" for m
          using that C(3) nr new kept * ** by (intro K(2)) (auto simp: U')
      qed
      then show thesis
        using e no found(3) nr sb' U unused imem kept same_blocks_used [OF found(7)] found(7) [unfolded same_blocks_def]
        by (intro that(2) [of "inext fs" fs' nr inn]) (auto simp: used_inodes_def inn_def)
    qed
  qed
qed

lemma emptied_zero: "emptied di = zero_dinode\<lparr>i_type := i_type di\<rparr>"
  by (simp add: emptied_def zero_dinode_def)

lemma free_blocks_step:
  assumes inv: "super_inv sb" and ok: "file_ok sb (din inn)"
  obtains inn' sb' where "testfs_free_blocks sb inn = Ok (0, inn', sb')" "super_inv sb'" "file_ok sb' (din inn')" "keeps_foreign sb (din inn) sb' (din inn')"
    "same_id inn inn'" "dirty inn'" "din inn' = zero_dinode\<lparr>i_type := i_type (din inn)\<rparr>" "used_blocks sb' = used_blocks sb - owned (dev sb) (din inn)"
proof -
  from testfs_free_blocks_spec [OF assms] obtain inn' sb' where S: "testfs_free_blocks sb inn = Ok (0, inn', sb')" "super_inv sb'"
    "used_blocks sb' = used_blocks sb - owned (dev sb) (din inn)" "fs_frame (owned (dev sb) (din inn)) sb sb'"
    "din inn' = emptied (din inn)" "same_id inn inn'" "i_flags inn' = i_flags inn OR I_FLAGS_DIRTY" by blast
  have own: "owned (dev sb) (din inn) \<subseteq> used_blocks sb" using ok owned_used by (auto simp: file_ok_def)
  have "owned (dev sb') (din inn') = {}" by (simp add: S(5) emptied_zero owned_def)
  then have "foreign sb' (din inn') = foreign sb (din inn)" using S(3) by (simp add: foreign_def)
  moreover have "fs_frame {q. DATA_START \<le> q \<and> q \<notin> foreign sb (din inn)} sb sb'"
    by (rule fs_frame_mono [OF S(4)]) (use own used_blocks_bound(1) [OF inv] in \<open>auto simp: foreign_def\<close>)
  moreover have "dirty inn'" by (simp add: dirty_def S(7) I_FLAGS_DIRTY_def bit_eq_iff bit_simps) (auto intro: exI [of _ 0])
  ultimately show thesis using S by (intro that [of inn' sb']) (simp_all add: keeps_foreign_def emptied_zero file_ok_zero_dinode)
qed

lemma remove_inode_core:
  assumes core: "core_inv fs" and p: "imem fs p = Some inn" and count: "i_count inn = 1"
  obtains fs' where "testfs_remove_inode fs p = Ok fs'" "core_inv fs'" "used_inodes (fsb fs') = used_inodes (fsb fs) - {nat (i_nr inn)}"
    "imem fs' = (imem fs)(p := None)" "\<And>m. m \<in> used_inodes (fsb fs) \<Longrightarrow> m \<noteq> nat (i_nr inn) \<Longrightarrow> cur fs' m = cur fs m"
    "\<And>m. m \<in> used_inodes (fsb fs) \<Longrightarrow> m \<noteq> nat (i_nr inn) \<Longrightarrow> file_bytes (dev (fsb fs')) (cur fs' m) = file_bytes (dev (fsb fs)) (cur fs m)"
    "used_blocks (fsb fs') = used_blocks (fsb fs) - owned (dev (fsb fs)) (din inn)"
proof -
  let ?nr = "nat (i_nr inn)"
  note C = core_invD [OF core] and M = core_inv_mem [OF core p]
  obtain inn1 sb1 where F: "testfs_free_blocks (fsb fs) inn = Ok (0, inn1, sb1)" "super_inv sb1" "file_ok sb1 (din inn1)"
    "keeps_foreign (fsb fs) (din inn) sb1 (din inn1)" "same_id inn inn1" "dirty inn1" "din inn1 = zero_dinode\<lparr>i_type := i_type (din inn)\<rparr>"
    "used_blocks sb1 = used_blocks (fsb fs) - owned (dev (fsb fs)) (din inn)"
    using free_blocks_step [OF C(1) M(4)] by blast
  define fs1 where "fs1 = set_inode p inn1 (fs\<lparr>fsb := sb1\<rparr>)"
  note S1 = file_step [OF core p F(2-5) _ fs1_def]
  have core1: "core_inv fs1" using S1(1) F(6) by blast
  have used1: "used_inodes sb1 = used_inodes (fsb fs)" using S1(2) F(6) by (simp add: fs1_def)
  have cur1: "cur fs1 m = cur fs m" "file_bytes (dev sb1) (cur fs1 m) = file_bytes (dev (fsb fs)) (cur fs m)" if "m \<in> used_inodes (fsb fs)" "m \<noteq> ?nr" for m
    using S1(4,5) [of m] F(6) that C(3) by (simp_all add: fs1_def)
  have p1: "imem fs1 p = Some inn1" and sb1: "fsb fs1 = sb1" by (simp_all add: fs1_def)
  have n1: "i_nr inn1 = i_nr inn" "i_count inn1 = 1" using F(5) count by (simp_all add: same_id_def)
  note C1 = core_invD [OF core1] and M1 = core_inv_mem [OF core1 p1]
  have "?nr \<in> used_bits (inode_map sb1)" using M(1) used1 by (simp add: used_inodes_def)
  from testfs_put_inode_freemap_used [OF F(2) this] obtain sb2 where
    S2: "testfs_put_inode_freemap sb1 (i_nr inn1) = Ok sb2" "super_inv sb2" "used_inodes sb2 = used_inodes (fsb fs) - {?nr}" "same_blocks sb1 sb2"
    using used1 n1 M(2) by (auto simp: used_inodes_def)
  define inn2 where "inn2 = set_dirty (inn1\<lparr>din := zero_dinode\<rparr>)"
  have d2: "dirty inn2" using F(6) by (auto simp: inn2_def set_dirty_def dirty_def bit_eq_iff bit_simps)
  have n2: "i_nr inn2 = int ?nr" "?nr < NR_INODES" using n1 M(2) C(3) [OF M(1)] by (simp_all add: inn2_def set_dirty_def)
  have z2: "din inn2 = zero_dinode" by (simp add: inn2_def set_dirty_def)
  then have wf2: "dinode_wf (din inn2)" by (simp add: dinode_wf_zero)
  obtain inn3 sb3 where S3: "testfs_sync_inode sb2 inn2 = Ok (inn3, sb3)" "inn3 = inn2\<lparr>i_flags := i_flags inn2 AND NOT I_FLAGS_DIRTY\<rparr>" "\<not> dirty inn3"
    "super_inv sb3" "used_blocks sb3 = used_blocks sb2" "fs_frame {18 + ?nr div 128} sb2 sb3"
    "\<And>m. m < NR_INODES \<Longrightarrow> disk_dinode (dev sb3) m = (if m = ?nr then zero_dinode else disk_dinode (dev sb2) m)"
    using sync_inode_dirty [OF S2(2) d2 n2 wf2, unfolded z2] by blast
  have n3: "i_nr inn3 = i_nr inn1" "i_count inn3 = 1" using n1 by (simp_all add: S3(2) inn2_def set_dirty_def)
  define fs3 where "fs3 = set_inode p inn3 (fs1\<lparr>fsb := sb3\<rparr>)"
  have ok3: "table_ok fs3" using table_ok_set [of "fs1\<lparr>fsb := sb3\<rparr>" p inn1 inn3] C1(2) p1 n3 by (simp add: fs3_def)
  have p3: "imem fs3 p = Some inn3" by (simp add: fs3_def)
  define fs4 where "fs4 = dropped fs3 p"
  have e: "testfs_remove_inode fs p = Ok fs4"
  proof -
    have "on_inode fs p testfs_free_blocks = Ok (0, fs1)" using p F(1) by (simp add: on_inode_def with_inode_def fs1_def)
    moreover have "on_inode fs1 p (\<lambda>sb inn. c_assert (block_count (din inn) = 0)
       (and_then (testfs_put_inode_freemap sb (i_nr inn)) (\<lambda>sb. Ok ((), set_dirty (inn\<lparr>din := zero_dinode\<rparr>), sb)))) = Ok ((), set_inode p inn2 (fs1\<lparr>fsb := sb2\<rparr>))"
      using p1 S2(1) F(7) sb1 by (simp add: on_inode_def with_inode_def inn2_def zero_dinode_def)
    moreover have "sync_inode (set_inode p inn2 (fs1\<lparr>fsb := sb2\<rparr>)) p = Ok fs3"
      using S3(1) by (simp add: sync_inode_def on_inode_def with_inode_def fs3_def set_inode_def)
    moreover have "testfs_put_inode fs3 p = Ok fs4" using put_inode_eq [OF ok3 p3] S3(3) n3(2) by (simp add: dirty_def fs4_def)
    ultimately show ?thesis by (simp add: testfs_remove_inode_def)
  qed
  have imem4: "imem fs4 = (imem fs1)(p := None)" and sb4: "fsb fs4 = sb3" by (simp_all add: fs4_def dropped_def fs3_def)
  have ok4: "table_ok fs4" unfolding fs4_def by (rule table_ok_dropped [OF ok3 p3])
  have disk: "disk_dinode (dev sb3) m = (if m = ?nr then zero_dinode else disk_dinode (dev sb1) m)" if "m < NR_INODES" for m
    using S3(7) [OF that] same_blocks_disk [OF S2(4)] by simp
  note disk4 = disk
  have blk: "{18 + ?nr div 128} \<subseteq> {..<DATA_START}" using n2(2) by (simp add: fs_consts)
  have fr: "fs_frame {18 + ?nr div 128} sb1 (sb3\<lparr>inode_freemap := inode_freemap sb1\<rparr>)"
    using S2(4) S3(6) by (auto simp: fs_frame_def same_blocks_def)
  have used3: "used_inodes sb3 = used_inodes (fsb fs) - {?nr}" using used_inodes_frame [OF S3(6)] S2(3) by simp
  have other: "i_nr jnn \<noteq> i_nr inn1" if "imem fs4 q = Some jnn" for q jnn
    using that table_ok_unique [OF C1(2) _ p1, of q jnn] imem4 by (cases "q = p") auto
  have unc: "uncached fs4 (int m) \<longleftrightarrow> uncached fs1 (int m) \<or> m = ?nr" for m
  proof
    assume u: "uncached fs4 (int m)"
    have "i_nr jnn \<noteq> int m" if "m \<noteq> ?nr" "imem fs1 q = Some jnn" for q jnn
      using u [unfolded uncached_def, rule_format, of q jnn] that p1 n1 imem4 by (cases "q = p") auto
    then show "uncached fs1 (int m) \<or> m = ?nr" by (auto simp: uncached_def)
  next
    assume u: "uncached fs1 (int m) \<or> m = ?nr"
    have "i_nr jnn \<noteq> int m" if q: "imem fs4 q = Some jnn" for q jnn
    proof (cases "m = ?nr")
      case False
      have "imem fs1 q = Some jnn" using q imem4 by (cases "q = p") simp_all
      then show ?thesis using u False by (auto simp: uncached_def)
    qed (use other [OF q] n1 M(2) in simp)
    then show "uncached fs4 (int m)" by (simp add: uncached_def)
  qed
  have cur4: "cur fs4 m = cur fs1 m" if "m < NR_INODES" "m \<noteq> ?nr" for m
    using C1(2)
  proof (cases rule: cached_cases [where nr = m])
    case (mem q jnn)
    then have "imem fs4 q = Some jnn" using imem4 p1 n1 that by auto
    from cur_cached [OF ok4 this mem(2)] mem show ?thesis by simp
  next
    case disk
    then show ?thesis using unc [of m] disk4 [of m] that sb4 sb1 by (simp add: cur_uncached)
  qed
  have own0: "owned (dev sb1) (cur fs1 ?nr) = {}" using M1(3) n1 F(7) by (simp add: owned_def)
  have clean: "disk_dinode (dev sb3) (nat (i_nr jnn)) = din jnn" if q: "imem fs4 q = Some jnn" "\<not> dirty jnn" for q jnn
  proof -
    have q1: "imem fs1 q = Some jnn" using q imem4 by (cases "q = p") simp_all
    have "nat (i_nr jnn) \<noteq> ?nr" using other [OF q(1)] n1 core_inv_mem(2) [OF core1 q1] M(2) by metis
    then show ?thesis using disk C1(10) [OF q1 q(2)] core_inv_mem(1) [OF core1 q1] C1(3) sb1 by simp
  qed
  have unused: "uncached fs4 (int m) \<and> disk_dinode (dev sb3) m = zero_dinode" if "m < NR_INODES" "m \<notin> used_inodes sb3" for m
    using that used3 unc [of m] disk [of m] C1(6,7) [of m] used1 sb1 by auto
  have bl: "used_blocks sb3 = used_blocks sb1" using S3(5) same_blocks_used [OF S2(4)] by simp
  have kept: "cur fs4 m = cur fs1 m" if "m \<in> used_inodes sb3" for m using cur4 that used3 C(3) by auto
  note K = core_inv_frame [OF core1 sb4 S3(4) ok4 fr [folded sb1] blk bl [folded sb1]]
  have small: "used_inodes sb3 \<subseteq> {..<NR_INODES}" using used3 C(3) by auto
  have core4: "core_inv fs4" using small kept used3 used1 own0 sb1 unused clean by (intro K(1)) auto
  have bytes: "file_bytes (dev sb3) (cur fs1 m) = file_bytes (dev sb1) (cur fs1 m)" if "m \<in> used_inodes (fsb fs)" for m
    using small kept used3 used1 own0 sb1 unused clean that K(2) [of m] by auto
  show thesis
  proof (rule that [OF e core4])
    show "imem fs4 = (imem fs)(p := None)" by (simp add: imem4 fs1_def)
    show "cur fs4 m = cur fs m" if "m \<in> used_inodes (fsb fs)" "m \<noteq> ?nr" for m using kept used3 cur1(1) that by simp
    show "file_bytes (dev (fsb fs4)) (cur fs4 m) = file_bytes (dev (fsb fs)) (cur fs m)" if "m \<in> used_inodes (fsb fs)" "m \<noteq> ?nr" for m
      using kept [of m] used3 cur1(2) [OF that] bytes [OF that(1)] that by (simp add: sb4)
  qed (simp_all add: sb4 used3 bl F(8))
qed

section \<open>The properties\<close>

text \<open>A file system without inodes, with an empty table.\<close>

definition empty_state :: "64 word \<Rightarrow> fs_state" where
  "empty_state m = inode_hash_init \<lparr>fsb = empty_fs m, imem = (\<lambda>_. None), inode_hash_table = None, inext = 0\<rparr>"

lemma used_inodes_empty_fs: "used_inodes (empty_fs m) = {}"
  by (simp add: used_inodes_def inode_map_def empty_fs_def used_bits_empty_map)

lemma core_inv_empty_state: "core_inv (empty_state m)"
proof -
  have sb: "fsb (empty_state m) = empty_fs m" and im: "imem (empty_state m) = (\<lambda>_. None)"
    and t: "inode_hash_table (empty_state m) = Some (replicate inode_hash_size [])" by (simp_all add: empty_state_def inode_hash_init_def)
  have "table_ok (empty_state m)" by (simp add: table_ok_def t im buckets_ok_def)
  moreover have "disk_dinode (dev (empty_fs m)) nr = zero_dinode" for nr by (simp add: disk_dinode_def empty_fs_def decode_zero)
  ultimately show ?thesis
    by (intro core_invI) (simp_all add: sb im super_inv_empty_fs used_inodes_empty_fs uncached_def)
qed

lemma remove1_bucket:
  assumes ok: "table_ok fs" and p: "imem fs p = None" and k: "k < inode_hash_size"
  shows "map (remove1 p) ((tab fs)[k := p # tab fs ! k]) = tab fs"
proof (rule nth_equalityI)
  fix i assume "i < length (map (remove1 p) ((tab fs)[k := p # tab fs ! k]))"
  then have "i < inode_hash_size" "i < length (tab fs)" using itable_okD(2) [OF ok] by simp_all
  then show "map (remove1 p) ((tab fs)[k := p # tab fs ! k]) ! i = tab fs ! i"
    using not_in_bucket [OF ok p, of i] by (cases "i = k") (simp_all add: remove1_idem)
qed simp

lemma dropped_loaded:
  assumes ok: "table_ok fs"
  shows "dropped (loaded fs inn) (inext fs) = fs\<lparr>inext := Suc (inext fs)\<rparr>"
proof -
  have "tab (loaded fs inn) = (tab fs)[inode_hashfn (i_nr inn) := inext fs # tab fs ! inode_hashfn (i_nr inn)]" by (simp add: tab_def loaded_def)
  moreover have "(imem fs)(inext fs := None) = imem fs" using inext_unused [OF ok] by auto
  ultimately show ?thesis
    using remove1_bucket [OF ok inext_unused [OF ok] inode_hashfn_bound] itable_okD(1) [OF ok] by (simp add: dropped_def loaded_def)
qed

lemma NR_INODES_nonempty: "{} \<noteq> {..<NR_INODES}"
proof -
  have "0 \<in> {..<NR_INODES}" by (simp add: NR_INODES_def)
  then show ?thesis by blast
qed

lemma one_inode:
  obtains fs p inn where "core_inv fs" "imem fs p = Some inn" "i_count inn = 1" "i_nr inn = 0" "imem fs = [p \<mapsto> inn]" "\<not> dirty inn"
    "used_inodes (fsb fs) = {0}"
proof -
  let ?fs = "empty_state 10"
  have u: "used_inodes (fsb ?fs) = {}" and im: "imem ?fs = (\<lambda>_. None)" by (simp_all add: empty_state_def inode_hash_init_def used_inodes_empty_fs)
  have "I_FILE \<noteq> I_NONE" by simp
  with core_inv_empty_state [of 10] show thesis
  proof (cases rule: create_inode_core)
    case (full fs')
    then show thesis using u NR_INODES_nonempty by simp
  next
    case (found nr p inn fs')
    have nr: "nr = 0" using found(3) u by (cases nr) auto
    have p: "imem fs' p = Some inn" by (simp add: found(8))
    obtain inn' fs'' where S: "core_inv fs''" "used_inodes (fsb fs'') = used_inodes (fsb fs')" "imem fs'' = (imem fs')(p := Some inn')" "\<not> dirty inn'" "same_id inn inn'"
      using sync_inode_core [OF found(5) p] by metis
    show thesis using S found(6,8,9) nr u im by (intro that [of fs'' p inn']) (simp_all add: same_id_def)
  qed
qed

lemma get_put_inode:
  assumes "core_inv fs" and "nr \<in> used_inodes (fsb fs)" and clean: "\<And>p inn. imem fs p = Some inn \<Longrightarrow> \<not> dirty inn"
  shows "\<exists>p inn fs' n. testfs_get_inode fs (int nr) = Ok (p, fs') \<and> imem fs' p = Some inn \<and> i_nr inn = int nr \<and> din inn = cur fs nr \<and>
     core_inv fs' \<and> testfs_put_inode fs' p = Ok (fs\<lparr>inext := n\<rparr>)"
proof -
  obtain p inn fs' where G: "testfs_get_inode fs (int nr) = Ok (p, fs')" "imem fs' p = Some inn" "i_nr inn = int nr" "din inn = cur fs nr" "core_inv fs'"
    "imem fs p = Some (inn\<lparr>i_count := i_count inn - 1\<rparr>) \<and> fs' = set_inode p inn fs \<or>
     p = inext fs \<and> imem fs p = None \<and> uncached fs (int nr) \<and> inn = fresh_inode (fsb fs) nr \<and> fs' = loaded fs inn"
    by (rule get_inode_core [OF assms(1,2)], rule that; assumption)
  note ok = core_invD(2) [OF assms(1)] and ok' = core_invD(2) [OF G(5)]
  from G(6) have "\<exists>n. testfs_put_inode fs' p = Ok (fs\<lparr>inext := n\<rparr>)"
  proof
    assume h: "imem fs p = Some (inn\<lparr>i_count := i_count inn - 1\<rparr>) \<and> fs' = set_inode p inn fs"
    then have "\<not> dirty inn" using clean [of p "inn\<lparr>i_count := i_count inn - 1\<rparr>"] by (simp add: dirty_def)
    moreover have "i_count inn \<noteq> 1" using table_ok_entry(2) [OF ok] h by fastforce
    moreover have "set_inode p (inn\<lparr>i_count := i_count inn - 1\<rparr>) fs' = fs\<lparr>inext := inext fs\<rparr>"
      using h by (simp add: set_inode_def fun_upd_idem)
    ultimately have "testfs_put_inode fs' p = Ok (fs\<lparr>inext := inext fs\<rparr>)" using put_inode_eq [OF ok' G(2)] by (simp add: dirty_def)
    then show ?thesis by blast
  next
    assume m: "p = inext fs \<and> imem fs p = None \<and> uncached fs (int nr) \<and> inn = fresh_inode (fsb fs) nr \<and> fs' = loaded fs inn"
    then have "i_flags inn AND I_FLAGS_DIRTY = 0" "i_count inn = 1" by (simp_all add: fresh_inode_def)
    then show ?thesis using put_inode_eq [OF ok' G(2)] dropped_loaded [OF ok] m by auto
  qed
  with G(1-5) show ?thesis by blast
qed

text \<open>
  The table of inodes. Getting an inode in use returns a pointer to an object with its number and its current contents, whether it was in memory
  or is read from the device, and keeps the invariant; putting it back restores the state exactly, up to the addresses used. So the reference counts are right and
  no object leaks.
\<close>

theorem testfs_get_put_inode:
  assumes "core_inv fs" and "nr \<in> used_inodes (fsb fs)" and clean: "\<And>p inn. imem fs p = Some inn \<Longrightarrow> \<not> dirty inn"
  shows "\<exists>p inn fs' n. testfs_get_inode fs (int nr) = Ok (p, fs') \<and> imem fs' p = Some inn \<and> i_nr inn = int nr \<and> din inn = cur fs nr \<and>
     core_inv fs' \<and> testfs_put_inode fs' p = Ok (fs\<lparr>inext := n\<rparr>)"
  by (rule get_put_inode [OF assms])

theorem testfs_get_put_inode_witness:
  "\<exists>fs p inn fs' n. core_inv fs \<and> testfs_get_inode fs 0 = Ok (p, fs') \<and> imem fs' p = Some inn \<and> testfs_put_inode fs' p = Ok (fs\<lparr>inext := n\<rparr>)"
proof -
  obtain fs p inn where F: "core_inv fs" "imem fs = [p \<mapsto> inn]" "\<not> dirty inn" "used_inodes (fsb fs) = {0}" using one_inode by metis
  have "\<not> dirty jnn" if "imem fs q = Some jnn" for q jnn using that F(2,3) by (simp split: if_splits)
  with testfs_get_put_inode [OF F(1), of 0] F(1,4) show ?thesis by auto
qed

text \<open>
  Creating an inode. When all inode numbers are taken, \<open>testfs_create_inode\<close> returns \<open>-ENOSPC\<close> and gives the bit of the free map it took back.
  Otherwise it takes the least free number and returns a new object for an empty file or directory, dirty and with one user. The invariant is kept, and every other file keeps its inode and its bytes.
\<close>

theorem testfs_create_inode_correct:
  assumes "core_inv fs" and "type \<noteq> I_NONE"
  shows "\<exists>ret r fs'. testfs_create_inode fs type = Ok (ret, r, fs') \<and> core_inv fs' \<and>
     (\<forall>m \<in> used_inodes (fsb fs). cur fs' m = cur fs m \<and> file_bytes (dev (fsb fs')) (cur fs m) = file_bytes (dev (fsb fs)) (cur fs m)) \<and>
     (if used_inodes (fsb fs) = {..<NR_INODES} then ret = - ENOSPC \<and> r = None \<and> used_inodes (fsb fs') = used_inodes (fsb fs) \<and> imem fs' = imem fs
      else \<exists>nr p. ret = 0 \<and> r = Some p \<and> nr \<notin> used_inodes (fsb fs) \<and> {..<nr} \<subseteq> used_inodes (fsb fs) \<and>
        used_inodes (fsb fs') = insert nr (used_inodes (fsb fs)) \<and>
        imem fs' = (imem fs)(p \<mapsto> \<lparr>din = zero_dinode\<lparr>i_type := int_of_type type\<rparr>, i_flags = I_FLAGS_DIRTY, i_nr = int nr, i_count = 1\<rparr>))"
  using assms
proof (cases rule: create_inode_core)
  case (full fs')
  then show ?thesis by (intro exI [of _ "- ENOSPC"] exI [of _ None] exI [of _ fs']) simp
next
  case (found nr p inn fs')
  have "used_inodes (fsb fs) \<noteq> {..<NR_INODES}" using found(2,4) by auto
  with found show ?thesis by (intro exI [of _ 0] exI [of _ "Some p"] exI [of _ fs']) auto
qed

theorem testfs_create_inode_correct_witness:
  "\<exists>fs' p. testfs_create_inode (empty_state 10) I_DIR = Ok (0, Some p, fs') \<and> used_inodes (fsb fs') = {0}"
proof -
  have "used_inodes (fsb (empty_state 10)) = {}" by (simp add: empty_state_def inode_hash_init_def used_inodes_empty_fs)
  then show ?thesis using NR_INODES_nonempty testfs_create_inode_correct [OF core_inv_empty_state, of I_DIR 10] by auto
qed

text \<open>
  Removing an inode. When its object has one user, \<open>testfs_remove_inode\<close> frees all its blocks, its number and its object, and zeroes it on the device.
  The invariant is kept, and every other file keeps its inode, its blocks and its bytes. No assertion fails.
\<close>

theorem testfs_remove_inode_correct:
  assumes "core_inv fs" and "imem fs p = Some inn" and "i_count inn = 1"
  shows "\<exists>fs'. testfs_remove_inode fs p = Ok fs' \<and> core_inv fs' \<and> used_inodes (fsb fs') = used_inodes (fsb fs) - {nat (i_nr inn)} \<and>
     imem fs' = (imem fs)(p := None) \<and> used_blocks (fsb fs') = used_blocks (fsb fs) - owned (dev (fsb fs)) (din inn) \<and>
     disk_dinode (dev (fsb fs')) (nat (i_nr inn)) = zero_dinode \<and>
     (\<forall>m \<in> used_inodes (fsb fs'). cur fs' m = cur fs m \<and> file_bytes (dev (fsb fs')) (cur fs m) = file_bytes (dev (fsb fs)) (cur fs m))"
proof -
  obtain fs' where R: "testfs_remove_inode fs p = Ok fs'" "core_inv fs'" "used_inodes (fsb fs') = used_inodes (fsb fs) - {nat (i_nr inn)}"
    "imem fs' = (imem fs)(p := None)" "\<And>m. m \<in> used_inodes (fsb fs) \<Longrightarrow> m \<noteq> nat (i_nr inn) \<Longrightarrow> cur fs' m = cur fs m"
    "\<And>m. m \<in> used_inodes (fsb fs) \<Longrightarrow> m \<noteq> nat (i_nr inn) \<Longrightarrow> file_bytes (dev (fsb fs')) (cur fs' m) = file_bytes (dev (fsb fs)) (cur fs m)"
    "used_blocks (fsb fs') = used_blocks (fsb fs) - owned (dev (fsb fs)) (din inn)" using remove_inode_core [OF assms] by metis
  have "nat (i_nr inn) < NR_INODES" using core_inv_mem(1) [OF assms(1,2)] core_invD(3) [OF assms(1)] by blast
  then have "disk_dinode (dev (fsb fs')) (nat (i_nr inn)) = zero_dinode" using core_invD(7) [OF R(2)] R(3) by simp
  with R show ?thesis by (intro exI [of _ fs']) auto
qed

theorem testfs_remove_inode_correct_witness:
  "\<exists>fs p inn fs'. core_inv fs \<and> imem fs p = Some inn \<and> testfs_remove_inode fs p = Ok fs' \<and> used_inodes (fsb fs) = {0} \<and> used_inodes (fsb fs') = {}"
proof -
  obtain fs p inn where F: "core_inv fs" "imem fs p = Some inn" "i_count inn = 1" "i_nr inn = 0" "used_inodes (fsb fs) = {0}" using one_inode by metis
  from testfs_remove_inode_correct [OF F(1-3)] F show ?thesis by auto
qed

end
