(* ===== verification/FS_Tree.thy ===== *)
theory FS_Tree
  imports FS_Core
begin

text \<open>
  The functions of \<^verbatim>\<open>fs/dir.c\<close> that use the table of inodes: creating a file or a directory, removing an entry, printing
  the path of a directory and listing one; and the effect of creating and removing on the entries of the directories, error paths included.
\<close>

unbundle bit_operations_syntax

section \<open>Definitions\<close>

text \<open>The names of a directory itself and of its parent.\<close>

abbreviation dot :: "byte list" where "dot \<equiv> [46]"
abbreviation dotdot :: "byte list" where "dotdot \<equiv> [46, 46]"

text \<open>A short-circuit disjunction of conditions that may fault, and the string in a buffer.\<close>

definition or_else :: "bool outcome \<Rightarrow> bool outcome \<Rightarrow> bool outcome" where
  "or_else a b = and_then a (\<lambda>x. if x then Ok True else b)"

definition c_str :: "byte list \<Rightarrow> byte list outcome" where
  "c_str mem = mem_check (0 \<in> set mem) (Ok (takeWhile (\<lambda>c. c \<noteq> 0) mem))"

definition is_dots :: "dirent \<Rightarrow> bool outcome" where
  "is_dots d = or_else (strcmp_eq (d_name d) dot) (strcmp_eq (d_name d) dotdot)"

function allowed_from :: "super_block \<Rightarrow> inode \<Rightarrow> int \<Rightarrow> int outcome" where
  "allowed_from sb dir offset =
     (case testfs_next_dirent sb dir offset of
        Crash c \<Rightarrow> Crash c
      | Ok None \<Rightarrow> Ok 0
      | Ok (Some (d, offset')) \<Rightarrow>
          and_then (or_else (Ok (d_inode_nr d < 0)) (is_dots d)) (\<lambda>skip.
            if skip then allowed_from sb dir offset' else Ok (- ENOTEMPTY)))"
  by pat_completeness auto
termination
  by (relation "measure (\<lambda>(sb, dir, offset). nat (testfs_inode_get_size dir - offset))") (auto dest: next_dirent_progress)

definition testfs_remove_dirent_allowed :: "fs_state \<Rightarrow> int \<Rightarrow> (int \<times> fs_state) outcome" where
  "testfs_remove_dirent_allowed fs inode_nr =
     and_then (testfs_get_inode fs inode_nr) (\<lambda>(p, fs).
     and_then (with_inode fs p (\<lambda>dir. if testfs_inode_get_type dir \<noteq> int_of_type I_DIR then Ok 0 else allowed_from (fsb fs) dir 0)) (\<lambda>ret.
     and_then (testfs_put_inode fs p) (\<lambda>fs. Ok (ret, fs))))"

definition INVALID_INODE_NR :: int where "INVALID_INODE_NR = - 1"

text \<open>The search of \<open>testfs_remove_dirent\<close>: the entry in use with the name, and its offset.\<close>

function remove_scan :: "super_block \<Rightarrow> inode \<Rightarrow> byte list \<Rightarrow> int \<Rightarrow> (int \<times> dirent) option outcome" where
  "remove_scan sb dir name offset =
     (case testfs_next_dirent sb dir offset of
        Crash c \<Rightarrow> Crash c
      | Ok None \<Rightarrow> Ok None
      | Ok (Some (d, offset')) \<Rightarrow>
          and_then (if d_inode_nr d < 0 then Ok False else strcmp_eq (d_name d) name) (\<lambda>eq.
            if eq then Ok (Some (offset, d)) else remove_scan sb dir name offset'))"
  by pat_completeness auto
termination
  by (relation "measure (\<lambda>(sb, dir, name, offset). nat (testfs_inode_get_size dir - offset))") (auto dest: next_dirent_progress)

declare allowed_from.simps [simp del] remove_scan.simps [simp del]

definition testfs_remove_dirent :: "fs_state \<Rightarrow> nat \<Rightarrow> byte list \<Rightarrow> (int \<times> fs_state) outcome" where
  "testfs_remove_dirent fs dp name =
     (if name = dot \<or> name = dotdot then Ok (- EINVAL, fs)
      else
        and_then (with_inode fs dp (\<lambda>dir. remove_scan (fsb fs) dir name 0)) (\<lambda>r.
          case r of
            None \<Rightarrow> Ok (- ENOENT, fs)
          | Some (p_offset, d) \<Rightarrow>
              let inode_nr = d_inode_nr d in
              and_then (testfs_remove_dirent_allowed fs inode_nr) (\<lambda>(ret, fs).
                if ret < 0 then Ok (ret, fs)
                else
                  and_then (on_inode fs dp (\<lambda>sb dir.
                    testfs_write_data sb dir (dirent_bytes (d\<lparr>d_inode_nr := INVALID_INODE_NR\<rparr>)) p_offset (sizeof_dirent + nat (d_name_len d)))) (\<lambda>(ret, fs).
                    Ok (if ret \<ge> 0 then inode_nr else ret, fs)))))"

definition add_dirent_at :: "fs_state \<Rightarrow> nat \<Rightarrow> byte list \<Rightarrow> int \<Rightarrow> (int \<times> fs_state) outcome" where
  "add_dirent_at fs dp name inode_nr = on_inode fs dp (\<lambda>sb dir. testfs_add_dirent sb dir name inode_nr)"

definition testfs_create_empty_dir :: "fs_state \<Rightarrow> int \<Rightarrow> nat \<Rightarrow> (int \<times> fs_state) outcome" where
  "testfs_create_empty_dir fs p_inode_nr cdir =
     with_inode fs cdir (\<lambda>inn.
       c_assert (testfs_inode_get_type inn = int_of_type I_DIR)
         (and_then (add_dirent_at fs cdir dot (testfs_inode_get_nr inn)) (\<lambda>(ret, fs).
           if ret < 0 then Ok (ret, fs)
           else and_then (add_dirent_at fs cdir dotdot p_inode_nr) (\<lambda>(ret, fs).
             if ret < 0 then and_then (testfs_remove_dirent fs cdir dot) (\<lambda>(_, fs). Ok (ret, fs))
             else Ok (0, fs)))))"

text \<open>
  \<open>testfs_create_file_or_dir\<close> in the order of the code: the new inode, its own entries when it is a directory, then the entry in
  the parent (\<^verbatim>\<open>None\<close> for the root directory).
\<close>

definition create_entry :: "fs_state \<Rightarrow> nat option \<Rightarrow> inode_type \<Rightarrow> byte list \<Rightarrow> nat \<Rightarrow> (int \<times> fs_state) outcome" where
  "create_entry fs dir type name p =
     with_inode fs p (\<lambda>inn.
       let inode_nr = testfs_inode_get_nr inn in
       and_then
         (if type = I_DIR then
            (case dir of None \<Rightarrow> testfs_create_empty_dir fs inode_nr p
             | Some dp \<Rightarrow> with_inode fs dp (\<lambda>parent. testfs_create_empty_dir fs (testfs_inode_get_nr parent) p))
          else Ok (0, fs)) (\<lambda>(ret, fs).
         if ret < 0 then Ok (ret, fs)
         else case dir of None \<Rightarrow> Ok (0, fs)
           | Some dp \<Rightarrow> and_then (add_dirent_at fs dp name inode_nr) (\<lambda>(ret, fs).
               if ret < 0 then Ok (ret, fs) else and_then (sync_inode fs dp) (\<lambda>fs. Ok (0, fs)))))"

definition testfs_create_file_or_dir :: "fs_state \<Rightarrow> nat option \<Rightarrow> inode_type \<Rightarrow> byte list \<Rightarrow> (int \<times> fs_state) outcome" where
  "testfs_create_file_or_dir fs dir type name =
     and_then
       (case dir of None \<Rightarrow> Ok (- ENOENT)
        | Some dp \<Rightarrow> with_inode fs dp (\<lambda>inn. testfs_dir_name_to_inode_nr (fsb fs) inn name)) (\<lambda>inode_nr.
       if inode_nr \<ge> 0 then Ok (- EEXIST, fs)
       else and_then (testfs_create_inode fs type) (\<lambda>(ret, r, fs).
         case r of None \<Rightarrow> Ok (ret, fs)
         | Some p \<Rightarrow>
             and_then (create_entry fs dir type name p) (\<lambda>(ret, fs).
               if ret < 0 then and_then (testfs_remove_inode fs p) (\<lambda>fs. Ok (ret, fs))
               else and_then (sync_inode fs p) (\<lambda>fs. and_then (testfs_put_inode fs p) (\<lambda>fs. Ok (0, fs))))))"

definition testfs_make_root_dir :: "fs_state \<Rightarrow> (int \<times> fs_state) outcome" where
  "testfs_make_root_dir fs = testfs_create_file_or_dir fs None I_DIR []"

text \<open>
  \<open>testfs_pwd\<close> recurs to the parent of each directory; \<open>stack\<close> is the number of calls the stack has room for, and one call more is a memory fault.
  The bytes printed are part of the result.
\<close>

fun testfs_pwd :: "nat \<Rightarrow> fs_state \<Rightarrow> nat \<Rightarrow> (int \<times> byte list \<times> fs_state) outcome" where
  "testfs_pwd 0 fs p = Crash MemFault"
| "testfs_pwd (Suc stack) fs p =
     with_inode fs p (\<lambda>inn.
       c_assert (testfs_inode_get_nr inn \<ge> 0)
       (and_then (testfs_dir_name_to_inode_nr (fsb fs) inn dotdot) (\<lambda>p_inode_nr.
        c_assert (p_inode_nr \<ge> 0)
        (if p_inode_nr = testfs_inode_get_nr inn then Ok (1, [47], fs)
         else
           and_then (testfs_get_inode fs p_inode_nr) (\<lambda>(pp, fs).
           and_then (with_inode fs pp (\<lambda>p_in. testfs_find_dirent (fsb fs) p_in (testfs_inode_get_nr inn))) (\<lambda>r.
           case r of None \<Rightarrow> Crash AssertFail
           | Some d \<Rightarrow>
               and_then (testfs_pwd stack fs pp) (\<lambda>(ret, out, fs).
               and_then (testfs_put_inode fs pp) (\<lambda>fs.
               and_then (c_str (d_name d)) (\<lambda>name.
                 Ok (0, out @ (if ret = 1 then [] else [47]) @ name, fs)))))))))) "

text \<open>
  \<open>testfs_ls\<close>: the loop over the entries, which calls the function again on a subdirectory. A directory that contains itself makes it run
  forever; \<open>fuel\<close> bounds the nesting of the calls and the iterations along one path.
\<close>

fun testfs_ls :: "nat \<Rightarrow> bool \<Rightarrow> fs_state \<Rightarrow> nat \<Rightarrow> int \<Rightarrow> (byte list \<times> fs_state) outcome" where
  "testfs_ls 0 recursive fs p offset = Crash Diverges"
| "testfs_ls (Suc fuel) recursive fs p offset =
     and_then (with_inode fs p (\<lambda>inn. testfs_next_dirent (fsb fs) inn offset)) (\<lambda>r.
       case r of None \<Rightarrow> Ok ([], fs)
       | Some (d, offset) \<Rightarrow>
           if d_inode_nr d < 0 then testfs_ls fuel recursive fs p offset
           else
             and_then (testfs_get_inode fs (d_inode_nr d)) (\<lambda>(cin, fs).
             and_then (with_inode fs cin (\<lambda>inn. Ok (testfs_inode_get_type inn = int_of_type I_DIR))) (\<lambda>isdir.
             and_then (c_str (d_name d)) (\<lambda>name.
             and_then (or_else (Ok (\<not> recursive \<or> \<not> isdir)) (is_dots d)) (\<lambda>skip.
             and_then (if skip then Ok ([], fs) else testfs_ls fuel recursive fs cin 0) (\<lambda>(sub, fs).
             and_then (testfs_put_inode fs cin) (\<lambda>fs.
             and_then (testfs_ls fuel recursive fs p offset) (\<lambda>(rest, fs).
               Ok (name @ (if isdir then [47] else []) @ [10] @ sub @ rest, fs)))))))))"

section \<open>What a step leaves alone\<close>

definition keeps :: "nat set \<Rightarrow> fs_state \<Rightarrow> fs_state \<Rightarrow> bool" where
  "keeps X fs fs' \<longleftrightarrow> (\<forall>m \<in> used_inodes (fsb fs) - X. m \<in> used_inodes (fsb fs') \<and> cur fs' m = cur fs m \<and>
     file_bytes (dev (fsb fs')) (cur fs m) = file_bytes (dev (fsb fs)) (cur fs m))"

lemma keepsI:
  assumes "\<And>m. m \<in> used_inodes (fsb fs) \<Longrightarrow> m \<notin> X \<Longrightarrow> m \<in> used_inodes (fsb fs')"
    and "\<And>m. m \<in> used_inodes (fsb fs) \<Longrightarrow> m \<notin> X \<Longrightarrow> cur fs' m = cur fs m"
    and "\<And>m. m \<in> used_inodes (fsb fs) \<Longrightarrow> m \<notin> X \<Longrightarrow> file_bytes (dev (fsb fs')) (cur fs m) = file_bytes (dev (fsb fs)) (cur fs m)"
  shows "keeps X fs fs'"
  using assms by (simp add: keeps_def)

lemma keepsD:
  assumes "keeps X fs fs'" and "m \<in> used_inodes (fsb fs)" "m \<notin> X"
  shows "m \<in> used_inodes (fsb fs')" "cur fs' m = cur fs m" "file_bytes (dev (fsb fs')) (cur fs m) = file_bytes (dev (fsb fs)) (cur fs m)"
  using assms by (simp_all add: keeps_def)

lemma keeps_trans: "keeps X a b \<Longrightarrow> keeps Y b c \<Longrightarrow> X \<subseteq> Z \<Longrightarrow> Y \<subseteq> Z \<Longrightarrow> keeps Z a c"
  by (rule keepsI) (use keepsD [of X a b] keepsD [of Y b c] in force)+

lemma keeps_mono: "keeps X a b \<Longrightarrow> X \<subseteq> Z \<Longrightarrow> keeps Z a b"
  by (auto simp: keeps_def)

lemma keeps_new: "keeps {n} a b \<Longrightarrow> n \<notin> used_inodes (fsb a) \<Longrightarrow> keeps {} a b"
  by (auto simp: keeps_def)

lemma keeps_refl [simp]: "keeps X fs fs"
  by (simp add: keeps_def)

text \<open>A directory and its entries.\<close>

definition dir_at :: "fs_state \<Rightarrow> nat \<Rightarrow> dirent list \<Rightarrow> bool" where
  "dir_at fs nr ds \<longleftrightarrow> nr \<in> used_inodes (fsb fs) \<and> i_type (cur fs nr) = int_of_type I_DIR \<and> i_size (cur fs nr) < 2 ^ 31 \<and>
     file_bytes (dev (fsb fs)) (cur fs nr) = concat (map dirent_bytes ds) \<and> (\<forall>d \<in> set ds. dent_ok d)"

lemma dir_at_keeps: "keeps X fs fs' \<Longrightarrow> m \<notin> X \<Longrightarrow> dir_at fs m ds \<Longrightarrow> dir_at fs' m ds"
  using keepsD [of X fs fs' m] by (simp add: dir_at_def)

lemma dir_at_rep:
  assumes "core_inv fs" and "imem fs p = Some inn" and "i_nr inn = int nr"
  shows "dir_rep (fsb fs) inn ds \<longleftrightarrow> dir_at fs nr ds"
proof -
  note M = core_inv_mem [OF assms(1,2)]
  have "nr = nat (i_nr inn)" using assms(3) by simp
  then show ?thesis using M core_invD(1) [OF assms(1)] by (auto simp: dir_rep_def dir_at_def)
qed

lemma dir_at_off: "core_inv fs \<Longrightarrow> dir_at fs nr ds \<Longrightarrow> i_size (cur fs nr) = int (off ds) \<and> off ds < 2 ^ 31"
proof -
  assume c: "core_inv fs" and d: "dir_at fs nr ds"
  have "length (file_bytes (dev (fsb fs)) (cur fs nr)) = off ds" using d by (simp add: dir_at_def off_def)
  moreover have "0 \<le> i_size (cur fs nr)" using core_invD(4) [OF c, of nr] d by (simp add: dir_at_def file_ok_def)
  moreover have "i_size (cur fs nr) < 2 ^ 31" using d by (simp add: dir_at_def)
  ultimately show ?thesis by (auto simp: file_bytes_def)
qed

text \<open>The state in which the object at \<open>p\<close> is marked as changed.\<close>

definition mark_dirty :: "nat \<Rightarrow> fs_state \<Rightarrow> fs_state" where
  "mark_dirty p fs = (case imem fs p of None \<Rightarrow> fs | Some inn \<Rightarrow> set_inode p (set_dirty inn) fs)"

lemma fsb_mark_dirty [simp]: "fsb (mark_dirty p fs) = fsb fs"
  by (simp add: mark_dirty_def split: option.splits)

lemma dirty_set_dirty [simp]: "dirty (set_dirty inn)"
  by (simp add: dirty_def set_dirty_def bit_eq_iff bit_simps I_FLAGS_DIRTY_def) (auto intro: exI [of _ 0])

lemma set_dirty_simps [simp]: "din (set_dirty inn) = din inn" "i_nr (set_dirty inn) = i_nr inn" "i_count (set_dirty inn) = i_count inn"
  by (simp_all add: set_dirty_def)

lemma set_dirty_idem: "dirty inn \<Longrightarrow> set_dirty inn = inn"
proof -
  assume "dirty inn"
  then have "bit (i_flags inn) 0" by (simp add: dirty_def I_FLAGS_DIRTY_def and_one_eq bit_0 odd_iff_mod_2_eq_one)
  then have "i_flags inn OR I_FLAGS_DIRTY = i_flags inn" unfolding I_FLAGS_DIRTY_def by (intro bit_word_eqI) (auto simp: bit_simps)
  then show ?thesis by (simp add: set_dirty_def)
qed

lemma mark_dirty_idem: "imem fs p = Some inn \<Longrightarrow> dirty inn \<Longrightarrow> mark_dirty p fs = fs"
  by (simp add: mark_dirty_def set_dirty_idem set_inode_same)

lemma set_dirty_dirty: "i_flags inn = x OR I_FLAGS_DIRTY \<Longrightarrow> dirty inn"
  by (simp add: dirty_def bit_eq_iff bit_simps I_FLAGS_DIRTY_def) (auto intro: exI [of _ 0])

text \<open>Adding an entry to a directory in memory.\<close>

lemma add_dirent_step [consumes 9, case_names added nospc]:
  assumes core: "core_inv fs" and p: "imem fs p = Some inn" "i_nr inn = int nr" and d: "dir_at fs nr ds"
    and nm: "0 \<notin> set nm" "length nm < 2 ^ 30" and n: "n < NR_INODES" and b: "off ds + length nm + 9 < 2 ^ 31"
    and add: "dir_add (new_entry nm (int n)) ds = Some ds'"
  obtains (added) inn' fs' where "add_dirent_at fs p nm (int n) = Ok (int (length nm) + 9, fs')" "core_inv fs'" "dir_at fs' nr ds'" "keeps {nr} fs fs'"
      "used_inodes (fsb fs') = used_inodes (fsb fs)" "imem fs' = (imem fs)(p := Some inn')" "same_id inn inn'" "dirty inn'"
      "max_fs_blocks (dsb (fsb fs')) = max_fs_blocks (dsb (fsb fs))"
  | (nospc) inn' fs' where "add_dirent_at fs p nm (int n) = Ok (- ENOSPC, fs')" "core_inv (mark_dirty p fs')" "keeps {nr} fs (mark_dirty p fs')"
      "used_inodes (fsb fs') = used_inodes (fsb fs)" "imem fs' = (imem fs)(p := Some inn')" "same_id inn inn'" "dirty inn \<Longrightarrow> dirty inn'" "\<not> room (fsb fs') 3"
      "i_size (din inn') \<le> int (off ds + length nm + 9)" "max_fs_blocks (dsb (fsb fs')) = max_fs_blocks (dsb (fsb fs))"
proof -
  have r: "dir_rep (fsb fs) inn ds" using d dir_at_rep [OF core p] by simp
  have nr: "0 \<le> int n" "is_s32 (int n)" using n by (simp_all add: is_s32_def NR_INODES_def)
  have b': "off ds + off [new_entry nm (int n)] < 2 ^ 31" using b by (simp add: new_entry_def)
  have len: "int (off [new_entry nm (int n)]) = int (length nm) + 9" by (simp add: new_entry_def)
  have len': "off ds + off [new_entry nm (int n)] = off ds + length nm + 9" by (simp add: new_entry_def)
  from add_dirent_rep [OF r nm nr b', unfolded add option.case len len'] obtain ret inn' sb' where
    W: "testfs_add_dirent (fsb fs) inn nm (int n) = Ok (ret, inn', sb')" "super_inv sb'" "file_ok sb' (din inn')"
      "keeps_foreign (fsb fs) (din inn) sb' (din inn')" "same_id inn inn'" "i_flags inn' \<in> {i_flags inn, i_flags inn OR I_FLAGS_DIRTY}"
    and ret: "ret = int (length nm) + 9 \<and> dir_rep sb' inn' ds' \<and> i_flags inn' = i_flags inn OR I_FLAGS_DIRTY \<or>
      ret = - ENOSPC \<and> \<not> room sb' 3 \<and> i_size (din inn') \<le> int (off ds + length nm + 9)"
    by (elim exE conjE)
  define fs' where "fs' = set_inode p inn' (fs\<lparr>fsb := sb'\<rparr>)"
  have e: "add_dirent_at fs p nm (int n) = Ok (ret, fs')" using p W(1) by (simp add: add_dirent_at_def on_inode_def with_inode_def fs'_def)
  have nn: "nat (i_nr inn) = nr" using p(2) by simp
  have mx: "max_fs_blocks (dsb sb') = max_fs_blocks (dsb (fsb fs))" using W(4) by (simp add: keeps_foreign_def fs_frame_def)
  have keep: "keeps {nr} fs fs''" if "fs'' = set_inode p inn'' (fs\<lparr>fsb := sb'\<rparr>)" "din inn'' = din inn'" "same_id inn inn''" "dirty inn''" for inn'' fs''
    using file_step [OF core p(1) W(2) _ _ that(3) _ that(1)] W(3,4) that(2,4) core_invD(3) [OF core] nn by (intro keepsI) (auto simp: that(1))
  from ret show thesis
  proof (elim disjE conjE)
    assume A: "ret = int (length nm) + 9" "dir_rep sb' inn' ds'" "i_flags inn' = i_flags inn OR I_FLAGS_DIRTY"
    have dirt: "dirty inn'" by (rule set_dirty_dirty [OF A(3)])
    note S = file_step [OF core p(1) W(2-5) _ fs'_def]
    have core': "core_inv fs'" using S(1) dirt by blast
    have p': "imem fs' p = Some inn'" "i_nr inn' = int nr" using W(5) p by (simp_all add: fs'_def same_id_def)
    have "dir_at fs' nr ds'" using A(2) dir_at_rep [OF core' p'] by (simp add: fs'_def)
    then show thesis using e A(1) core' keep [OF fs'_def _ W(5) dirt] S(2) dirt W(5) mx by (intro added [of fs' inn']) (simp_all add: fs'_def)
  next
    assume A: "ret = - ENOSPC" "\<not> room sb' 3" "i_size (din inn') \<le> int (off ds + length nm + 9)"
    have m: "mark_dirty p fs' = set_inode p (set_dirty inn') (fs\<lparr>fsb := sb'\<rparr>)" by (simp add: mark_dirty_def fs'_def set_inode_def)
    have id: "same_id inn (set_dirty inn')" using W(5) by (simp add: same_id_def)
    note S = file_step [OF core p(1) W(2) _ _ id _ m]
    have "core_inv (mark_dirty p fs')" "used_inodes (fsb fs') = used_inodes (fsb fs)" using S(1,2) W(3,4) by simp_all
    moreover have "dirty inn \<Longrightarrow> dirty inn'" using W(6) set_dirty_dirty [of inn' "i_flags inn"] by (auto simp: dirty_def)
    ultimately show thesis using e A keep [OF m _ id] W(5) mx by (intro nospc [of fs' inn']) (simp_all add: fs'_def m)
  qed
qed

section \<open>Operations on one inode do not depend on another\<close>

lemma set_inode_commute: "p \<noteq> q \<Longrightarrow> set_inode p a (set_inode q b fs) = set_inode q b (set_inode p a fs)"
  by (simp add: set_inode_def fun_upd_twist)

lemma on_inode_other:
  assumes "p \<noteq> q"
  shows "on_inode (set_inode q b fs) p f = and_then (on_inode fs p f) (\<lambda>(r, fs). Ok (r, set_inode q b fs))"
proof -
  have upd: "set_inode p a ((set_inode q b fs)\<lparr>fsb := sb\<rparr>) = set_inode q b (set_inode p a (fs\<lparr>fsb := sb\<rparr>))" for a sb
    using set_inode_commute [OF assms, of a b "fs\<lparr>fsb := sb\<rparr>"] by (simp add: set_inode_def)
  show ?thesis
  proof (cases "imem fs p")
    case None
    then show ?thesis using assms by (simp add: on_inode_def with_inode_def)
  next
    case (Some inn)
    then show ?thesis using assms upd by (cases "f (fsb fs) inn") (auto simp: on_inode_def with_inode_def split: prod.splits)
  qed
qed

lemma sync_inode_other: "p \<noteq> q \<Longrightarrow> sync_inode (set_inode q b fs) p = and_then (sync_inode fs p) (\<lambda>fs. Ok (set_inode q b fs))"
  by (simp add: sync_inode_def on_inode_other and_then_assoc split_beta)

lemma put_inode_other:
  assumes "p \<noteq> q"
  shows "testfs_put_inode (set_inode q b fs) p = and_then (testfs_put_inode fs p) (\<lambda>fs. Ok (set_inode q b fs))"
proof (cases "imem fs p")
  case None
  then show ?thesis using assms by (simp add: testfs_put_inode_def with_inode_def)
next
  case (Some inn)
  show ?thesis using assms Some
    by (cases "inode_hash_table fs")
      (auto simp: testfs_put_inode_def with_inode_def inode_hash_remove_def with_table_def c_assert_def Let_def set_inode_def fun_upd_twist)
qed

lemma remove_inode_other:
  assumes "p \<noteq> q"
  shows "testfs_remove_inode (set_inode q b fs) p = and_then (testfs_remove_inode fs p) (\<lambda>fs. Ok (set_inode q b fs))"
  unfolding testfs_remove_inode_def
  by (simp add: on_inode_other [OF assms] sync_inode_other [OF assms] put_inode_other [OF assms] and_then_assoc split_beta)

section \<open>Making a directory\<close>

lemma dir_add_dotdot: "dir_add (new_entry dotdot m) [new_entry dot (int n)] = Some [new_entry dot (int n), new_entry dotdot m]"
  by (simp add: new_entry_def)

lemma create_empty_dir_step [consumes 6, case_names made nospc]:
  assumes core: "core_inv fs" and p: "imem fs p = Some inn" "i_nr inn = int nr" and d: "dir_at fs nr []" and dirt: "dirty inn" and pn: "pn < NR_INODES"
  obtains (made) inn' fs' where "testfs_create_empty_dir fs (int pn) p = Ok (0, fs')" "core_inv fs'"
      "dir_at fs' nr [new_entry dot (int nr), new_entry dotdot (int pn)]" "keeps {nr} fs fs'"
      "used_inodes (fsb fs') = used_inodes (fsb fs)" "imem fs' = (imem fs)(p := Some inn')" "same_id inn inn'" "dirty inn'"
      "max_fs_blocks (dsb (fsb fs')) = max_fs_blocks (dsb (fsb fs))"
  | (nospc) inn' fs' where "testfs_create_empty_dir fs (int pn) p = Ok (- ENOSPC, fs')" "core_inv fs'" "keeps {nr} fs fs'"
      "used_inodes (fsb fs') = used_inodes (fsb fs)" "imem fs' = (imem fs)(p := Some inn')" "same_id inn inn'" "dirty inn'"
      "\<not> room (fsb fs') 3" "i_size (din inn') \<le> 21" "max_fs_blocks (dsb (fsb fs')) = max_fs_blocks (dsb (fsb fs))"
proof -
  have ty: "testfs_inode_get_type inn = int_of_type I_DIR" using d core_inv_mem(3) [OF core p(1)] p(2) by (simp add: dir_at_def testfs_inode_get_type_def)
  have nr: "nr < NR_INODES" using core_invD(3) [OF core] d by (simp add: dir_at_def)
  have nm: "0 \<notin> set dot" "length dot < 2 ^ 30" "off [] + length dot + 9 < 2 ^ 31" "dir_add (new_entry dot (int nr)) [] = Some [new_entry dot (int nr)]" by simp_all
  from core p d nm(1,2) nr nm(3) nm(4) show thesis
  proof (cases rule: add_dirent_step)
    case (nospc inn' fs')
    have d': "dirty inn'" using nospc(7) dirt .
    have m: "mark_dirty p fs' = fs'" by (rule mark_dirty_idem [OF _ d']) (simp add: nospc(5))
    have "testfs_create_empty_dir fs (int pn) p = Ok (- ENOSPC, fs')"
      using p ty nospc(1) by (simp add: testfs_create_empty_dir_def with_inode_def testfs_inode_get_nr_def ENOSPC_def)
    moreover have "i_size (din inn') \<le> 21" by (rule order_trans [OF nospc(9)]) simp
    ultimately show thesis using nospc(1-8,10) d' m by (intro that(2) [of fs' inn']) simp_all
  next
    case (added inn1 fs1)
    have p1: "imem fs1 p = Some inn1" "i_nr inn1 = int nr" using added(6,7) p(2) by (simp_all add: same_id_def)
    have nm: "0 \<notin> set dotdot" "length dotdot < 2 ^ 30" "off [new_entry dot (int nr)] + length dotdot + 9 < 2 ^ 31" by (simp_all add: new_entry_def)
    from added(2) p1 added(3) nm(1,2) pn nm(3) dir_add_dotdot [of "int pn" nr] show thesis
    proof (cases rule: add_dirent_step)
      case (nospc inn2 fs2)
      have d': "dirty inn2" using nospc(7) added(8) .
      have m: "mark_dirty p fs2 = fs2" by (rule mark_dirty_idem [OF _ d']) (simp add: nospc(5))
      have "testfs_create_empty_dir fs (int pn) p = Ok (- ENOSPC, fs2)"
        using p ty added(1) nospc(1) by (simp add: testfs_create_empty_dir_def with_inode_def testfs_inode_get_nr_def ENOSPC_def testfs_remove_dirent_def)
      moreover have "keeps {nr} fs fs2" using keeps_trans [OF added(4) nospc(3)] m by simp
      moreover have "same_id inn inn2" using added(7) nospc(6) by (simp add: same_id_def)
      moreover have "i_size (din inn2) \<le> 21" by (rule order_trans [OF nospc(9)]) (simp add: new_entry_def)
      ultimately show thesis using nospc(1-8,10) d' m added(5,6,9) by (intro that(2) [of fs2 inn2]) simp_all
    next
      case (added inn2 fs2)
      note B = added and A = \<open>add_dirent_at fs p dot (int nr) = _\<close> \<open>keeps {nr} fs fs1\<close> \<open>used_inodes (fsb fs1) = used_inodes (fsb fs)\<close>
        \<open>imem fs1 = (imem fs)(p := Some inn1)\<close> \<open>same_id inn inn1\<close>
        \<open>max_fs_blocks (dsb (fsb fs1)) = max_fs_blocks (dsb (fsb fs))\<close>
      have "testfs_create_empty_dir fs (int pn) p = Ok (0, fs2)"
        using p ty A(1) B(1) by (simp add: testfs_create_empty_dir_def with_inode_def testfs_inode_get_nr_def)
      moreover have "keeps {nr} fs fs2" using keeps_trans [OF A(2) B(4)] by simp
      moreover have "same_id inn inn2" using A(5) B(7) by (simp add: same_id_def)
      ultimately show thesis using B A(3,4,6) by (intro that(1) [of fs2 inn2]) simp_all
    qed
  qed
qed

section \<open>Creating a file or a directory\<close>

lemma keeps_drop: "keeps (insert n Z) a b \<Longrightarrow> n \<notin> used_inodes (fsb a) \<Longrightarrow> keeps Z a b"
  by (auto simp: keeps_def)

lemma sync_inode_step:
  assumes core: "core_inv fs" and p: "imem fs p = Some inn"
  obtains inn' fs' where "sync_inode fs p = Ok fs'" "core_inv fs'" "keeps {} fs fs'" "used_inodes (fsb fs') = used_inodes (fsb fs)"
    "imem fs' = (imem fs)(p := Some inn')" "\<not> dirty inn'" "same_id inn inn'"
proof -
  obtain inn' fs' where S: "sync_inode fs p = Ok fs'" "core_inv fs'" "used_inodes (fsb fs') = used_inodes (fsb fs)"
    "imem fs' = (imem fs)(p := Some inn')" "\<not> dirty inn'" "same_id inn inn'" "\<And>m. m < NR_INODES \<Longrightarrow> cur fs' m = cur fs m"
    "\<And>m. m \<in> used_inodes (fsb fs) \<Longrightarrow> file_bytes (dev (fsb fs')) (cur fs m) = file_bytes (dev (fsb fs)) (cur fs m)"
    by (rule sync_inode_core [OF core p], rule that; assumption)
  have "keeps {} fs fs'" using S core_invD(3) [OF core] by (intro keepsI) auto
  with S show thesis by (intro that)
qed

lemma put_last_step:
  assumes core: "core_inv fs" and p: "imem fs p = Some inn" and clean: "\<not> dirty inn" and one: "i_count inn = 1"
  obtains fs' where "testfs_put_inode fs p = Ok fs'" "core_inv fs'" "keeps {} fs fs'" "used_inodes (fsb fs') = used_inodes (fsb fs)" "imem fs' = (imem fs)(p := None)"
proof -
  have e: "testfs_put_inode fs p = Ok (dropped fs p)" using put_inode_eq [OF core_invD(2) [OF core] p] clean one by (simp add: dirty_def)
  note D = core_inv_dropped [OF core p clean]
  have "keeps {} fs (dropped fs p)" using D(2) by (intro keepsI) (simp_all add: dropped_def)
  with e D(1) show thesis by (intro that [of "dropped fs p"]) (simp_all add: dropped_def)
qed

lemma remove_inode_step:
  assumes core: "core_inv fs" and p: "imem fs p = Some inn" "i_nr inn = int nr" "i_count inn = 1"
  obtains fs' where "testfs_remove_inode fs p = Ok fs'" "core_inv fs'" "keeps {nr} fs fs'" "used_inodes (fsb fs') = used_inodes (fsb fs) - {nr}" "imem fs' = (imem fs)(p := None)"
proof -
  have nr: "nat (i_nr inn) = nr" using p(2) by simp
  obtain fs' where R: "testfs_remove_inode fs p = Ok fs'" "core_inv fs'" "used_inodes (fsb fs') = used_inodes (fsb fs) - {nat (i_nr inn)}"
    "imem fs' = (imem fs)(p := None)" "\<And>m. m \<in> used_inodes (fsb fs) \<Longrightarrow> m \<noteq> nat (i_nr inn) \<Longrightarrow> cur fs' m = cur fs m"
    "\<And>m. m \<in> used_inodes (fsb fs) \<Longrightarrow> m \<noteq> nat (i_nr inn) \<Longrightarrow> file_bytes (dev (fsb fs')) (cur fs' m) = file_bytes (dev (fsb fs)) (cur fs m)"
    by (rule remove_inode_core [OF core p(1,3)], rule that; assumption)
  have "keeps {nr} fs fs'" using R(3,5,6) unfolding nr by (intro keepsI) auto
  with R show thesis unfolding nr by (intro that)
qed

text \<open>A new inode: an empty file, or a directory with the entries of itself and of its parent.\<close>

definition new_node :: "fs_state \<Rightarrow> inode_type \<Rightarrow> nat \<Rightarrow> nat \<Rightarrow> bool" where
  "new_node fs type nr pn \<longleftrightarrow> nr \<in> used_inodes (fsb fs) \<and> i_type (cur fs nr) = int_of_type type \<and>
     (if type = I_DIR then dir_at fs nr [new_entry dot (int nr), new_entry dotdot (int pn)] else file_bytes (dev (fsb fs)) (cur fs nr) = [])"

lemma new_node_keeps: "keeps X fs fs' \<Longrightarrow> nr \<notin> X \<Longrightarrow> new_node fs type nr pn \<Longrightarrow> new_node fs' type nr pn"
  using keepsD [of X fs fs' nr] dir_at_keeps [of X fs fs' nr] by (auto simp: new_node_def)

text \<open>The first half: the inode and, for a directory, its own entries.\<close>

lemma create_node_step [consumes 3, case_names full nospc made]:
  assumes core: "core_inv fs" and ty: "type \<noteq> I_NONE" and pn: "case dir of None \<Rightarrow> True | Some dp \<Rightarrow> \<exists>dinn. imem fs dp = Some dinn \<and> i_nr dinn = int pn"
  obtains (full) fs' where "testfs_create_inode fs type = Ok (- ENOSPC, None, fs')" "core_inv fs'" "keeps {} fs fs'" "used_inodes (fsb fs') = used_inodes (fsb fs)"
      "imem fs' = imem fs" "used_inodes (fsb fs) = {..<NR_INODES}"
  | (nospc) p fs1 fs2 fs' where "testfs_create_inode fs type = Ok (0, Some p, fs1)" "create_entry fs1 dir type name p = Ok (- ENOSPC, fs2)"
      "testfs_remove_inode fs2 p = Ok fs'" "core_inv fs'" "keeps {} fs fs'" "used_inodes (fsb fs') = used_inodes (fsb fs)" "imem fs' = imem fs"
      "\<exists>nr inn. core_inv fs2 \<and> used_inodes (fsb fs2) = insert nr (used_inodes (fsb fs)) \<and> imem fs2 p = Some inn \<and> i_nr inn = int nr \<and>
         i_size (din inn) \<le> 21 \<and> \<not> room (fsb fs2) 3 \<and> max_fs_blocks (dsb (fsb fs2)) = max_fs_blocks (dsb (fsb fs))"
  | (made) p inn nr fs1 fs2 where "testfs_create_inode fs type = Ok (0, Some p, fs1)" "imem fs p = None" "nr \<notin> used_inodes (fsb fs)" "nr < NR_INODES"
      "{..<nr} \<subseteq> used_inodes (fsb fs)"
      "create_entry fs1 dir type name p = (case dir of None \<Rightarrow> Ok (0, fs2)
         | Some dp \<Rightarrow> and_then (add_dirent_at fs2 dp name (int nr)) (\<lambda>(ret, fs).
             if ret < 0 then Ok (ret, fs) else and_then (sync_inode fs dp) (\<lambda>fs. Ok (0, fs))))"
      "core_inv fs2" "keeps {} fs fs2" "used_inodes (fsb fs2) = insert nr (used_inodes (fsb fs))" "imem fs2 = (imem fs)(p := Some inn)"
      "i_nr inn = int nr" "i_count inn = 1" "dirty inn" "new_node fs2 type nr (case dir of None \<Rightarrow> nr | Some _ \<Rightarrow> pn)"
      "max_fs_blocks (dsb (fsb fs2)) = max_fs_blocks (dsb (fsb fs))"
  using core ty
proof (cases rule: create_inode_core)
  case (full fs')
  have "keeps {} fs fs'" using full(4,6,7) by (intro keepsI) auto
  with full show thesis by (intro that(1) [of fs']) auto
next
  case (found nr p inn fs1)
  have p1: "imem fs1 p = Some inn" "i_nr inn = int nr" "i_count inn = 1" "dirty inn"
    using found(8,9) by (simp_all add: dirty_def I_FLAGS_DIRTY_def)
  have k1: "keeps {} fs fs1" using found(6,10,11) by (intro keepsI) auto
  have cur1: "cur fs1 nr = zero_dinode\<lparr>i_type := int_of_type type\<rparr>" using cur_cached [OF core_invD(2) [OF found(5)] p1(1,2)] found(9) by simp
  have bytes: "file_bytes d (zero_dinode\<lparr>i_type := t\<rparr>) = []" for d t by (simp add: file_bytes_def zero_dinode_def)
  let ?pn = "case dir of None \<Rightarrow> nr | Some _ \<Rightarrow> pn"
  have parent: "?pn < NR_INODES \<and> (case dir of None \<Rightarrow> testfs_create_empty_dir fs1 (int nr) p
             | Some dp \<Rightarrow> with_inode fs1 dp (\<lambda>parent. testfs_create_empty_dir fs1 (testfs_inode_get_nr parent) p)) = testfs_create_empty_dir fs1 (int ?pn) p"
  proof (cases dir)
    case None
    then show ?thesis using found(4) by simp
  next
    case (Some dp)
    then obtain dinn where d: "imem fs dp = Some dinn" "i_nr dinn = int pn" using pn by auto
    then have "imem fs1 dp = Some dinn" using found(7,8) by auto
    moreover have "pn < NR_INODES" using table_ok_entry(4) [OF core_invD(2) [OF core] d(1)] d(2) by simp
    ultimately show ?thesis using Some d(2) by (simp add: with_inode_def testfs_inode_get_nr_def)
  qed
  show thesis
  proof (cases "type = I_DIR")
    case False
    have "new_node fs1 type nr ?pn" using False found(6) by (simp add: new_node_def cur1 bytes)
    moreover have "create_entry fs1 dir type name p = (case dir of None \<Rightarrow> Ok (0, fs1)
         | Some dp \<Rightarrow> and_then (add_dirent_at fs1 dp name (int nr)) (\<lambda>(ret, fs).
             if ret < 0 then Ok (ret, fs) else and_then (sync_inode fs dp) (\<lambda>fs. Ok (0, fs))))"
      using p1(1,2) False by (cases dir) (simp_all add: create_entry_def with_inode_def testfs_inode_get_nr_def)
    ultimately show thesis using found(1-8,13) p1 k1 by (intro that(3) [of p fs1 nr fs1 inn])
  next
    case True
    have d1: "dir_at fs1 nr []" using True found(6) by (simp add: dir_at_def cur1 bytes) (simp add: zero_dinode_def)
    from found(5) p1(1,2) d1 p1(4) conjunct1 [OF parent] show thesis
    proof (cases rule: create_empty_dir_step)
      case (nospc inn2 fs2)
      have p2: "imem fs2 p = Some inn2" "i_nr inn2 = int nr" "i_count inn2 = 1" using nospc(5,6) p1 by (simp_all add: same_id_def)
      obtain fs' where R: "testfs_remove_inode fs2 p = Ok fs'" "core_inv fs'" "keeps {nr} fs2 fs'" "used_inodes (fsb fs') = used_inodes (fsb fs2) - {nr}" "imem fs' = (imem fs2)(p := None)"
        by (rule remove_inode_step [OF nospc(2) p2])
      have e: "create_entry fs1 dir type name p = Ok (- ENOSPC, fs2)"
        using p1 True nospc(1) conjunct2 [OF parent] by (simp add: create_entry_def with_inode_def testfs_inode_get_nr_def ENOSPC_def)
      have "keeps {nr} fs fs'" using keeps_trans [OF keeps_trans [OF k1 nospc(3), of "{nr}"] R(3), of "{nr}"] by simp
      then have "keeps {} fs fs'" using found(2) by (rule keeps_drop)
      moreover have "imem fs' = imem fs" using R(5) nospc(5) found(7,8) by auto
      moreover have "used_inodes (fsb fs') = used_inodes (fsb fs)" using R(4) nospc(4) found(2,6) by auto
      moreover have "\<exists>nr inn. core_inv fs2 \<and> used_inodes (fsb fs2) = insert nr (used_inodes (fsb fs)) \<and> imem fs2 p = Some inn \<and> i_nr inn = int nr \<and>
         i_size (din inn) \<le> 21 \<and> \<not> room (fsb fs2) 3 \<and> max_fs_blocks (dsb (fsb fs2)) = max_fs_blocks (dsb (fsb fs))"
        using nospc(2,4,8-10) p2(1,2) found(6,13) by (intro exI [of _ nr] exI [of _ inn2]) simp
      ultimately show thesis using found(1) e R by (intro that(2) [of p fs1 fs2 fs'])
    next
      case (made inn2 fs2)
      have "keeps {nr} fs fs2" using keeps_trans [OF k1 made(4), of "{nr}"] by simp
      then have k2: "keeps {} fs fs2" using found(2) by (rule keeps_drop)
      have "new_node fs2 type nr ?pn" using made(3) True by (simp add: new_node_def dir_at_def)
      moreover have "create_entry fs1 dir type name p = (case dir of None \<Rightarrow> Ok (0, fs2)
         | Some dp \<Rightarrow> and_then (add_dirent_at fs2 dp name (int nr)) (\<lambda>(ret, fs).
             if ret < 0 then Ok (ret, fs) else and_then (sync_inode fs dp) (\<lambda>fs. Ok (0, fs))))"
        using p1 True made(1) conjunct2 [OF parent] by (cases dir) (simp_all add: create_entry_def with_inode_def testfs_inode_get_nr_def)
      ultimately show thesis using found made k2 p1 by (intro that(3) [of p fs1 nr fs2 inn2]) (auto simp: same_id_def)
    qed
  qed
qed

lemma lookup_in_dir:
  assumes "core_inv fs" and "imem fs p = Some inn" "i_nr inn = int nr" and "dir_at fs nr ds" and "0 \<notin> set nm"
  shows "testfs_dir_name_to_inode_nr (fsb fs) inn nm = Ok (dir_lookup ds nm)"
proof -
  have r: "dir_rep (fsb fs) inn ([] @ ds)" using assms(4) dir_at_rep [OF assms(1-3)] by simp
  show ?thesis using name_from_rep [OF r assms(5)] dir_repD(3) [OF r] by (simp add: testfs_dir_name_to_inode_nr_def testfs_inode_get_type_def)
qed

text \<open>The second half: the entry in the parent directory.\<close>

lemma create_step [consumes 8, case_names present intact torn created]:
  assumes core: "core_inv fs" and dp: "imem fs dp = Some dinn" "i_nr dinn = int dn" and d: "dir_at fs dn ds"
    and nm: "0 \<notin> set nm" "length nm < 2 ^ 30" and b: "off ds + length nm + 9 < 2 ^ 31" and ty: "type \<noteq> I_NONE"
  obtains (present) "0 \<le> dir_lookup ds nm" "testfs_create_file_or_dir fs (Some dp) type nm = Ok (- EEXIST, fs)"
  | (intact) fs' where "dir_lookup ds nm < 0" "testfs_create_file_or_dir fs (Some dp) type nm = Ok (- ENOSPC, fs')" "core_inv fs'" "keeps {} fs fs'"
      "used_inodes (fsb fs') = used_inodes (fsb fs)" "imem fs' = imem fs"
  | (torn) dinn' fs' where "dir_lookup ds nm < 0" "testfs_create_file_or_dir fs (Some dp) type nm = Ok (- ENOSPC, fs')" "core_inv (mark_dirty dp fs')" "keeps {dn} fs (mark_dirty dp fs')"
      "used_inodes (fsb fs') = used_inodes (fsb fs)" "imem fs' = (imem fs)(dp := Some dinn')" "same_id dinn dinn'"
  | (created) nr ds' dinn' fs' where "dir_lookup ds nm < 0" "testfs_create_file_or_dir fs (Some dp) type nm = Ok (0, fs')" "core_inv fs'" "keeps {dn} fs fs'"
      "nr \<notin> used_inodes (fsb fs)" "nr < NR_INODES" "used_inodes (fsb fs') = insert nr (used_inodes (fsb fs))"
      "dir_add (new_entry nm (int nr)) ds = Some ds'" "dir_at fs' dn ds'" "new_node fs' type nr dn"
      "imem fs' = (imem fs)(dp := Some dinn')" "same_id dinn dinn'" "\<not> dirty dinn'"
proof -
  have look: "with_inode fs dp (\<lambda>inn. testfs_dir_name_to_inode_nr (fsb fs) inn nm) = Ok (dir_lookup ds nm)"
    using lookup_in_dir [OF core dp d nm(1)] dp by (simp add: with_inode_def)
  show thesis
  proof (cases "0 \<le> dir_lookup ds nm")
    case True
    then show thesis using look by (intro that(1)) (simp_all add: testfs_create_file_or_dir_def)
  next
    case False
    then have neg: "dir_lookup ds nm < 0" by simp
    have dn: "dn \<in> used_inodes (fsb fs)" using d by (simp add: dir_at_def)
    have parent: "case Some dp of None \<Rightarrow> True | Some dp \<Rightarrow> \<exists>dinn. imem fs dp = Some dinn \<and> i_nr dinn = int dn" using dp by simp
    from core ty parent show thesis
    proof (cases rule: create_node_step [where name = nm])
      case (full fs')
      then show thesis using look neg by (intro that(2) [of fs']) (simp_all add: testfs_create_file_or_dir_def)
    next
      case (nospc p fs1 fs2 fs')
      then show thesis using look neg by (intro that(2) [of fs']) (simp_all add: testfs_create_file_or_dir_def ENOSPC_def)
    next
      case (made p inn nr fs1 fs2)
      have ne: "p \<noteq> dp" "nr \<noteq> dn" using made(2,3) dp(1) dn by auto
      have p2: "imem fs2 p = Some inn" and dp2: "imem fs2 dp = Some dinn" using made(10) dp(1) ne by simp_all
      have d2: "dir_at fs2 dn ds" using dir_at_keeps [OF made(8) _ d] by simp
      have "find (live_name nm) ds = None" using neg dir_lookup_neg by blast
      then obtain ds' where add: "dir_add (new_entry nm (int nr)) ds = Some ds'" using dir_add_absent [of nm ds "int nr"] by blast
      from made(7) dp2 dp(2) d2 nm made(4) b add show thesis
      proof (cases rule: add_dirent_step)
        case (nospc dinn3 fs3)
        let ?m = "set_inode dp (set_dirty dinn3) fs3"
        have m: "mark_dirty dp fs3 = ?m" by (simp add: mark_dirty_def nospc(5))
        have p3: "imem ?m p = Some inn" using nospc(5) ne p2 by simp
        obtain fs4 where R: "testfs_remove_inode ?m p = Ok fs4" "core_inv fs4" "keeps {nr} ?m fs4" "used_inodes (fsb fs4) = used_inodes (fsb ?m) - {nr}" "imem fs4 = (imem ?m)(p := None)"
          by (rule remove_inode_step [OF nospc(2) [unfolded m] p3 made(11,12)])
        obtain fs5 where fs5: "testfs_remove_inode fs3 p = Ok fs5" "fs4 = set_inode dp (set_dirty dinn3) fs5"
          using R(1) remove_inode_other [OF ne(1), of "set_dirty dinn3" fs3] by (auto simp: and_then_Ok_iff)
        have "set_inode dp dinn3 fs3 = fs3" by (rule set_inode_same) (simp add: nospc(5))
        then have "fs5 = set_inode dp dinn3 fs5" using remove_inode_other [OF ne(1), of dinn3 fs3] fs5(1) by simp
        then have i5: "imem fs5 dp = Some dinn3" by (metis set_inode_simps(1) fun_upd_same)
        then have m5: "mark_dirty dp fs5 = fs4" using fs5(2) by (simp add: mark_dirty_def)
        have imem5: "imem fs5 = (imem fs)(dp := Some dinn3)"
        proof
          fix q
          have "imem fs4 q = imem fs5 q" if "q \<noteq> dp" using fs5(2) that by simp
          then show "imem fs5 q = ((imem fs)(dp := Some dinn3)) q" using i5 R(5) nospc(5) made(2,10) ne by (cases "q = dp"; cases "q = p") auto
        qed
        have e: "testfs_create_file_or_dir fs (Some dp) type nm = Ok (- ENOSPC, fs5)"
          using look neg made(1,6) nospc(1) fs5(1) by (simp add: testfs_create_file_or_dir_def ENOSPC_def)
        have "keeps {nr, dn} fs fs4"
          using keeps_trans [OF keeps_trans [OF made(8) nospc(3) [unfolded m], of "{nr, dn}"] R(3), of "{nr, dn}"] by auto
        then have "keeps {dn} fs fs4" using made(3) by (rule keeps_drop)
        moreover have "used_inodes (fsb fs5) = used_inodes (fsb fs)" using R(4) nospc(4) made(3,9) fs5(2) by auto
        ultimately show thesis using neg e R(2) m5 imem5 nospc(6) by (intro that(3) [of fs5 dinn3]) auto
      next
        case (added dinn3 fs3)
        have dp3: "imem fs3 dp = Some dinn3" by (simp add: added(6))
        obtain dinn4 fs4 where S4: "sync_inode fs3 dp = Ok fs4" "core_inv fs4" "keeps {} fs3 fs4" "used_inodes (fsb fs4) = used_inodes (fsb fs3)"
          "imem fs4 = (imem fs3)(dp := Some dinn4)" "\<not> dirty dinn4" "same_id dinn3 dinn4" by (rule sync_inode_step [OF added(2) dp3])
        have p4: "imem fs4 p = Some inn" using S4(5) added(6) p2 ne by simp
        obtain inn5 fs5 where S5: "sync_inode fs4 p = Ok fs5" "core_inv fs5" "keeps {} fs4 fs5" "used_inodes (fsb fs5) = used_inodes (fsb fs4)"
          "imem fs5 = (imem fs4)(p := Some inn5)" "\<not> dirty inn5" "same_id inn inn5" by (rule sync_inode_step [OF S4(2) p4])
        have p5: "imem fs5 p = Some inn5" "i_count inn5 = 1" using S5(5,7) made(12) by (simp_all add: same_id_def)
        obtain fs6 where S6: "testfs_put_inode fs5 p = Ok fs6" "core_inv fs6" "keeps {} fs5 fs6" "used_inodes (fsb fs6) = used_inodes (fsb fs5)" "imem fs6 = (imem fs5)(p := None)"
          by (rule put_last_step [OF S5(2) p5(1) S5(6) p5(2)])
        have e: "testfs_create_file_or_dir fs (Some dp) type nm = Ok (0, fs6)"
          using look neg made(1,6) added(1) S4(1) S5(1) S6(1) by (simp add: testfs_create_file_or_dir_def)
        have k36: "keeps {} fs3 fs6" using keeps_trans [OF keeps_trans [OF S4(3) S5(3), of "{}"] S6(3), of "{}"] by simp
        have k26: "keeps {dn} fs2 fs6" using keeps_trans [OF added(4) k36, of "{dn}"] by simp
        have "keeps {dn} fs fs6" using keeps_trans [OF made(8) k26, of "{dn}"] by simp
        moreover have "dir_at fs6 dn ds'" using dir_at_keeps [OF k36 _ added(3)] by simp
        moreover have "new_node fs6 type nr dn" using new_node_keeps [OF k26 _ made(14)] ne(2) by simp
        moreover have "imem fs6 = (imem fs)(dp := Some dinn4)" using S6(5) S5(5) S4(5) added(6) made(2,10) ne by (auto simp: fun_eq_iff)
        moreover have "same_id dinn dinn4" using added(7) S4(7) by (simp add: same_id_def)
        ultimately show thesis
          using neg e S6(2,4) S5(4) S4(4,6) added(5) made(3,4,9) add by (intro that(4) [of fs6 nr ds' dinn4]) auto
      qed
    qed
  qed
qed

section \<open>Removing an entry\<close>

fun dir_remove :: "byte list \<Rightarrow> dirent list \<Rightarrow> dirent list" where
  "dir_remove nm [] = []"
| "dir_remove nm (d # ds) = (if live_name nm d then d\<lparr>d_inode_nr := INVALID_INODE_NR\<rparr> # ds else d # dir_remove nm ds)"

lemma dir_remove_split: "\<forall>w \<in> set ws. \<not> live_name nm w \<Longrightarrow> live_name nm d \<Longrightarrow> dir_remove nm (ws @ d # xs) = ws @ d\<lparr>d_inode_nr := INVALID_INODE_NR\<rparr> # xs"
  by (induction ws) auto

lemma find_live_split:
  assumes "find (live_name nm) ds = Some d"
  obtains ws xs where "ds = ws @ d # xs" "\<forall>w \<in> set ws. \<not> live_name nm w" "live_name nm d"
proof -
  from assms obtain i where i: "i < length ds" "live_name nm (ds ! i)" "d = ds ! i" "\<forall>j < i. \<not> live_name nm (ds ! j)" by (auto simp: find_Some_iff)
  have "ds = take i ds @ d # drop (Suc i) ds" using i(1,3) by (simp add: id_take_nth_drop [symmetric])
  moreover have "\<forall>w \<in> set (take i ds). \<not> live_name nm w" using i by (auto simp: in_set_conv_nth)
  ultimately show thesis using i by (intro that [of "take i ds" "drop (Suc i) ds"]) auto
qed

lemma remove_scan_rep:
  assumes "0 \<notin> set nm"
  shows "dir_rep sb dir (us @ vs) \<Longrightarrow>
    (case find (live_name nm) vs of
       None \<Rightarrow> remove_scan sb dir nm (int (off us)) = Ok None
     | Some d \<Rightarrow> \<exists>ws xs. vs = ws @ d # xs \<and> (\<forall>w \<in> set ws. \<not> live_name nm w) \<and> remove_scan sb dir nm (int (off us)) = Ok (Some (int (off (us @ ws)), d)))"
proof (induction vs arbitrary: us)
  case Nil
  then show ?case using next_dirent_rep [OF Nil] by (subst remove_scan.simps) simp
next
  case (Cons d vs)
  have "dent_ok d" using dir_repD(7) [OF Cons.prems, of d] by simp
  then have eq: "strcmp_eq (d_name d) nm = Ok (d_name d = nm @ [0])" by (rule strcmp_dent [OF _ assms])
  note step = next_dirent_rep [OF Cons.prems, simplified]
  show ?case
  proof (cases "live_name nm d")
    case True
    then have "remove_scan sb dir nm (int (off us)) = Ok (Some (int (off us), d))"
      using step eq by (subst remove_scan.simps) (simp add: live_name_def)
    then show ?thesis using True by simp (rule exI [of _ "[]"], simp)
  next
    case False
    then have go: "remove_scan sb dir nm (int (off us)) = remove_scan sb dir nm (int (off (us @ [d])))"
      using step eq by (subst remove_scan.simps) (auto simp: live_name_def)
    have IH: "case find (live_name nm) vs of None \<Rightarrow> remove_scan sb dir nm (int (off (us @ [d]))) = Ok None
     | Some e \<Rightarrow> \<exists>ws xs. vs = ws @ e # xs \<and> (\<forall>w \<in> set ws. \<not> live_name nm w) \<and> remove_scan sb dir nm (int (off (us @ [d]))) = Ok (Some (int (off ((us @ [d]) @ ws)), e))"
      using Cons.IH [of "us @ [d]"] Cons.prems by simp
    show ?thesis
    proof (cases "find (live_name nm) vs")
      case None
      then show ?thesis using IH go False by simp
    next
      case (Some e)
      with IH obtain ws xs where W: "vs = ws @ e # xs" "\<forall>w \<in> set ws. \<not> live_name nm w"
        "remove_scan sb dir nm (int (off (us @ [d]))) = Ok (Some (int (off ((us @ [d]) @ ws)), e))" by auto
      have "find (live_name nm) (d # vs) = Some e" using False Some by simp
      then show ?thesis unfolding go W(3) using W(1,2) False
        by (simp only: option.case) (rule exI [of _ "d # ws"], rule exI [of _ xs], simp)
    qed
  qed
qed

text \<open>A directory may be removed when all its entries in use are those of itself and of its parent.\<close>

definition dots_only :: "dirent list \<Rightarrow> bool" where
  "dots_only ds \<longleftrightarrow> (\<forall>d \<in> set ds. 0 \<le> d_inode_nr d \<longrightarrow> d_name d = dot @ [0] \<or> d_name d = dotdot @ [0])"

lemma is_dots_rep: "dent_ok d \<Longrightarrow> is_dots d = Ok (d_name d = dot @ [0] \<or> d_name d = dotdot @ [0])"
  using strcmp_dent [of d dot] strcmp_dent [of d dotdot] by (simp add: is_dots_def or_else_def)

lemma allowed_from_rep:
  "dir_rep sb dir (us @ vs) \<Longrightarrow> allowed_from sb dir (int (off us)) = Ok (if dots_only vs then 0 else - ENOTEMPTY)"
proof (induction vs arbitrary: us)
  case Nil
  then show ?case using next_dirent_rep [OF Nil] by (subst allowed_from.simps) (simp add: dots_only_def)
next
  case (Cons d vs)
  have "dent_ok d" using dir_repD(7) [OF Cons.prems, of d] by simp
  note eq = is_dots_rep [OF this] and step = next_dirent_rep [OF Cons.prems, simplified]
  have IH: "allowed_from sb dir (int (off (us @ [d]))) = Ok (if dots_only vs then 0 else - ENOTEMPTY)" using Cons.IH [of "us @ [d]"] Cons.prems by simp
  show ?case
  proof (cases "d_inode_nr d < 0 \<or> d_name d = dot @ [0] \<or> d_name d = dotdot @ [0]")
    case True
    then have "allowed_from sb dir (int (off us)) = allowed_from sb dir (int (off (us @ [d])))"
      using step eq by (subst allowed_from.simps) (auto simp: or_else_def)
    moreover have "dots_only (d # vs) = dots_only vs" using True by (auto simp: dots_only_def)
    ultimately show ?thesis using IH by simp
  next
    case False
    then have "allowed_from sb dir (int (off us)) = Ok (- ENOTEMPTY)" using step eq by (subst allowed_from.simps) (auto simp: or_else_def)
    moreover have "\<not> dots_only (d # vs)" using False by (auto simp: dots_only_def)
    ultimately show ?thesis by simp
  qed
qed

definition removable :: "fs_state \<Rightarrow> nat \<Rightarrow> dirent list \<Rightarrow> bool" where
  "removable fs n es \<longleftrightarrow> i_type (cur fs n) \<noteq> int_of_type I_DIR \<or> dots_only es"

text \<open>An inode is got, looked at and put again.\<close>

lemma get_look_put:
  assumes core: "core_inv fs" and nr: "nr \<in> used_inodes (fsb fs)" and clean: "\<And>p inn. imem fs p = Some inn \<Longrightarrow> \<not> dirty inn"
  obtains p inn fs' fs'' where "testfs_get_inode fs (int nr) = Ok (p, fs')" "imem fs' p = Some inn" "i_nr inn = int nr" "din inn = cur fs nr" "core_inv fs'"
    "fsb fs' = fsb fs" "\<And>m. cur fs' m = cur fs m" "testfs_put_inode fs' p = Ok fs''" "core_inv fs''" "fsb fs'' = fsb fs" "imem fs'' = imem fs" "\<And>m. cur fs'' m = cur fs m"
proof -
  obtain p inn fs' where G: "testfs_get_inode fs (int nr) = Ok (p, fs')" "imem fs' p = Some inn" "i_nr inn = int nr" "din inn = cur fs nr" "core_inv fs'"
    "fsb fs' = fsb fs" "\<And>m. cur fs' m = cur fs m" "\<And>q. q \<noteq> p \<Longrightarrow> imem fs' q = imem fs q"
    "imem fs p = Some (inn\<lparr>i_count := i_count inn - 1\<rparr>) \<and> fs' = set_inode p inn fs \<or>
     p = inext fs \<and> imem fs p = None \<and> uncached fs (int nr) \<and> inn = fresh_inode (fsb fs) nr \<and> fs' = loaded fs inn"
    by (rule get_inode_core [OF core nr], rule that; assumption)
  have c: "\<not> dirty inn" using G(9) clean [of p "inn\<lparr>i_count := i_count inn - 1\<rparr>"] by (auto simp: dirty_def fresh_inode_def)
  have old: "imem fs p = (if i_count inn = 1 then None else Some (inn\<lparr>i_count := i_count inn - 1\<rparr>))"
    using G(9) table_ok_entry(2) [OF core_invD(2) [OF core], of p] by (auto simp: fresh_inode_def)
  obtain fs'' where P: "testfs_put_inode fs' p = Ok fs''" "core_inv fs''" "fsb fs'' = fsb fs'" "\<And>m. cur fs'' m = cur fs' m" "\<And>q. q \<noteq> p \<Longrightarrow> imem fs'' q = imem fs' q"
    "imem fs'' p = (if i_count inn = 1 then None else Some (inn\<lparr>i_count := i_count inn - 1\<rparr>))"
    by (rule put_inode_core [OF G(5,2) c], rule that; assumption)
  have "imem fs'' = imem fs"
  proof
    show "imem fs'' q = imem fs q" for q using P(5,6) G(8) old by (cases "q = p") auto
  qed
  with G P show thesis by (intro that [of p fs' inn fs'']) auto
qed

lemma remove_allowed_step:
  assumes core: "core_inv fs" and nr: "nr \<in> used_inodes (fsb fs)" and clean: "\<And>p inn. imem fs p = Some inn \<Longrightarrow> \<not> dirty inn"
    and d: "i_type (cur fs nr) = int_of_type I_DIR \<Longrightarrow> dir_at fs nr es"
  obtains fs' where "testfs_remove_dirent_allowed fs (int nr) = Ok (if removable fs nr es then 0 else - ENOTEMPTY, fs')" "core_inv fs'" "fsb fs' = fsb fs" "imem fs' = imem fs"
    "\<And>m. cur fs' m = cur fs m"
proof -
  obtain p inn fs1 fs' where G: "testfs_get_inode fs (int nr) = Ok (p, fs1)" "imem fs1 p = Some inn" "i_nr inn = int nr" "din inn = cur fs nr" "core_inv fs1"
    "fsb fs1 = fsb fs" "\<And>m. cur fs1 m = cur fs m" "testfs_put_inode fs1 p = Ok fs'" "core_inv fs'" "fsb fs' = fsb fs" "imem fs' = imem fs" "\<And>m. cur fs' m = cur fs m"
    by (rule get_look_put [OF core nr clean], assumption, rule that; assumption)
  have "with_inode fs1 p (\<lambda>dir. if testfs_inode_get_type dir \<noteq> int_of_type I_DIR then Ok 0 else allowed_from (fsb fs1) dir 0) = Ok (if removable fs nr es then 0 else - ENOTEMPTY)"
  proof (cases "i_type (cur fs nr) = int_of_type I_DIR")
    case True
    have "dir_at fs1 nr es" using d [OF True] G(6,7) by (simp add: dir_at_def)
    then have "dir_rep (fsb fs1) inn ([] @ es)" using dir_at_rep [OF G(5,2,3)] by simp
    from allowed_from_rep [OF this] True G(2,4) show ?thesis by (simp add: with_inode_def testfs_inode_get_type_def removable_def)
  next
    case False
    then show ?thesis using G(2,4) by (simp add: with_inode_def testfs_inode_get_type_def removable_def)
  qed
  then show thesis using G by (intro that [of fs']) (simp_all add: testfs_remove_dirent_allowed_def)
qed

lemma write_entry_step [consumes 6, case_names written nospc]:
  assumes core: "core_inv fs" and p: "imem fs p = Some inn" "i_nr inn = int nr" and d: "dir_at fs nr (us @ x # vs)"
    and e: "dent_ok e" and len: "length (d_name x) = length (d_name e)"
  obtains (written) inn' fs' where "on_inode fs p (\<lambda>sb dir. testfs_write_data sb dir (dirent_bytes e) (int (off us)) (off [e])) = Ok (int (off [e]), fs')"
      "core_inv fs'" "dir_at fs' nr (us @ e # vs)" "keeps {nr} fs fs'" "used_inodes (fsb fs') = used_inodes (fsb fs)"
      "imem fs' = (imem fs)(p := Some inn')" "same_id inn inn'" "dirty inn'"
  | (nospc) inn' fs' where "on_inode fs p (\<lambda>sb dir. testfs_write_data sb dir (dirent_bytes e) (int (off us)) (off [e])) = Ok (- ENOSPC, fs')"
      "core_inv (mark_dirty p fs')" "keeps {nr} fs (mark_dirty p fs')" "used_inodes (fsb fs') = used_inodes (fsb fs)"
      "imem fs' = (imem fs)(p := Some inn')" "same_id inn inn'" "\<not> room (fsb fs') 3"
proof -
  have r: "dir_rep (fsb fs) inn (us @ x # vs)" using d dir_at_rep [OF core p] by simp
  have b: "off us + off [e] < 2 ^ 31" using dir_repD(5) [OF r] len by simp
  have "x # vs = [] \<or> length (d_name (hd (x # vs))) = length (d_name e)" using len by simp
  from write_entry [OF r e this b] obtain ret inn' sb' where
    W: "testfs_write_data (fsb fs) inn (dirent_bytes e) (int (off us)) (off [e]) = Ok (ret, inn', sb')" "super_inv sb'" "file_ok sb' (din inn')"
      "keeps_foreign (fsb fs) (din inn) sb' (din inn')" "same_id inn inn'"
    and ret: "ret = int (off [e]) \<and> dir_rep sb' inn' (us @ e # tl (x # vs)) \<and> i_flags inn' = i_flags inn OR I_FLAGS_DIRTY \<or>
      ret = - ENOSPC \<and> \<not> room sb' 3 \<and> i_size (din inn') \<le> int (off (us @ x # vs) + off [e])"
    by (elim exE conjE)
  define fs' where "fs' = set_inode p inn' (fs\<lparr>fsb := sb'\<rparr>)"
  have eq: "on_inode fs p (\<lambda>sb dir. testfs_write_data sb dir (dirent_bytes e) (int (off us)) (off [e])) = Ok (ret, fs')"
    using p W(1) by (simp add: on_inode_def with_inode_def fs'_def del: off_simps)
  have nn: "nat (i_nr inn) = nr" using p(2) by simp
  have keep: "keeps {nr} fs fs''" if "fs'' = set_inode p inn'' (fs\<lparr>fsb := sb'\<rparr>)" "din inn'' = din inn'" "same_id inn inn''" "dirty inn''" for inn'' fs''
    using file_step [OF core p(1) W(2) _ _ that(3) _ that(1)] W(3,4) that(2,4) core_invD(3) [OF core] nn by (intro keepsI) (auto simp: that(1))
  from ret show thesis
  proof (elim disjE conjE)
    assume A: "ret = int (off [e])" "dir_rep sb' inn' (us @ e # tl (x # vs))" "i_flags inn' = i_flags inn OR I_FLAGS_DIRTY"
    have dirt: "dirty inn'" by (rule set_dirty_dirty [OF A(3)])
    note S = file_step [OF core p(1) W(2-5) _ fs'_def]
    have core': "core_inv fs'" using S(1) dirt by blast
    have p': "imem fs' p = Some inn'" "i_nr inn' = int nr" using W(5) p by (simp_all add: fs'_def same_id_def)
    have "dir_at fs' nr (us @ e # vs)" using A(2) dir_at_rep [OF core' p'] by (simp add: fs'_def)
    then show thesis using eq A(1) core' keep [OF fs'_def _ W(5) dirt] S(2) dirt W(5) by (intro written [of fs' inn']) (simp_all add: fs'_def del: off_simps)
  next
    assume A: "ret = - ENOSPC" "\<not> room sb' 3" "i_size (din inn') \<le> int (off (us @ x # vs) + off [e])"
    have m: "mark_dirty p fs' = set_inode p (set_dirty inn') (fs\<lparr>fsb := sb'\<rparr>)" by (simp add: mark_dirty_def fs'_def set_inode_def)
    have id: "same_id inn (set_dirty inn')" using W(5) by (simp add: same_id_def)
    note S = file_step [OF core p(1) W(2) _ _ id _ m]
    have "core_inv (mark_dirty p fs')" "used_inodes (fsb fs') = used_inodes (fsb fs)" using S(1,2) W(3,4) by simp_all
    then show thesis using eq A keep [OF m _ id] W(5) by (intro nospc [of fs' inn']) (simp_all add: fs'_def m del: off_simps)
  qed
qed

lemma remove_dirent_step [consumes 10, case_names missing notempty nospc removed]:
  assumes core: "core_inv fs" and dp: "imem fs dp = Some dinn" "i_nr dinn = int dn" and d: "dir_at fs dn ds"
    and nm: "0 \<notin> set nm" "nm \<noteq> dot" "nm \<noteq> dotdot"
    and refs: "\<forall>d \<in> set ds. 0 \<le> d_inode_nr d \<longrightarrow> nat (d_inode_nr d) \<in> used_inodes (fsb fs)"
    and clean: "\<forall>p inn. imem fs p = Some inn \<longrightarrow> \<not> dirty inn"
    and es: "\<forall>n. int n = dir_lookup ds nm \<longrightarrow> i_type (cur fs n) = int_of_type I_DIR \<longrightarrow> dir_at fs n (E n)"
  obtains (missing) "dir_lookup ds nm < 0" "testfs_remove_dirent fs dp nm = Ok (- ENOENT, fs)"
  | (notempty) n fs' where "dir_lookup ds nm = int n" "\<not> removable fs n (E n)" "testfs_remove_dirent fs dp nm = Ok (- ENOTEMPTY, fs')" "core_inv fs'" "fsb fs' = fsb fs"
      "imem fs' = imem fs" "\<And>m. cur fs' m = cur fs m"
  | (nospc) n dinn' fs' where "dir_lookup ds nm = int n" "removable fs n (E n)" "testfs_remove_dirent fs dp nm = Ok (- ENOSPC, fs')" "core_inv (mark_dirty dp fs')"
      "keeps {dn} fs (mark_dirty dp fs')" "used_inodes (fsb fs') = used_inodes (fsb fs)" "imem fs' = (imem fs)(dp := Some dinn')" "same_id dinn dinn'"
  | (removed) n dinn' fs' where "dir_lookup ds nm = int n" "removable fs n (E n)" "n \<in> used_inodes (fsb fs)" "testfs_remove_dirent fs dp nm = Ok (int n, fs')" "core_inv fs'"
      "dir_at fs' dn (dir_remove nm ds)" "keeps {dn} fs fs'" "used_inodes (fsb fs') = used_inodes (fsb fs)" "imem fs' = (imem fs)(dp := Some dinn')" "same_id dinn dinn'" "dirty dinn'"
proof -
  have r: "dir_rep (fsb fs) dinn ([] @ ds)" using d dir_at_rep [OF core dp] by simp
  note scan = remove_scan_rep [OF nm(1) r]
  show thesis
  proof (cases "find (live_name nm) ds")
    case None
    then have "dir_lookup ds nm < 0" using dir_lookup_neg by blast
    then show thesis using None scan dp nm(2,3) by (intro that(1)) (simp_all add: testfs_remove_dirent_def with_inode_def)
  next
    case (Some e)
    with scan obtain ws xs where S: "ds = ws @ e # xs" "\<forall>w \<in> set ws. \<not> live_name nm w" "remove_scan (fsb fs) dinn nm 0 = Ok (Some (int (off ws), e))" by auto
    have live: "live_name nm e" using Some by (auto simp: find_Some_iff)
    define n where "n = nat (d_inode_nr e)"
    have n: "d_inode_nr e = int n" "dir_lookup ds nm = int n" using live Some by (simp_all add: n_def live_name_def dir_lookup_def)
    have used: "n \<in> used_inodes (fsb fs)" using refs S(1) n(1) by simp
    have clean': "\<And>p inn. imem fs p = Some inn \<Longrightarrow> \<not> dirty inn" using clean by blast
    obtain fs1 where A: "testfs_remove_dirent_allowed fs (int n) = Ok (if removable fs n (E n) then 0 else - ENOTEMPTY, fs1)" "core_inv fs1" "fsb fs1 = fsb fs" "imem fs1 = imem fs"
      "\<And>m. cur fs1 m = cur fs m"
      by (rule remove_allowed_step [OF core used clean' es [rule_format, OF n(2) [symmetric]]], assumption, assumption, rule that; assumption)
    show thesis
    proof (cases "removable fs n (E n)")
      case False
      then show thesis using n S(3) A dp nm by (intro that(2) [of n fs1]) (simp_all add: testfs_remove_dirent_def with_inode_def ENOTEMPTY_def)
    next
      case True
      let ?e = "e\<lparr>d_inode_nr := INVALID_INODE_NR\<rparr>"
      have dn: "dent_ok e" using d S(1) by (simp add: dir_at_def)
      have ok: "dent_ok ?e" using dn by (auto simp: dent_ok_def INVALID_INODE_NR_def is_s32_def)
      have off: "off [?e] = sizeof_dirent + nat (d_name_len e)" using dn by (simp add: dent_ok_def sizeof_dirent_def)
      have d1: "dir_at fs1 dn (ws @ e # xs)" using d A(3,5) S(1) by (simp add: dir_at_def)
      have dp1: "imem fs1 dp = Some dinn" using dp A(4) by simp
      have len: "length (d_name e) = length (d_name ?e)" by simp
      have rm: "dir_remove nm ds = ws @ ?e # xs" unfolding S(1) by (rule dir_remove_split [OF S(2) live])
      have go: "testfs_remove_dirent fs dp nm = and_then (on_inode fs1 dp (\<lambda>sb dir. testfs_write_data sb dir (dirent_bytes ?e) (int (off ws)) (off [?e])))
          (\<lambda>(ret, fs). Ok (if ret \<ge> 0 then int n else ret, fs))"
        using S(3) n A(1) True dp nm unfolding off by (simp add: testfs_remove_dirent_def with_inode_def Let_def split_def cong: if_cong)
      have k1: "keeps {} fs fs1" using A by (intro keepsI) simp_all
      from A(2) dp1 dp(2) d1 ok len show thesis
      proof (cases rule: write_entry_step)
        case (written dinn' fs')
        have "keeps {dn} fs fs'" using keeps_trans [OF k1 written(4), of "{dn}"] by simp
        then show thesis using written go n used True A rm by (intro that(4) [of n fs' dinn']) (simp_all del: off_simps)
      next
        case (nospc dinn' fs')
        have "keeps {dn} fs (mark_dirty dp fs')" using keeps_trans [OF k1 nospc(3), of "{dn}"] by simp
        then show thesis using nospc go n True A by (intro that(3) [of n fs' dinn']) (simp_all add: ENOSPC_def del: off_simps)
      qed
    qed
  qed
qed

end
