(* ===== verification/FS_TreeInv.thy ===== *)
theory FS_TreeInv
  imports FS_Tree
begin

text \<open>
  The tree of directories: the invariant that the directories in the inodes in use form a tree with root 0, what a user sees of a file system,
  and the effect on both of creating and of removing a node.
\<close>

unbundle bit_operations_syntax

section \<open>The tree of directories\<close>

text \<open>
  The entries in use of a directory behind those of itself and of its parent, and the inode numbers they refer to.
\<close>

definition lives :: "dirent list \<Rightarrow> dirent list" where
  "lives ds = filter (\<lambda>d. 0 \<le> d_inode_nr d) ds"

definition kids :: "(nat \<Rightarrow> dirent list) \<Rightarrow> nat \<Rightarrow> nat list" where
  "kids E nr = map (\<lambda>d. nat (d_inode_nr d)) (lives (drop 2 (E nr)))"

definition parent :: "(nat \<Rightarrow> dirent list) \<Rightarrow> nat \<Rightarrow> nat" where
  "parent E nr = nat (d_inode_nr (E nr ! 1))"

definition dir_start :: "(nat \<Rightarrow> dirent list) \<Rightarrow> nat \<Rightarrow> bool" where
  "dir_start E nr \<longleftrightarrow> (\<exists>rest. E nr = new_entry dot (int nr) # new_entry dotdot (int (parent E nr)) # rest)"

text \<open>
  The directories \<open>D\<close> among the inodes \<open>U\<close> form a tree with root 0: every directory begins with its two own entries, the names in it are distinct, every inode but the root has
  exactly one other entry, the parent entry of a directory is the directory it is in, and the parents lead to the root.
\<close>

definition tree_ok :: "nat set \<Rightarrow> nat set \<Rightarrow> (nat \<Rightarrow> dirent list) \<Rightarrow> bool" where
  "tree_ok U D E \<longleftrightarrow> 0 \<in> D \<and> D \<subseteq> U \<and>
     (\<forall>nr \<in> D. dir_start E nr \<and> distinct (map d_name (lives (E nr))) \<and> distinct (kids E nr) \<and> set (kids E nr) \<subseteq> U - {0}) \<and>
     (\<forall>m \<in> D. \<forall>n \<in> D. m \<noteq> n \<longrightarrow> set (kids E m) \<inter> set (kids E n) = {}) \<and>
     U - {0} \<subseteq> (\<Union>nr \<in> D. set (kids E nr)) \<and>
     (\<forall>nr \<in> D. \<forall>k \<in> set (kids E nr) \<inter> D. parent E k = nr) \<and> parent E 0 = 0 \<and>
     (\<forall>nr \<in> D. \<exists>k. (parent E ^^ k) nr = 0)"

lemma tree_okD:
  assumes "tree_ok U D E"
  shows "0 \<in> D" "D \<subseteq> U" "nr \<in> D \<Longrightarrow> dir_start E nr" "nr \<in> D \<Longrightarrow> distinct (map d_name (lives (E nr)))" "nr \<in> D \<Longrightarrow> distinct (kids E nr)"
    "nr \<in> D \<Longrightarrow> k \<in> set (kids E nr) \<Longrightarrow> k \<in> U \<and> k \<noteq> 0" "m \<in> D \<Longrightarrow> n \<in> D \<Longrightarrow> k \<in> set (kids E m) \<Longrightarrow> k \<in> set (kids E n) \<Longrightarrow> m = n"
    "nr \<in> D \<Longrightarrow> k \<in> D \<Longrightarrow> k \<in> set (kids E nr) \<Longrightarrow> parent E k = nr" "parent E 0 = 0" "nr \<in> D \<Longrightarrow> \<exists>k. (parent E ^^ k) nr = 0"
    "k \<in> U \<Longrightarrow> k \<noteq> 0 \<Longrightarrow> \<exists>nr \<in> D. k \<in> set (kids E nr)"
proof -
  note T = assms [unfolded tree_ok_def]
  note T1 = T [THEN conjunct1] and R1 = T [THEN conjunct2]
  note T2 = R1 [THEN conjunct1] and R2 = R1 [THEN conjunct2]
  note T3 = R2 [THEN conjunct1, rule_format] and R3 = R2 [THEN conjunct2]
  note T4 = R3 [THEN conjunct1, rule_format] and R4 = R3 [THEN conjunct2]
  note T5 = R4 [THEN conjunct1] and R5 = R4 [THEN conjunct2]
  note T6 = R5 [THEN conjunct1, rule_format] and R6 = R5 [THEN conjunct2]
  show "0 \<in> D" "D \<subseteq> U" by (fact T1 T2)+
  show "parent E 0 = 0" using R6 by (rule conjunct1)
  show "nr \<in> D \<Longrightarrow> \<exists>k. (parent E ^^ k) nr = 0" using R6 [THEN conjunct2] by (rule bspec)
  show "nr \<in> D \<Longrightarrow> dir_start E nr" "nr \<in> D \<Longrightarrow> distinct (map d_name (lives (E nr)))" "nr \<in> D \<Longrightarrow> distinct (kids E nr)"
    using T3 by blast+
  show "k \<in> U \<and> k \<noteq> 0" if "nr \<in> D" "k \<in> set (kids E nr)"
  proof -
    have "set (kids E nr) \<subseteq> U - {0}" using T3 [OF that(1)] by (elim conjE)
    from subsetD [OF this that(2)] show ?thesis by simp
  qed
  show "m = n" if "m \<in> D" "n \<in> D" "k \<in> set (kids E m)" "k \<in> set (kids E n)"
  proof (rule ccontr)
    assume "m \<noteq> n"
    from T4 [OF that(1,2) this] that(3,4) show False by blast
  qed
  show "parent E k = nr" if "nr \<in> D" "k \<in> D" "k \<in> set (kids E nr)" using T6 [OF that(1), of k] that(2,3) by blast
  show "\<exists>nr \<in> D. k \<in> set (kids E nr)" if "k \<in> U" "k \<noteq> 0" using T5 that by blast
qed

lemma tree_okI:
  assumes "0 \<in> D" "D \<subseteq> U" "\<And>nr. nr \<in> D \<Longrightarrow> dir_start E nr" "\<And>nr. nr \<in> D \<Longrightarrow> distinct (map d_name (lives (E nr)))" "\<And>nr. nr \<in> D \<Longrightarrow> distinct (kids E nr)"
    "\<And>nr k. nr \<in> D \<Longrightarrow> k \<in> set (kids E nr) \<Longrightarrow> k \<in> U \<and> k \<noteq> 0"
    "\<And>m n k. m \<in> D \<Longrightarrow> n \<in> D \<Longrightarrow> k \<in> set (kids E m) \<Longrightarrow> k \<in> set (kids E n) \<Longrightarrow> m = n"
    "\<And>nr k. nr \<in> D \<Longrightarrow> k \<in> D \<Longrightarrow> k \<in> set (kids E nr) \<Longrightarrow> parent E k = nr" "parent E 0 = 0" "\<And>nr. nr \<in> D \<Longrightarrow> \<exists>k. (parent E ^^ k) nr = 0"
    "\<And>k. k \<in> U \<Longrightarrow> k \<noteq> 0 \<Longrightarrow> \<exists>nr \<in> D. k \<in> set (kids E nr)"
  shows "tree_ok U D E"
proof (unfold tree_ok_def, intro conjI)
  show "\<forall>nr \<in> D. dir_start E nr \<and> distinct (map d_name (lives (E nr))) \<and> distinct (kids E nr) \<and> set (kids E nr) \<subseteq> U - {0}"
    using assms(3-6) by blast
  show "\<forall>m \<in> D. \<forall>n \<in> D. m \<noteq> n \<longrightarrow> set (kids E m) \<inter> set (kids E n) = {}" using assms(7) by blast
  show "U - {0} \<subseteq> (\<Union>nr \<in> D. set (kids E nr))" using assms(11) by blast
  show "\<forall>nr \<in> D. \<forall>k \<in> set (kids E nr) \<inter> D. parent E k = nr" using assms(8) by blast
  show "\<forall>nr \<in> D. \<exists>k. (parent E ^^ k) nr = 0" using assms(10) by blast
qed (rule assms)+

lemma tree_parent:
  assumes "tree_ok U D E" and "nr \<in> D"
  shows "parent E nr \<in> D"
proof (cases "nr = 0")
  case True
  then show ?thesis using tree_okD(1,9) [OF assms(1)] by simp
next
  case False
  then obtain m where "m \<in> D" "nr \<in> set (kids E m)" using tree_okD(11) [OF assms(1), of nr] tree_okD(2) [OF assms(1)] assms(2) by blast
  then show ?thesis using tree_okD(8) [OF assms(1) _ assms(2)] by blast
qed

lemma lives_simps [simp]: "lives [] = []" "lives (d # ds) = (if 0 \<le> d_inode_nr d then d # lives ds else lives ds)" "lives (us @ vs) = lives us @ lives vs"
  by (simp_all add: lives_def)

lemma dir_start_kids:
  assumes "dir_start E nr"
  obtains rest where "E nr = new_entry dot (int nr) # new_entry dotdot (int (parent E nr)) # rest" "kids E nr = map (\<lambda>d. nat (d_inode_nr d)) (lives rest)"
    "lives (E nr) = new_entry dot (int nr) # new_entry dotdot (int (parent E nr)) # lives rest"
  using assms by (auto simp: dir_start_def kids_def new_entry_def)

lemma find_live: "find (live_name nm) ds = find (\<lambda>d. d_name d = nm @ [0]) (lives ds)"
  by (induction ds) (auto simp: live_name_def)

text \<open>Adding and removing an entry, seen on the entries in use.\<close>

lemma dir_add_lives:
  assumes "dir_add (new_entry nm (int n)) ds = Some ds'"
  shows "\<exists>us vs. lives ds = us @ vs \<and> lives ds' = us @ new_entry nm (int n) # vs"
  using assms
proof (induction ds arbitrary: ds')
  case Nil
  then show ?case by (auto simp: new_entry_def)
next
  case (Cons d ds)
  show ?case
  proof (cases "0 \<le> d_inode_nr d \<or> length (d_name d) \<noteq> length (d_name (new_entry nm (int n)))")
    case False
    then have "ds' = new_entry nm (int n) # ds" "lives (d # ds) = lives ds" using Cons.prems by auto
    then show ?thesis by (intro exI [of _ "[]"] exI [of _ "lives ds"]) (simp add: new_entry_def)
  next
    case True
    then obtain ds1 where d: "dir_add (new_entry nm (int n)) ds = Some ds1" "ds' = d # ds1" using Cons.prems by (auto split: if_splits)
    from Cons.IH [OF d(1)] obtain us vs where "lives ds = us @ vs" "lives ds1 = us @ new_entry nm (int n) # vs" by blast
    then show ?thesis using d(2) by (cases "0 \<le> d_inode_nr d") (auto intro: exI [of _ "d # us"])
  qed
qed

lemma dir_add_start:
  assumes "dir_add (new_entry nm nr) (a # b # ds) = Some ds'" and "0 \<le> d_inode_nr a" "0 \<le> d_inode_nr b"
  shows "\<exists>ds1. ds' = a # b # ds1 \<and> dir_add (new_entry nm nr) ds = Some ds1"
  using assms by (auto split: if_splits)

lemma dir_remove_lives:
  assumes "find (live_name nm) ds = Some d"
  shows "\<exists>us vs. lives ds = us @ d # vs \<and> lives (dir_remove nm ds) = us @ vs"
  using assms
proof (induction ds)
  case (Cons e ds)
  show ?case
  proof (cases "live_name nm e")
    case True
    then show ?thesis using Cons.prems by (auto simp: live_name_def INVALID_INODE_NR_def)
  next
    case False
    then obtain us vs where "lives ds = us @ d # vs" "lives (dir_remove nm ds) = us @ vs" using Cons by auto
    then show ?thesis using False by (cases "0 \<le> d_inode_nr e") (auto intro: exI [of _ "e # us"])
  qed
qed simp

lemma dir_remove_lookup:
  assumes "distinct (map d_name (lives ds))"
  shows "dir_lookup (dir_remove nm ds) n = (if n = nm then - ENOENT else dir_lookup ds n)"
proof (cases "find (live_name nm) ds")
  case None
  then have "dir_remove nm ds = ds" by (induction ds) (auto split: if_splits)
  then show ?thesis using None by (simp add: dir_lookup_def)
next
  case (Some d)
  from dir_remove_lives [OF this] obtain us vs where L: "lives ds = us @ d # vs" "lives (dir_remove nm ds) = us @ vs" by blast
  have d: "d_name d = nm @ [0]" using Some by (auto simp: find_Some_iff live_name_def)
  show ?thesis
  proof (cases "n = nm")
    case True
    have "nm @ [0] \<notin> d_name ` set (us @ vs)" using assms d unfolding L(1) by auto
    then have "find (\<lambda>d. d_name d = nm @ [0]) (us @ vs) = None" unfolding find_None_iff by (metis imageI)
    then show ?thesis using True L(2) by (simp add: dir_lookup_def find_live)
  next
    case False
    have "find (\<lambda>d. d_name d = n @ [0]) (us @ d # vs) = find (\<lambda>d. d_name d = n @ [0]) (us @ vs)" for us using False d by (induction us) simp_all
    then show ?thesis using False L by (simp add: dir_lookup_def find_live)
  qed
qed

lemma parent_iterate:
  assumes tree: "tree_ok U D E" and same: "\<forall>m \<in> D. parent E' m = parent E m" and m: "m \<in> D"
  shows "(parent E' ^^ k) m = (parent E ^^ k) m \<and> (parent E ^^ k) m \<in> D"
proof (induction k)
  case (Suc k)
  then show ?case using same tree_parent [OF tree] by simp
qed (simp add: m)

lemma new_entry_live: "0 \<le> d_inode_nr (new_entry nm (int n))"
  by (simp add: new_entry_def)

lemma tree_add_entry:
  assumes tree: "tree_ok U D E" and dn: "dn \<in> D" and nr: "nr \<notin> U" and free: "find (live_name nm) (E dn) = None"
    and add: "dir_add (new_entry nm (int nr)) (E dn) = Some ds'"
  shows "tree_ok (insert nr U) D (E(dn := ds'))" "nr \<in> set (kids (E(dn := ds')) dn)"
proof -
  let ?E = "E(dn := ds')"
  note T = tree_okD [OF tree]
  from T(3) [OF dn] obtain rest where R: "E dn = new_entry dot (int dn) # new_entry dotdot (int (parent E dn)) # rest" "kids E dn = map (\<lambda>d. nat (d_inode_nr d)) (lives rest)"
    "lives (E dn) = new_entry dot (int dn) # new_entry dotdot (int (parent E dn)) # lives rest" by (rule dir_start_kids)
  obtain rest' where R': "ds' = new_entry dot (int dn) # new_entry dotdot (int (parent E dn)) # rest'" "dir_add (new_entry nm (int nr)) rest = Some rest'"
    using dir_add_start [OF add [unfolded R(1)] new_entry_live new_entry_live] by blast
  from dir_add_lives [OF R'(2)] obtain us vs where L: "lives rest = us @ vs" "lives rest' = us @ new_entry nm (int nr) # vs" by blast
  have par: "parent ?E m = parent E m" for m
  proof (cases "m = dn")
    case True
    then show ?thesis unfolding parent_def [of ?E] True by (simp add: R'(1)) (simp add: new_entry_def)
  qed (simp add: parent_def)
  let ?f = "\<lambda>d. nat (d_inode_nr d)"
  have kdn: "kids ?E dn = map ?f us @ nr # map ?f vs" by (simp add: kids_def R'(1) L(2)) (simp add: new_entry_def)
  have kold: "kids E dn = map ?f us @ map ?f vs" by (simp add: R(2) L(1))
  have kset: "set (kids ?E m) = (if m = dn then insert nr (set (kids E dn)) else set (kids E m))" for m
  proof (cases "m = dn")
    case True
    then show ?thesis using kdn kold by simp
  qed (simp add: kids_def)
  have notkid: "nr \<notin> set (kids E m)" if "m \<in> D" for m using T(6) [OF that] nr by blast
  have nz: "nr \<noteq> 0" using subsetD [OF T(2) T(1)] nr by metis
  show "nr \<in> set (kids ?E dn)" using kset by simp
  show "tree_ok (insert nr U) D ?E"
  proof (rule tree_okI)
    show "0 \<in> D" "D \<subseteq> insert nr U" "parent ?E 0 = 0" using T(1,2,9) par by auto
    show "dir_start ?E m" if "m \<in> D" for m using T(3) [OF that] R'(1) par by (cases "m = dn") (auto simp: dir_start_def)
    show "distinct (map d_name (lives (?E m)))" if "m \<in> D" for m
    proof (cases "m = dn")
      case True
      have live: "find (\<lambda>d. d_name d = nm @ [0]) (lives (E dn)) = None" using free by (simp add: find_live)
      have "nm @ [0] \<notin> d_name ` set (lives (E dn))" using live by (auto simp: find_None_iff)
      moreover have "lives (?E dn) = new_entry dot (int dn) # new_entry dotdot (int (parent E dn)) # us @ new_entry nm (int nr) # vs"
        by (simp add: R'(1) L(2)) (simp add: new_entry_def)
      moreover have "distinct (map d_name (lives (E dn)))" by (rule T(4) [OF dn])
      ultimately show ?thesis using True unfolding R(3) L(1) by (auto simp: new_entry_def)
    qed (use T(4) [OF that] in simp)
    show "distinct (kids ?E m)" if "m \<in> D" for m
    proof (cases "m = dn")
      case True
      then show ?thesis using T(5) [OF dn] notkid [OF dn] unfolding kdn kold True by auto
    next
      case False
      then show ?thesis using T(5) [OF that] by (simp add: kids_def)
    qed
    show "k \<in> insert nr U \<and> k \<noteq> 0" if "m \<in> D" "k \<in> set (kids ?E m)" for m k
      using that T(6) [OF that(1), of k] nz unfolding kset by (auto split: if_splits)
    show "m = n" if "m \<in> D" "n \<in> D" "k \<in> set (kids ?E m)" "k \<in> set (kids ?E n)" for m n k
      using that T(7) [OF that(1,2), of k] notkid unfolding kset by (auto split: if_splits)
    show "parent ?E k = m" if "m \<in> D" "k \<in> D" "k \<in> set (kids ?E m)" for m k
    proof -
      have "k \<noteq> nr" using that(2) T(2) nr by blast
      then have "k \<in> set (kids E m)" using that(3) unfolding kset by (auto split: if_splits)
      then show ?thesis using T(8) [OF that(1,2)] par by simp
    qed
    show "\<exists>k. (parent ?E ^^ k) m = 0" if "m \<in> D" for m
      using T(10) [OF that] parent_iterate [OF tree _ that, of ?E] par by auto
    show "\<exists>m \<in> D. k \<in> set (kids ?E m)" if k: "k \<in> insert nr U" "k \<noteq> 0" for k
    proof (cases "k = nr")
      case True
      then show ?thesis using dn kset by (intro bexI [of _ dn]) simp_all
    next
      case False
      then obtain m where "m \<in> D" "k \<in> set (kids E m)" using T(11) [of k] k by blast
      then show ?thesis by (intro bexI [of _ m]) (auto simp: kset)
    qed
  qed
qed

lemma tree_make_dir:
  assumes tree: "tree_ok U D E" and nr: "nr \<in> U" "nr \<notin> D" and dn: "dn \<in> D" "nr \<in> set (kids E dn)"
  shows "tree_ok U (insert nr D) (E(nr := [new_entry dot (int nr), new_entry dotdot (int dn)]))"
proof -
  let ?E = "E(nr := [new_entry dot (int nr), new_entry dotdot (int dn)])"
  note T = tree_okD [OF tree]
  have nz: "nr \<noteq> 0" using T(1) nr by (cases "nr = 0") simp_all
  have par: "parent ?E m = (if m = nr then dn else parent E m)" for m by (simp add: parent_def new_entry_def)
  have kids: "kids ?E m = (if m = nr then [] else kids E m)" for m by (simp add: kids_def)
  have reach: "\<exists>k. (parent ?E ^^ k) m = 0" if "m \<in> D" for m
    using T(10) [OF that] parent_iterate [OF tree _ that, of ?E] par nr(2) by (metis (no_types, lifting))
  show ?thesis
  proof (rule tree_okI)
    show "0 \<in> insert nr D" "insert nr D \<subseteq> U" "parent ?E 0 = 0" using T(1,2,9) nr nz par by auto
    show "dir_start ?E m" if "m \<in> insert nr D" for m using that T(3) [of m] par nr by (cases "m = nr") (auto simp: dir_start_def)
    show "distinct (map d_name (lives (?E m)))" if "m \<in> insert nr D" for m using that T(4) [of m] nr by (cases "m = nr") (auto simp: new_entry_def)
    show "distinct (kids ?E m)" if "m \<in> insert nr D" for m using that T(5) [of m] by (auto simp: kids)
    show "k \<in> U \<and> k \<noteq> 0" if "m \<in> insert nr D" "k \<in> set (kids ?E m)" for m k using that T(6) [of m k] by (auto simp: kids split: if_splits)
    show "m = n" if "m \<in> insert nr D" "n \<in> insert nr D" "k \<in> set (kids ?E m)" "k \<in> set (kids ?E n)" for m n k
      using that T(7) [of m n k] by (auto simp: kids split: if_splits)
    show "parent ?E k = m" if "m \<in> insert nr D" "k \<in> insert nr D" "k \<in> set (kids ?E m)" for m k
    proof -
      have m: "m \<noteq> nr" "m \<in> D" "k \<in> set (kids E m)" using that by (auto simp: kids split: if_splits)
      show ?thesis
      proof (cases "k = nr")
        case True
        then show ?thesis using T(7) [OF m(2) dn(1), of k] m(3) dn(2) par by simp
      next
        case False
        then show ?thesis using T(8) [OF m(2), of k] m(3) that(2) par by simp
      qed
    qed
    show "\<exists>k. (parent ?E ^^ k) m = 0" if "m \<in> insert nr D" for m
    proof (cases "m = nr")
      case True
      from reach [OF dn(1)] obtain k where "(parent ?E ^^ k) dn = 0" by blast
      then have "(parent ?E ^^ Suc k) nr = 0" using par [of nr] by (simp only: funpow_Suc_right o_apply if_True refl)
      then show ?thesis using True by blast
    qed (use reach that in blast)
    show "\<exists>m \<in> insert nr D. k \<in> set (kids ?E m)" if "k \<in> U" "k \<noteq> 0" for k
    proof -
      obtain m where "m \<in> D" "k \<in> set (kids E m)" using T(11) \<open>k \<in> U\<close> \<open>k \<noteq> 0\<close> by blast
      then show ?thesis using nr by (intro bexI [of _ m]) (auto simp: kids)
    qed
  qed
qed

lemma tree_remove_entry:
  assumes tree: "tree_ok U D E" and dn: "dn \<in> D" and nm: "nm \<noteq> dot" "nm \<noteq> dotdot" and found: "find (live_name nm) (E dn) = Some d" and n: "n = nat (d_inode_nr d)"
    and leaf: "n \<in> D \<Longrightarrow> kids E n = []"
  shows "tree_ok (U - {n}) (D - {n}) (E(dn := dir_remove nm (E dn)))" "n \<in> set (kids E dn)"
proof -
  let ?E = "E(dn := dir_remove nm (E dn))" and ?f = "\<lambda>d. nat (d_inode_nr d)"
  note T = tree_okD [OF tree]
  from T(3) [OF dn] obtain rest where R: "E dn = new_entry dot (int dn) # new_entry dotdot (int (parent E dn)) # rest" "kids E dn = map ?f (lives rest)"
    "lives (E dn) = new_entry dot (int dn) # new_entry dotdot (int (parent E dn)) # lives rest" by (rule dir_start_kids)
  have nl: "\<not> live_name nm (new_entry dot (int dn))" "\<not> live_name nm (new_entry dotdot (int (parent E dn)))"
    using nm by (auto simp: live_name_def new_entry_def)
  have R': "?E dn = new_entry dot (int dn) # new_entry dotdot (int (parent E dn)) # dir_remove nm rest" using nl by (simp add: R(1))
  have "find (live_name nm) rest = Some d" using found nl by (simp add: R(1))
  from dir_remove_lives [OF this] obtain us vs where L: "lives rest = us @ d # vs" "lives (dir_remove nm rest) = us @ vs" by blast
  have par: "parent ?E m = parent E m" for m
  proof (cases "m = dn")
    case True
    then show ?thesis unfolding parent_def [of ?E] True R' by (simp add: new_entry_def)
  qed (simp add: parent_def)
  have kold: "kids E dn = map ?f us @ n # map ?f vs" by (simp add: R(2) L(1) n)
  have kdn: "kids ?E dn = map ?f us @ map ?f vs" using R' by (simp add: kids_def L(2))
  have kset: "set (kids ?E m) = (if m = dn then set (kids E dn) - {n} else set (kids E m))" for m
  proof (cases "m = dn")
    case True
    have "distinct (kids E dn)" by (rule T(5) [OF dn])
    then have "n \<notin> ?f ` set us" "n \<notin> ?f ` set vs" unfolding kold by simp_all
    then show ?thesis using True kdn kold by simp
  qed (simp add: kids_def)
  show kid: "n \<in> set (kids E dn)" using kold by simp
  have nz: "n \<noteq> 0" using T(6) [OF dn kid] by simp
  have ne: "n \<noteq> dn" using leaf kid dn by auto
  have nokid: "n \<notin> set (kids ?E m)" if "m \<in> D" for m
    unfolding kset using T(7) [OF that dn _ kid] by (cases "m = dn") (simp, metis)
  show "tree_ok (U - {n}) (D - {n}) ?E"
  proof (rule tree_okI)
    show "0 \<in> D - {n}" "D - {n} \<subseteq> U - {n}" "parent ?E 0 = 0" using T(1,2,9) nz par by auto
    show "dir_start ?E m" if "m \<in> D - {n}" for m using that T(3) [of m] R' par by (cases "m = dn") (auto simp: dir_start_def)
    show "distinct (map d_name (lives (?E m)))" if "m \<in> D - {n}" for m
    proof (cases "m = dn")
      case True
      have "lives (?E dn) = new_entry dot (int dn) # new_entry dotdot (int (parent E dn)) # us @ vs" unfolding R' using L(2) by (simp add: new_entry_def)
      moreover have "distinct (map d_name (lives (E dn)))" by (rule T(4) [OF dn])
      ultimately show ?thesis using True unfolding R(3) L(1) by auto
    qed (use T(4) [of m] that in simp)
    show "distinct (kids ?E m)" if "m \<in> D - {n}" for m
    proof (cases "m = dn")
      case True
      then show ?thesis using T(5) [OF dn] unfolding kdn kold True by auto
    next
      case False
      then show ?thesis using T(5) [of m] that by (simp add: kids_def)
    qed
    show "k \<in> U - {n} \<and> k \<noteq> 0" if "m \<in> D - {n}" "k \<in> set (kids ?E m)" for m k
    proof -
      have "k \<noteq> n" using nokid [of m] that by auto
      then show ?thesis using that T(6) [of m k] unfolding kset by (auto split: if_splits)
    qed
    show "m = m'" if "m \<in> D - {n}" "m' \<in> D - {n}" "k \<in> set (kids ?E m)" "k \<in> set (kids ?E m')" for m m' k
      using that T(7) [of m m' k] unfolding kset by (auto split: if_splits)
    show "parent ?E k = m" if "m \<in> D - {n}" "k \<in> D - {n}" "k \<in> set (kids ?E m)" for m k
      using that T(8) [of m k] par unfolding kset by (auto split: if_splits)
    show "\<exists>k. (parent ?E ^^ k) m = 0" if "m \<in> D - {n}" for m
      using that T(10) [of m] parent_iterate [OF tree, of ?E m] par by auto
    show "\<exists>m \<in> D - {n}. k \<in> set (kids ?E m)" if k: "k \<in> U - {n}" "k \<noteq> 0" for k
    proof -
      obtain m where m: "m \<in> D" "k \<in> set (kids E m)" using T(11) [of k] k by blast
      then have "m \<noteq> n" using leaf by auto
      then show ?thesis using m k by (intro bexI [of _ m]) (auto simp: kset)
    qed
  qed
qed

section \<open>The file system as a tree of files and directories\<close>

definition dirs :: "fs_state \<Rightarrow> nat set" where
  "dirs fs = {nr \<in> used_inodes (fsb fs). i_type (cur fs nr) = int_of_type I_DIR}"

text \<open>The invariant: \<open>E\<close> gives the entries of the directories.\<close>

definition fs_inv :: "(nat \<Rightarrow> dirent list) \<Rightarrow> fs_state \<Rightarrow> bool" where
  "fs_inv E fs \<longleftrightarrow> core_inv fs \<and> (\<forall>nr \<in> dirs fs. dir_at fs nr (E nr)) \<and> tree_ok (used_inodes (fsb fs)) (dirs fs) E"

text \<open>What a user sees of it: for every inode in use the bytes of a file, or the names of a directory with the inode numbers they lead to.\<close>

datatype node = File "byte list" | Dir "byte list \<Rightarrow> int"

definition view :: "(nat \<Rightarrow> dirent list) \<Rightarrow> fs_state \<Rightarrow> nat \<Rightarrow> node option" where
  "view E fs nr = (if nr \<notin> used_inodes (fsb fs) then None
     else if i_type (cur fs nr) = int_of_type I_DIR then Some (Dir (dir_lookup (E nr)))
     else Some (File (file_bytes (dev (fsb fs)) (cur fs nr))))"

text \<open>A new node: an empty file, or a directory with its two own entries.\<close>

definition fresh_node :: "inode_type \<Rightarrow> nat \<Rightarrow> nat \<Rightarrow> node" where
  "fresh_node type nr pn = (if type = I_DIR then Dir ((\<lambda>_. - ENOENT)(dot := int nr, dotdot := int pn)) else File [])"

lemma fs_invD:
  assumes "fs_inv E fs"
  shows "core_inv fs" "nr \<in> dirs fs \<Longrightarrow> dir_at fs nr (E nr)" "tree_ok (used_inodes (fsb fs)) (dirs fs) E"
  using assms by (simp_all add: fs_inv_def)

lemma dirs_keeps:
  assumes "keeps X fs fs'" and "m \<in> used_inodes (fsb fs)" "m \<notin> X"
  shows "m \<in> dirs fs' \<longleftrightarrow> m \<in> dirs fs"
  using keepsD [OF assms] assms(2) by (simp add: dirs_def)

lemma view_keeps:
  assumes "keeps X fs fs'" and "m \<in> used_inodes (fsb fs)" "m \<notin> X" and "E' m = E m"
  shows "view E' fs' m = view E fs m"
  using keepsD [OF assms(1-3)] assms(2,4) by (simp add: view_def)

lemma view_dir: "dir_at fs nr (E nr) \<Longrightarrow> view E fs nr = Some (Dir (dir_lookup (E nr)))"
  by (simp add: view_def dir_at_def)

lemma dir_lookup_two: "dir_lookup [new_entry dot (int nr), new_entry dotdot (int pn)] = (\<lambda>_. - ENOENT)(dot := int nr, dotdot := int pn)"
proof
  fix x
  have "new_entry dot (int nr) = \<lparr>d_name_len = 2, d_inode_nr = int nr, d_name = [46, 0]\<rparr>" by (simp add: new_entry_def)
  moreover have "live_name x (new_entry dot (int nr)) \<longleftrightarrow> x = dot" "live_name x (new_entry dotdot (int pn)) \<longleftrightarrow> x = dotdot"
    by (auto simp: live_name_def new_entry_def)
  ultimately show "dir_lookup [new_entry dot (int nr), new_entry dotdot (int pn)] x = ((\<lambda>_. - ENOENT)(dot := int nr, dotdot := int pn)) x"
    by (auto simp: dir_lookup_def) (simp_all add: new_entry_def)
qed

lemma new_node_view:
  assumes "new_node fs type nr pn" and "type \<noteq> I_NONE" and "type = I_DIR \<Longrightarrow> E nr = [new_entry dot (int nr), new_entry dotdot (int pn)]"
  shows "view E fs nr = Some (fresh_node type nr pn)"
  using assms dir_lookup_two by (cases type) (auto simp: new_node_def view_def fresh_node_def)

text \<open>The tree after a node was created or removed.\<close>

lemma fs_inv_created:
  assumes inv: "fs_inv E fs" and dn: "dn \<in> dirs fs" and neg: "dir_lookup (E dn) nm < 0" and ty: "type \<noteq> I_NONE"
    and C: "core_inv fs'" "keeps {dn} fs fs'" "nr \<notin> used_inodes (fsb fs)" "used_inodes (fsb fs') = insert nr (used_inodes (fsb fs))"
      "dir_add (new_entry nm (int nr)) (E dn) = Some ds'" "dir_at fs' dn ds'" "new_node fs' type nr dn"
  defines "E' \<equiv> if type = I_DIR then E(dn := ds', nr := [new_entry dot (int nr), new_entry dotdot (int dn)]) else E(dn := ds')"
  shows "fs_inv E' fs'" "view E' fs' = (view E fs)(dn \<mapsto> Dir ((dir_lookup (E dn))(nm := int nr)), nr \<mapsto> fresh_node type nr dn)"
proof -
  note T = fs_invD(3) [OF inv]
  have free: "find (live_name nm) (E dn) = None" using neg dir_lookup_neg by blast
  have dnu: "dn \<in> used_inodes (fsb fs)" using dn by (simp add: dirs_def)
  have ne: "nr \<noteq> dn" using dnu C(3) by auto
  have dn': "dn \<in> dirs fs'" using C(6) by (simp add: dir_at_def dirs_def)
  have other: "m \<in> dirs fs' \<longleftrightarrow> m \<in> dirs fs" if "m \<in> used_inodes (fsb fs)" for m
    using dirs_keeps [OF C(2) that] dn dn' by (cases "m = dn") auto
  have sub: "dirs fs \<subseteq> used_inodes (fsb fs)" by (auto simp: dirs_def)
  have new: "nr \<in> dirs fs' \<longleftrightarrow> type = I_DIR" using C(7) ty by (cases type) (auto simp: new_node_def dirs_def)
  have dirs: "dirs fs' = (if type = I_DIR then insert nr (dirs fs) else dirs fs)"
  proof (rule set_eqI)
    fix m
    have "m \<in> dirs fs' \<Longrightarrow> m = nr \<or> m \<in> used_inodes (fsb fs)" using C(4) by (auto simp: dirs_def)
    then show "m \<in> dirs fs' \<longleftrightarrow> m \<in> (if type = I_DIR then insert nr (dirs fs) else dirs fs)"
      using other [of m] new sub C(3) by (cases "m = nr") auto
  qed
  note A = tree_add_entry [OF T dn C(3) free C(5)]
  have "tree_ok (used_inodes (fsb fs')) (dirs fs') E'"
  proof (cases "type = I_DIR")
    case True
    have "nr \<notin> dirs fs" using sub C(3) by blast
    from tree_make_dir [OF A(1) _ this dn A(2)] show ?thesis using True C(4) dirs by (simp add: E'_def)
  next
    case False
    then show ?thesis using A(1) C(4) dirs by (simp add: E'_def)
  qed
  moreover have "dir_at fs' m (E' m)" if m: "m \<in> dirs fs'" for m
  proof -
    consider "m = nr" "type = I_DIR" | "m = dn" | "m \<noteq> nr" "m \<noteq> dn" "m \<in> dirs fs" using m dirs C(3) sub by (auto split: if_splits)
    then show ?thesis
    proof cases
      case 1
      then show ?thesis using C(7) by (simp add: new_node_def E'_def)
    next
      case 2
      then show ?thesis using C(6) ne by (simp add: E'_def)
    next
      case 3
      then show ?thesis using dir_at_keeps [OF C(2) _ fs_invD(2) [OF inv 3(3)]] by (simp add: E'_def)
    qed
  qed
  ultimately show "fs_inv E' fs'" using C(1) by (simp add: fs_inv_def)
  show "view E' fs' = (view E fs)(dn \<mapsto> Dir ((dir_lookup (E dn))(nm := int nr)), nr \<mapsto> fresh_node type nr dn)"
  proof
    fix m
    consider "m = nr" | "m = dn" | "m \<noteq> nr" "m \<noteq> dn" "m \<in> used_inodes (fsb fs)" | "m \<noteq> nr" "m \<noteq> dn" "m \<notin> used_inodes (fsb fs)" by blast
    then show "view E' fs' m = ((view E fs)(dn \<mapsto> Dir ((dir_lookup (E dn))(nm := int nr)), nr \<mapsto> fresh_node type nr dn)) m"
    proof cases
      case 1
      then show ?thesis using new_node_view [OF C(7) ty, of E'] by (simp add: E'_def)
    next
      case 2
      have "dir_lookup ds' = (dir_lookup (E dn))(nm := int nr)" using dir_add_lookup [OF C(5)] by (auto simp: fun_eq_iff)
      then show ?thesis using 2 ne view_dir [of fs' dn E'] C(6) by (simp add: E'_def)
    next
      case 3
      then show ?thesis using view_keeps [OF C(2) 3(3), of E' E] by (simp add: E'_def)
    next
      case 4
      then show ?thesis using C(4) by (simp add: view_def)
    qed
  qed
qed

lemma fs_inv_removed:
  assumes inv: "fs_inv E fs" and dn: "dn \<in> dirs fs" and nm: "nm \<noteq> dot" "nm \<noteq> dotdot" and n: "dir_lookup (E dn) nm = int n" and leaf: "n \<in> dirs fs \<Longrightarrow> dots_only (E n)"
    and C: "core_inv fs'" "keeps {dn, n} fs fs'" "used_inodes (fsb fs') = used_inodes (fsb fs) - {n}" "dir_at fs' dn (dir_remove nm (E dn))"
  defines "E' \<equiv> E(dn := dir_remove nm (E dn))"
  shows "fs_inv E' fs'" "view E' fs' = (view E fs)(dn \<mapsto> Dir ((dir_lookup (E dn))(nm := - ENOENT)), n := None)"
proof -
  note T = fs_invD(3) [OF inv] and T' = tree_okD [OF fs_invD(3) [OF inv]]
  obtain d where d: "find (live_name nm) (E dn) = Some d" "d_inode_nr d = int n" using n by (auto simp: dir_lookup_def ENOENT_def split: option.splits)
  have empty: "kids E n = []" if "n \<in> dirs fs"
  proof -
    from T'(3) [OF that] obtain rest where R: "E n = new_entry dot (int n) # new_entry dotdot (int (parent E n)) # rest" "kids E n = map (\<lambda>d. nat (d_inode_nr d)) (lives rest)"
      "lives (E n) = new_entry dot (int n) # new_entry dotdot (int (parent E n)) # lives rest" by (rule dir_start_kids)
    have dist: "distinct (map d_name (lives (E n)))" by (rule T'(4) [OF that])
    have "e \<notin> set (lives rest)" for e
    proof
      assume e: "e \<in> set (lives rest)"
      then have "e \<in> set (E n)" "0 \<le> d_inode_nr e" using R(1) by (auto simp: lives_def)
      then have "d_name e = dot @ [0] \<or> d_name e = dotdot @ [0]" using leaf [OF that] by (simp add: dots_only_def)
      moreover have "d_name (new_entry x (int k)) = x @ [0]" for x k by (simp add: new_entry_def)
      then have "dot @ [0] \<notin> d_name ` set (lives rest)" "dotdot @ [0] \<notin> d_name ` set (lives rest)" using dist R(3) by auto
      ultimately show False using e by (metis imageI)
    qed
    then show ?thesis using R(2) by (cases "lives rest") auto
  qed
  have nn: "n = nat (d_inode_nr d)" using d(2) by simp
  note A = tree_remove_entry [OF T dn nm d(1) nn empty]
  have ne: "n \<noteq> dn" using A(2) empty dn by auto
  have dnu: "dn \<in> used_inodes (fsb fs)" using dn by (simp add: dirs_def)
  have dirs: "dirs fs' = dirs fs - {n}"
  proof (rule set_eqI)
    fix m
    have "dn \<in> dirs fs'" using C(4) by (simp add: dir_at_def dirs_def)
    moreover have "m \<in> dirs fs' \<longleftrightarrow> m \<in> dirs fs" if "m \<in> used_inodes (fsb fs)" "m \<noteq> n" "m \<noteq> dn" using dirs_keeps [OF C(2), of m] that by simp
    ultimately show "m \<in> dirs fs' \<longleftrightarrow> m \<in> dirs fs - {n}" using C(3) dn ne by (cases "m = dn"; cases "m = n") (auto simp: dirs_def)
  qed
  have "tree_ok (used_inodes (fsb fs')) (dirs fs') E'" using A(1) C(3) dirs by (simp add: E'_def)
  moreover have "dir_at fs' m (E' m)" if m: "m \<in> dirs fs'" for m
    using m dirs dir_at_keeps [OF C(2) _ fs_invD(2) [OF inv, of m]] C(4) by (cases "m = dn") (auto simp: E'_def)
  ultimately show "fs_inv E' fs'" using C(1) by (simp add: fs_inv_def)
  show "view E' fs' = (view E fs)(dn \<mapsto> Dir ((dir_lookup (E dn))(nm := - ENOENT)), n := None)"
  proof
    fix m
    consider "m = n" | "m = dn" "m \<noteq> n" | "m \<noteq> n" "m \<noteq> dn" "m \<in> used_inodes (fsb fs)" | "m \<noteq> n" "m \<noteq> dn" "m \<notin> used_inodes (fsb fs)" by blast
    then show "view E' fs' m = ((view E fs)(dn \<mapsto> Dir ((dir_lookup (E dn))(nm := - ENOENT)), n := None)) m"
    proof cases
      case 1
      then show ?thesis using C(3) by (simp add: view_def)
    next
      case 2
      have "dir_lookup (dir_remove nm (E dn)) = (dir_lookup (E dn))(nm := - ENOENT)"
        using dir_remove_lookup [OF T'(4) [OF dn], of nm] by (auto simp: fun_eq_iff)
      then show ?thesis using 2 view_dir [of fs' dn E'] C(4) by (simp add: E'_def)
    next
      case 3
      then show ?thesis using view_keeps [OF C(2) 3(3), of E' E] by (simp add: E'_def)
    next
      case 4
      then show ?thesis using C(3) by (simp add: view_def)
    qed
  qed
qed

end
