(* ===== verification/FS_Mount.thy ===== *)
theory FS_Mount
  imports FS_TreeInv
begin

text \<open>
  Making, opening and closing a file system: the rest of \<^verbatim>\<open>fs/super.c\<close> and the program \<^verbatim>\<open>fs/mktestfs.c\<close>. Closing a file system and opening it again
  gives the same state; a new file system is consistent and has an empty root directory.
\<close>

unbundle bit_operations_syntax

section \<open>Definitions\<close>

text \<open>
  The regular file that holds a file system is a device; \<open>can_open\<close> tells whether it can be created. \<^verbatim>\<open>fopen\<close> with mode \<^verbatim>\<open>w\<close> empties it.
\<close>

definition empty_device :: device where
  "empty_device = \<lparr>dlen = 0, dblk = (\<lambda>_. zero_arr)\<rparr>"

definition testfs_make_super_block :: "bool \<Rightarrow> 64 word \<Rightarrow> fs_state outcome" where
  "testfs_make_super_block can_open max_blocks =
     (if \<not> can_open then Crash ExitCall
      else
        let ifs = of_nat SUPER_BLOCK_SIZE;
            bfs = ifs + of_nat INODE_FREEMAP_SIZE;
            ibs = bfs + of_nat BLOCK_FREEMAP_SIZE;
            dbs = ibs + of_nat NR_INODE_BLOCKS;
            d = \<lparr>inode_freemap_start = ifs, block_freemap_start = bfs, inode_blocks_start = ibs, data_blocks_start = dbs,
                 used_inode_count = 0, used_block_count = 0, max_fs_blocks = max_blocks\<rparr> in
        and_then (testfs_write_super_block \<lparr>dsb = d, dev = empty_device, inode_freemap = None, block_freemap = None\<rparr>) (\<lambda>sb.
          Ok (inode_hash_init \<lparr>fsb = sb, imem = (\<lambda>_. None), inode_hash_table = None, inext = 0\<rparr>)))"

definition on_super :: "(super_block \<Rightarrow> super_block outcome) \<Rightarrow> fs_state \<Rightarrow> fs_state outcome" where
  "on_super f fs = and_then (f (fsb fs)) (\<lambda>sb. Ok (fs\<lparr>fsb := sb\<rparr>))"

definition testfs_make_inode_freemap :: "super_block \<Rightarrow> super_block outcome" where
  "testfs_make_inode_freemap sb = zero_blocks sb (uint (inode_freemap_start (dsb sb))) INODE_FREEMAP_SIZE"

definition testfs_make_block_freemap :: "super_block \<Rightarrow> super_block outcome" where
  "testfs_make_block_freemap sb = zero_blocks sb (uint (block_freemap_start (dsb sb))) BLOCK_FREEMAP_SIZE"

definition testfs_make_inode_blocks :: "super_block \<Rightarrow> super_block outcome" where
  "testfs_make_inode_blocks sb =
     (let num_bits_in_freemap = BLOCK_SIZE * INODE_FREEMAP_SIZE * 8 in
      if num_bits_in_freemap < NR_INODE_BLOCKS * INODES_PER_BLOCK then Crash ExitCall
      else c_assert (BLOCK_SIZE mod sizeof_dinode = 0)
        (zero_blocks sb (uint (inode_blocks_start (dsb sb))) NR_INODE_BLOCKS))"

text \<open>Reading \<open>n\<close> blocks from \<open>start\<close> into the bytes of a bitmap.\<close>

definition read_map :: "super_block \<Rightarrow> bitmap \<Rightarrow> 32 word \<Rightarrow> nat \<Rightarrow> bitmap outcome" where
  "read_map sb b start n =
     and_then (read_blocks sb (uint start) n) (\<lambda>a.
       mem_check (n * BLOCK_SIZE \<le> length (bitmap_getdata b))
         (Ok (b\<lparr>bm_v := map (\<lambda>i. if i < n * BLOCK_SIZE then a i else bm_v b ! i) [0..<length (bm_v b)]\<rparr>)))"

text \<open>
  The file is a device, or opening it fails with an error number, which the function returns as it is. \<open>mem k\<close> tells whether the \<open>k\<close>th allocation succeeds. The super block is read into memory that \<^verbatim>\<open>malloc\<close> returned, so
  before that its contents are arbitrary (\<open>junk\<close>).
\<close>

definition testfs_init_super_block :: "(nat \<Rightarrow> bool) \<Rightarrow> dsuper_block \<Rightarrow> int + device \<Rightarrow> (int \<times> fs_state option) outcome" where
  "testfs_init_super_block mem junk file =
     (if \<not> mem 0 then Ok (- ENOMEM, None)
      else case file of
        Inl errno \<Rightarrow> Ok (errno, None)
      | Inr d \<Rightarrow>
          let sb = \<lparr>dsb = junk, dev = d, inode_freemap = None, block_freemap = None\<rparr> in
          and_then (read_blocks sb 0 1) (\<lambda>block.
          let sb = sb\<lparr>dsb := decode_dsuper block\<rparr> in
          and_then (bitmap_create (mem 1) (mem 2) (BLOCK_SIZE * INODE_FREEMAP_SIZE * BITS_PER_WORD)) (\<lambda>(ret, r).
          case r of None \<Rightarrow> Ok (ret, None)
          | Some b \<Rightarrow>
              and_then (read_map sb b (inode_freemap_start (dsb sb)) INODE_FREEMAP_SIZE) (\<lambda>b.
              let sb = sb\<lparr>inode_freemap := Some b\<rparr> in
              and_then (bitmap_create (mem 3) (mem 4) (BLOCK_SIZE * BLOCK_FREEMAP_SIZE * BITS_PER_WORD)) (\<lambda>(ret, r).
              case r of None \<Rightarrow> Ok (ret, None)
              | Some b \<Rightarrow>
                  and_then (read_map sb b (block_freemap_start (dsb sb)) BLOCK_FREEMAP_SIZE) (\<lambda>b.
                  let sb = sb\<lparr>block_freemap := Some b\<rparr> in
                  Ok (0, Some (inode_hash_init \<lparr>fsb = sb, imem = (\<lambda>_. None), inode_hash_table = None, inext = 0\<rparr>))))))))"

text \<open>Writing a free map back, if there is one.\<close>

definition close_map :: "super_block \<Rightarrow> bitmap option \<Rightarrow> 32 word \<Rightarrow> nat \<Rightarrow> super_block outcome" where
  "close_map sb r start n =
     (case r of None \<Rightarrow> Ok sb | Some b \<Rightarrow> write_blocks sb (arr_of (bitmap_getdata b)) (uint start) n)"

text \<open>What is left is the file.\<close>

definition testfs_close_super_block :: "fs_state \<Rightarrow> device outcome" where
  "testfs_close_super_block fs =
     and_then (on_super testfs_write_super_block fs) (\<lambda>fs.
     and_then (inode_hash_destroy fs) (\<lambda>fs.
     and_then (close_map (fsb fs) (inode_freemap (fsb fs)) (inode_freemap_start (dsb (fsb fs))) INODE_FREEMAP_SIZE) (\<lambda>sb.
     and_then (close_map (sb\<lparr>inode_freemap := None\<rparr>) (block_freemap sb) (block_freemap_start (dsb sb)) BLOCK_FREEMAP_SIZE) (\<lambda>sb.
       Ok (dev sb)))))"

text \<open>
  \<^verbatim>\<open>mktestfs\<close> with the file system size in megabytes from the command line. The result is the file and the largest number of blocks; what it prints is a function of the latter.
\<close>

definition mktestfs :: "bool \<Rightarrow> (nat \<Rightarrow> bool) \<Rightarrow> dsuper_block \<Rightarrow> 64 word \<Rightarrow> (64 word \<times> device) outcome" where
  "mktestfs can_open mem junk fs_size_mb =
     (let max_fs_blocks = of_nat BLOCK_FREEMAP_SIZE * of_nat BLOCK_SIZE * 8 :: 64 word;
          max_fs_size_mb = drop_bit 20 (max_fs_blocks * of_nat BLOCK_SIZE) in
      if fs_size_mb < 1 then Crash ExitCall
      else if fs_size_mb > max_fs_size_mb then Crash ExitCall
      else
        let max_fs_blocks = push_bit 20 fs_size_mb div of_nat BLOCK_SIZE in
        and_then (testfs_make_super_block can_open max_fs_blocks) (\<lambda>fs.
        and_then (on_super testfs_make_inode_freemap fs) (\<lambda>fs.
        and_then (on_super testfs_make_block_freemap fs) (\<lambda>fs.
        and_then (on_super testfs_make_inode_blocks fs) (\<lambda>fs.
        and_then (testfs_close_super_block fs) (\<lambda>file.
        and_then (testfs_init_super_block mem junk (Inr file)) (\<lambda>(ret, r).
        if ret \<noteq> 0 then Crash ExitCall
        else case r of None \<Rightarrow> Crash MemFault
        | Some fs \<Rightarrow>
            and_then (testfs_make_root_dir fs) (\<lambda>(_, fs).
            and_then (testfs_close_super_block fs) (\<lambda>file.
              Ok (max_fs_blocks, file))))))))))"

section \<open>Closing and opening\<close>

lemma dev_write_same:
  assumes ok: "dev_ok d" and len: "start + n \<le> dlen d" and same: "\<And>k i. k < n \<Longrightarrow> i < BLOCK_SIZE \<Longrightarrow> a (k * BLOCK_SIZE + i) = dblk d (start + k) i"
  shows "dev_write d start n a = d"
proof -
  have "dblk (dev_write d start n a) b = dblk d b" for b
  proof
    fix i
    show "dblk (dev_write d start n a) b i = dblk d b i"
      using ok same [of "b - start" i] by (auto simp: dev_write_def dev_ok_def)
  qed
  then have "dblk (dev_write d start n a) = dblk d" by (rule ext)
  then show ?thesis using len by (auto simp: dev_write_def)
qed

lemma super_sb_eq: "sb\<lparr>dev := dev sb\<rparr> = (sb :: super_block)"
  by simp

lemma write_super_same:
  assumes "super_inv sb"
  shows "testfs_write_super_block sb = Ok sb"
proof -
  note D = super_invD [OF assms]
  have "dev_write (dev sb) 0 (Suc 0) (encode_dsuper (dsb sb)) = dev sb"
    using D(1,6) by (intro dev_write_same) (simp_all add: layout_ok_def fs_consts)
  then show ?thesis by (simp add: write_super_block_eq)
qed

lemma close_map_same:
  assumes "dev_ok (dev sb)" and "freemap_ok (dev sb) start n c b" and "start + n \<le> dlen (dev sb)" and "unat w = start"
  shows "close_map sb (Some b) w n = Ok sb"
proof -
  note L = freemap_length [OF assms(2)]
  have sync: "freemap_sync (dev sb) start n b" using assms(2) by (simp add: freemap_ok_alt)
  have "dev_write (dev sb) start n (arr_of (bm_v b)) = dev sb"
  proof (rule dev_write_same [OF assms(1,3)])
    fix k i assume h: "k < n" "i < BLOCK_SIZE"
    from index_in_blocks [OF h] h sync L show "arr_of (bm_v b) (k * BLOCK_SIZE + i) = dblk (dev sb) (start + k) i"
      by (simp add: arr_of_def freemap_sync_def)
  qed
  moreover have "nat (uint w) = start" using assms(4) by (simp flip: unat_eq_nat_uint)
  ultimately show ?thesis by (simp add: close_map_def write_blocks_def bitmap_getdata_def testfs_get_dev_def)
qed

lemma cur_cong: "fsb fs' = fsb fs \<Longrightarrow> imem fs' = imem fs \<Longrightarrow> cur fs' m = cur fs m"
  unfolding cur_def uncached_def by (simp only:)

lemma hash_destroy_empty:
  assumes "table_ok fs" and "imem fs = (\<lambda>_. None)"
  shows "inode_hash_destroy fs = Ok (fs\<lparr>inode_hash_table := None\<rparr>)"
proof -
  obtain t where t: "inode_hash_table fs = Some t" "buckets_ok t (imem fs)" using assms(1) by (auto simp: table_ok_def)
  have "\<forall>b \<in> set t. b = []" using t(2) assms(2) by (auto simp: buckets_ok_def in_set_conv_nth)
  then show ?thesis using t(1) by (simp add: inode_hash_destroy_def)
qed

text \<open>An object that is still in memory makes closing fail.\<close>

lemma hash_destroy_leak:
  assumes "table_ok fs" and "imem fs p = Some inn"
  shows "inode_hash_destroy fs = Crash AssertFail"
proof -
  obtain t where t: "inode_hash_table fs = Some t" "buckets_ok t (imem fs)" using assms(1) by (auto simp: table_ok_def)
  let ?k = "inode_hashfn (i_nr inn)"
  have k: "?k < length t" using t(2) inode_hashfn_bound by (simp add: buckets_ok_def)
  then have "set (t ! ?k) = {p. \<exists>inn'. imem fs p = Some inn' \<and> inode_hashfn (i_nr inn') = ?k}" using t(2) unfolding buckets_ok_def by blast
  then have "t ! ?k \<noteq> []" using assms(2) by auto
  then have "\<not> (\<forall>b \<in> set t. b = [])" using k nth_mem by blast
  then show ?thesis using t(1) by (simp add: inode_hash_destroy_def c_assert_def)
qed

lemma close_eq:
  assumes core: "core_inv fs" and mem: "imem fs = (\<lambda>_. None)"
  shows "testfs_close_super_block fs = Ok (dev (fsb fs))"
proof -
  note inv = core_invD(1) [OF core] and D = super_invD [OF core_invD(1) [OF core]]
  have L: "dev_ok (dev (fsb fs))" "18 \<le> dlen (dev (fsb fs))" "inode_freemap_start (dsb (fsb fs)) = 1" "block_freemap_start (dsb (fsb fs)) = 2"
    using D(1) by (simp_all add: layout_ok_def fs_consts)
  have i: "close_map (fsb fs) (inode_freemap (fsb fs)) 1 INODE_FREEMAP_SIZE = Ok (fsb fs)"
    unfolding D(2) INODE_FREEMAP_SIZE_def by (rule close_map_same [OF L(1) D(4)]) (use L(2) in simp_all)
  have b: "close_map ((fsb fs)\<lparr>inode_freemap := None\<rparr>) (block_freemap (fsb fs)) 2 BLOCK_FREEMAP_SIZE = Ok ((fsb fs)\<lparr>inode_freemap := None\<rparr>)"
    unfolding D(3) BLOCK_FREEMAP_SIZE_def by (rule close_map_same [of _ 2 _ "used_block_count (dsb (fsb fs))"]) (use L D(5) in simp_all)
  show ?thesis using write_super_same [OF inv] hash_destroy_empty [OF core_invD(2) [OF core] mem] i b L(3,4)
    by (simp add: testfs_close_super_block_def on_super_def)
qed

text \<open>A leaked object stops the program at an assertion when the file system is closed.\<close>

lemma close_leak:
  assumes "core_inv fs" and "imem fs p = Some inn"
  shows "testfs_close_super_block fs = Crash AssertFail"
  using write_super_same [OF core_invD(1) [OF assms(1)]] hash_destroy_leak [OF core_invD(2) [OF assms(1)] assms(2)]
  by (simp add: testfs_close_super_block_def on_super_def)

lemma bitmap_create_maps:
  assumes "n \<le> 16"
  shows "bitmap_create True True (BLOCK_SIZE * n * BITS_PER_WORD) = Ok (0, Some (empty_map n))"
proof -
  have w: "DIVROUNDUP_u32 (BLOCK_SIZE * n * BITS_PER_WORD) BITS_PER_WORD = n * BLOCK_SIZE"
  proof -
    have "(n * 65536 + 7) mod 4294967296 = n * 65536 + 7" using assms by (intro mod_less) simp
    then show ?thesis by (simp add: DIVROUNDUP_u32_def BLOCK_SIZE_def BITS_PER_WORD_def)
  qed
  have "\<not> BLOCK_SIZE * n * BITS_PER_WORD div BITS_PER_WORD < n * BLOCK_SIZE" by (simp add: BITS_PER_WORD_def)
  then show ?thesis unfolding bitmap_create_def Let_def w by (simp add: empty_map_def mult.commute)
qed

lemma read_map_eq:
  assumes "freemap_ok (dev sb) start n c b" and "start + n \<le> dlen (dev sb)" and "unat w = start"
  shows "read_map sb (empty_map n) w n = Ok b"
proof -
  note L = freemap_length [OF assms(1)]
  have sync: "freemap_sync (dev sb) start n b" and nb: "nbits b = n * BLOCK_SIZE * BITS_PER_WORD" using assms(1) by (simp_all add: freemap_ok_alt)
  have w: "nat (uint w) = start" using assms(3) by (simp flip: unat_eq_nat_uint)
  have "map (\<lambda>i. dblk (dev sb) (start + i div BLOCK_SIZE) (i mod BLOCK_SIZE)) [0..<n * BLOCK_SIZE] = bm_v b"
  proof (rule nth_equalityI)
    fix i assume "i < length (map (\<lambda>i. dblk (dev sb) (start + i div BLOCK_SIZE) (i mod BLOCK_SIZE)) [0..<n * BLOCK_SIZE])"
    then have i: "i < n * BLOCK_SIZE" by simp
    then have "i div BLOCK_SIZE < n" "i mod BLOCK_SIZE < BLOCK_SIZE" by (simp_all add: less_mult_imp_div_less BLOCK_SIZE_def)
    then have "dblk (dev sb) (start + i div BLOCK_SIZE) (i mod BLOCK_SIZE) = bm_v b ! (i div BLOCK_SIZE * BLOCK_SIZE + i mod BLOCK_SIZE)"
      using sync by (simp only: freemap_sync_def)
    then show "map (\<lambda>i. dblk (dev sb) (start + i div BLOCK_SIZE) (i mod BLOCK_SIZE)) [0..<n * BLOCK_SIZE] ! i = bm_v b ! i" using i by simp
  qed (simp add: L)
  moreover have "\<lparr>nbits = n * BLOCK_SIZE * BITS_PER_WORD, bm_v = bm_v b\<rparr> = b" using nb by (cases b) simp
  moreover have "map (\<lambda>x. if x < n * BLOCK_SIZE then if x < n * BLOCK_SIZE then dblk (dev sb) (nat (uint w) + x div BLOCK_SIZE) (x mod BLOCK_SIZE) else 0 else g x) [0..<n * BLOCK_SIZE] =
     map (\<lambda>i. dblk (dev sb) (start + i div BLOCK_SIZE) (i mod BLOCK_SIZE)) [0..<n * BLOCK_SIZE]" for g unfolding w by (rule map_cong) simp_all
  ultimately show ?thesis using assms(2) w
    by (simp add: read_map_def read_blocks_def testfs_get_dev_def Let_def empty_map_def bitmap_getdata_def)
qed

definition mounted :: "super_block \<Rightarrow> fs_state" where
  "mounted sb = inode_hash_init \<lparr>fsb = sb, imem = (\<lambda>_. None), inode_hash_table = None, inext = 0\<rparr>"

lemma fs_sizes: "INODE_FREEMAP_SIZE \<le> 16" "BLOCK_FREEMAP_SIZE \<le> 16"
  by (simp_all add: fs_consts)

lemma init_eq:
  assumes inv: "super_inv sb" and mem: "\<forall>k < 5. mem k"
  shows "testfs_init_super_block mem junk (Inr (dev sb)) = Ok (0, Some (mounted sb))"
proof -
  note D = super_invD [OF inv]
  have L: "dev_ok (dev sb)" "18 \<le> dlen (dev sb)" "inode_freemap_start (dsb sb) = 1" "block_freemap_start (dsb sb) = 2"
    using D(1) by (simp_all add: layout_ok_def fs_consts)
  have m: "mem 0" "mem 1" "mem 2" "mem 3" "mem 4" using mem by simp_all
  let ?s0 = "\<lparr>dsb = junk, dev = dev sb, inode_freemap = None, block_freemap = None\<rparr>"
  have r0: "read_blocks ?s0 0 1 = Ok (encode_dsuper (dsb sb))" using read_blocks_1 [of ?s0 0] L(1,2) D(6) by simp
  let ?s1 = "?s0\<lparr>dsb := dsb sb\<rparr>"
  have r1: "read_map ?s1 (empty_map INODE_FREEMAP_SIZE) 1 INODE_FREEMAP_SIZE = Ok (inode_map sb)"
    unfolding INODE_FREEMAP_SIZE_def by (rule read_map_eq [of _ 1 _ "used_inode_count (dsb sb)"]) (use L(2) D(4) in simp_all)
  let ?s2 = "?s1\<lparr>inode_freemap := Some (inode_map sb)\<rparr>"
  have r2: "read_map ?s2 (empty_map BLOCK_FREEMAP_SIZE) 2 BLOCK_FREEMAP_SIZE = Ok (block_map sb)"
    unfolding BLOCK_FREEMAP_SIZE_def by (rule read_map_eq [of _ 2 _ "used_block_count (dsb sb)"]) (use L(2) D(5) in simp_all)
  have "?s2\<lparr>block_freemap := Some (block_map sb)\<rparr> = sb" using D(2,3) by (cases sb) simp
  then show ?thesis using m r0 r1 r2 bitmap_create_maps [of INODE_FREEMAP_SIZE] bitmap_create_maps [of BLOCK_FREEMAP_SIZE] L(3,4)
    by (simp add: testfs_init_super_block_def fs_sizes Let_def decode_encode_dsuper mounted_def)
qed

text \<open>Mounting the file that closing left gives back the super block and the tree.\<close>

lemma mounted_simps [simp]: "fsb (mounted sb) = sb" "imem (mounted sb) = (\<lambda>_. None)"
  by (simp_all add: mounted_def inode_hash_init_def)

lemma table_ok_mounted: "table_ok (mounted sb)"
proof -
  have "inode_hash_table (mounted sb) = Some (replicate inode_hash_size [])" by (simp add: mounted_def inode_hash_init_def)
  then show ?thesis by (simp add: table_ok_def buckets_ok_def)
qed

lemma cur_mounted:
  assumes core: "core_inv fs" and mem: "imem fs = (\<lambda>_. None)"
  shows "cur (mounted (fsb fs)) m = cur fs m"
  using mem by (intro cur_cong) simp_all

lemma core_inv_mounted:
  assumes core: "core_inv fs" and mem: "imem fs = (\<lambda>_. None)"
  shows "core_inv (mounted (fsb fs))"
  by (rule core_inv_cong [OF core table_ok_mounted]) (use cur_mounted [OF core mem] in \<open>simp_all add: uncached_def\<close>)

lemma close_init:
  assumes inv: "fs_inv E fs" and none: "imem fs = (\<lambda>_. None)" and mem: "\<forall>k < 5. mem k"
  shows "\<exists>d fs'. testfs_close_super_block fs = Ok d \<and> testfs_init_super_block mem junk (Inr d) = Ok (0, Some fs') \<and> fs_inv E fs' \<and>
     view E fs' = view E fs \<and> fsb fs' = fsb fs \<and> imem fs' = (\<lambda>_. None)"
proof -
  note core = fs_invD(1) [OF inv]
  let ?sb = "fsb fs" and ?fs' = "mounted (fsb fs)"
  have c: "fsb ?fs' = fsb fs" "imem ?fs' = imem fs" using none by simp_all
  have core': "core_inv ?fs'" by (rule core_inv_mounted [OF core none])
  have dirs: "dirs ?fs' = dirs fs" and v: "view E ?fs' = view E fs" using cur_mounted [OF core none] by (auto simp: dirs_def view_def fun_eq_iff)
  have "fs_inv E ?fs'" using fs_invD [OF inv] core' dirs cur_mounted [OF core none] by (simp add: fs_inv_def dir_at_def)
  then show ?thesis using close_eq [OF core none] init_eq [OF core_invD(1) [OF core] mem, of junk] v none by simp
qed

section \<open>Making a file system\<close>

lemma dev_write_0: "dev_write d p 0 a = d"
  by (rule device.equality) (auto simp: dev_write_def fun_eq_iff)

lemma dev_write_zero_Suc: "dev_write (dev_write d p (Suc 0) zero_arr) (Suc p) k zero_arr = dev_write d p (Suc k) zero_arr"
  by (auto simp: dev_write_def zero_arr_def fun_eq_iff)

lemma zero_blocks_from_dev:
  "zero_blocks_from sb (int p) i (i + k) = Ok (sb\<lparr>dev := dev_write (dev sb) (p + i) k zero_arr\<rparr>)"
proof (induction k arbitrary: i sb)
  case 0
  then show ?case by (subst zero_blocks_from.simps) (simp add: dev_write_0)
next
  case (Suc k)
  have w: "write_blocks sb zero_arr (int p + int i) 1 = Ok (sb\<lparr>dev := dev_write (dev sb) (p + i) (Suc 0) zero_arr\<rparr>)"
    by (simp add: write_blocks_def testfs_get_dev_def nat_add_distrib)
  show ?case using Suc.IH [of "sb\<lparr>dev := dev_write (dev sb) (p + i) (Suc 0) zero_arr\<rparr>" "Suc i"] dev_write_zero_Suc [of "dev sb" "p + i" k]
    by (subst zero_blocks_from.simps) (simp add: w [simplified])
qed

lemma zero_blocks_dev: "zero_blocks sb (int p) k = Ok (sb\<lparr>dev := dev_write (dev sb) p k zero_arr\<rparr>)"
  using zero_blocks_from_dev [of sb p 0 k] by (simp add: zero_blocks_def)

text \<open>The device after the first half of \<open>mktestfs\<close> is that of the empty file system.\<close>

lemma make_device:
  "dev_write (dev_write (dev_write (dev_write empty_device 0 (Suc 0) (encode_dsuper (empty_super m))) 1 1 zero_arr) 2 16 zero_arr) 18 128 zero_arr = dev (empty_fs m)"
proof -
  let ?d = "dev_write (dev_write (dev_write (dev_write empty_device 0 (Suc 0) (encode_dsuper (empty_super m))) 1 1 zero_arr) 2 16 zero_arr) 18 128 zero_arr"
  have "dblk ?d b i = dblk (dev (empty_fs m)) b i" for b i
    using block_arr_encode_dsuper [of "empty_super m"] by (auto simp: dev_write_def empty_device_def zero_arr_def empty_fs_def block_arr_def)
  then have "dblk ?d = dblk (dev (empty_fs m))" by (intro ext)
  moreover have "dlen ?d = dlen (dev (empty_fs m))" by (simp add: dev_write_def empty_device_def empty_fs_def fs_consts)
  ultimately show ?thesis by (intro device.equality) simp_all
qed

definition bare :: "64 word \<Rightarrow> device \<Rightarrow> fs_state" where
  "bare m d = mounted \<lparr>dsb = empty_super m, dev = d, inode_freemap = None, block_freemap = None\<rparr>"

lemma make_super_eq:
  "testfs_make_super_block True m = Ok (bare m (dev_write empty_device 0 (Suc 0) (encode_dsuper (empty_super m))))"
  by (simp add: testfs_make_super_block_def Let_def write_super_block_eq bare_def mounted_def fs_consts empty_super_def)

lemma mounted_fsb: "(mounted sb)\<lparr>fsb := sb'\<rparr> = mounted sb'"
  by (simp add: mounted_def inode_hash_init_def)

lemma bare_simps: "fsb (bare m d) = \<lparr>dsb = empty_super m, dev = d, inode_freemap = None, block_freemap = None\<rparr>" "(bare m d)\<lparr>fsb := sb\<rparr> = (mounted sb)"
  by (simp_all add: bare_def mounted_def inode_hash_init_def)

lemma make_maps_eq:
  "on_super testfs_make_inode_freemap (bare m d) = Ok (bare m (dev_write d 1 1 zero_arr))"
  "on_super testfs_make_block_freemap (bare m d) = Ok (bare m (dev_write d 2 16 zero_arr))"
  "on_super testfs_make_inode_blocks (bare m d) = Ok (bare m (dev_write d 18 128 zero_arr))"
  using zero_blocks_dev [of _ 1 1] zero_blocks_dev [of _ 2 16] zero_blocks_dev [of _ 18 128]
  by (simp_all add: on_super_def testfs_make_inode_freemap_def testfs_make_block_freemap_def testfs_make_inode_blocks_def bare_simps fs_consts empty_super_def)
    (simp_all add: bare_def empty_super_def)

lemma close_bare: "testfs_close_super_block (bare m (dev (empty_fs m))) = Ok (dev (empty_fs m))"
proof -
  let ?sb = "\<lparr>dsb = empty_super m, dev = dev (empty_fs m), inode_freemap = None, block_freemap = None\<rparr>"
  note D = super_invD [OF super_inv_empty_fs [of m]]
  have "dev_write (dev (empty_fs m)) 0 (Suc 0) (encode_dsuper (empty_super m)) = dev (empty_fs m)"
    using D(1) by (intro dev_write_same) (simp_all add: layout_ok_def fs_consts empty_fs_def)
  then have w: "testfs_write_super_block ?sb = Ok ?sb" by (simp add: write_super_block_eq)
  have h: "inode_hash_destroy (mounted ?sb) = Ok ((mounted ?sb)\<lparr>inode_hash_table := None\<rparr>)" by (rule hash_destroy_empty [OF table_ok_mounted]) simp
  show ?thesis using w h by (simp add: testfs_close_super_block_def on_super_def bare_def close_map_def mounted_fsb)
qed

text \<open>A file of at most one block owns at most one block.\<close>

lemma small_file_owned:
  assumes "file_ok sb di" and "i_size di \<le> int BLOCK_SIZE"
  shows "card (owned (dev sb) di) \<le> 1"
proof -
  have "s = S_data 0" if "s \<in> live (dev sb) di" for s
  proof -
    have "int (slot_start s * BLOCK_SIZE) < i_size di" using that assms(1) by (auto simp: file_ok_def covered_def)
    then have "slot_start s * BLOCK_SIZE < BLOCK_SIZE" using assms(2) by linarith
    then have "slot_start s = 0" by (simp add: BLOCK_SIZE_def)
    then show ?thesis by (cases s) simp_all
  qed
  then have "owned (dev sb) di \<subseteq> {nat (slot_val (dev sb) di (S_data 0))}" unfolding owned_def by (intro image_subsetI) simp
  from card_mono [OF _ this] show ?thesis by simp
qed

lemma root_tree: "tree_ok {0} {0} (\<lambda>_. [new_entry dot 0, new_entry dotdot 0])"
proof -
  let ?E = "\<lambda>_ :: nat. [new_entry dot 0, new_entry dotdot 0]"
  have par: "parent ?E n = 0" for n by (simp add: parent_def new_entry_def)
  have kids: "kids ?E n = []" for n by (simp add: kids_def)
  show ?thesis
  proof (rule tree_okI)
    show "dir_start ?E n" if "n \<in> {0}" for n using that par [of 0] by (simp add: dir_start_def)
    show "distinct (map d_name (lives (?E n)))" if "n \<in> {0}" for n by (simp add: new_entry_def)
    show "\<exists>k. (parent ?E ^^ k) n = 0" if "n \<in> {0}" for n using that by (intro exI [of _ 0]) simp
  qed (simp_all add: par kids)
qed

lemma sync_inode_dsb: "sync_inode fs p = Ok fs' \<Longrightarrow> dsb (fsb fs') = dsb (fsb fs)"
  by (auto simp: sync_inode_def on_inode_def with_inode_def testfs_sync_inode_def testfs_write_inode_block_def write_blocks_def and_then_Ok_iff Let_def split: option.split_asm if_split_asm)

lemma put_inode_fsb: "testfs_put_inode fs p = Ok fs' \<Longrightarrow> fsb fs' = fsb fs"
  by (auto simp: testfs_put_inode_def with_inode_def inode_hash_remove_def with_table_def c_assert_def and_then_Ok_iff Let_def split: option.split_asm if_split_asm)

lemma make_root_step:
  assumes "8 \<le> unat m"
  obtains fs' where "testfs_make_root_dir (mounted (empty_fs m)) = Ok (0, fs')" "imem fs' = (\<lambda>_. None)"
    "fs_inv (\<lambda>_. [new_entry dot 0, new_entry dotdot 0]) fs'" "view (\<lambda>_. [new_entry dot 0, new_entry dotdot 0]) fs' = [0 \<mapsto> fresh_node I_DIR 0 0]"
    "max_fs_blocks (dsb (fsb fs')) = m"
proof -
  let ?fs = "mounted (empty_fs m)"
  have core: "core_inv ?fs" using core_inv_empty_state [of m] by (simp add: mounted_def empty_state_def)
  have u0: "used_inodes (fsb ?fs) = {}" by (simp add: used_inodes_empty_fs)
  have dir: "case None :: nat option of None \<Rightarrow> True | Some dp \<Rightarrow> \<exists>dinn. imem ?fs dp = Some dinn \<and> i_nr dinn = int 0" by simp
  have "I_DIR \<noteq> I_NONE" by simp
  from core this dir show thesis
  proof (cases rule: create_node_step [where name = "[]"])
    case (full fs')
    then show thesis using u0 NR_INODES_nonempty by simp
  next
    case (nospc p fs1 fs2 fs')
    from nospc(8) obtain nr inn where N: "core_inv fs2" "used_inodes (fsb fs2) = {nr}" "imem fs2 p = Some inn" "i_nr inn = int nr" "i_size (din inn) \<le> 21" "\<not> room (fsb fs2) 3"
      "max_fs_blocks (dsb (fsb fs2)) = m" using u0 by auto
    have "card (used_blocks (fsb fs2)) \<le> 1"
      using small_file_owned [of "fsb fs2" "din inn"] core_inv_mem(3,4) [OF N(1,3)] core_invD(9) [OF N(1)] N(2,4,5) by (simp add: BLOCK_SIZE_def del: card_used_blocks)
    then have "room (fsb fs2) 3" using assms N(7) by (simp add: room_def del: card_used_blocks)
    then show thesis using N(6) by simp
  next
    case (made p inn nr fs1 fs2)
    have nr: "nr = 0" using made(5) u0 by (cases nr) auto
    have p2: "imem fs2 p = Some inn" using made(10) by simp
    obtain inn3 fs3 where Y: "sync_inode fs2 p = Ok fs3" "core_inv fs3" "keeps {} fs2 fs3" "used_inodes (fsb fs3) = used_inodes (fsb fs2)"
      "imem fs3 = (imem fs2)(p := Some inn3)" "\<not> dirty inn3" "same_id inn inn3"
      by (rule sync_inode_step [OF made(7) p2], rule that; assumption)
    have p3: "imem fs3 p = Some inn3" "i_count inn3 = 1" using Y(5,7) made(12) by (simp_all add: same_id_def)
    obtain fs4 where Z: "testfs_put_inode fs3 p = Ok fs4" "core_inv fs4" "keeps {} fs3 fs4" "used_inodes (fsb fs4) = used_inodes (fsb fs3)" "imem fs4 = (imem fs3)(p := None)"
      by (rule put_last_step [OF Y(2) p3(1) Y(6) p3(2)], rule that; assumption)
    have e: "testfs_make_root_dir ?fs = Ok (0, fs4)"
      using made(1,6) Y(1) Z(1) by (simp add: testfs_make_root_dir_def testfs_create_file_or_dir_def ENOENT_def)
    let ?E = "\<lambda>_ :: nat. [new_entry dot 0, new_entry dotdot 0]"
    have n4: "new_node fs4 I_DIR 0 0" using new_node_keeps [OF Z(3) _ new_node_keeps [OF Y(3) _ made(14)]] nr by simp
    have u4: "used_inodes (fsb fs4) = {0}" using Z(4) Y(4) made(9) u0 nr by simp
    have d4: "dirs fs4 = {0}" using n4 u4 by (auto simp: dirs_def new_node_def)
    have a4: "dir_at fs4 0 (?E 0)" using n4 by (simp add: new_node_def)
    have v: "view ?E fs4 0 = Some (fresh_node I_DIR 0 0)" by (rule new_node_view [OF n4]) simp_all
    have "view ?E fs4 m = [0 \<mapsto> fresh_node I_DIR 0 0] m" for m using v u4 by (cases "m = 0") (simp_all add: view_def)
    then have "view ?E fs4 = [0 \<mapsto> fresh_node I_DIR 0 0]" by (rule ext)
    moreover have "fs_inv ?E fs4" using Z(2) d4 u4 a4 root_tree by (simp add: fs_inv_def)
    moreover have "imem fs4 q = None" for q using Z(5) Y(5) made(10) by (cases "q = p") simp_all
    then have "imem fs4 = (\<lambda>_. None)" by (rule ext)
    moreover have "max_fs_blocks (dsb (fsb fs4)) = m" using put_inode_fsb [OF Z(1)] sync_inode_dsb [OF Y(1)] made(15) by (simp add: empty_fs_def empty_super_def)
    ultimately show thesis using e by (intro that)
  qed
qed

lemma mb_blocks:
  assumes "unat (mb :: 64 word) \<le> 8192"
  shows "unat (push_bit 20 mb div of_nat BLOCK_SIZE) = 128 * unat mb"
proof -
  have "unat (push_bit 20 mb) = unat mb * 2 ^ 20"
    using assms by (simp add: push_bit_eq_mult unat_word_ariths)
  then show ?thesis by (simp add: unat_div_distrib BLOCK_SIZE_def)
qed

lemma max_mb: "drop_bit 20 ((of_nat BLOCK_FREEMAP_SIZE * of_nat BLOCK_SIZE * 8 :: 64 word) * of_nat BLOCK_SIZE) = 8192"
  by (simp add: fs_consts drop_bit_eq_div)

lemma mktestfs_eq:
  assumes mb: "1 \<le> unat mb" "unat mb \<le> 8192" and mem: "\<forall>k < 5. mem k"
  obtains m fs where "mktestfs True mem junk mb = Ok (m, dev (fsb fs))" "unat m = 128 * unat mb" "imem fs = (\<lambda>_. None)"
    "fs_inv (\<lambda>_. [new_entry dot 0, new_entry dotdot 0]) fs" "view (\<lambda>_. [new_entry dot 0, new_entry dotdot 0]) fs = [0 \<mapsto> fresh_node I_DIR 0 0]"
proof -
  let ?m = "push_bit 20 mb div of_nat BLOCK_SIZE"
  have m: "unat ?m = 128 * unat mb" by (rule mb_blocks [OF mb(2)])
  have ge: "8 \<le> unat ?m" using m mb(1) by simp
  obtain fs where R: "testfs_make_root_dir (mounted (empty_fs ?m)) = Ok (0, fs)" "imem fs = (\<lambda>_. None)"
    "fs_inv (\<lambda>_. [new_entry dot 0, new_entry dotdot 0]) fs" "view (\<lambda>_. [new_entry dot 0, new_entry dotdot 0]) fs = [0 \<mapsto> fresh_node I_DIR 0 0]"
    by (rule make_root_step [OF ge], rule that; assumption)
  have lim: "\<not> mb < 1" "\<not> mb > 8192" using mb by (simp_all add: word_less_nat_alt)
  have "mktestfs True mem junk mb = Ok (?m, dev (fsb fs))"
    using lim make_super_eq [of ?m] make_maps_eq [of ?m] make_device [of ?m] close_bare [of ?m] init_eq [OF super_inv_empty_fs [of ?m] mem, of junk]
      R(1) close_eq [OF fs_invD(1) [OF R(3)] R(2)]
    by (simp add: mktestfs_def Let_def max_mb)
  then show thesis using m R(2-4) by (intro that)
qed

section \<open>Properties\<close>

text \<open>
  (C17) Making a file system. For a size from 1 to 8192 megabytes \<open>mktestfs\<close> creates a file that \<open>testfs_init_super_block\<close> opens as a consistent file system of 128 blocks per megabyte, whose tree consists of the root directory with the entries
  of itself and of its parent, both inode 0. Every other size makes it exit.
\<close>

theorem mktestfs_correct:
  assumes "\<forall>k < 5. mem k"
  shows "if 1 \<le> unat mb \<and> unat mb \<le> 8192
    then \<exists>m d fs. mktestfs True mem junk mb = Ok (m, d) \<and> unat m = 128 * unat mb \<and> testfs_init_super_block mem junk' (Inr d) = Ok (0, Some fs) \<and>
      fs_inv (\<lambda>_. [new_entry dot 0, new_entry dotdot 0]) fs \<and> imem fs = (\<lambda>_. None) \<and>
      view (\<lambda>_. [new_entry dot 0, new_entry dotdot 0]) fs = [0 \<mapsto> Dir ((\<lambda>_. - ENOENT)(dot := 0, dotdot := 0))]
    else mktestfs True mem junk mb = Crash ExitCall"
proof (cases "1 \<le> unat mb \<and> unat mb \<le> 8192")
  case True
  then obtain m fs where M: "mktestfs True mem junk mb = Ok (m, dev (fsb fs))" "unat m = 128 * unat mb" "imem fs = (\<lambda>_. None)"
    "fs_inv (\<lambda>_. [new_entry dot 0, new_entry dotdot 0]) fs" "view (\<lambda>_. [new_entry dot 0, new_entry dotdot 0]) fs = [0 \<mapsto> fresh_node I_DIR 0 0]"
    using mktestfs_eq [of mb mem junk] assms by metis
  from close_init [OF M(4,3) assms, of junk'] close_eq [OF fs_invD(1) [OF M(4)] M(3)] M show ?thesis
    using True by (auto simp: fresh_node_def)
next
  case False
  then have "mb < 1 \<or> mb > 8192" by (auto simp: word_less_nat_alt)
  then show ?thesis using False by (auto simp: mktestfs_def Let_def max_mb)
qed

theorem mktestfs_correct_witness:
  "\<exists>m d. mktestfs True (\<lambda>_. True) (empty_super 0) 1 = Ok (m, d) \<and> unat m = 128"
  using mktestfs_correct [of "\<lambda>_. True" 1 "empty_super 0" "empty_super 0"] by auto

text \<open>
  (C18) Closing and opening. When no inode is in memory, \<open>testfs_close_super_block\<close> succeeds and opening the file it leaves gives back the same super block, the same free maps and the same tree; when an inode is
  still in memory, closing stops at the assertion of \<open>inode_hash_destroy\<close>.
\<close>

theorem testfs_close_init:
  assumes "fs_inv E fs" and "\<forall>k < 5. mem k"
  shows "if imem fs = (\<lambda>_. None)
    then \<exists>d fs'. testfs_close_super_block fs = Ok d \<and> testfs_init_super_block mem junk (Inr d) = Ok (0, Some fs') \<and> fs_inv E fs' \<and>
      view E fs' = view E fs \<and> fsb fs' = fsb fs \<and> imem fs' = (\<lambda>_. None)
    else testfs_close_super_block fs = Crash AssertFail"
proof (cases "imem fs = (\<lambda>_. None)")
  case True
  then show ?thesis using close_init [OF assms(1) True assms(2)] by simp
next
  case False
  then obtain p inn where "imem fs p = Some inn" by (metis not_None_eq)
  then show ?thesis using False close_leak [OF fs_invD(1) [OF assms(1)]] by simp
qed

theorem testfs_close_init_witness:
  "\<exists>fs d fs'. fs_inv (\<lambda>_. [new_entry dot 0, new_entry dotdot 0]) fs \<and> testfs_close_super_block fs = Ok d \<and>
     testfs_init_super_block (\<lambda>_. True) (empty_super 0) (Inr d) = Ok (0, Some fs') \<and> fsb fs' = fsb fs"
proof -
  obtain fs where F: "imem fs = (\<lambda>_. None)" "fs_inv (\<lambda>_. [new_entry dot 0, new_entry dotdot 0]) fs" using make_root_step [of 8] by auto
  from testfs_close_init [OF F(2), of "\<lambda>_. True" "empty_super 0"] F show ?thesis by auto
qed

end
