(* ===== verification/FS_Text.thy ===== *)
theory FS_Text
  imports Prelude
begin

text \<open>
  Numbers as text in \<^verbatim>\<open>fs/\<close>: what \<^verbatim>\<open>printf\<close> prints with \<^verbatim>\<open>%d\<close>, and the conversions of \<^verbatim>\<open>fs/common.c\<close> with the C library
  functions they call. A string is the list of its bytes, without the terminating zero.
\<close>

unbundle bit_operations_syntax

section \<open>Definitions\<close>

definition str :: "string \<Rightarrow> byte list" where
  "str s = map of_char s"

fun dec_digits :: "nat \<Rightarrow> byte list" where
  "dec_digits n = (if n < 10 then [of_nat (48 + n)] else dec_digits (n div 10) @ [of_nat (48 + n mod 10)])"

declare dec_digits.simps [simp del]

definition dec_int :: "int \<Rightarrow> byte list" where
  "dec_int x = (if x < 0 then str ''-'' @ dec_digits (nat (- x)) else dec_digits (nat x))"

text \<open>
  \<^verbatim>\<open>strtoll\<close> and \<^verbatim>\<open>strtoull\<close> in base ten: white space, an optional sign, digits. They return the value, cut to the range of the type, and the rest of the string;
  without digits the rest is the whole string. A negative number wraps around in \<^verbatim>\<open>strtoull\<close>.
\<close>

definition is_space :: "byte \<Rightarrow> bool" where
  "is_space c \<longleftrightarrow> c \<in> {9, 10, 11, 12, 13, 32}"

definition is_digit :: "byte \<Rightarrow> bool" where
  "is_digit c \<longleftrightarrow> 48 \<le> c \<and> c \<le> 57"

definition digits_value :: "byte list \<Rightarrow> nat" where
  "digits_value ds = foldl (\<lambda>n c. 10 * n + unat (c - 48)) 0 ds"

definition scan_number :: "byte list \<Rightarrow> (bool \<times> nat \<times> byte list) option" where
  "scan_number s =
     (let t = dropWhile is_space s;
          neg = (t \<noteq> [] \<and> hd t = 45);
          u = (if t \<noteq> [] \<and> (hd t = 45 \<or> hd t = 43) then tl t else t);
          ds = takeWhile is_digit u in
      if ds = [] then None else Some (neg, digits_value ds, dropWhile is_digit u))"

definition strtoll :: "byte list \<Rightarrow> int \<times> byte list" where
  "strtoll s = (case scan_number s of None \<Rightarrow> (0, s)
     | Some (neg, n, rest) \<Rightarrow> (max (- (2 ^ 63)) (min (2 ^ 63 - 1) (if neg then - int n else int n)), rest))"

definition strtoull :: "byte list \<Rightarrow> nat \<times> byte list" where
  "strtoull s = (case scan_number s of None \<Rightarrow> (0, s)
     | Some (neg, n, rest) \<Rightarrow> (if 2 ^ 64 \<le> n then 2 ^ 64 - 1 else if neg then (2 ^ 64 - n) mod 2 ^ 64 else n, rest))"

definition str_to_offset :: "byte list \<Rightarrow> int \<times> int option" where
  "str_to_offset s = (let (val, rest) = strtoll s in if length rest > 0 then (- EINVAL, None) else (0, Some val))"

definition str_to_size :: "byte list \<Rightarrow> int \<times> nat option" where
  "str_to_size s = (let (val, rest) = strtoull s in if length rest > 0 then (- EINVAL, None) else (0, Some val))"

section \<open>Reading back what was printed\<close>

lemma digit_word: "d < 10 \<Longrightarrow> is_digit (of_nat (48 + d)) \<and> unat ((of_nat (48 + d) :: byte) - 48) = d"
proof -
  assume d: "d < 10"
  then have u: "unat (of_nat (48 + d) :: byte) = 48 + d" by (subst unat_of_nat) simp
  then have "unat ((of_nat (48 + d) :: byte) - 48) = d" by (subst unat_sub) (simp_all add: word_le_nat_alt)
  then show ?thesis using u d by (simp add: is_digit_def word_le_nat_alt)
qed

lemma dec_digits_digits: "c \<in> set (dec_digits n) \<Longrightarrow> is_digit c"
proof (induction n rule: dec_digits.induct)
  case (1 n)
  then show ?case using digit_word [of n] digit_word [of "n mod 10"] by (subst (asm) (2) dec_digits.simps) (auto split: if_splits)
qed

lemma digits_value_dec: "digits_value (dec_digits n) = n"
proof (induction n rule: dec_digits.induct)
  case (1 n)
  then show ?case using digit_word [of n] digit_word [of "n mod 10"] by (subst dec_digits.simps) (auto simp: digits_value_def)
qed

lemma dec_digits_nonempty: "dec_digits n \<noteq> []"
  by (subst dec_digits.simps) simp

lemma takeWhile_digits: "\<forall>c \<in> set ds. is_digit c \<Longrightarrow> takeWhile is_digit ds = ds \<and> dropWhile is_digit ds = []"
  by simp

lemma digit_not_sign: "is_digit c \<Longrightarrow> \<not> is_space c \<and> c \<noteq> 45 \<and> c \<noteq> 43"
  by (auto simp: is_digit_def is_space_def word_le_nat_alt)

lemma scan_digits: "scan_number (dec_digits n) = Some (False, n, [])"
proof -
  obtain c cs where c: "dec_digits n = c # cs" using dec_digits_nonempty [of n] by (cases "dec_digits n") auto
  have "is_digit c" using dec_digits_digits [of c n] c by simp
  note no = digit_not_sign [OF this]
  have tw: "takeWhile is_digit (dec_digits n) = dec_digits n" "dropWhile is_digit (dec_digits n) = []"
    using takeWhile_digits [of "dec_digits n"] dec_digits_digits by blast+
  have sp: "dropWhile is_space (dec_digits n) = dec_digits n" using no c by simp
  have hd: "hd (dec_digits n) \<noteq> 45" "hd (dec_digits n) \<noteq> 43" using no c by simp_all
  show ?thesis unfolding scan_number_def Let_def sp using hd dec_digits_nonempty [of n] digits_value_dec [of n] by (simp add: tw del: dropWhile_eq_Nil_conv)
qed

lemma scan_minus: "scan_number (45 # dec_digits n) = Some (True, n, [])"
proof -
  have tw: "takeWhile is_digit (dec_digits n) = dec_digits n" "dropWhile is_digit (dec_digits n) = []"
    using takeWhile_digits [of "dec_digits n"] dec_digits_digits by blast+
  have sp: "dropWhile is_space (45 # dec_digits n) = 45 # dec_digits n" by (simp add: is_space_def)
  show ?thesis unfolding scan_number_def Let_def sp using dec_digits_nonempty [of n] digits_value_dec [of n] by (simp add: tw del: dropWhile_eq_Nil_conv)
qed

lemma str_to_offset_digits: "n < 2 ^ 63 \<Longrightarrow> str_to_offset (dec_digits n) = (0, Some (int n))"
  by (simp add: str_to_offset_def strtoll_def scan_digits)

lemma str_to_size_digits: "n < 2 ^ 64 \<Longrightarrow> str_to_size (dec_digits n) = (0, Some n)"
  by (simp add: str_to_size_def strtoull_def scan_digits)



end
