(* ===== verification/FS_Cmd.thy ===== *)
theory FS_Cmd
  imports FS_Mount FS_Text
begin

text \<open>
  The commands of the shell that change the tree or look at one file, from \<^verbatim>\<open>fs/dir.c\<close> and \<^verbatim>\<open>fs/file.c\<close>: their definitions, the invariant of the shell between two
  commands, and what each command does from such a state, error returns included.
\<close>

unbundle bit_operations_syntax

section \<open>Definitions\<close>

text \<open>
  The context of a command and the state of the shell: the file system, the flag that \<open>quit\<close> sets, and what was printed so far.
  An entry of \<open>cmd\<close> is a string or the null pointer.
\<close>

definition MAX_ARGS :: nat where "MAX_ARGS = 6"

record command_context =
  nargs :: nat
  cmd :: "byte list option list"
  cur_dir :: nat

record session =
  s_fs :: fs_state
  s_ctx :: command_context
  can_quit :: bool
  s_out :: "byte list"
  s_err :: "byte list"

definition print :: "byte list \<Rightarrow> session \<Rightarrow> session" where
  "print x s = s\<lparr>s_out := s_out s @ x\<rparr>"

definition set_fs :: "fs_state \<Rightarrow> session \<Rightarrow> session" where
  "set_fs fs s = s\<lparr>s_fs := fs\<rparr>"

definition arg :: "session \<Rightarrow> nat \<Rightarrow> (byte list \<Rightarrow> 'a outcome) \<Rightarrow> 'a outcome" where
  "arg s i f = (if i < length (cmd (s_ctx s)) then (case cmd (s_ctx s) ! i of None \<Rightarrow> Crash MemFault | Some x \<Rightarrow> f x) else Crash MemFault)"

text \<open>A lookup in the current directory.\<close>

definition lookup_cur :: "session \<Rightarrow> byte list \<Rightarrow> int outcome" where
  "lookup_cur s name = with_inode (s_fs s) (cur_dir (s_ctx s)) (\<lambda>dir. testfs_dir_name_to_inode_nr (fsb (s_fs s)) dir name)"

definition cmd_cd :: "session \<Rightarrow> (int \<times> session) outcome" where
  "cmd_cd s =
     (if nargs (s_ctx s) \<noteq> 2 then Ok (- EINVAL, s)
      else arg s 1 (\<lambda>name. and_then (lookup_cur s name) (\<lambda>inode_nr.
        if inode_nr < 0 then Ok (inode_nr, s)
        else and_then (testfs_get_inode (s_fs s) inode_nr) (\<lambda>(dir_inode, fs).
        and_then (with_inode fs dir_inode (\<lambda>inn. Ok (testfs_inode_get_type inn))) (\<lambda>type.
          if type \<noteq> int_of_type I_DIR
          then and_then (testfs_put_inode fs dir_inode) (\<lambda>fs. Ok (- ENOTDIR, set_fs fs s))
          else and_then (testfs_put_inode fs (cur_dir (s_ctx s))) (\<lambda>fs.
            Ok (0, (set_fs fs s)\<lparr>s_ctx := (s_ctx s)\<lparr>cur_dir := dir_inode\<rparr>\<rparr>)))))))"

definition cmd_pwd :: "nat \<Rightarrow> session \<Rightarrow> (int \<times> session) outcome" where
  "cmd_pwd stack s =
     (if nargs (s_ctx s) \<noteq> 1 then Ok (- EINVAL, s)
      else and_then (testfs_pwd stack (s_fs s) (cur_dir (s_ctx s))) (\<lambda>(_, out, fs). Ok (0, print (out @ [10]) (set_fs fs s))))"

definition cmd_ls_internal :: "nat \<Rightarrow> bool \<Rightarrow> session \<Rightarrow> (int \<times> session) outcome" where
  "cmd_ls_internal fuel recursive s =
     (if nargs (s_ctx s) \<noteq> 2 then Ok (- EINVAL, s)
      else arg s 1 (\<lambda>cdir. and_then (lookup_cur s cdir) (\<lambda>inode_nr.
        if inode_nr < 0 then Ok (inode_nr, s)
        else and_then (testfs_get_inode (s_fs s) inode_nr) (\<lambda>(p, fs).
        and_then (with_inode fs p (\<lambda>inn. Ok (testfs_inode_get_type inn))) (\<lambda>type.
          if type = int_of_type I_DIR
          then and_then (testfs_ls fuel recursive fs p 0) (\<lambda>(out, fs).
               and_then (testfs_put_inode fs p) (\<lambda>fs. Ok (0, print out (set_fs fs s))))
          else Ok (- ENOTDIR, set_fs fs s))))))"

definition cmd_ls :: "nat \<Rightarrow> session \<Rightarrow> (int \<times> session) outcome" where
  "cmd_ls fuel s = cmd_ls_internal fuel False s"

definition cmd_lsr :: "nat \<Rightarrow> session \<Rightarrow> (int \<times> session) outcome" where
  "cmd_lsr fuel s = cmd_ls_internal fuel True s"

definition create_cmd :: "inode_type \<Rightarrow> session \<Rightarrow> (int \<times> session) outcome" where
  "create_cmd type s =
     (if nargs (s_ctx s) \<noteq> 2 then Ok (- EINVAL, s)
      else arg s 1 (\<lambda>name. and_then (testfs_create_file_or_dir (s_fs s) (Some (cur_dir (s_ctx s))) type name) (\<lambda>(ret, fs). Ok (ret, set_fs fs s))))"

definition cmd_create :: "session \<Rightarrow> (int \<times> session) outcome" where
  "cmd_create s = create_cmd I_FILE s"

definition cmd_mkdir :: "session \<Rightarrow> (int \<times> session) outcome" where
  "cmd_mkdir s = create_cmd I_DIR s"

definition cmd_rm :: "session \<Rightarrow> (int \<times> session) outcome" where
  "cmd_rm s =
     (if nargs (s_ctx s) \<noteq> 2 then Ok (- EINVAL, s)
      else arg s 1 (\<lambda>name. and_then (testfs_remove_dirent (s_fs s) (cur_dir (s_ctx s)) name) (\<lambda>(inode_nr, fs).
        if inode_nr < 0 then Ok (inode_nr, set_fs fs s)
        else and_then (testfs_get_inode fs inode_nr) (\<lambda>(p, fs).
        and_then (testfs_remove_inode fs p) (\<lambda>fs.
        and_then (sync_inode fs (cur_dir (s_ctx s))) (\<lambda>fs. Ok (0, set_fs fs s)))))))"

text \<open>\<^verbatim>\<open>%ju\<close> prints the size as an unsigned 64-bit number.\<close>

definition cmd_stat :: "session \<Rightarrow> (int \<times> session) outcome" where
  "cmd_stat s =
     (if nargs (s_ctx s) \<noteq> 2 then Ok (- EINVAL, s)
      else arg s 1 (\<lambda>name. and_then (lookup_cur s name) (\<lambda>inode_nr.
        if inode_nr < 0 then Ok (inode_nr, s)
        else and_then (testfs_get_inode (s_fs s) inode_nr) (\<lambda>(p, fs).
          with_inode fs p (\<lambda>inn.
            let out = name @ str '': i_nr = '' @ dec_int (testfs_inode_get_nr inn) @ str '', i_type = '' @ dec_int (testfs_inode_get_type inn) @
              str '', i_size = '' @ dec_int (testfs_inode_get_size inn mod 2 ^ 64) @ str '', block_count = '' @ dec_int (testfs_inode_get_block_count inn) @ [10] in
            and_then (testfs_put_inode fs p) (\<lambda>fs. Ok (0, print out (set_fs fs s))))))))"

section \<open>Files\<close>

definition testfs_get_file_inode :: "fs_state \<Rightarrow> nat \<Rightarrow> byte list \<Rightarrow> (int \<times> nat option \<times> fs_state) outcome" where
  "testfs_get_file_inode fs dp name =
     and_then (with_inode fs dp (\<lambda>dir. testfs_dir_name_to_inode_nr (fsb fs) dir name)) (\<lambda>inode_nr.
       if inode_nr < 0 then Ok (inode_nr, None, fs)
       else and_then (testfs_get_inode fs inode_nr) (\<lambda>(p, fs).
         with_inode fs p (\<lambda>inn.
           if testfs_inode_get_type inn = int_of_type I_DIR
           then and_then (testfs_put_inode fs p) (\<lambda>fs. Ok (- EISDIR, None, fs))
           else Ok (0, Some p, fs))))"

text \<open>
  \<^verbatim>\<open>malloc\<close> fails for a request of half the address space or more; \<^verbatim>\<open>size + 1\<close> wraps around. The string printed ends at the first zero byte.
\<close>

definition read_and_print :: "fs_state \<Rightarrow> inode \<Rightarrow> int \<Rightarrow> nat \<Rightarrow> (int \<times> byte list) outcome" where
  "read_and_print fs inn offset sz =
     s64_check (offset + s64_of_u64 sz)
      (if offset + s64_of_u64 sz > testfs_inode_get_size inn then Ok (- EINVAL, [])
       else let cap = (sz + 1) mod 2 ^ 64 in
         if 2 ^ 63 \<le> cap then Ok (- ENOMEM, [])
         else and_then (testfs_read_data (fsb fs) inn cap offset sz) (\<lambda>(ret, d).
           if ret \<ge> 0
           then mem_check (sz < cap) (mem_check (length d = sz \<or> 0 \<in> set d) (Ok (ret, takeWhile (\<lambda>c. c \<noteq> 0) d @ [10])))
           else Ok (ret, [])))"

definition cmd_read :: "session \<Rightarrow> (int \<times> session) outcome" where
  "cmd_read s =
     (if nargs (s_ctx s) \<noteq> 4 then Ok (- EINVAL, s)
      else arg s 1 (\<lambda>filename. arg s 2 (\<lambda>a2. case str_to_offset a2 of
          (ret, None) \<Rightarrow> Ok (ret, s)
        | (_, Some offset) \<Rightarrow>
            if offset < 0 then Ok (- EINVAL, s)
            else arg s 3 (\<lambda>a3. case str_to_size a3 of
                (ret, None) \<Rightarrow> Ok (ret, s)
              | (_, Some sz) \<Rightarrow>
                  and_then (testfs_get_file_inode (s_fs s) (cur_dir (s_ctx s)) filename) (\<lambda>(ret, r, fs).
                    case r of None \<Rightarrow> Ok (ret, set_fs fs s)
                    | Some p \<Rightarrow>
                        and_then (with_inode fs p (\<lambda>inn. read_and_print fs inn offset sz)) (\<lambda>(ret, out).
                        and_then (testfs_put_inode fs p) (\<lambda>fs. Ok (ret, print out (set_fs fs s)))))))))"

definition cmd_write :: "session \<Rightarrow> (int \<times> session) outcome" where
  "cmd_write s =
     (if nargs (s_ctx s) \<noteq> 4 then Ok (- EINVAL, s)
      else arg s 1 (\<lambda>filename. arg s 2 (\<lambda>a2. case str_to_offset a2 of
          (ret, None) \<Rightarrow> Ok (ret, s)
        | (_, Some offset) \<Rightarrow>
            if offset < 0 then Ok (- EINVAL, s)
            else arg s 3 (\<lambda>buf.
              and_then (testfs_get_file_inode (s_fs s) (cur_dir (s_ctx s)) filename) (\<lambda>(ret, r, fs).
                case r of None \<Rightarrow> Ok (ret, set_fs fs s)
                | Some p \<Rightarrow>
                    and_then (on_inode fs p (\<lambda>sb inn. testfs_write_data sb inn buf offset (length buf))) (\<lambda>(ret, fs).
                    and_then (sync_inode fs p) (\<lambda>fs.
                    and_then (testfs_put_inode fs p) (\<lambda>fs. Ok (ret, set_fs fs s)))))))))"

section \<open>The invariant of the shell\<close>

text \<open>
  Between two commands the current directory is the only object in memory, with one user and nothing to write back; the tree is consistent.
\<close>

definition shell_ok :: "(nat \<Rightarrow> dirent list) \<Rightarrow> nat \<Rightarrow> session \<Rightarrow> bool" where
  "shell_ok E dn s \<longleftrightarrow> fs_inv E (s_fs s) \<and> dn \<in> dirs (s_fs s) \<and>
     (\<exists>inn. imem (s_fs s) = [cur_dir (s_ctx s) \<mapsto> inn] \<and> i_nr inn = int dn \<and> i_count inn = 1 \<and> \<not> dirty inn)"

abbreviation tree :: "(nat \<Rightarrow> dirent list) \<Rightarrow> session \<Rightarrow> nat \<Rightarrow> node option" where
  "tree E s \<equiv> view E (s_fs s)"

text \<open>A command with the name \<open>c\<close> and the arguments \<open>xs\<close>, as \<open>parse_command\<close> stores it.\<close>

definition args_are :: "session \<Rightarrow> byte list list \<Rightarrow> bool" where
  "args_are s xs \<longleftrightarrow> nargs (s_ctx s) = length xs \<and> length xs \<le> length (cmd (s_ctx s)) \<and>
     (\<forall>i < length xs. cmd (s_ctx s) ! i = Some (xs ! i)) \<and> (\<forall>x \<in> set xs. 0 \<notin> set x)"

lemma args_are_arg: "args_are s xs \<Longrightarrow> i < length xs \<Longrightarrow> arg s i f = f (xs ! i)"
  by (simp add: args_are_def arg_def)

lemma args_are_nargs: "args_are s xs \<Longrightarrow> nargs (s_ctx s) = length xs"
  by (simp add: args_are_def)

lemma args_are_nul: "args_are s xs \<Longrightarrow> i < length xs \<Longrightarrow> 0 \<notin> set (xs ! i)"
  by (simp add: args_are_def)

lemma session_simps [simp]:
  "s_fs (set_fs fs s) = fs" "s_ctx (set_fs fs s) = s_ctx s" "can_quit (set_fs fs s) = can_quit s" "s_out (set_fs fs s) = s_out s" "s_err (set_fs fs s) = s_err s"
  "s_fs (print x s) = s_fs s" "s_ctx (print x s) = s_ctx s" "can_quit (print x s) = can_quit s" "s_out (print x s) = s_out s @ x" "s_err (print x s) = s_err s"
  by (simp_all add: set_fs_def print_def)

lemma set_fs_same [simp]: "set_fs (s_fs s) s = s"
  by (simp add: set_fs_def)

lemma shell_okE:
  assumes "shell_ok E dn s"
  obtains inn where "core_inv (s_fs s)" "fs_inv E (s_fs s)" "dn \<in> dirs (s_fs s)" "imem (s_fs s) = [cur_dir (s_ctx s) \<mapsto> inn]"
    "imem (s_fs s) (cur_dir (s_ctx s)) = Some inn" "i_nr inn = int dn" "i_count inn = 1" "\<not> dirty inn" "dir_at (s_fs s) dn (E dn)"
  using assms fs_invD by (auto simp: shell_ok_def)

lemma shell_ok_clean:
  assumes "shell_ok E dn s" and "imem (s_fs s) p = Some inn"
  shows "\<not> dirty inn"
  using assms by (auto simp: shell_ok_def split: if_splits)

lemma lookup_cur_ok:
  assumes "shell_ok E dn s" and "0 \<notin> set nm"
  shows "lookup_cur s nm = Ok (dir_lookup (E dn) nm)"
proof -
  obtain inn where S: "core_inv (s_fs s)" "imem (s_fs s) (cur_dir (s_ctx s)) = Some inn" "i_nr inn = int dn" "dir_at (s_fs s) dn (E dn)"
    using assms(1) by (rule shell_okE)
  from lookup_in_dir [OF S assms(2)] S(2) show ?thesis by (simp add: lookup_cur_def with_inode_def)
qed

lemma dir_entry_used:
  assumes inv: "fs_inv E fs" and dn: "dn \<in> dirs fs" and d: "d \<in> set (E dn)" "0 \<le> d_inode_nr d"
  shows "nat (d_inode_nr d) \<in> used_inodes (fsb fs)"
proof -
  note T = tree_okD [OF fs_invD(3) [OF inv]]
  from T(3) [OF dn] obtain rest where R: "E dn = new_entry dot (int dn) # new_entry dotdot (int (parent E dn)) # rest"
    "kids E dn = map (\<lambda>d. nat (d_inode_nr d)) (lives rest)" by (rule dir_start_kids)
  have "parent E dn \<in> dirs fs" by (rule tree_parent [OF fs_invD(3) [OF inv] dn])
  moreover consider "d = new_entry dot (int dn)" | "d = new_entry dotdot (int (parent E dn))" | "d \<in> set (lives rest)"
    using d R(1) by (auto simp: lives_def)
  then have "nat (d_inode_nr d) = dn \<or> nat (d_inode_nr d) = parent E dn \<or> nat (d_inode_nr d) \<in> set (kids E dn)"
    by cases (simp_all add: new_entry_def R(2))
  ultimately show ?thesis using T(6) [OF dn] dn by (auto simp: dirs_def)
qed

lemma lookup_used:
  assumes inv: "fs_inv E fs" and dn: "dn \<in> dirs fs" and n: "dir_lookup (E dn) nm = int n"
  shows "n \<in> used_inodes (fsb fs)"
proof -
  obtain d where d: "find (live_name nm) (E dn) = Some d" "d_inode_nr d = int n"
    using n by (auto simp: dir_lookup_def ENOENT_def split: option.splits)
  then have "d \<in> set (E dn)" by (auto simp: find_Some_iff)
  from dir_entry_used [OF inv dn this] d(2) show ?thesis by simp
qed

text \<open>A state that differs only in the table of inodes shows the same tree.\<close>

lemma same_tree:
  assumes "fs_inv E fs" and "core_inv fs'" and "fsb fs' = fsb fs" and "\<And>m. cur fs' m = cur fs m"
  shows "fs_inv E fs'" "view E fs' = view E fs" "dirs fs' = dirs fs"
proof -
  show d: "dirs fs' = dirs fs" using assms(3,4) by (simp add: dirs_def)
  show "view E fs' = view E fs" using assms(3,4) by (auto simp: view_def fun_eq_iff)
  show "fs_inv E fs'" using assms d by (simp add: fs_inv_def dir_at_def)
qed

lemma view_none: "m \<notin> used_inodes (fsb fs) \<Longrightarrow> view E fs m = None"
  by (simp add: view_def)

lemma tree_other:
  assumes "keeps X fs fs'" and "used_inodes (fsb fs') = used_inodes (fsb fs)" and "m \<notin> X"
  shows "view E fs' m = view E fs m"
  using view_keeps [OF assms(1) _ assms(3), of E E] assms(2) by (cases "m \<in> used_inodes (fsb fs)") (simp_all add: view_none)

lemma kept_tree:
  assumes inv: "fs_inv E fs" and core: "core_inv fs'" and keep: "keeps {} fs fs'" and used: "used_inodes (fsb fs') = used_inodes (fsb fs)"
  shows "fs_inv E fs'" "view E fs' = view E fs" "dirs fs' = dirs fs"
proof -
  show d: "dirs fs' = dirs fs" using dirs_keeps [OF keep] used by (auto simp: dirs_def)
  show "view E fs' = view E fs" using tree_other [OF keep used] by auto
  show "fs_inv E fs'" using fs_invD [OF inv] core used d dir_at_keeps [OF keep] by (simp add: fs_inv_def)
qed

lemma shell_ok_same:
  assumes "shell_ok E dn s" and "core_inv fs'" and "fsb fs' = fsb (s_fs s)" and "imem fs' = imem (s_fs s)" and "\<And>m. cur fs' m = cur (s_fs s) m"
    and "s_fs s' = fs'" "cur_dir (s_ctx s') = cur_dir (s_ctx s)"
  shows "shell_ok E dn s'" "tree E s' = tree E s"
  using assms same_tree [of E "s_fs s" fs'] by (auto simp: shell_ok_def)

lemma view_type:
  assumes "n \<in> used_inodes (fsb fs)"
  shows "(\<exists>f. view E fs n = Some (Dir f)) \<longleftrightarrow> i_type (cur fs n) = int_of_type I_DIR"
  using assms by (simp add: view_def)

lemma lookup_cases [consumes 1, case_names missing found]:
  assumes "shell_ok E dn s"
  obtains (missing) "dir_lookup (E dn) nm = - ENOENT" "dir_lookup (E dn) nm < 0"
  | (found) n where "dir_lookup (E dn) nm = int n" "n \<in> used_inodes (fsb (s_fs s))"
proof (cases "find (live_name nm) (E dn)")
  case None
  then show thesis by (intro missing) (simp_all add: dir_lookup_def ENOENT_def)
next
  case (Some d)
  then have "0 \<le> d_inode_nr d" by (auto simp: find_Some_iff live_name_def)
  then have n: "dir_lookup (E dn) nm = int (nat (d_inode_nr d))" using Some by (simp add: dir_lookup_def)
  have "fs_inv E (s_fs s)" "dn \<in> dirs (s_fs s)" using assms by (simp_all add: shell_ok_def)
  from lookup_used [OF this n] n show thesis by (intro found)
qed

section \<open>Changing the directory\<close>

lemma cmd_cd_step:
  assumes ok: "shell_ok E dn s" and a: "args_are s [c, nm]"
  shows "\<exists>ret s'. cmd_cd s = Ok (ret, s') \<and> tree E s' = tree E s \<and> s_out s' = s_out s \<and>
     (if dir_lookup (E dn) nm < 0 then ret = - ENOENT \<and> s' = s
      else case tree E s (nat (dir_lookup (E dn) nm)) of
             Some (Dir f) \<Rightarrow> ret = 0 \<and> shell_ok E (nat (dir_lookup (E dn) nm)) s'
           | _ \<Rightarrow> ret = - ENOTDIR \<and> shell_ok E dn s')"
  using ok
proof (cases rule: lookup_cases [where nm = nm])
  case missing
  then show ?thesis using args_are_nargs [OF a] args_are_nul [OF a, of 1] lookup_cur_ok [OF ok]
    by (simp add: cmd_cd_def args_are_arg [OF a])
next
  case (found n)
  let ?fs = "s_fs s" and ?p = "cur_dir (s_ctx s)"
  obtain dinn where S: "core_inv ?fs" "fs_inv E ?fs" "dn \<in> dirs ?fs" "imem ?fs = [?p \<mapsto> dinn]" "imem ?fs ?p = Some dinn" "i_nr dinn = int dn"
    "i_count dinn = 1" "\<not> dirty dinn" "dir_at ?fs dn (E dn)" using ok by (rule shell_okE)
  have clean: "\<not> dirty x" if "imem ?fs q = Some x" for q x using shell_ok_clean [OF ok that] .
  obtain p inn fs1 where G: "testfs_get_inode ?fs (int n) = Ok (p, fs1)" "imem fs1 p = Some inn" "i_nr inn = int n" "din inn = cur ?fs n" "core_inv fs1"
    "fsb fs1 = fsb ?fs" "\<And>m. cur fs1 m = cur ?fs m" "\<And>q. q \<noteq> p \<Longrightarrow> imem fs1 q = imem ?fs q"
    "imem ?fs p = Some (inn\<lparr>i_count := i_count inn - 1\<rparr>) \<and> fs1 = set_inode p inn ?fs \<or>
     p = inext ?fs \<and> imem ?fs p = None \<and> uncached ?fs (int n) \<and> inn = fresh_inode (fsb ?fs) n \<and> fs1 = loaded ?fs inn"
    by (rule get_inode_core [OF S(1) found(2)], rule that; assumption)
  have run: "cmd_cd s = (if i_type (cur ?fs n) \<noteq> int_of_type I_DIR then and_then (testfs_put_inode fs1 p) (\<lambda>fs. Ok (- ENOTDIR, set_fs fs s))
      else and_then (testfs_put_inode fs1 ?p) (\<lambda>fs. Ok (0, (set_fs fs s)\<lparr>s_ctx := (s_ctx s)\<lparr>cur_dir := p\<rparr>\<rparr>)))"
    using args_are_nargs [OF a] args_are_nul [OF a, of 1] lookup_cur_ok [OF ok] found(1) G(1,2,4)
    by (simp add: cmd_cd_def args_are_arg [OF a] with_inode_def testfs_inode_get_type_def)
  show ?thesis
  proof (cases "i_type (cur ?fs n) = int_of_type I_DIR")
    case False
    obtain p' fs1' fs2 where P: "testfs_get_inode ?fs (int n) = Ok (p', fs1')" "testfs_put_inode fs1' p' = Ok fs2" "core_inv fs2" "fsb fs2 = fsb ?fs"
      "imem fs2 = imem ?fs" "\<And>m. cur fs2 m = cur ?fs m"
      by (rule get_look_put [OF S(1) found(2) clean], assumption, rule that; assumption)
    have e: "cmd_cd s = Ok (- ENOTDIR, set_fs fs2 s)" using run False P(1,2) G(1) by simp
    note same = shell_ok_same [OF ok P(3-6), of "set_fs fs2 s"]
    have "tree E s n = Some (File (file_bytes (dev (fsb ?fs)) (cur ?fs n)))" using found(2) False by (simp add: view_def)
    then show ?thesis using e same found(1) by simp
  next
    case True
    have v: "\<exists>f. tree E s n = Some (Dir f)" using view_type [OF found(2)] True by blast
    have nd: "n \<in> dirs ?fs" using True found(2) by (simp add: dirs_def)
    have fin: ?thesis if put: "testfs_put_inode fs1 ?p = Ok fs2" "core_inv fs2" "fsb fs2 = fsb ?fs" "\<And>m. cur fs2 m = cur ?fs m"
      and mem: "imem fs2 = [p \<mapsto> x]" "i_nr x = int n" "i_count x = 1" "\<not> dirty x" for fs2 x
    proof -
      let ?s = "(set_fs fs2 s)\<lparr>s_ctx := (s_ctx s)\<lparr>cur_dir := p\<rparr>\<rparr>"
      have e: "cmd_cd s = Ok (0, ?s)" using run True put(1) by simp
      have fs: "s_fs ?s = fs2" by (simp add: set_fs_def)
      note same = same_tree [OF S(2) put(2-4)]
      have ok': "shell_ok E n ?s" unfolding shell_ok_def fs using same(1,3) nd mem by (intro conjI exI [of _ x]) simp_all
      show ?thesis using e ok' v same(2) found(1) by (intro exI [of _ 0] exI [of _ ?s]) (auto simp: set_fs_def)
    qed
    from G(9) show ?thesis
    proof
      assume h: "imem ?fs p = Some (inn\<lparr>i_count := i_count inn - 1\<rparr>) \<and> fs1 = set_inode p inn ?fs"
      then have pp: "p = ?p" "dinn = inn\<lparr>i_count := i_count inn - 1\<rparr>" using S(4) by (auto split: if_splits)
      then have i: "i_count inn = 2" "\<not> dirty inn" "i_nr inn = i_nr dinn" using S(7,8) by (auto simp: dirty_def)
      obtain fs2 where P: "testfs_put_inode fs1 p = Ok fs2" "core_inv fs2" "fsb fs2 = fsb fs1" "\<And>m. cur fs2 m = cur fs1 m" "\<And>q. q \<noteq> p \<Longrightarrow> imem fs2 q = imem fs1 q"
        "imem fs2 p = (if i_count inn = 1 then None else Some (inn\<lparr>i_count := i_count inn - 1\<rparr>))"
        by (rule put_inode_core [OF G(5,2) i(2)], rule that; assumption)
      have mem: "imem fs2 = [p \<mapsto> dinn]"
      proof
        fix q
        show "imem fs2 q = [p \<mapsto> dinn] q"
        proof (cases "q = p")
          case True
          then show ?thesis using P(6) i(1) pp(2) by simp
        next
          case False
          then show ?thesis using P(5) [OF False] G(8) [OF False] S(4) pp(1) by simp
        qed
      qed
      show ?thesis by (rule fin [OF P(1) [unfolded pp(1)] P(2) _ _ mem]) (use P(3,4) G(3,6,7) i(3) S(7,8) in simp_all)
    next
      assume m: "p = inext ?fs \<and> imem ?fs p = None \<and> uncached ?fs (int n) \<and> inn = fresh_inode (fsb ?fs) n \<and> fs1 = loaded ?fs inn"
      then have ne: "p \<noteq> ?p" using S(5) by auto
      then have cur1: "imem fs1 ?p = Some dinn" using G(8) S(5) by simp
      obtain fs2 where P: "testfs_put_inode fs1 ?p = Ok fs2" "core_inv fs2" "fsb fs2 = fsb fs1" "\<And>m. cur fs2 m = cur fs1 m" "\<And>q. q \<noteq> ?p \<Longrightarrow> imem fs2 q = imem fs1 q"
        "imem fs2 ?p = (if i_count dinn = 1 then None else Some (dinn\<lparr>i_count := i_count dinn - 1\<rparr>))"
        by (rule put_inode_core [OF G(5) cur1 S(8)], rule that; assumption)
      have "imem fs2 = [p \<mapsto> inn]"
      proof
        fix q
        show "imem fs2 q = [p \<mapsto> inn] q"
        proof (cases "q = ?p")
          case True
          then show ?thesis using P(6) S(7) ne by simp
        next
          case False
          then show ?thesis using P(5) [OF False] G(2) G(8) [of q] S(4) by (cases "q = p") simp_all
        qed
      qed
      moreover have "i_count inn = 1" "\<not> dirty inn" using m by (simp_all add: fresh_inode_def dirty_def)
      ultimately show ?thesis using fin [OF P(1,2), of inn] P(3,4) G(3,6,7) by simp
    qed
  qed
qed

section \<open>Creating and removing\<close>

lemma same_id_count: "same_id a b \<Longrightarrow> i_count b = i_count a \<and> i_nr b = i_nr a"
  by (simp add: same_id_def)

lemma off_dir_add: "dir_add (new_entry nm nr) ds = Some ds' \<Longrightarrow> off ds' \<le> off ds + length nm + 9"
  by (induction ds arbitrary: ds') (auto simp: new_entry_def split: if_splits)

text \<open>The effect of creating \<open>nm\<close> in the directory \<open>dn\<close> on the entries of the directories.\<close>

definition create_spec :: "(nat \<Rightarrow> dirent list) \<Rightarrow> nat \<Rightarrow> inode_type \<Rightarrow> byte list \<Rightarrow> session \<Rightarrow> int \<Rightarrow> session \<Rightarrow> bool" where
  "create_spec E dn type nm s ret s' \<longleftrightarrow>
     (if 0 \<le> dir_lookup (E dn) nm then ret = - EEXIST \<and> s' = s
      else
        ret = 0 \<and> (\<exists>E' nr. nr \<notin> dom (tree E s) \<and> shell_ok E' dn s' \<and> (\<forall>m. off (E' m) \<le> off (E m) + length nm + 30) \<and>
           tree E' s' = (tree E s)(dn \<mapsto> Dir ((dir_lookup (E dn))(nm := int nr)), nr \<mapsto> fresh_node type nr dn)) \<or>
        ret = - ENOSPC \<and> (shell_ok E dn s' \<and> tree E s' = tree E s \<or>
           (\<forall>m. m \<noteq> dn \<longrightarrow> view E (mark_dirty (cur_dir (s_ctx s)) (s_fs s')) m = tree E s m) \<and>
           core_inv (mark_dirty (cur_dir (s_ctx s)) (s_fs s'))))"

lemma create_cmd_step:
  assumes ok: "shell_ok E dn s" and a: "args_are s [c, nm]" and len: "length nm < 2 ^ 30" and b: "off (E dn) + length nm + 9 < 2 ^ 31" and ty: "type \<noteq> I_NONE"
  shows "\<exists>ret s'. create_cmd type s = Ok (ret, s') \<and> s_out s' = s_out s \<and> s_ctx s' = s_ctx s \<and> create_spec E dn type nm s ret s'"
proof -
  let ?fs = "s_fs s" and ?p = "cur_dir (s_ctx s)"
  obtain dinn where S: "core_inv ?fs" "fs_inv E ?fs" "dn \<in> dirs ?fs" "imem ?fs = [?p \<mapsto> dinn]" "imem ?fs ?p = Some dinn" "i_nr dinn = int dn"
    "i_count dinn = 1" "\<not> dirty dinn" "dir_at ?fs dn (E dn)" using ok by (rule shell_okE)
  have nm: "0 \<notin> set nm" using args_are_nul [OF a, of 1] by simp
  have run: "create_cmd type s = and_then (testfs_create_file_or_dir ?fs (Some ?p) type nm) (\<lambda>(ret, fs). Ok (ret, set_fs fs s))"
    using args_are_nargs [OF a] by (simp add: create_cmd_def args_are_arg [OF a])
  from S(1,5,6,9) nm len b ty show ?thesis
  proof (cases rule: create_step)
    case present
    then show ?thesis using run by (simp add: create_spec_def)
  next
    case (intact fs')
    note K = kept_tree [OF S(2) intact(3-5)]
    have "shell_ok E dn (set_fs fs' s)" using K S(3-8) intact(6) by (auto simp: shell_ok_def)
    then show ?thesis using run intact(1,2) K(2) by (simp add: create_spec_def)
  next
    case (torn dinn' fs')
    have "view E (mark_dirty ?p fs') m = tree E s m" if "m \<noteq> dn" for m using tree_other [OF torn(4), of m E] torn(5) that by simp
    then show ?thesis using run torn(1,2,3) by (simp add: create_spec_def)
  next
    case (created nr ds' dinn' fs')
    let ?E = "if type = I_DIR then E(dn := ds', nr := [new_entry dot (int nr), new_entry dotdot (int dn)]) else E(dn := ds')"
    note F = fs_inv_created [OF S(2,3) created(1) ty created(3-5,7-10)]
    have "dn \<in> dirs fs'" using created(9) by (simp add: dirs_def dir_at_def)
    moreover have "imem fs' = [?p \<mapsto> dinn']" using created(11) S(4) by auto
    ultimately have "shell_ok ?E dn (set_fs fs' s)" using F(1) created(13) S(6,7) same_id_count [OF created(12)]
      by (auto simp: shell_ok_def)
    moreover have "nr \<notin> dom (tree E s)" using created(5) by (auto simp: view_none)
    moreover have "off (?E m) \<le> off (E m) + length nm + 30" for m using off_dir_add [OF created(8)] by (simp add: new_entry_def)
    ultimately have "create_spec E dn type nm s 0 (set_fs fs' s)"
      unfolding create_spec_def using created(1) F(2) by (simp del: off_simps) (intro disjI1 exI [of _ ?E] exI [of _ nr] conjI allI; assumption)
    then show ?thesis using run created(2) by (intro exI [of _ 0] exI [of _ "set_fs fs' s"]) simp
  qed
qed

lemma off_dir_remove: "off (dir_remove nm ds) = off ds"
  by (induction ds) auto

definition remove_spec :: "(nat \<Rightarrow> dirent list) \<Rightarrow> nat \<Rightarrow> byte list \<Rightarrow> session \<Rightarrow> int \<Rightarrow> session \<Rightarrow> bool" where
  "remove_spec E dn nm s ret s' \<longleftrightarrow>
     (let n = nat (dir_lookup (E dn) nm) in
      if nm \<in> {dot, dotdot} then ret = - EINVAL \<and> s' = s
      else if dir_lookup (E dn) nm < 0 then ret = - ENOENT \<and> s' = s
      else if n \<in> dirs (s_fs s) \<and> \<not> dots_only (E n) then ret = - ENOTEMPTY \<and> shell_ok E dn s' \<and> tree E s' = tree E s
      else
        ret = 0 \<and> (\<exists>E'. shell_ok E' dn s' \<and> (\<forall>m. off (E' m) = off (E m)) \<and> tree E' s' = (tree E s)(dn \<mapsto> Dir ((dir_lookup (E dn))(nm := - ENOENT)), n := None)) \<or>
        ret = - ENOSPC \<and> (\<forall>m. m \<noteq> dn \<longrightarrow> view E (mark_dirty (cur_dir (s_ctx s)) (s_fs s')) m = tree E s m) \<and>
           core_inv (mark_dirty (cur_dir (s_ctx s)) (s_fs s')))"

lemma removable_iff: "n \<in> used_inodes (fsb fs) \<Longrightarrow> removable fs n es \<longleftrightarrow> \<not> (n \<in> dirs fs \<and> \<not> dots_only es)"
  by (auto simp: removable_def dirs_def)

lemma keeps_others: "keeps X fs fs' \<Longrightarrow> keeps Y fs' fs'' \<Longrightarrow> keeps (X \<union> Y) fs fs''"
  by (rule keeps_trans) auto

lemma kid_not_self:
  assumes tree: "tree_ok U D E" and dn: "dn \<in> D" and k: "n \<in> set (kids E dn)"
  shows "n \<noteq> dn"
proof
  assume eq: "n = dn"
  note T = tree_okD [OF tree]
  have "parent E dn = dn" using T(8) [OF dn dn] k eq by simp
  then have "(parent E ^^ j) dn = dn" for j by (induction j) simp_all
  then have "dn = 0" using T(10) [OF dn] by metis
  then show False using T(6) [OF dn k] eq by simp
qed

lemma lookup_kid:
  assumes "dir_start E dn" and "dir_lookup (E dn) nm = int n" and "nm \<noteq> dot" "nm \<noteq> dotdot"
  shows "n \<in> set (kids E dn)"
proof -
  from assms(1) obtain rest where R: "E dn = new_entry dot (int dn) # new_entry dotdot (int (parent E dn)) # rest"
    "kids E dn = map (\<lambda>d. nat (d_inode_nr d)) (lives rest)" by (rule dir_start_kids)
  obtain d where d: "find (live_name nm) (E dn) = Some d" "d_inode_nr d = int n"
    using assms(2) by (auto simp: dir_lookup_def ENOENT_def split: option.splits)
  have "\<not> live_name nm (new_entry dot (int dn))" "\<not> live_name nm (new_entry dotdot (int (parent E dn)))"
    using assms(3,4) by (auto simp: live_name_def new_entry_def)
  then have "find (live_name nm) rest = Some d" using d(1) by (simp add: R(1))
  then have "d \<in> set (lives rest)" by (auto simp: find_Some_iff lives_def live_name_def)
  then have "nat (d_inode_nr d) \<in> set (kids E dn)" unfolding R(2) set_map by (rule imageI)
  then show ?thesis using d(2) by simp
qed

lemma cmd_rm_step:
  assumes ok: "shell_ok E dn s" and a: "args_are s [c, nm]"
  shows "\<exists>ret s'. cmd_rm s = Ok (ret, s') \<and> s_out s' = s_out s \<and> s_ctx s' = s_ctx s \<and> remove_spec E dn nm s ret s'"
proof (cases "nm \<in> {dot, dotdot}")
  case True
  then show ?thesis using args_are_nargs [OF a] by (auto simp: cmd_rm_def args_are_arg [OF a] testfs_remove_dirent_def remove_spec_def EINVAL_def)
next
  case False
  let ?fs = "s_fs s" and ?p = "cur_dir (s_ctx s)"
  obtain dinn where S: "core_inv ?fs" "fs_inv E ?fs" "dn \<in> dirs ?fs" "imem ?fs = [?p \<mapsto> dinn]" "imem ?fs ?p = Some dinn" "i_nr dinn = int dn"
    "i_count dinn = 1" "\<not> dirty dinn" "dir_at ?fs dn (E dn)" using ok by (rule shell_okE)
  have nm: "0 \<notin> set nm" "nm \<noteq> dot" "nm \<noteq> dotdot" using args_are_nul [OF a, of 1] False by auto
  have refs: "\<forall>d \<in> set (E dn). 0 \<le> d_inode_nr d \<longrightarrow> nat (d_inode_nr d) \<in> used_inodes (fsb ?fs)" using dir_entry_used [OF S(2,3)] by blast
  have clean: "\<forall>p inn. imem ?fs p = Some inn \<longrightarrow> \<not> dirty inn" using shell_ok_clean [OF ok] by blast
  have used: "n \<in> used_inodes (fsb ?fs)" if "dir_lookup (E dn) nm = int n" for n by (rule lookup_used [OF S(2,3) that])
  have es: "\<forall>n. int n = dir_lookup (E dn) nm \<longrightarrow> i_type (cur ?fs n) = int_of_type I_DIR \<longrightarrow> dir_at ?fs n (E n)"
    using fs_invD(2) [OF S(2)] used by (simp add: dirs_def)
  have run: "cmd_rm s = and_then (testfs_remove_dirent ?fs ?p nm) (\<lambda>(inode_nr, fs).
        if inode_nr < 0 then Ok (inode_nr, set_fs fs s)
        else and_then (testfs_get_inode fs inode_nr) (\<lambda>(p, fs).
        and_then (testfs_remove_inode fs p) (\<lambda>fs.
        and_then (sync_inode fs ?p) (\<lambda>fs. Ok (0, set_fs fs s)))))"
    using args_are_nargs [OF a] by (simp add: cmd_rm_def args_are_arg [OF a])
  from S(1,5,6,9) nm refs clean es show ?thesis
  proof (cases rule: remove_dirent_step)
    case missing
    then show ?thesis using run False by (simp add: remove_spec_def ENOENT_def)
  next
    case (notempty n fs')
    have "n \<in> dirs ?fs \<and> \<not> dots_only (E n)" using notempty(2) removable_iff [OF used [OF notempty(1)]] by blast
    moreover have "shell_ok E dn (set_fs fs' s)" "tree E (set_fs fs' s) = tree E s" using shell_ok_same [OF ok notempty(4-7), of "set_fs fs' s"] by simp_all
    ultimately show ?thesis using run False notempty(1,3) by (simp add: remove_spec_def ENOTEMPTY_def)
  next
    case (nospc n dinn' fs')
    have "\<not> (n \<in> dirs ?fs \<and> \<not> dots_only (E n))" using nospc(2) removable_iff [OF used [OF nospc(1)]] by blast
    moreover have "view E (mark_dirty ?p fs') m = tree E s m" if "m \<noteq> dn" for m using tree_other [OF nospc(5), of m E] nospc(6) that by simp
    ultimately show ?thesis using run False nospc(1,3,4) by (auto simp: remove_spec_def ENOSPC_def)
  next
    case (removed n dinn' fs1)
    have leaf: "dots_only (E n)" if "n \<in> dirs ?fs" using removed(2) removable_iff [OF removed(3)] that by blast
    have m1: "imem fs1 = [?p \<mapsto> dinn']" using removed(9) S(4) by auto
    note sid = same_id_count [OF removed(10)]
    have ne: "n \<noteq> dn"
      using kid_not_self [OF fs_invD(3) [OF S(2)] S(3) lookup_kid [OF tree_okD(3) [OF fs_invD(3) [OF S(2)] S(3)] removed(1) nm(2,3)]] .
    have u1: "n \<in> used_inodes (fsb fs1)" using removed(3,8) by simp
    obtain p inn fs2 where G: "testfs_get_inode fs1 (int n) = Ok (p, fs2)" "imem fs2 p = Some inn" "i_nr inn = int n" "din inn = cur fs1 n" "core_inv fs2"
      "fsb fs2 = fsb fs1" "\<And>m. cur fs2 m = cur fs1 m" "\<And>q. q \<noteq> p \<Longrightarrow> imem fs2 q = imem fs1 q"
      "imem fs1 p = Some (inn\<lparr>i_count := i_count inn - 1\<rparr>) \<and> fs2 = set_inode p inn fs1 \<or>
       p = inext fs1 \<and> imem fs1 p = None \<and> uncached fs1 (int n) \<and> inn = fresh_inode (fsb fs1) n \<and> fs2 = loaded fs1 inn"
      by (rule get_inode_core [OF removed(5) u1], rule that; assumption)
    have pne: "p \<noteq> ?p" "i_count inn = 1"
    proof -
      have "imem fs1 p \<noteq> Some (inn\<lparr>i_count := i_count inn - 1\<rparr>)"
      proof
        assume "imem fs1 p = Some (inn\<lparr>i_count := i_count inn - 1\<rparr>)"
        then have "dinn' = inn\<lparr>i_count := i_count inn - 1\<rparr>" using m1 by (simp split: if_splits)
        then have "i_nr inn = i_nr dinn'" by simp
        then show False using sid S(6) G(3) ne by simp
      qed
      then show "p \<noteq> ?p" "i_count inn = 1" using G(9) m1 by (auto simp: fresh_inode_def)
    qed
    obtain fs3 where R: "testfs_remove_inode fs2 p = Ok fs3" "core_inv fs3" "keeps {n} fs2 fs3" "used_inodes (fsb fs3) = used_inodes (fsb fs2) - {n}" "imem fs3 = (imem fs2)(p := None)"
      by (rule remove_inode_step [OF G(5,2,3) pne(2)], rule that; assumption)
    have cur3: "imem fs3 ?p = Some dinn'" using R(5) pne(1) G(8) m1 by auto
    obtain dinn4 fs4 where Y: "sync_inode fs3 ?p = Ok fs4" "core_inv fs4" "keeps {} fs3 fs4" "used_inodes (fsb fs4) = used_inodes (fsb fs3)"
      "imem fs4 = (imem fs3)(?p := Some dinn4)" "\<not> dirty dinn4" "same_id dinn' dinn4"
      by (rule sync_inode_step [OF R(2) cur3], rule that; assumption)
    have k12: "keeps {} fs1 fs2" using G(6,7) by (simp add: keeps_def)
    have keep: "keeps {dn, n} ?fs fs4"
      using keeps_others [OF keeps_others [OF keeps_others [OF removed(7) k12] R(3)] Y(3)] by (simp add: insert_commute)
    have used4: "used_inodes (fsb fs4) = used_inodes (fsb ?fs) - {n}" using Y(4) R(4) G(6) removed(8) by simp
    have d4: "dir_at fs4 dn (dir_remove nm (E dn))"
      using dir_at_keeps [OF keeps_others [OF keeps_others [OF k12 R(3)] Y(3)] _ removed(6)] ne by simp
    note F = fs_inv_removed [OF S(2,3) nm(2,3) removed(1) leaf Y(2) keep used4 d4]
    have "imem fs4 q = [?p \<mapsto> dinn4] q" for q using Y(5) R(5) G(8) m1 by (cases "q = ?p"; cases "q = p") auto
    then have m4: "imem fs4 = [?p \<mapsto> dinn4]" by auto
    have "dn \<in> dirs fs4" using d4 by (simp add: dirs_def dir_at_def)
    then have "shell_ok (E(dn := dir_remove nm (E dn))) dn (set_fs fs4 s)"
      using F(1) m4 Y(6) same_id_count [OF Y(7)] sid S(6,7) by (auto simp: shell_ok_def)
    moreover have "cmd_rm s = Ok (0, set_fs fs4 s)" using run removed(4) G(1) R(1) Y(1) by simp
    moreover have "\<not> (n \<in> dirs ?fs \<and> \<not> dots_only (E n))" using leaf by blast
    moreover have "\<forall>m. off ((E(dn := dir_remove nm (E dn))) m) = off (E m)" by (simp add: off_dir_remove)
    ultimately show ?thesis using F(2) False removed(1) by (auto simp: remove_spec_def)
  qed
qed

section \<open>Files\<close>

text \<open>An inode looked up in the current directory, looked at and put again.\<close>

lemma shell_get_put:
  assumes ok: "shell_ok E dn s" and n: "n \<in> used_inodes (fsb (s_fs s))"
  obtains p inn fs1 fs2 where "testfs_get_inode (s_fs s) (int n) = Ok (p, fs1)" "imem fs1 p = Some inn" "i_nr inn = int n" "din inn = cur (s_fs s) n" "core_inv fs1"
    "fsb fs1 = fsb (s_fs s)" "\<And>m. cur fs1 m = cur (s_fs s) m" "testfs_put_inode fs1 p = Ok fs2"
    "\<And>s'. s_fs s' = fs2 \<Longrightarrow> cur_dir (s_ctx s') = cur_dir (s_ctx s) \<Longrightarrow> shell_ok E dn s' \<and> tree E s' = tree E s"
proof -
  have S: "core_inv (s_fs s)" using ok by (simp add: shell_ok_def fs_inv_def)
  have clean: "\<not> dirty x" if "imem (s_fs s) q = Some x" for q x using shell_ok_clean [OF ok that] .
  obtain p inn fs1 fs2 where P: "testfs_get_inode (s_fs s) (int n) = Ok (p, fs1)" "imem fs1 p = Some inn" "i_nr inn = int n" "din inn = cur (s_fs s) n" "core_inv fs1"
    "fsb fs1 = fsb (s_fs s)" "\<And>m. cur fs1 m = cur (s_fs s) m" "testfs_put_inode fs1 p = Ok fs2" "core_inv fs2" "fsb fs2 = fsb (s_fs s)"
    "imem fs2 = imem (s_fs s)" "\<And>m. cur fs2 m = cur (s_fs s) m"
    by (rule get_look_put [OF S n clean], assumption, rule that; assumption)
  show thesis using shell_ok_same [OF ok P(9-12)] by (intro that [OF P(1-8)]) simp
qed

definition stat_line :: "byte list \<Rightarrow> nat \<Rightarrow> dinode \<Rightarrow> byte list" where
  "stat_line nm n di = nm @ str '': i_nr = '' @ dec_int (int n) @ str '', i_type = '' @ dec_int (i_type di) @
     str '', i_size = '' @ dec_int (i_size di) @ str '', block_count = '' @ dec_int (block_count di) @ [10]"

lemma cmd_stat_step:
  assumes ok: "shell_ok E dn s" and a: "args_are s [c, nm]"
  shows "\<exists>ret s'. cmd_stat s = Ok (ret, s') \<and> shell_ok E dn s' \<and> tree E s' = tree E s \<and>
     (if dir_lookup (E dn) nm < 0 then ret = - ENOENT \<and> s' = s
      else ret = 0 \<and> s_out s' = s_out s @ stat_line nm (nat (dir_lookup (E dn) nm)) (cur (s_fs s) (nat (dir_lookup (E dn) nm))))"
  using ok
proof (cases rule: lookup_cases [where nm = nm])
  case missing
  then show ?thesis using ok args_are_nargs [OF a] args_are_nul [OF a, of 1] lookup_cur_ok [OF ok] by (simp add: cmd_stat_def args_are_arg [OF a])
next
  case (found n)
  obtain p inn fs1 fs2 where P: "testfs_get_inode (s_fs s) (int n) = Ok (p, fs1)" "imem fs1 p = Some inn" "i_nr inn = int n" "din inn = cur (s_fs s) n" "core_inv fs1"
    "fsb fs1 = fsb (s_fs s)" "\<And>m. cur fs1 m = cur (s_fs s) m" "testfs_put_inode fs1 p = Ok fs2"
    "\<And>s'. s_fs s' = fs2 \<Longrightarrow> cur_dir (s_ctx s') = cur_dir (s_ctx s) \<Longrightarrow> shell_ok E dn s' \<and> tree E s' = tree E s"
    by (rule shell_get_put [OF ok found(2)], rule that; assumption)
  have "file_ok (fsb (s_fs s)) (cur (s_fs s) n)" using core_invD(4) [OF fs_invD(1) [of E] found(2)] ok by (simp add: shell_ok_def)
  then have sz: "i_size (cur (s_fs s) n) mod 2 ^ 64 = i_size (cur (s_fs s) n)" by (simp add: file_ok_def fs_consts)
  let ?s = "print (stat_line nm n (cur (s_fs s) n)) (set_fs fs2 s)"
  have "cmd_stat s = Ok (0, ?s)"
    using args_are_nargs [OF a] args_are_nul [OF a, of 1] lookup_cur_ok [OF ok] found(1) P(1-4,8) sz
    by (simp add: cmd_stat_def args_are_arg [OF a] with_inode_def testfs_inode_get_type_def testfs_inode_get_nr_def testfs_inode_get_size_def
        testfs_inode_get_block_count_def stat_line_def Let_def)
  then show ?thesis using P(9) [of ?s] found(1) by simp
qed

text \<open>Opening a file: it is not in memory, so a new object with one user is made.\<close>

lemma shell_get_file:
  assumes ok: "shell_ok E dn s" and n: "n \<in> used_inodes (fsb (s_fs s))" and ty: "i_type (cur (s_fs s) n) \<noteq> int_of_type I_DIR"
  shows "n \<noteq> dn" "testfs_get_inode (s_fs s) (int n) = Ok (inext (s_fs s), loaded (s_fs s) (fresh_inode (fsb (s_fs s)) n))"
    "inext (s_fs s) \<noteq> cur_dir (s_ctx s)"
proof -
  let ?fs = "s_fs s"
  obtain dinn where S: "core_inv ?fs" "dn \<in> dirs ?fs" "imem ?fs = [cur_dir (s_ctx s) \<mapsto> dinn]" "imem ?fs (cur_dir (s_ctx s)) = Some dinn" "i_nr dinn = int dn" using ok by (rule shell_okE)
  show ne: "n \<noteq> dn" using S(2) ty by (auto simp: dirs_def)
  have un: "uncached ?fs (int n)" using S(3,5) ne by (auto simp: uncached_def split: if_splits)
  have "n < 16384" using core_invD(3) [OF S(1) n] by (simp add: NR_INODES_def)
  then show "testfs_get_inode ?fs (int n) = Ok (inext ?fs, loaded ?fs (fresh_inode (fsb ?fs) n))"
    using get_inode_miss [OF core_invD(2,1) [OF S(1)] un] by simp
  show "inext ?fs \<noteq> cur_dir (s_ctx s)" using inext_unused [OF core_invD(2) [OF S(1)]] S(4) by auto
qed

lemma file_inode_cases [consumes 2, case_names missing isdir isfile]:
  assumes ok: "shell_ok E dn s" and nm: "0 \<notin> set nm"
  obtains (missing) "dir_lookup (E dn) nm < 0" "testfs_get_file_inode (s_fs s) (cur_dir (s_ctx s)) nm = Ok (- ENOENT, None, s_fs s)"
  | (isdir) n f fs2 where "dir_lookup (E dn) nm = int n" "tree E s n = Some (Dir f)" "testfs_get_file_inode (s_fs s) (cur_dir (s_ctx s)) nm = Ok (- EISDIR, None, fs2)"
      "\<And>s'. s_fs s' = fs2 \<Longrightarrow> cur_dir (s_ctx s') = cur_dir (s_ctx s) \<Longrightarrow> shell_ok E dn s' \<and> tree E s' = tree E s"
  | (isfile) n p inn fs1 fs2 where "dir_lookup (E dn) nm = int n" "tree E s n = Some (File (file_bytes (dev (fsb (s_fs s))) (cur (s_fs s) n)))" "n \<in> used_inodes (fsb (s_fs s))" "n \<noteq> dn"
      "testfs_get_file_inode (s_fs s) (cur_dir (s_ctx s)) nm = Ok (0, Some p, fs1)" "p \<noteq> cur_dir (s_ctx s)" "imem fs1 = (imem (s_fs s))(p \<mapsto> inn)"
      "i_nr inn = int n" "i_count inn = 1" "\<not> dirty inn" "din inn = cur (s_fs s) n" "core_inv fs1" "fsb fs1 = fsb (s_fs s)" "\<And>m. cur fs1 m = cur (s_fs s) m" "testfs_put_inode fs1 p = Ok fs2"
      "\<And>s'. s_fs s' = fs2 \<Longrightarrow> cur_dir (s_ctx s') = cur_dir (s_ctx s) \<Longrightarrow> shell_ok E dn s' \<and> tree E s' = tree E s"
proof -
  let ?fs = "s_fs s" and ?p = "cur_dir (s_ctx s)"
  obtain dinn where S: "core_inv ?fs" "fs_inv E ?fs" "dn \<in> dirs ?fs" "imem ?fs = [?p \<mapsto> dinn]" "imem ?fs ?p = Some dinn" "i_nr dinn = int dn"
    "i_count dinn = 1" "\<not> dirty dinn" "dir_at ?fs dn (E dn)" using ok by (rule shell_okE)
  have look: "with_inode ?fs ?p (\<lambda>dir. testfs_dir_name_to_inode_nr (fsb ?fs) dir nm) = Ok (dir_lookup (E dn) nm)"
    using lookup_cur_ok [OF ok nm] by (simp add: lookup_cur_def)
  from ok show thesis
  proof (cases rule: lookup_cases [where nm = nm])
    case missing
    then show thesis using look by (intro that(1)) (simp_all add: testfs_get_file_inode_def)
  next
    case (found n)
    obtain p inn fs1 fs2 where P: "testfs_get_inode ?fs (int n) = Ok (p, fs1)" "imem fs1 p = Some inn" "i_nr inn = int n" "din inn = cur ?fs n" "core_inv fs1"
      "fsb fs1 = fsb ?fs" "\<And>m. cur fs1 m = cur ?fs m" "testfs_put_inode fs1 p = Ok fs2"
      "\<And>s'. s_fs s' = fs2 \<Longrightarrow> cur_dir (s_ctx s') = cur_dir (s_ctx s) \<Longrightarrow> shell_ok E dn s' \<and> tree E s' = tree E s"
      by (rule shell_get_put [OF ok found(2)], rule that; assumption)
    show thesis
    proof (cases "i_type (cur ?fs n) = int_of_type I_DIR")
      case True
      obtain f where "tree E s n = Some (Dir f)" using view_type [OF found(2)] True by blast
      then show thesis using that(2) [OF found(1) _ _ P(9)] look True P(1,2,4,8) found(1)
        by (simp add: testfs_get_file_inode_def with_inode_def testfs_inode_get_type_def)
    next
      case False
      note L = shell_get_file [OF ok found(2) False]
      have ne: "n \<noteq> dn" by (rule L(1))
      have e: "p = inext ?fs" "fs1 = loaded ?fs (fresh_inode (fsb ?fs) n)" using P(1) L(2) by simp_all
      have m1: "imem fs1 = (imem ?fs)(p \<mapsto> fresh_inode (fsb ?fs) n)" using e by (simp add: loaded_def)
      then have i: "inn = fresh_inode (fsb ?fs) n" using P(2) by simp
      have "p \<noteq> ?p" using L(3) e(1) by simp
      moreover have "testfs_get_file_inode ?fs ?p nm = Ok (0, Some p, fs1)"
        using look False P(1,2,4) found(1) by (simp add: testfs_get_file_inode_def with_inode_def testfs_inode_get_type_def)
      moreover have "tree E s n = Some (File (file_bytes (dev (fsb ?fs)) (cur ?fs n)))" using found(2) False by (simp add: view_def)
      moreover have "i_count inn = 1" "\<not> dirty inn" using i by (simp_all add: fresh_inode_def dirty_def)
      ultimately show thesis using P(3-9) m1 i by (intro that(3) [OF found(1) _ found(2) ne, of p fs1 inn fs2]) simp_all
    qed
  qed
qed

lemma MAX_FILE_SIZE_bytes: "MAX_FILE_SIZE = int max_bytes"
  by (simp add: fs_consts)

text \<open>Reading \<open>sz\<close> bytes at \<open>start\<close> from a file with the bytes \<open>bs\<close>: what is returned and printed.\<close>

definition read_spec :: "byte list \<Rightarrow> nat \<Rightarrow> nat \<Rightarrow> int \<times> byte list" where
  "read_spec bs start sz =
     (if length bs < start + sz then (- EINVAL, [])
      else if start = max_bytes then (- EFBIG, [])
      else (int sz, takeWhile (\<lambda>c. c \<noteq> 0) (take sz (drop start bs)) @ [10]))"

lemma length_file_bytes: "0 \<le> i_size di \<Longrightarrow> int (length (file_bytes d di)) = i_size di"
  by (simp add: file_bytes_def)

lemma read_and_print_eq:
  assumes inv: "super_inv (fsb fs)" and ok: "file_ok (fsb fs) (din inn)" and small: "start < 2 ^ 62" "sz < 2 ^ 31"
  shows "read_and_print fs inn (int start) sz = Ok (read_spec (file_bytes (dev (fsb fs)) (din inn)) start sz)"
proof -
  let ?bs = "file_bytes (dev (fsb fs)) (din inn)"
  have sz: "0 \<le> i_size (din inn)" "i_size (din inn) \<le> int max_bytes" using ok by (simp_all add: file_ok_def)
  note len = length_file_bytes [OF sz(1), of "dev (fsb fs)"]
  have s64: "s64_of_u64 sz = int sz" using small by (intro s64_of_u64_small) simp
  have chk: "s64_check (int start + int sz) m = m" for m :: "(int \<times> byte list) outcome" using small by (simp add: s64_check_def is_s64_def)
  show ?thesis
  proof (cases "length ?bs < start + sz")
    case True
    then show ?thesis using len s64 chk by (simp add: read_and_print_def read_spec_def testfs_inode_get_size_def)
  next
    case False
    then have start: "start \<le> length ?bs" "length ?bs \<le> max_bytes" using len sz(2) by linarith+
    show ?thesis
    proof (cases "start = max_bytes")
      case True
      then show ?thesis using False len s64 chk small
        by (simp add: read_and_print_def read_spec_def testfs_inode_get_size_def testfs_read_data_def MAX_FILE_SIZE_bytes EFBIG_def)
    next
      case ne: False
      have r: "testfs_read_data (fsb fs) inn (sz + 1) (int start) sz = Ok (int sz, take sz (drop start ?bs))"
        using read_data_eq [OF inv ok start(1), of sz "sz + 1"] small(2) start ne False by (simp add: Let_def)
      have "length (take sz (drop start ?bs)) = sz" using False by simp
      then show ?thesis using False ne len s64 chk small(2) r by (simp add: read_and_print_def read_spec_def testfs_inode_get_size_def Let_def)
    qed
  qed
qed

lemma cmd_read_step:
  assumes ok: "shell_ok E dn s" and a: "args_are s [c, nm, x, y]" and x: "str_to_offset x = (0, Some (int start))" and y: "str_to_size y = (0, Some sz)"
    and small: "start < 2 ^ 62" "sz < 2 ^ 31"
  shows "\<exists>ret out s'. cmd_read s = Ok (ret, s') \<and> shell_ok E dn s' \<and> tree E s' = tree E s \<and> s_out s' = s_out s @ out \<and>
     (if dir_lookup (E dn) nm < 0 then (ret, out) = (- ENOENT, [])
      else case tree E s (nat (dir_lookup (E dn) nm)) of
          Some (File bs) \<Rightarrow> (ret, out) = read_spec bs start sz
        | _ \<Rightarrow> (ret, out) = (- EISDIR, []))"
proof -
  have nm: "0 \<notin> set nm" using args_are_nul [OF a, of 1] by simp
  have run: "cmd_read s = and_then (testfs_get_file_inode (s_fs s) (cur_dir (s_ctx s)) nm) (\<lambda>(ret, r, fs).
     case r of None \<Rightarrow> Ok (ret, set_fs fs s)
     | Some p \<Rightarrow> and_then (with_inode fs p (\<lambda>inn. read_and_print fs inn (int start) sz)) (\<lambda>(ret, out).
         and_then (testfs_put_inode fs p) (\<lambda>fs. Ok (ret, print out (set_fs fs s)))))"
    using args_are_nargs [OF a] x y by (simp add: cmd_read_def args_are_arg [OF a] numeral_eq_Suc)
  from ok nm show ?thesis
  proof (cases rule: file_inode_cases)
    case missing
    then show ?thesis using run ok by simp
  next
    case (isdir n f fs2)
    then show ?thesis using run isdir(4) [of "set_fs fs2 s"] by simp
  next
    case (isfile n p inn fs1 fs2)
    have p: "imem fs1 p = Some inn" using isfile(7) by simp
    have "file_ok (fsb fs1) (din inn)" by (rule core_inv_mem(4) [OF isfile(12) p])
    note r = read_and_print_eq [OF core_invD(1) [OF isfile(12)] this small]
    let ?bs = "file_bytes (dev (fsb (s_fs s))) (cur (s_fs s) n)"
    obtain ret out where q: "read_spec ?bs start sz = (ret, out)" by (cases "read_spec ?bs start sz")
    have "cmd_read s = Ok (ret, print out (set_fs fs2 s))" using run isfile(5,11,13,15) p r q by (simp add: with_inode_def)
    then show ?thesis using isfile(16) [of "print out (set_fs fs2 s)"] isfile(1,2) q by simp
  qed
qed

text \<open>
  Writing \<open>buf\<close> at \<open>start\<close> to a file: \<open>m\<close> bytes of it are stored. A partial write need not mark the inode as changed (see \<open>testfs_write_data_lost_size\<close>), so the new state is known only when
  all was written or the inode was marked.
\<close>

definition write_spec :: "(nat \<Rightarrow> dirent list) \<Rightarrow> nat \<Rightarrow> nat \<Rightarrow> byte list \<Rightarrow> nat \<Rightarrow> byte list \<Rightarrow> session \<Rightarrow> int \<Rightarrow> session \<Rightarrow> bool" where
  "write_spec E dn n bs start buf s ret s' \<longleftrightarrow>
     (if max_bytes \<le> start then ret = - EFBIG \<and> shell_ok E dn s' \<and> tree E s' = tree E s
      else ret = int (length buf) \<and> shell_ok E dn s' \<and> tree E s' = (tree E s)(n \<mapsto> File (splice bs start buf)) \<or>
        ret \<in> {- ENOSPC, - EFBIG})"

lemma keeps_same: "fsb fs' = fsb fs \<Longrightarrow> (\<And>m. cur fs' m = cur fs m) \<Longrightarrow> keeps X fs fs'"
  by (simp add: keeps_def)

lemma fs_inv_file_change:
  assumes inv: "fs_inv E fs" and core: "core_inv fs'" and keep: "keeps {n} fs fs'" and used: "used_inodes (fsb fs') = used_inodes (fsb fs)"
    and n: "n \<in> used_inodes (fsb fs)" and ty: "i_type (cur fs n) \<noteq> int_of_type I_DIR" "i_type (cur fs' n) = i_type (cur fs n)"
    and bytes: "file_bytes (dev (fsb fs')) (cur fs' n) = bs"
  shows "fs_inv E fs'" "view E fs' = (view E fs)(n \<mapsto> File bs)" "dirs fs' = dirs fs"
proof -
  have other: "m \<in> dirs fs' \<longleftrightarrow> m \<in> dirs fs" for m
    using dirs_keeps [OF keep, of m] ty used by (cases "m = n"; cases "m \<in> used_inodes (fsb fs)") (auto simp: dirs_def)
  then show d: "dirs fs' = dirs fs" by blast
  have "n \<notin> dirs fs" using ty by (simp add: dirs_def)
  then have "dir_at fs' m (E m)" if "m \<in> dirs fs" for m using dir_at_keeps [OF keep _ fs_invD(2) [OF inv that]] that by auto
  then show "fs_inv E fs'" using core d fs_invD(3) [OF inv] used by (simp add: fs_inv_def)
  show "view E fs' = (view E fs)(n \<mapsto> File bs)"
  proof
    show "view E fs' m = ((view E fs)(n \<mapsto> File bs)) m" for m
      using tree_other [OF keep used, of m E] ty bytes n used by (cases "m = n") (auto simp: view_def)
  qed
qed

lemma sync_inode_clean: "imem fs p = Some inn \<Longrightarrow> \<not> dirty inn \<Longrightarrow> sync_inode fs p = Ok fs"
  by (simp add: sync_inode_def on_inode_def with_inode_def testfs_sync_inode_def dirty_def set_inode_same)

lemma on_inode_unchanged: "imem fs p = Some inn \<Longrightarrow> f (fsb fs) inn = Ok (r, inn, fsb fs) \<Longrightarrow> on_inode fs p f = Ok (r, fs)"
  by (simp add: on_inode_def with_inode_def set_inode_same)

lemma dirty_flags: "i_flags inn' = i_flags inn OR I_FLAGS_DIRTY \<Longrightarrow> dirty inn'"
  by (rule set_dirty_dirty)

lemma write_file_step:
  assumes core: "core_inv fs" and p: "imem fs p = Some inn" "i_nr inn = int n" "i_count inn = 1" and start: "start < max_bytes" and len: "length buf < 2 ^ 31"
  obtains (all) fs1 fs2 fs3 where "on_inode fs p (\<lambda>sb inn. testfs_write_data sb inn buf (int start) (length buf)) = Ok (int (length buf), fs1)"
      "sync_inode fs1 p = Ok fs2" "testfs_put_inode fs2 p = Ok fs3" "core_inv fs3" "keeps {n} fs fs3" "used_inodes (fsb fs3) = used_inodes (fsb fs)" "imem fs3 = (imem fs)(p := None)"
      "i_type (cur fs3 n) = i_type (cur fs n)" "file_bytes (dev (fsb fs3)) (cur fs3 n) = splice (file_bytes (dev (fsb fs)) (cur fs n)) start buf"
  | (part) ret fs1 fs2 fs3 where "on_inode fs p (\<lambda>sb inn. testfs_write_data sb inn buf (int start) (length buf)) = Ok (ret, fs1)" "ret \<in> {- ENOSPC, - EFBIG}"
      "sync_inode fs1 p = Ok fs2" "testfs_put_inode fs2 p = Ok fs3"
proof -
  note M = core_inv_mem [OF core p(1)]
  have nn: "nat (i_nr inn) = n" using p(2) by simp
  have nu: "n \<in> used_inodes (fsb fs)" using M(1) nn by simp
  from testfs_write_data_bytes [OF core_invD(1) [OF core] M(4) order_refl len start] obtain m ret inn' sb' where
    W: "testfs_write_data (fsb fs) inn buf (int start) (length buf) = Ok (ret, inn', sb')" "super_inv sb'" "file_ok sb' (din inn')"
      "file_bytes (dev sb') (din inn') = splice (file_bytes (dev (fsb fs)) (din inn)) start (take m buf)" "keeps_foreign (fsb fs) (din inn) sb' (din inn')" "same_id inn inn'"
    and r: "m = length buf \<and> ret = int (length buf) \<and> i_flags inn' = i_flags inn OR I_FLAGS_DIRTY \<or> ret \<in> {- ENOSPC, - EFBIG}" by blast
  define fs1 where "fs1 = set_inode p inn' (fs\<lparr>fsb := sb'\<rparr>)"
  have e: "on_inode fs p (\<lambda>sb inn. testfs_write_data sb inn buf (int start) (length buf)) = Ok (ret, fs1)"
    using p(1) W(1) by (simp add: on_inode_def with_inode_def fs1_def)
  have p1: "imem fs1 p = Some inn'" by (simp add: fs1_def)
  note id = W(6) [unfolded same_id_def]
  show thesis
  proof (cases "dirty inn'")
    case dirt: True
    note S = file_step [OF core p(1) W(2,3,5,6) _ fs1_def, unfolded nn]
    have core1: "core_inv fs1" using S(1) dirt by blast
    have u1: "used_inodes (fsb fs1) = used_inodes (fsb fs)" using S(2) dirt by blast
    have c1: "cur fs1 n = din inn'" using S(3) dirt by blast
    have k1: "keeps {n} fs fs1" using S(4,5) dirt u1 core_invD(3) [OF core] by (intro keepsI) auto
    obtain inn2 fs2 where Y: "sync_inode fs1 p = Ok fs2" "core_inv fs2" "keeps {} fs1 fs2" "used_inodes (fsb fs2) = used_inodes (fsb fs1)"
      "imem fs2 = (imem fs1)(p := Some inn2)" "\<not> dirty inn2" "same_id inn' inn2"
      by (rule sync_inode_step [OF core1 p1], rule that; assumption)
    have p2: "imem fs2 p = Some inn2" "i_count inn2 = 1" using Y(5,7) id p(3) by (simp_all add: same_id_def)
    obtain fs3 where Z: "testfs_put_inode fs2 p = Ok fs3" "core_inv fs3" "keeps {} fs2 fs3" "used_inodes (fsb fs3) = used_inodes (fsb fs2)" "imem fs3 = (imem fs2)(p := None)"
      by (rule put_last_step [OF Y(2) p2(1) Y(6) p2(2)], rule that; assumption)
    have k13: "keeps {} fs1 fs3" using keeps_others [OF Y(3) Z(3)] by simp
    have k: "keeps {n} fs fs3" using keeps_others [OF k1 k13] by simp
    have u: "used_inodes (fsb fs3) = used_inodes (fsb fs)" using Y(4) Z(4) u1 by simp
    have i3: "imem fs3 = (imem fs)(p := None)" using Y(5) Z(5) by (auto simp: fs1_def)
    have n1: "n \<in> used_inodes (fsb fs1)" using nu u1 by simp
    have "cur fs3 n = din inn'" "file_bytes (dev (fsb fs3)) (din inn') = file_bytes (dev sb') (din inn')"
      using keepsD [OF k13 n1] c1 by (simp_all add: fs1_def)
    then have b: "file_bytes (dev (fsb fs3)) (cur fs3 n) = splice (file_bytes (dev (fsb fs)) (cur fs n)) start (take m buf)" "i_type (cur fs3 n) = i_type (cur fs n)"
      using W(4) M(3) nn id by simp_all
    from r show thesis
    proof
      assume "m = length buf \<and> ret = int (length buf) \<and> i_flags inn' = i_flags inn OR I_FLAGS_DIRTY"
      then show thesis using e b by (intro all [OF _ Y(1) Z(1,2) k u i3]) simp_all
    next
      assume "ret \<in> {- ENOSPC, - EFBIG}"
      then show thesis by (rule part [OF e _ Y(1) Z(1)])
    qed
  next
    case clean: False
    then have ret: "ret \<in> {- ENOSPC, - EFBIG}" using r dirty_flags by blast
    have "table_ok fs1" unfolding fs1_def using id p(3) core_invD(2) [OF core] p(1) by (intro table_ok_set [of "fs\<lparr>fsb := sb'\<rparr>" p inn]) simp_all
    from put_inode_eq [OF this p1] clean have "testfs_put_inode fs1 p = Ok (if i_count inn' = 1 then dropped fs1 p else set_inode p (inn'\<lparr>i_count := i_count inn' - 1\<rparr>) fs1)"
      by (simp add: dirty_def)
    then show thesis by (rule part [OF e ret sync_inode_clean [OF p1 clean]])
  qed
qed

lemma cmd_write_step:
  assumes ok: "shell_ok E dn s" and a: "args_are s [c, nm, x, buf]" and x: "str_to_offset x = (0, Some (int start))" and len: "length buf < 2 ^ 31"
  shows "\<exists>ret s'. cmd_write s = Ok (ret, s') \<and> s_out s' = s_out s \<and> s_ctx s' = s_ctx s \<and>
     (if dir_lookup (E dn) nm < 0 then ret = - ENOENT \<and> s' = s
      else case tree E s (nat (dir_lookup (E dn) nm)) of
          Some (File bs) \<Rightarrow> write_spec E dn (nat (dir_lookup (E dn) nm)) bs start buf s ret s'
        | _ \<Rightarrow> ret = - EISDIR \<and> shell_ok E dn s' \<and> tree E s' = tree E s)"
proof -
  have nm: "0 \<notin> set nm" using args_are_nul [OF a, of 1] by simp
  have run: "cmd_write s = and_then (testfs_get_file_inode (s_fs s) (cur_dir (s_ctx s)) nm) (\<lambda>(ret, r, fs).
     case r of None \<Rightarrow> Ok (ret, set_fs fs s)
     | Some p \<Rightarrow> and_then (on_inode fs p (\<lambda>sb inn. testfs_write_data sb inn buf (int start) (length buf))) (\<lambda>(ret, fs).
         and_then (sync_inode fs p) (\<lambda>fs.
         and_then (testfs_put_inode fs p) (\<lambda>fs. Ok (ret, set_fs fs s)))))"
    using args_are_nargs [OF a] x by (simp add: cmd_write_def args_are_arg [OF a] numeral_eq_Suc cong: option.case_cong)
  from ok nm show ?thesis
  proof (cases rule: file_inode_cases)
    case missing
    then show ?thesis using run ok by simp
  next
    case (isdir n f fs2)
    then show ?thesis using run isdir(4) [of "set_fs fs2 s"] by simp
  next
    case (isfile n p inn fs1 fs2)
    have p: "imem fs1 p = Some inn" using isfile(7) by simp
    let ?bs = "file_bytes (dev (fsb (s_fs s))) (cur (s_fs s) n)"
    obtain dinn where S: "fs_inv E (s_fs s)" "dn \<in> dirs (s_fs s)" "imem (s_fs s) = [cur_dir (s_ctx s) \<mapsto> dinn]" "i_nr dinn = int dn" "i_count dinn = 1" "\<not> dirty dinn"
      using ok by (auto simp: shell_ok_def)
    have res: ?thesis if "cmd_write s = Ok (ret, set_fs fs' s)" "write_spec E dn n ?bs start buf s ret (set_fs fs' s)" for ret fs'
      using that isfile(1,2) by simp
    show ?thesis
    proof (cases "start < max_bytes")
      case False
      have "testfs_write_data (fsb fs1) inn buf (int start) (length buf) = Ok (- EFBIG, inn, fsb fs1)"
        using False by (simp add: testfs_write_data_def MAX_FILE_SIZE_bytes)
      from on_inode_unchanged [where f = "\<lambda>sb inn. testfs_write_data sb inn buf (int start) (length buf)", OF p this] isfile(5,15) sync_inode_clean [OF p isfile(10)] run
      have "cmd_write s = Ok (- EFBIG, set_fs fs2 s)" by simp
      then show ?thesis using isfile(16) [of "set_fs fs2 s"] False by (intro res) (simp_all add: write_spec_def)
    next
      case True
      from isfile(12) p isfile(8,9) True len show ?thesis
      proof (cases rule: write_file_step)
        case (all fs3 fs4 fs5)
        have e: "cmd_write s = Ok (int (length buf), set_fs fs5 s)" using run isfile(5) all(1-3) by simp
        have k: "keeps {n} (s_fs s) fs5" using keeps_others [OF keeps_same [of fs1 "s_fs s" "{}"] all(5)] isfile(13,14) by simp
        have u: "used_inodes (fsb fs5) = used_inodes (fsb (s_fs s))" using all(6) isfile(13) by simp
        have ty: "i_type (cur (s_fs s) n) \<noteq> int_of_type I_DIR" using isfile(2) by (auto simp: view_def split: if_splits)
        have b: "file_bytes (dev (fsb fs5)) (cur fs5 n) = splice ?bs start buf" "i_type (cur fs5 n) = i_type (cur (s_fs s) n)" using all(8,9) isfile(13,14) by simp_all
        note F = fs_inv_file_change [OF S(1) all(4) k u isfile(3) ty b(2,1)]
        have "imem fs5 q = imem (s_fs s) q" for q using all(7) isfile(7) S(3) isfile(6) by (cases "q = p") simp_all
        then have "imem fs5 = [cur_dir (s_ctx s) \<mapsto> dinn]" using S(3) by auto
        then have "shell_ok E dn (set_fs fs5 s)" using F S by (auto simp: shell_ok_def)
        then show ?thesis using F(2) True by (intro res [OF e]) (simp add: write_spec_def)
      next
        case (part ret fs3 fs4 fs5)
        have e: "cmd_write s = Ok (ret, set_fs fs5 s)" using run isfile(5) part(1,3,4) by simp
        show ?thesis using part(2) True by (intro res [OF e]) (auto simp: write_spec_def)
      qed
    qed
  qed
qed

end
