(* ===== verification/FS_List.thy ===== *)
theory FS_List
  imports FS_Cmd
begin

text \<open>
  The commands that print the path of the current directory and list a directory, with the proof that they end because the directories form a tree; starting and ending a session.
\<close>

unbundle bit_operations_syntax

section \<open>Printing the path of the current directory\<close>

text \<open>An inode is got, used in a way that changes nothing, and put again.\<close>

lemma get_use_put:
  assumes core: "core_inv fs" and nr: "nr \<in> used_inodes (fsb fs)" and clean: "\<forall>p inn. imem fs p = Some inn \<longrightarrow> \<not> dirty inn"
  obtains p inn fs1 where "testfs_get_inode fs (int nr) = Ok (p, fs1)" "imem fs1 p = Some inn" "i_nr inn = int nr" "din inn = cur fs nr" "core_inv fs1"
    "fsb fs1 = fsb fs" "\<And>m. cur fs1 m = cur fs m" "\<forall>p inn. imem fs1 p = Some inn \<longrightarrow> \<not> dirty inn"
    "\<And>fs2. core_inv fs2 \<Longrightarrow> fsb fs2 = fsb fs1 \<Longrightarrow> imem fs2 = imem fs1 \<Longrightarrow> \<exists>fs3. testfs_put_inode fs2 p = Ok fs3 \<and> core_inv fs3 \<and> fsb fs3 = fsb fs \<and> imem fs3 = imem fs"
    "p \<in> dom (imem fs) \<or> imem fs p = None"
proof -
  obtain p inn fs1 where G: "testfs_get_inode fs (int nr) = Ok (p, fs1)" "imem fs1 p = Some inn" "i_nr inn = int nr" "din inn = cur fs nr" "core_inv fs1"
    "fsb fs1 = fsb fs" "\<And>m. cur fs1 m = cur fs m" "\<And>q. q \<noteq> p \<Longrightarrow> imem fs1 q = imem fs q"
    "imem fs p = Some (inn\<lparr>i_count := i_count inn - 1\<rparr>) \<and> fs1 = set_inode p inn fs \<or>
     p = inext fs \<and> imem fs p = None \<and> uncached fs (int nr) \<and> inn = fresh_inode (fsb fs) nr \<and> fs1 = loaded fs inn"
    by (rule get_inode_core [OF core nr], rule that; assumption)
  have c: "\<not> dirty inn" using G(9) clean [rule_format, of p "inn\<lparr>i_count := i_count inn - 1\<rparr>"] by (auto simp: dirty_def fresh_inode_def)
  have old: "imem fs p = (if i_count inn = 1 then None else Some (inn\<lparr>i_count := i_count inn - 1\<rparr>))"
    using G(9) table_ok_entry(2) [OF core_invD(2) [OF core], of p] by (auto simp: fresh_inode_def)
  have clean1: "\<not> dirty x" if "imem fs1 q = Some x" for q x using clean c that G(2) G(8) [of q] by (cases "q = p") auto
  have put: "\<exists>fs3. testfs_put_inode fs2 p = Ok fs3 \<and> core_inv fs3 \<and> fsb fs3 = fsb fs \<and> imem fs3 = imem fs"
    if h: "core_inv fs2" "fsb fs2 = fsb fs1" "imem fs2 = imem fs1" for fs2
  proof -
    have p2: "imem fs2 p = Some inn" using h(3) G(2) by simp
    obtain fs3 where P: "testfs_put_inode fs2 p = Ok fs3" "core_inv fs3" "fsb fs3 = fsb fs2" "\<And>q. q \<noteq> p \<Longrightarrow> imem fs3 q = imem fs2 q"
      "imem fs3 p = (if i_count inn = 1 then None else Some (inn\<lparr>i_count := i_count inn - 1\<rparr>))"
      by (rule put_inode_core [OF h(1) p2 c], rule that; assumption)
    have "imem fs3 q = imem fs q" for q
    proof (cases "q = p")
      case True
      then show ?thesis using P(5) old by simp
    next
      case False
      then show ?thesis using P(4) [OF False] G(8) [OF False] h(3) by simp
    qed
    then have "imem fs3 = imem fs" by auto
    then show ?thesis using P(1-3) h(2) G(6) by auto
  qed
  have cl: "\<forall>q x. imem fs1 q = Some x \<longrightarrow> \<not> dirty x" using clean1 by blast
  show thesis by (rule that [OF G(1-7) cl put]) (assumption+, auto)
qed

text \<open>The name of the inode \<open>n\<close> in the directory \<open>pn\<close>, and the names on the way from the root, found in at most \<open>k\<close> steps up.\<close>

definition name_in :: "(nat \<Rightarrow> dirent list) \<Rightarrow> nat \<Rightarrow> nat \<Rightarrow> byte list" where
  "name_in E pn n = (case find (\<lambda>d. d_inode_nr d = int n) (E pn) of None \<Rightarrow> [] | Some d \<Rightarrow> butlast (d_name d))"

fun path_names :: "nat \<Rightarrow> (nat \<Rightarrow> dirent list) \<Rightarrow> nat \<Rightarrow> byte list list" where
  "path_names 0 E n = []"
| "path_names (Suc k) E n = (if n = 0 then [] else path_names k E (parent E n) @ [name_in E (parent E n) n])"

fun path_text :: "byte list list \<Rightarrow> byte list" where
  "path_text [] = [47]"
| "path_text [nm] = 47 # nm"
| "path_text (nm # ns) = 47 # nm @ path_text ns"

lemma path_text_append: "path_text (ns @ [nm]) = path_text ns @ (if ns = [] then [] else [47]) @ nm"
  by (induction ns rule: path_text.induct) auto

lemma dent_name: "dent_ok d \<Longrightarrow> c_str (d_name d) = Ok (butlast (d_name d)) \<and> d_name d = butlast (d_name d) @ [0] \<and> 0 \<notin> set (butlast (d_name d))"
  by (auto simp: dent_ok_def c_str_def takeWhile_append)

lemma find_kid:
  assumes "dir_at fs pn (E pn)" and "n \<in> set (kids E pn)" and "dir_start E pn"
  obtains d where "find (\<lambda>d. d_inode_nr d = int n) (E pn) = Some d" "dent_ok d"
proof -
  from assms(3) obtain rest where R: "E pn = new_entry dot (int pn) # new_entry dotdot (int (parent E pn)) # rest"
    "kids E pn = map (\<lambda>d. nat (d_inode_nr d)) (lives rest)" by (rule dir_start_kids)
  obtain e where e: "e \<in> set (lives rest)" "nat (d_inode_nr e) = n" using assms(2) R(2) by auto
  then have "e \<in> set (E pn)" "d_inode_nr e = int n" using R(1) by (auto simp: lives_def)
  then have "find (\<lambda>d. d_inode_nr d = int n) (E pn) \<noteq> None" by (auto simp: find_None_iff)
  then obtain d where d: "find (\<lambda>d. d_inode_nr d = int n) (E pn) = Some d" by blast
  then have "d \<in> set (E pn)" by (auto simp: find_Some_iff)
  then show thesis using assms(1) d by (intro that) (auto simp: dir_at_def)
qed

lemma parent_kid:
  assumes "tree_ok U D E" and "n \<in> D" and "n \<noteq> 0"
  shows "n \<in> set (kids E (parent E n))" "parent E n \<in> D" "parent E n \<noteq> n"
proof -
  note T = tree_okD [OF assms(1)]
  obtain m where m: "m \<in> D" "n \<in> set (kids E m)" using T(11) [OF subsetD [OF T(2) assms(2)] assms(3)] by blast
  have eq: "parent E n = m" by (rule T(8) [OF m(1) assms(2) m(2)])
  show "n \<in> set (kids E (parent E n))" "parent E n \<in> D" using m eq by simp_all
  show "parent E n \<noteq> n" using kid_not_self [OF assms(1) m] eq by simp
qed

lemma lookup_dotdot:
  assumes "dir_start E n"
  shows "dir_lookup (E n) dotdot = int (parent E n)"
proof -
  obtain rest where "E n = new_entry dot (int n) # new_entry dotdot (int (parent E n)) # rest" using assms by (auto simp: dir_start_def)
  moreover have "\<not> live_name dotdot (new_entry dot (int n))" "live_name dotdot (new_entry dotdot (int (parent E n)))"
    by (simp_all add: live_name_def new_entry_def)
  ultimately show ?thesis by (simp add: dir_lookup_def) (simp add: new_entry_def)
qed

lemma path_names_root [simp]: "path_names k E 0 = []"
  by (cases k) simp_all

lemma path_names_nil: "(parent E ^^ k) n = 0 \<Longrightarrow> path_names k E n = [] \<longleftrightarrow> n = 0"
  by (cases k) simp_all

lemma pwd_unfold:
  assumes inv: "fs_inv E fs" and n: "n \<in> dirs fs" and p: "imem fs p = Some inn" "i_nr inn = int n"
  shows "testfs_pwd (Suc stack) fs p = (if parent E n = n then Ok (1, [47], fs)
     else and_then (testfs_get_inode fs (int (parent E n))) (\<lambda>(pp, fs).
           and_then (with_inode fs pp (\<lambda>p_in. testfs_find_dirent (fsb fs) p_in (int n))) (\<lambda>r.
           case r of None \<Rightarrow> Crash AssertFail
           | Some d \<Rightarrow>
               and_then (testfs_pwd stack fs pp) (\<lambda>(ret, out, fs).
               and_then (testfs_put_inode fs pp) (\<lambda>fs.
               and_then (c_str (d_name d)) (\<lambda>name.
                 Ok (0, out @ (if ret = 1 then [] else [47]) @ name, fs)))))))"
proof -
  have "0 \<notin> set dotdot" by simp
  from lookup_in_dir [OF fs_invD(1) [OF inv] p fs_invD(2) [OF inv n] this] lookup_dotdot [OF tree_okD(3) [OF fs_invD(3) [OF inv] n]]
  have "testfs_dir_name_to_inode_nr (fsb fs) inn dotdot = Ok (int (parent E n))" by simp
  then show ?thesis using p by (simp add: with_inode_def testfs_inode_get_nr_def)
qed

lemma pwd_step:
  assumes "fs_inv E fs" and "n \<in> dirs fs" and "imem fs p = Some inn" "i_nr inn = int n" and "\<forall>p inn. imem fs p = Some inn \<longrightarrow> \<not> dirty inn"
    and "(parent E ^^ k) n = 0" and "k < stack"
  shows "\<exists>fs'. testfs_pwd stack fs p = Ok (if n = 0 then 1 else 0, path_text (path_names k E n), fs') \<and> core_inv fs' \<and> fsb fs' = fsb fs \<and> imem fs' = imem fs"
  using assms
proof (induction k arbitrary: n p inn fs stack)
  case 0
  note T = tree_okD [OF fs_invD(3) [OF 0(1)]]
  obtain st where "stack = Suc st" using 0(7) by (cases stack) simp_all
  then show ?case using pwd_unfold [OF 0(1-4), of st] 0(6) T(9) fs_invD(1) [OF 0(1)] by simp
next
  case (Suc k)
  note inv = Suc.prems(1) and T = fs_invD(3) [OF Suc.prems(1)]
  obtain st where st: "stack = Suc st" "k < st" using Suc.prems(7) by (cases stack) simp_all
  show ?case
  proof (cases "n = 0")
    case True
    then show ?thesis using pwd_unfold [OF Suc.prems(1-4), of st] tree_okD(9) [OF T] fs_invD(1) [OF inv] st(1) by simp
  next
    case False
    let ?pn = "parent E n"
    note K = parent_kid [OF T Suc.prems(2) False]
    have pu: "?pn \<in> used_inodes (fsb fs)" using K(2) by (simp add: dirs_def)
    obtain pp inn1 fs1 where G: "testfs_get_inode fs (int ?pn) = Ok (pp, fs1)" "imem fs1 pp = Some inn1" "i_nr inn1 = int ?pn" "core_inv fs1"
      "fsb fs1 = fsb fs" "\<And>m. cur fs1 m = cur fs m" "\<forall>p inn. imem fs1 p = Some inn \<longrightarrow> \<not> dirty inn"
      "\<And>fs2. core_inv fs2 \<Longrightarrow> fsb fs2 = fsb fs1 \<Longrightarrow> imem fs2 = imem fs1 \<Longrightarrow> \<exists>fs3. testfs_put_inode fs2 pp = Ok fs3 \<and> core_inv fs3 \<and> fsb fs3 = fsb fs \<and> imem fs3 = imem fs"
      by (rule get_use_put [OF fs_invD(1) [OF inv] pu Suc.prems(5)], rule that; assumption)
    note same = same_tree [OF inv G(4-6)]
    have d1: "?pn \<in> dirs fs1" using K(2) same(3) by simp
    have up: "(parent E ^^ k) ?pn = 0" using Suc.prems(6) by (simp add: funpow_swap1)
    obtain fs2 where IH: "testfs_pwd st fs1 pp = Ok (if ?pn = 0 then 1 else 0, path_text (path_names k E ?pn), fs2)" "core_inv fs2" "fsb fs2 = fsb fs1" "imem fs2 = imem fs1"
      using Suc.IH [OF same(1) d1 G(2,3,7) up st(2)] by blast
    obtain fs3 where P: "testfs_put_inode fs2 pp = Ok fs3" "core_inv fs3" "fsb fs3 = fsb fs" "imem fs3 = imem fs" using G(8) [OF IH(2-4)] by blast
    obtain d where d: "find (\<lambda>d. d_inode_nr d = int n) (E ?pn) = Some d" "dent_ok d"
      using find_kid [OF fs_invD(2) [OF inv K(2)] K(1) tree_okD(3) [OF T K(2)]] by blast
    have r: "dir_rep (fsb fs1) inn1 ([] @ E ?pn)" using fs_invD(2) [OF same(1) d1] dir_at_rep [OF G(4,2,3)] by simp
    have f: "testfs_find_dirent (fsb fs1) inn1 (int n) = Ok (Some d)"
      using find_from_rep [OF r, of "int n"] dir_repD(3) [OF r] d(1) by (simp add: testfs_find_dirent_def testfs_inode_get_type_def)
    have nm: "c_str (d_name d) = Ok (name_in E ?pn n)" using dent_name [OF d(2)] d(1) by (simp add: name_in_def)
    have "testfs_pwd stack fs p = Ok (0, path_text (path_names k E ?pn) @ (if ?pn = 0 then [] else [47]) @ name_in E ?pn n, fs3)"
      using pwd_unfold [OF Suc.prems(1-4), of st] K(3) st(1) G(1,2) f IH(1) P(1) nm by (simp add: with_inode_def)
    moreover have "path_text (path_names (Suc k) E n) = path_text (path_names k E ?pn) @ (if ?pn = 0 then [] else [47]) @ name_in E ?pn n"
      using False path_names_nil [OF up] by (simp add: path_text_append)
    ultimately show ?thesis using False P(2-4) by simp
  qed
qed

text \<open>Following a path in a tree.\<close>

fun walk :: "(nat \<Rightarrow> node option) \<Rightarrow> nat \<Rightarrow> byte list list \<Rightarrow> int" where
  "walk T n [] = int n"
| "walk T n (nm # ns) = (case T n of Some (Dir f) \<Rightarrow> if f nm < 0 then f nm else walk T (nat (f nm)) ns | _ \<Rightarrow> - ENOTDIR)"

lemma walk_append: "walk T n ns = int m \<Longrightarrow> walk T n (ns @ [nm]) = walk T m [nm]"
  by (induction ns arbitrary: n) (auto simp: ENOTDIR_def split: option.splits node.splits if_splits)

lemma view_dirs: "n \<in> dirs fs \<Longrightarrow> view E fs n = Some (Dir (dir_lookup (E n)))"
  by (simp add: view_def dirs_def)

lemma lookup_name_in:
  assumes dist: "distinct (map d_name (lives ds))" and d: "find (\<lambda>d. d_inode_nr d = int n) ds = Some d" "dent_ok d"
  shows "dir_lookup ds (butlast (d_name d)) = int n"
proof -
  have in_ds: "d \<in> set ds" "d_inode_nr d = int n" using d(1) by (auto simp: find_Some_iff)
  then have dl: "d \<in> set (lives ds)" by (simp add: lives_def)
  have nm: "d_name d = butlast (d_name d) @ [0]" using dent_name [OF d(2)] by blast
  have "find (\<lambda>e. d_name e = butlast (d_name d) @ [0]) (lives ds) \<noteq> None" using dl nm by (auto simp: find_None_iff)
  then obtain e where e: "find (\<lambda>e. d_name e = butlast (d_name d) @ [0]) (lives ds) = Some e" by blast
  then have "e \<in> set (lives ds)" "d_name e = d_name d" using nm by (auto simp: find_Some_iff)
  then have "e = d" using dist dl by (auto simp: distinct_map inj_on_def)
  then show ?thesis using e in_ds(2) by (simp add: dir_lookup_def find_live)
qed

lemma path_resolves:
  assumes inv: "fs_inv E fs"
  shows "n \<in> dirs fs \<Longrightarrow> (parent E ^^ k) n = 0 \<Longrightarrow> walk (view E fs) 0 (path_names k E n) = int n"
proof (induction k arbitrary: n)
  case (Suc k)
  note T = fs_invD(3) [OF inv]
  show ?case
  proof (cases "n = 0")
    case False
    note K = parent_kid [OF T Suc.prems(1) False]
    have up: "(parent E ^^ k) (parent E n) = 0" using Suc.prems(2) by (simp add: funpow_swap1)
    obtain d where d: "find (\<lambda>d. d_inode_nr d = int n) (E (parent E n)) = Some d" "dent_ok d"
      using find_kid [OF fs_invD(2) [OF inv K(2)] K(1) tree_okD(3) [OF T K(2)]] by blast
    from lookup_name_in [OF tree_okD(4) [OF T K(2)] d] walk_append [OF Suc.IH [OF K(2) up]] show ?thesis
      using False d(1) view_dirs [OF K(2), of E] by (simp add: name_in_def)
  qed simp
qed simp

text \<open>No directory is deeper than the number of directories.\<close>

lemma depth_bound:
  assumes tree: "tree_ok U D E" and fin: "finite D" and n: "n \<in> D"
  shows "\<exists>k < card D. (parent E ^^ k) n = 0"
proof -
  let ?P = "\<lambda>k. (parent E ^^ k) n = 0"
  define k where "k = (LEAST k. ?P k)"
  have k: "?P k" "\<And>j. j < k \<Longrightarrow> \<not> ?P j" unfolding k_def using tree_okD(10) [OF tree n] LeastI_ex [of ?P] not_less_Least [of _ ?P] by blast+
  have inj: "inj_on (\<lambda>j. (parent E ^^ j) n) {..k}"
  proof (rule linorder_inj_onI)
    fix i j assume ij: "i < j" "i \<in> {..k}" "j \<in> {..k}"
    show "(parent E ^^ i) n \<noteq> (parent E ^^ j) n"
    proof
      assume eq: "(parent E ^^ i) n = (parent E ^^ j) n"
      have "(parent E ^^ (k - j + i)) n = (parent E ^^ (k - j)) ((parent E ^^ j) n)" by (simp add: funpow_add eq)
      also have "\<dots> = (parent E ^^ k) n" using ij by (simp flip: funpow_add [THEN fun_cong, unfolded o_apply])
      finally have "?P (k - j + i)" using k(1) by simp
      moreover have "k - j + i < k" using ij by auto
      ultimately show False using k(2) by blast
    qed
  qed auto
  have "(\<lambda>j. (parent E ^^ j) n) ` {..k} \<subseteq> D" using parent_iterate [OF tree _ n, of E] by auto
  from card_mono [OF fin this] card_image [OF inj] have "k < card D" by simp
  then show ?thesis using k(1) by blast
qed

section \<open>Listing directories\<close>

text \<open>
  The lines printed for the entries in use of a directory, with the listing of every subdirectory behind its line when \<open>r\<close> is set; \<open>k\<close> bounds the depth.
\<close>

definition entry_line :: "nat set \<Rightarrow> dirent \<Rightarrow> byte list" where
  "entry_line D d = butlast (d_name d) @ (if nat (d_inode_nr d) \<in> D then [47] else []) @ [10]"

definition subdir :: "nat set \<Rightarrow> dirent \<Rightarrow> bool" where
  "subdir D d \<longleftrightarrow> nat (d_inode_nr d) \<in> D \<and> d_name d \<noteq> dot @ [0] \<and> d_name d \<noteq> dotdot @ [0]"

fun listing :: "nat \<Rightarrow> bool \<Rightarrow> nat set \<Rightarrow> (nat \<Rightarrow> dirent list) \<Rightarrow> nat \<Rightarrow> byte list" where
  "listing 0 r D E n = []"
| "listing (Suc k) r D E n =
     concat (map (\<lambda>d. entry_line D d @ (if r \<and> subdir D d then listing k r D E (nat (d_inode_nr d)) else [])) (lives (E n)))"

definition all_clean :: "fs_state \<Rightarrow> bool" where
  "all_clean fs \<longleftrightarrow> (\<forall>p inn. imem fs p = Some inn \<longrightarrow> \<not> dirty inn)"

text \<open>With fuel \<open>N\<close> the listing of \<open>n\<close> is printed from every state, and the state is the same afterwards.\<close>

definition ls_done :: "nat set \<Rightarrow> (nat \<Rightarrow> dirent list) \<Rightarrow> bool \<Rightarrow> nat \<Rightarrow> nat \<Rightarrow> byte list \<Rightarrow> dirent list \<Rightarrow> bool" where
  "ls_done D E r N n out us \<longleftrightarrow> (\<forall>fs p inn fuel. fs_inv E fs \<and> dirs fs = D \<and> imem fs p = Some inn \<and> i_nr inn = int n \<and> all_clean fs \<and> N \<le> fuel \<longrightarrow>
     (\<exists>fs'. testfs_ls fuel r fs p (int (off us)) = Ok (out, fs') \<and> core_inv fs' \<and> fsb fs' = fsb fs \<and> imem fs' = imem fs))"

lemma ls_done_mono:
  assumes "ls_done D E r N n out us" and "N \<le> M"
  shows "ls_done D E r M n out us"
  unfolding ls_done_def
proof (intro allI impI, elim conjE)
  fix fs p inn fuel
  assume "fs_inv E fs" "dirs fs = D" "imem fs p = Some inn" "i_nr inn = int n" "all_clean fs" "M \<le> fuel"
  then show "\<exists>fs'. testfs_ls fuel r fs p (int (off us)) = Ok (out, fs') \<and> core_inv fs' \<and> fsb fs' = fsb fs \<and> imem fs' = imem fs"
    using assms(1) [unfolded ls_done_def, rule_format, of fs p inn fuel] assms(2) by simp
qed

lemma same_mem:
  assumes "fs_inv E fs" and "core_inv fs'" and "fsb fs' = fsb fs" and "imem fs' = imem fs"
  shows "fs_inv E fs'" "dirs fs' = dirs fs"
  using same_tree [OF assms(1-3) cur_cong [OF assms(3,4)]] by simp_all

lemma ls_entries:
  assumes n: "n \<in> D" and sub: "\<forall>d \<in> set vs. r \<and> 0 \<le> d_inode_nr d \<and> subdir D d \<longrightarrow> ls_done D E r N (nat (d_inode_nr d)) (listing k r D E (nat (d_inode_nr d))) []"
  shows "E n = us @ vs \<Longrightarrow>
    ls_done D E r (N + Suc (length vs)) n (concat (map (\<lambda>d. entry_line D d @ (if r \<and> subdir D d then listing k r D E (nat (d_inode_nr d)) else [])) (lives vs))) us"
  using sub
proof (induction vs arbitrary: us)
  case Nil
  show ?case
    unfolding ls_done_def
  proof (intro allI impI)
    fix fs p inn fuel
    assume H: "fs_inv E fs \<and> dirs fs = D \<and> imem fs p = Some inn \<and> i_nr inn = int n \<and> all_clean fs \<and> N + Suc (length ([] :: dirent list)) \<le> fuel"
    have r: "dir_rep (fsb fs) inn (us @ [])" using fs_invD(2) [of E fs n] dir_at_rep [OF fs_invD(1) [of E fs], of p inn n] H n Nil(1) by simp
    obtain f where "fuel = Suc f" using H by (cases fuel) simp_all
    then show "\<exists>fs'. testfs_ls fuel r fs p (int (off us)) = Ok (concat (map (\<lambda>d. entry_line D d @ (if r \<and> subdir D d then listing k r D E (nat (d_inode_nr d)) else [])) (lives [])), fs') \<and>
       core_inv fs' \<and> fsb fs' = fsb fs \<and> imem fs' = imem fs"
      using next_dirent_rep [OF r] H fs_invD(1) [of E fs] by (simp add: with_inode_def)
  qed
next
  case (Cons d vs)
  let ?out = "\<lambda>ds. concat (map (\<lambda>d. entry_line D d @ (if r \<and> subdir D d then listing k r D E (nat (d_inode_nr d)) else [])) (lives ds))"
  have IH: "ls_done D E r (N + Suc (length vs)) n (?out vs) (us @ [d])" using Cons.IH [of "us @ [d]"] Cons.prems by simp
  show ?case
    unfolding ls_done_def
  proof (intro allI impI)
    fix fs p inn fuel
    assume H: "fs_inv E fs \<and> dirs fs = D \<and> imem fs p = Some inn \<and> i_nr inn = int n \<and> all_clean fs \<and> N + Suc (length (d # vs)) \<le> fuel"
    then have inv: "fs_inv E fs" and D: "dirs fs = D" and p: "imem fs p = Some inn" "i_nr inn = int n" and cl: "all_clean fs" and fl: "N + Suc (length (d # vs)) \<le> fuel" by simp_all
    have nd: "n \<in> dirs fs" using n D by simp
    have r: "dir_rep (fsb fs) inn (us @ d # vs)" using fs_invD(2) [OF inv nd] dir_at_rep [OF fs_invD(1) [OF inv] p] Cons.prems(1) by simp
    obtain f where f: "fuel = Suc f" "N + Suc (length vs) \<le> f" using fl by (cases fuel) simp_all
    note nx = next_dirent_rep [OF r]
    have dok: "dent_ok d" using fs_invD(2) [OF inv nd] Cons.prems(1) by (simp add: dir_at_def)
    have rest: "\<exists>fs'. testfs_ls f r fs3 p (int (off (us @ [d]))) = Ok (?out vs, fs') \<and> core_inv fs' \<and> fsb fs' = fsb fs \<and> imem fs' = imem fs"
      if h: "core_inv fs3" "fsb fs3 = fsb fs" "imem fs3 = imem fs" for fs3
      using IH [unfolded ls_done_def, rule_format, of fs3 p inn f] same_mem [OF inv h] p cl h f(2) D by (simp add: all_clean_def)
    show "\<exists>fs'. testfs_ls fuel r fs p (int (off us)) = Ok (?out (d # vs), fs') \<and> core_inv fs' \<and> fsb fs' = fsb fs \<and> imem fs' = imem fs"
    proof (cases "d_inode_nr d < 0")
      case True
      then show ?thesis using rest [OF fs_invD(1) [OF inv]] nx p f(1) by (simp add: with_inode_def del: off_simps)
    next
      case False
      let ?m = "nat (d_inode_nr d)"
      have m: "d_inode_nr d = int ?m" using False by simp
      have mu: "?m \<in> used_inodes (fsb fs)" using dir_entry_used [OF inv nd] Cons.prems(1) False by simp
      obtain q inn1 fs1 where G: "testfs_get_inode fs (int ?m) = Ok (q, fs1)" "imem fs1 q = Some inn1" "i_nr inn1 = int ?m" "din inn1 = cur fs ?m" "core_inv fs1"
        "fsb fs1 = fsb fs" "\<And>m. cur fs1 m = cur fs m" "\<forall>p inn. imem fs1 p = Some inn \<longrightarrow> \<not> dirty inn"
        "\<And>fs2. core_inv fs2 \<Longrightarrow> fsb fs2 = fsb fs1 \<Longrightarrow> imem fs2 = imem fs1 \<Longrightarrow> \<exists>fs3. testfs_put_inode fs2 q = Ok fs3 \<and> core_inv fs3 \<and> fsb fs3 = fsb fs \<and> imem fs3 = imem fs"
        by (rule get_use_put [OF fs_invD(1) [OF inv] mu cl [unfolded all_clean_def]], rule that; assumption)
      note same = same_tree [OF inv G(5-7)]
      have isdir: "i_type (din inn1) = int_of_type I_DIR \<longleftrightarrow> ?m \<in> D" using mu G(4) D by (auto simp: dirs_def)
      let ?sub = "if r \<and> subdir D d then listing k r D E ?m else []"
      have sub: "\<exists>fs2. (if \<not> (r \<and> subdir D d) then Ok ([], fs1) else testfs_ls f r fs1 q 0) = Ok (?sub, fs2) \<and> core_inv fs2 \<and> fsb fs2 = fsb fs1 \<and> imem fs2 = imem fs1"
      proof (cases "r \<and> subdir D d")
        case True
        then have "ls_done D E r N ?m (listing k r D E ?m) []" using Cons.prems(2) False by simp
        from this [unfolded ls_done_def, rule_format, of fs1 q inn1 f] True show ?thesis using same D G(2,3,8) f(2) by (simp add: all_clean_def off_def)
      qed (use G(5) in auto)
      then obtain fs2 where S: "(if \<not> (r \<and> subdir D d) then Ok ([], fs1) else testfs_ls f r fs1 q 0) = Ok (?sub, fs2)" "core_inv fs2" "fsb fs2 = fsb fs1" "imem fs2 = imem fs1" by blast
      obtain fs3 where P: "testfs_put_inode fs2 q = Ok fs3" "core_inv fs3" "fsb fs3 = fsb fs" "imem fs3 = imem fs" using G(9) [OF S(2-4)] by blast
      obtain fs4 where R: "testfs_ls f r fs3 p (int (off (us @ [d]))) = Ok (?out vs, fs4)" "core_inv fs4" "fsb fs4 = fsb fs" "imem fs4 = imem fs" using rest [OF P(2-4)] by blast
      have skip: "or_else (Ok (\<not> r \<or> ?m \<notin> D)) (is_dots d) = Ok (\<not> (r \<and> subdir D d))"
        using is_dots_rep [OF dok] by (auto simp: or_else_def subdir_def)
      have "testfs_ls fuel r fs p (int (off us)) = Ok (butlast (d_name d) @ (if ?m \<in> D then [47] else []) @ [10] @ ?sub @ ?out vs, fs4)"
      proof -
        have step: "testfs_ls fuel r fs p (int (off us)) =
           and_then (if \<not> (r \<and> subdir D d) then Ok ([], fs1) else testfs_ls f r fs1 q 0) (\<lambda>(sub, fs).
             and_then (testfs_put_inode fs q) (\<lambda>fs.
             and_then (testfs_ls f r fs p (int (off (us @ [d])))) (\<lambda>(rest, fs).
               Ok (butlast (d_name d) @ (if ?m \<in> D then [47] else []) @ [10] @ sub @ rest, fs))))"
          unfolding f(1) testfs_ls.simps using nx p(1) False G(1,2) isdir skip dent_name [OF dok]
          by (simp add: with_inode_def testfs_inode_get_type_def del: off_simps)
        show ?thesis unfolding step S(1) using P(1) R(1) by (simp del: off_simps)
      qed
      then show ?thesis using R(2-4) False by (simp add: entry_line_def)
    qed
  qed
qed

text \<open>The tree is less deep than it has directories, so the recursion ends.\<close>

fun low :: "nat set \<Rightarrow> (nat \<Rightarrow> dirent list) \<Rightarrow> nat \<Rightarrow> nat \<Rightarrow> bool" where
  "low D E 0 n = False"
| "low D E (Suc k) n = (\<forall>c \<in> set (kids E n) \<inter> D. low D E k c)"

lemma not_low:
  assumes tree: "tree_ok U D E"
  shows "n \<in> D \<Longrightarrow> \<not> low D E k n \<Longrightarrow> \<exists>c \<in> D. (parent E ^^ k) c = n \<and> (\<forall>j < k. (parent E ^^ j) c \<noteq> 0)"
proof (induction k arbitrary: n)
  case (Suc k)
  then obtain c' where c': "c' \<in> set (kids E n)" "c' \<in> D" "\<not> low D E k c'" by auto
  note T = tree_okD [OF tree]
  from Suc.IH [OF c'(2,3)] obtain c where c: "c \<in> D" "(parent E ^^ k) c = c'" "\<And>j. j < k \<Longrightarrow> (parent E ^^ j) c \<noteq> 0" by blast
  have "c' \<noteq> 0" using T(6) [OF Suc.prems(1) c'(1)] by simp
  then have "(parent E ^^ j) c \<noteq> 0" if "j < Suc k" for j using that c(2,3) by (cases "j = k") auto
  moreover have "(parent E ^^ Suc k) c = n" using c(2) T(8) [OF Suc.prems(1) c'(2,1)] by simp
  ultimately show ?case using c(1) by blast
qed auto

lemma low_card:
  assumes tree: "tree_ok U D E" and fin: "finite D" and n: "n \<in> D"
  shows "low D E (card D) n"
proof (rule ccontr)
  assume "\<not> ?thesis"
  from not_low [OF tree n this] obtain c where c: "c \<in> D" "\<And>j. j < card D \<Longrightarrow> (parent E ^^ j) c \<noteq> 0" by blast
  from depth_bound [OF tree fin c(1)] c(2) show False by blast
qed

lemma subdir_kid:
  assumes "dir_start E n" and "d \<in> set (E n)" and "0 \<le> d_inode_nr d" and "subdir D d"
  shows "nat (d_inode_nr d) \<in> set (kids E n)"
proof -
  from assms(1) obtain rest where R: "E n = new_entry dot (int n) # new_entry dotdot (int (parent E n)) # rest"
    "kids E n = map (\<lambda>d. nat (d_inode_nr d)) (lives rest)" by (rule dir_start_kids)
  have "d \<noteq> new_entry dot (int n)" "d \<noteq> new_entry dotdot (int (parent E n))" using assms(4) by (auto simp: subdir_def new_entry_def)
  then have "d \<in> set (lives rest)" using assms(2,3) R(1) by (auto simp: lives_def)
  then show ?thesis using R(2) by simp
qed

lemma entries_bound:
  assumes "fs_inv E fs" and "n \<in> dirs fs"
  shows "off (E n) < 2 ^ 31" "length (E n) < 2 ^ 31"
proof -
  have d: "dir_at fs n (E n)" by (rule fs_invD(2) [OF assms])
  have u: "n \<in> used_inodes (fsb fs)" using assms(2) by (simp add: dirs_def)
  have "file_ok (fsb fs) (cur fs n)" by (rule core_invD(4) [OF fs_invD(1) [OF assms(1)] u])
  then have "int (length (file_bytes (dev (fsb fs)) (cur fs n))) = i_size (cur fs n)" by (intro length_file_bytes) (simp add: file_ok_def)
  then show o: "off (E n) < 2 ^ 31" using d by (simp add: dir_at_def off_def)
  have "length ds \<le> off ds" for ds by (induction ds) simp_all
  from le_less_trans [OF this o] show "length (E n) < 2 ^ 31" .
qed

lemma ls_recursive:
  assumes tree: "tree_ok U D E" and len: "\<And>m. m \<in> D \<Longrightarrow> length (E m) < L"
  shows "n \<in> D \<Longrightarrow> low D E k n \<Longrightarrow> ls_done D E True (k * L) n (listing k True D E n) []"
proof (induction k arbitrary: n)
  case (Suc k)
  have "ls_done D E True (k * L) (nat (d_inode_nr d)) (listing k True D E (nat (d_inode_nr d))) []"
    if d: "d \<in> set (E n)" "True \<and> 0 \<le> d_inode_nr d \<and> subdir D d" for d
  proof -
    have "nat (d_inode_nr d) \<in> set (kids E n)" "nat (d_inode_nr d) \<in> D" using d subdir_kid [OF tree_okD(3) [OF tree Suc.prems(1)]] by (auto simp: subdir_def)
    then show ?thesis using Suc.IH Suc.prems(2) by simp
  qed
  then have "ls_done D E True (k * L + Suc (length (E n))) n (listing (Suc k) True D E n) []"
    unfolding listing.simps by (intro ls_entries [OF Suc.prems(1)]) blast+
  then show ?case by (rule ls_done_mono) (use len [OF Suc.prems(1)] in simp)
qed simp

lemma ls_flat:
  assumes "n \<in> D"
  shows "ls_done D E False (Suc (length (E n))) n (listing (Suc 0) False D E n) []"
proof -
  have sub: "\<forall>d \<in> set (E n). False \<and> 0 \<le> d_inode_nr d \<and> subdir D d \<longrightarrow> ls_done D E False 0 (nat (d_inode_nr d)) (listing 0 False D E (nat (d_inode_nr d))) []" by simp
  from ls_entries [where us = "[]" and k = 0, OF assms sub] show ?thesis by simp
qed

lemma finite_dirs: "core_inv fs \<Longrightarrow> finite (dirs fs)"
  by (rule finite_subset [of _ "{..<NR_INODES}"]) (auto simp: dirs_def dest: core_invD(3))

definition list_depth :: "bool \<Rightarrow> nat set \<Rightarrow> nat" where
  "list_depth r D = (if r then card D else 1)"

text \<open>There are at most \<open>NR_INODES\<close> directories, each with fewer than \<open>2\<^sup>3\<^sup>1\<close> entries: as many steps are enough for every listing.\<close>

definition ls_fuel :: nat where
  "ls_fuel = NR_INODES * 2 ^ 31"

lemma card_dirs:
  assumes "core_inv fs"
  shows "card (dirs fs) \<le> NR_INODES"
proof -
  have "dirs fs \<subseteq> {..<NR_INODES}" using core_invD(3) [OF assms] by (auto simp: dirs_def)
  from card_mono [OF _ this] show ?thesis by simp
qed

lemma ls_total:
  assumes inv: "fs_inv E fs" and n: "n \<in> dirs fs"
  shows "ls_done (dirs fs) E r ls_fuel n (listing (list_depth r (dirs fs)) r (dirs fs) E n) []"
proof (cases r)
  case True
  note T = fs_invD(3) [OF inv] and core = fs_invD(1) [OF inv]
  have "ls_done (dirs fs) E True (card (dirs fs) * 2 ^ 31) n (listing (card (dirs fs)) True (dirs fs) E n) []"
    by (rule ls_recursive [OF T entries_bound(2) [OF inv] n low_card [OF T finite_dirs [OF core] n]])
  moreover have "card (dirs fs) * 2 ^ 31 \<le> ls_fuel" unfolding ls_fuel_def by (intro mult_right_mono card_dirs core) simp
  ultimately show ?thesis using True by (simp add: list_depth_def ls_done_mono)
next
  case False
  have "Suc (length (E n)) \<le> ls_fuel" using entries_bound(2) [OF inv n] by (simp add: ls_fuel_def NR_INODES_def)
  from ls_done_mono [OF ls_flat [OF n, of E] this] show ?thesis using False by (simp add: list_depth_def)
qed

text \<open>
  Listing the name of a file leaves the inode it got in memory. Ending the session in such a state stops at an assertion.
\<close>

definition leaks :: "session \<Rightarrow> bool" where
  "leaks s \<longleftrightarrow> (\<exists>fs. testfs_put_inode (s_fs s) (cur_dir (s_ctx s)) = Ok fs \<and> testfs_close_super_block fs = Crash AssertFail)"

lemma cmd_ls_step:
  assumes ok: "shell_ok E dn s" and a: "args_are s [c, nm]" and fuel: "ls_fuel \<le> fuel"
  shows "\<exists>ret s'. cmd_ls_internal fuel r s = Ok (ret, s') \<and>
     (if dir_lookup (E dn) nm < 0 then ret = - ENOENT \<and> s' = s
      else case tree E s (nat (dir_lookup (E dn) nm)) of
          Some (Dir f) \<Rightarrow> ret = 0 \<and> shell_ok E dn s' \<and> tree E s' = tree E s \<and>
            s_out s' = s_out s @ listing (list_depth r (dirs (s_fs s))) r (dirs (s_fs s)) E (nat (dir_lookup (E dn) nm))
        | _ \<Rightarrow> ret = - ENOTDIR \<and> s_out s' = s_out s \<and> leaks s')"
  using ok
proof (cases rule: lookup_cases [where nm = nm])
  case missing
  then show ?thesis using args_are_nargs [OF a] args_are_nul [OF a, of 1] lookup_cur_ok [OF ok] by (simp add: cmd_ls_internal_def args_are_arg [OF a])
next
  case (found n)
  let ?fs = "s_fs s"
  obtain dinn where S: "core_inv ?fs" "fs_inv E ?fs" "dn \<in> dirs ?fs" "imem ?fs = [cur_dir (s_ctx s) \<mapsto> dinn]" using ok by (rule shell_okE)
  have cl: "\<forall>p inn. imem ?fs p = Some inn \<longrightarrow> \<not> dirty inn" using shell_ok_clean [OF ok] by blast
  obtain p inn fs1 where G: "testfs_get_inode ?fs (int n) = Ok (p, fs1)" "imem fs1 p = Some inn" "i_nr inn = int n" "din inn = cur ?fs n" "core_inv fs1"
    "fsb fs1 = fsb ?fs" "\<And>m. cur fs1 m = cur ?fs m" "\<forall>p inn. imem fs1 p = Some inn \<longrightarrow> \<not> dirty inn"
    "\<And>fs2. core_inv fs2 \<Longrightarrow> fsb fs2 = fsb fs1 \<Longrightarrow> imem fs2 = imem fs1 \<Longrightarrow> \<exists>fs3. testfs_put_inode fs2 p = Ok fs3 \<and> core_inv fs3 \<and> fsb fs3 = fsb ?fs \<and> imem fs3 = imem ?fs"
    by (rule get_use_put [OF S(1) found(2) cl], rule that; assumption)
  note same = same_tree [OF S(2) G(5-7)]
  have run: "cmd_ls_internal fuel r s = (if i_type (cur ?fs n) = int_of_type I_DIR
      then and_then (testfs_ls fuel r fs1 p 0) (\<lambda>(out, fs). and_then (testfs_put_inode fs p) (\<lambda>fs. Ok (0, print out (set_fs fs s))))
      else Ok (- ENOTDIR, set_fs fs1 s))"
    using args_are_nargs [OF a] args_are_nul [OF a, of 1] lookup_cur_ok [OF ok] found(1) G(1,2,4)
    by (simp add: cmd_ls_internal_def args_are_arg [OF a] with_inode_def testfs_inode_get_type_def)
  show ?thesis
  proof (cases "i_type (cur ?fs n) = int_of_type I_DIR")
    case True
    have nd: "n \<in> dirs ?fs" using True found(2) by (simp add: dirs_def)
    obtain f where v: "tree E s n = Some (Dir f)" using view_type [OF found(2)] True by blast
    note N = ls_total [OF S(2) nd, of r]
    obtain fs2 where L: "testfs_ls fuel r fs1 p 0 = Ok (listing (list_depth r (dirs ?fs)) r (dirs ?fs) E n, fs2)" "core_inv fs2" "fsb fs2 = fsb fs1" "imem fs2 = imem fs1"
      using N [unfolded ls_done_def, rule_format, of fs1 p inn fuel] same G(2,3,8) fuel by (auto simp: all_clean_def off_def)
    obtain fs3 where P: "testfs_put_inode fs2 p = Ok fs3" "core_inv fs3" "fsb fs3 = fsb ?fs" "imem fs3 = imem ?fs" using G(9) [OF L(2-4)] by blast
    let ?s = "print (listing (list_depth r (dirs ?fs)) r (dirs ?fs) E n) (set_fs fs3 s)"
    have "cmd_ls_internal fuel r s = Ok (0, ?s)" using run True L(1) P(1) by simp
    moreover have "shell_ok E dn ?s" "tree E ?s = tree E s" using shell_ok_same [OF ok P(2-4) cur_cong [OF P(3,4)], of ?s] by simp_all
    ultimately show ?thesis using v found(1) by (intro exI [of _ 0] exI [of _ ?s]) simp
  next
    case False
    have v: "tree E s n = Some (File (file_bytes (dev (fsb ?fs)) (cur ?fs n)))" using found(2) False by (simp add: view_def)
    note L = shell_get_file [OF ok found(2) False]
    let ?p = "cur_dir (s_ctx s)"
    have ne: "inext ?fs \<noteq> ?p" and new: "fs1 = loaded ?fs (fresh_inode (fsb ?fs) n)" using G(1) L(2,3) by simp_all
    have d: "imem fs1 ?p = Some dinn" "\<not> dirty dinn" using S(4) ne cl by (simp_all add: new loaded_def)
    obtain fs2 where P: "testfs_put_inode fs1 ?p = Ok fs2" "core_inv fs2" "\<And>q. q \<noteq> ?p \<Longrightarrow> imem fs2 q = imem fs1 q"
      by (rule put_inode_core [OF G(5) d], rule that; assumption)
    have "imem fs2 (inext ?fs) = Some (fresh_inode (fsb ?fs) n)" using P(3) [OF ne] by (simp add: new loaded_def)
    then have "leaks (set_fs fs1 s)" using P(1) close_leak [OF P(2)] by (simp add: leaks_def)
    then show ?thesis using run False v found(1) by simp
  qed
qed

section \<open>Starting and ending a session\<close>

lemma shell_start:
  assumes inv: "fs_inv E fs" and mem: "imem fs = (\<lambda>_. None)"
  obtains p fs1 where "testfs_get_inode fs 0 = Ok (p, fs1)" "\<And>s :: session. s_fs s = fs1 \<Longrightarrow> cur_dir (s_ctx s) = p \<Longrightarrow> shell_ok E 0 s \<and> tree E s = view E fs \<and> dirs (s_fs s) = dirs fs" "fsb fs1 = fsb fs"
proof -
  note core = fs_invD(1) [OF inv] and T = tree_okD [OF fs_invD(3) [OF inv]]
  have z: "0 \<in> dirs fs" "0 \<in> used_inodes (fsb fs)" using T(1,2) by auto
  obtain p inn fs1 where G: "testfs_get_inode fs (int 0) = Ok (p, fs1)" "imem fs1 p = Some inn" "i_nr inn = int 0" "core_inv fs1"
    "fsb fs1 = fsb fs" "\<And>m. cur fs1 m = cur fs m" "\<And>q. q \<noteq> p \<Longrightarrow> imem fs1 q = imem fs q"
    "imem fs p = Some (inn\<lparr>i_count := i_count inn - 1\<rparr>) \<and> fs1 = set_inode p inn fs \<or>
     p = inext fs \<and> imem fs p = None \<and> uncached fs (int 0) \<and> inn = fresh_inode (fsb fs) 0 \<and> fs1 = loaded fs inn"
    by (rule get_inode_core [OF core z(2)], rule that; assumption)
  have i: "i_count inn = 1" "\<not> dirty inn" using G(8) mem by (auto simp: fresh_inode_def dirty_def)
  have "imem fs1 q = [p \<mapsto> inn] q" for q using G(2) G(7) [of q] mem by (cases "q = p") simp_all
  then have m: "imem fs1 = [p \<mapsto> inn]" by (rule ext)
  note S = same_tree [OF inv G(4-6)]
  show thesis
  proof (rule that [of p fs1])
    show "testfs_get_inode fs 0 = Ok (p, fs1)" using G(1) by simp
    fix s :: session assume s: "s_fs s = fs1" "cur_dir (s_ctx s) = p"
    show "shell_ok E 0 s \<and> tree E s = view E fs \<and> dirs (s_fs s) = dirs fs"
      unfolding shell_ok_def s using S z(1) m G(3) i by (intro conjI exI [of _ inn]) simp_all
  qed (rule G(5))
qed

lemma shell_stop:
  assumes ok: "shell_ok E dn s"
  obtains fs' where "testfs_put_inode (s_fs s) (cur_dir (s_ctx s)) = Ok fs'" "fs_inv E fs'" "imem fs' = (\<lambda>_. None)" "view E fs' = tree E s" "fsb fs' = fsb (s_fs s)"
    "testfs_close_super_block fs' = Ok (dev (fsb (s_fs s)))"
proof -
  let ?p = "cur_dir (s_ctx s)"
  obtain inn where S: "core_inv (s_fs s)" "fs_inv E (s_fs s)" "dn \<in> dirs (s_fs s)" "imem (s_fs s) = [?p \<mapsto> inn]" "imem (s_fs s) ?p = Some inn" "i_nr inn = int dn" "i_count inn = 1" "\<not> dirty inn"
    using ok by (rule shell_okE)
  obtain fs' where P: "testfs_put_inode (s_fs s) ?p = Ok fs'" "core_inv fs'" "fsb fs' = fsb (s_fs s)" "\<And>m. cur fs' m = cur (s_fs s) m" "\<And>q. q \<noteq> ?p \<Longrightarrow> imem fs' q = imem (s_fs s) q"
    "imem fs' ?p = (if i_count inn = 1 then None else Some (inn\<lparr>i_count := i_count inn - 1\<rparr>))"
    by (rule put_inode_core [OF S(1,5,8)], rule that; assumption)
  have "imem fs' q = None" for q using P(5) [of q] P(6) S(4,7) by (cases "q = ?p") simp_all
  then have m: "imem fs' = (\<lambda>_. None)" by (rule ext)
  note T = same_tree [OF S(2) P(2-4)]
  show thesis using close_eq [OF P(2) m] P(3) by (intro that [OF P(1) T(1) m T(2)]) simp_all
qed

text \<open>A session in the root of a new file system, for concrete inputs.\<close>

definition root_entries :: "nat \<Rightarrow> dirent list" where
  "root_entries = (\<lambda>_. [new_entry dot 0, new_entry dotdot 0])"

lemma sample_session:
  assumes "\<forall>x \<in> set xs. 0 \<notin> set x"
  obtains s where "shell_ok root_entries 0 s" "args_are s xs" "tree root_entries s = [0 \<mapsto> fresh_node I_DIR 0 0]" "s_out s = []" "max_fs_blocks (dsb (fsb (s_fs s))) = 8"
proof -
  obtain fs where F: "imem fs = (\<lambda>_. None)" "fs_inv root_entries fs" "view root_entries fs = [0 \<mapsto> fresh_node I_DIR 0 0]" "max_fs_blocks (dsb (fsb fs)) = 8"
    unfolding root_entries_def by (rule make_root_step [of 8]) (simp, blast)
  obtain p fs1 where G: "testfs_get_inode fs 0 = Ok (p, fs1)"
    "\<And>s :: session. s_fs s = fs1 \<Longrightarrow> cur_dir (s_ctx s) = p \<Longrightarrow> shell_ok root_entries 0 s \<and> tree root_entries s = view root_entries fs \<and> dirs (s_fs s) = dirs fs" "fsb fs1 = fsb fs"
    using shell_start [OF F(2,1)] by blast
  let ?s = "\<lparr>s_fs = fs1, s_ctx = \<lparr>nargs = length xs, cmd = map Some xs, cur_dir = p\<rparr>, can_quit = False, s_out = [], s_err = []\<rparr>"
  show thesis by (rule that [of ?s]) (use G(2) [of ?s] G(3) F(3,4) assms in \<open>simp_all add: args_are_def\<close>)
qed

lemma root_lookup: "dir_lookup (root_entries n) nm = (if nm = dot \<or> nm = dotdot then 0 else - ENOENT)"
  by (auto simp: root_entries_def dir_lookup_def live_name_def new_entry_def)

section \<open>Printing the current directory\<close>

lemma cmd_pwd_step:
  assumes ok: "shell_ok E dn s" and a: "args_are s [c]" and st: "NR_INODES \<le> stack"
  obtains ns s' where "cmd_pwd stack s = Ok (0, s')" "shell_ok E dn s'" "tree E s' = tree E s" "s_out s' = s_out s @ path_text ns @ [10]" "walk (tree E s) 0 ns = int dn"
    "dirs (s_fs s') = dirs (s_fs s)"
proof -
  let ?fs = "s_fs s"
  obtain inn where S: "core_inv ?fs" "fs_inv E ?fs" "dn \<in> dirs ?fs" "imem ?fs = [cur_dir (s_ctx s) \<mapsto> inn]" "imem ?fs (cur_dir (s_ctx s)) = Some inn" "i_nr inn = int dn"
    using ok by (rule shell_okE)
  obtain k where k: "k < card (dirs ?fs)" "(parent E ^^ k) dn = 0" using depth_bound [OF fs_invD(3) [OF S(2)] finite_dirs [OF S(1)] S(3)] by blast
  have cl: "\<forall>p inn. imem ?fs p = Some inn \<longrightarrow> \<not> dirty inn" using shell_ok_clean [OF ok] by blast
  have "k < stack" using k(1) card_dirs [OF S(1)] st by linarith
  from pwd_step [OF S(2,3,5,6) cl k(2) this] obtain fs' where
    P: "testfs_pwd stack ?fs (cur_dir (s_ctx s)) = Ok (if dn = 0 then 1 else 0, path_text (path_names k E dn), fs')" "core_inv fs'" "fsb fs' = fsb ?fs" "imem fs' = imem ?fs" by blast
  note C = cur_cong [OF P(3,4)]
  let ?s = "print (path_text (path_names k E dn) @ [10]) (set_fs fs' s)"
  have "cmd_pwd stack s = Ok (0, ?s)" using args_are_nargs [OF a] P(1) by (simp add: cmd_pwd_def)
  moreover have "shell_ok E dn ?s" "tree E ?s = tree E s" using shell_ok_same [OF ok P(2-4) C, of ?s] by simp_all
  moreover have "dirs fs' = dirs ?fs" using same_tree(3) [OF S(2) P(2,3) C] .
  ultimately show thesis using path_resolves [OF S(2,3) k(2)] by (intro that [of ?s "path_names k E dn"]) simp_all
qed

end
