(* ===== verification/FS_CmdProps.thy ===== *)
theory FS_CmdProps
  imports FS_List
begin

text \<open>
  What each command of the shell does to the tree and what it prints, as properties of the commands of \<^verbatim>\<open>fs/dir.c\<close> and \<^verbatim>\<open>fs/file.c\<close>, with a session on a new file system that has one file as the concrete input.
\<close>

unbundle bit_operations_syntax

section \<open>A session with a file\<close>

lemma small_files_blocks:
  assumes core: "core_inv fs" and small: "\<And>m. m \<in> used_inodes (fsb fs) \<Longrightarrow> i_size (cur fs m) \<le> int BLOCK_SIZE"
  shows "card (used_blocks (fsb fs)) \<le> card (used_inodes (fsb fs))"
proof -
  let ?U = "used_inodes (fsb fs)" and ?o = "\<lambda>m. owned (dev (fsb fs)) (cur fs m)"
  have fin: "finite ?U" by (rule finite_subset [of _ "{..<NR_INODES}"]) (auto dest: core_invD(3) [OF core])
  have "card (\<Union>m \<in> ?U. ?o m) \<le> (\<Sum>m \<in> ?U. card (?o m))" by (rule card_UN_le [OF fin])
  also have "\<dots> \<le> (\<Sum>m \<in> ?U. 1)" by (rule sum_mono) (rule small_file_owned [OF core_invD(4) [OF core] small])
  finally show ?thesis using core_invD(9) [OF core] by (simp del: card_used_blocks)
qed

text \<open>In a new file system there is room for the first file.\<close>

lemma create_file_fits:
  assumes core: "core_inv fs" and dp: "imem fs dp = Some dinn" "i_nr dinn = 0" and d: "dir_at fs 0 ds" and used: "used_inodes (fsb fs) = {0}" and m: "max_fs_blocks (dsb (fsb fs)) = 8"
    and nm: "0 \<notin> set nm" "off ds + length nm + 9 \<le> BLOCK_SIZE" and r: "testfs_create_file_or_dir fs (Some dp) I_FILE nm = Ok (ret, fs')"
  shows "ret \<noteq> - ENOSPC"
proof (cases "0 \<le> dir_lookup ds nm")
  case True
  then show ?thesis using lookup_in_dir [OF core dp(1) _ d nm(1)] dp r by (simp add: testfs_create_file_or_dir_def with_inode_def EEXIST_def ENOSPC_def)
next
  case False
  have look: "testfs_dir_name_to_inode_nr (fsb fs) dinn nm = Ok (dir_lookup ds nm)" using lookup_in_dir [OF core dp(1) _ d nm(1)] dp(2) by simp
  have "I_FILE \<noteq> I_NONE" by simp
  from core this show ?thesis
  proof (cases rule: create_inode_core)
    case (full fs1)
    have "1 < NR_INODES" by (simp add: NR_INODES_def)
    then have "1 \<in> {..<NR_INODES}" by (simp only: lessThan_iff)
    then have "1 \<in> {0 :: nat}" unfolding full(2) [symmetric] used .
    then show ?thesis by simp
  next
    case (found nr p inn fs1)
    have "nr \<notin> {0}" using found(2) unfolding used .
    moreover have "p \<noteq> dp" using found(7) dp(1) by auto
    ultimately have nz: "nr \<noteq> 0" "p \<noteq> dp" by simp_all
    have p1: "imem fs1 p = Some inn" "i_nr inn = int nr" and dp1: "imem fs1 dp = Some dinn" using found(8,9) dp(1) nz by simp_all
    have k1: "keeps {} fs fs1" using found(6,10,11) by (intro keepsI) auto
    have d1: "dir_at fs1 0 ds" using dir_at_keeps [OF k1 _ d] by simp
    have u1: "used_inodes (fsb fs1) = {0, nr}" unfolding found(6) used by (rule insert_commute)
    have run: "testfs_create_file_or_dir fs (Some dp) I_FILE nm = and_then (and_then (add_dirent_at fs1 dp nm (int nr)) (\<lambda>(ret, fs). if ret < 0 then Ok (ret, fs) else and_then (sync_inode fs dp) (\<lambda>fs. Ok (0, fs))))
        (\<lambda>(ret, fs). if ret < 0 then and_then (testfs_remove_inode fs p) (\<lambda>fs. Ok (ret, fs)) else and_then (sync_inode fs p) (\<lambda>fs. and_then (testfs_put_inode fs p) (\<lambda>fs. Ok (0, fs))))"
      using look False dp(1) found(1) p1 by (simp add: testfs_create_file_or_dir_def with_inode_def create_entry_def testfs_inode_get_nr_def)
    have neg: "find (live_name nm) ds = None" using False dir_lookup_neg by (simp add: not_le)
    then obtain ds' where add: "dir_add (new_entry nm (int nr)) ds = Some ds'" using dir_add_absent [of nm ds "int nr"] by blast
    have len: "length nm < 2 ^ 30" "off ds + length nm + 9 < 2 ^ 31" "i_nr dinn = int 0" using nm(2) dp(2) by (simp_all add: BLOCK_SIZE_def)
    from found(5) dp1 len(3) d1 nm(1) len(1) found(4) len(2) add show ?thesis
    proof (cases rule: add_dirent_step)
      case (added dinn2 fs2)
      have "\<exists>fs3 fs4 fs5. Ok (0, fs5) = (Ok (ret, fs') :: (int \<times> fs_state) outcome)"
        using r unfolding run added(1) by (auto simp: and_then_Ok_iff)
      then show ?thesis by (simp add: ENOSPC_def)
    next
      case (nospc dinn2 fs2)
      let ?m = "mark_dirty dp fs2"
      have i2: "imem ?m dp = Some (set_dirty dinn2)" using nospc(5) by (simp add: mark_dirty_def)
      have id: "i_nr (set_dirty dinn2) = int 0" using nospc(6) len(3) by (simp add: same_id_def set_dirty_def)
      have c0: "cur ?m 0 = din dinn2" using cur_cached [OF core_invD(2) [OF nospc(2)] i2 id] by (simp add: set_dirty_def)
      have "cur ?m nr = cur fs1 nr" using keepsD(2) [OF nospc(3)] u1 nz by simp
      then have cn: "i_size (cur ?m nr) = 0" using cur_cached [OF core_invD(2) [OF found(5)] p1] found(9) by (simp add: zero_dinode_def)
      have "i_size (din dinn2) \<le> int BLOCK_SIZE" using nospc(9) nm(2) by linarith
      then have "card (used_blocks (fsb ?m)) \<le> card (used_inodes (fsb ?m))"
        using c0 cn nospc(4) u1 by (intro small_files_blocks [OF nospc(2)]) (auto simp: BLOCK_SIZE_def)
      also have "\<dots> \<le> 2" using nospc(4) u1 nz by simp
      finally have "room (fsb fs2) 3" using nospc(10) found(13) m by (simp add: room_def del: card_used_blocks)
      then show ?thesis using nospc(8) by simp
    qed
  qed
qed

lemma args_are_map: "\<forall>x \<in> set xs. 0 \<notin> set x \<Longrightarrow> nargs (s_ctx s) = length xs \<Longrightarrow> cmd (s_ctx s) = map Some xs \<Longrightarrow> args_are s xs"
  by (simp add: args_are_def)

lemma sample_file:
  assumes "\<forall>x \<in> set xs. 0 \<notin> set x"
  obtains E n s where "shell_ok E 0 s" "args_are s xs" "dir_lookup (E 0) (str ''a'') = int n" "tree E s n = Some (File [])" "s_out s = []"
proof -
  let ?a = "str ''a''"
  obtain s where S: "shell_ok root_entries 0 s" "args_are s [str ''create'', ?a]" "tree root_entries s = [0 \<mapsto> fresh_node I_DIR 0 0]" "s_out s = []" "max_fs_blocks (dsb (fsb (s_fs s))) = 8"
    by (rule sample_session [of "[str ''create'', ?a]"]) (simp_all add: str_def)
  have b: "length ?a < 2 ^ 30" "off (root_entries 0) + length ?a + 9 < 2 ^ 31" "off (root_entries 0) + length ?a + 9 \<le> BLOCK_SIZE" "0 \<notin> set ?a"
    by (simp_all add: str_def root_entries_def new_entry_def BLOCK_SIZE_def)
  obtain ret s1 where C: "create_cmd I_FILE s = Ok (ret, s1)" "s_out s1 = s_out s" "s_ctx s1 = s_ctx s" "create_spec root_entries 0 I_FILE ?a s ret s1"
    using create_cmd_step [OF S(1,2) b(1,2), of I_FILE] by auto
  obtain dinn where D: "core_inv (s_fs s)" "imem (s_fs s) (cur_dir (s_ctx s)) = Some dinn" "i_nr dinn = int 0" "dir_at (s_fs s) 0 (root_entries 0)" using S(1) by (rule shell_okE)
  have "m \<in> used_inodes (fsb (s_fs s)) \<longleftrightarrow> m \<in> dom (tree root_entries s)" for m by (simp add: view_def domIff)
  then have u: "used_inodes (fsb (s_fs s)) = {0}" using S(3) by auto
  obtain fs' where "testfs_create_file_or_dir (s_fs s) (Some (cur_dir (s_ctx s))) I_FILE ?a = Ok (ret, fs')"
    using C(1) args_are_nargs [OF S(2)] by (auto simp: create_cmd_def args_are_arg [OF S(2)] and_then_Ok_iff)
  from create_file_fits [OF D(1,2) _ D(4) u S(5) b(4,3) this] D(3) have ok: "ret \<noteq> - ENOSPC" by simp
  have "dir_lookup (root_entries 0) ?a < 0" by (simp add: root_lookup str_def ENOENT_def)
  then obtain E n where T: "shell_ok E 0 s1" "n \<notin> dom (tree root_entries s)" "tree E s1 = (tree root_entries s)(0 \<mapsto> Dir ((dir_lookup (root_entries 0))(?a := int n)), n \<mapsto> fresh_node I_FILE n 0)"
    using C(4) ok by (auto simp: create_spec_def)
  have n: "n \<noteq> 0" using T(2) S(3) by auto
  let ?s = "s1\<lparr>s_ctx := \<lparr>nargs = length xs, cmd = map Some xs, cur_dir = cur_dir (s_ctx s1)\<rparr>\<rparr>"
  have ok2: "shell_ok E 0 ?s" using T(1) by (simp add: shell_ok_def)
  have "tree E s1 0 = Some (Dir (dir_lookup (E 0)))" using T(1) by (simp add: shell_ok_def view_dirs)
  then have "dir_lookup (E 0) = (dir_lookup (root_entries 0))(?a := int n)" using T(3) n by simp
  then have "dir_lookup (E 0) ?a = int n" by simp
  moreover have "tree E ?s n = Some (File [])" using T(3) by (simp add: fresh_node_def)
  moreover have "args_are ?s xs" using assms by (simp add: args_are_def)
  ultimately show thesis using ok2 C(2) S(4) by (intro that [of E ?s n]) simp_all
qed

section \<open>Properties\<close>

text \<open>
  (C19) Creating a file or a directory. From a state between two commands, \<open>create\<close> and \<open>mkdir\<close> either report \<open>-EEXIST\<close> when the name is in use, with no change; or add exactly one node, an empty file or a directory with its two own entries,
  under the name, and leave every other node as it was; or report \<open>-ENOSPC\<close>, and then every node other than the current directory is as it was.
\<close>

theorem cmd_create_correct:
  assumes "shell_ok E dn s" and "args_are s [c, nm]" and "length nm < 2 ^ 30" and "off (E dn) + length nm + 9 < 2 ^ 31"
  shows "(\<exists>ret s'. cmd_create s = Ok (ret, s') \<and> s_out s' = s_out s \<and> create_spec E dn I_FILE nm s ret s') \<and>
    (\<exists>ret s'. cmd_mkdir s = Ok (ret, s') \<and> s_out s' = s_out s \<and> create_spec E dn I_DIR nm s ret s')"
  using create_cmd_step [OF assms, of I_FILE] create_cmd_step [OF assms, of I_DIR] by (auto simp: cmd_create_def cmd_mkdir_def)

theorem cmd_create_correct_witness:
  "\<exists>s ret s'. args_are s [str ''create'', str ''a''] \<and> cmd_create s = Ok (ret, s') \<and> create_spec root_entries 0 I_FILE (str ''a'') s ret s'"
proof -
  obtain s where S: "shell_ok root_entries 0 s" "args_are s [str ''create'', str ''a'']" by (rule sample_session [of "[str ''create'', str ''a'']"]) (simp_all add: str_def)
  from cmd_create_correct [OF S] S(2) show ?thesis by (auto simp: str_def root_entries_def new_entry_def)
qed

text \<open>
  (C20) Removing. \<open>rm\<close> refuses \<^verbatim>\<open>.\<close> and \<^verbatim>\<open>..\<close>, a missing name and a directory that is not empty, changing nothing; otherwise it removes the name from the current directory and the node it names, and nothing else, or
  reports \<open>-ENOSPC\<close> with every node other than the current directory as it was.
\<close>

theorem cmd_rm_correct:
  assumes "shell_ok E dn s" and "args_are s [c, nm]"
  shows "\<exists>ret s'. cmd_rm s = Ok (ret, s') \<and> s_out s' = s_out s \<and> remove_spec E dn nm s ret s'"
  using cmd_rm_step [OF assms] by blast

theorem cmd_rm_correct_witness:
  "\<exists>s. args_are s [str ''rm'', dotdot] \<and> cmd_rm s = Ok (- EINVAL, s)"
proof -
  obtain s where S: "shell_ok root_entries 0 s" "args_are s [str ''rm'', dotdot]" by (rule sample_session [of "[str ''rm'', dotdot]"]) (simp_all add: str_def)
  from cmd_rm_correct [OF S] S(2) show ?thesis by (auto simp: remove_spec_def)
qed

text \<open>
  (C22) Listing. \<open>ls\<close> and \<open>lsr\<close> of a directory end, because the directories form a tree, and print one line for every entry in use in the order of the entries, with a slash behind the names of directories and, for \<open>lsr\<close>,
  the listing of every subdirectory behind its line; nothing changes.
\<close>

theorem cmd_ls_correct:
  assumes "shell_ok E dn s" and "args_are s [c, nm]" and "dir_lookup (E dn) nm = int n" and "n \<in> dirs (s_fs s)" and "ls_fuel \<le> fuel"
  shows "(\<exists>s'. cmd_ls fuel s = Ok (0, s') \<and> shell_ok E dn s' \<and> tree E s' = tree E s \<and> s_out s' = s_out s @ concat (map (entry_line (dirs (s_fs s))) (lives (E n)))) \<and>
    (\<exists>s'. cmd_lsr fuel s = Ok (0, s') \<and> shell_ok E dn s' \<and> tree E s' = tree E s \<and> s_out s' = s_out s @ listing (card (dirs (s_fs s))) True (dirs (s_fs s)) E n)"
proof -
  have v: "tree E s n = Some (Dir (dir_lookup (E n)))" by (rule view_dirs [OF assms(4)])
  have l: "listing 1 False D E n = concat (map (entry_line D) (lives (E n)))" for D by simp
  show ?thesis
    using cmd_ls_step [OF assms(1,2,5), of False] cmd_ls_step [OF assms(1,2,5), of True] assms(3) v l
    by (simp add: cmd_ls_def cmd_lsr_def list_depth_def)
qed

theorem cmd_ls_correct_witness:
  "\<exists>s s'. cmd_ls ls_fuel s = Ok (0, s') \<and> s_out s' = str ''./'' @ [10] @ str ''../'' @ [10]"
proof -
  obtain s where S: "shell_ok root_entries 0 s" "args_are s [str ''ls'', dot]" "s_out s = []" by (rule sample_session [of "[str ''ls'', dot]"]) (simp_all add: str_def)
  have d: "0 \<in> dirs (s_fs s)" using S(1) by (simp add: shell_ok_def)
  have "concat (map (entry_line (dirs (s_fs s))) (lives (root_entries 0))) = str ''./'' @ [10] @ str ''../'' @ [10]"
    using d by (simp add: root_entries_def lives_def entry_line_def new_entry_def str_def)
  then show ?thesis using cmd_ls_correct [OF S(1,2) _ d order_refl] S(3) root_lookup [of 0 dot] by auto
qed

text \<open>
  (C23) The current directory. \<open>pwd\<close> ends and prints a path that leads from the root of the tree to the current directory; nothing changes.
\<close>

theorem cmd_pwd_correct:
  assumes "shell_ok E dn s" and "args_are s [c]" and "NR_INODES \<le> stack"
  shows "\<exists>ns s'. cmd_pwd stack s = Ok (0, s') \<and> shell_ok E dn s' \<and> tree E s' = tree E s \<and> s_out s' = s_out s @ path_text ns @ [10] \<and> walk (tree E s) 0 ns = int dn"
  using cmd_pwd_step [OF assms] by metis

theorem cmd_pwd_correct_witness: "\<exists>s s' ns. cmd_pwd NR_INODES s = Ok (0, s') \<and> s_out s' = path_text ns @ [10]"
proof -
  obtain s where S: "shell_ok root_entries 0 s" "args_are s [str ''pwd'']" "s_out s = []" by (rule sample_session [of "[str ''pwd'']"]) (simp_all add: str_def)
  from cmd_pwd_correct [OF S(1,2) order_refl] S(3) show ?thesis by auto
qed



text \<open>
  (C26) Listing a file. \<open>ls\<close> and \<open>lsr\<close> on the name of a file return \<open>-ENOTDIR\<close> and keep the inode they got, so ending the session after it fails: \<open>testfs_close_super_block\<close> stops at the assertion of \<open>inode_hash_destroy\<close>.
\<close>

theorem cmd_ls_file_leaks:
  assumes "shell_ok E dn s" and "args_are s [c, nm]" and "dir_lookup (E dn) nm = int n" and "tree E s n = Some (File bs)" and "ls_fuel \<le> fuel"
  shows "\<exists>s' fs. cmd_ls_internal fuel r s = Ok (- ENOTDIR, s') \<and> testfs_put_inode (s_fs s') (cur_dir (s_ctx s')) = Ok fs \<and> testfs_close_super_block fs = Crash AssertFail"
  using cmd_ls_step [OF assms(1,2,5), of r] assms(3,4) by (auto simp: leaks_def)

theorem cmd_ls_file_leaks_witness:
  "\<exists>s s' fs. cmd_ls_internal ls_fuel False s = Ok (- ENOTDIR, s') \<and> testfs_put_inode (s_fs s') (cur_dir (s_ctx s')) = Ok fs \<and> testfs_close_super_block fs = Crash AssertFail"
proof -
  obtain E n s where S: "shell_ok E 0 s" "args_are s [str ''ls'', str ''a'']" "dir_lookup (E 0) (str ''a'') = int n" "tree E s n = Some (File [])"
    by (rule sample_file [of "[str ''ls'', str ''a'']"]) (simp_all add: str_def)
  from cmd_ls_file_leaks [OF S order_refl, of False] show ?thesis by blast
qed

end
