(* ===== verification/FS_Shell.thy ===== *)
theory FS_Shell
  imports FS_List
begin

text \<open>
  The program \<^verbatim>\<open>fs/testfs.c\<close>: the table of commands, the parser of a line, the loop of \<^verbatim>\<open>main\<close>, and \<^verbatim>\<open>cmd_fsstat\<close> of \<^verbatim>\<open>fs/super.c\<close>; the words of a line as a reference definition, and that the parser stores exactly these.
\<close>

unbundle bit_operations_syntax

section \<open>Definitions\<close>

text \<open>
  \<^verbatim>\<open>strtok_r\<close> with the characters of \<open>delim\<close> as separators: it returns the token, or null, and the new value of \<open>save\<close>, the rest of the string. POSIX leaves a call with a null string
  and a null \<open>save\<close> undefined. Some implementations return null (\<open>lenient\<close>), others use the null pointer.
\<close>

definition strtok_r :: "bool \<Rightarrow> byte list option \<Rightarrow> (byte \<Rightarrow> bool) \<Rightarrow> byte list option \<Rightarrow> (byte list option \<times> byte list option) outcome" where
  "strtok_r lenient s delim save =
     (case (case s of None \<Rightarrow> save | Some x \<Rightarrow> Some x) of
        None \<Rightarrow> if lenient then Ok (None, None) else Crash MemFault
      | Some x \<Rightarrow>
          let t = dropWhile delim x in
          if t = [] then Ok (None, Some [])
          else Ok (Some (takeWhile (\<lambda>c. \<not> delim c) t), Some (tl (dropWhile (\<lambda>c. \<not> delim c) t))))"

definition is_blank :: "byte \<Rightarrow> bool" where
  "is_blank c \<longleftrightarrow> c = 32 \<or> c = 9 \<or> c = 13 \<or> c = 10"

definition is_eol :: "byte \<Rightarrow> bool" where
  "is_eol c \<longleftrightarrow> c = 13 \<or> c = 10"

definition eprint :: "byte list \<Rightarrow> session \<Rightarrow> session" where
  "eprint x s = s\<lparr>s_err := s_err s @ x\<rparr>"

text \<open>The rows of \<open>cmdtable\<close>: name, \<open>max_args\<close>, help and usage. The row of null pointers that ends the table is the end of the list.\<close>

definition cmd_rows :: "(string \<times> nat \<times> string \<times> string) list" where
  "cmd_rows =
    [(''help'', 1, ''prints this help message.'', ''usage: help''),
     (''cd'', 2, ''changes to directory DIR.'', ''usage: cd DIR''),
     (''pwd'', 1, ''prints current directory.'', ''usage: pwd''),
     (''ls'', 2, ''lists files and directories in directory DIR.'', ''usage: ls DIR''),
     (''lsr'', 2, ''recursively lists files and directories in directory DIR.'', ''usage: lsr DIR''),
     (''create'', 2, ''creates a new file FILE in the current directory.'', ''usage: create FILE''),
     (''stat'', 2, ''prints information on file or dir named NAME.'', ''usage: stat NAME''),
     (''rm'', 2, ''removes a file or directory with name NAME.'', ''usage: rm NAME''),
     (''mkdir'', 2, ''creates a new directory DIR in the current directory.'', ''usage: mkdir DIR''),
     (''read'', 4, ''reads SIZE bytes of ascii data from file FILE at offset OFFSET.'', ''usage: read FILE OFFSET SIZE''),
     (''write'', 4, ''write ascii data DATA to file FILE at offset OFFSET.'', ''usage: write FILE OFFSET DATA''),
     (''fsstat'', 1, ''print inode and block usage.'', ''usage: fsstat''),
     (''quit'', 1, ''quits this program.'', ''usage: quit'')]"

text \<open>\<^verbatim>\<open>%8s\<close> pads with blanks on the left.\<close>

definition pad8 :: "byte list \<Rightarrow> byte list" where
  "pad8 x = replicate (8 - length x) 32 @ x"

definition cmd_help :: "session \<Rightarrow> (int \<times> session) outcome" where
  "cmd_help s = Ok (0, print (str ''Commands:'' @ [10] @
     concat (map (\<lambda>(name, _, help, usage). pad8 (str name) @ str '' - '' @ str help @ str '' '' @ str usage @ [10]) cmd_rows)) s)"

definition cmd_quit :: "session \<Rightarrow> (int \<times> session) outcome" where
  "cmd_quit s = Ok (0, (print (str ''Bye!'' @ [10]) s)\<lparr>can_quit := True\<rparr>)"

text \<open>The counters of \<open>cmd_fsstat\<close> are printed with \<^verbatim>\<open>%d\<close>, as signed numbers.\<close>

definition cmd_fsstat :: "session \<Rightarrow> (int \<times> session) outcome" where
  "cmd_fsstat s =
     (if nargs (s_ctx s) \<noteq> 1 then Ok (- EINVAL, s)
      else let d = dsb (fsb (s_fs s)) in
        Ok (0, print (str ''nr of allocated inodes = '' @ dec_int (sint (used_inode_count d)) @ [10] @
                      str ''nr of allocated blocks = '' @ dec_int (sint (used_block_count d)) @ [10]) s))"

record table_entry =
  te_name :: "byte list"
  te_func :: "session \<Rightarrow> (int \<times> session) outcome"
  te_max_args :: nat
  te_usage :: "byte list"

text \<open>The functions of the table. \<open>fuel\<close> bounds the recursion of \<open>testfs_pwd\<close> and \<open>testfs_ls\<close>.\<close>

definition cmd_funcs :: "nat \<Rightarrow> (session \<Rightarrow> (int \<times> session) outcome) list" where
  "cmd_funcs fuel = [cmd_help, cmd_cd, cmd_pwd fuel, cmd_ls fuel, cmd_lsr fuel, cmd_create, cmd_stat, cmd_rm, cmd_mkdir, cmd_read, cmd_write, cmd_fsstat, cmd_quit]"

definition cmdtable :: "nat \<Rightarrow> table_entry list" where
  "cmdtable fuel = map2 (\<lambda>(name, m, _, usage) f. \<lparr>te_name = str name, te_func = f, te_max_args = m, te_usage = str usage\<rparr>) cmd_rows (cmd_funcs fuel)"

definition set_arg :: "nat \<Rightarrow> byte list option \<Rightarrow> command_context \<Rightarrow> command_context outcome" where
  "set_arg j v c = mem_check (j < length (cmd c)) (Ok (c\<lparr>cmd := (cmd c)[j := v]\<rparr>))"

function parse_words :: "bool \<Rightarrow> nat \<Rightarrow> nat \<Rightarrow> byte list option \<Rightarrow> byte list option \<Rightarrow> command_context \<Rightarrow>
    (nat \<times> byte list option \<times> byte list option \<times> command_context) outcome" where
  "parse_words lenient max_args j args save c =
     (if j < max_args
      then and_then (strtok_r lenient args is_blank save) (\<lambda>(tok, save).
           and_then (set_arg j tok c) (\<lambda>c.
             if tok \<noteq> None then parse_words lenient max_args (j + 1) None save c else Ok (j, args, save, c)))
      else Ok (j, args, save, c))"
  by auto
termination by (relation "measure (\<lambda>(_, m, j, _, _, _). m - j)") auto

declare parse_words.simps [simp del]

definition parse_command :: "bool \<Rightarrow> nat \<Rightarrow> command_context \<Rightarrow> byte list \<Rightarrow> byte list option \<Rightarrow> command_context outcome" where
  "parse_command lenient max_args c name args =
     and_then (set_arg 0 (Some name) c) (\<lambda>c.
     and_then (parse_words lenient max_args 1 args None c) (\<lambda>(j, args, save, c).
     and_then (strtok_r lenient args is_eol save) (\<lambda>(tok, save).
     and_then (set_arg j tok c) (\<lambda>c.
       let j = (if tok \<noteq> None then j + 1 else j) in
       Ok (c\<lparr>nargs := j, cmd := foldl (\<lambda>v k. v[k := None]) (cmd c) [j + 1..<Suc MAX_ARGS]\<rparr>)))))"

text \<open>The names of the table are searched in order; \<open>strerror\<close> is the function of the C library.\<close>

definition handle_command :: "bool \<Rightarrow> (int \<Rightarrow> byte list) \<Rightarrow> nat \<Rightarrow> byte list option \<Rightarrow> byte list option \<Rightarrow> session \<Rightarrow> session outcome" where
  "handle_command lenient strerror fuel name args s =
     (case name of None \<Rightarrow> Ok s
      | Some nm \<Rightarrow>
          (case find (\<lambda>r. te_name r = nm) (cmdtable fuel) of
             None \<Rightarrow> Ok (eprint (nm @ str '': command not found. type '' @ [34] @ str ''help'' @ [34, 10]) s)
           | Some r \<Rightarrow>
               and_then (parse_command lenient (te_max_args r) (s_ctx s) nm args) (\<lambda>c.
               and_then (te_func r (s\<lparr>s_ctx := c\<rparr>)) (\<lambda>(ret, s).
                 if ret < 0
                 then arg s 0 (\<lambda>c0. Ok (eprint (c0 @ str '': '' @ strerror (- ret) @ [10] @ te_usage r @ [10]) s))
                 else Ok s))))"

text \<open>
  One turn of the loop of \<open>main\<close>, after the prompt, with the line that \<^verbatim>\<open>getline\<close> stored; as a C string it ends at the first zero byte.
\<close>

definition shell_line :: "bool \<Rightarrow> (int \<Rightarrow> byte list) \<Rightarrow> nat \<Rightarrow> bool \<Rightarrow> byte list \<Rightarrow> session \<Rightarrow> session outcome" where
  "shell_line lenient strerror fuel verbose line s =
     (let line = takeWhile (\<lambda>c. c \<noteq> 0) line in
      if take 1 line = str ''#'' then Ok s
      else
        let s = (if verbose then print line s else s) in
        and_then (strtok_r lenient (Some line) is_blank None) (\<lambda>(cname, save).
        and_then (strtok_r lenient None is_eol save) (\<lambda>(pargs, save).
          handle_command lenient strerror fuel cname pargs s)))"

definition prompt :: "bool \<Rightarrow> session \<Rightarrow> session" where
  "prompt hide_prompt s = (if hide_prompt then s else print (str ''% '') s)"

primrec shell_loop :: "bool \<Rightarrow> (int \<Rightarrow> byte list) \<Rightarrow> nat \<Rightarrow> bool \<Rightarrow> bool \<Rightarrow> byte list list \<Rightarrow> session \<Rightarrow> session outcome" where
  "shell_loop lenient strerror fuel hide_prompt verbose [] s = Ok (prompt hide_prompt s)"
| "shell_loop lenient strerror fuel hide_prompt verbose (line # lines) s =
     and_then (shell_line lenient strerror fuel verbose line (prompt hide_prompt s)) (\<lambda>s.
       if can_quit s then Ok s else shell_loop lenient strerror fuel hide_prompt verbose lines s)"

text \<open>
  The program on the file and the lines of its input; the options come from the command line. The context is a local variable, so its first contents are arbitrary (\<open>ctx\<close>).
\<close>

definition start_session :: "command_context \<Rightarrow> nat \<Rightarrow> fs_state \<Rightarrow> session" where
  "start_session ctx p fs = \<lparr>s_fs = fs, s_ctx = ctx\<lparr>cur_dir := p\<rparr>, can_quit = False, s_out = [], s_err = []\<rparr>"

definition testfs_main :: "bool \<Rightarrow> (int \<Rightarrow> byte list) \<Rightarrow> nat \<Rightarrow> bool \<Rightarrow> bool \<Rightarrow> (nat \<Rightarrow> bool) \<Rightarrow> dsuper_block \<Rightarrow> command_context \<Rightarrow> int + device \<Rightarrow> byte list list \<Rightarrow>
    (session \<times> device) outcome" where
  "testfs_main lenient strerror fuel hide_prompt verbose mem junk ctx file lines =
     and_then (testfs_init_super_block mem junk file) (\<lambda>(ret, r).
     if ret \<noteq> 0 then Crash ExitCall
     else case r of None \<Rightarrow> Crash MemFault
     | Some fs \<Rightarrow>
         and_then (testfs_get_inode fs 0) (\<lambda>(p, fs).
         and_then (shell_loop lenient strerror fuel hide_prompt verbose lines (start_session ctx p fs)) (\<lambda>s.
         and_then (testfs_put_inode (s_fs s) (cur_dir (s_ctx s))) (\<lambda>fs.
         and_then (testfs_close_super_block fs) (\<lambda>file.
           Ok (s, file))))))"

section \<open>The words of a line\<close>

text \<open>
  What a line means, without the array and the saved pointer: at most \<open>k\<close> words separated by blanks, and the rest; then the arguments of a command of the table, where the rest of the line, if any, is one
  more word. When the arguments are only blanks, the second search starts again at their beginning.
\<close>

fun take_words :: "nat \<Rightarrow> byte list \<Rightarrow> byte list list \<times> byte list" where
  "take_words 0 x = ([], x)"
| "take_words (Suc k) x =
     (let t = dropWhile is_blank x in
      if t = [] then ([], [])
      else let (ws, r) = take_words k (tl (dropWhile (\<lambda>c. \<not> is_blank c) t)) in (takeWhile (\<lambda>c. \<not> is_blank c) t # ws, r))"

definition arg_words :: "nat \<Rightarrow> byte list \<Rightarrow> byte list list" where
  "arg_words m x =
     (let (ws, r) = take_words (m - 1) x; t = dropWhile is_eol (if ws = [] then x else r) in
      if t = [] then ws else ws @ [takeWhile (\<lambda>c. \<not> is_eol c) t])"

definition row_args :: "byte list \<Rightarrow> nat option" where
  "row_args nm = map_option (\<lambda>(_, m, _). m) (find (\<lambda>(name, _). str name = nm) cmd_rows)"

definition line_command :: "byte list \<Rightarrow> byte list list option" where
  "line_command line =
     (let l = takeWhile (\<lambda>c. c \<noteq> 0) line; t = dropWhile is_blank l in
      if take 1 l = str ''#'' \<or> t = [] then None
      else
        let nm = takeWhile (\<lambda>c. \<not> is_blank c) t; a = dropWhile is_eol (tl (dropWhile (\<lambda>c. \<not> is_blank c) t)) in
        case row_args nm of None \<Rightarrow> None
        | Some m \<Rightarrow> Some (nm # (if a = [] then [] else arg_words m (takeWhile (\<lambda>c. \<not> is_eol c) a))))"

section \<open>Parsing\<close>

lemma strtok_r_text:
  assumes "(case s of None \<Rightarrow> save | Some y \<Rightarrow> Some y) = Some x"
  shows "strtok_r lenient s delim save = (if dropWhile delim x = [] then Ok (None, Some [])
     else Ok (Some (takeWhile (\<lambda>c. \<not> delim c) (dropWhile delim x)), Some (tl (dropWhile (\<lambda>c. \<not> delim c) (dropWhile delim x)))))"
  using assms by (simp add: strtok_r_def Let_def)

text \<open>The entries of the context that are set: \<open>ws\<close>.\<close>

definition words_in :: "command_context \<Rightarrow> byte list list \<Rightarrow> bool" where
  "words_in c ws \<longleftrightarrow> length (cmd c) = Suc MAX_ARGS \<and> take (length ws) (cmd c) = map Some ws \<and> length ws \<le> Suc MAX_ARGS"

lemma words_in_set:
  assumes "words_in c ws" and "length ws < Suc MAX_ARGS"
  shows "set_arg (length ws) v c = Ok (c\<lparr>cmd := (cmd c)[length ws := v]\<rparr>)" "words_in (c\<lparr>cmd := (cmd c)[length ws := v]\<rparr>) ws"
    "v = Some w \<Longrightarrow> words_in (c\<lparr>cmd := (cmd c)[length ws := v]\<rparr>) (ws @ [w])"
  using assms by (simp_all add: words_in_def set_arg_def take_Suc_conv_app_nth)

lemma parse_words_eq:
  assumes "words_in c ws" "(case args of None \<Rightarrow> save | Some y \<Rightarrow> Some y) = Some x" "m \<le> MAX_ARGS" "length ws \<le> MAX_ARGS" "take_words (m - length ws) x = (ws', r)"
  shows "\<exists>args' save' c'. parse_words lenient m (length ws) args save c = Ok (length (ws @ ws'), args', save', c') \<and> words_in c' (ws @ ws') \<and>
     (case args' of None \<Rightarrow> save' | Some y \<Rightarrow> Some y) = Some (if args \<noteq> None \<and> ws' = [] then x else r) \<and> length (ws @ ws') \<le> MAX_ARGS \<and> cur_dir c' = cur_dir c"
  using assms
proof (induction "m - length ws" arbitrary: ws args save c x ws' r)
  case 0
  then show ?case by (auto simp: parse_words.simps)
next
  case (Suc k)
  then have j: "length ws < m" by simp
  have lt: "length ws < Suc MAX_ARGS" using Suc.prems(4) by simp
  let ?t = "dropWhile is_blank x"
  let ?w = "takeWhile (\<lambda>c. \<not> is_blank c) ?t" and ?y = "tl (dropWhile (\<lambda>c. \<not> is_blank c) ?t)"
  have tw: "take_words (Suc k) x = (ws', r)" using Suc.prems(5) Suc.hyps(2) by simp
  note T = strtok_r_text [OF Suc.prems(2), of lenient is_blank]
  show ?case
  proof (cases "?t = []")
    case True
    then have w: "ws' = []" "r = []" using tw by simp_all
    have s: "strtok_r lenient args is_blank save = Ok (None, Some [])" unfolding T using True by (simp del: dropWhile_eq_Nil_conv)
    note W = words_in_set [OF Suc.prems(1) lt, of None]
    let ?c = "c\<lparr>cmd := (cmd c)[length ws := None]\<rparr>"
    have "parse_words lenient m (length ws) args save c = Ok (length ws, args, Some [], ?c)" using j s W(1) by (subst parse_words.simps) simp
    moreover have "(case args of None \<Rightarrow> Some [] | Some y \<Rightarrow> Some y) = Some (if args \<noteq> None then x else [])" using Suc.prems(2) by (cases args) simp_all
    ultimately show ?thesis using W(2) w Suc.prems(4) by (intro exI [of _ args] exI [of _ "Some []"] exI [of _ ?c]) simp
  next
    case False
    obtain vs where v: "take_words k ?y = (vs, r)" "ws' = ?w # vs" using tw False by (auto simp: Let_def split: prod.splits simp del: dropWhile_eq_Nil_conv)
    have s: "strtok_r lenient args is_blank save = Ok (Some ?w, Some ?y)" unfolding T using False by (simp del: dropWhile_eq_Nil_conv)
    note W = words_in_set [OF Suc.prems(1) lt, of "Some ?w"]
    let ?c = "c\<lparr>cmd := (cmd c)[length ws := Some ?w]\<rparr>"
    have p: "parse_words lenient m (length ws) args save c = parse_words lenient m (length (ws @ [?w])) None (Some ?y) ?c"
      using j s W(1) by (subst parse_words.simps) simp
    have k: "k = m - length (ws @ [?w])" using Suc.hyps(2) by simp
    have ln: "length (ws @ [?w]) \<le> MAX_ARGS" using j Suc.prems(3) by simp
    from Suc.hyps(1) [OF k W(3) [OF refl] _ Suc.prems(3) ln v(1) [unfolded k], of "Some ?y" None] show ?thesis unfolding p v(2) by simp
  qed
qed

lemma clear_tail: "length (foldl (\<lambda>v k. v[k := x]) xs ks) = length xs" "\<forall>k \<in> set ks. n \<le> k \<Longrightarrow> take n (foldl (\<lambda>v k. v[k := x]) xs ks) = take n xs"
  by (induction ks arbitrary: xs) simp_all

text \<open>The second half of \<open>parse_command\<close>: the words \<open>ws\<close> are stored, and \<open>tok\<close> is what is left of the line.\<close>

lemma parse_finish:
  assumes w: "words_in c1 ws" "length ws \<le> MAX_ARGS" and tok: "ws' = (case tok of None \<Rightarrow> ws | Some v \<Rightarrow> ws @ [v])"
  obtains c2 v where "set_arg (length ws) tok c1 = Ok c2" "(if tok \<noteq> None then length ws + 1 else length ws) = length ws'"
    "c2\<lparr>nargs := length ws', cmd := foldl (\<lambda>v k. v[k := None]) (cmd c2) [length ws' + 1..<Suc MAX_ARGS]\<rparr> = c1\<lparr>nargs := length ws', cmd := v\<rparr>"
    "words_in (c1\<lparr>nargs := length ws', cmd := v\<rparr>) ws'"
proof -
  have lt: "length ws < Suc MAX_ARGS" using w(2) by simp
  note W = words_in_set [OF w(1) lt, of tok]
  let ?c = "c1\<lparr>cmd := (cmd c1)[length ws := tok]\<rparr>"
  let ?v = "foldl (\<lambda>v k. v[k := None]) (cmd ?c) [length ws' + 1..<Suc MAX_ARGS]"
  have in1: "words_in ?c ws'" using W(2,3) by (cases tok) (simp_all add: tok)
  then have "length (cmd ?c) = Suc MAX_ARGS" unfolding words_in_def by blast
  then have v: "length ?v = Suc MAX_ARGS" unfolding clear_tail(1) .
  have t: "take (length ws') ?v = take (length ws') (cmd ?c)" by (rule clear_tail(2)) auto
  have "words_in (c1\<lparr>nargs := length ws', cmd := ?v\<rparr>) ws'" using in1 v t unfolding words_in_def by simp
  moreover have "(if tok \<noteq> None then length ws + 1 else length ws) = length ws'" by (cases tok) (simp_all add: tok)
  ultimately show thesis using W(1) by (intro that [of ?c ?v]) simp_all
qed

lemma parse_command_eq:
  assumes c: "length (cmd c) = Suc MAX_ARGS" and m: "1 \<le> m" "m \<le> MAX_ARGS" and args: "args = None \<longrightarrow> lenient"
    and ws: "ws = nm # (case args of None \<Rightarrow> [] | Some x \<Rightarrow> arg_words m x)"
  obtains c' where "parse_command lenient m c nm args = Ok c'" "words_in c' ws" "nargs c' = length ws" "cur_dir c' = cur_dir c"
proof -
  note result = that
  let ?c = "c\<lparr>cmd := (cmd c)[0 := Some nm]\<rparr>"
  have "words_in c []" using c by (simp add: words_in_def)
  note W0 = words_in_set [OF this, of "Some nm", simplified]
  have set0: "set_arg 0 (Some nm) c = Ok ?c" using W0(1) by simp
  have MA: "Suc 0 \<le> MAX_ARGS" by (simp add: MAX_ARGS_def)
  have fin: thesis if P: "parse_words lenient m 1 args None ?c = Ok (length vs, args1, save1, c1)" "words_in c1 vs" "length vs \<le> MAX_ARGS" "cur_dir c1 = cur_dir c"
    and S: "strtok_r lenient args1 is_eol save1 = Ok (tok, save2)" "ws = (case tok of None \<Rightarrow> vs | Some v \<Rightarrow> vs @ [v])" for vs args1 save1 c1 tok save2
  proof -
    obtain c2 v where F: "set_arg (length vs) tok c1 = Ok c2" "(if tok \<noteq> None then length vs + 1 else length vs) = length ws"
      "c2\<lparr>nargs := length ws, cmd := foldl (\<lambda>v k. v[k := None]) (cmd c2) [length ws + 1..<Suc MAX_ARGS]\<rparr> = c1\<lparr>nargs := length ws, cmd := v\<rparr>"
      "words_in (c1\<lparr>nargs := length ws, cmd := v\<rparr>) ws"
      using parse_finish [OF P(2,3) S(2)] by metis
    have "parse_command lenient m c nm args = Ok (c1\<lparr>nargs := length ws, cmd := v\<rparr>)"
      unfolding parse_command_def set0 and_then.simps P(1) prod.case S(1) F(1) Let_def F(2,3) by (rule refl)
    then show thesis by (rule result) (use F(4) P(4) in simp_all)
  qed
  show thesis
  proof (cases args)
    case None
    then have len: "lenient" using args by simp
    have s: "strtok_r lenient None d None = Ok (None, None)" for d using len by (simp add: strtok_r_def)
    have "words_in ?c [nm]" using W0(3) by simp
    note W1 = words_in_set [OF this, of None, simplified]
    have "\<exists>c1. parse_words lenient m 1 None None ?c = Ok (1, None, None, c1) \<and> words_in c1 [nm] \<and> cur_dir c1 = cur_dir c"
    proof (cases "1 < m")
      case True
      then show ?thesis using s W1(1,2) by (subst parse_words.simps) (simp add: MAX_ARGS_def)
    next
      case False
      then show ?thesis using W0(3) by (subst parse_words.simps) auto
    qed
    then obtain c1 where "parse_words lenient m 1 None None ?c = Ok (1, None, None, c1)" "words_in c1 [nm]" "cur_dir c1 = cur_dir c" by blast
    then show thesis using fin [of "[nm]" None None c1 None None] s None ws by (simp add: MAX_ARGS_def)
  next
    case (Some x)
    obtain vs r where tw: "take_words (m - 1) x = (vs, r)" by (cases "take_words (m - 1) x")
    obtain args1 save1 c1 where P: "parse_words lenient m 1 args None ?c = Ok (length (nm # vs), args1, save1, c1)" "words_in c1 (nm # vs)"
      "(case args1 of None \<Rightarrow> save1 | Some y \<Rightarrow> Some y) = Some (if vs = [] then x else r)" "length (nm # vs) \<le> MAX_ARGS" "cur_dir c1 = cur_dir ?c"
      using parse_words_eq [of ?c "[nm]" None args x m vs r lenient] W0(3) Some m(2) MA tw by auto
    note T = strtok_r_text [OF P(3), of lenient is_eol]
    let ?t = "dropWhile is_eol (if vs = [] then x else r)"
    have aw: "ws = (if ?t = [] then nm # vs else nm # vs @ [takeWhile (\<lambda>c. \<not> is_eol c) ?t])" using ws Some tw by (simp add: arg_words_def Let_def del: dropWhile_eq_Nil_conv)
    show thesis
    proof (cases "?t = []")
      case True
      then have s: "strtok_r lenient args1 is_eol save1 = Ok (None, Some [])" unfolding T by (simp del: dropWhile_eq_Nil_conv)
      show thesis by (rule fin [OF P(1,2,4) _ s]) (use P(5) aw True in \<open>simp_all del: dropWhile_eq_Nil_conv\<close>)
    next
      case False
      then have s: "strtok_r lenient args1 is_eol save1 = Ok (Some (takeWhile (\<lambda>c. \<not> is_eol c) ?t), Some (tl (dropWhile (\<lambda>c. \<not> is_eol c) ?t)))" unfolding T by (simp del: dropWhile_eq_Nil_conv)
      show thesis by (rule fin [OF P(1,2,4) _ s]) (use P(5) aw False in \<open>simp_all del: dropWhile_eq_Nil_conv\<close>)
    qed
  qed
qed

section \<open>Lines\<close>

definition part_of :: "byte list \<Rightarrow> byte list \<Rightarrow> bool" where
  "part_of w x \<longleftrightarrow> set w \<subseteq> set x \<and> length w \<le> length x"

lemma part_of_take: "part_of (takeWhile P x) x" and part_of_drop: "part_of (dropWhile P x) x"
  using set_takeWhileD [of _ P x] set_dropWhileD [of _ P x] length_takeWhile_le [of P x] length_dropWhile_le [of P x]
  by (auto simp: part_of_def)

lemma part_of_tl: "part_of (tl x) x" and part_of_refl: "part_of x x" and part_of_Nil: "part_of [] x"
  by (cases x; auto simp: part_of_def)+

lemma part_of_trans: "part_of w y \<Longrightarrow> part_of y x \<Longrightarrow> part_of w x"
  unfolding part_of_def by (meson subset_trans le_trans)

lemma part_of_token: "part_of (takeWhile P (dropWhile Q x)) x" "part_of (tl (dropWhile P (dropWhile Q x))) x"
  by (rule part_of_trans [OF part_of_take part_of_drop], rule part_of_trans [OF part_of_tl part_of_trans [OF part_of_drop part_of_drop]])

lemma take_words_part:
  "take_words k x = (ws, r) \<Longrightarrow> (\<forall>w \<in> set ws. part_of w x) \<and> part_of r x"
proof (induction k arbitrary: x ws r)
  case (Suc k)
  let ?t = "dropWhile is_blank x"
  let ?w = "takeWhile (\<lambda>c. \<not> is_blank c) ?t" and ?y = "tl (dropWhile (\<lambda>c. \<not> is_blank c) ?t)"
  show ?case
  proof (cases "?t = []")
    case True
    then show ?thesis using Suc.prems part_of_Nil by (simp del: dropWhile_eq_Nil_conv)
  next
    case False
    obtain vs where v: "take_words k ?y = (vs, r)" "ws = ?w # vs"
      using Suc.prems False by (cases "take_words k ?y") (simp add: Let_def del: dropWhile_eq_Nil_conv)
    note IH = Suc.IH [OF v(1)] and T = part_of_token [where P = "\<lambda>c. \<not> is_blank c" and Q = is_blank and x = x]
    have "part_of u x" if "u \<in> set vs" for u using IH that part_of_trans [OF _ T(2)] by blast
    then show ?thesis unfolding v(2) using IH T part_of_trans [OF _ T(2)] by auto
  qed
qed (simp add: part_of_refl)

lemma arg_words_part:
  assumes "w \<in> set (arg_words m x)"
  shows "part_of w x"
proof -
  obtain ws r where t: "take_words (m - 1) x = (ws, r)" by (cases "take_words (m - 1) x")
  note S = take_words_part [OF t]
  define u where "u = dropWhile is_eol (if ws = [] then x else r)"
  have "part_of (if ws = [] then x else r) x" using S part_of_refl by simp
  then have "part_of (takeWhile (\<lambda>c. \<not> is_eol c) u) x" unfolding u_def by (rule part_of_trans [OF part_of_token(1)])
  moreover have "part_of w x" if "w \<in> set ws" using S that by blast
  moreover have "arg_words m x = (if u = [] then ws else ws @ [takeWhile (\<lambda>c. \<not> is_eol c) u])" unfolding arg_words_def t Let_def prod.case u_def by (rule refl)
  then have "w \<in> set ws \<or> w = takeWhile (\<lambda>c. \<not> is_eol c) u" using assms by (auto split: if_splits)
  ultimately show ?thesis by blast
qed

lemma line_command_part:
  assumes "line_command l = Some ws" and "w \<in> set ws"
  shows "0 \<notin> set w" "length w \<le> length l"
proof -
  let ?l = "takeWhile (\<lambda>c. c \<noteq> 0) l"
  let ?t = "dropWhile is_blank ?l"
  let ?r = "dropWhile (\<lambda>c. \<not> is_blank c) ?t"
  let ?a = "dropWhile is_eol (tl ?r)"
  have a: "part_of (takeWhile (\<lambda>c. \<not> is_blank c) ?t) ?l" "part_of (takeWhile (\<lambda>c. \<not> is_eol c) ?a) ?l"
    by (rule part_of_token, rule part_of_trans [OF part_of_token(1) part_of_token(2)])
  have "w = takeWhile (\<lambda>c. \<not> is_blank c) ?t \<or> (\<exists>m. w \<in> set (arg_words m (takeWhile (\<lambda>c. \<not> is_eol c) ?a)))"
    using assms by (auto simp: line_command_def Let_def split: if_splits option.splits)
  then have p: "part_of w ?l" using a arg_words_part part_of_trans by blast
  moreover have "part_of ?l l" by (rule part_of_take)
  ultimately show "length w \<le> length l" unfolding part_of_def by linarith
  have "0 \<notin> set ?l" using set_takeWhileD [of 0 "\<lambda>c. c \<noteq> 0" l] by blast
  then show "0 \<notin> set w" using p by (auto simp: part_of_def)
qed

lemma table_rows: "map_option te_max_args (find (\<lambda>r. te_name r = nm) (cmdtable fuel)) = row_args nm"
proof -
  have "length rows = length fs \<Longrightarrow>
    map_option te_max_args (find (\<lambda>r. te_name r = nm) (map2 (\<lambda>(name, m, _, usage) f. \<lparr>te_name = str name, te_func = f, te_max_args = m, te_usage = str usage\<rparr>) rows fs)) =
    map_option (\<lambda>(_, m, _). m) (find (\<lambda>(name, _). str name = nm) rows)" for rows :: "(string \<times> nat \<times> string \<times> string) list" and fs
    by (induction rows fs rule: list_induct2) auto
  then show ?thesis unfolding cmdtable_def row_args_def by (simp add: cmd_rows_def cmd_funcs_def)
qed

lemma row_args_bound: "row_args nm = Some m \<Longrightarrow> 1 \<le> m \<and> m \<le> MAX_ARGS"
proof -
  assume "row_args nm = Some m"
  then obtain row where "find (\<lambda>(name, _). str name = nm) cmd_rows = Some row" "m = fst (snd row)" by (auto simp: row_args_def)
  then have "row \<in> set cmd_rows" "m = fst (snd row)" by (metis find_Some_iff nth_mem, blast)
  then show ?thesis by (auto simp: cmd_rows_def MAX_ARGS_def)
qed

lemma table_func:
  assumes "find (\<lambda>r. te_name r = nm) (cmdtable fuel) = Some r"
  shows "(nm, te_func r) \<in> set (zip (map (\<lambda>(name, _). str name) cmd_rows) (cmd_funcs fuel))"
proof -
  have "length rows = length fs \<Longrightarrow>
    find (\<lambda>r. te_name r = nm) (map2 (\<lambda>(name, m, _, usage) f. \<lparr>te_name = str name, te_func = f, te_max_args = m, te_usage = str usage\<rparr>) rows fs) = Some r \<Longrightarrow>
    (nm, te_func r) \<in> set (zip (map (\<lambda>(name, _). str name) rows) fs)" for rows :: "(string \<times> nat \<times> string \<times> string) list" and fs
    by (induction rows fs rule: list_induct2) (auto split: if_splits)
  from this [OF _ assms [unfolded cmdtable_def]] show ?thesis by (simp add: cmd_rows_def cmd_funcs_def)
qed

section \<open>Properties\<close>

definition word_ok :: "byte list \<Rightarrow> bool" where
  "word_ok w \<longleftrightarrow> w \<noteq> [] \<and> (\<forall>c \<in> set w. \<not> is_blank c \<and> c \<noteq> 0)"

fun join_words :: "byte list list \<Rightarrow> byte list" where
  "join_words [] = []"
| "join_words [w] = w"
| "join_words (w # ws) = w @ 32 # join_words ws"

lemma word_first: "word_ok w \<Longrightarrow> dropWhile is_blank (w @ x) = w @ x"
  by (cases w) (simp_all add: word_ok_def)

lemma word_token: "word_ok w \<Longrightarrow> x = [] \<or> is_blank (hd x) \<Longrightarrow> takeWhile (\<lambda>c. \<not> is_blank c) (w @ x) = w \<and> dropWhile (\<lambda>c. \<not> is_blank c) (w @ x) = x"
  by (cases x) (auto simp: word_ok_def takeWhile_append dropWhile_append)

lemma take_words_join: "\<forall>w \<in> set ws. word_ok w \<Longrightarrow> ws \<noteq> [] \<Longrightarrow> length ws \<le> k \<Longrightarrow> take_words k (join_words ws) = (ws, [])"
proof (induction ws arbitrary: k rule: join_words.induct)
  case (2 w)
  then obtain j where k: "k = Suc j" by (cases k) auto
  have w: "word_ok w" "w \<noteq> []" using 2(1) by (simp_all add: word_ok_def)
  have "take_words j [] = ([], [])" by (cases j) simp_all
  then show ?case using word_first [OF w(1), of "[]"] word_token [OF w(1), of "[]"] w(2) by (simp add: k Let_def del: dropWhile_eq_Nil_conv takeWhile_eq_all_conv)
next
  case (3 w v vs)
  then obtain j where k: "k = Suc j" by (cases k) auto
  have w: "word_ok w" "w \<noteq> []" using 3(2) by (simp_all add: word_ok_def)
  have b: "is_blank 32" by (simp add: is_blank_def)
  have "take_words j (join_words (v # vs)) = (v # vs, [])" using 3 k by simp
  then show ?case using word_first [OF w(1), of "32 # join_words (v # vs)"] word_token [OF w(1), of "32 # join_words (v # vs)"] w(2) b
    by (simp add: k Let_def del: dropWhile_eq_Nil_conv)
qed simp

lemma word_chars: "word_ok w \<Longrightarrow> c \<in> set w \<Longrightarrow> \<not> is_eol c \<and> c \<noteq> 0"
  by (simp add: word_ok_def is_blank_def is_eol_def)

lemma join_words_chars: "\<forall>w \<in> set ws. word_ok w \<Longrightarrow> c \<in> set (join_words ws) \<Longrightarrow> \<not> is_eol c \<and> c \<noteq> 0"
proof (induction ws rule: join_words.induct)
  case (2 w)
  then show ?case using word_chars [of w c] by simp
next
  case (3 w v vs)
  have "\<not> is_eol 32" by (simp add: is_eol_def)
  then show ?case using 3 word_chars [of w c] by (cases "c = 32"; cases "c \<in> set w") simp_all
qed simp

lemma find_found: "find P xs = Some y \<Longrightarrow> y \<in> set xs \<and> P y"
  by (auto simp: find_Some_iff)

lemma row_name: "row_args nm = Some m \<Longrightarrow> word_ok nm \<and> take 1 nm \<noteq> str ''#''"
proof -
  assume "row_args nm = Some m"
  then obtain row where "find (\<lambda>(name, _). str name = nm) cmd_rows = Some row" by (auto simp: row_args_def)
  then have "row \<in> set cmd_rows \<and> (\<lambda>(name, _). str name = nm) row" by (rule find_found)
  then have r: "row \<in> set cmd_rows" "nm = str (fst row)" by (simp_all add: case_prod_beta)
  have "\<forall>row \<in> set cmd_rows. word_ok (str (fst row)) \<and> take 1 (str (fst row)) \<noteq> str ''#''"
    by (simp add: cmd_rows_def word_ok_def str_def is_blank_def)
  then show ?thesis using r by blast
qed

text \<open>
  (C24) Parsing. For every command of the table, \<open>parse_command\<close> stores exactly the words of the reference definition \<open>arg_words\<close> behind the name, counts them, and never writes outside the array of the context; a null string of arguments gives the name
  alone, when \<^verbatim>\<open>strtok_r\<close> accepts it.
\<close>

theorem parse_command_correct:
  assumes "length (cmd c) = Suc MAX_ARGS" and "row_args nm = Some m" and "args = None \<longrightarrow> lenient" and "ws = nm # (case args of None \<Rightarrow> [] | Some x \<Rightarrow> arg_words m x)"
  shows "\<exists>c'. parse_command lenient m c nm args = Ok c' \<and> nargs c' = length ws \<and> take (nargs c') (cmd c') = map Some ws \<and> cur_dir c' = cur_dir c \<and> length (cmd c') = Suc MAX_ARGS"
proof -
  note m = row_args_bound [OF assms(2)]
  obtain c' where "parse_command lenient m c nm args = Ok c'" "words_in c' ws" "nargs c' = length ws" "cur_dir c' = cur_dir c"
    by (rule parse_command_eq [OF assms(1) conjunct1 [OF m] conjunct2 [OF m] assms(3,4)])
  then show ?thesis by (intro exI [of _ c']) (simp add: words_in_def)
qed

theorem parse_command_correct_witness:
  "\<exists>c'. parse_command False 2 \<lparr>nargs = 0, cmd = replicate 7 None, cur_dir = 0\<rparr> (str ''cd'') (Some (str ''a b'')) = Ok c' \<and> take 3 (cmd c') = map Some [str ''cd'', str ''a'', str ''b'']"
proof -
  have a: "arg_words 2 (str ''a b'') = [str ''a'', str ''b'']" by (simp add: arg_words_def str_def is_blank_def is_eol_def)
  have r: "row_args (str ''cd'') = Some 2" by (simp add: row_args_def cmd_rows_def str_def)
  from parse_command_correct [of "\<lparr>nargs = 0, cmd = replicate 7 None, cur_dir = 0\<rparr>" "str ''cd''" 2 "Some (str ''a b'')" False "[str ''cd'', str ''a'', str ''b'']"] a r show ?thesis
    by (auto simp: MAX_ARGS_def numeral_3_eq_3)
qed



text \<open>
  (C27) Commands without arguments. With a \<^verbatim>\<open>strtok_r\<close> that uses its null pointer, every command of the table typed without arguments, even \<open>quit\<close>, is a memory fault: \<open>main\<close> passes a null string and \<open>parse_command\<close> starts with a null \<^verbatim>\<open>save\<close>.
\<close>

theorem no_arguments_fault:
  assumes "row_args nm = Some m" and "length (cmd (s_ctx s)) = Suc MAX_ARGS"
  shows "shell_line False strerror fuel verbose (nm @ [10]) s = Crash MemFault"
proof -
  note N = row_name [OF assms(1)]
  have nm: "word_ok nm" "nm \<noteq> []" "0 \<notin> set nm" using N by (auto simp: word_ok_def)
  have b: "is_blank 10" by (simp add: is_blank_def)
  have tw: "takeWhile (\<lambda>c. c \<noteq> 0) (nm @ [10]) = nm @ [10]" using nm(3) by (subst takeWhile_eq_all_conv) auto
  have t1: "take 1 (nm @ [10]) \<noteq> str ''#''" using N nm(2) by (cases nm) simp_all
  have s1: "strtok_r False (Some (nm @ [10])) is_blank None = Ok (Some nm, Some [])"
    using strtok_r_text [of None "Some (nm @ [10])" "nm @ [10]" False is_blank] word_first [OF nm(1), of "[10]"] word_token [OF nm(1), of "[10]"] nm(2) b by simp
  have s2: "strtok_r False None is_eol (Some []) = Ok (None, Some [])" "strtok_r False None d None = Crash MemFault" for d by (simp_all add: strtok_r_def)
  obtain r where r: "find (\<lambda>r. te_name r = nm) (cmdtable fuel) = Some r" "te_max_args r = m" using table_rows [of nm fuel] assms(1) by auto
  have p: "parse_command False m c nm None = Crash MemFault" if "length (cmd c) = Suc MAX_ARGS" for c
    using that s2(2) by (simp add: parse_command_def set_arg_def parse_words.simps)
  then have p': "handle_command False strerror fuel (Some nm) None s' = Crash MemFault" if "s_ctx s' = s_ctx s" for s'
    using r assms(2) that by (simp add: handle_command_def)
  have f: "s_ctx (if verbose then print (nm @ [10]) s else s) = s_ctx s" by simp
  show ?thesis unfolding shell_line_def tw Let_def using t1 s1 s2(1) p' [OF f] by simp
qed

theorem no_arguments_fault_witness:
  "\<exists>s. shell_line False (\<lambda>_. []) ls_fuel False (str ''quit'' @ [10]) s = Crash MemFault"
proof -
  obtain s :: session where "shell_ok root_entries 0 s" by (rule sample_session [of "[]"]) simp
  let ?s = "s\<lparr>s_ctx := \<lparr>nargs = 0, cmd = replicate 7 None, cur_dir = 0\<rparr>\<rparr>"
  have r: "row_args (str ''quit'') = Some 1" by (simp add: row_args_def cmd_rows_def str_def)
  have "length (cmd (s_ctx ?s)) = Suc MAX_ARGS" by (simp add: MAX_ARGS_def)
  from no_arguments_fault [OF r this] show ?thesis by blast
qed

end
