(* ===== verification/FS_ShellSpec.thy ===== *)
theory FS_ShellSpec
  imports FS_Shell
begin

text \<open>
  The specification of the shell as a step relation on a tree of files and directories, and that every command of the table is a step of it.
\<close>

unbundle bit_operations_syntax

section \<open>The tree a session works on\<close>

text \<open>
  The specification of the shell: a state is a tree of nodes and the number of the current directory. The reasons a command may fail for, with the value it returns:
\<close>

definition arity :: "byte list \<Rightarrow> nat" where
  "arity c = (if c \<in> {str ''pwd'', str ''fsstat''} then 1 else if c \<in> {str ''read'', str ''write''} then 4 else 2)"

inductive tree_fails :: "(nat \<Rightarrow> node option) \<Rightarrow> nat \<Rightarrow> byte list list \<Rightarrow> int \<Rightarrow> bool" where
  usage: "hd ws \<notin> {str ''help'', str ''quit''} \<Longrightarrow> length ws \<noteq> arity (hd ws) \<Longrightarrow> tree_fails T d ws (- EINVAL)"
| missing: "T d = Some (Dir f) \<Longrightarrow> f nm < 0 \<Longrightarrow> c \<in> {str ''cd'', str ''ls'', str ''lsr'', str ''stat'', str ''rm''} \<Longrightarrow> tree_fails T d [c, nm] (- ENOENT)"
| missing_file: "T d = Some (Dir f) \<Longrightarrow> f nm < 0 \<Longrightarrow> c \<in> {str ''read'', str ''write''} \<Longrightarrow> tree_fails T d [c, nm, x, y] (- ENOENT)"
| not_dir: "T d = Some (Dir f) \<Longrightarrow> f nm = int n \<Longrightarrow> T n = Some (File bs) \<Longrightarrow> tree_fails T d [str ''cd'', nm] (- ENOTDIR)"
| taken: "T d = Some (Dir f) \<Longrightarrow> 0 \<le> f nm \<Longrightarrow> c \<in> {str ''create'', str ''mkdir''} \<Longrightarrow> tree_fails T d [c, nm] (- EEXIST)"
| dots: "nm \<in> {dot, dotdot} \<Longrightarrow> tree_fails T d [str ''rm'', nm] (- EINVAL)"
| not_empty: "T d = Some (Dir f) \<Longrightarrow> f nm = int n \<Longrightarrow> T n = Some (Dir g) \<Longrightarrow> x \<noteq> dot \<Longrightarrow> x \<noteq> dotdot \<Longrightarrow> 0 \<le> g x \<Longrightarrow> tree_fails T d [str ''rm'', nm] (- ENOTEMPTY)"
| is_dir: "T d = Some (Dir f) \<Longrightarrow> f nm = int n \<Longrightarrow> T n = Some (Dir g) \<Longrightarrow> c \<in> {str ''read'', str ''write''} \<Longrightarrow> tree_fails T d [c, nm, x, y] (- EISDIR)"
| bad_offset: "(\<And>n. str_to_offset x \<noteq> (0, Some (int n))) \<Longrightarrow> c \<in> {str ''read'', str ''write''} \<Longrightarrow> tree_fails T d [c, nm, x, y] (- EINVAL)"
| bad_size: "(\<And>n. str_to_size y \<noteq> (0, Some n)) \<Longrightarrow> tree_fails T d [str ''read'', nm, x, y] (- EINVAL)"
| past_end: "T d = Some (Dir f) \<Longrightarrow> f nm = int n \<Longrightarrow> T n = Some (File bs) \<Longrightarrow> str_to_offset x = (0, Some (int start)) \<Longrightarrow> str_to_size y = (0, Some sz) \<Longrightarrow>
    length bs < start + sz \<Longrightarrow> tree_fails T d [str ''read'', nm, x, y] (- EINVAL)"
| at_limit: "str_to_offset x = (0, Some (int max_bytes)) \<Longrightarrow> tree_fails T d [str ''read'', nm, x, y] (- EFBIG)"

text \<open>
  A step is labelled with the words of the command, the value it returns and what it prints. A command that fails changes nothing.
\<close>

inductive tree_step :: "(nat \<Rightarrow> node option) \<times> nat \<Rightarrow> byte list list \<Rightarrow> int \<Rightarrow> byte list \<Rightarrow> (nat \<Rightarrow> node option) \<times> nat \<Rightarrow> bool" where
  fails: "tree_fails T d ws ret \<Longrightarrow> tree_step (T, d) ws ret [] (T, d)"
| looks: "hd ws \<in> {str ''help'', str ''ls'', str ''lsr'', str ''stat'', str ''fsstat'', str ''quit''} \<Longrightarrow> tree_step (T, d) ws 0 out (T, d)"
| pwds: "walk T 0 ns = int d \<Longrightarrow> tree_step (T, d) [str ''pwd''] 0 (path_text ns @ [10]) (T, d)"
| cds: "T d = Some (Dir f) \<Longrightarrow> f nm = int n \<Longrightarrow> T n = Some (Dir g) \<Longrightarrow> tree_step (T, d) [str ''cd'', nm] 0 [] (T, n)"
| creates: "T d = Some (Dir f) \<Longrightarrow> f nm < 0 \<Longrightarrow> T n = None \<Longrightarrow>
    tree_step (T, d) [str ''create'', nm] 0 [] (T(d \<mapsto> Dir (f(nm := int n)), n \<mapsto> File []), d)"
| mkdirs: "T d = Some (Dir f) \<Longrightarrow> f nm < 0 \<Longrightarrow> T n = None \<Longrightarrow>
    tree_step (T, d) [str ''mkdir'', nm] 0 [] (T(d \<mapsto> Dir (f(nm := int n)), n \<mapsto> Dir ((\<lambda>_. - ENOENT)(dot := int n, dotdot := int d))), d)"
| removes: "T d = Some (Dir f) \<Longrightarrow> nm \<noteq> dot \<Longrightarrow> nm \<noteq> dotdot \<Longrightarrow> f nm = int n \<Longrightarrow> T n \<noteq> None \<Longrightarrow>
    (\<And>g x. T n = Some (Dir g) \<Longrightarrow> x \<noteq> dot \<Longrightarrow> x \<noteq> dotdot \<Longrightarrow> g x < 0) \<Longrightarrow>
    tree_step (T, d) [str ''rm'', nm] 0 [] (T(d \<mapsto> Dir (f(nm := - ENOENT)), n := None), d)"
| reads: "T d = Some (Dir f) \<Longrightarrow> f nm = int n \<Longrightarrow> T n = Some (File bs) \<Longrightarrow> str_to_offset x = (0, Some (int start)) \<Longrightarrow> str_to_size y = (0, Some sz) \<Longrightarrow>
    start + sz \<le> length bs \<Longrightarrow> start \<noteq> max_bytes \<Longrightarrow> tree_step (T, d) [str ''read'', nm, x, y] (int sz) (takeWhile (\<lambda>c. c \<noteq> 0) (take sz (drop start bs)) @ [10]) (T, d)"
| writes: "T d = Some (Dir f) \<Longrightarrow> f nm = int n \<Longrightarrow> T n = Some (File bs) \<Longrightarrow> str_to_offset x = (0, Some (int start)) \<Longrightarrow>
    tree_step (T, d) [str ''write'', nm, x, buf] (int (length buf)) [] (T(n \<mapsto> File (splice bs start buf)), d)"

section \<open>What the commands leave alone\<close>

definition same_frame :: "session \<Rightarrow> session \<Rightarrow> bool" where
  "same_frame s s' \<longleftrightarrow> s_err s' = s_err s \<and> cmd (s_ctx s') = cmd (s_ctx s) \<and> nargs (s_ctx s') = nargs (s_ctx s) \<and> can_quit s' = can_quit s"

lemma with_inode_Ok: "with_inode fs p f = Ok y \<longleftrightarrow> (\<exists>inn. imem fs p = Some inn \<and> f inn = Ok y)"
  by (simp add: with_inode_def split: option.splits)

lemma arg_Ok: "arg s i f = Ok y \<longleftrightarrow> i < length (cmd (s_ctx s)) \<and> (\<exists>x. cmd (s_ctx s) ! i = Some x \<and> f x = Ok y)"
  by (simp add: arg_def split: option.splits)

lemma same_frame_simps [simp]: "same_frame s s" "same_frame s (set_fs fs s)" "same_frame s (print x s)" "same_frame s (print x (set_fs fs s))"
  "same_frame s ((set_fs fs s)\<lparr>s_ctx := (s_ctx s)\<lparr>cur_dir := p\<rparr>\<rparr>)"
  by (simp_all add: same_frame_def set_fs_def print_def)

lemma case_Ok:
  "(case p of (a, b) \<Rightarrow> f a b) = Ok y \<longleftrightarrow> (\<exists>a b. p = (a, b) \<and> f a b = Ok y)"
  "(case r of None \<Rightarrow> m | Some x \<Rightarrow> g x) = Ok y \<longleftrightarrow> r = None \<and> m = Ok y \<or> (\<exists>x. r = Some x \<and> g x = Ok y)"
  by (cases p, simp) (cases r, simp_all)

lemmas Ok_iffs = and_then_Ok_iff with_inode_Ok arg_Ok

lemma cmd_frames:
  "cmd_cd s = Ok (ret, s') \<Longrightarrow> same_frame s s'"
  "cmd_pwd fuel s = Ok (ret, s') \<Longrightarrow> same_frame s s'"
  "cmd_ls_internal fuel r s = Ok (ret, s') \<Longrightarrow> same_frame s s'"
  "create_cmd type s = Ok (ret, s') \<Longrightarrow> same_frame s s'"
  "cmd_rm s = Ok (ret, s') \<Longrightarrow> same_frame s s'"
  "cmd_stat s = Ok (ret, s') \<Longrightarrow> same_frame s s'"
  "cmd_read s = Ok (ret, s') \<Longrightarrow> same_frame s s'"
  "cmd_write s = Ok (ret, s') \<Longrightarrow> same_frame s s'"
  "cmd_fsstat s = Ok (ret, s') \<Longrightarrow> same_frame s s'"
         apply (auto simp: cmd_cd_def Ok_iffs split: if_split_asm)[1]
        apply (auto simp: cmd_pwd_def Ok_iffs split: if_split_asm)[1]
       apply (auto simp: cmd_ls_internal_def Ok_iffs split: if_split_asm)[1]
      apply (auto simp: create_cmd_def Ok_iffs split: if_split_asm)[1]
     apply (auto simp: cmd_rm_def Ok_iffs split: if_split_asm)[1]
    apply (auto simp: cmd_stat_def Ok_iffs Let_def split: if_split_asm)[1]
   apply (auto simp: cmd_read_def Ok_iffs case_Ok split: if_split_asm)[1]
  apply (auto simp: cmd_write_def Ok_iffs case_Ok split: if_split_asm)[1]
  apply (auto simp: cmd_fsstat_def Let_def split: if_split_asm)[1]
  done

section \<open>Every command is a step on the tree\<close>

text \<open>
  A command that runs out of space may leave the current directory or a file half changed, and listing a file leaves an inode in memory: what the code does after such a refusal is not covered by the
  specification. A \<open>read\<close> with huge numbers overflows.
\<close>

definition refused :: "byte list list \<Rightarrow> int \<Rightarrow> bool" where
  "refused ws ret \<longleftrightarrow> hd ws \<in> {str ''create'', str ''mkdir'', str ''rm'', str ''write''} \<and> ret \<in> {- ENOSPC, - EFBIG} \<or>
     hd ws \<in> {str ''ls'', str ''lsr''} \<and> ret = - ENOTDIR"

definition wild_read :: "byte list list \<Rightarrow> bool" where
  "wild_read ws \<longleftrightarrow> (\<exists>nm x y a b. ws = [str ''read'', nm, x, y] \<and> str_to_offset x = (0, Some a) \<and> str_to_size y = (0, Some b) \<and> (2 ^ 62 \<le> a \<or> 2 ^ 31 \<le> b))"

definition effect :: "(nat \<Rightarrow> dirent list) \<Rightarrow> nat \<Rightarrow> byte list list \<Rightarrow> nat \<Rightarrow> session \<Rightarrow> (int \<times> session) outcome \<Rightarrow> bool" where
  "effect E dn ws B s m \<longleftrightarrow> (\<exists>ret s'. m = Ok (ret, s') \<and>
     (refused ws ret \<or> (\<exists>E' dn' out. shell_ok E' dn' s' \<and> (\<forall>k. off (E' k) \<le> B) \<and> s_out s' = s_out s @ out \<and> tree_step (tree E s, dn) ws ret out (tree E' s', dn'))))"

lemma effectI:
  assumes "m = Ok (ret, s')" and "shell_ok E' dn' s'" and "\<And>k. off (E' k) \<le> B" and "s_out s' = s_out s @ out" and "tree_step (tree E s, dn) ws ret out (tree E' s', dn')"
  shows "effect E dn ws B s m"
  using assms by (auto simp: effect_def)

lemma effect_refused: "m = Ok (ret, s') \<Longrightarrow> refused ws ret \<Longrightarrow> effect E dn ws B s m"
  by (simp add: effect_def)

lemma effect_fails:
  assumes "m = Ok (ret, s')" and "tree_fails (tree E s) dn ws ret" and "shell_ok E dn s'" and "\<And>k. off (E k) \<le> B" and "tree E s' = tree E s" and "s_out s' = s_out s"
  shows "effect E dn ws B s m"
  using effectI [OF assms(1,3,4), of s "[]" E dn ws] assms(5,6) tree_step.fails [OF assms(2)] by simp

lemma effect_usage:
  assumes "shell_ok E dn s" and "\<And>k. off (E k) \<le> B" and a: "args_are s (c # xs)" and "nargs (s_ctx s) \<noteq> arity c" and c: "c \<noteq> str ''help''" "c \<noteq> str ''quit''"
  shows "effect E dn (c # xs) B s (Ok (- EINVAL, s))"
  by (rule effect_fails [OF refl usage]) (use assms args_are_nargs [OF a] in simp_all)

lemma arities: "arity (str ''cd'') = 2" "arity (str ''ls'') = 2" "arity (str ''lsr'') = 2" "arity (str ''stat'') = 2" "arity (str ''rm'') = 2" "arity (str ''create'') = 2" "arity (str ''mkdir'') = 2"
  "arity (str ''pwd'') = 1" "arity (str ''fsstat'') = 1" "arity (str ''read'') = 4" "arity (str ''write'') = 4"
  by (simp_all add: arity_def str_def)

lemma not_free: "str ''cd'' \<noteq> str ''help''" "str ''cd'' \<noteq> str ''quit''" "str ''ls'' \<noteq> str ''help''" "str ''ls'' \<noteq> str ''quit''" "str ''lsr'' \<noteq> str ''help''" "str ''lsr'' \<noteq> str ''quit''"
  "str ''stat'' \<noteq> str ''help''" "str ''stat'' \<noteq> str ''quit''" "str ''rm'' \<noteq> str ''help''" "str ''rm'' \<noteq> str ''quit''" "str ''create'' \<noteq> str ''help''" "str ''create'' \<noteq> str ''quit''"
  "str ''mkdir'' \<noteq> str ''help''" "str ''mkdir'' \<noteq> str ''quit''" "str ''pwd'' \<noteq> str ''help''" "str ''pwd'' \<noteq> str ''quit''" "str ''fsstat'' \<noteq> str ''help''" "str ''fsstat'' \<noteq> str ''quit''"
  "str ''read'' \<noteq> str ''help''" "str ''read'' \<noteq> str ''quit''" "str ''write'' \<noteq> str ''help''" "str ''write'' \<noteq> str ''quit''"
  by (simp_all add: str_def)

lemmas usage_facts = arities not_free

lemma tree_cur: "shell_ok E dn s \<Longrightarrow> tree E s dn = Some (Dir (dir_lookup (E dn)))"
  by (simp add: shell_ok_def view_dirs)

lemma tree_lookup:
  assumes "shell_ok E dn s" and "\<not> dir_lookup (E dn) nm < 0"
  obtains n where "dir_lookup (E dn) nm = int n" "tree E s n \<noteq> None"
proof -
  from assms(1) show thesis
  proof (cases rule: lookup_cases [where nm = nm])
    case missing
    then show thesis using assms(2) by simp
  next
    case (found n)
    then show thesis by (intro that) (simp_all add: view_def)
  qed
qed

lemma one_arg: "args_are s (c # xs) \<Longrightarrow> nargs (s_ctx s) = 2 \<Longrightarrow> \<exists>nm. xs = [nm]"
  using length_Suc_conv [of xs 0] by (auto simp: args_are_def)

lemma three_args: "args_are s (c # xs) \<Longrightarrow> nargs (s_ctx s) = 4 \<Longrightarrow> \<exists>nm x y. xs = [nm, x, y]"
  using length_Suc_conv [of xs 2] by (auto simp: args_are_def length_Suc_conv numeral_eq_Suc)

lemma cd_effect:
  assumes ok: "shell_ok E dn s" and a: "args_are s (str ''cd'' # xs)" and B: "\<And>k. off (E k) \<le> B"
  shows "effect E dn (str ''cd'' # xs) B s (cmd_cd s)"
proof (cases "nargs (s_ctx s) = 2")
  case False
  then show ?thesis using effect_usage [OF ok B a] by (simp add: cmd_cd_def usage_facts)
next
  case True
  then obtain nm where xs: "xs = [nm]" using one_arg [OF a] by blast
  obtain ret s' where C: "cmd_cd s = Ok (ret, s')" "tree E s' = tree E s" "s_out s' = s_out s"
    "if dir_lookup (E dn) nm < 0 then ret = - ENOENT \<and> s' = s
      else case tree E s (nat (dir_lookup (E dn) nm)) of
             Some (Dir f) \<Rightarrow> ret = 0 \<and> shell_ok E (nat (dir_lookup (E dn) nm)) s'
           | _ \<Rightarrow> ret = - ENOTDIR \<and> shell_ok E dn s'"
    using cmd_cd_step [OF ok a [unfolded xs]] by blast
  show ?thesis
  proof (cases "dir_lookup (E dn) nm < 0")
    case True
    then show ?thesis using C ok B missing [where T = "tree E s" and d = dn, OF tree_cur [OF ok] True] by (intro effect_fails [OF C(1)]) (simp_all add: xs)
  next
    case False
    then obtain n where n: "dir_lookup (E dn) nm = int n" "tree E s n \<noteq> None" using tree_lookup [OF ok] by blast
    show ?thesis
    proof (cases "\<exists>f. tree E s n = Some (Dir f)")
      case True
      then obtain f where f: "tree E s n = Some (Dir f)" by blast
      have "tree_step (tree E s, dn) [str ''cd'', nm] 0 [] (tree E s, n)" by (rule cds [OF tree_cur [OF ok] n(1) f])
      then show ?thesis using C B n(1) f by (intro effectI [OF C(1), of E n]) (simp_all add: xs)
    next
      case False
      then obtain bs where f: "tree E s n = Some (File bs)" using n(2) by (metis node.exhaust option.exhaust)
      then have "ret = - ENOTDIR \<and> shell_ok E dn s'" using C(4) n(1) by simp
      then show ?thesis using C(2,3) B not_dir [OF tree_cur [OF ok] n(1) f] by (intro effect_fails [OF C(1)]) (simp_all add: xs)
    qed
  qed
qed

lemma pwd_effect:
  assumes ok: "shell_ok E dn s" and a: "args_are s (str ''pwd'' # xs)" and B: "\<And>k. off (E k) \<le> B" and st: "NR_INODES \<le> stack"
  shows "effect E dn (str ''pwd'' # xs) B s (cmd_pwd stack s)"
proof (cases "nargs (s_ctx s) = 1")
  case False
  then show ?thesis using effect_usage [OF ok B a] by (simp add: cmd_pwd_def usage_facts)
next
  case True
  then have xs: "xs = []" using a by (simp add: args_are_def)
  obtain ns s' where P: "cmd_pwd stack s = Ok (0, s')" "shell_ok E dn s'" "tree E s' = tree E s" "s_out s' = s_out s @ path_text ns @ [10]" "walk (tree E s) 0 ns = int dn"
    using cmd_pwd_step [OF ok a [unfolded xs] st] by blast
  show ?thesis using P(3) B pwds [OF P(5)] by (intro effectI [OF P(1,2) _ P(4)]) (simp_all add: xs)
qed

lemma stat_effect:
  assumes ok: "shell_ok E dn s" and a: "args_are s (str ''stat'' # xs)" and B: "\<And>k. off (E k) \<le> B"
  shows "effect E dn (str ''stat'' # xs) B s (cmd_stat s)"
proof (cases "nargs (s_ctx s) = 2")
  case False
  then show ?thesis using effect_usage [OF ok B a] by (simp add: cmd_stat_def usage_facts)
next
  case True
  then obtain nm where xs: "xs = [nm]" using one_arg [OF a] by blast
  obtain ret s' where C: "cmd_stat s = Ok (ret, s')" "shell_ok E dn s'" "tree E s' = tree E s"
    "if dir_lookup (E dn) nm < 0 then ret = - ENOENT \<and> s' = s
      else ret = 0 \<and> s_out s' = s_out s @ stat_line nm (nat (dir_lookup (E dn) nm)) (cur (s_fs s) (nat (dir_lookup (E dn) nm)))"
    using cmd_stat_step [OF ok a [unfolded xs]] by blast
  show ?thesis
  proof (cases "dir_lookup (E dn) nm < 0")
    case True
    then show ?thesis using C ok B missing [where T = "tree E s" and d = dn, OF tree_cur [OF ok] True] by (intro effect_fails [OF C(1)]) (simp_all add: xs)
  next
    case False
    then have r: "ret = 0" "s_out s' = s_out s @ stat_line nm (nat (dir_lookup (E dn) nm)) (cur (s_fs s) (nat (dir_lookup (E dn) nm)))" using C(4) by simp_all
    show ?thesis using C(3) B r(1) by (intro effectI [OF C(1,2) _ r(2)]) (simp_all add: looks)
  qed
qed

lemma ls_effect:
  assumes ok: "shell_ok E dn s" and a: "args_are s (c # xs)" and B: "\<And>k. off (E k) \<le> B" and fuel: "ls_fuel \<le> fuel" and c: "c \<in> {str ''ls'', str ''lsr''}"
  shows "effect E dn (c # xs) B s (cmd_ls_internal fuel r s)"
proof (cases "nargs (s_ctx s) = 2")
  case False
  then show ?thesis using effect_usage [OF ok B a] c by (auto simp: cmd_ls_internal_def usage_facts)
next
  case True
  then obtain nm where xs: "xs = [nm]" using one_arg [OF a] by blast
  let ?out = "listing (list_depth r (dirs (s_fs s))) r (dirs (s_fs s)) E (nat (dir_lookup (E dn) nm))"
  obtain ret s' where C: "cmd_ls_internal fuel r s = Ok (ret, s')"
     "if dir_lookup (E dn) nm < 0 then ret = - ENOENT \<and> s' = s
      else case tree E s (nat (dir_lookup (E dn) nm)) of
          Some (Dir f) \<Rightarrow> ret = 0 \<and> shell_ok E dn s' \<and> tree E s' = tree E s \<and> s_out s' = s_out s @ ?out
        | _ \<Rightarrow> ret = - ENOTDIR \<and> s_out s' = s_out s \<and> leaks s'"
    using cmd_ls_step [OF ok a [unfolded xs] fuel] by blast
  show ?thesis
  proof (cases "dir_lookup (E dn) nm < 0")
    case True
    then show ?thesis using C ok B c missing [where T = "tree E s" and d = dn and c = c, OF tree_cur [OF ok] True] by (intro effect_fails [OF C(1)]) (auto simp: xs)
  next
    case False
    then have "ret = - ENOTDIR \<or> ret = 0 \<and> shell_ok E dn s' \<and> tree E s' = tree E s \<and> s_out s' = s_out s @ ?out"
      using C(2) by (auto split: option.splits node.splits)
    then show ?thesis
    proof
      assume "ret = - ENOTDIR"
      then show ?thesis using c by (intro effect_refused [OF C(1)]) (auto simp: refused_def)
    next
      assume h: "ret = 0 \<and> shell_ok E dn s' \<and> tree E s' = tree E s \<and> s_out s' = s_out s @ ?out"
      then show ?thesis using B c by (intro effectI [OF C(1), of E dn B s ?out]) (auto intro: looks)
    qed
  qed
qed

lemma create_effect:
  assumes ok: "shell_ok E dn s" and a: "args_are s (c # xs)" and B: "\<And>k. off (E k) \<le> B" and len: "\<forall>w \<in> set xs. length w \<le> L" and L: "L < 2 ^ 30" "B + L + 30 < 2 ^ 31"
    and c: "c = str ''create'' \<and> type = I_FILE \<or> c = str ''mkdir'' \<and> type = I_DIR"
  shows "effect E dn (c # xs) (B + L + 30) s (create_cmd type s)"
proof (cases "nargs (s_ctx s) = 2")
  case False
  then show ?thesis using effect_usage [OF ok trans_le_add1 [OF trans_le_add1 [OF B]] a] c by (auto simp: create_cmd_def usage_facts)
next
  case True
  then obtain nm where xs: "xs = [nm]" using one_arg [OF a] by blast
  have nm: "length nm \<le> L" using len xs by simp
  have b: "length nm < 2 ^ 30" "off (E dn) + length nm + 9 < 2 ^ 31" using nm L B [of dn] by linarith+
  have ty: "type \<noteq> I_NONE" using c by auto
  obtain ret s' where C: "create_cmd type s = Ok (ret, s')" "s_out s' = s_out s" "create_spec E dn type nm s ret s'"
    using create_cmd_step [OF ok a [unfolded xs] b ty] by blast
  consider "0 \<le> dir_lookup (E dn) nm" "ret = - EEXIST" "s' = s" | "ret = - ENOSPC"
    | E' nr where "dir_lookup (E dn) nm < 0" "ret = 0" "nr \<notin> dom (tree E s)" "shell_ok E' dn s'" "\<forall>m. off (E' m) \<le> off (E m) + length nm + 30"
      "tree E' s' = (tree E s)(dn \<mapsto> Dir ((dir_lookup (E dn))(nm := int nr)), nr \<mapsto> fresh_node type nr dn)"
    using C(3) unfolding create_spec_def by (auto split: if_splits)
  then show ?thesis
  proof cases
    case 1
    then have "tree_fails (tree E s) dn (c # xs) ret" using taken [where T = "tree E s" and d = dn and nm = nm and c = c, OF tree_cur [OF ok]] c by (auto simp: xs)
    from effect_fails [OF C(1) this] show ?thesis using 1 ok trans_le_add1 [OF trans_le_add1 [OF B]] by simp
  next
    case 2
    then show ?thesis using c by (intro effect_refused [OF C(1)]) (auto simp: refused_def)
  next
    case 3
    have b': "off (E' k) \<le> B + L + 30" for k using 3(5) [rule_format, of k] B [of k] nm by linarith
    have "tree_step (tree E s, dn) [c, nm] 0 [] (tree E' s', dn)"
      unfolding 3(6) using c creates [where T = "tree E s" and d = dn and f = "dir_lookup (E dn)" and nm = nm and n = nr, OF tree_cur [OF ok] 3(1)] mkdirs [where T = "tree E s" and d = dn and f = "dir_lookup (E dn)" and nm = nm and n = nr, OF tree_cur [OF ok] 3(1)] 3(3) by (auto simp: fresh_node_def domIff)
    then show ?thesis using 3(2) C(2) by (intro effectI [OF C(1) 3(4) b']) (simp_all add: xs)
  qed
qed

lemma dots_only_lookup:
  assumes "dots_only ds" and "x \<noteq> dot" "x \<noteq> dotdot"
  shows "dir_lookup ds x < 0"
proof (cases "find (live_name x) ds")
  case None
  then show ?thesis by (simp add: dir_lookup_def ENOENT_def)
next
  case (Some d)
  then have "d \<in> set ds" "live_name x d" by (auto simp: find_Some_iff)
  then show ?thesis using assms by (auto simp: dots_only_def live_name_def)
qed

lemma not_dots_lookup:
  assumes "\<not> dots_only ds" and "\<forall>d \<in> set ds. dent_ok d"
  obtains x where "x \<noteq> dot" "x \<noteq> dotdot" "0 \<le> dir_lookup ds x"
proof -
  obtain d where d: "d \<in> set ds" "0 \<le> d_inode_nr d" "d_name d \<noteq> dot @ [0]" "d_name d \<noteq> dotdot @ [0]" using assms(1) by (auto simp: dots_only_def)
  let ?x = "butlast (d_name d)"
  have nm: "d_name d = ?x @ [0]" using dent_name [of d] assms(2) d(1) by blast
  have "live_name ?x d" using d(2) nm by (simp add: live_name_def)
  then have "find (live_name ?x) ds \<noteq> None" using d(1) by (auto simp: find_None_iff)
  then obtain e where e: "find (live_name ?x) ds = Some e" by blast
  then have "live_name ?x e" by (auto simp: find_Some_iff)
  then have "0 \<le> dir_lookup ds ?x" using e by (simp add: dir_lookup_def live_name_def)
  moreover have "?x \<noteq> dot" "?x \<noteq> dotdot" using nm d(3,4) by auto
  ultimately show thesis by (intro that)
qed

lemma rm_effect:
  assumes ok: "shell_ok E dn s" and a: "args_are s (str ''rm'' # xs)" and B: "\<And>k. off (E k) \<le> B"
  shows "effect E dn (str ''rm'' # xs) B s (cmd_rm s)"
proof (cases "nargs (s_ctx s) = 2")
  case False
  then show ?thesis using effect_usage [OF ok B a] by (simp add: cmd_rm_def usage_facts)
next
  case True
  then obtain nm where xs: "xs = [nm]" using one_arg [OF a] by blast
  let ?n = "nat (dir_lookup (E dn) nm)"
  obtain ret s' where C: "cmd_rm s = Ok (ret, s')" "s_out s' = s_out s" "remove_spec E dn nm s ret s'"
    using cmd_rm_step [OF ok a [unfolded xs]] by blast
  have d: "dir_at (s_fs s) m (E m)" if "m \<in> dirs (s_fs s)" for m using ok fs_invD(2) [of E "s_fs s" m] that by (simp add: shell_ok_def)
  have full: "tree_fails (tree E s) dn [str ''rm'', nm] (- ENOTEMPTY)" if h: "\<not> dir_lookup (E dn) nm < 0" "?n \<in> dirs (s_fs s)" "\<not> dots_only (E ?n)"
  proof -
    obtain x where x: "x \<noteq> dot" "x \<noteq> dotdot" "0 \<le> dir_lookup (E ?n) x" using not_dots_lookup [OF h(3)] d [OF h(2)] by (auto simp: dir_at_def)
    have "dir_lookup (E dn) nm = int ?n" using h(1) by simp
    from not_empty [OF tree_cur [OF ok] this view_dirs [OF h(2)] x] show ?thesis .
  qed
  note miss = missing [where T = "tree E s" and d = dn and nm = nm and c = "str ''rm''", OF tree_cur [OF ok]]
  note same = dots [of nm "tree E s" dn]
  consider "tree_fails (tree E s) dn (str ''rm'' # xs) ret" "shell_ok E dn s'" "tree E s' = tree E s" | "ret = - ENOSPC"
    | E' where "nm \<noteq> dot" "nm \<noteq> dotdot" "\<not> dir_lookup (E dn) nm < 0" "?n \<in> dirs (s_fs s) \<Longrightarrow> dots_only (E ?n)" "ret = 0" "shell_ok E' dn s'" "\<forall>m. off (E' m) = off (E m)"
      "tree E' s' = (tree E s)(dn \<mapsto> Dir ((dir_lookup (E dn))(nm := - ENOENT)), ?n := None)"
    using C(3) ok full miss same unfolding remove_spec_def Let_def xs by (simp split: if_split_asm) blast+
  then show ?thesis
  proof cases
    case 1
    then show ?thesis using C(2) B by (intro effect_fails [OF C(1)]) simp_all
  next
    case 2
    then show ?thesis by (intro effect_refused [OF C(1)]) (simp add: refused_def)
  next
    case 3
    obtain n where n: "dir_lookup (E dn) nm = int n" "tree E s n \<noteq> None" using tree_lookup [OF ok 3(3)] by blast
    have "g x < 0" if "tree E s n = Some (Dir g)" "x \<noteq> dot" "x \<noteq> dotdot" for g x
    proof -
      have "n \<in> dirs (s_fs s)" "g = dir_lookup (E n)" using that(1) by (auto simp: view_def dirs_def split: if_splits)
      then show ?thesis using dots_only_lookup [OF 3(4) that(2,3)] n(1) by simp
    qed
    then have "tree_step (tree E s, dn) [str ''rm'', nm] 0 [] (tree E' s', dn)"
      unfolding 3(8) n(1) nat_int by (intro removes [OF tree_cur [OF ok] 3(1,2) n]) blast
    then show ?thesis using 3(5,7) C(2) B by (intro effectI [OF C(1) 3(6)]) (simp_all add: xs)
  qed
qed

lemma offset_cases:
  obtains (bad) "str_to_offset x = (- EINVAL, None)" | (neg) a where "str_to_offset x = (0, Some a)" "a < 0" | (good) n where "str_to_offset x = (0, Some (int n))"
proof -
  obtain val rest where v: "strtoll x = (val, rest)" by (cases "strtoll x")
  consider "0 < length rest" | "rest = []" "val < 0" | "rest = []" "0 \<le> val" by fastforce
  then show thesis
  proof cases
    case 3
    then show thesis using v by (intro good [of "nat val"]) (simp add: str_to_offset_def)
  qed (use v that(1,2) in \<open>simp_all add: str_to_offset_def\<close>)
qed

lemma size_cases:
  obtains (bad) "str_to_size x = (- EINVAL, None)" | (good) n where "str_to_size x = (0, Some n)"
proof -
  obtain val rest where "strtoull x = (val, rest)" by (cases "strtoull x")
  then show thesis using that(1) that(2) [of val] by (cases "rest = []") (simp_all add: str_to_size_def)
qed

lemma read_effect:
  assumes ok: "shell_ok E dn s" and a: "args_are s (str ''read'' # xs)" and B: "\<And>k. off (E k) \<le> B" and tame: "\<not> wild_read (str ''read'' # xs)"
  shows "effect E dn (str ''read'' # xs) B s (cmd_read s)"
proof (cases "nargs (s_ctx s) = 4")
  case False
  then show ?thesis using effect_usage [OF ok B a] by (simp add: cmd_read_def usage_facts)
next
  case True
  then obtain nm x y where xs: "xs = [nm, x, y]" using three_args [OF a] by blast
  note A = args_are_arg [OF a [unfolded xs]]
  consider "cmd_read s = Ok (- EINVAL, s)" "tree_fails (tree E s) dn (str ''read'' # xs) (- EINVAL)" | start sz where "str_to_offset x = (0, Some (int start))" "str_to_size y = (0, Some sz)"
    using bad_offset [where c = "str ''read''"] bad_size
    by (cases x rule: offset_cases; cases y rule: size_cases) (use True in \<open>simp_all add: cmd_read_def A numeral_eq_Suc EINVAL_def xs\<close>)
  then show ?thesis
  proof cases
    case 1
    from effect_fails [OF this] show ?thesis using ok B by simp
  next
    case num: 2
    then have small: "start < 2 ^ 62" "sz < 2 ^ 31" using tame by (force simp: wild_read_def xs)+
    obtain ret out s' where C: "cmd_read s = Ok (ret, s')" "shell_ok E dn s'" "tree E s' = tree E s" "s_out s' = s_out s @ out"
     "if dir_lookup (E dn) nm < 0 then (ret, out) = (- ENOENT, [])
      else case tree E s (nat (dir_lookup (E dn) nm)) of
          Some (File bs) \<Rightarrow> (ret, out) = read_spec bs start sz
        | _ \<Rightarrow> (ret, out) = (- EISDIR, [])"
      using cmd_read_step [OF ok a [unfolded xs] num small] by blast
    have fail: ?thesis if "tree_fails (tree E s) dn (str ''read'' # xs) ret" "out = []" using that C(2-4) B by (intro effect_fails [OF C(1)]) simp_all
    show ?thesis
    proof (cases "dir_lookup (E dn) nm < 0")
      case True
      then show ?thesis using C(5) missing_file [where T = "tree E s" and d = dn and c = "str ''read''", OF tree_cur [OF ok] True] by (intro fail) (simp_all add: xs)
    next
      case False
      then obtain n where n: "dir_lookup (E dn) nm = int n" "tree E s n \<noteq> None" using tree_lookup [OF ok] by blast
      show ?thesis
      proof (cases "\<exists>bs. tree E s n = Some (File bs) \<and> start + sz \<le> length bs \<and> start \<noteq> max_bytes")
        case True
        then obtain bs where bs: "tree E s n = Some (File bs)" "start + sz \<le> length bs" "start \<noteq> max_bytes" by blast
        then have r: "ret = int sz" "out = takeWhile (\<lambda>c. c \<noteq> 0) (take sz (drop start bs)) @ [10]" using C(5) n(1) by (simp_all add: read_spec_def)
        from reads [OF tree_cur [OF ok] n(1) bs(1) num bs(2,3)] show ?thesis using C(3) B r by (intro effectI [OF C(1,2) _ C(4)]) (simp_all add: xs)
      next
        case nofile: False
        consider g where "tree E s n = Some (Dir g)" | bs where "tree E s n = Some (File bs)" using n(2) by (metis node.exhaust option.exhaust)
        then show ?thesis
        proof cases
          case 1
          then show ?thesis using C(5) n(1) is_dir [where c = "str ''read''", OF tree_cur [OF ok] n(1) 1] by (intro fail) (simp_all add: xs)
        next
          case (2 bs)
          show ?thesis
          proof (cases "length bs < start + sz")
            case True
            then show ?thesis using C(5) n(1) 2 past_end [OF tree_cur [OF ok] n(1) 2 num True] by (intro fail) (simp_all add: xs read_spec_def)
          next
            case False
            then have "start = max_bytes" using nofile 2 by auto
            then show ?thesis using C(5) n(1) 2 False at_limit num(1) by (intro fail) (simp_all add: xs read_spec_def)
          qed
        qed
      qed
    qed
  qed
qed

lemma write_effect:
  assumes ok: "shell_ok E dn s" and a: "args_are s (str ''write'' # xs)" and B: "\<And>k. off (E k) \<le> B" and len: "\<forall>w \<in> set xs. length w < 2 ^ 31"
  shows "effect E dn (str ''write'' # xs) B s (cmd_write s)"
proof (cases "nargs (s_ctx s) = 4")
  case False
  then show ?thesis using effect_usage [OF ok B a] by (simp add: cmd_write_def usage_facts)
next
  case True
  then obtain nm x buf where xs: "xs = [nm, x, buf]" using three_args [OF a] by blast
  note A = args_are_arg [OF a [unfolded xs]]
  consider "cmd_write s = Ok (- EINVAL, s)" "tree_fails (tree E s) dn (str ''write'' # xs) (- EINVAL)" | start where "str_to_offset x = (0, Some (int start))"
    using bad_offset [where c = "str ''write''"]
    by (cases x rule: offset_cases) (use True in \<open>simp_all add: cmd_write_def A numeral_eq_Suc EINVAL_def xs\<close>)
  then show ?thesis
  proof cases
    case 1
    from effect_fails [OF this] show ?thesis using ok B by simp
  next
    case 2
    have lb: "length buf < 2 ^ 31" using len xs by simp
    obtain ret s' where C: "cmd_write s = Ok (ret, s')" "s_out s' = s_out s"
     "if dir_lookup (E dn) nm < 0 then ret = - ENOENT \<and> s' = s
      else case tree E s (nat (dir_lookup (E dn) nm)) of
          Some (File bs) \<Rightarrow> write_spec E dn (nat (dir_lookup (E dn) nm)) bs start buf s ret s'
        | _ \<Rightarrow> ret = - EISDIR \<and> shell_ok E dn s' \<and> tree E s' = tree E s"
      using cmd_write_step [OF ok a [unfolded xs] 2 lb] by blast
    have fail: ?thesis if "tree_fails (tree E s) dn (str ''write'' # xs) ret" "shell_ok E dn s'" "tree E s' = tree E s" using that C(2) B by (intro effect_fails [OF C(1)]) simp_all
    show ?thesis
    proof (cases "dir_lookup (E dn) nm < 0")
      case True
      then show ?thesis using C(3) missing_file [where T = "tree E s" and d = dn and c = "str ''write''", OF tree_cur [OF ok] True] ok by (intro fail) (simp_all add: xs)
    next
      case False
      then obtain n where n: "dir_lookup (E dn) nm = int n" "tree E s n \<noteq> None" using tree_lookup [OF ok] by blast
      show ?thesis
      proof (cases "\<exists>bs. tree E s n = Some (File bs)")
        case True
        then obtain bs where bs: "tree E s n = Some (File bs)" by blast
        then consider "ret \<in> {- ENOSPC, - EFBIG}" | "ret = int (length buf)" "shell_ok E dn s'" "tree E s' = (tree E s)(n \<mapsto> File (splice bs start buf))"
          using C(3) n(1) by (auto simp: write_spec_def split: if_splits)
        then show ?thesis
        proof cases
          case 1
          then show ?thesis by (intro effect_refused [OF C(1)]) (simp add: refused_def)
        next
          case w: 2
          from writes [OF tree_cur [OF ok] n(1) bs 2, of buf] show ?thesis using w C(2) B by (intro effectI [OF C(1) w(2)]) (simp_all add: xs)
        qed
      next
        case nofile: False
        then obtain g where g: "tree E s n = Some (Dir g)" using n(2) by (metis node.exhaust option.exhaust)
        then have "ret = - EISDIR \<and> shell_ok E dn s' \<and> tree E s' = tree E s" using C(3) n(1) by simp
        then show ?thesis using is_dir [where c = "str ''write''", OF tree_cur [OF ok] n(1) g] by (intro fail) (simp_all add: xs)
      qed
    qed
  qed
qed

section \<open>One command\<close>

lemma shell_ok_cong:
  assumes "s_fs s' = s_fs s" and "cur_dir (s_ctx s') = cur_dir (s_ctx s)"
  shows "shell_ok E dn s' \<longleftrightarrow> shell_ok E dn s"
  using assms by (simp add: shell_ok_def)

lemma effect_looks:
  assumes "shell_ok E dn s" and "\<And>k. off (E k) \<le> B" and "m = Ok (0, s')" and "s_fs s' = s_fs s" "s_ctx s' = s_ctx s" "s_out s' = s_out s @ out"
    and "hd ws \<in> {str ''help'', str ''fsstat'', str ''quit''}"
  shows "effect E dn ws B s m"
  using assms shell_ok_cong [of s' s E dn] by (intro effectI [OF assms(3), of E dn B s out]) (auto intro: looks)

lemma table_cases:
  assumes "find (\<lambda>r. te_name r = nm) (cmdtable fuel) = Some r"
  shows "nm = str ''help'' \<and> te_func r = cmd_help \<or> nm = str ''cd'' \<and> te_func r = cmd_cd \<or> nm = str ''pwd'' \<and> te_func r = cmd_pwd fuel \<or>
    nm = str ''ls'' \<and> te_func r = cmd_ls_internal fuel False \<or> nm = str ''lsr'' \<and> te_func r = cmd_ls_internal fuel True \<or> nm = str ''create'' \<and> te_func r = create_cmd I_FILE \<or>
    nm = str ''stat'' \<and> te_func r = cmd_stat \<or> nm = str ''rm'' \<and> te_func r = cmd_rm \<or> nm = str ''mkdir'' \<and> te_func r = create_cmd I_DIR \<or>
    nm = str ''read'' \<and> te_func r = cmd_read \<or> nm = str ''write'' \<and> te_func r = cmd_write \<or> nm = str ''fsstat'' \<and> te_func r = cmd_fsstat \<or>
    nm = str ''quit'' \<and> te_func r = cmd_quit"
proof -
  have "cmd_ls fuel = cmd_ls_internal fuel False" "cmd_lsr fuel = cmd_ls_internal fuel True" "cmd_create = create_cmd I_FILE" "cmd_mkdir = create_cmd I_DIR"
    by (simp_all add: fun_eq_iff cmd_ls_def cmd_lsr_def cmd_create_def cmd_mkdir_def)
  then show ?thesis using table_func [OF assms] unfolding cmd_rows_def cmd_funcs_def
    by (simp only: list.map zip_Cons_Cons zip_Nil list.set prod.case insert_iff empty_iff prod.inject simp_thms)
qed

lemma command_effect:
  assumes ok: "shell_ok E dn s" and a: "args_are s (nm # xs)" and B: "\<And>k. off (E k) \<le> B" and fuel: "ls_fuel \<le> fuel"
    and len: "\<forall>w \<in> set xs. length w \<le> L" and L: "L < 2 ^ 30" "B + L + 30 < 2 ^ 31" and tame: "\<not> wild_read (nm # xs)"
    and r: "find (\<lambda>r. te_name r = nm) (cmdtable fuel) = Some r"
  shows "effect E dn (nm # xs) (B + L + 30) s (te_func r s)"
proof -
  have st: "NR_INODES \<le> fuel" using fuel by (simp add: ls_fuel_def)
  have w: "\<forall>w \<in> set xs. length w < 2 ^ 31" using len L(1) by fastforce
  have B': "off (E k) \<le> B + L + 30" for k using B [of k] by simp
  note C = create_effect [OF ok _ B len L]
  have fs: "effect E dn (str ''fsstat'' # xs) (B + L + 30) s (cmd_fsstat s)" if "args_are s (str ''fsstat'' # xs)"
  proof (cases "nargs (s_ctx s) = 1")
    case True
    then show ?thesis unfolding cmd_fsstat_def Let_def by (simp only: simp_thms if_False if_True) (rule effect_looks [OF ok B' refl]; simp)
  next
    case False
    then show ?thesis using effect_usage [OF ok B' that] by (simp add: cmd_fsstat_def usage_facts)
  qed
  have c_help: ?thesis if "nm = str ''help''" "te_func r = cmd_help" unfolding that cmd_help_def by (rule effect_looks [OF ok B' refl]) simp_all
  have c_quit: ?thesis if "nm = str ''quit''" "te_func r = cmd_quit" unfolding that cmd_quit_def by (rule effect_looks [OF ok B' refl]) simp_all
  have c_cd: ?thesis if "nm = str ''cd''" "te_func r = cmd_cd" using cd_effect [OF ok _ B'] a that by simp
  have c_pwd: ?thesis if "nm = str ''pwd''" "te_func r = cmd_pwd fuel" using pwd_effect [OF ok _ B' st] a that by simp
  have c_ls: ?thesis if "nm = str ''ls''" "te_func r = cmd_ls_internal fuel False" using ls_effect [OF ok a B' fuel] that by simp
  have c_lsr: ?thesis if "nm = str ''lsr''" "te_func r = cmd_ls_internal fuel True" using ls_effect [OF ok a B' fuel] that by simp
  have c_create: ?thesis if "nm = str ''create''" "te_func r = create_cmd I_FILE" using C [OF a] that by simp
  have c_mkdir: ?thesis if "nm = str ''mkdir''" "te_func r = create_cmd I_DIR" using C [OF a] that by simp
  have c_stat: ?thesis if "nm = str ''stat''" "te_func r = cmd_stat" using stat_effect [OF ok _ B'] a that by simp
  have c_rm: ?thesis if "nm = str ''rm''" "te_func r = cmd_rm" using rm_effect [OF ok _ B'] a that by simp
  have c_read: ?thesis if "nm = str ''read''" "te_func r = cmd_read" using read_effect [OF ok _ B'] a tame that by simp
  have c_write: ?thesis if "nm = str ''write''" "te_func r = cmd_write" using write_effect [OF ok _ B' w] a that by simp
  have c_fsstat: ?thesis if "nm = str ''fsstat''" "te_func r = cmd_fsstat" using fs a that by simp
  from table_cases [OF r] show ?thesis
    by (elim disjE conjE) (rule c_help c_quit c_cd c_pwd c_ls c_lsr c_create c_mkdir c_stat c_rm c_read c_write c_fsstat; assumption)+
qed

lemma command_frame:
  assumes r: "find (\<lambda>r. te_name r = nm) (cmdtable fuel) = Some r" and f: "te_func r s = Ok (ret, s')"
  shows "s_err s' = s_err s" "cmd (s_ctx s') = cmd (s_ctx s)" "can_quit s' \<longleftrightarrow> can_quit s \<or> nm = str ''quit''"
proof -
  have "nm = str ''quit'' \<and> te_func r = cmd_quit \<or> nm = str ''help'' \<and> te_func r = cmd_help \<or> nm \<noteq> str ''quit'' \<and> same_frame s s'"
    using table_cases [OF r] f by (elim disjE conjE) (simp_all add: not_free cmd_frames)
  then show "s_err s' = s_err s" "cmd (s_ctx s') = cmd (s_ctx s)" "can_quit s' \<longleftrightarrow> can_quit s \<or> nm = str ''quit''"
    using f by (auto simp: same_frame_def cmd_quit_def cmd_help_def str_def)
qed

end
