(* ===== verification/FS_ShellRun.thy ===== *)
theory FS_ShellRun
  imports FS_ShellSpec
begin

text \<open>
  One line, the loop and the whole program \<^verbatim>\<open>testfs\<close> as a run of the specification.
\<close>

unbundle bit_operations_syntax

section \<open>One line\<close>

definition line_effect :: "(nat \<Rightarrow> dirent list) \<Rightarrow> nat \<Rightarrow> byte list list \<Rightarrow> nat \<Rightarrow> byte list \<Rightarrow> session \<Rightarrow> session \<Rightarrow> int \<Rightarrow> bool" where
  "line_effect E dn ws B pre s s' ret \<longleftrightarrow> refused ws ret \<or>
     (\<exists>E' dn' out. shell_ok E' dn' s' \<and> (\<forall>k. off (E' k) \<le> B) \<and> s_out s' = s_out s @ pre @ out \<and> tree_step (tree E s, dn) ws ret out (tree E' s', dn'))"

text \<open>A command that returns a negative value is reported.\<close>

definition reported :: "(int \<Rightarrow> byte list) \<Rightarrow> byte list \<Rightarrow> int \<Rightarrow> session \<Rightarrow> session \<Rightarrow> bool" where
  "reported strerror nm ret s s' \<longleftrightarrow> (\<exists>u. s_err s' = s_err s @ (if ret < 0 then nm @ str '': '' @ strerror (- ret) @ [10] @ u else []))"

lemma eprint_simps [simp]: "s_fs (eprint x s) = s_fs s" "s_ctx (eprint x s) = s_ctx s" "can_quit (eprint x s) = can_quit s" "s_out (eprint x s) = s_out s" "s_err (eprint x s) = s_err s @ x"
  by (simp_all add: eprint_def)

lemma handle_step:
  assumes ok: "shell_ok E dn s" and cm: "length (cmd (s_ctx s)) = Suc MAX_ARGS" and B: "\<And>k. off (E k) \<le> B" and fuel: "ls_fuel \<le> fuel"
    and L: "L < 2 ^ 30" "B + L + 30 < 2 ^ 31" and row: "row_args nm = Some m" and ws: "ws = nm # (case args of None \<Rightarrow> [] | Some x \<Rightarrow> arg_words m x)"
    and len: "\<forall>w \<in> set ws. 0 \<notin> set w \<and> length w \<le> L" and tame: "\<not> wild_read ws"
  shows "\<exists>ret s'. handle_command True strerror fuel (Some nm) args s = Ok s' \<and> length (cmd (s_ctx s')) = Suc MAX_ARGS \<and> (can_quit s' \<longleftrightarrow> can_quit s \<or> nm = str ''quit'') \<and>
     reported strerror nm ret s s' \<and> line_effect E dn ws (B + L + 30) [] s s' ret"
proof -
  from table_rows [of nm fuel] row obtain r where r: "find (\<lambda>r. te_name r = nm) (cmdtable fuel) = Some r" "te_max_args r = m" by auto
  note m = row_args_bound [OF row]
  have "args = None \<longrightarrow> True" by simp
  then obtain c where c: "parse_command True m (s_ctx s) nm args = Ok c" "words_in c ws" "nargs c = length ws" "cur_dir c = cur_dir (s_ctx s)"
    by (rule parse_command_eq [OF cm conjunct1 [OF m] conjunct2 [OF m] _ ws])
  let ?s = "s\<lparr>s_ctx := c\<rparr>"
  obtain xs where xs: "ws = nm # xs" using ws by simp
  have ok1: "shell_ok E dn ?s" using ok c(4) shell_ok_cong [of ?s s E dn] by simp
  have cl: "length (cmd c) = Suc MAX_ARGS" "take (length ws) (cmd c) = map Some ws" "length ws \<le> Suc MAX_ARGS" using c(2) by (simp_all add: words_in_def)
  have nth: "cmd c ! i = Some (ws ! i)" if "i < length ws" for i
  proof -
    have "cmd c ! i = take (length ws) (cmd c) ! i" using that by simp
    then show ?thesis unfolding cl(2) using that by simp
  qed
  have a: "args_are ?s (nm # xs)" using cl nth c(3) len by (simp add: args_are_def flip: xs)
  have len': "\<forall>w \<in> set xs. length w \<le> L" using len xs by simp
  from command_effect [OF ok1 a B fuel len' L _ r(1)] tame xs have "effect E dn ws (B + L + 30) ?s (te_func r ?s)" by simp
  then obtain ret s1 where F: "te_func r ?s = Ok (ret, s1)"
    "refused ws ret \<or> (\<exists>E' dn' out. shell_ok E' dn' s1 \<and> (\<forall>k. off (E' k) \<le> B + L + 30) \<and> s_out s1 = s_out s @ out \<and> tree_step (tree E s, dn) ws ret out (tree E' s1, dn'))"
    unfolding effect_def by (elim exE conjE) simp
  note fr = command_frame [OF r(1) F(1)]
  have a0: "arg s1 0 f = f nm" for f :: "byte list \<Rightarrow> session outcome" using fr(2) cl nth [of 0] xs by (simp add: arg_def)
  let ?u = "te_usage r @ [10]"
  let ?s2 = "if ret < 0 then eprint (nm @ str '': '' @ strerror (- ret) @ [10] @ ?u) s1 else s1"
  have e: "handle_command True strerror fuel (Some nm) args s = Ok ?s2" using r c(1) F(1) a0 by (simp add: handle_command_def)
  have f2: "s_fs ?s2 = s_fs s1" "s_ctx ?s2 = s_ctx s1" "s_out ?s2 = s_out s1" "can_quit ?s2 = can_quit s1" by simp_all
  have "line_effect E dn ws (B + L + 30) [] s ?s2 ret" unfolding line_effect_def f2 using F(2) shell_ok_cong [of ?s2 s1] f2 by simp
  moreover have "reported strerror nm ret s ?s2" using fr(1) by (auto simp: reported_def)
  ultimately show ?thesis using e f2 fr(2,3) cl(1) by (intro exI [of _ ret] exI [of _ ?s2]) simp
qed

lemma line_skip:
  assumes "line_command l = None"
  obtains s' pre where "shell_line True strerror fuel verbose l s = Ok s'" "s_fs s' = s_fs s" "s_ctx s' = s_ctx s" "can_quit s' = can_quit s" "s_out s' = s_out s @ pre" "\<not> verbose \<Longrightarrow> pre = []"
proof -
  let ?l = "takeWhile (\<lambda>c. c \<noteq> 0) l"
  let ?t = "dropWhile is_blank ?l"
  let ?nm = "takeWhile (\<lambda>c. \<not> is_blank c) ?t"
  let ?s = "if verbose then print ?l s else s"
  consider "take 1 ?l = str ''#''" | "take 1 ?l \<noteq> str ''#''" "?t = []" | "take 1 ?l \<noteq> str ''#''" "?t \<noteq> []" "row_args ?nm = None"
    using assms by (auto simp: line_command_def Let_def split: option.splits if_splits)
  then show thesis
  proof cases
    case 1
    then show thesis using that [of s "[]"] by (simp add: shell_line_def)
  next
    case 2
    have s: "strtok_r True (Some ?l) is_blank None = Ok (None, Some [])" using strtok_r_text [of None "Some ?l" ?l] 2(2) by (simp del: dropWhile_eq_Nil_conv)
    have "strtok_r True None is_eol (Some []) = Ok (None, Some [])" by (simp add: strtok_r_def)
    then have "shell_line True strerror fuel verbose l s = Ok ?s" using 2(1) s by (simp add: shell_line_def handle_command_def Let_def)
    then show thesis by (rule that [of _ "if verbose then ?l else []"]) simp_all
  next
    case 3
    let ?r = "tl (dropWhile (\<lambda>c. \<not> is_blank c) ?t)"
    have s: "strtok_r True (Some ?l) is_blank None = Ok (Some ?nm, Some ?r)" using strtok_r_text [of None "Some ?l" ?l] 3(2) by (simp del: dropWhile_eq_Nil_conv)
    obtain a b where t: "strtok_r True None is_eol (Some ?r) = Ok (a, b)" using strtok_r_text [of "Some ?r" None ?r True is_eol] by (simp split: if_splits)
    have f: "find (\<lambda>r. te_name r = ?nm) (cmdtable fuel) = None" using table_rows [of ?nm fuel] 3(3) by simp
    have "shell_line True strerror fuel verbose l s = Ok (eprint (?nm @ str '': command not found. type '' @ [34] @ str ''help'' @ [34, 10]) ?s)"
      using 3(1) s t f by (simp add: shell_line_def handle_command_def Let_def)
    then show thesis by (rule that [of _ "if verbose then ?l else []"]) simp_all
  qed
qed

lemma line_step:
  assumes ok: "shell_ok E dn s" and cm: "length (cmd (s_ctx s)) = Suc MAX_ARGS" and B: "\<And>k. off (E k) \<le> B" and fuel: "ls_fuel \<le> fuel"
    and L: "length l < 2 ^ 30" "B + length l + 30 < 2 ^ 31" and l: "line_command l = Some ws" and tame: "\<not> wild_read ws"
  shows "\<exists>ret s' pre. shell_line True strerror fuel verbose l s = Ok s' \<and> length (cmd (s_ctx s')) = Suc MAX_ARGS \<and> (can_quit s' \<longleftrightarrow> can_quit s \<or> hd ws = str ''quit'') \<and>
     reported strerror (hd ws) ret s s' \<and> line_effect E dn ws (B + length l + 30) pre s s' ret \<and> (\<not> verbose \<longrightarrow> pre = [])"
proof -
  let ?l = "takeWhile (\<lambda>c. c \<noteq> 0) l"
  let ?t = "dropWhile is_blank ?l"
  let ?nm = "takeWhile (\<lambda>c. \<not> is_blank c) ?t" and ?r = "tl (dropWhile (\<lambda>c. \<not> is_blank c) ?t)"
  let ?a = "dropWhile is_eol ?r"
  let ?args = "if ?a = [] then None else Some (takeWhile (\<lambda>c. \<not> is_eol c) ?a)"
  let ?s = "if verbose then print ?l s else s"
  have c: "\<not> (take 1 ?l = str ''#'' \<or> ?t = [])" using l by (auto simp: line_command_def Let_def simp del: dropWhile_eq_Nil_conv)
  then obtain m where m: "row_args ?nm = Some m" "ws = ?nm # (if ?a = [] then [] else arg_words m (takeWhile (\<lambda>c. \<not> is_eol c) ?a))"
    using l by (auto simp: line_command_def Let_def split: option.splits simp del: dropWhile_eq_Nil_conv)
  have ws: "ws = ?nm # (case ?args of None \<Rightarrow> [] | Some x \<Rightarrow> arg_words m x)" using m(2) by (simp del: dropWhile_eq_Nil_conv)
  have s: "strtok_r True (Some ?l) is_blank None = Ok (Some ?nm, Some ?r)" using strtok_r_text [of None "Some ?l" ?l] c by (simp del: dropWhile_eq_Nil_conv)
  have "\<exists>b. strtok_r True None is_eol (Some ?r) = Ok (?args, b)" using strtok_r_text [of "Some ?r" None ?r True is_eol] by (simp del: dropWhile_eq_Nil_conv)
  then obtain b where t: "strtok_r True None is_eol (Some ?r) = Ok (?args, b)" by blast
  have e: "shell_line True strerror fuel verbose l s = handle_command True strerror fuel (Some ?nm) ?args ?s"
    unfolding shell_line_def Let_def s and_then.simps prod.case t using c by (simp del: dropWhile_eq_Nil_conv)
  have f: "s_fs ?s = s_fs s" "s_ctx ?s = s_ctx s" "can_quit ?s = can_quit s" "s_err ?s = s_err s" "s_out ?s = s_out s @ (if verbose then ?l else [])" by simp_all
  have ok1: "shell_ok E dn ?s" using ok shell_ok_cong [of ?s s E dn] f by simp
  have cm1: "length (cmd (s_ctx ?s)) = Suc MAX_ARGS" using cm f by simp
  have len: "\<forall>w \<in> set ws. 0 \<notin> set w \<and> length w \<le> length l" using line_command_part [OF l] by blast
  obtain ret s' where H: "handle_command True strerror fuel (Some ?nm) ?args ?s = Ok s'" "length (cmd (s_ctx s')) = Suc MAX_ARGS" "can_quit s' \<longleftrightarrow> can_quit s \<or> ?nm = str ''quit''"
    "reported strerror ?nm ret ?s s'" "line_effect E dn ws (B + length l + 30) [] ?s s' ret"
    using handle_step [OF ok1 cm1 B fuel L m(1) ws len tame, of strerror] unfolding f by blast
  have "reported strerror ?nm ret s s'" using H(4) unfolding reported_def f .
  moreover have "line_effect E dn ws (B + length l + 30) (if verbose then ?l else []) s s' ret" using H(5) unfolding line_effect_def f by simp
  moreover have "hd ws = ?nm" using ws by simp
  ultimately show ?thesis using e H(1-3) by (intro exI [of _ ret] exI [of _ s'] exI [of _ "if verbose then ?l else []"]) simp
qed

section \<open>A session\<close>

text \<open>
  The lines are carried out one after the other until the end of the input or \<open>quit\<close>; comments, empty lines and unknown commands change nothing. The label is the list of what the commands print.
\<close>

inductive tree_session :: "(nat \<Rightarrow> node option) \<times> nat \<Rightarrow> byte list list \<Rightarrow> byte list list \<Rightarrow> (nat \<Rightarrow> node option) \<times> nat \<Rightarrow> bool" where
  session_end: "tree_session st [] [] st"
| session_skip: "line_command l = None \<Longrightarrow> tree_session st ls outs st' \<Longrightarrow> tree_session st (l # ls) outs st'"
| session_step: "line_command l = Some ws \<Longrightarrow> hd ws \<noteq> str ''quit'' \<Longrightarrow> tree_step st ws ret out st1 \<Longrightarrow> tree_session st1 ls outs st' \<Longrightarrow> tree_session st (l # ls) (out # outs) st'"
| session_quit: "line_command l = Some ws \<Longrightarrow> hd ws = str ''quit'' \<Longrightarrow> tree_step st ws ret out st' \<Longrightarrow> tree_session st (l # ls) [out] st'"

text \<open>
  The session meets a refused command: after the lines \<open>pre\<close>, which were carried out, the command of the line \<open>l\<close> reports one of the errors of \<open>refused\<close>.
\<close>

definition gives_up :: "(int \<Rightarrow> byte list) \<Rightarrow> nat \<Rightarrow> bool \<Rightarrow> bool \<Rightarrow> (nat \<Rightarrow> node option) \<times> nat \<Rightarrow> byte list list \<Rightarrow> session \<Rightarrow> bool" where
  "gives_up strerror fuel hide verbose st lines s \<longleftrightarrow> (\<exists>pre l post s1 s2 outs st1 ws ret. lines = pre @ l # post \<and>
     shell_loop True strerror fuel hide verbose lines s = shell_loop True strerror fuel hide verbose (l # post) s1 \<and> tree_session st pre outs st1 \<and>
     line_command l = Some ws \<and> refused ws ret \<and> shell_line True strerror fuel verbose l (prompt hide s1) = Ok s2 \<and> reported strerror (hd ws) ret s1 s2)"

lemma gives_up_cons:
  assumes g: "gives_up strerror fuel hide verbose st1 ls s1" and run: "shell_line True strerror fuel verbose l (prompt hide s) = Ok s1" "\<not> can_quit s1"
    and st: "\<And>outs st2 pre. tree_session st1 pre outs st2 \<Longrightarrow> \<exists>outs'. tree_session st (l # pre) outs' st2"
  shows "gives_up strerror fuel hide verbose st (l # ls) s"
proof -
  from g obtain pre k post s2 s3 outs st2 ws ret where G: "ls = pre @ k # post"
    "shell_loop True strerror fuel hide verbose ls s1 = shell_loop True strerror fuel hide verbose (k # post) s2" "tree_session st1 pre outs st2"
    "line_command k = Some ws" "refused ws ret" "shell_line True strerror fuel verbose k (prompt hide s2) = Ok s3" "reported strerror (hd ws) ret s2 s3"
    unfolding gives_up_def by (elim exE conjE) (rule that; assumption)
  have e: "shell_loop True strerror fuel hide verbose (l # ls) s = shell_loop True strerror fuel hide verbose (k # post) s2" using run G(2) by simp
  obtain outs' where t: "tree_session st (l # pre) outs' st2" using st [OF G(3)] by blast
  have "l # ls = (l # pre) @ k # post" using G(1) by simp
  then show ?thesis unfolding gives_up_def using e t G(4-7)
    by (intro exI [of _ "l # pre"] exI [of _ k] exI [of _ post] exI [of _ s2] exI [of _ s3] exI [of _ outs'] exI [of _ st2] exI [of _ ws] exI [of _ ret] conjI)
qed

lemma prompt_simps [simp]: "s_fs (prompt h s) = s_fs s" "s_ctx (prompt h s) = s_ctx s" "can_quit (prompt h s) = can_quit s" "s_err (prompt h s) = s_err s"
  "s_out (prompt h s) = s_out s @ (if h then [] else str ''% '')"
  by (simp_all add: prompt_def)

definition budget :: "byte list list \<Rightarrow> nat" where
  "budget lines = sum_list (map (\<lambda>l. length l + 30) lines)"

lemma shell_loop_refines:
  assumes "shell_ok E dn s" and "length (cmd (s_ctx s)) = Suc MAX_ARGS" and "\<not> can_quit s" and "\<And>k. off (E k) \<le> B" and "B + budget lines < 2 ^ 30"
    and fuel: "ls_fuel \<le> fuel" and "\<And>l ws. l \<in> set lines \<Longrightarrow> line_command l = Some ws \<Longrightarrow> \<not> wild_read ws"
  shows "(\<exists>s' E' dn' outs. shell_loop True strerror fuel hide verbose lines s = Ok s' \<and> shell_ok E' dn' s' \<and> tree_session (tree E s, dn) lines outs (tree E' s', dn') \<and>
       (hide \<and> \<not> verbose \<longrightarrow> s_out s' = s_out s @ concat outs)) \<or> gives_up strerror fuel hide verbose (tree E s, dn) lines s"
  using assms(1-5,7)
proof (induction lines arbitrary: E dn s B)
  case Nil
  have "shell_ok E dn (prompt hide s)" using shell_ok_cong [of "prompt hide s" s E dn] Nil(1) by simp
  then show ?case by (intro disjI1 exI [of _ "prompt hide s"] exI [of _ E] exI [of _ dn] exI [of _ "[]"]) (simp add: session_end)
next
  case (Cons l ls)
  let ?s = "prompt hide s"
  have ok: "shell_ok E dn ?s" using shell_ok_cong [of ?s s E dn] Cons.prems(1) by simp
  have cm: "length (cmd (s_ctx ?s)) = Suc MAX_ARGS" using Cons.prems(2) by simp
  have L: "length l < 2 ^ 30" "B + length l + 30 < 2 ^ 31" "(B + length l + 30) + budget ls < 2 ^ 30" using Cons.prems(5) by (simp_all add: budget_def)
  have tame: "\<not> wild_read ws" if "k \<in> set ls" "line_command k = Some ws" for k ws using Cons.prems(6) [of k ws] that by simp
  show ?case
  proof (cases "line_command l")
    case None
    obtain s1 pre where S: "shell_line True strerror fuel verbose l ?s = Ok s1" "s_fs s1 = s_fs ?s" "s_ctx s1 = s_ctx ?s" "can_quit s1 = can_quit ?s" "s_out s1 = s_out ?s @ pre" "\<not> verbose \<Longrightarrow> pre = []"
      using line_skip [OF None] by blast
    have ok1: "shell_ok E dn s1" using shell_ok_cong [of s1 ?s E dn] S(2,3) ok by simp
    have nq: "\<not> can_quit s1" using S(4) Cons.prems(3) by simp
    have b: "B + budget ls < 2 ^ 30" using L(3) by simp
    have e: "shell_loop True strerror fuel hide verbose (l # ls) s = shell_loop True strerror fuel hide verbose ls s1" using S(1) nq by simp
    have tr: "tree E s1 = tree E s" using S(2) by simp
    have cm1: "length (cmd (s_ctx s1)) = Suc MAX_ARGS" using S(3) cm by simp
    from Cons.IH [OF ok1 cm1 nq Cons.prems(4) b tame] show ?thesis
    proof
      assume "\<exists>s' E' dn' outs. shell_loop True strerror fuel hide verbose ls s1 = Ok s' \<and> shell_ok E' dn' s' \<and> tree_session (tree E s1, dn) ls outs (tree E' s', dn') \<and>
        (hide \<and> \<not> verbose \<longrightarrow> s_out s' = s_out s1 @ concat outs)"
      then obtain s' E' dn' outs where R: "shell_loop True strerror fuel hide verbose ls s1 = Ok s'" "shell_ok E' dn' s'" "tree_session (tree E s, dn) ls outs (tree E' s', dn')"
        "hide \<and> \<not> verbose \<longrightarrow> s_out s' = s_out s1 @ concat outs" unfolding tr by blast
      have o: "hide \<and> \<not> verbose \<longrightarrow> s_out s' = s_out s @ concat outs" using R(4) S(5,6) by simp
      show ?thesis unfolding e using R(1,2) session_skip [OF None R(3)] o by (intro disjI1 exI [of _ s'] exI [of _ E'] exI [of _ dn'] exI [of _ outs] conjI)
    next
      assume g: "gives_up strerror fuel hide verbose (tree E s1, dn) ls s1"
      have "gives_up strerror fuel hide verbose (tree E s, dn) (l # ls) s"
        by (rule gives_up_cons [OF g [unfolded tr] S(1) nq]) (rule exI, rule session_skip [OF None], assumption)
      then show ?thesis by (rule disjI2)
    qed
  next
    case (Some ws)
    have tm: "\<not> wild_read ws" using Cons.prems(6) [of l ws] Some by simp
    obtain ret s1 pre where S: "shell_line True strerror fuel verbose l ?s = Ok s1" "length (cmd (s_ctx s1)) = Suc MAX_ARGS" "can_quit s1 \<longleftrightarrow> can_quit ?s \<or> hd ws = str ''quit''"
      "reported strerror (hd ws) ret ?s s1" "line_effect E dn ws (B + length l + 30) pre ?s s1 ret" "\<not> verbose \<longrightarrow> pre = []"
      using line_step [OF ok cm Cons.prems(4) fuel L(1,2) Some tm, of strerror verbose] by blast
    have tr: "tree E ?s = tree E s" by simp
    have rep: "reported strerror (hd ws) ret s s1" using S(4) by (simp add: reported_def)
    from S(5)[unfolded line_effect_def tr] show ?thesis
    proof
      assume "refused ws ret"
      then show ?thesis using Some S(1) rep session_end [of "(tree E s, dn)"]
        unfolding gives_up_def by (intro disjI2 exI [of _ "[]"] exI [of _ l] exI [of _ ls] exI [of _ s] exI [of _ s1] exI [of _ "(tree E s, dn)"] exI [of _ ws] exI [of _ ret] conjI append_Nil [symmetric] refl)
    next
      assume "\<exists>E' dn' out. shell_ok E' dn' s1 \<and> (\<forall>k. off (E' k) \<le> B + length l + 30) \<and> s_out s1 = s_out ?s @ pre @ out \<and> tree_step (tree E s, dn) ws ret out (tree E' s1, dn')"
      then obtain E1 dn1 out where T: "shell_ok E1 dn1 s1" "\<And>k. off (E1 k) \<le> B + length l + 30" "s_out s1 = s_out ?s @ pre @ out" "tree_step (tree E s, dn) ws ret out (tree E1 s1, dn1)" by blast
      have o1: "hide \<and> \<not> verbose \<longrightarrow> s_out s1 = s_out s @ out" using T(3) S(6) by simp
      show ?thesis
      proof (cases "hd ws = str ''quit''")
        case True
        then have e: "shell_loop True strerror fuel hide verbose (l # ls) s = Ok s1" using S(1,3) by simp
        show ?thesis unfolding e using T(1) session_quit [OF Some True T(4)] o1 by (intro disjI1 exI [of _ s1] exI [of _ E1] exI [of _ dn1] exI [of _ "[out]"]) simp
      next
        case False
        then have nq: "\<not> can_quit s1" using S(3) Cons.prems(3) by simp
        have e: "shell_loop True strerror fuel hide verbose (l # ls) s = shell_loop True strerror fuel hide verbose ls s1" using S(1) nq by simp
        from Cons.IH [OF T(1) S(2) nq T(2) L(3) tame] show ?thesis
        proof
          assume "\<exists>s' E' dn' outs. shell_loop True strerror fuel hide verbose ls s1 = Ok s' \<and> shell_ok E' dn' s' \<and> tree_session (tree E1 s1, dn1) ls outs (tree E' s', dn') \<and>
            (hide \<and> \<not> verbose \<longrightarrow> s_out s' = s_out s1 @ concat outs)"
          then obtain s' E' dn' outs where R: "shell_loop True strerror fuel hide verbose ls s1 = Ok s'" "shell_ok E' dn' s'" "tree_session (tree E1 s1, dn1) ls outs (tree E' s', dn')"
            "hide \<and> \<not> verbose \<longrightarrow> s_out s' = s_out s1 @ concat outs" by blast
          have o: "hide \<and> \<not> verbose \<longrightarrow> s_out s' = s_out s @ concat (out # outs)" using R(4) o1 by simp
          show ?thesis unfolding e using R(1,2) session_step [OF Some False T(4) R(3)] o by (intro disjI1 exI [of _ s'] exI [of _ E'] exI [of _ dn'] exI [of _ "out # outs"] conjI)
        next
          assume g: "gives_up strerror fuel hide verbose (tree E1 s1, dn1) ls s1"
          have "gives_up strerror fuel hide verbose (tree E s, dn) (l # ls) s"
            by (rule gives_up_cons [OF g S(1) nq]) (rule exI, rule session_step [OF Some False T(4)], assumption)
          then show ?thesis by (rule disjI2)
        qed
      qed
    qed
  qed
qed

section \<open>Properties\<close>

lemma main_run:
  assumes inv: "fs_inv E fs" and mem: "imem fs = (\<lambda>_. None)" "\<forall>k < 5. mem k" and d: "testfs_close_super_block fs = Ok d"
  obtains p fs1 where "testfs_init_super_block mem junk (Inr d) = Ok (0, Some (mounted (fsb fs)))" "testfs_get_inode (mounted (fsb fs)) 0 = Ok (p, fs1)"
    "\<And>ctx. shell_ok E 0 (start_session ctx p fs1)" "\<And>ctx. tree E (start_session ctx p fs1) = view E fs"
proof -
  have e: "d = dev (fsb fs)" using close_eq [OF fs_invD(1) [OF inv] mem(1)] d by simp
  have i: "testfs_init_super_block mem junk (Inr d) = Ok (0, Some (mounted (fsb fs)))" unfolding e by (rule init_eq [OF core_invD(1) [OF fs_invD(1) [OF inv]] mem(2)])
  obtain fs' where F: "testfs_init_super_block mem junk (Inr d) = Ok (0, Some fs')" "fs_inv E fs'" "view E fs' = view E fs" "imem fs' = (\<lambda>_. None)"
    using close_init [OF inv mem, of junk] d by auto
  have f: "fs' = mounted (fsb fs)" using i F(1) by simp
  obtain p fs1 where G: "testfs_get_inode fs' 0 = Ok (p, fs1)" "\<And>s :: session. s_fs s = fs1 \<Longrightarrow> cur_dir (s_ctx s) = p \<Longrightarrow> shell_ok E 0 s \<and> tree E s = view E fs' \<and> dirs (s_fs s) = dirs fs'"
    by (rule shell_start [OF F(2,4)], rule that) assumption+
  show thesis using i G(1) G(2) [of "start_session _ p fs1"] F(3) f by (intro that [of p fs1]) (simp_all add: start_session_def)
qed


lemma sample_fs:
  obtains fs d where "fs_inv root_entries fs" "imem fs = (\<lambda>_. None)" "testfs_close_super_block fs = Ok d" "view root_entries fs = [0 \<mapsto> fresh_node I_DIR 0 0]"
proof -
  obtain fs where F: "imem fs = (\<lambda>_. None)" "fs_inv root_entries fs" "view root_entries fs = [0 \<mapsto> fresh_node I_DIR 0 0]"
    unfolding root_entries_def by (rule make_root_step [of 8]) (simp, blast)
  then show thesis using close_eq [OF fs_invD(1) [OF F(2)] F(1)] by (intro that)
qed


end
