(* ===== verification/Thread_Queue.thy ===== *)
theory Thread_Queue
  imports Interfaces
begin

text \<open>
  The thread queues of \<^verbatim>\<open>threads/thread.c\<close>: singly linked lists with head, tail and size in a heap
  of list nodes and thread structures, every operation on them as pointer updates, and the proof
  that on well-formed queues each is the intended operation on lists and never follows a wrong
  pointer.
\<close>

section \<open>Definitions\<close>

datatype THREAD_STATUS = THREAD_RUNNING | THREAD_READY | THREAD_BLOCKED | THREAD_EXITED

text \<open>
  The saved context of a thread, as far as the library itself depends on it: a thread that
  has not run yet enters \<open>thread_stub\<close>; any other stopped inside \<open>thread_yield\<close> or \<open>thread_sleep\<close>, with
  their local variables \<^verbatim>\<open>want_tid\<close> or \<^verbatim>\<open>ret_id\<close> and \<^verbatim>\<open>enabled\<close>, and what called them: the program,
  the interrupt handler, or a function of the library that goes on after the call (\<open>thread_wait\<close>,
  \<open>lock_acquire\<close>, itself perhaps called by \<open>cv_wait\<close>, or \<open>cv_wait\<close>), with its own \<^verbatim>\<open>enabled\<close>.
\<close>

datatype caller =
    From_program
  | From_handler
  | From_wait int bool
  | From_acquire nat bool "bool option"
  | From_cv_wait nat bool

datatype ucontext = In_stub | In_yield int bool caller | In_sleep int bool caller

record tnode =
  nd_thread :: nat
  nd_next :: "nat option"

record thread_queue =
  q_size :: int
  q_head :: "nat option"
  q_tail :: "nat option"

record tcb =
  t_id :: int
  t_status :: THREAD_STATUS
  t_context :: ucontext
  t_stack :: "nat option"

text \<open>
  The memory of the library: list nodes, thread structures, stacks and queues by address
  (\<open>RQ\<close> and \<open>EQ\<close> are the static queues \<^verbatim>\<open>rq\<close> and \<^verbatim>\<open>eq\<close>). An address that was freed is not in the maps any
  more, so that using it is an access out of bounds. Addresses are handed out upwards from \<open>brk\<close>.
\<close>

datatype qid = RQ | EQ | WQ nat

record tmem =
  nodes :: "nat \<Rightarrow> tnode option"
  tcbs :: "nat \<Rightarrow> tcb option"
  stacks :: "nat set"
  queues :: "qid \<Rightarrow> thread_queue option"
  brk :: nat

definition fetch :: "('a \<Rightarrow> 'b option) \<Rightarrow> 'a \<Rightarrow> 'b outcome" where
  "fetch m a = (case m a of None \<Rightarrow> Crash MemFault | Some x \<Rightarrow> Ok x)"

definition deref :: "nat option \<Rightarrow> nat outcome" where
  "deref p = (case p of None \<Rightarrow> Crash MemFault | Some a \<Rightarrow> Ok a)"

definition set_next :: "tmem \<Rightarrow> nat \<Rightarrow> nat option \<Rightarrow> tmem outcome" where
  "set_next s p nx =
     and_then (fetch (nodes s) p) (\<lambda>n. Ok (s\<lparr>nodes := (nodes s)(p \<mapsto> n\<lparr>nd_next := nx\<rparr>)\<rparr>))"

definition set_queue :: "tmem \<Rightarrow> qid \<Rightarrow> thread_queue \<Rightarrow> tmem" where
  "set_queue s k q = s\<lparr>queues := (queues s)(k \<mapsto> q)\<rparr>"

text \<open>
  The loops over a list carry a bound on the number of steps; a list without end would revisit an
  address, so a loop that makes more steps than there are addresses never returns.
\<close>

fun find_loop :: "nat \<Rightarrow> tmem \<Rightarrow> nat option \<Rightarrow> int \<Rightarrow> nat option outcome" where
  "find_loop 0 s current tid = Crash Diverges"
| "find_loop (Suc fuel) s current tid =
     (case current of None \<Rightarrow> Ok None
      | Some p \<Rightarrow>
          and_then (fetch (nodes s) p) (\<lambda>n.
          and_then (fetch (tcbs s) (nd_thread n)) (\<lambda>t.
            if t_id t = tid then Ok (Some p) else find_loop fuel s (nd_next n) tid)))"

definition find_in_queue :: "tmem \<Rightarrow> qid \<Rightarrow> int \<Rightarrow> nat option outcome" where
  "find_in_queue s k tid = and_then (fetch (queues s) k) (\<lambda>q. find_loop (Suc (brk s)) s (q_head q) tid)"

text \<open>\<open>find_prev_loop\<close> returns \<^verbatim>\<open>current->next\<close> and \<^verbatim>\<open>current\<close>.\<close>

fun find_prev_loop :: "nat \<Rightarrow> tmem \<Rightarrow> nat \<Rightarrow> int \<Rightarrow> (nat option \<times> nat) outcome" where
  "find_prev_loop 0 s current tid = Crash Diverges"
| "find_prev_loop (Suc fuel) s current tid =
     and_then (fetch (nodes s) current) (\<lambda>n.
       case nd_next n of None \<Rightarrow> Ok (None, current)
       | Some p \<Rightarrow>
           and_then (fetch (nodes s) p) (\<lambda>m.
           and_then (fetch (tcbs s) (nd_thread m)) (\<lambda>t.
             if t_id t = tid then Ok (Some p, current) else find_prev_loop fuel s p tid)))"

definition find_in_queue_with_prev :: "tmem \<Rightarrow> qid \<Rightarrow> int \<Rightarrow> (nat option \<times> nat option) outcome" where
  "find_in_queue_with_prev s k tid =
     and_then (fetch (queues s) k) (\<lambda>q.
     and_then (deref (q_head q)) (\<lambda>h.
     and_then (fetch (nodes s) h) (\<lambda>n.
     and_then (fetch (tcbs s) (nd_thread n)) (\<lambda>t.
       if t_id t = tid then Ok (Some h, None)
       else and_then (find_prev_loop (Suc (brk s)) s h tid) (\<lambda>(found, prev). Ok (found, Some prev))))))"

definition append_node_to_queue :: "tmem \<Rightarrow> qid \<Rightarrow> nat \<Rightarrow> tmem outcome" where
  "append_node_to_queue s k node =
     and_then (fetch (queues s) k) (\<lambda>q.
       if q_head q = None then
         Ok (set_queue s k (q\<lparr>q_head := Some node, q_tail := Some node, q_size := q_size q + 1\<rparr>))
       else
         and_then (deref (q_tail q)) (\<lambda>t.
         and_then (set_next s t (Some node)) (\<lambda>s.
           Ok (set_queue s k (q\<lparr>q_tail := Some node, q_size := q_size q + 1\<rparr>)))))"

text \<open>\<open>mem\<close> tells whether \<^verbatim>\<open>malloc\<close> has memory for the node.\<close>

definition append_to_queue :: "tmem \<Rightarrow> qid \<Rightarrow> nat \<Rightarrow> bool \<Rightarrow> (bool \<times> tmem) outcome" where
  "append_to_queue s k th mem =
     (if \<not> mem then Ok (False, s)
      else
        let node = brk s;
            s = s\<lparr>nodes := (nodes s)(node \<mapsto> \<lparr>nd_thread = th, nd_next = None\<rparr>), brk := Suc node\<rparr> in
        and_then (append_node_to_queue s k node) (\<lambda>s. Ok (True, s)))"

definition move_head_to_end :: "tmem \<Rightarrow> qid \<Rightarrow> tmem outcome" where
  "move_head_to_end s k =
     and_then (fetch (queues s) k) (\<lambda>q.
       if q_size q \<le> 1 then Ok s
       else
         and_then (deref (q_head q)) (\<lambda>old_head.
         and_then (fetch (nodes s) old_head) (\<lambda>n.
         and_then (deref (q_tail q)) (\<lambda>t.
         and_then (set_next s t (Some old_head)) (\<lambda>s.
         and_then (set_next s old_head None) (\<lambda>s.
           Ok (set_queue s k (q\<lparr>q_head := nd_next n, q_tail := Some old_head\<rparr>))))))))"

definition move_to_head :: "tmem \<Rightarrow> qid \<Rightarrow> nat \<Rightarrow> nat option \<Rightarrow> tmem outcome" where
  "move_to_head s k target prev =
     and_then (fetch (queues s) k) (\<lambda>q.
       if q_size q \<le> 1 then Ok s
       else if Some target = q_head q then Ok s
       else
         and_then (deref prev) (\<lambda>pv.
         and_then (fetch (nodes s) target) (\<lambda>n.
         and_then (set_next s pv (nd_next n)) (\<lambda>s.
         and_then (set_next s target (q_head q)) (\<lambda>s.
           Ok (set_queue s k (q\<lparr>q_head := Some target,
             q_tail := (if q_tail q = Some target then prev else q_tail q)\<rparr>)))))))"

definition pop_queue :: "tmem \<Rightarrow> qid \<Rightarrow> (nat \<times> tmem) outcome" where
  "pop_queue s k =
     and_then (fetch (queues s) k) (\<lambda>q.
     and_then (deref (q_head q)) (\<lambda>old_head.
     and_then (fetch (nodes s) old_head) (\<lambda>n.
     and_then (set_next s old_head None) (\<lambda>s.
       Ok (old_head, set_queue s k (q\<lparr>q_head := nd_next n, q_size := q_size q - 1\<rparr>))))))"

definition remove_from_queue :: "tmem \<Rightarrow> qid \<Rightarrow> nat \<Rightarrow> nat option \<Rightarrow> tmem outcome" where
  "remove_from_queue s k target prev =
     and_then (fetch (queues s) k) (\<lambda>q.
       if q_size q = 1 then Ok (set_queue s k (q\<lparr>q_head := None, q_tail := None, q_size := q_size q - 1\<rparr>))
       else if Some target = q_head q then
         and_then (fetch (nodes s) target) (\<lambda>n.
         and_then (set_next s target None) (\<lambda>s.
           Ok (set_queue s k (q\<lparr>q_head := nd_next n, q_size := q_size q - 1\<rparr>))))
       else
         and_then (deref prev) (\<lambda>pv.
         and_then (fetch (nodes s) target) (\<lambda>n.
         and_then (set_next s pv (nd_next n)) (\<lambda>s.
         and_then (set_next s target None) (\<lambda>s.
           Ok (set_queue s k (q\<lparr>q_tail := (if Some target = q_tail q then prev else q_tail q),
             q_size := q_size q - 1\<rparr>)))))))"

text \<open>\<^verbatim>\<open>free\<close> of a stack: nothing for \<^verbatim>\<open>NULL\<close>, an error for anything but an allocated stack.\<close>

definition free_stack :: "tmem \<Rightarrow> nat option \<Rightarrow> tmem outcome" where
  "free_stack s p =
     (case p of None \<Rightarrow> Ok s
      | Some a \<Rightarrow> if a \<in> stacks s then Ok (s\<lparr>stacks := stacks s - {a}\<rparr>) else Crash MemFault)"

definition free_node :: "tmem \<Rightarrow> nat option \<Rightarrow> tmem outcome" where
  "free_node s node =
     (case node of None \<Rightarrow> Ok s
      | Some p \<Rightarrow>
          and_then (fetch (nodes s) p) (\<lambda>n.
          and_then (fetch (tcbs s) (nd_thread n)) (\<lambda>t.
          and_then (free_stack s (t_stack t)) (\<lambda>s.
            Ok (s\<lparr>tcbs := (tcbs s)(nd_thread n := None), nodes := (nodes s)(p := None)\<rparr>)))))"

fun clear_loop :: "nat \<Rightarrow> tmem \<Rightarrow> nat option \<Rightarrow> tmem outcome" where
  "clear_loop 0 s head = Crash Diverges"
| "clear_loop (Suc fuel) s head =
     (case head of None \<Rightarrow> Ok s
      | Some p \<Rightarrow>
          and_then (fetch (nodes s) p) (\<lambda>n.
          and_then (free_node s (Some p)) (\<lambda>s. clear_loop fuel s (nd_next n))))"

definition clear_queue :: "tmem \<Rightarrow> qid option \<Rightarrow> tmem outcome" where
  "clear_queue s ko =
     (case ko of None \<Rightarrow> Ok s
      | Some k \<Rightarrow>
          and_then (fetch (queues s) k) (\<lambda>q.
          and_then (clear_loop (Suc (brk s)) s (q_head q)) (\<lambda>s.
            Ok (set_queue s k (q\<lparr>q_head := None, q_tail := None, q_size := 0\<rparr>)))))"

definition set_thread_status :: "tmem \<Rightarrow> nat \<Rightarrow> THREAD_STATUS \<Rightarrow> tmem outcome" where
  "set_thread_status s th status =
     and_then (fetch (tcbs s) th) (\<lambda>t.
       if t_status t \<noteq> THREAD_EXITED then Ok (s\<lparr>tcbs := (tcbs s)(th \<mapsto> t\<lparr>t_status := status\<rparr>)\<rparr>) else Ok s)"

section \<open>Linked lists\<close>

primrec chain :: "(nat \<Rightarrow> tnode option) \<Rightarrow> nat option \<Rightarrow> nat list \<Rightarrow> nat option \<Rightarrow> bool" where
  "chain h x [] y \<longleftrightarrow> x = y"
| "chain h x (a # as) y \<longleftrightarrow> x = Some a \<and> (\<exists>n. h a = Some n \<and> chain h (nd_next n) as y)"

lemma chain_append: "chain h x (as @ bs) y \<longleftrightarrow> (\<exists>z. chain h x as z \<and> chain h z bs y)"
  by (induction as arbitrary: x) auto

lemma chain_update [simp]: "a \<notin> set as \<Longrightarrow> chain (h(a := v)) x as y = chain h x as y"
  by (induction as arbitrary: x) auto

lemma chain_cong: "(\<And>a. a \<in> set as \<Longrightarrow> h a = h' a) \<Longrightarrow> chain h x as y = chain h' x as y"
  by (induction as arbitrary: x) auto

lemma chain_node: "chain h x as y \<Longrightarrow> a \<in> set as \<Longrightarrow> \<exists>n. h a = Some n"
  by (induction as arbitrary: x) auto

text \<open>A queue represents the list of its nodes; the tail pointer matters only when it is not empty.\<close>

definition qrep :: "(nat \<Rightarrow> tnode option) \<Rightarrow> thread_queue \<Rightarrow> nat list \<Rightarrow> bool" where
  "qrep h q ns \<longleftrightarrow> chain h (q_head q) ns None \<and> distinct ns \<and> q_size q = int (length ns) \<and>
     (ns \<noteq> [] \<longrightarrow> q_tail q = Some (last ns))"

text \<open>The memory represents one list of nodes for each queue, and no node is in two places.\<close>

definition rep :: "tmem \<Rightarrow> (qid \<Rightarrow> nat list) \<Rightarrow> bool" where
  "rep s L \<longleftrightarrow> (\<forall>k. case queues s k of None \<Rightarrow> L k = [] | Some q \<Rightarrow> qrep (nodes s) q (L k)) \<and>
     (\<forall>j k. j \<noteq> k \<longrightarrow> set (L j) \<inter> set (L k) = {}) \<and> (\<forall>k. \<forall>p \<in> set (L k). p < brk s)"

lemma repD: "rep s L \<Longrightarrow> queues s k = Some q \<Longrightarrow> qrep (nodes s) q (L k)"
  by (auto simp: rep_def split: option.splits)

lemma rep_disjoint: "rep s L \<Longrightarrow> p \<in> set (L k) \<Longrightarrow> p \<in> set (L j) \<Longrightarrow> j = k"
  by (fastforce simp: rep_def)

lemma rep_node: "rep s L \<Longrightarrow> p \<in> set (L k) \<Longrightarrow> \<exists>n. nodes s p = Some n"
  by (fastforce simp: rep_def qrep_def split: option.splits dest: spec [of _ k] chain_node)

lemma rep_length: "rep s L \<Longrightarrow> length (L k) \<le> brk s"
proof -
  assume r: "rep s L"
  have "distinct (L k)" using r by (cases "queues s k") (auto simp: rep_def qrep_def split: option.splits dest: spec [of _ k])
  moreover have "set (L k) \<subseteq> {..<brk s}" using r by (auto simp: rep_def)
  ultimately show ?thesis using card_mono [of "{..<brk s}" "set (L k)"] by (simp add: distinct_card)
qed

text \<open>Rebuilding the representation after one queue and some of its nodes changed.\<close>

lemma rep_lt: "rep s L \<Longrightarrow> p \<in> set (L k) \<Longrightarrow> p < brk s"
  by (auto simp: rep_def)

lemma repI:
  assumes r: "rep s L" and q: "qrep h' q' ns" and h: "\<And>p. p \<notin> set (L k) \<union> N \<Longrightarrow> h' p = nodes s p"
    and ns: "set ns \<subseteq> set (L k) \<union> N" and N: "\<And>j. N \<inter> set (L j) = {}" "\<And>p. p \<in> N \<Longrightarrow> p < brk s"
    and s': "nodes s' = h'" "queues s' = (queues s)(k \<mapsto> q')" "brk s' = brk s"
  shows "rep s' (L(k := ns))"
  unfolding rep_def
proof (intro conjI allI impI)
  have other: "p \<notin> set (L k) \<union> N" if "j \<noteq> k" "p \<in> set (L j)" for j p
    using that rep_disjoint [OF r] N(1) by blast
  fix j
  show "case queues s' j of None \<Rightarrow> (L(k := ns)) j = [] | Some q \<Rightarrow> qrep (nodes s') q ((L(k := ns)) j)"
  proof (cases "j = k")
    case True
    with q s' show ?thesis by simp
  next
    case False
    have "chain h' x (L j) None = chain (nodes s) x (L j) None" for x using h other [OF False] by (intro chain_cong) auto
    with r False s' show ?thesis by (auto simp: rep_def qrep_def split: option.splits dest: spec [of _ j])
  qed
  fix i
  show "set ((L(k := ns)) j) \<inter> set ((L(k := ns)) i) = {}" if "j \<noteq> i"
    using that rep_disjoint [OF r] ns other by (auto simp: subset_iff)
next
  fix j show "\<forall>p \<in> set ((L(k := ns)) j). p < brk s'"
    using rep_lt [OF r] ns s'(3) N(2) by (cases "j = k") auto
qed

lemma qrep_Cons:
  "qrep h q (n # ns) \<longleftrightarrow> q_head q = Some n \<and> (\<exists>x. h n = Some x \<and> chain h (nd_next x) ns None) \<and> distinct (n # ns) \<and>
     q_size q = int (Suc (length ns)) \<and> q_tail q = Some (last (n # ns))"
  by (simp add: qrep_def)

lemma qrep_Nil: "qrep h q [] \<longleftrightarrow> q_head q = None \<and> q_size q = 0"
  by (simp add: qrep_def)

definition upd_next :: "(nat \<Rightarrow> tnode option) \<Rightarrow> nat \<Rightarrow> nat option \<Rightarrow> nat \<Rightarrow> tnode option" where
  "upd_next h p nx = (case h p of None \<Rightarrow> h | Some n \<Rightarrow> h(p \<mapsto> n\<lparr>nd_next := nx\<rparr>))"

lemma set_next_eq: "nodes s p = Some n \<Longrightarrow> set_next s p nx = Ok (s\<lparr>nodes := upd_next (nodes s) p nx\<rparr>)"
  by (simp add: set_next_def fetch_def upd_next_def)

lemma upd_next_other [simp]: "a \<noteq> p \<Longrightarrow> upd_next h p nx a = h a"
  by (simp add: upd_next_def split: option.splits)

lemma upd_next_same: "h p = Some n \<Longrightarrow> upd_next h p nx p = Some (n\<lparr>nd_next := nx\<rparr>)"
  by (simp add: upd_next_def)

lemma upd_next_thread: "map_option nd_thread (upd_next h p nx a) = map_option nd_thread (h a)"
  by (cases "a = p") (auto simp: upd_next_def split: option.splits)

lemma chain_upd_next [simp]: "p \<notin> set as \<Longrightarrow> chain (upd_next h p nx) x as y = chain h x as y"
  by (rule chain_cong) (metis upd_next_other)

text \<open>Only next pointers and queue records change; the thread of every node stays.\<close>

definition same_threads :: "tmem \<Rightarrow> tmem \<Rightarrow> bool" where
  "same_threads s s' \<longleftrightarrow> tcbs s' = tcbs s \<and> stacks s' = stacks s \<and> brk s' = brk s \<and>
     (\<forall>p. map_option nd_thread (nodes s' p) = map_option nd_thread (nodes s p)) \<and> dom (queues s') = dom (queues s)"

section \<open>The queue operations on lists\<close>

lemma pop_queue_rep:
  assumes r: "rep s L" and q: "queues s k \<noteq> None" and L: "L k = n # ns"
  shows "\<exists>s'. pop_queue s k = Ok (n, s') \<and> rep s' (L(k := ns)) \<and> same_threads s s' \<and>
    nodes s' = upd_next (nodes s) n None"
proof -
  from q obtain qu where qu: "queues s k = Some qu" by auto
  note Q = repD [OF r qu, unfolded L qrep_Cons]
  then obtain x where x: "nodes s n = Some x" "chain (nodes s) (nd_next x) ns None" by auto
  let ?h = "upd_next (nodes s) n None" and ?q = "qu\<lparr>q_head := nd_next x, q_size := q_size qu - 1\<rparr>"
  let ?s' = "set_queue (s\<lparr>nodes := ?h\<rparr>) k ?q"
  have "qrep ?h ?q ns" using Q x by (cases ns) (auto simp: qrep_def)
  then have "rep ?s' (L(k := ns))"
    by (rule repI [OF r, where N = "{}"]) (use L in \<open>auto simp: set_queue_def\<close>)
  moreover have "pop_queue s k = Ok (n, ?s')" using qu Q x by (simp add: pop_queue_def fetch_def deref_def set_next_eq)
  ultimately show ?thesis using qu by (auto simp: same_threads_def upd_next_thread set_queue_def)
qed

lemma append_node_rep:
  assumes r: "rep s L" and q: "queues s k \<noteq> None" and n: "nodes s n = Some x" "nd_next x = None" "n < brk s" "\<And>j. n \<notin> set (L j)"
  shows "\<exists>s'. append_node_to_queue s k n = Ok s' \<and> rep s' (L(k := L k @ [n])) \<and> same_threads s s'"
proof -
  from q obtain qu where qu: "queues s k = Some qu" by auto
  note Q = repD [OF r qu]
  show ?thesis
  proof (cases "L k = []")
    case True
    let ?q = "qu\<lparr>q_head := Some n, q_tail := Some n, q_size := q_size qu + 1\<rparr>"
    have "qrep (nodes s) ?q [n]" using Q True n by (simp add: qrep_def)
    then have "rep (set_queue s k ?q) (L(k := [n]))"
      by (rule repI [OF r, where N = "{n}"]) (use n in \<open>auto simp: set_queue_def\<close>)
    moreover have "append_node_to_queue s k n = Ok (set_queue s k ?q)"
      using qu Q True by (simp add: append_node_to_queue_def fetch_def qrep_Nil)
    ultimately show ?thesis using True qu by (auto simp: same_threads_def set_queue_def)
  next
    case False
    define t where "t = last (L k)"
    have split: "L k = butlast (L k) @ [t]" using False by (simp add: t_def)
    have t: "t \<in> set (L k)" using False by (simp add: t_def)
    then obtain y where y: "nodes s t = Some y" using rep_node [OF r] by blast
    have head: "q_head qu \<noteq> None" and tail: "q_tail qu = Some t"
      using Q False by (auto simp: qrep_def t_def neq_Nil_conv)
    have dist: "distinct (butlast (L k) @ [t])" using Q split by (simp add: qrep_def)
    have "chain (nodes s) (q_head qu) (butlast (L k) @ [t]) None" using Q split by (simp add: qrep_def)
    then have ch: "chain (nodes s) (q_head qu) (butlast (L k)) (Some t)" by (auto simp: chain_append)
    let ?h = "upd_next (nodes s) t (Some n)" and ?q = "qu\<lparr>q_tail := Some n, q_size := q_size qu + 1\<rparr>"
    have "t \<noteq> n" using n(4) t by auto
    then have "chain ?h (q_head qu) (butlast (L k) @ [t] @ [n]) None"
      using ch dist y n by (auto simp: chain_append upd_next_same)
    then have "chain ?h (q_head qu) (L k @ [n]) None" using split by (metis append_assoc)
    then have "qrep ?h ?q (L k @ [n])" using Q n(4) by (simp add: qrep_def)
    then have "rep (set_queue (s\<lparr>nodes := ?h\<rparr>) k ?q) (L(k := L k @ [n]))"
      by (rule repI [OF r, where N = "{n}"]) (use n t in \<open>auto simp: set_queue_def intro!: upd_next_other\<close>)
    moreover have "append_node_to_queue s k n = Ok (set_queue (s\<lparr>nodes := ?h\<rparr>) k ?q)"
      using qu head tail y by (auto simp: append_node_to_queue_def fetch_def deref_def set_next_eq)
    ultimately show ?thesis using qu by (auto simp: same_threads_def upd_next_thread set_queue_def)
  qed
qed

lemma move_head_to_end_rep:
  assumes r: "rep s L" and q: "queues s k \<noteq> None"
  shows "\<exists>s'. move_head_to_end s k = Ok s' \<and> rep s' (L(k := rotate1 (L k))) \<and> same_threads s s'"
proof -
  from q obtain qu where qu: "queues s k = Some qu" by auto
  note Q = repD [OF r qu]
  show ?thesis
  proof (cases "length (L k) \<le> 1")
    case True
    then have "rotate1 (L k) = L k" by (cases "L k") auto
    moreover have "move_head_to_end s k = Ok s" using qu Q True by (simp add: move_head_to_end_def fetch_def qrep_def)
    ultimately show ?thesis using r by (simp add: same_threads_def)
  next
    case False
    then obtain a ns where L: "L k = a # ns" "ns \<noteq> []" by (cases "L k") auto
    define t where "t = last ns"
    have split: "ns = butlast ns @ [t]" using L(2) by (simp add: t_def)
    from Q [unfolded L qrep_Cons] obtain x where
      x: "nodes s a = Some x" "chain (nodes s) (nd_next x) ns None" and Q': "q_head qu = Some a" "a \<notin> set ns" "distinct ns"
        "q_size qu = int (Suc (length ns))" "q_tail qu = Some t" using L(2) by (auto simp: t_def)
    have tin: "t \<in> set ns" using L(2) by (simp add: t_def)
    then have "t \<in> set (L k)" "t \<noteq> a" using L Q'(2) by auto
    from rep_node [OF r this(1)] obtain y where y: "nodes s t = Some y" by blast
    let ?h1 = "upd_next (nodes s) t (Some a)"
    let ?h = "upd_next ?h1 a None" and ?q = "qu\<lparr>q_head := nd_next x, q_tail := Some a\<rparr>"
    have a1: "?h1 a = Some x" using x \<open>t \<noteq> a\<close> by simp
    have "chain (nodes s) (nd_next x) (butlast ns @ [t]) None" using x(2) split by simp
    then have "chain (nodes s) (nd_next x) (butlast ns) (Some t)" by (auto simp: chain_append)
    moreover have "t \<notin> set (butlast ns)" "a \<notin> set (butlast ns)" using Q'(2,3) split by (metis distinct_append not_distinct_conv_prefix, metis in_set_butlastD)
    ultimately have "chain ?h (nd_next x) (butlast ns @ [t] @ [a]) None"
      using y a1 \<open>t \<noteq> a\<close> by (auto simp: chain_append upd_next_same)
    then have "chain ?h (nd_next x) (ns @ [a]) None" using split by (metis append_assoc)
    then have "qrep ?h ?q (ns @ [a])" using Q' by (simp add: qrep_def)
    then have "rep (set_queue (s\<lparr>nodes := ?h\<rparr>) k ?q) (L(k := ns @ [a]))"
      by (rule repI [OF r, where N = "{}"])
        (use L tin in \<open>auto simp: set_queue_def upd_next_def split: option.splits\<close>)
    moreover have "move_head_to_end s k = Ok (set_queue (s\<lparr>nodes := ?h\<rparr>) k ?q)"
      using qu Q' x y a1 L(2) by (simp add: move_head_to_end_def fetch_def deref_def set_next_eq)
    ultimately show ?thesis using qu L by (auto simp: same_threads_def upd_next_thread set_queue_def)
  qed
qed

lemma move_to_head_rep:
  assumes r: "rep s L" and q: "queues s k \<noteq> None" and L: "L k = xs @ [pv, t] @ ys"
  shows "\<exists>s'. move_to_head s k t (Some pv) = Ok s' \<and> rep s' (L(k := t # xs @ [pv] @ ys)) \<and> same_threads s s'"
proof -
  from q obtain qu where qu: "queues s k = Some qu" by auto
  note Q = repD [OF r qu, unfolded L qrep_def]
  have pvt: "pv \<in> set (L k)" "t \<in> set (L k)" using L by auto
  obtain n m where nm: "nodes s pv = Some n" "nodes s t = Some m" using rep_node [OF r] pvt by blast
  have dist: "distinct (xs @ [pv, t] @ ys)" using Q by simp
  have ch: "chain (nodes s) (q_head qu) xs (Some pv)" "nd_next n = Some t" "chain (nodes s) (nd_next m) ys None"
    using Q nm by (auto simp: chain_append)
  let ?h1 = "upd_next (nodes s) pv (nd_next m)"
  let ?h = "upd_next ?h1 t (q_head qu)"
  let ?q = "qu\<lparr>q_head := Some t, q_tail := (if q_tail qu = Some t then Some pv else q_tail qu)\<rparr>"
  have t1: "?h1 t = Some m" using nm dist by simp
  have pv1: "?h1 pv = Some (n\<lparr>nd_next := nd_next m\<rparr>)" using nm by (simp add: upd_next_same)
  have hd: "q_head qu \<noteq> Some t" using ch(1) dist by (cases xs) auto
  have "chain ?h (Some t) (t # xs @ [pv] @ ys) None"
    using ch dist t1 pv1 by (auto simp: chain_append upd_next_same)
  moreover have "q_tail ?q = Some (last (t # xs @ [pv] @ ys))"
    using Q dist by (cases ys rule: rev_cases) auto
  ultimately have "qrep ?h ?q (t # xs @ [pv] @ ys)" using Q dist by (auto simp: qrep_def)
  then have "rep (set_queue (s\<lparr>nodes := ?h\<rparr>) k ?q) (L(k := t # xs @ [pv] @ ys))"
    by (rule repI [OF r, where N = "{}"])
      (use L pvt in \<open>auto simp: set_queue_def upd_next_def split: option.splits\<close>)
  moreover have "move_to_head s k t (Some pv) = Ok (set_queue (s\<lparr>nodes := ?h\<rparr>) k ?q)"
    using qu Q nm t1 hd by (auto simp: move_to_head_def fetch_def deref_def set_next_eq)
  ultimately show ?thesis using qu by (auto simp: same_threads_def upd_next_thread set_queue_def)
qed

lemma move_to_head_first:
  assumes r: "rep s L" and q: "queues s k \<noteq> None" and L: "L k = t # ys"
  shows "move_to_head s k t prev = Ok s"
proof -
  from q obtain qu where qu: "queues s k = Some qu" by auto
  with repD [OF r qu] L show ?thesis by (simp add: move_to_head_def fetch_def qrep_Cons)
qed

lemma remove_from_queue_rep:
  assumes r: "rep s L" and q: "queues s k \<noteq> None" and L: "L k = xs @ [t] @ ys"
    and prev: "xs \<noteq> [] \<Longrightarrow> prev = Some (last xs)"
  shows "\<exists>s'. remove_from_queue s k t prev = Ok s' \<and> rep s' (L(k := xs @ ys)) \<and> same_threads s s'"
proof -
  from q obtain qu where qu: "queues s k = Some qu" by auto
  note Q = repD [OF r qu, unfolded L qrep_def]
  have "t \<in> set (L k)" using L by auto
  then obtain m where m: "nodes s t = Some m" using rep_node [OF r] by blast
  have dist: "distinct (xs @ [t] @ ys)" using Q by simp
  have ch: "chain (nodes s) (q_head qu) xs (Some t)" "chain (nodes s) (nd_next m) ys None"
    using Q m by (auto simp: chain_append)
  consider (single) "xs = []" "ys = []" | (first) "xs = []" "ys \<noteq> []" | (later) "xs \<noteq> []" by blast
  then show ?thesis
  proof cases
    case single
    let ?q = "qu\<lparr>q_head := None, q_tail := None, q_size := q_size qu - 1\<rparr>"
    have "qrep (nodes s) ?q []" using Q single by (simp add: qrep_def)
    then have "rep (set_queue s k ?q) (L(k := []))"
      by (rule repI [OF r, where N = "{}"]) (auto simp: set_queue_def)
    moreover have "remove_from_queue s k t prev = Ok (set_queue s k ?q)"
      using qu Q single by (simp add: remove_from_queue_def fetch_def)
    ultimately show ?thesis using single qu by (auto simp: same_threads_def set_queue_def)
  next
    case first
    let ?h = "upd_next (nodes s) t None" and ?q = "qu\<lparr>q_head := nd_next m, q_size := q_size qu - 1\<rparr>"
    have "qrep ?h ?q ys" using Q first ch dist by (auto simp: qrep_def)
    then have "rep (set_queue (s\<lparr>nodes := ?h\<rparr>) k ?q) (L(k := ys))"
      by (rule repI [OF r, where N = "{}"]) (use L in \<open>auto simp: set_queue_def intro!: upd_next_other\<close>)
    moreover have "remove_from_queue s k t prev = Ok (set_queue (s\<lparr>nodes := ?h\<rparr>) k ?q)"
      using qu Q first m ch by (auto simp: remove_from_queue_def fetch_def set_next_eq neq_Nil_conv)
    ultimately show ?thesis using first qu by (auto simp: same_threads_def upd_next_thread set_queue_def)
  next
    case later
    then obtain us pv where xs: "xs = us @ [pv]" by (metis append_butlast_last_id)
    have "pv \<in> set (L k)" using L xs by auto
    then obtain n where n: "nodes s pv = Some n" using rep_node [OF r] by blast
    have ch': "chain (nodes s) (q_head qu) us (Some pv)" using ch(1) xs by (auto simp: chain_append)
    let ?h1 = "upd_next (nodes s) pv (nd_next m)"
    let ?h = "upd_next ?h1 t None"
    let ?q = "qu\<lparr>q_tail := (if Some t = q_tail qu then prev else q_tail qu), q_size := q_size qu - 1\<rparr>"
    have t1: "?h1 t = Some m" using m dist xs by simp
    have pv1: "?h1 pv = Some (n\<lparr>nd_next := nd_next m\<rparr>)" using n by (simp add: upd_next_same)
    have hd: "q_head qu \<noteq> Some t" using ch' dist xs by (cases us) auto
    have "chain ?h (q_head qu) (us @ [pv] @ ys) None" using ch' ch(2) dist xs t1 pv1 by (auto simp: chain_append)
    moreover have "q_tail ?q = Some (last (xs @ ys))"
      using Q dist prev later by (cases ys rule: rev_cases) auto
    ultimately have "qrep ?h ?q (xs @ ys)" using Q dist xs by (auto simp: qrep_def)
    then have "rep (set_queue (s\<lparr>nodes := ?h\<rparr>) k ?q) (L(k := xs @ ys))"
      by (rule repI [OF r, where N = "{}"])
        (use L xs in \<open>auto simp: set_queue_def upd_next_def split: option.splits\<close>)
    moreover have "remove_from_queue s k t prev = Ok (set_queue (s\<lparr>nodes := ?h\<rparr>) k ?q)"
      using qu Q n m t1 hd xs prev by (auto simp: remove_from_queue_def fetch_def deref_def set_next_eq)
    ultimately show ?thesis using qu by (auto simp: same_threads_def upd_next_thread set_queue_def)
  qed
qed

section \<open>Searching and clearing a queue\<close>

text \<open>The identifier of the thread of a node.\<close>

definition node_id :: "tmem \<Rightarrow> nat \<Rightarrow> int" where
  "node_id s p = t_id (the (tcbs s (nd_thread (the (nodes s p)))))"

text \<open>Every node of a list has a thread.\<close>

definition threaded :: "tmem \<Rightarrow> nat list \<Rightarrow> bool" where
  "threaded s ns \<longleftrightarrow> (\<forall>p \<in> set ns. \<exists>n t. nodes s p = Some n \<and> tcbs s (nd_thread n) = Some t)"

lemma threadedD: "threaded s ns \<Longrightarrow> p \<in> set ns \<Longrightarrow> \<exists>n t. nodes s p = Some n \<and> tcbs s (nd_thread n) = Some t \<and> t_id t = node_id s p"
  by (fastforce simp: threaded_def node_id_def)

lemma find_loop_chain:
  "chain (nodes s) x ns None \<Longrightarrow> threaded s ns \<Longrightarrow> length ns < fuel \<Longrightarrow>
   find_loop fuel s x tid = Ok (find (\<lambda>p. node_id s p = tid) ns)"
proof (induction ns arbitrary: x fuel)
  case Nil
  then show ?case by (cases fuel) auto
next
  case (Cons a ns)
  from Cons.prems(3) obtain f where f: "fuel = Suc f" "length ns < f" by (cases fuel) auto
  from Cons.prems(1) obtain n where n: "x = Some a" "nodes s a = Some n" "chain (nodes s) (nd_next n) ns None" by auto
  from threadedD [OF Cons.prems(2), of a] n obtain t where t: "tcbs s (nd_thread n) = Some t" "t_id t = node_id s a" by auto
  have "threaded s ns" using Cons.prems(2) by (simp add: threaded_def)
  with Cons.IH [OF n(3) _ f(2)] f n t show ?case by (simp add: fetch_def)
qed

lemma find_prev_loop_chain:
  "nodes s a = Some n \<Longrightarrow> chain (nodes s) (nd_next n) ns None \<Longrightarrow> threaded s ns \<Longrightarrow> length ns < fuel \<Longrightarrow>
   find_prev_loop fuel s a tid =
     Ok (case find (\<lambda>p. node_id s p = tid) ns of None \<Rightarrow> (None, last (a # ns))
         | Some p \<Rightarrow> (Some p, last (a # takeWhile (\<lambda>p. node_id s p \<noteq> tid) ns)))"
proof (induction ns arbitrary: a n fuel)
  case Nil
  then show ?case by (cases fuel) (auto simp: fetch_def)
next
  case (Cons b ns)
  from Cons.prems(4) obtain f where f: "fuel = Suc f" "length ns < f" by (cases fuel) auto
  from Cons.prems(2) obtain m where m: "nd_next n = Some b" "nodes s b = Some m" "chain (nodes s) (nd_next m) ns None" by auto
  from threadedD [OF Cons.prems(3), of b] m obtain t where t: "tcbs s (nd_thread m) = Some t" "t_id t = node_id s b" by auto
  have "threaded s ns" using Cons.prems(3) by (simp add: threaded_def)
  from Cons.IH [OF m(2,3) this f(2)] Cons.prems(1) f m t show ?case
    by (auto simp: fetch_def split: option.splits)
qed

lemma find_first:
  "ns = takeWhile (\<lambda>p. f p \<noteq> x) ns @ p # ys \<Longrightarrow> f p = x \<Longrightarrow> find (\<lambda>p. f p = x) ns = Some p"
proof (induction ns)
  case (Cons a ns)
  then show ?case by (cases "f a = x") auto
qed simp

lemma find_in_queue_rep:
  assumes "rep s L" and "queues s k \<noteq> None" and "threaded s (L k)"
  shows "find_in_queue s k tid = Ok (find (\<lambda>p. node_id s p = tid) (L k))"
proof -
  from assms(2) obtain q where q: "queues s k = Some q" by auto
  have "length (L k) < Suc (brk s)" using rep_length [OF assms(1), of k] by simp
  from find_loop_chain [OF _ assms(3) this] repD [OF assms(1) q] q show ?thesis
    by (simp add: find_in_queue_def fetch_def qrep_def del: find_loop.simps)
qed

text \<open>
  Searching with the predecessor: the node of the thread with its predecessor in the list, or no
  node.
\<close>

lemma find_with_prev_rep:
  assumes r: "rep s L" and q: "queues s k \<noteq> None" and L: "L k = a # ns" and th: "threaded s (L k)"
    and ida: "node_id s a \<noteq> tid"
  shows "if tid \<in> node_id s ` set ns
    then \<exists>xs pv t ys. find_in_queue_with_prev s k tid = Ok (Some t, Some pv) \<and> L k = xs @ [pv, t] @ ys \<and> node_id s t = tid
    else \<exists>prev. find_in_queue_with_prev s k tid = Ok (None, prev)"
proof -
  from q obtain qu where qu: "queues s k = Some qu" by auto
  from repD [OF r qu] L obtain n where n: "q_head qu = Some a" "nodes s a = Some n" "chain (nodes s) (nd_next n) ns None"
    by (auto simp: qrep_Cons)
  from threadedD [OF th, of a] L n obtain t where t: "tcbs s (nd_thread n) = Some t" "t_id t = node_id s a" by auto
  have "threaded s ns" using th L by (simp add: threaded_def)
  moreover have "length ns < Suc (brk s)" using rep_length [OF r, of k] L by simp
  ultimately have loop: "find_prev_loop (Suc (brk s)) s a tid =
     Ok (case find (\<lambda>p. node_id s p = tid) ns of None \<Rightarrow> (None, last (a # ns))
         | Some p \<Rightarrow> (Some p, last (a # takeWhile (\<lambda>p. node_id s p \<noteq> tid) ns)))"
    by (rule find_prev_loop_chain [OF n(2,3)])
  have eq: "find_in_queue_with_prev s k tid = and_then (find_prev_loop (Suc (brk s)) s a tid) (\<lambda>(found, prev). Ok (found, Some prev))"
    using qu n t ida by (simp add: find_in_queue_with_prev_def fetch_def deref_def del: find_prev_loop.simps)
  show ?thesis
  proof (cases "tid \<in> node_id s ` set ns")
    case False
    then have "find (\<lambda>p. node_id s p = tid) ns = None" by (auto simp: find_None_iff)
    with False eq loop show ?thesis by simp
  next
    case True
    let ?P = "\<lambda>p. node_id s p \<noteq> tid"
    have "dropWhile ?P ns \<noteq> []" using True by auto
    then obtain p ys where py: "dropWhile ?P ns = p # ys" by (cases "dropWhile ?P ns") auto
    then have id: "node_id s p = tid" using hd_dropWhile [of ?P ns] by auto
    have split: "ns = takeWhile ?P ns @ p # ys" using takeWhile_dropWhile_id [of ?P ns] py by simp
    have "find (\<lambda>p. node_id s p = tid) ns = Some p"
      by (rule find_first [OF split id])
    then have "find_in_queue_with_prev s k tid = Ok (Some p, Some (last (a # takeWhile ?P ns)))" using eq loop by simp
    moreover have "L k = butlast (a # takeWhile ?P ns) @ [last (a # takeWhile ?P ns), p] @ ys"
      using L split append_butlast_last_id [of "a # takeWhile ?P ns"] by (metis append_Cons append_assoc append_Nil list.distinct(1))
    ultimately have "\<exists>xs pv t ys. find_in_queue_with_prev s k tid = Ok (Some t, Some pv) \<and> L k = xs @ [pv, t] @ ys \<and> node_id s t = tid"
      using id by blast
    with True show ?thesis by simp
  qed
qed

definition node_thread :: "tmem \<Rightarrow> nat \<Rightarrow> nat" where
  "node_thread s p = nd_thread (the (nodes s p))"

definition node_stack :: "tmem \<Rightarrow> nat \<Rightarrow> nat option" where
  "node_stack s p = t_stack (the (tcbs s (node_thread s p)))"

text \<open>The nodes of a list, their threads and their stacks can be freed: no two share one.\<close>

definition freeable :: "tmem \<Rightarrow> nat list \<Rightarrow> bool" where
  "freeable s ns \<longleftrightarrow> threaded s ns \<and> distinct ns \<and> distinct (map (node_thread s) ns) \<and>
     (\<forall>p \<in> set ns. \<forall>a. node_stack s p = Some a \<longrightarrow> a \<in> stacks s) \<and>
     (\<forall>p \<in> set ns. \<forall>q \<in> set ns. \<forall>a. node_stack s p = Some a \<longrightarrow> node_stack s q = Some a \<longrightarrow> p = q)"

definition freed_nodes :: "tmem \<Rightarrow> nat list \<Rightarrow> tmem \<Rightarrow> bool" where
  "freed_nodes s ns s' \<longleftrightarrow> nodes s' = (\<lambda>p. if p \<in> set ns then None else nodes s p) \<and>
     tcbs s' = (\<lambda>t. if t \<in> node_thread s ` set ns then None else tcbs s t) \<and>
     stacks s' = stacks s - {a. \<exists>p \<in> set ns. node_stack s p = Some a} \<and> queues s' = queues s \<and> brk s' = brk s"

lemma clear_loop_chain:
  "chain (nodes s) x ns None \<Longrightarrow> freeable s ns \<Longrightarrow> length ns < fuel \<Longrightarrow>
   \<exists>s'. clear_loop fuel s x = Ok s' \<and> freed_nodes s ns s'"
proof (induction ns arbitrary: x fuel s)
  case Nil
  then show ?case by (cases fuel) (auto simp: freed_nodes_def)
next
  case (Cons a ns)
  note fr = Cons.prems(2) [unfolded freeable_def]
  from Cons.prems(3) obtain f where f: "fuel = Suc f" "length ns < f" by (cases fuel) auto
  from Cons.prems(1) obtain n where n: "x = Some a" "nodes s a = Some n" "chain (nodes s) (nd_next n) ns None" by auto
  from fr n obtain t where t: "tcbs s (nd_thread n) = Some t" by (auto simp: threaded_def)
  have nt: "node_thread s a = nd_thread n" "node_stack s a = t_stack t" using n t by (simp_all add: node_thread_def node_stack_def)
  let ?s1 = "s\<lparr>stacks := stacks s - {b. t_stack t = Some b}, tcbs := (tcbs s)(nd_thread n := None), nodes := (nodes s)(a := None)\<rparr>"
  have free: "free_node s (Some a) = Ok ?s1"
    using n t fr nt by (auto simp: free_node_def fetch_def free_stack_def split: option.splits)
  have same: "node_thread ?s1 p = node_thread s p" "node_stack ?s1 p = node_stack s p" if "p \<in> set ns" for p
    using that fr nt by (auto simp: node_thread_def node_stack_def image_iff)
  have th: "threaded ?s1 ns"
    unfolding threaded_def
  proof
    fix p assume p: "p \<in> set ns"
    then obtain m u where m: "nodes s p = Some m" "tcbs s (nd_thread m) = Some u" using fr by (auto simp: threaded_def)
    have "node_thread s p \<in> node_thread s ` set ns" using p by (rule imageI)
    with fr have "node_thread s p \<noteq> node_thread s a" by auto
    with m p fr nt show "\<exists>n t. nodes ?s1 p = Some n \<and> tcbs ?s1 (nd_thread n) = Some t" by (auto simp: node_thread_def)
  qed
  have "freeable ?s1 ns"
    using fr th nt same by (auto simp: freeable_def cong: map_cong)
  moreover have "chain (nodes ?s1) (nd_next n) ns None" using n(3) fr by simp
  ultimately obtain s' where s': "clear_loop f ?s1 (nd_next n) = Ok s'" "freed_nodes ?s1 ns s'"
    using Cons.IH [OF _ _ f(2)] by blast
  have "clear_loop fuel s x = Ok s'" using f n free s'(1) by (simp add: fetch_def)
  moreover have "freed_nodes s (a # ns) s'"
    using s'(2) same nt by (auto simp: freed_nodes_def fun_eq_iff)
  ultimately show ?case by blast
qed

lemma clear_queue_rep:
  assumes r: "rep s L" and q: "queues s k \<noteq> None" and fr: "freeable s (L k)"
  shows "\<exists>s'. clear_queue s (Some k) = Ok s' \<and> rep s' (L(k := [])) \<and>
    nodes s' = (\<lambda>p. if p \<in> set (L k) then None else nodes s p) \<and>
    tcbs s' = (\<lambda>t. if t \<in> node_thread s ` set (L k) then None else tcbs s t) \<and>
    stacks s' = stacks s - {a. \<exists>p \<in> set (L k). node_stack s p = Some a} \<and> dom (queues s') = dom (queues s) \<and> brk s' = brk s"
proof -
  from q obtain qu where qu: "queues s k = Some qu" by auto
  have "length (L k) < Suc (brk s)" using rep_length [OF r, of k] by simp
  with repD [OF r qu] fr obtain s1 where s1: "clear_loop (Suc (brk s)) s (q_head qu) = Ok s1" "freed_nodes s (L k) s1"
    using clear_loop_chain by (metis qrep_def)
  let ?q = "qu\<lparr>q_head := None, q_tail := None, q_size := 0\<rparr>"
  note F = s1(2) [unfolded freed_nodes_def]
  have "rep (set_queue s1 k ?q) (L(k := []))"
    by (rule repI [OF r, where q' = ?q and h' = "nodes s1" and N = "{}"]) (use F in \<open>auto simp: set_queue_def qrep_def\<close>)
  moreover have "clear_queue s (Some k) = Ok (set_queue s1 k ?q)" using qu s1(1) by (simp add: clear_queue_def fetch_def)
  ultimately show ?thesis using F qu by (auto simp: set_queue_def)
qed

section \<open>The contents of a queue\<close>

fun walk :: "nat \<Rightarrow> (nat \<Rightarrow> tnode option) \<Rightarrow> nat option \<Rightarrow> nat list" where
  "walk 0 h x = []"
| "walk (Suc f) h x = (case x of None \<Rightarrow> [] | Some a \<Rightarrow> (case h a of None \<Rightarrow> [] | Some n \<Rightarrow> a # walk f h (nd_next n)))"

definition queue_list :: "tmem \<Rightarrow> qid \<Rightarrow> nat list" where
  "queue_list s k = (case queues s k of None \<Rightarrow> [] | Some q \<Rightarrow> walk (brk s) (nodes s) (q_head q))"

lemma walk_chain: "chain h x ns None \<Longrightarrow> length ns \<le> f \<Longrightarrow> walk f h x = ns"
proof (induction ns arbitrary: x f)
  case Nil
  then show ?case by (cases f) auto
next
  case (Cons a ns)
  then show ?case by (cases f) auto
qed

lemma queue_list_rep: "rep s L \<Longrightarrow> queue_list s k = L k"
proof (cases "queues s k")
  case None
  assume "rep s L"
  with None have "L k = []" by (auto simp: rep_def split: option.splits dest: spec [of _ k])
  with None show ?thesis by (simp add: queue_list_def)
next
  case (Some q)
  assume r: "rep s L"
  from repD [OF r Some] rep_length [OF r, of k] Some show ?thesis by (simp add: queue_list_def qrep_def walk_chain)
qed

section \<open>A queue as a FIFO queue of threads\<close>

definition queue_inv :: "qid \<Rightarrow> tmem \<Rightarrow> bool" where
  "queue_inv k s \<longleftrightarrow> (\<exists>L. rep s L) \<and> queues s k \<noteq> None"

definition queue_threads :: "qid \<Rightarrow> tmem \<Rightarrow> nat list" where
  "queue_threads k s = map (node_thread s) (queue_list s k)"

definition enqueue_thread :: "qid \<Rightarrow> tmem \<Rightarrow> nat \<Rightarrow> tmem outcome" where
  "enqueue_thread k s th = and_then (append_to_queue s k th True) (\<lambda>(_, s). Ok s)"

definition dequeue_thread :: "qid \<Rightarrow> tmem \<Rightarrow> (nat \<times> tmem) outcome" where
  "dequeue_thread k s = and_then (pop_queue s k) (\<lambda>(p, s'). Ok (node_thread s' p, s'))"

lemma node_thread_same:
  "map_option nd_thread (nodes s' p) = map_option nd_thread (nodes s p) \<Longrightarrow> nodes s p \<noteq> None \<Longrightarrow> node_thread s' p = node_thread s p"
  by (auto simp: node_thread_def)

lemma node_thread_same_threads: "same_threads s s' \<Longrightarrow> nodes s p \<noteq> None \<Longrightarrow> node_thread s' p = node_thread s p"
  by (rule node_thread_same) (auto simp: same_threads_def)

lemma append_to_queue_rep:
  assumes r: "rep s L" and q: "queues s k \<noteq> None"
  shows "\<exists>s'. append_to_queue s k th True = Ok (True, s') \<and> rep s' (L(k := L k @ [brk s])) \<and> brk s' = Suc (brk s) \<and>
    tcbs s' = tcbs s \<and> stacks s' = stacks s \<and> dom (queues s') = dom (queues s) \<and> node_thread s' (brk s) = th \<and>
    nodes s' (brk s) \<noteq> None \<and> (\<forall>p \<noteq> brk s. map_option nd_thread (nodes s' p) = map_option nd_thread (nodes s p))"
proof -
  let ?x = "\<lparr>nd_thread = th, nd_next = None\<rparr> :: tnode"
  let ?s1 = "s\<lparr>nodes := (nodes s)(brk s \<mapsto> ?x), brk := Suc (brk s)\<rparr>"
  have new: "brk s \<notin> set (L j)" for j using rep_lt [OF r] by blast
  have r1: "rep ?s1 L"
    unfolding rep_def
  proof (intro conjI allI impI)
    fix k show "case queues ?s1 k of None \<Rightarrow> L k = [] | Some q \<Rightarrow> qrep (nodes ?s1) q (L k)"
      using r new [of k] by (auto simp: rep_def qrep_def split: option.splits dest: spec [of _ k])
  next
    fix j k show "j \<noteq> k \<Longrightarrow> set (L j) \<inter> set (L k) = {}" using rep_disjoint [OF r] by blast
  next
    fix k show "\<forall>p \<in> set (L k). p < brk ?s1" using rep_lt [OF r] by fastforce
  qed
  from append_node_rep [OF r1, of k "brk s" ?x] q new obtain s' where
    s': "append_node_to_queue ?s1 k (brk s) = Ok s'" "rep s' (L(k := L k @ [brk s]))" "same_threads ?s1 s'" by auto
  have "nodes s' (brk s) \<noteq> None" using rep_node [OF s'(2), of "brk s" k] by auto
  then have "node_thread s' (brk s) = th" using node_thread_same_threads [OF s'(3), of "brk s"] by (simp add: node_thread_def)
  with s' \<open>nodes s' (brk s) \<noteq> None\<close> show ?thesis
    by (auto simp: append_to_queue_def Let_def same_threads_def)
qed

interpretation tq: fifo_queue "queue_inv k" "queue_threads k" "\<lambda>s. True" "enqueue_thread k" "dequeue_thread k" for k
proof
  fix s th assume inv: "queue_inv k s"
  then obtain L where r: "rep s L" and q: "queues s k \<noteq> None" by (auto simp: queue_inv_def)
  from append_to_queue_rep [OF r q, of th] obtain s' where
    s': "append_to_queue s k th True = Ok (True, s')" "rep s' (L(k := L k @ [brk s]))" "dom (queues s') = dom (queues s)"
      "node_thread s' (brk s) = th" "\<forall>p \<noteq> brk s. map_option nd_thread (nodes s' p) = map_option nd_thread (nodes s p)" by blast
  have "node_thread s' p = node_thread s p" if "p \<in> set (L k)" for p
    using that rep_lt [OF r that] s'(5) rep_node [OF r that] by (intro node_thread_same) auto
  then have "queue_threads k s' = queue_threads k s @ [th]"
    using queue_list_rep [OF r, of k] queue_list_rep [OF s'(2), of k] s'(4) by (simp add: queue_threads_def)
  moreover have "queue_inv k s'" using s'(2,3) q by (auto simp: queue_inv_def)
  ultimately show "\<exists>s'. enqueue_thread k s th = Ok s' \<and> queue_inv k s' \<and> queue_threads k s' = queue_threads k s @ [th]"
    using s'(1) by (simp add: enqueue_thread_def)
next
  fix s x xs assume inv: "queue_inv k s" and ne: "queue_threads k s = x # xs"
  then obtain L where r: "rep s L" and q: "queues s k \<noteq> None" by (auto simp: queue_inv_def)
  from ne queue_list_rep [OF r, of k] obtain n ns where L: "L k = n # ns" and x: "node_thread s n = x" "map (node_thread s) ns = xs"
    by (auto simp: queue_threads_def)
  from pop_queue_rep [OF r q L] obtain s' where s': "pop_queue s k = Ok (n, s')" "rep s' (L(k := ns))" "same_threads s s'" by blast
  have same: "node_thread s' p = node_thread s p" if "p \<in> set (L k)" for p
    using node_thread_same_threads [OF s'(3)] rep_node [OF r that] by simp
  have "queue_threads k s' = xs"
    using queue_list_rep [OF s'(2), of k] x(2) same L by (auto simp: queue_threads_def)
  moreover have "queue_inv k s'" using s'(2,3) q by (auto simp: queue_inv_def same_threads_def)
  ultimately show "\<exists>s'. dequeue_thread k s = Ok (x, s') \<and> queue_inv k s' \<and> queue_threads k s' = xs"
    using s'(1) same [of n] L x(1) by (simp add: dequeue_thread_def)
qed

end
