(* ===== verification/Thread_Sched.thy ===== *)
theory Thread_Sched
  imports Thread_Queue
begin

text \<open>
  The scheduler of \<^verbatim>\<open>threads/thread.c\<close>: creating, yielding, sleeping, waking, waiting, killing and
  exiting threads, locks and condition variables, and what happens when the processor switches to
  a saved context. A call that stops its thread ends in mode \<open>Switch\<close> with the rest of the call saved
  in the context of the thread; \<open>resume\<close> goes on with it. The lemmas give the effect of
  each operation on the lists of the queues.
\<close>

section \<open>Definitions\<close>

definition THREAD_MAX_THREADS :: nat where "THREAD_MAX_THREADS = 1024"

definition THREAD_ANY :: int where "THREAD_ANY = - 1"
definition THREAD_SELF :: int where "THREAD_SELF = - 2"
definition THREAD_INVALID :: int where "THREAD_INVALID = - 3"
definition THREAD_NONE :: int where "THREAD_NONE = - 4"
definition THREAD_NOMORE :: int where "THREAD_NOMORE = - 5"
definition THREAD_NOMEMORY :: int where "THREAD_NOMEMORY = - 6"

record lock =
  locked :: bool
  l_thread :: int
  l_wq :: nat

record cv =
  cv_wq :: nat

text \<open>
  The state of the whole library. \<open>mode\<close> tells what the processor does: it runs the program in the
  thread at the head of the ready queue, it has just been switched to that thread's saved context, or
  the process has exited. \<open>ret\<close> is what the last call returned to the program of the running thread,
  \<open>intr\<close> whether interrupts are enabled.
\<close>

datatype mode = Run | Switch | Halted

record tsys =
  mem :: tmem
  threads :: "nat option list"
  thread_wait_queues :: "nat option list"
  locks :: "nat \<Rightarrow> lock option"
  cvs :: "nat \<Rightarrow> cv option"
  intr :: bool
  mode :: mode
  ret :: int

text \<open>
  Blocking the timer signal is the flag \<open>intr\<close>. The functions below set it directly: every one of them switches
  interrupts off on entry and restores the old setting, the local variable \<^verbatim>\<open>enabled\<close>, before it returns.
\<close>

definition interrupts_set :: "bool \<Rightarrow> tsys \<Rightarrow> bool \<times> tsys" where
  "interrupts_set enabled s = (intr s, s\<lparr>intr := enabled\<rparr>)"

text \<open>The thread at the head of the ready queue.\<close>

definition current_th :: "tsys \<Rightarrow> (nat \<times> tcb) outcome" where
  "current_th s =
     and_then (fetch (queues (mem s)) RQ) (\<lambda>q.
     and_then (deref (q_head q)) (\<lambda>p.
     and_then (fetch (nodes (mem s)) p) (\<lambda>n.
     and_then (fetch (tcbs (mem s)) (nd_thread n)) (\<lambda>t. Ok (nd_thread n, t)))))"

definition thread_id :: "tsys \<Rightarrow> int outcome" where
  "thread_id s = and_then (current_th s) (\<lambda>(_, t). Ok (t_id t))"

text \<open>Access to an array of \<open>THREAD_MAX_THREADS\<close> pointers.\<close>

definition at_tid :: "'a list \<Rightarrow> int \<Rightarrow> 'a outcome" where
  "at_tid xs i = (if 0 \<le> i \<and> nat i < length xs then Ok (xs ! nat i) else Crash MemFault)"

text \<open>
  \<open>thread_init\<close>: the stack pointer of the first thread structure is never set, it holds what \<^verbatim>\<open>malloc\<close>
  left there.
\<close>

definition thread_init :: "nat option \<Rightarrow> tsys outcome" where
  "thread_init garbage =
     (let m = \<lparr>nodes = Map.empty,
               tcbs = [0 \<mapsto> \<lparr>t_id = 0, t_status = THREAD_RUNNING, t_context = In_stub, t_stack = garbage\<rparr>],
               stacks = {}, queues = [RQ \<mapsto> \<lparr>q_size = 0, q_head = None, q_tail = None\<rparr>,
                                      EQ \<mapsto> \<lparr>q_size = 0, q_head = None, q_tail = None\<rparr>], brk = 1\<rparr> in
      and_then (append_to_queue m RQ 0 True) (\<lambda>(_, m).
        Ok \<lparr>mem = m, threads = Some 0 # replicate (THREAD_MAX_THREADS - 1) None,
            thread_wait_queues = replicate THREAD_MAX_THREADS None, locks = Map.empty, cvs = Map.empty,
            intr = True, mode = Run, ret = 0\<rparr>))"

definition free_tid :: "tsys \<Rightarrow> nat option" where
  "free_tid s = find (\<lambda>i. threads s ! i = None) [0..<THREAD_MAX_THREADS]"

text \<open>
  \<open>thread_create\<close>: the three arguments tell whether \<^verbatim>\<open>malloc\<close> has memory for the thread structure, the
  stack and the list node. A call that returns leaves its value in \<open>ret\<close> and interrupts as they were.
\<close>

definition thread_create :: "tsys \<Rightarrow> bool \<Rightarrow> bool \<Rightarrow> bool \<Rightarrow> tsys outcome" where
  "thread_create s mem_th mem_stack mem_node =
     (case free_tid s of None \<Rightarrow> Ok (s\<lparr>ret := THREAD_NOMORE\<rparr>)
      | Some tid \<Rightarrow>
          if \<not> mem_th then Ok (s\<lparr>ret := THREAD_NOMEMORY\<rparr>)
          else if \<not> mem_stack then Ok (s\<lparr>ret := THREAD_NOMEMORY\<rparr>)
          else
            let th = brk (mem s); stack = Suc th;
                m = (mem s)\<lparr>brk := Suc stack, stacks := insert stack (stacks (mem s)),
                      tcbs := (tcbs (mem s))(th \<mapsto> \<lparr>t_id = int tid, t_status = THREAD_READY,
                                                   t_context = In_stub, t_stack = Some stack\<rparr>)\<rparr> in
            and_then (append_to_queue m RQ th mem_node) (\<lambda>(success, m').
              if \<not> success
              then Ok (s\<lparr>mem := m'\<lparr>stacks := stacks m' - {stack}, tcbs := (tcbs m')(th := None)\<rparr>, ret := THREAD_NOMEMORY\<rparr>)
              else Ok (s\<lparr>mem := m', threads := (threads s)[tid := Some th], ret := int tid\<rparr>)))"

text \<open>Saving the context of a thread and leaving it (\<^verbatim>\<open>getcontext\<close>, then \<^verbatim>\<open>setcontext\<close> of the head).\<close>

definition switch_from :: "tsys \<Rightarrow> nat \<Rightarrow> ucontext \<Rightarrow> tsys outcome" where
  "switch_from s th c =
     and_then (fetch (tcbs (mem s)) th) (\<lambda>t.
       Ok (s\<lparr>mem := (mem s)\<lparr>tcbs := (tcbs (mem s))(th \<mapsto> t\<lparr>t_context := c\<rparr>)\<rparr>, mode := Switch\<rparr>))"

text \<open>
  \<open>thread_yield\<close> up to the switch, for a call from \<open>c\<close> while interrupts were \<open>enabled\<close>. It returns at once
  (\<open>Some r\<close>) or the thread stops (\<open>None\<close>); switching to itself resumes right there.
\<close>

definition yield_switch :: "tsys \<Rightarrow> int \<Rightarrow> caller \<Rightarrow> (int option \<times> tsys) outcome" where
  "yield_switch s want_tid c =
     (let enabled = intr s in
      and_then (current_th s) (\<lambda>(cur, t).
      and_then (fetch (queues (mem s)) RQ) (\<lambda>q.
      let leave = (\<lambda>m want_tid.
            and_then (set_thread_status m cur THREAD_READY) (\<lambda>m.
            and_then (switch_from (s\<lparr>mem := m, intr := False\<rparr>) cur (In_yield want_tid enabled c)) (\<lambda>s. Ok (None, s)))) in
      if want_tid = THREAD_ANY then
        if q_size q = 1 then Ok (Some THREAD_NONE, s)
        else
          and_then (deref (q_head q)) (\<lambda>h.
          and_then (fetch (nodes (mem s)) h) (\<lambda>n.
          and_then (deref (nd_next n)) (\<lambda>want.
          and_then (fetch (nodes (mem s)) want) (\<lambda>wn.
          and_then (fetch (tcbs (mem s)) (nd_thread wn)) (\<lambda>wt.
          and_then (move_head_to_end (mem s) RQ) (\<lambda>m. leave m (t_id wt)))))))
      else if want_tid = THREAD_SELF \<or> want_tid = t_id t then leave (mem s) (t_id t)
      else
        and_then (find_in_queue_with_prev (mem s) RQ want_tid) (\<lambda>(want, prev).
          case want of None \<Rightarrow> Ok (Some THREAD_INVALID, s)
          | Some w \<Rightarrow>
              and_then (move_head_to_end (mem s) RQ) (\<lambda>m.
              and_then (move_to_head m RQ w prev) (\<lambda>m. leave m want_tid))))))"

text \<open>
  \<open>thread_sleep\<close> up to the switch. The argument is a wait queue or \<^verbatim>\<open>NULL\<close>.
\<close>

definition sleep_switch :: "tsys \<Rightarrow> nat option \<Rightarrow> caller \<Rightarrow> (int option \<times> tsys) outcome" where
  "sleep_switch s queue c =
     (let enabled = intr s in
      case queue of None \<Rightarrow> Ok (Some THREAD_INVALID, s)
      | Some w \<Rightarrow>
          and_then (fetch (queues (mem s)) RQ) (\<lambda>q.
          if q_size q = 1 then Ok (Some THREAD_NONE, s)
          else
            and_then (current_th s) (\<lambda>(cur, _).
            and_then (pop_queue (mem s) RQ) (\<lambda>(node, m).
            and_then (append_node_to_queue m (WQ w) node) (\<lambda>m.
            and_then (current_th (s\<lparr>mem := m\<rparr>)) (\<lambda>(_, new).
            and_then (set_thread_status m cur THREAD_BLOCKED) (\<lambda>m.
            and_then (switch_from (s\<lparr>mem := m, intr := False\<rparr>) cur (In_sleep (t_id new) enabled c)) (\<lambda>s.
              Ok (None, s)))))))))"

text \<open>The loop of \<open>thread_wakeup\<close>.\<close>

fun wakeup_loop :: "nat \<Rightarrow> tmem \<Rightarrow> nat \<Rightarrow> bool \<Rightarrow> int \<Rightarrow> (int \<times> tmem) outcome" where
  "wakeup_loop 0 m w all count = Crash Diverges"
| "wakeup_loop (Suc fuel) m w all count =
     and_then (pop_queue m (WQ w)) (\<lambda>(node, m).
     and_then (fetch (nodes m) node) (\<lambda>n.
     and_then (set_thread_status m (nd_thread n) THREAD_READY) (\<lambda>m.
     and_then (append_node_to_queue m RQ node) (\<lambda>m.
     and_then (fetch (queues m) (WQ w)) (\<lambda>q.
       if all \<and> q_head q \<noteq> None then wakeup_loop fuel m w all (count + 1) else Ok (count + 1, m))))))"

definition thread_wakeup :: "tsys \<Rightarrow> nat option \<Rightarrow> bool \<Rightarrow> (int \<times> tsys) outcome" where
  "thread_wakeup s queue all =
     (case queue of None \<Rightarrow> Ok (0, s)
      | Some w \<Rightarrow>
          and_then (fetch (queues (mem s)) (WQ w)) (\<lambda>q.
            if q_size q = 0 then Ok (0, s)
            else and_then (wakeup_loop (Suc (brk (mem s))) (mem s) w all 0) (\<lambda>(count, m). Ok (count, s\<lparr>mem := m\<rparr>))))"

definition wait_queue_create :: "tsys \<Rightarrow> nat \<times> tsys" where
  "wait_queue_create s =
     (let w = brk (mem s) in
      (w, s\<lparr>mem := (mem s)\<lparr>brk := Suc w, queues := (queues (mem s))(WQ w \<mapsto> \<lparr>q_size = 0, q_head = None, q_tail = None\<rparr>)\<rparr>\<rparr>))"

definition wait_queue_destroy :: "tmem \<Rightarrow> nat option \<Rightarrow> tmem outcome" where
  "wait_queue_destroy m wq =
     and_then (clear_queue m (map_option WQ wq)) (\<lambda>m.
       Ok (case wq of None \<Rightarrow> m | Some w \<Rightarrow> m\<lparr>queues := (queues m)(WQ w := None)\<rparr>))"

fun destroy_all :: "tmem \<Rightarrow> nat option list \<Rightarrow> tmem outcome" where
  "destroy_all m [] = Ok m"
| "destroy_all m (w # ws) = and_then (wait_queue_destroy m w) (\<lambda>m. destroy_all m ws)"

definition thread_exit :: "tsys \<Rightarrow> tsys outcome" where
  "thread_exit s =
     (let s = s\<lparr>intr := False\<rparr> in
      and_then (thread_id s) (\<lambda>tid.
      and_then (at_tid (threads s) tid) (\<lambda>_.
      let s = s\<lparr>threads := (threads s)[nat tid := None]\<rparr> in
      and_then (at_tid (thread_wait_queues s) tid) (\<lambda>wq.
      and_then (thread_wakeup s wq True) (\<lambda>(_, s).
      and_then (wait_queue_destroy (mem s) wq) (\<lambda>m.
      let s = s\<lparr>mem := m, thread_wait_queues := (thread_wait_queues s)[nat tid := None]\<rparr> in
      and_then (pop_queue (mem s) RQ) (\<lambda>(exited_thread, m).
      and_then (fetch (queues m) RQ) (\<lambda>q.
        if q_head q = None then
          and_then (clear_queue m (Some EQ)) (\<lambda>m.
          and_then (destroy_all m (thread_wait_queues s)) (\<lambda>m.
          and_then (free_node m (Some exited_thread)) (\<lambda>m.
            Ok (s\<lparr>mem := m, mode := Halted\<rparr>))))
        else
          and_then (append_node_to_queue m EQ exited_thread) (\<lambda>m.
            Ok (s\<lparr>mem := m, mode := Switch\<rparr>))))))))))"

definition thread_kill :: "tsys \<Rightarrow> int \<Rightarrow> tsys outcome" where
  "thread_kill s tid =
     and_then (thread_id s) (\<lambda>cur.
       if tid = cur then Ok (s\<lparr>ret := THREAD_INVALID\<rparr>)
       else if tid < 0 \<or> tid \<ge> int THREAD_MAX_THREADS then Ok (s\<lparr>ret := THREAD_INVALID\<rparr>)
       else and_then (at_tid (threads s) tid) (\<lambda>th.
         case th of None \<Rightarrow> Ok (s\<lparr>ret := THREAD_INVALID\<rparr>)
         | Some a \<Rightarrow>
             and_then (fetch (tcbs (mem s)) a) (\<lambda>t.
             and_then (set_thread_status (mem s) a THREAD_EXITED) (\<lambda>m.
               Ok (s\<lparr>mem := m, ret := t_id t\<rparr>)))))"

text \<open>Returning to the program.\<close>

definition return_to :: "tsys \<Rightarrow> int \<Rightarrow> tsys" where
  "return_to s r = s\<lparr>mode := Run, ret := r\<rparr>"

definition thread_yield :: "tsys \<Rightarrow> int \<Rightarrow> tsys outcome" where
  "thread_yield s want_tid =
     and_then (yield_switch s want_tid From_program) (\<lambda>(r, s). Ok (case r of None \<Rightarrow> s | Some x \<Rightarrow> return_to s x))"

text \<open>The interrupt handler, called with interrupts off, yields to any thread.\<close>

definition interrupt_handler :: "tsys \<Rightarrow> tsys outcome" where
  "interrupt_handler s =
     and_then (yield_switch (s\<lparr>intr := False\<rparr>) THREAD_ANY From_handler) (\<lambda>(r, s').
       Ok (case r of None \<Rightarrow> s' | Some x \<Rightarrow> s'\<lparr>intr := intr s\<rparr>))"

definition thread_sleep :: "tsys \<Rightarrow> nat option \<Rightarrow> tsys outcome" where
  "thread_sleep s queue =
     and_then (sleep_switch s queue From_program) (\<lambda>(r, s). Ok (case r of None \<Rightarrow> s | Some x \<Rightarrow> return_to s x))"

definition thread_wait :: "tsys \<Rightarrow> int \<Rightarrow> tsys outcome" where
  "thread_wait s tid =
     (let enabled = intr s; s = s\<lparr>intr := False\<rparr>;
          invalid = s\<lparr>intr := enabled, ret := THREAD_INVALID\<rparr> in
      if tid < 0 then Ok invalid
      else and_then (thread_id s) (\<lambda>cur.
        if tid = cur then Ok invalid
        else and_then (at_tid (threads s) tid) (\<lambda>th.
          if th = None then Ok invalid
          else and_then (at_tid (thread_wait_queues s) tid) (\<lambda>wq.
            let (wq, s) = (case wq of Some w \<Rightarrow> (w, s)
                           | None \<Rightarrow> let (w, s) = wait_queue_create s in
                                     (w, s\<lparr>thread_wait_queues := (thread_wait_queues s)[nat tid := Some w]\<rparr>)) in
            and_then (sleep_switch s (Some wq) (From_wait tid enabled)) (\<lambda>(r, s).
              Ok (case r of None \<Rightarrow> s | Some _ \<Rightarrow> s\<lparr>intr := enabled, ret := tid\<rparr>))))))"

section \<open>Locks and condition variables\<close>

definition lock_create :: "tsys \<Rightarrow> tsys" where
  "lock_create s =
     (let l = brk (mem s); s = s\<lparr>mem := (mem s)\<lparr>brk := Suc l\<rparr>\<rparr>; (w, s) = wait_queue_create s in
      s\<lparr>locks := (locks s)(l \<mapsto> \<lparr>locked = False, l_thread = 0, l_wq = w\<rparr>), ret := int l\<rparr>)"

definition lock_destroy :: "tsys \<Rightarrow> nat \<Rightarrow> tsys outcome" where
  "lock_destroy s l =
     and_then (fetch (locks s) l) (\<lambda>lk.
       c_assert (\<not> locked lk)
         (and_then (wait_queue_destroy (mem s) (Some (l_wq lk))) (\<lambda>m.
           Ok (s\<lparr>mem := m, locks := (locks s)(l := None)\<rparr>))))"

text \<open>
  The loop of \<open>lock_acquire\<close>, entered with interrupts off: \<open>enabled\<close> and \<open>outer\<close> are the settings \<open>lock_acquire\<close> and,
  when it was called from \<open>cv_wait\<close>, that function restore at the end. When \<open>thread_sleep\<close> returns at once,
  nothing has changed and nothing can interrupt the loop: it never ends.
\<close>

definition acquire_loop :: "tsys \<Rightarrow> nat \<Rightarrow> bool \<Rightarrow> bool option \<Rightarrow> tsys outcome" where
  "acquire_loop s l enabled outer =
     and_then (fetch (locks s) l) (\<lambda>lk.
       if locked lk then
         and_then (sleep_switch s (Some (l_wq lk)) (From_acquire l enabled outer)) (\<lambda>(r, s).
           case r of None \<Rightarrow> Ok s | Some _ \<Rightarrow> Crash Diverges)
       else
         and_then (thread_id s) (\<lambda>tid.
           Ok (s\<lparr>locks := (locks s)(l \<mapsto> lk\<lparr>locked := True, l_thread := tid\<rparr>),
                 intr := (case outer of None \<Rightarrow> enabled | Some e \<Rightarrow> e), mode := Run\<rparr>)))"

definition lock_acquire :: "tsys \<Rightarrow> nat \<Rightarrow> tsys outcome" where
  "lock_acquire s l = acquire_loop (s\<lparr>intr := False\<rparr>) l (intr s) None"

definition lock_release :: "tsys \<Rightarrow> nat \<Rightarrow> tsys outcome" where
  "lock_release s l =
     and_then (fetch (locks s) l) (\<lambda>lk.
     and_then (thread_id s) (\<lambda>tid.
       c_assert (locked lk \<and> l_thread lk = tid)
         (and_then (thread_wakeup (s\<lparr>locks := (locks s)(l \<mapsto> lk\<lparr>locked := False\<rparr>)\<rparr>) (Some (l_wq lk)) True) (\<lambda>(_, s). Ok s))))"

definition cv_create :: "tsys \<Rightarrow> tsys" where
  "cv_create s =
     (let c = brk (mem s); s = s\<lparr>mem := (mem s)\<lparr>brk := Suc c\<rparr>\<rparr>; (w, s) = wait_queue_create s in
      s\<lparr>cvs := (cvs s)(c \<mapsto> \<lparr>cv_wq = w\<rparr>), ret := int c\<rparr>)"

definition cv_destroy :: "tsys \<Rightarrow> nat \<Rightarrow> tsys outcome" where
  "cv_destroy s c =
     and_then (fetch (cvs s) c) (\<lambda>v.
     and_then (fetch (queues (mem s)) (WQ (cv_wq v))) (\<lambda>q.
       c_assert (q_size q = 0)
         (and_then (wait_queue_destroy (mem s) (Some (cv_wq v))) (\<lambda>m.
           Ok (s\<lparr>mem := m, cvs := (cvs s)(c := None)\<rparr>)))))"

text \<open>\<open>cv_wait\<close>: when \<open>thread_sleep\<close> returns at once the lock is taken again in the same run.\<close>

definition cv_wait :: "tsys \<Rightarrow> nat \<Rightarrow> nat \<Rightarrow> tsys outcome" where
  "cv_wait s c l =
     (let enabled = intr s; s = s\<lparr>intr := False\<rparr> in
      and_then (fetch (cvs s) c) (\<lambda>v.
      and_then (fetch (locks s) l) (\<lambda>lk.
      and_then (thread_id s) (\<lambda>tid.
        c_assert (locked lk \<and> l_thread lk = tid)
          (and_then (lock_release s l) (\<lambda>s.
           and_then (sleep_switch s (Some (cv_wq v)) (From_cv_wait l enabled)) (\<lambda>(r, s).
             case r of None \<Rightarrow> Ok s | Some _ \<Rightarrow> acquire_loop s l False (Some enabled))))))))"

definition cv_wake :: "tsys \<Rightarrow> nat \<Rightarrow> nat \<Rightarrow> bool \<Rightarrow> tsys outcome" where
  "cv_wake s c l all =
     and_then (fetch (cvs s) c) (\<lambda>v.
     and_then (fetch (locks s) l) (\<lambda>lk.
     and_then (thread_id s) (\<lambda>tid.
       c_assert (locked lk \<and> l_thread lk = tid)
         (and_then (thread_wakeup s (Some (cv_wq v)) all) (\<lambda>(_, s). Ok s)))))"

definition cv_signal :: "tsys \<Rightarrow> nat \<Rightarrow> nat \<Rightarrow> tsys outcome" where
  "cv_signal s c l = cv_wake s c l False"

definition cv_broadcast :: "tsys \<Rightarrow> nat \<Rightarrow> nat \<Rightarrow> tsys outcome" where
  "cv_broadcast s c l = cv_wake s c l True"

section \<open>Resuming a thread\<close>

text \<open>
  What the processor does after a switch: it goes on in \<open>thread_stub\<close>, or after \<^verbatim>\<open>getcontext\<close> in
  \<open>thread_yield\<close> or \<open>thread_sleep\<close>, with \<^verbatim>\<open>setcontext_called\<close> true. A thread that was killed exits; any other is
  marked running, threads that exited are freed, and the call returns to where it was made.
\<close>

definition return_call :: "tsys \<Rightarrow> int \<Rightarrow> caller \<Rightarrow> tsys outcome" where
  "return_call s r c =
     (case c of From_program \<Rightarrow> Ok (return_to s r)
      | From_handler \<Rightarrow> Ok (s\<lparr>intr := True, mode := Run\<rparr>)
      | From_wait tid enabled \<Rightarrow> Ok (return_to (s\<lparr>intr := enabled\<rparr>) tid)
      | From_acquire l enabled outer \<Rightarrow> acquire_loop s l enabled outer
      | From_cv_wait l enabled \<Rightarrow> acquire_loop (s\<lparr>intr := False\<rparr>) l (intr s) (Some enabled))"

definition resume :: "tsys \<Rightarrow> tsys outcome" where
  "resume s =
     and_then (current_th s) (\<lambda>(th, t).
       let s = (if t_context t = In_stub then s\<lparr>intr := True\<rparr> else s) in
       if t_status t = THREAD_EXITED then thread_exit s
       else
         and_then (set_thread_status (mem s) th THREAD_RUNNING) (\<lambda>m.
         and_then (clear_queue m (Some EQ)) (\<lambda>m.
         let s = s\<lparr>mem := m\<rparr> in
         case t_context t of
           In_stub \<Rightarrow> Ok (s\<lparr>mode := Run\<rparr>)
         | In_yield want_tid enabled c \<Rightarrow> return_call (s\<lparr>intr := enabled\<rparr>) want_tid c
         | In_sleep ret_id enabled c \<Rightarrow> return_call (s\<lparr>intr := enabled\<rparr>) ret_id c)))"

section \<open>Well-formed scheduler states\<close>

text \<open>
  The queues are well formed (\<open>L\<close> gives the nodes of each), every node has a thread of its own, the thread table
  has exactly the threads that have not exited, under their identifiers, and the stacks to be freed
  are allocated and not shared.
\<close>

definition live_nodes :: "(qid \<Rightarrow> nat list) \<Rightarrow> nat set" where
  "live_nodes L = (\<Union>k \<in> - {EQ}. set (L k))"

definition sched_ok :: "tsys \<Rightarrow> (qid \<Rightarrow> nat list) \<Rightarrow> bool" where
  "sched_ok s L \<longleftrightarrow> rep (mem s) L \<and> queues (mem s) RQ \<noteq> None \<and> queues (mem s) EQ \<noteq> None \<and>
     (\<forall>k. threaded (mem s) (L k)) \<and>
     inj_on (node_thread (mem s)) (\<Union>k. set (L k)) \<and>
     length (threads s) = THREAD_MAX_THREADS \<and> length (thread_wait_queues s) = THREAD_MAX_THREADS \<and>
     (\<forall>p \<in> live_nodes L. 0 \<le> node_id (mem s) p \<and> nat (node_id (mem s) p) < THREAD_MAX_THREADS \<and>
        threads s ! nat (node_id (mem s) p) = Some (node_thread (mem s) p)) \<and>
     (\<forall>p \<in> (\<Union>k. set (L k)). \<forall>a. node_stack (mem s) p = Some a \<longrightarrow> a \<in> stacks (mem s)) \<and>
     (\<forall>p \<in> (\<Union>k. set (L k)). \<forall>q \<in> (\<Union>k. set (L k)). \<forall>a.
        node_stack (mem s) p = Some a \<longrightarrow> node_stack (mem s) q = Some a \<longrightarrow> p = q)"

lemma sched_okD:
  assumes "sched_ok s L"
  shows "rep (mem s) L" "queues (mem s) RQ \<noteq> None" "queues (mem s) EQ \<noteq> None" "threaded (mem s) (L k)"
    "length (threads s) = THREAD_MAX_THREADS" "length (thread_wait_queues s) = THREAD_MAX_THREADS"
  using assms by (simp_all add: sched_ok_def)

lemma sched_ok_live:
  assumes "sched_ok s L" and "p \<in> live_nodes L"
  shows "0 \<le> node_id (mem s) p" "nat (node_id (mem s) p) < THREAD_MAX_THREADS"
    "threads s ! nat (node_id (mem s) p) = Some (node_thread (mem s) p)"
  using assms by (simp_all add: sched_ok_def)

lemma sched_ok_inj: "sched_ok s L \<Longrightarrow> inj_on (node_thread (mem s)) (\<Union>k. set (L k))"
  by (simp add: sched_ok_def)

lemma sched_ok_stacks:
  assumes "sched_ok s L" and "p \<in> (\<Union>k. set (L k))" and "node_stack (mem s) p = Some a"
  shows "a \<in> stacks (mem s)" "q \<in> (\<Union>k. set (L k)) \<Longrightarrow> node_stack (mem s) q = Some a \<Longrightarrow> p = q"
  using assms unfolding sched_ok_def by blast+

lemma current_th_eq:
  assumes "rep (mem s) L" and "queues (mem s) RQ \<noteq> None" and "threaded (mem s) (L RQ)" and L: "L RQ = a # ns"
  shows "\<exists>t. current_th s = Ok (node_thread (mem s) a, t) \<and> tcbs (mem s) (node_thread (mem s) a) = Some t \<and> t_id t = node_id (mem s) a"
proof -
  from assms(2) obtain q where q: "queues (mem s) RQ = Some q" by auto
  from repD [OF assms(1) q] L have "q_head q = Some a" by (simp add: qrep_Cons)
  moreover from threadedD [OF assms(3), of a] L obtain n t where
    "nodes (mem s) a = Some n" "tcbs (mem s) (nd_thread n) = Some t" "t_id t = node_id (mem s) a" by auto
  ultimately show ?thesis using q by (simp add: current_th_def fetch_def deref_def node_thread_def)
qed

lemma rep_tcbs [simp]: "rep (m\<lparr>tcbs := x\<rparr>) L = rep m L"
  by (simp add: rep_def cong: option.case_cong)

lemma distinct_node_ids:
  assumes "sched_ok s L" and "p \<in> live_nodes L" "q \<in> live_nodes L" and "node_id (mem s) p = node_id (mem s) q"
  shows "p = q"
proof -
  have "node_thread (mem s) p = node_thread (mem s) q"
    using sched_ok_live(3) [OF assms(1,2)] sched_ok_live(3) [OF assms(1,3)] assms(4) by simp
  moreover have "p \<in> (\<Union>k. set (L k))" "q \<in> (\<Union>k. set (L k))" using assms(2,3) by (auto simp: live_nodes_def)
  ultimately show ?thesis using assms(1) by (auto simp: sched_ok_def inj_on_def)
qed

section \<open>Changing the status or the context of a thread\<close>

lemma set_thread_status_eq:
  assumes "tcbs m th = Some t"
  shows "set_thread_status m th st = Ok (m\<lparr>tcbs := (tcbs m)(th \<mapsto> t\<lparr>t_status := (if t_status t = THREAD_EXITED then THREAD_EXITED else st)\<rparr>)\<rparr>)"
proof (cases "t_status t = THREAD_EXITED")
  case True
  then have "t\<lparr>t_status := THREAD_EXITED\<rparr> = t" by simp
  with True assms have "(tcbs m)(th \<mapsto> t\<lparr>t_status := THREAD_EXITED\<rparr>) = tcbs m" by (auto simp: fun_eq_iff)
  then have "m\<lparr>tcbs := (tcbs m)(th \<mapsto> t\<lparr>t_status := THREAD_EXITED\<rparr>)\<rparr> = m" by simp
  with True assms show ?thesis by (simp add: set_thread_status_def fetch_def)
qed (use assms in \<open>simp add: set_thread_status_def fetch_def\<close>)

text \<open>Two states whose threads differ in status and context only.\<close>

definition same_tcbs :: "tmem \<Rightarrow> tmem \<Rightarrow> bool" where
  "same_tcbs m m' \<longleftrightarrow> stacks m' = stacks m \<and> (\<forall>th. (tcbs m th = None \<longleftrightarrow> tcbs m' th = None) \<and>
     t_id (the (tcbs m' th)) = t_id (the (tcbs m th)) \<and> t_stack (the (tcbs m' th)) = t_stack (the (tcbs m th))) \<and>
     (\<forall>p. map_option nd_thread (nodes m' p) = map_option nd_thread (nodes m p)) \<and> dom (queues m') = dom (queues m)"

lemma same_tcbs_refl [simp]: "same_tcbs m m"
  by (simp add: same_tcbs_def)

lemma same_tcbs_trans: "same_tcbs m m' \<Longrightarrow> same_tcbs m' m'' \<Longrightarrow> same_tcbs m m''"
  by (simp add: same_tcbs_def)

lemma same_threads_tcbs: "same_threads m m' \<Longrightarrow> same_tcbs m m'"
  by (simp add: same_threads_def same_tcbs_def)

lemma same_tcbs_update:
  "tcbs m th = Some t \<Longrightarrow> t_id t' = t_id t \<Longrightarrow> t_stack t' = t_stack t \<Longrightarrow> same_tcbs m (m\<lparr>tcbs := (tcbs m)(th \<mapsto> t')\<rparr>)"
  by (auto simp: same_tcbs_def)

lemma same_tcbs_some: "same_tcbs m m' \<Longrightarrow> tcbs m th = Some t \<Longrightarrow> tcbs m' th \<noteq> None"
  by (metis option.distinct(1) same_tcbs_def)

lemma same_tcbs_node:
  assumes "same_tcbs m m'" and "nodes m p \<noteq> None"
  shows "node_thread m' p = node_thread m p" "node_id m' p = node_id m p" "node_stack m' p = node_stack m p" "nodes m' p \<noteq> None"
proof -
  from assms have "map_option nd_thread (nodes m' p) = map_option nd_thread (nodes m p)" by (simp add: same_tcbs_def)
  with assms(2) have nt: "nd_thread (the (nodes m' p)) = nd_thread (the (nodes m p))" and "nodes m' p \<noteq> None" by auto
  then show "node_thread m' p = node_thread m p" "nodes m' p \<noteq> None" by (simp_all add: node_thread_def)
  then show "node_id m' p = node_id m p" "node_stack m' p = node_stack m p"
    using assms(1) nt by (simp_all add: node_id_def node_stack_def same_tcbs_def)
qed

text \<open>Moving nodes between queues and changing statuses keeps the state well formed.\<close>

lemma sched_ok_move:
  assumes ok: "sched_ok s L" and r: "rep (mem s') L'" and same: "same_tcbs (mem s) (mem s')"
    and L: "(\<Union>k. set (L' k)) = (\<Union>k. set (L k))" "live_nodes L' = live_nodes L"
    and s': "threads s' = threads s" "thread_wait_queues s' = thread_wait_queues s"
  shows "sched_ok s' L'"
proof -
  have node: "nodes (mem s) p \<noteq> None" if "p \<in> (\<Union>k. set (L k))" for p
    using that rep_node [OF sched_okD(1) [OF ok]] by blast
  note N = same_tcbs_node [OF same node]
  have th: "threaded (mem s') (L' k)" for k
    unfolding threaded_def
  proof
    fix p assume "p \<in> set (L' k)"
    then have p: "p \<in> (\<Union>k. set (L k))" using L(1) by blast
    then obtain n t where n: "nodes (mem s) p = Some n" "tcbs (mem s) (nd_thread n) = Some t"
      using sched_okD(4) [OF ok] by (fastforce simp: threaded_def)
    from N(4) [OF p] obtain n' where n': "nodes (mem s') p = Some n'" by auto
    then have "nd_thread n' = nd_thread n" using N(1) [OF p] n by (simp add: node_thread_def)
    moreover have "tcbs (mem s') (nd_thread n) \<noteq> None" using same_tcbs_some [OF same n(2)] .
    ultimately show "\<exists>n t. nodes (mem s') p = Some n \<and> tcbs (mem s') (nd_thread n) = Some t" using n' by auto
  qed
  have inj: "inj_on (node_thread (mem s')) (\<Union>k. set (L' k))"
    unfolding L(1) using inj_on_cong [of "\<Union>k. set (L k)" "node_thread (mem s')" "node_thread (mem s)"] N(1) sched_ok_inj [OF ok] by simp
  have q: "queues (mem s') RQ \<noteq> None" "queues (mem s') EQ \<noteq> None" using sched_okD(2,3) [OF ok] same by (auto simp: same_tcbs_def)
  have live: "0 \<le> node_id (mem s') p \<and> nat (node_id (mem s') p) < THREAD_MAX_THREADS \<and>
      threads s' ! nat (node_id (mem s') p) = Some (node_thread (mem s') p)" if "p \<in> live_nodes L'" for p
  proof -
    have p: "p \<in> live_nodes L" using that L(2) by simp
    then have "p \<in> (\<Union>k. set (L k))" by (auto simp: live_nodes_def)
    with N(1,2) s'(1) sched_ok_live [OF ok p] show ?thesis by simp
  qed
  have st1: "a \<in> stacks (mem s')" if "p \<in> (\<Union>k. set (L' k))" "node_stack (mem s') p = Some a" for p a
    using that N(3) L(1) sched_ok_stacks(1) [OF ok, of p a] same by (simp add: same_tcbs_def)
  have st2: "p = q" if "p \<in> (\<Union>k. set (L' k))" "q \<in> (\<Union>k. set (L' k))" "node_stack (mem s') p = Some a" "node_stack (mem s') q = Some a" for p q a
    using that N(3) L(1) sched_ok_stacks(2) [OF ok, of p a q] by simp
  show ?thesis unfolding sched_ok_def
  proof (intro conjI)
    show "\<forall>p \<in> live_nodes L'. 0 \<le> node_id (mem s') p \<and> nat (node_id (mem s') p) < THREAD_MAX_THREADS \<and>
      threads s' ! nat (node_id (mem s') p) = Some (node_thread (mem s') p)" using live by (rule ballI)
    show "\<forall>p \<in> (\<Union>k. set (L' k)). \<forall>a. node_stack (mem s') p = Some a \<longrightarrow> a \<in> stacks (mem s')"
      by (intro ballI allI impI) (rule st1)
    show "\<forall>p \<in> (\<Union>k. set (L' k)). \<forall>q \<in> (\<Union>k. set (L' k)). \<forall>a.
        node_stack (mem s') p = Some a \<longrightarrow> node_stack (mem s') q = Some a \<longrightarrow> p = q"
      by (intro ballI allI impI) (rule st2)
  qed (use r th inj q s' sched_okD(5,6) [OF ok] in simp_all)
qed

section \<open>Yielding\<close>

lemma set_context_ok:
  assumes "tcbs m cur = Some t"
  shows "\<exists>m' t'. and_then (set_thread_status m cur st) (\<lambda>m. and_then (switch_from (s\<lparr>mem := m, intr := False\<rparr>) cur c) (\<lambda>s. Ok (None :: int option, s))) =
      Ok (None, s\<lparr>mem := m', intr := False, mode := Switch\<rparr>) \<and>
    m' = m\<lparr>tcbs := (tcbs m)(cur \<mapsto> t')\<rparr> \<and> same_tcbs m m' \<and> t_context t' = c \<and>
    t_status t' = (if t_status t = THREAD_EXITED then THREAD_EXITED else st)"
proof -
  let ?t = "t\<lparr>t_status := (if t_status t = THREAD_EXITED then THREAD_EXITED else st), t_context := c\<rparr>"
  have "same_tcbs m (m\<lparr>tcbs := (tcbs m)(cur \<mapsto> ?t)\<rparr>)" using assms by (intro same_tcbs_update) simp_all
  moreover have "and_then (set_thread_status m cur st) (\<lambda>m. and_then (switch_from (s\<lparr>mem := m, intr := False\<rparr>) cur c) (\<lambda>s. Ok (None :: int option, s))) =
      Ok (None, s\<lparr>mem := m\<lparr>tcbs := (tcbs m)(cur \<mapsto> ?t)\<rparr>, intr := False, mode := Switch\<rparr>)"
    unfolding set_thread_status_eq [OF assms] by (simp add: switch_from_def fetch_def)
  ultimately show ?thesis by (intro exI [of _ "m\<lparr>tcbs := (tcbs m)(cur \<mapsto> ?t)\<rparr>"] exI [of _ ?t]) simp
qed

text \<open>
  What has changed when a thread has left the processor: its status and its saved context; the rest of the
  state but for the links of the queues is as before.
\<close>

definition left :: "tsys \<Rightarrow> nat \<Rightarrow> THREAD_STATUS \<Rightarrow> ucontext \<Rightarrow> tsys \<Rightarrow> bool" where
  "left s th st c s' \<longleftrightarrow> same_tcbs (mem s) (mem s') \<and> brk (mem s') = brk (mem s) \<and>
     threads s' = threads s \<and> thread_wait_queues s' = thread_wait_queues s \<and> locks s' = locks s \<and> cvs s' = cvs s \<and>
     mode s' = Switch \<and> \<not> intr s' \<and>
     (\<exists>t t'. tcbs (mem s) th = Some t \<and> tcbs (mem s') = (tcbs (mem s))(th \<mapsto> t') \<and> t_context t' = c \<and>
        t_status t' = (if t_status t = THREAD_EXITED then THREAD_EXITED else st))"

lemma sched_ok_leave:
  assumes ok: "sched_ok s L" and cur: "tcbs (mem s) cur = Some t" and r: "rep m L'" and same: "same_threads (mem s) m"
    and L: "(\<Union>k. set (L' k)) = (\<Union>k. set (L k))" "live_nodes L' = live_nodes L"
  shows "\<exists>s'. and_then (set_thread_status m cur st) (\<lambda>m. and_then (switch_from (s\<lparr>mem := m, intr := False\<rparr>) cur c) (\<lambda>s. Ok (None :: int option, s))) = Ok (None, s') \<and>
    sched_ok s' L' \<and> left s cur st c s'"
proof -
  have "tcbs m cur = Some t" using cur same by (simp add: same_threads_def)
  from set_context_ok [OF this, of st s c] obtain m' t' where
    m': "and_then (set_thread_status m cur st) (\<lambda>m. and_then (switch_from (s\<lparr>mem := m, intr := False\<rparr>) cur c) (\<lambda>s. Ok (None :: int option, s))) =
      Ok (None, s\<lparr>mem := m', intr := False, mode := Switch\<rparr>)" "m' = m\<lparr>tcbs := (tcbs m)(cur \<mapsto> t')\<rparr>" "same_tcbs m m'" "t_context t' = c"
      "t_status t' = (if t_status t = THREAD_EXITED then THREAD_EXITED else st)" by blast
  from r m'(2) have "rep m' L'" by simp
  then have "sched_ok (s\<lparr>mem := m', intr := False, mode := Switch\<rparr>) L'"
    using same_tcbs_trans [OF same_threads_tcbs [OF same] m'(3)] L
    by (intro sched_ok_move [OF ok]) simp_all
  moreover have "left s cur st c (s\<lparr>mem := m', intr := False, mode := Switch\<rparr>)"
    using same_tcbs_trans [OF same_threads_tcbs [OF same] m'(3)] m'(2,4,5) cur same by (auto simp: left_def same_threads_def)
  ultimately show ?thesis using m'(1) by blast
qed

lemma all_nodes_update:
  "set ns = set (L k) \<Longrightarrow> (\<Union>j. set ((L(k := ns)) j)) = (\<Union>j. set (L j))"
  by (auto split: if_splits)

lemma live_nodes_update: "set ns = set (L k) \<Longrightarrow> live_nodes (L(k := ns)) = live_nodes L"
  by (auto simp: live_nodes_def split: if_splits)

lemmas yield_defs = yield_switch_def THREAD_ANY_def THREAD_SELF_def Let_def

lemma yield_any:
  assumes ok: "sched_ok s L" and L: "L RQ = a # b # ns"
  shows "\<exists>s'. yield_switch s THREAD_ANY c = Ok (None, s') \<and> sched_ok s' (L(RQ := b # ns @ [a])) \<and>
    left s (node_thread (mem s) a) THREAD_READY (In_yield (node_id (mem s) b) (intr s) c) s'"
proof -
  note D = sched_okD [OF ok]
  from D(2) obtain q where q: "queues (mem s) RQ = Some q" by auto
  from current_th_eq [OF D(1,2,4) L] obtain t where t: "current_th s = Ok (node_thread (mem s) a, t)"
    "tcbs (mem s) (node_thread (mem s) a) = Some t" by blast
  from repD [OF D(1) q] L obtain n where n: "q_head q = Some a" "nodes (mem s) a = Some n" "nd_next n = Some b" "q_size q \<noteq> 1"
    by (auto simp: qrep_def)
  from threadedD [OF D(4) [of RQ], of b] L obtain w u where
    w: "nodes (mem s) b = Some w" "tcbs (mem s) (nd_thread w) = Some u" "t_id u = node_id (mem s) b" by auto
  from move_head_to_end_rep [OF D(1,2)] L obtain m where m: "move_head_to_end (mem s) RQ = Ok m"
    "rep m (L(RQ := b # ns @ [a]))" "same_threads (mem s) m" by auto
  have set: "set (b # ns @ [a]) = set (L RQ)" using L by auto
  from sched_ok_leave [OF ok t(2) m(2,3) all_nodes_update [where L = L, OF set] live_nodes_update [where L = L, OF set]]
  show ?thesis using t q n w m(1) by (simp add: yield_defs fetch_def deref_def)
qed

lemma yield_any_alone:
  assumes ok: "sched_ok s L" and L: "L RQ = [a]"
  shows "yield_switch s THREAD_ANY c = Ok (Some THREAD_NONE, s)"
proof -
  note D = sched_okD [OF ok]
  from D(2) obtain q where q: "queues (mem s) RQ = Some q" by auto
  from repD [OF D(1) q] L have "q_size q = 1" by (simp add: qrep_def)
  moreover from current_th_eq [OF D(1,2,4) L] obtain t where "current_th s = Ok (node_thread (mem s) a, t)" by blast
  ultimately show ?thesis using q by (simp add: yield_defs fetch_def)
qed

lemma yield_self:
  assumes ok: "sched_ok s L" and L: "L RQ = a # ns" and want: "want = THREAD_SELF \<or> want = node_id (mem s) a"
  shows "\<exists>s'. yield_switch s want c = Ok (None, s') \<and> sched_ok s' L \<and>
    left s (node_thread (mem s) a) THREAD_READY (In_yield (node_id (mem s) a) (intr s) c) s'"
proof -
  note D = sched_okD [OF ok]
  from D(2) obtain q where q: "queues (mem s) RQ = Some q" by auto
  from current_th_eq [OF D(1,2,4) L] obtain t where t: "current_th s = Ok (node_thread (mem s) a, t)"
    "tcbs (mem s) (node_thread (mem s) a) = Some t" "t_id t = node_id (mem s) a" by blast
  have "a \<in> live_nodes L" using L by (auto simp: live_nodes_def intro: bexI [of _ RQ])
  then have "want \<noteq> THREAD_ANY" using want sched_ok_live(1) [OF ok, of a] by (auto simp: THREAD_ANY_def THREAD_SELF_def)
  moreover have "same_threads (mem s) (mem s)" by (simp add: same_threads_def)
  note sched_ok_leave [OF ok t(2) D(1) this refl refl, of THREAD_READY "In_yield (node_id (mem s) a) (intr s) c"]
  ultimately show ?thesis using t q want by (simp add: yield_switch_def Let_def fetch_def)
qed

lemma yield_to:
  assumes ok: "sched_ok s L" and L: "L RQ = a # ns" and want: "want \<noteq> THREAD_ANY" "want \<noteq> THREAD_SELF" "want \<noteq> node_id (mem s) a"
  shows "if want \<in> node_id (mem s) ` set ns
    then \<exists>s' w us vs. ns = us @ w # vs \<and> node_id (mem s) w = want \<and> yield_switch s want c = Ok (None, s') \<and>
           sched_ok s' (L(RQ := w # us @ vs @ [a])) \<and> left s (node_thread (mem s) a) THREAD_READY (In_yield want (intr s) c) s'
    else yield_switch s want c = Ok (Some THREAD_INVALID, s)"
proof -
  note D = sched_okD [OF ok]
  from D(2) obtain q where q: "queues (mem s) RQ = Some q" by auto
  from current_th_eq [OF D(1,2,4) L] obtain t where t: "current_th s = Ok (node_thread (mem s) a, t)"
    "tcbs (mem s) (node_thread (mem s) a) = Some t" "t_id t = node_id (mem s) a" by blast
  note F = find_with_prev_rep [OF D(1,2) L D(4), of want]
  show ?thesis
  proof (cases "want \<in> node_id (mem s) ` set ns")
    case False
    with F want(3) obtain prev where "find_in_queue_with_prev (mem s) RQ want = Ok (None, prev)" by auto
    with False t q want show ?thesis by (simp add: yield_defs fetch_def)
  next
    case True
    with F want(3) obtain xs pv w ys where f: "find_in_queue_with_prev (mem s) RQ want = Ok (Some w, Some pv)"
      "L RQ = xs @ [pv, w] @ ys" "node_id (mem s) w = want" by auto
    from move_head_to_end_rep [OF D(1,2)] obtain m where m: "move_head_to_end (mem s) RQ = Ok m"
      "rep m (L(RQ := rotate1 (L RQ)))" "same_threads (mem s) m" by auto
    have q1: "queues m RQ \<noteq> None" using m(3) D(2) by (auto simp: same_threads_def)
    have "\<exists>m' us vs. ns = us @ w # vs \<and> move_to_head m RQ w (Some pv) = Ok m' \<and> rep m' (L(RQ := w # us @ vs @ [a])) \<and> same_threads m m'"
    proof (cases xs)
      case Nil
      with f(2) L have "pv = a" "ns = w # ys" by auto
      with move_to_head_first [OF m(2) q1, of w "ys @ [a]" "Some pv"] L m(2) show ?thesis
        by (intro exI [of _ m] exI [of _ "[]"] exI [of _ ys]) (simp add: same_threads_def)
    next
      case (Cons x xs')
      with f(2) L have "x = a" and ns: "ns = (xs' @ [pv]) @ w # ys" by auto
      from ns L have "(L(RQ := rotate1 (L RQ))) RQ = xs' @ [pv, w] @ (ys @ [a])" by simp
      from move_to_head_rep [OF m(2) q1 this] obtain m' where
        "move_to_head m RQ w (Some pv) = Ok m'" "rep m' (L(RQ := w # (xs' @ [pv]) @ ys @ [a]))" "same_threads m m'"
        unfolding fun_upd_upd append_assoc by blast
      with ns show ?thesis by blast
    qed
    then obtain m' us vs where m': "ns = us @ w # vs" "move_to_head m RQ w (Some pv) = Ok m'"
      "rep m' (L(RQ := w # us @ vs @ [a]))" "same_threads m m'" by blast
    have same: "same_threads (mem s) m'" using m(3) m'(4) by (simp add: same_threads_def)
    have set: "set (w # us @ vs @ [a]) = set (L RQ)" using L m'(1) by auto
    from sched_ok_leave [OF ok t(2) m'(3) same all_nodes_update [where L = L, OF set] live_nodes_update [where L = L, OF set]] obtain s' where
      s': "and_then (set_thread_status m' (node_thread (mem s) a) THREAD_READY)
        (\<lambda>m. and_then (switch_from (s\<lparr>mem := m, intr := False\<rparr>) (node_thread (mem s) a) (In_yield want (intr s) c)) (\<lambda>s. Ok (None :: int option, s))) = Ok (None, s')"
        "sched_ok s' (L(RQ := w # us @ vs @ [a]))"
        "left s (node_thread (mem s) a) THREAD_READY (In_yield want (intr s) c) s'" by blast
    have "yield_switch s want c = Ok (None, s')" using t q want f(1) m(1) m'(2) s'(1) by (simp add: yield_defs fetch_def)
    with True m'(1) f(3) s'(2,3) show ?thesis by auto
  qed
qed

section \<open>Sleeping and waking up\<close>

lemma rep_upd_next_detached:
  assumes "rep m L" and "p \<notin> (\<Union>k. set (L k))"
  shows "rep (m\<lparr>nodes := upd_next (nodes m) p nx\<rparr>) L"
proof -
  have "chain (upd_next (nodes m) p nx) x (L k) None = chain (nodes m) x (L k) None" for x k
    using assms(2) by (intro chain_upd_next) auto
  with assms(1) show ?thesis by (simp add: rep_def qrep_def cong: option.case_cong)
qed

text \<open>The head of one queue becomes the last of another.\<close>

lemma move_node_rep:
  assumes r: "rep m L" and q: "queues m j \<noteq> None" "queues m k \<noteq> None" and jk: "j \<noteq> k" and L: "L j = a # ns"
  shows "\<exists>m1 m'. pop_queue m j = Ok (a, m1) \<and> same_threads m m1 \<and> rep m1 (L(j := ns)) \<and> append_node_to_queue m1 k a = Ok m' \<and>
    rep m' (L(j := ns, k := L k @ [a])) \<and> same_threads m m'"
proof -
  from pop_queue_rep [OF r q(1) L] obtain m1 where m1: "pop_queue m j = Ok (a, m1)" "rep m1 (L(j := ns))" "same_threads m m1"
    "nodes m1 = upd_next (nodes m) a None" by blast
  obtain n where n: "nodes m a = Some n" using rep_node [OF r, of a j] L by auto
  have "distinct (L j)" using q(1) repD [OF r] by (auto simp: qrep_def)
  then have nin: "a \<notin> set ((L(j := ns)) i)" for i
    using L rep_disjoint [OF r, of a j i] by auto
  have "a < brk m1" using rep_lt [OF r, of a j] L m1(3) by (simp add: same_threads_def)
  moreover have "queues m1 k \<noteq> None" using q(2) m1(3) by (auto simp: same_threads_def)
  ultimately obtain m' where m': "append_node_to_queue m1 k a = Ok m'" "rep m' (L(j := ns, k := (L(j := ns)) k @ [a]))" "same_threads m1 m'"
    using append_node_rep [OF m1(2), of k a "n\<lparr>nd_next := None\<rparr>"] n nin by (auto simp: m1(4) upd_next_same)
  have "same_threads m m'" using m1(3) m'(3) by (simp add: same_threads_def)
  with m1 m' jk show ?thesis by auto
qed

lemma move_node_sets:
  assumes "j \<noteq> k" and "L j = a # ns"
  shows "(\<Union>i. set ((L(j := ns, k := L k @ [a])) i)) = (\<Union>i. set (L i))"
    and "j \<noteq> EQ \<Longrightarrow> k \<noteq> EQ \<Longrightarrow> live_nodes (L(j := ns, k := L k @ [a])) = live_nodes L"
proof -
  have j: "x \<in> set (L j) \<longleftrightarrow> x = a \<or> x \<in> set ns" for x using assms(2) by auto
  show "(\<Union>i. set ((L(j := ns, k := L k @ [a])) i)) = (\<Union>i. set (L i))"
  proof (rule set_eqI)
    fix x
    show "x \<in> (\<Union>i. set ((L(j := ns, k := L k @ [a])) i)) \<longleftrightarrow> x \<in> (\<Union>i. set (L i))"
      using j [of x] assms(1) by (auto split: if_splits)
  qed
  show "live_nodes (L(j := ns, k := L k @ [a])) = live_nodes L" if "j \<noteq> EQ" "k \<noteq> EQ"
  proof (rule set_eqI)
    fix x
    show "x \<in> live_nodes (L(j := ns, k := L k @ [a])) \<longleftrightarrow> x \<in> live_nodes L"
      using j [of x] assms(1) that by (auto simp: live_nodes_def split: if_splits)
  qed
qed

lemma sleep_ok:
  assumes ok: "sched_ok s L" and L: "L RQ = a # b # ns" and w: "queues (mem s) (WQ w) \<noteq> None"
  shows "\<exists>s'. sleep_switch s (Some w) c = Ok (None, s') \<and> sched_ok s' (L(RQ := b # ns, WQ w := L (WQ w) @ [a])) \<and>
    left s (node_thread (mem s) a) THREAD_BLOCKED (In_sleep (node_id (mem s) b) (intr s) c) s'"
proof -
  note D = sched_okD [OF ok]
  from D(2) obtain q where q: "queues (mem s) RQ = Some q" by auto
  from repD [OF D(1) q] L have size: "q_size q \<noteq> 1" by (simp add: qrep_def)
  from current_th_eq [OF D(1,2,4) L] obtain t where t: "current_th s = Ok (node_thread (mem s) a, t)"
    "tcbs (mem s) (node_thread (mem s) a) = Some t" by blast
  from move_node_rep [OF D(1,2) w _ L] obtain m1 m where m: "pop_queue (mem s) RQ = Ok (a, m1)"
    "append_node_to_queue m1 (WQ w) a = Ok m" "rep m (L(RQ := b # ns, WQ w := L (WQ w) @ [a]))" "same_threads (mem s) m" by blast
  let ?L = "L(RQ := b # ns, WQ w := L (WQ w) @ [a])"
  note S = move_node_sets [of RQ "WQ w" L a "b # ns", OF _ L]
  have okm: "sched_ok (s\<lparr>mem := m\<rparr>) ?L"
    using m(3) same_threads_tcbs [OF m(4)] S by (intro sched_ok_move [OF ok]) simp_all
  have "?L RQ = b # ns" by simp
  from current_th_eq [OF sched_okD(1,2,4) [OF okm] this] obtain u where
    u: "current_th (s\<lparr>mem := m\<rparr>) = Ok (node_thread m b, u)" "t_id u = node_id m b" by auto
  have "nodes (mem s) b \<noteq> None" using rep_node [OF D(1), of b RQ] L by auto
  then have idb: "node_id m b = node_id (mem s) b" using same_tcbs_node(2) [OF same_threads_tcbs [OF m(4)]] by simp
  have "tcbs (mem (s\<lparr>mem := m\<rparr>)) (node_thread (mem s) a) = Some t" using t(2) m(4) by (simp add: same_threads_def)
  from sched_ok_leave [OF okm this, of m ?L THREAD_BLOCKED "In_sleep (t_id u) (intr s) c"] m(3) obtain s' where
    s': "and_then (set_thread_status m (node_thread (mem s) a) THREAD_BLOCKED)
      (\<lambda>m'. and_then (switch_from (s\<lparr>mem := m', intr := False\<rparr>) (node_thread (mem s) a) (In_sleep (t_id u) (intr s) c)) (\<lambda>s. Ok (None :: int option, s)))
      = Ok (None, s')" "sched_ok s' ?L"
      "left (s\<lparr>mem := m\<rparr>) (node_thread (mem s) a) THREAD_BLOCKED (In_sleep (t_id u) (intr s) c) s'"
    by (auto simp: same_threads_def)
  have "left s (node_thread (mem s) a) THREAD_BLOCKED (In_sleep (node_id (mem s) b) (intr s) c) s'"
    using s'(3) m(4) same_tcbs_trans [OF same_threads_tcbs [OF m(4)]] u(2) idb by (auto simp: left_def same_threads_def)
  moreover have "sleep_switch s (Some w) c = Ok (None, s')"
    using s'(1) q size t(1) m(1,2) u by (auto simp: sleep_switch_def fetch_def Let_def)
  ultimately show ?thesis using s'(2) by blast
qed

lemma sleep_alone:
  assumes ok: "sched_ok s L" and L: "L RQ = [a]"
  shows "sleep_switch s (Some w) c = Ok (Some THREAD_NONE, s)"
proof -
  note D = sched_okD [OF ok]
  from D(2) obtain q where q: "queues (mem s) RQ = Some q" by auto
  from repD [OF D(1) q] L have "q_size q = 1" by (simp add: qrep_def)
  with q show ?thesis by (simp add: sleep_switch_def fetch_def Let_def)
qed

text \<open>
  Waking up the threads \<open>A\<close> makes them ready unless they were killed, and changes nothing else but the
  links of the queues.
\<close>

definition make_ready :: "tcb \<Rightarrow> tcb" where
  "make_ready t = t\<lparr>t_status := (if t_status t = THREAD_EXITED then THREAD_EXITED else THREAD_READY)\<rparr>"

lemma make_ready_idem [simp]: "make_ready (make_ready t) = make_ready t"
  by (simp add: make_ready_def)

definition woken :: "nat set \<Rightarrow> tmem \<Rightarrow> tmem \<Rightarrow> bool" where
  "woken A m m' \<longleftrightarrow> same_tcbs m m' \<and> brk m' = brk m \<and>
     tcbs m' = (\<lambda>th. if th \<in> A then map_option make_ready (tcbs m th) else tcbs m th)"

lemma woken_refl [simp]: "woken {} m m"
  by (simp add: woken_def)

lemma woken_trans: "woken A m m' \<Longrightarrow> woken B m' m'' \<Longrightarrow> woken (A \<union> B) m m''"
  by (auto simp: woken_def fun_eq_iff option.map_comp comp_def intro: same_tcbs_trans)

lemma woken_queue: "woken A m m' \<Longrightarrow> queues m' k \<noteq> None \<longleftrightarrow> queues m k \<noteq> None"
  by (auto simp: woken_def same_tcbs_def)

lemma wakeup_step:
  assumes ok: "sched_ok s L" and w: "queues (mem s) (WQ w) \<noteq> None" and L: "L (WQ w) = a # ns"
  shows "\<exists>m1 n m2 m. pop_queue (mem s) (WQ w) = Ok (a, m1) \<and> fetch (nodes m1) a = Ok n \<and>
    set_thread_status m1 (nd_thread n) THREAD_READY = Ok m2 \<and> append_node_to_queue m2 RQ a = Ok m \<and>
    sched_ok (s\<lparr>mem := m\<rparr>) (L(WQ w := ns, RQ := L RQ @ [a])) \<and> woken {node_thread (mem s) a} (mem s) m"
proof -
  note D = sched_okD [OF ok]
  from pop_queue_rep [OF D(1) w L] obtain m1 where m1: "pop_queue (mem s) (WQ w) = Ok (a, m1)" "rep m1 (L(WQ w := ns))"
    "same_threads (mem s) m1" "nodes m1 = upd_next (nodes (mem s)) a None" by blast
  from threadedD [OF D(4) [of "WQ w"], of a] L obtain n t where n: "nodes (mem s) a = Some n" "tcbs (mem s) (nd_thread n) = Some t" by auto
  have n1: "nodes m1 a = Some (n\<lparr>nd_next := None\<rparr>)" and t1: "tcbs m1 (nd_thread n) = Some t"
    using m1(3,4) n by (simp_all add: upd_next_same same_threads_def)
  let ?t = "t\<lparr>t_status := (if t_status t = THREAD_EXITED then THREAD_EXITED else THREAD_READY)\<rparr>"
  let ?m2 = "m1\<lparr>tcbs := (tcbs m1)(nd_thread n \<mapsto> ?t)\<rparr>"
  have st: "set_thread_status m1 (nd_thread n) THREAD_READY = Ok ?m2" by (rule set_thread_status_eq [OF t1])
  have dist: "distinct (L (WQ w))" using w repD [OF D(1)] by (auto simp: qrep_def)
  then have nin: "a \<notin> set ((L(WQ w := ns)) i)" for i using L rep_disjoint [OF D(1), of a "WQ w" i] by auto
  have lt: "a < brk ?m2" using rep_lt [OF D(1), of a "WQ w"] L m1(3) by (simp add: same_threads_def)
  have rq: "queues ?m2 RQ \<noteq> None" using D(2) m1(3) by (auto simp: same_threads_def)
  have "rep ?m2 (L(WQ w := ns))" using m1(2) by simp
  from append_node_rep [OF this rq, of a "n\<lparr>nd_next := None\<rparr>"] n1 nin lt obtain m where
    m: "append_node_to_queue ?m2 RQ a = Ok m" "rep m (L(WQ w := ns, RQ := L RQ @ [a]))" "same_threads ?m2 m" by auto
  have "same_tcbs m1 ?m2" by (rule same_tcbs_update [OF t1]) simp_all
  then have same: "same_tcbs (mem s) m"
    using same_tcbs_trans [OF same_threads_tcbs [OF m1(3)]] same_tcbs_trans same_threads_tcbs [OF m(3)] by blast
  have "sched_ok (s\<lparr>mem := m\<rparr>) (L(WQ w := ns, RQ := L RQ @ [a]))"
    using m(2) same move_node_sets [of "WQ w" RQ L a ns, OF _ L] by (intro sched_ok_move [OF ok]) simp_all
  moreover have "woken {node_thread (mem s) a} (mem s) m"
    using same m(3) m1(3) t1 n(1) by (auto simp: woken_def same_threads_def make_ready_def fun_eq_iff node_thread_def)
  ultimately show ?thesis using m1(1) n1 st m(1) by (auto simp: fetch_def)
qed

lemma wakeup_loop_ok:
  "sched_ok s L \<Longrightarrow> queues (mem s) (WQ w) \<noteq> None \<Longrightarrow> L (WQ w) = a # ns \<Longrightarrow> length ns < fuel \<Longrightarrow>
   \<exists>m. wakeup_loop fuel (mem s) w True count = Ok (count + int (length (a # ns)), m) \<and>
     sched_ok (s\<lparr>mem := m\<rparr>) (L(WQ w := [], RQ := L RQ @ a # ns)) \<and> woken (node_thread (mem s) ` set (a # ns)) (mem s) m"
proof (induction ns arbitrary: a fuel s L count)
  case Nil
  from wakeup_step [OF Nil(1-3)] obtain m1 n m2 m where st: "pop_queue (mem s) (WQ w) = Ok (a, m1)" "fetch (nodes m1) a = Ok n"
    "set_thread_status m1 (nd_thread n) THREAD_READY = Ok m2" "append_node_to_queue m2 RQ a = Ok m"
    "sched_ok (s\<lparr>mem := m\<rparr>) (L(WQ w := [], RQ := L RQ @ [a]))" "woken {node_thread (mem s) a} (mem s) m" by blast
  from woken_queue [OF st(6)] Nil(2) obtain q where q: "queues m (WQ w) = Some q" by auto
  have "q_head q = None" using repD [OF sched_okD(1) [OF st(5)], of "WQ w" q] q by (simp add: qrep_Nil)
  moreover from Nil(4) obtain f where f: "fuel = Suc f" by (cases fuel) auto
  ultimately have "wakeup_loop fuel (mem s) w True count = Ok (count + int (length [a]), m)"
    using st(1-4) q by (simp add: fetch_def [of "queues m"])
  moreover have "node_thread (mem s) ` set [a] = {node_thread (mem s) a}" by simp
  ultimately show ?case using st(5,6) by metis
next
  case (Cons b ns)
  from wakeup_step [OF Cons.prems(1-3)] obtain m1 n m2 m where st: "pop_queue (mem s) (WQ w) = Ok (a, m1)" "fetch (nodes m1) a = Ok n"
    "set_thread_status m1 (nd_thread n) THREAD_READY = Ok m2" "append_node_to_queue m2 RQ a = Ok m"
    "sched_ok (s\<lparr>mem := m\<rparr>) (L(WQ w := b # ns, RQ := L RQ @ [a]))" "woken {node_thread (mem s) a} (mem s) m" by blast
  from woken_queue [OF st(6)] Cons.prems(2) obtain q where q: "queues m (WQ w) = Some q" by auto
  have hb: "q_head q = Some b" using repD [OF sched_okD(1) [OF st(5)], of "WQ w" q] q by (simp add: qrep_Cons)
  from Cons.prems(4) obtain f where f: "fuel = Suc f" "length ns < f" by (cases fuel) auto
  let ?L1 = "L(WQ w := b # ns, RQ := L RQ @ [a])"
  have "queues (mem (s\<lparr>mem := m\<rparr>)) (WQ w) \<noteq> None" "?L1 (WQ w) = b # ns" using q by simp_all
  from Cons.IH [OF st(5) this f(2), of "count + 1"] obtain m' where
    m: "wakeup_loop f (mem (s\<lparr>mem := m\<rparr>)) w True (count + 1) = Ok (count + 1 + int (length (b # ns)), m')"
      "sched_ok (s\<lparr>mem := m, mem := m'\<rparr>) (?L1(WQ w := [], RQ := ?L1 RQ @ b # ns))" "woken (node_thread (mem (s\<lparr>mem := m\<rparr>)) ` set (b # ns)) (mem (s\<lparr>mem := m\<rparr>)) m'" by blast
  have same: "same_tcbs (mem s) m" using st(6) by (simp add: woken_def)
  have "node_thread m p = node_thread (mem s) p" if "p \<in> set (b # ns)" for p
    using rep_node [OF sched_okD(1) [OF Cons.prems(1)], of p "WQ w"] that Cons.prems(3) by (intro same_tcbs_node(1) [OF same]) auto
  then have img: "node_thread m ` set (b # ns) = node_thread (mem s) ` set (b # ns)" by (intro image_cong) simp_all
  have un: "node_thread (mem s) ` set (a # b # ns) = {node_thread (mem s) a} \<union> node_thread (mem s) ` set (b # ns)" by auto
  have wm: "woken (node_thread m ` set (b # ns)) m m'"
  proof -
    have "mem (s\<lparr>mem := m\<rparr>) = m" by simp
    with m(3) show ?thesis by metis
  qed
  have wk: "woken (node_thread (mem s) ` set (a # b # ns)) (mem s) m'"
    unfolding un by (rule woken_trans [OF st(6) wm [unfolded img]])
  have eq: "?L1(WQ w := [], RQ := ?L1 RQ @ b # ns) = L(WQ w := [], RQ := L RQ @ a # b # ns)" by (rule ext) simp
  have m': "wakeup_loop f m w True (count + 1) = Ok (count + 1 + int (length (b # ns)), m')"
    "sched_ok (s\<lparr>mem := m'\<rparr>) (L(WQ w := [], RQ := L RQ @ a # b # ns))"
    using m(1) m(2) [unfolded eq] by simp_all
  have "wakeup_loop fuel (mem s) w True count = Ok (count + int (length (a # b # ns)), m')"
    using st(1-4) q f hb m'(1) by (simp add: fetch_def [of "queues m"])
  with m'(2) wk show ?case by blast
qed

lemma thread_wakeup_all:
  assumes ok: "sched_ok s L" and w: "queues (mem s) (WQ w) \<noteq> None"
  shows "\<exists>m. thread_wakeup s (Some w) True = Ok (int (length (L (WQ w))), s\<lparr>mem := m\<rparr>) \<and>
    sched_ok (s\<lparr>mem := m\<rparr>) (L(WQ w := [], RQ := L RQ @ L (WQ w))) \<and> woken (node_thread (mem s) ` set (L (WQ w))) (mem s) m"
proof -
  from w obtain q where q: "queues (mem s) (WQ w) = Some q" by auto
  note Q = repD [OF sched_okD(1) [OF ok] q]
  show ?thesis
  proof (cases "L (WQ w)")
    case Nil
    with Q q have "thread_wakeup s (Some w) True = Ok (0, s)" by (simp add: thread_wakeup_def fetch_def qrep_Nil)
    moreover have "L(WQ w := [], RQ := L RQ @ L (WQ w)) = L" using Nil by auto
    ultimately show ?thesis using Nil ok w by (intro exI [of _ "mem s"]) simp
  next
    case (Cons a ns)
    have "length (L (WQ w)) < Suc (brk (mem s))" using rep_length [OF sched_okD(1) [OF ok], of "WQ w"] by simp
    then have "length ns < Suc (brk (mem s))" using Cons by simp
    from wakeup_loop_ok [OF ok w Cons this, of 0] Q q Cons show ?thesis
      by (auto simp: thread_wakeup_def fetch_def qrep_Cons simp del: wakeup_loop.simps)
  qed
qed

lemma thread_wakeup_one:
  assumes ok: "sched_ok s L" and w: "queues (mem s) (WQ w) \<noteq> None" and L: "L (WQ w) = a # ns"
  shows "\<exists>m. thread_wakeup s (Some w) False = Ok (1, s\<lparr>mem := m\<rparr>) \<and>
    sched_ok (s\<lparr>mem := m\<rparr>) (L(WQ w := ns, RQ := L RQ @ [a])) \<and> woken {node_thread (mem s) a} (mem s) m"
proof -
  from w obtain q where q: "queues (mem s) (WQ w) = Some q" by auto
  note Q = repD [OF sched_okD(1) [OF ok] q]
  from wakeup_step [OF ok w L] obtain m1 n m2 m where st: "pop_queue (mem s) (WQ w) = Ok (a, m1)" "fetch (nodes m1) a = Ok n"
    "set_thread_status m1 (nd_thread n) THREAD_READY = Ok m2" "append_node_to_queue m2 RQ a = Ok m"
    "sched_ok (s\<lparr>mem := m\<rparr>) (L(WQ w := ns, RQ := L RQ @ [a]))" "woken {node_thread (mem s) a} (mem s) m" by blast
  moreover have "queues m (WQ w) \<noteq> None" using woken_queue [OF st(6)] w by simp
  ultimately show ?thesis using Q q L by (auto simp: thread_wakeup_def fetch_def qrep_Cons)
qed

section \<open>Freeing threads\<close>

text \<open>
  The part of a well-formed state that freeing depends on. \<open>D\<close> are nodes in no queue.
\<close>

definition all_nodes :: "(qid \<Rightarrow> nat list) \<Rightarrow> nat set" where
  "all_nodes L = (\<Union>k. set (L k))"

definition heap_ok :: "tmem \<Rightarrow> (qid \<Rightarrow> nat list) \<Rightarrow> nat set \<Rightarrow> bool" where
  "heap_ok m L D \<longleftrightarrow> rep m L \<and> all_nodes L \<inter> D = {} \<and>
     (\<forall>p \<in> all_nodes L \<union> D. \<exists>n t. nodes m p = Some n \<and> tcbs m (nd_thread n) = Some t) \<and>
     inj_on (node_thread m) (all_nodes L \<union> D) \<and>
     (\<forall>p \<in> all_nodes L \<union> D. \<forall>a. node_stack m p = Some a \<longrightarrow> a \<in> stacks m) \<and>
     (\<forall>p \<in> all_nodes L \<union> D. \<forall>q \<in> all_nodes L \<union> D. \<forall>a. node_stack m p = Some a \<longrightarrow> node_stack m q = Some a \<longrightarrow> p = q)"

lemma in_all_nodes: "p \<in> set (L k) \<Longrightarrow> p \<in> all_nodes L"
  by (auto simp: all_nodes_def)

lemma heap_ok_rep: "heap_ok m L D \<Longrightarrow> rep m L"
  by (simp add: heap_ok_def)

lemma heap_ok_node:
  "heap_ok m L D \<Longrightarrow> p \<in> all_nodes L \<union> D \<Longrightarrow> \<exists>n t. nodes m p = Some n \<and> tcbs m (nd_thread n) = Some t"
  by (simp add: heap_ok_def)

lemma heap_ok_inj:
  "heap_ok m L D \<Longrightarrow> p \<in> all_nodes L \<union> D \<Longrightarrow> q \<in> all_nodes L \<union> D \<Longrightarrow> node_thread m p = node_thread m q \<Longrightarrow> p = q"
  unfolding heap_ok_def inj_on_def by blast

lemma heap_ok_stack:
  assumes "heap_ok m L D" and "p \<in> all_nodes L \<union> D" and "node_stack m p = Some a"
  shows "a \<in> stacks m" "q \<in> all_nodes L \<union> D \<Longrightarrow> node_stack m q = Some a \<Longrightarrow> p = q"
  using assms unfolding heap_ok_def by blast+

lemma heap_okI:
  assumes "rep m L" and "all_nodes L \<inter> D = {}"
    and "\<And>p. p \<in> all_nodes L \<union> D \<Longrightarrow> \<exists>n t. nodes m p = Some n \<and> tcbs m (nd_thread n) = Some t"
    and "\<And>p q. p \<in> all_nodes L \<union> D \<Longrightarrow> q \<in> all_nodes L \<union> D \<Longrightarrow> node_thread m p = node_thread m q \<Longrightarrow> p = q"
    and "\<And>p a. p \<in> all_nodes L \<union> D \<Longrightarrow> node_stack m p = Some a \<Longrightarrow> a \<in> stacks m"
    and "\<And>p q a. p \<in> all_nodes L \<union> D \<Longrightarrow> q \<in> all_nodes L \<union> D \<Longrightarrow> node_stack m p = Some a \<Longrightarrow> node_stack m q = Some a \<Longrightarrow> p = q"
  shows "heap_ok m L D"
  unfolding heap_ok_def inj_on_def
  by (intro conjI ballI allI impI) (rule assms; assumption)+

lemma sched_heap_ok:
  assumes "sched_ok s L"
  shows "heap_ok (mem s) L {}"
proof -
  have "\<forall>p \<in> all_nodes L. \<exists>n t. nodes (mem s) p = Some n \<and> tcbs (mem s) (nd_thread n) = Some t"
    using sched_okD(4) [OF assms] unfolding all_nodes_def threaded_def by blast
  then show ?thesis using assms by (simp add: heap_ok_def sched_ok_def all_nodes_def [symmetric])
qed

lemma heap_freeable:
  assumes ok: "heap_ok m L D"
  shows "freeable m (L k)"
  unfolding freeable_def
proof (intro conjI)
  have sub: "set (L k) \<subseteq> all_nodes L \<union> D" by (auto simp: all_nodes_def)
  show dist: "distinct (L k)"
  proof (cases "queues m k")
    case None
    then have "L k = []" using heap_ok_rep [OF ok] by (auto simp: rep_def split: option.splits dest: spec [of _ k])
    then show ?thesis by simp
  next
    case (Some q)
    from repD [OF heap_ok_rep [OF ok] Some] show ?thesis by (simp add: qrep_def)
  qed
  have "inj_on (node_thread m) (set (L k))" using sub heap_ok_inj [OF ok] unfolding inj_on_def by blast
  with dist show "distinct (map (node_thread m) (L k))" by (simp add: distinct_map)
  show "threaded m (L k)" unfolding threaded_def using heap_ok_node [OF ok] sub by blast
  show "\<forall>p \<in> set (L k). \<forall>a. node_stack m p = Some a \<longrightarrow> a \<in> stacks m" using heap_ok_stack(1) [OF ok] sub by blast
  show "\<forall>p \<in> set (L k). \<forall>q \<in> set (L k). \<forall>a. node_stack m p = Some a \<longrightarrow> node_stack m q = Some a \<longrightarrow> p = q"
  proof (intro ballI allI impI)
    fix p q a assume "p \<in> set (L k)" "q \<in> set (L k)" "node_stack m p = Some a" "node_stack m q = Some a"
    with heap_ok_stack(2) [OF ok, of p a q] sub show "p = q" by blast
  qed
qed

text \<open>Freeing a queue leaves every other node with its thread and stack.\<close>

lemma heap_clear:
  assumes ok: "heap_ok m L D" and k: "queues m k \<noteq> None"
  shows "\<exists>m'. clear_queue m (Some k) = Ok m' \<and> heap_ok m' (L(k := [])) D \<and> dom (queues m') = dom (queues m) \<and> brk m' = brk m \<and>
    stacks m' \<subseteq> stacks m \<and> (\<forall>th. tcbs m' th \<noteq> None \<longrightarrow> tcbs m' th = tcbs m th) \<and>
    (\<forall>p \<in> all_nodes (L(k := [])) \<union> D. nodes m' p = nodes m p \<and> tcbs m' (node_thread m p) = tcbs m (node_thread m p))"
proof -
  from clear_queue_rep [OF heap_ok_rep [OF ok] k heap_freeable [OF ok]] obtain m' where
    m: "clear_queue m (Some k) = Ok m'" "rep m' (L(k := []))"
      "nodes m' = (\<lambda>p. if p \<in> set (L k) then None else nodes m p)"
      "tcbs m' = (\<lambda>t. if t \<in> node_thread m ` set (L k) then None else tcbs m t)"
      "stacks m' = stacks m - {a. \<exists>p \<in> set (L k). node_stack m p = Some a}" "dom (queues m') = dom (queues m)" "brk m' = brk m" by blast
  let ?A = "all_nodes (L(k := [])) \<union> D"
  have A: "p \<in> all_nodes L \<union> D" "p \<notin> set (L k)" if "p \<in> ?A" for p
  proof -
    show "p \<in> all_nodes L \<union> D" using that by (auto simp: all_nodes_def split: if_splits)
    show "p \<notin> set (L k)"
    proof
      assume pk: "p \<in> set (L k)"
      then have "p \<notin> D" using ok in_all_nodes [of p L k] pk by (auto simp: heap_ok_def)
      with that obtain j where "p \<in> set ((L(k := [])) j)" by (auto simp: all_nodes_def)
      then have "j \<noteq> k" "p \<in> set (L j)" by (auto split: if_splits)
      with pk rep_disjoint [OF heap_ok_rep [OF ok]] show False by blast
    qed
  qed
  have th: "node_thread m p \<notin> node_thread m ` set (L k)" if "p \<in> ?A" for p
  proof
    assume "node_thread m p \<in> node_thread m ` set (L k)"
    then obtain q where "q \<in> set (L k)" "node_thread m p = node_thread m q" by auto
    with heap_ok_inj [OF ok A(1) [OF that], of q] in_all_nodes [of q L k] A(2) [OF that] show False by auto
  qed
  have keep: "nodes m' p = nodes m p" "tcbs m' (node_thread m p) = tcbs m (node_thread m p)"
    "node_thread m' p = node_thread m p" "node_stack m' p = node_stack m p" if "p \<in> ?A" for p
    using A(2) [OF that] th [OF that] by (simp_all add: m(3,4) node_thread_def node_stack_def)
  have "heap_ok m' (L(k := [])) D"
  proof (rule heap_okI [OF m(2)])
    have "all_nodes L \<inter> D = {}" using ok by (simp add: heap_ok_def)
    moreover have "all_nodes (L(k := [])) \<subseteq> all_nodes L" by (auto simp: all_nodes_def split: if_splits)
    ultimately show "all_nodes (L(k := [])) \<inter> D = {}" by blast
    show "\<exists>n t. nodes m' p = Some n \<and> tcbs m' (nd_thread n) = Some t" if "p \<in> ?A" for p
      using heap_ok_node [OF ok A(1) [OF that]] keep(1,2) [OF that] by (auto simp: node_thread_def)
    show "p = q" if "p \<in> ?A" "q \<in> ?A" "node_thread m' p = node_thread m' q" for p q
      using heap_ok_inj [OF ok A(1) [OF that(1)] A(1) [OF that(2)]] that(3) keep(3) [OF that(1)] keep(3) [OF that(2)] by simp
    show "p = q" if "p \<in> ?A" "q \<in> ?A" "node_stack m' p = Some a" "node_stack m' q = Some a" for p q a
      using heap_ok_stack(2) [OF ok A(1) [OF that(1)] _ A(1) [OF that(2)], of a] that(3,4) keep(4) [OF that(1)] keep(4) [OF that(2)] by simp
    show "a \<in> stacks m'" if p: "p \<in> ?A" "node_stack m' p = Some a" for p a
    proof -
      have a: "node_stack m p = Some a" using p keep(4) [OF p(1)] by simp
      have "node_stack m q \<noteq> Some a" if "q \<in> set (L k)" for q
        using heap_ok_stack(2) [OF ok A(1) [OF p(1)] a, of q] in_all_nodes [of q L k] A(2) [OF p(1)] that by auto
      then show ?thesis using heap_ok_stack(1) [OF ok A(1) [OF p(1)] a] by (auto simp: m(5))
    qed
  qed
  moreover have "\<forall>th. tcbs m' th \<noteq> None \<longrightarrow> tcbs m' th = tcbs m th" by (simp add: m(4))
  moreover have "\<forall>p \<in> ?A. nodes m' p = nodes m p \<and> tcbs m' (node_thread m p) = tcbs m (node_thread m p)" using keep(1,2) by blast
  ultimately show ?thesis using m(1,5,6,7) by blast
qed

lemma clear_exited:
  assumes ok: "sched_ok s L"
  shows "\<exists>m. clear_queue (mem s) (Some EQ) = Ok m \<and> sched_ok (s\<lparr>mem := m\<rparr>) (L(EQ := [])) \<and>
    dom (queues m) = dom (queues (mem s)) \<and> brk m = brk (mem s) \<and> stacks m \<subseteq> stacks (mem s) \<and>
    (\<forall>th. tcbs m th \<noteq> None \<longrightarrow> tcbs m th = tcbs (mem s) th) \<and>
    (\<forall>p \<in> live_nodes L. tcbs m (node_thread (mem s) p) = tcbs (mem s) (node_thread (mem s) p) \<and> nodes m p = nodes (mem s) p)"
proof -
  note D = sched_okD [OF ok]
  from heap_clear [OF sched_heap_ok [OF ok] D(3)] obtain m where m: "clear_queue (mem s) (Some EQ) = Ok m" "heap_ok m (L(EQ := [])) {}"
    "dom (queues m) = dom (queues (mem s))" "brk m = brk (mem s)" "stacks m \<subseteq> stacks (mem s)" "\<forall>th. tcbs m th \<noteq> None \<longrightarrow> tcbs m th = tcbs (mem s) th"
    "\<forall>p \<in> all_nodes (L(EQ := [])) \<union> {}. nodes m p = nodes (mem s) p \<and> tcbs m (node_thread (mem s) p) = tcbs (mem s) (node_thread (mem s) p)" by blast
  have all: "(\<Union>k. set ((L(EQ := [])) k)) = live_nodes L" by (auto simp: live_nodes_def split: if_splits)
  then have all': "all_nodes (L(EQ := [])) = live_nodes L" unfolding all_nodes_def .
  have live: "live_nodes (L(EQ := [])) = live_nodes L" by (auto simp: live_nodes_def)
  have id: "node_thread m p = node_thread (mem s) p" "node_id m p = node_id (mem s) p" if "p \<in> live_nodes L" for p
    using m(7) that unfolding all' by (simp_all add: node_thread_def node_id_def)
  have "\<forall>k. threaded m ((L(EQ := [])) k)"
    unfolding threaded_def using heap_ok_node [OF m(2)] in_all_nodes by blast
  then have "sched_ok (s\<lparr>mem := m\<rparr>) (L(EQ := []))"
    using m(2) D sched_ok_live [OF ok] id m(3)
    unfolding sched_ok_def heap_ok_def live all all' by (auto simp: dom_def)
  with m show ?thesis unfolding all' by simp
qed

section \<open>Killing\<close>

lemma thread_kill_eq:
  assumes ok: "sched_ok s L" and L: "L RQ = a # ns" and p: "p \<in> live_nodes L" "p \<noteq> a"
  shows "thread_kill s (node_id (mem s) p) =
    Ok (s\<lparr>mem := (mem s)\<lparr>tcbs := (tcbs (mem s))(node_thread (mem s) p \<mapsto>
          (the (tcbs (mem s) (node_thread (mem s) p)))\<lparr>t_status := THREAD_EXITED\<rparr>)\<rparr>, ret := node_id (mem s) p\<rparr>)"
proof -
  note D = sched_okD [OF ok]
  from current_th_eq [OF D(1,2,4) L] obtain t where t: "current_th s = Ok (node_thread (mem s) a, t)" "t_id t = node_id (mem s) a" by blast
  have a: "a \<in> live_nodes L" using L by (auto simp: live_nodes_def intro: bexI [of _ RQ])
  have ne: "node_id (mem s) p \<noteq> node_id (mem s) a" using distinct_node_ids [OF ok p(1) a] p(2) by auto
  from p(1) obtain k where "p \<in> set (L k)" by (auto simp: live_nodes_def)
  from threadedD [OF D(4) this] obtain n u where n: "nodes (mem s) p = Some n" "tcbs (mem s) (nd_thread n) = Some u" "t_id u = node_id (mem s) p" by blast
  then have u: "tcbs (mem s) (node_thread (mem s) p) = Some u" by (simp add: node_thread_def)
  show ?thesis
    using t ne sched_ok_live [OF ok p(1)] D(5) u n(3) set_thread_status_eq [OF u, of THREAD_EXITED]
    by (simp add: thread_kill_def thread_id_def at_tid_def fetch_def)
qed

end
