(* ===== verification/Thread_Inv.thy ===== *)
theory Thread_Inv
  imports Thread_Sched
begin

text \<open>
  The invariant of the thread library and the proof that every operation keeps it: the queues, the
  thread table, the wait queues of threads, locks and condition variables, and the statuses of
  the threads agree with each other.
\<close>

section \<open>The invariant of the library\<close>

text \<open>
  Wait queues belong to the waiters for a thread, to a lock or to a condition variable; any other was made by the
  program.
\<close>

datatype owner = Waiters nat | Of_lock nat | Of_cv nat

fun wq_of :: "tsys \<Rightarrow> owner \<Rightarrow> nat option" where
  "wq_of s (Waiters i) = (if i < length (thread_wait_queues s) then thread_wait_queues s ! i else None)"
| "wq_of s (Of_lock l) = map_option l_wq (locks s l)"
| "wq_of s (Of_cv c) = map_option cv_wq (cvs s c)"

text \<open>The lock a stopped thread will try to take when it runs again.\<close>

fun caller_lock :: "caller \<Rightarrow> nat option" where
  "caller_lock (From_acquire l e outer) = Some l"
| "caller_lock (From_cv_wait l e) = Some l"
| "caller_lock _ = None"

fun wants_lock :: "ucontext \<Rightarrow> nat option" where
  "wants_lock In_stub = None"
| "wants_lock (In_yield want e c) = caller_lock c"
| "wants_lock (In_sleep r e c) = caller_lock c"

definition node_tcb :: "tmem \<Rightarrow> nat \<Rightarrow> tcb" where
  "node_tcb m p = the (tcbs m (node_thread m p))"

text \<open>The statuses a thread can have: a killed thread is never the running one.\<close>

definition status_at :: "mode \<Rightarrow> (qid \<Rightarrow> nat list) \<Rightarrow> qid \<Rightarrow> nat \<Rightarrow> THREAD_STATUS set" where
  "status_at md L k p =
     (if k = RQ then if md = Run \<and> p = hd (L RQ) then {THREAD_RUNNING} else {THREAD_READY, THREAD_EXITED}
      else {THREAD_BLOCKED, THREAD_EXITED})"

definition wait_ok :: "tsys \<Rightarrow> bool" where
  "wait_ok s \<longleftrightarrow>
     (\<forall>ow w. wq_of s ow = Some w \<longrightarrow> queues (mem s) (WQ w) \<noteq> None) \<and>
     (\<forall>ow ow' w. wq_of s ow = Some w \<longrightarrow> wq_of s ow' = Some w \<longrightarrow> ow = ow') \<and>
     (\<forall>w. queues (mem s) (WQ w) \<noteq> None \<longrightarrow> w < brk (mem s)) \<and>
     (\<forall>th. tcbs (mem s) th \<noteq> None \<longrightarrow> th < brk (mem s)) \<and> (\<forall>a \<in> stacks (mem s). a < brk (mem s))"

definition locks_ok :: "tsys \<Rightarrow> (qid \<Rightarrow> nat list) \<Rightarrow> bool" where
  "locks_ok s L \<longleftrightarrow> (\<forall>l lk. locks s l = Some lk \<longrightarrow> \<not> locked lk \<longrightarrow> L (WQ (l_wq lk)) = [])"

definition threads_ok :: "tsys \<Rightarrow> (qid \<Rightarrow> nat list) \<Rightarrow> bool" where
  "threads_ok s L \<longleftrightarrow> (\<forall>k p. k \<noteq> EQ \<longrightarrow> p \<in> set (L k) \<longrightarrow>
     t_status (node_tcb (mem s) p) \<in> status_at (mode s) L k p \<and>
     (\<not> (mode s = Run \<and> k = RQ \<and> p = hd (L RQ)) \<longrightarrow>
        (\<forall>l. wants_lock (t_context (node_tcb (mem s) p)) = Some l \<longrightarrow> locks s l \<noteq> None)))"

text \<open>Every entry of the thread table is a thread in a queue.\<close>

definition table_ok :: "tsys \<Rightarrow> (qid \<Rightarrow> nat list) \<Rightarrow> bool" where
  "table_ok s L \<longleftrightarrow> (\<forall>i th. i < THREAD_MAX_THREADS \<longrightarrow> threads s ! i = Some th \<longrightarrow>
     (\<exists>p \<in> live_nodes L. node_thread (mem s) p = th \<and> node_id (mem s) p = int i))"

lemma table_okD:
  "table_ok s L \<Longrightarrow> i < THREAD_MAX_THREADS \<Longrightarrow> threads s ! i = Some th \<Longrightarrow>
   \<exists>p \<in> live_nodes L. node_thread (mem s) p = th \<and> node_id (mem s) p = int i"
  by (simp add: table_ok_def)

lemma all_nodes_static: "all_nodes L = (\<Union>w. set (L (WQ w))) \<union> set (L RQ) \<union> set (L EQ)"
  by (rule set_eqI) (auto simp: all_nodes_def, metis qid.exhaust)

lemma live_nodes_static: "live_nodes L = (\<Union>w. set (L (WQ w))) \<union> set (L RQ)"
  by (rule set_eqI) (auto simp: live_nodes_def, metis qid.exhaust)

lemma live_nodes_wq: "live_nodes L = (\<Union>v \<in> - {w}. set (L (WQ v))) \<union> set (L (WQ w)) \<union> set (L RQ)"
  unfolding live_nodes_static by auto

definition lib_ok :: "tsys \<Rightarrow> (qid \<Rightarrow> nat list) \<Rightarrow> bool" where
  "lib_ok s L \<longleftrightarrow> sched_ok s L \<and> wait_ok s \<and> locks_ok s L \<and> threads_ok s L \<and> table_ok s L \<and> L RQ \<noteq> []"

lemma lib_okD:
  assumes "lib_ok s L"
  shows "sched_ok s L" "wait_ok s" "locks_ok s L" "threads_ok s L" "L RQ \<noteq> []" "table_ok s L"
  using assms by (simp_all add: lib_ok_def)

lemma wait_ok_frame:
  assumes "wait_ok s" and "wq_of s' = wq_of s" and "dom (queues (mem s')) = dom (queues (mem s))" and "brk (mem s') = brk (mem s)"
    and "dom (tcbs (mem s')) \<subseteq> dom (tcbs (mem s))" and "stacks (mem s') \<subseteq> stacks (mem s)"
  shows "wait_ok s'"
proof -
  have q: "queues (mem s') k \<noteq> None \<longleftrightarrow> queues (mem s) k \<noteq> None" for k using assms(3) by (metis domIff)
  have t: "tcbs (mem s') th \<noteq> None \<Longrightarrow> tcbs (mem s) th \<noteq> None" for th using assms(5) by (metis domIff subsetD)
  show ?thesis using assms(1,6) q t unfolding wait_ok_def assms(2,4) by blast
qed

lemma same_tcbs_dom: "same_tcbs m m' \<Longrightarrow> dom (tcbs m') = dom (tcbs m)"
  by (rule set_eqI) (simp add: same_tcbs_def domIff)

lemma wq_of_cong:
  assumes "thread_wait_queues s' = thread_wait_queues s" and "locks s' = locks s" and "cvs s' = cvs s"
  shows "wq_of s' = wq_of s"
proof
  fix ow show "wq_of s' ow = wq_of s ow" by (cases ow) (simp_all add: assms)
qed

lemma wait_ok_same:
  assumes "wait_ok s" and "wq_of s' = wq_of s" and "same_tcbs (mem s) (mem s')" and "brk (mem s') = brk (mem s)"
  shows "wait_ok s'"
proof (rule wait_ok_frame [OF assms(1,2)])
  show "dom (tcbs (mem s')) \<subseteq> dom (tcbs (mem s))" using same_tcbs_dom [OF assms(3)] by simp
  show "dom (queues (mem s')) = dom (queues (mem s))" "stacks (mem s') \<subseteq> stacks (mem s)"
    using assms(3) unfolding same_tcbs_def by simp_all
qed (rule assms(4))

lemma wait_ok_left:
  assumes "wait_ok s" and "left s th st c s'"
  shows "wait_ok s'"
proof (rule wait_ok_same [OF assms(1)])
  show "wq_of s' = wq_of s" using assms(2) by (intro wq_of_cong) (simp_all add: left_def)
qed (use assms(2) in \<open>simp_all add: left_def\<close>)

lemma node_in_heap:
  assumes "sched_ok s L" and "p \<in> set (L k)"
  shows "nodes (mem s) p \<noteq> None" "tcbs (mem s) (node_thread (mem s) p) = Some (node_tcb (mem s) p)"
proof -
  from threadedD [OF sched_okD(4) [OF assms(1)] assms(2)] obtain n t where
    "nodes (mem s) p = Some n" "tcbs (mem s) (nd_thread n) = Some t" by blast
  then show "nodes (mem s) p \<noteq> None" "tcbs (mem s) (node_thread (mem s) p) = Some (node_tcb (mem s) p)"
    by (simp_all add: node_thread_def node_tcb_def)
qed

lemma node_thread_inj:
  assumes "sched_ok s L" and "p \<in> set (L k)" and "q \<in> set (L j)" and "node_thread (mem s) p = node_thread (mem s) q"
  shows "p = q"
  using sched_ok_inj [OF assms(1)] assms(2-4) unfolding inj_on_def by blast

text \<open>The thread structures after the running thread has left, and after threads were woken up.\<close>

lemma node_tcb_left:
  assumes ok: "sched_ok s L" and a: "a \<in> set (L RQ)" and lf: "left s (node_thread (mem s) a) st c s'" and p: "p \<in> set (L k)"
  shows "p \<noteq> a \<Longrightarrow> node_tcb (mem s') p = node_tcb (mem s) p"
    and "p = a \<Longrightarrow> t_context (node_tcb (mem s') p) = c \<and>
      t_status (node_tcb (mem s') p) = (if t_status (node_tcb (mem s) p) = THREAD_EXITED then THREAD_EXITED else st)"
proof -
  from lf obtain t t' where t: "same_tcbs (mem s) (mem s')" "tcbs (mem s) (node_thread (mem s) a) = Some t"
    "tcbs (mem s') = (tcbs (mem s))(node_thread (mem s) a \<mapsto> t')" "t_context t' = c"
    "t_status t' = (if t_status t = THREAD_EXITED then THREAD_EXITED else st)" unfolding left_def by blast
  have nt: "node_thread (mem s') p = node_thread (mem s) p"
    using same_tcbs_node(1) [OF t(1)] node_in_heap(1) [OF ok p] by simp
  show "p \<noteq> a \<Longrightarrow> node_tcb (mem s') p = node_tcb (mem s) p"
    using nt t(3) node_thread_inj [OF ok p a] by (auto simp: node_tcb_def)
  show "p = a \<Longrightarrow> t_context (node_tcb (mem s') p) = c \<and>
      t_status (node_tcb (mem s') p) = (if t_status (node_tcb (mem s) p) = THREAD_EXITED then THREAD_EXITED else st)"
    using nt t by (auto simp: node_tcb_def)
qed

lemma node_tcb_woken:
  assumes ok: "sched_ok s L" and wk: "woken (node_thread (mem s) ` A) (mem s) m" and A: "A \<subseteq> set (L j)" and p: "p \<in> set (L k)"
  shows "node_tcb m p = (if p \<in> A then make_ready (node_tcb (mem s) p) else node_tcb (mem s) p)"
proof -
  have nt: "node_thread m p = node_thread (mem s) p"
    using same_tcbs_node(1) wk node_in_heap(1) [OF ok p] by (auto simp: woken_def)
  have "node_thread (mem s) p \<in> node_thread (mem s) ` A \<longleftrightarrow> p \<in> A"
    using node_thread_inj [OF ok p] A by blast
  moreover have "tcbs (mem s) (node_thread (mem s) p) \<noteq> None" using node_in_heap(2) [OF ok p] by simp
  ultimately show ?thesis using nt wk by (auto simp: node_tcb_def woken_def)
qed

lemma table_ok_same:
  assumes ok: "sched_ok s L" "table_ok s L" and same: "same_tcbs (mem s) (mem s')" and s': "threads s' = threads s"
    and live: "live_nodes L' = live_nodes L"
  shows "table_ok s' L'"
  unfolding table_ok_def live s'
proof (intro allI impI)
  fix i th assume "i < THREAD_MAX_THREADS" "threads s ! i = Some th"
  from table_okD [OF ok(2) this] obtain p where p: "p \<in> live_nodes L" "node_thread (mem s) p = th" "node_id (mem s) p = int i" by blast
  from p(1) obtain k where "p \<in> set (L k)" by (auto simp: live_nodes_def)
  note same_tcbs_node(1,2) [OF same node_in_heap(1) [OF ok(1) this]]
  with p show "\<exists>p \<in> live_nodes L. node_thread (mem s') p = th \<and> node_id (mem s') p = int i" by auto
qed

lemma threads_okD:
  assumes "threads_ok s L" and "k \<noteq> EQ" and "p \<in> set (L k)"
  shows "t_status (node_tcb (mem s) p) \<in> status_at (mode s) L k p"
    and "\<not> (mode s = Run \<and> k = RQ \<and> p = hd (L RQ)) \<Longrightarrow> wants_lock (t_context (node_tcb (mem s) p)) = Some l \<Longrightarrow> locks s l \<noteq> None"
  using assms unfolding threads_ok_def by blast+

lemma lib_ok_left:
  assumes ok: "lib_ok s L" and a: "L RQ = a # ns" and lf: "left s (node_thread (mem s) a) st c s'"
    and sch: "sched_ok s' L'" and rq: "L' RQ \<noteq> []" and lk: "locks_ok s' L'"
    and place: "\<forall>k p. k \<noteq> EQ \<longrightarrow> p \<in> set (L' k) \<longrightarrow>
      (if p = a then st = (if k = RQ then THREAD_READY else THREAD_BLOCKED) else p \<in> set (L k))"
    and c: "\<forall>l. wants_lock c = Some l \<longrightarrow> locks s l \<noteq> None" and live: "live_nodes L' = live_nodes L"
  shows "lib_ok s' L'"
proof -
  note D = lib_okD [OF ok]
  have aR: "a \<in> set (L RQ)" using a by simp
  note T = node_tcb_left [OF D(1) aR lf]
  have md: "mode s' = Switch" and lks: "locks s' = locks s" using lf by (simp_all add: left_def)
  have "threads_ok s' L'"
    unfolding threads_ok_def
  proof (intro allI impI)
    fix k p assume k: "k \<noteq> EQ" and p: "p \<in> set (L' k)"
    show "t_status (node_tcb (mem s') p) \<in> status_at (mode s') L' k p \<and>
      (\<not> (mode s' = Run \<and> k = RQ \<and> p = hd (L' RQ)) \<longrightarrow>
        (\<forall>l. wants_lock (t_context (node_tcb (mem s') p)) = Some l \<longrightarrow> locks s' l \<noteq> None))"
    proof (cases "p = a")
      case True
      then have "st = (if k = RQ then THREAD_READY else THREAD_BLOCKED)" using place k p by metis
      with T(2) [of p RQ] True aR c md lks show ?thesis by (auto simp: status_at_def)
    next
      case False
      then have pk: "p \<in> set (L k)" using place k p by metis
      then have "p \<noteq> hd (L RQ)" using False a by simp
      with threads_okD [OF D(4) k pk] T(1) [OF pk False] md lks show ?thesis by (auto simp: status_at_def split: if_splits)
    qed
  qed
  moreover have "table_ok s' L'" using lf by (intro table_ok_same [OF D(1,6) _ _ live]) (simp_all add: left_def)
  ultimately show ?thesis using sch rq lk wait_ok_left [OF D(2) lf] by (simp add: lib_ok_def)
qed

lemma lib_ok_woken:
  assumes ok: "lib_ok s L" and w: "L (WQ w) = A @ B" and wk: "woken (node_thread (mem s) ` set A) (mem s) m"
    and sch: "sched_ok (s\<lparr>mem := m\<rparr>) (L(WQ w := B, RQ := L RQ @ A))"
  shows "lib_ok (s\<lparr>mem := m\<rparr>) (L(WQ w := B, RQ := L RQ @ A))"
proof -
  let ?L = "L(WQ w := B, RQ := L RQ @ A)"
  note D = lib_okD [OF ok]
  have A: "set A \<subseteq> set (L (WQ w))" using w by auto
  note T = node_tcb_woken [OF D(1) wk A]
  have hd: "hd (?L RQ) = hd (L RQ)" using D(5) by simp
  have inA: "p \<in> set A \<Longrightarrow> p \<notin> set (L RQ)" for p using A rep_disjoint [OF sched_okD(1) [OF D(1)], of p "WQ w" RQ] by auto
  have "distinct (L (WQ w))" using heap_freeable [OF sched_heap_ok [OF D(1)]] by (simp add: freeable_def)
  then have AB: "p \<in> set B \<Longrightarrow> p \<notin> set A" for p using w by auto
  have wait: "wait_ok (s\<lparr>mem := m\<rparr>)"
  proof (rule wait_ok_same [OF D(2)])
    show "wq_of (s\<lparr>mem := m\<rparr>) = wq_of s" by (rule wq_of_cong) simp_all
  qed (use wk in \<open>simp_all add: woken_def\<close>)
  have lk: "locks_ok (s\<lparr>mem := m\<rparr>) ?L" using D(3) w by (auto simp: locks_ok_def)
  have "threads_ok (s\<lparr>mem := m\<rparr>) ?L"
    unfolding threads_ok_def
  proof (intro allI impI)
    fix k p assume k: "k \<noteq> EQ" and p: "p \<in> set (?L k)"
    show "t_status (node_tcb (mem (s\<lparr>mem := m\<rparr>)) p) \<in> status_at (mode (s\<lparr>mem := m\<rparr>)) ?L k p \<and>
      (\<not> (mode (s\<lparr>mem := m\<rparr>) = Run \<and> k = RQ \<and> p = hd (?L RQ)) \<longrightarrow>
        (\<forall>l. wants_lock (t_context (node_tcb (mem (s\<lparr>mem := m\<rparr>)) p)) = Some l \<longrightarrow> locks (s\<lparr>mem := m\<rparr>) l \<noteq> None))"
    proof (cases "p \<in> set A")
      case True
      then have pw: "p \<in> set (L (WQ w))" using A by blast
      have kRQ: "k = RQ"
      proof (rule ccontr)
        assume "k \<noteq> RQ"
        with p have "p \<in> set (L k) \<and> k \<noteq> WQ w \<or> p \<in> set B" by (auto split: if_splits)
        with AB True rep_disjoint [OF sched_okD(1) [OF D(1)] _ pw, of k] show False by blast
      qed
      have "p \<noteq> hd (L RQ)" using inA [OF True] D(5) by auto
      with threads_okD [OF D(4) _ pw] T [OF pw] True kRQ hd show ?thesis by (auto simp: status_at_def make_ready_def)
    next
      case False
      then have pk: "p \<in> set (L k)" using p w by (auto split: if_splits)
      with threads_okD [OF D(4) k pk] T [OF pk] False hd show ?thesis by (auto simp: status_at_def)
    qed
  qed
  moreover have "live_nodes ?L = live_nodes L" unfolding live_nodes_wq [of _ w] using w by auto
  then have "table_ok (s\<lparr>mem := m\<rparr>) ?L" using wk by (intro table_ok_same [OF D(1,6)]) (simp_all add: woken_def)
  ultimately show ?thesis using sch wait lk D(5) by (simp add: lib_ok_def)
qed

section \<open>Every operation keeps the invariant\<close>

lemma lib_ok_cong:
  assumes "mem s' = mem s" and "threads s' = threads s" and "thread_wait_queues s' = thread_wait_queues s"
    and "locks s' = locks s" and "cvs s' = cvs s" and "mode s' = mode s"
  shows "lib_ok s' L = lib_ok s L"
proof -
  have "wq_of s' = wq_of s" by (rule wq_of_cong) (rule assms)+
  then show ?thesis by (simp add: lib_ok_def sched_ok_def wait_ok_def locks_ok_def threads_ok_def table_ok_def assms)
qed

lemma lib_ok_ret [simp]: "lib_ok (s\<lparr>ret := r\<rparr>) L = lib_ok s L"
  by (rule lib_ok_cong) simp_all

lemma lib_ok_intr [simp]: "lib_ok (s\<lparr>intr := i\<rparr>) L = lib_ok s L"
  by (rule lib_ok_cong) simp_all

lemma lib_ok_current:
  assumes "lib_ok s L"
  obtains a ns where "L RQ = a # ns" "current_th s = Ok (node_thread (mem s) a, node_tcb (mem s) a)" "a \<in> live_nodes L"
    "thread_id s = Ok (node_id (mem s) a)" "at_tid (threads s) (node_id (mem s) a) = Ok (Some (node_thread (mem s) a))"
    "0 \<le> node_id (mem s) a" "nat (node_id (mem s) a) < THREAD_MAX_THREADS"
proof -
  note D = lib_okD [OF assms]
  note S = sched_okD [OF D(1)]
  from D(5) obtain a ns where L: "L RQ = a # ns" by (cases "L RQ") auto
  from current_th_eq [OF S(1,2,4) L] obtain t where
    t: "current_th s = Ok (node_thread (mem s) a, t)" "tcbs (mem s) (node_thread (mem s) a) = Some t" "t_id t = node_id (mem s) a" by blast
  have live: "a \<in> live_nodes L" using L by (auto simp: live_nodes_def intro: bexI [of _ RQ])
  note Q = sched_ok_live [OF D(1) live]
  show thesis
    by (rule that [OF L _ live _ _ Q(1,2)]) (use t Q S(5) in \<open>simp_all add: node_tcb_def thread_id_def at_tid_def\<close>)
qed

text \<open>A call that can leave the processor returns at once, with nothing changed, or stops in a well-formed state.\<close>

definition stops_or_returns :: "tsys \<Rightarrow> (int option \<times> tsys) outcome \<Rightarrow> bool" where
  "stops_or_returns s r \<longleftrightarrow> (\<exists>x. r = Ok (Some x, s)) \<or> (\<exists>s' L'. r = Ok (None, s') \<and> lib_ok s' L' \<and> mode s' = Switch)"

lemma locks_ok_same:
  "locks_ok s L \<Longrightarrow> locks s' = locks s \<Longrightarrow> \<forall>w. L (WQ w) = [] \<longrightarrow> L' (WQ w) = [] \<Longrightarrow> locks_ok s' L'"
  by (simp add: locks_ok_def)

lemma lib_ok_rotate:
  assumes ok: "lib_ok s L" and L: "L RQ = a # ns" and set: "set ms = set (L RQ)"
    and sch: "sched_ok s' (L(RQ := ms))" and lf: "left s (node_thread (mem s) a) THREAD_READY c s'" and c: "wants_lock c = None"
  shows "lib_ok s' (L(RQ := ms))"
proof (rule lib_ok_left [OF ok L lf sch])
  show "(L(RQ := ms)) RQ \<noteq> []" using set L by auto
  show "locks_ok s' (L(RQ := ms))" using lib_okD(3) [OF ok] lf by (elim locks_ok_same) (simp_all add: left_def)
  show "\<forall>k p. k \<noteq> EQ \<longrightarrow> p \<in> set ((L(RQ := ms)) k) \<longrightarrow>
      (if p = a then THREAD_READY = (if k = RQ then THREAD_READY else THREAD_BLOCKED) else p \<in> set (L k))"
  proof (intro allI impI)
    fix k p assume k: "k \<noteq> EQ" and p: "p \<in> set ((L(RQ := ms)) k)"
    have "k = RQ" if "p = a"
      using that p L rep_disjoint [OF sched_okD(1) [OF lib_okD(1) [OF ok]], of a RQ k] by (auto split: if_splits)
    then show "if p = a then THREAD_READY = (if k = RQ then THREAD_READY else THREAD_BLOCKED) else p \<in> set (L k)"
      using p set by (auto split: if_splits)
  qed
  show "live_nodes (L(RQ := ms)) = live_nodes L" using set by (simp add: live_nodes_static)
qed (simp add: c)

lemma yield_safe:
  assumes ok: "lib_ok s L" and c: "caller_lock c = None"
  shows "stops_or_returns s (yield_switch s want c)"
proof -
  note S = lib_okD(1) [OF ok]
  from lib_ok_current [OF ok] obtain a ns where L: "L RQ = a # ns" .
  have w: "wants_lock (In_yield x e c) = None" for x e using c by simp
  note rot = lib_ok_rotate [OF ok L _ _ _ w]
  consider (any) "want = THREAD_ANY" | (self) "want = THREAD_SELF \<or> want = node_id (mem s) a"
    | (other) "want \<noteq> THREAD_ANY" "want \<noteq> THREAD_SELF" "want \<noteq> node_id (mem s) a" by blast
  then show ?thesis
  proof cases
    case any
    show ?thesis
    proof (cases ns)
      case Nil
      with any yield_any_alone [OF S, of a c] L show ?thesis by (simp add: stops_or_returns_def)
    next
      case (Cons b ms)
      with L have L': "L RQ = a # b # ms" by simp
      from yield_any [OF S L', of c] obtain s' where s': "yield_switch s THREAD_ANY c = Ok (None, s')" "sched_ok s' (L(RQ := b # ms @ [a]))"
        "left s (node_thread (mem s) a) THREAD_READY (In_yield (node_id (mem s) b) (intr s) c) s'" by blast
      have "set (b # ms @ [a]) = set (L RQ)" using L' by auto
      from rot [OF this s'(2,3)] s'(1,3) any show ?thesis by (auto simp: stops_or_returns_def left_def)
    qed
  next
    case self
    from yield_self [OF S L self, of c] obtain s' where s': "yield_switch s want c = Ok (None, s')" "sched_ok s' L"
      "left s (node_thread (mem s) a) THREAD_READY (In_yield (node_id (mem s) a) (intr s) c) s'" by blast
    have "L(RQ := L RQ) = L" by simp
    with rot [OF refl _ s'(3)] s'(1-3) show ?thesis by (auto simp: stops_or_returns_def left_def)
  next
    case other
    show ?thesis
    proof (cases "want \<in> node_id (mem s) ` set ns")
      case False
      with yield_to [OF S L other, of c] show ?thesis by (simp add: stops_or_returns_def)
    next
      case True
      with yield_to [OF S L other, of c] obtain s' w us vs where s': "ns = us @ w # vs" "yield_switch s want c = Ok (None, s')"
        "sched_ok s' (L(RQ := w # us @ vs @ [a]))" "left s (node_thread (mem s) a) THREAD_READY (In_yield want (intr s) c) s'" by auto
      have "set (w # us @ vs @ [a]) = set (L RQ)" using L s'(1) by auto
      from rot [OF this s'(3,4)] s'(2,4) show ?thesis by (auto simp: stops_or_returns_def left_def)
    qed
  qed
qed

lemma sleep_safe:
  assumes ok: "lib_ok s L" and c: "\<forall>l. caller_lock c = Some l \<longrightarrow> locks s l \<noteq> None"
    and w: "\<forall>w. q = Some w \<longrightarrow> queues (mem s) (WQ w) \<noteq> None \<and> (\<forall>l lk. locks s l = Some lk \<longrightarrow> l_wq lk = w \<longrightarrow> locked lk)"
  shows "stops_or_returns s (sleep_switch s q c)"
proof (cases q)
  case None
  then show ?thesis by (simp add: sleep_switch_def stops_or_returns_def)
next
  case (Some w')
  note S = lib_okD(1) [OF ok]
  from lib_ok_current [OF ok] obtain a ns where L: "L RQ = a # ns" .
  show ?thesis
  proof (cases ns)
    case Nil
    with sleep_alone [OF S, of a w' c] L Some show ?thesis by (simp add: stops_or_returns_def)
  next
    case (Cons b ms)
    with L have L': "L RQ = a # b # ms" by simp
    let ?L = "L(RQ := b # ms, WQ w' := L (WQ w') @ [a])"
    from sleep_ok [OF S L', of w' c] w Some obtain s' where s': "sleep_switch s (Some w') c = Ok (None, s')" "sched_ok s' ?L"
      "left s (node_thread (mem s) a) THREAD_BLOCKED (In_sleep (node_id (mem s) b) (intr s) c) s'" by blast
    have "lib_ok s' ?L"
    proof (rule lib_ok_left [OF ok L' s'(3,2)])
      show "locks_ok s' ?L" using lib_okD(3) [OF ok] s'(3) w Some by (auto simp: locks_ok_def left_def)
      have dist: "distinct (L RQ)" using heap_freeable [OF sched_heap_ok [OF S]] by (simp add: freeable_def)
      show "\<forall>k p. k \<noteq> EQ \<longrightarrow> p \<in> set (?L k) \<longrightarrow>
        (if p = a then THREAD_BLOCKED = (if k = RQ then THREAD_READY else THREAD_BLOCKED) else p \<in> set (L k))"
        using dist L' by (auto split: if_splits)
      show "live_nodes ?L = live_nodes L" using move_node_sets(2) [of RQ "WQ w'" L a "b # ms"] L' by simp
    qed (use c in simp_all)
    with s'(1,3) Some show ?thesis by (auto simp: stops_or_returns_def left_def)
  qed
qed

lemma wakeup_safe:
  assumes ok: "lib_ok s L" and w: "\<forall>w. q = Some w \<longrightarrow> queues (mem s) (WQ w) \<noteq> None"
  shows "\<exists>n m L'. thread_wakeup s q all = Ok (n, s\<lparr>mem := m\<rparr>) \<and> lib_ok (s\<lparr>mem := m\<rparr>) L' \<and> hd (L' RQ) = hd (L RQ) \<and>
    same_tcbs (mem s) m \<and> (all \<longrightarrow> (\<forall>w. q = Some w \<longrightarrow> L' (WQ w) = []))"
proof (cases q)
  case None
  with ok show ?thesis by (intro exI [of _ 0] exI [of _ "mem s"] exI [of _ L]) (simp add: thread_wakeup_def)
next
  case (Some w')
  with w have q: "queues (mem s) (WQ w') \<noteq> None" by simp
  note S = lib_okD(1) [OF ok]
  show ?thesis
  proof (cases "all \<or> L (WQ w') = []")
    case True
    from thread_wakeup_all [OF S q] obtain m where m: "thread_wakeup s (Some w') True = Ok (int (length (L (WQ w'))), s\<lparr>mem := m\<rparr>)"
      "sched_ok (s\<lparr>mem := m\<rparr>) (L(WQ w' := [], RQ := L RQ @ L (WQ w')))" "woken (node_thread (mem s) ` set (L (WQ w'))) (mem s) m" by blast
    have "lib_ok (s\<lparr>mem := m\<rparr>) (L(WQ w' := [], RQ := L RQ @ L (WQ w')))" by (rule lib_ok_woken [OF ok _ m(3,2)]) simp
    moreover have "thread_wakeup s (Some w') all = Ok (int (length (L (WQ w'))), s\<lparr>mem := m\<rparr>)"
    proof (cases all)
      case False
      with True have e: "L (WQ w') = []" by simp
      from q obtain qu where qu: "queues (mem s) (WQ w') = Some qu" by auto
      from repD [OF sched_okD(1) [OF S] this] e have "q_size qu = 0" by (simp add: qrep_Nil)
      with qu m(1) show ?thesis by (simp add: thread_wakeup_def fetch_def)
    qed (use m(1) in simp)
    ultimately show ?thesis using Some m(3) lib_okD(5) [OF ok]
      by (intro exI [of _ "int (length (L (WQ w')))"] exI [of _ m] exI [of _ "L(WQ w' := [], RQ := L RQ @ L (WQ w'))"]) (simp add: woken_def)
  next
    case False
    then obtain a ns where L: "L (WQ w') = a # ns" and al: "\<not> all" by (cases "L (WQ w')") auto
    from thread_wakeup_one [OF S q L] obtain m where m: "thread_wakeup s (Some w') False = Ok (1, s\<lparr>mem := m\<rparr>)"
      "sched_ok (s\<lparr>mem := m\<rparr>) (L(WQ w' := ns, RQ := L RQ @ [a]))" "woken {node_thread (mem s) a} (mem s) m" by blast
    have "lib_ok (s\<lparr>mem := m\<rparr>) (L(WQ w' := ns, RQ := L RQ @ [a]))" by (rule lib_ok_woken [OF ok _ _ m(2)]) (use L m(3) in simp_all)
    with m(1,3) al Some lib_okD(5) [OF ok] show ?thesis
      by (intro exI [of _ 1] exI [of _ m] exI [of _ "L(WQ w' := ns, RQ := L RQ @ [a])"]) (simp add: woken_def)
  qed
qed

section \<open>Exiting\<close>

lemma sched_okI:
  assumes "heap_ok (mem s) L {}" and "queues (mem s) RQ \<noteq> None" and "queues (mem s) EQ \<noteq> None"
    and "length (threads s) = THREAD_MAX_THREADS" and "length (thread_wait_queues s) = THREAD_MAX_THREADS"
    and "\<forall>p \<in> live_nodes L. 0 \<le> node_id (mem s) p \<and> nat (node_id (mem s) p) < THREAD_MAX_THREADS \<and>
        threads s ! nat (node_id (mem s) p) = Some (node_thread (mem s) p)"
  shows "sched_ok s L"
proof -
  have "threaded (mem s) (L k)" for k
    unfolding threaded_def using assms(1) in_all_nodes [of _ L k] by (simp add: heap_ok_def)
  then show ?thesis using assms unfolding sched_ok_def heap_ok_def all_nodes_def by simp
qed

lemma heap_move:
  assumes ok: "heap_ok m L D" and r: "rep m' L'" and same: "same_threads m m'"
    and all: "all_nodes L' \<union> D' = all_nodes L \<union> D" "all_nodes L' \<inter> D' = {}"
  shows "heap_ok m' L' D'"
proof -
  have n: "nodes m p \<noteq> None" if "p \<in> all_nodes L \<union> D" for p using heap_ok_node [OF ok that] by auto
  note N = same_tcbs_node [OF same_threads_tcbs [OF same] n]
  show ?thesis
  proof (rule heap_okI [OF r all(2)], unfold all(1))
    show "\<exists>n t. nodes m' p = Some n \<and> tcbs m' (nd_thread n) = Some t" if p: "p \<in> all_nodes L \<union> D" for p
    proof -
      from heap_ok_node [OF ok p] obtain x t where x: "nodes m p = Some x" "tcbs m (nd_thread x) = Some t" by blast
      from N(4) [OF p] obtain y where y: "nodes m' p = Some y" by auto
      have "nd_thread y = nd_thread x" using N(1) [OF p] x y by (simp add: node_thread_def)
      with x y same show ?thesis by (simp add: same_threads_def)
    qed
    show "p = q" if "p \<in> all_nodes L \<union> D" "q \<in> all_nodes L \<union> D" "node_thread m' p = node_thread m' q" for p q
      using heap_ok_inj [OF ok that(1,2)] that(3) N(1) [OF that(1)] N(1) [OF that(2)] by simp
    show "a \<in> stacks m'" if "p \<in> all_nodes L \<union> D" "node_stack m' p = Some a" for p a
      using heap_ok_stack(1) [OF ok that(1), of a] that(2) N(3) [OF that(1)] same by (simp add: same_threads_def)
    show "p = q" if "p \<in> all_nodes L \<union> D" "q \<in> all_nodes L \<union> D" "node_stack m' p = Some a" "node_stack m' q = Some a" for p q a
      using heap_ok_stack(2) [OF ok that(1) _ that(2), of a] that(3,4) N(3) [OF that(1)] N(3) [OF that(2)] by simp
  qed
qed

lemma all_nodes_upd: "all_nodes (L(k := ns)) = (\<Union>j \<in> - {k}. set (L j)) \<union> set ns"
  by (auto simp: all_nodes_def split: if_splits)

lemma all_nodes_split: "all_nodes L = (\<Union>j \<in> - {k}. set (L j)) \<union> set (L k)"
  by (auto simp: all_nodes_def)

lemma heap_pop:
  assumes ok: "heap_ok m L {}" and q: "queues m k \<noteq> None" and L: "L k = a # ns"
  shows "\<exists>m'. pop_queue m k = Ok (a, m') \<and> heap_ok m' (L(k := ns)) {a} \<and> same_threads m m' \<and> (\<exists>x. nodes m' a = Some x \<and> nd_next x = None)"
proof -
  from pop_queue_rep [OF heap_ok_rep [OF ok] q L] obtain m' where m': "pop_queue m k = Ok (a, m')" "rep m' (L(k := ns))"
    "same_threads m m'" "nodes m' = upd_next (nodes m) a None" by blast
  have dist: "distinct (L k)" using heap_freeable [OF ok] by (simp add: freeable_def)
  have "all_nodes (L(k := ns)) \<union> {a} = all_nodes L \<union> {}"
    unfolding all_nodes_upd all_nodes_split [of L k] using L by auto
  moreover have "all_nodes (L(k := ns)) \<inter> {a} = {}"
    unfolding all_nodes_upd using L dist rep_disjoint [OF heap_ok_rep [OF ok], of a k] by auto
  ultimately have "heap_ok m' (L(k := ns)) {a}" by (rule heap_move [OF ok m'(2,3)])
  moreover obtain n where "nodes m a = Some n" using rep_node [OF heap_ok_rep [OF ok], of a k] L by auto
  ultimately show ?thesis using m' by (simp add: upd_next_same)
qed

lemma rep_drop_queue:
  assumes "rep m L" and "L k = []"
  shows "rep (m\<lparr>queues := (queues m)(k := None)\<rparr>) L"
proof -
  from assms(1) have "case queues m j of None \<Rightarrow> L j = [] | Some q \<Rightarrow> qrep (nodes m) q (L j)" for j by (simp add: rep_def)
  then have "case ((queues m)(k := None)) j of None \<Rightarrow> L j = [] | Some q \<Rightarrow> qrep (nodes m) q (L j)" for j using assms(2) by auto
  with assms(1) show ?thesis by (simp add: rep_def cong: option.case_cong)
qed

text \<open>Destroying a wait queue frees the threads in it, and no other.\<close>

lemma heap_destroy:
  assumes ok: "heap_ok m L D" and w: "queues m (WQ w) \<noteq> None"
  shows "\<exists>m'. wait_queue_destroy m (Some w) = Ok m' \<and> heap_ok m' (L(WQ w := [])) D \<and> dom (queues m') = dom (queues m) - {WQ w} \<and>
    brk m' = brk m \<and> stacks m' \<subseteq> stacks m \<and> (\<forall>th. tcbs m' th \<noteq> None \<longrightarrow> tcbs m' th = tcbs m th) \<and>
    (\<forall>p \<in> all_nodes (L(WQ w := [])) \<union> D. nodes m' p = nodes m p \<and> tcbs m' (node_thread m p) = tcbs m (node_thread m p))"
proof -
  from heap_clear [OF ok w] obtain m1 where m1: "clear_queue m (Some (WQ w)) = Ok m1" "heap_ok m1 (L(WQ w := [])) D"
    "dom (queues m1) = dom (queues m)" "brk m1 = brk m" "stacks m1 \<subseteq> stacks m" "\<forall>th. tcbs m1 th \<noteq> None \<longrightarrow> tcbs m1 th = tcbs m th"
    "\<forall>p \<in> all_nodes (L(WQ w := [])) \<union> D. nodes m1 p = nodes m p \<and> tcbs m1 (node_thread m p) = tcbs m (node_thread m p)" by blast
  let ?m = "m1\<lparr>queues := (queues m1)(WQ w := None)\<rparr>"
  have "rep ?m (L(WQ w := []))" using heap_ok_rep [OF m1(2)] by (rule rep_drop_queue) simp
  with m1(2) have "heap_ok ?m (L(WQ w := [])) D" by (simp add: heap_ok_def node_thread_def node_stack_def inj_on_def)
  moreover have "wait_queue_destroy m (Some w) = Ok ?m" using m1(1) by (simp add: wait_queue_destroy_def)
  ultimately show ?thesis using m1 by (intro exI [of _ ?m]) simp
qed

lemma destroy_all_ok:
  "heap_ok m L D \<Longrightarrow> \<forall>w. Some w \<in> set ws \<longrightarrow> queues m (WQ w) \<noteq> None \<Longrightarrow>
   \<forall>i j w. i < length ws \<longrightarrow> j < length ws \<longrightarrow> ws ! i = Some w \<longrightarrow> ws ! j = Some w \<longrightarrow> i = j \<Longrightarrow>
   \<exists>m' L'. destroy_all m ws = Ok m' \<and> heap_ok m' L' D"
proof (induction ws arbitrary: m L)
  case Nil
  then show ?case by auto
next
  case (Cons x ws)
  have dist: "\<forall>i j w. i < length ws \<longrightarrow> j < length ws \<longrightarrow> ws ! i = Some w \<longrightarrow> ws ! j = Some w \<longrightarrow> i = j"
  proof (intro allI impI)
    fix i j w assume "i < length ws" "j < length ws" "ws ! i = Some w" "ws ! j = Some w"
    with Cons.prems(3) [THEN spec, of "Suc i", THEN spec, of "Suc j"] show "i = j" by simp
  qed
  show ?case
  proof (cases x)
    case None
    with Cons.IH [OF Cons.prems(1) _ dist] Cons.prems(2) show ?thesis by (simp add: wait_queue_destroy_def clear_queue_def)
  next
    case (Some w)
    with Cons.prems(2) have "queues m (WQ w) \<noteq> None" by simp
    from heap_destroy [OF Cons.prems(1) this] obtain m1 where m1: "wait_queue_destroy m (Some w) = Ok m1" "heap_ok m1 (L(WQ w := [])) D"
      "dom (queues m1) = dom (queues m) - {WQ w}" by blast
    have "\<forall>v. Some v \<in> set ws \<longrightarrow> queues m1 (WQ v) \<noteq> None"
    proof (intro allI impI)
      fix v assume v: "Some v \<in> set ws"
      then obtain i where "i < length ws" "ws ! i = Some v" by (auto simp: in_set_conv_nth)
      with Cons.prems(3) [THEN spec, of 0, THEN spec, of "Suc i"] Some have "v \<noteq> w" by auto
      with Cons.prems(2) v m1(3) show "queues m1 (WQ v) \<noteq> None" by (metis Diff_iff domIff list.set_intros(2) qid.inject singletonD)
    qed
    from Cons.IH [OF m1(2) this dist] Some m1(1) show ?thesis by simp
  qed
qed

text \<open>An empty wait queue is destroyed without freeing a thread.\<close>

definition drop_wq :: "tmem \<Rightarrow> nat option \<Rightarrow> tmem" where
  "drop_wq m q = (case q of None \<Rightarrow> m | Some w \<Rightarrow> m\<lparr>queues := (queues m)(WQ w := None)\<rparr>)"

lemma drop_wq_simps [simp]:
  "nodes (drop_wq m q) = nodes m" "tcbs (drop_wq m q) = tcbs m" "stacks (drop_wq m q) = stacks m" "brk (drop_wq m q) = brk m"
  "node_thread (drop_wq m q) = node_thread m" "node_stack (drop_wq m q) = node_stack m" "node_id (drop_wq m q) = node_id m"
  "queues (drop_wq m q) RQ = queues m RQ" "queues (drop_wq m q) EQ = queues m EQ"
  "queues (drop_wq m q) (WQ w) = (if q = Some w then None else queues m (WQ w))"
  by (auto simp: drop_wq_def node_thread_def node_stack_def node_id_def fun_eq_iff split: option.splits)

lemma wait_queue_destroy_empty:
  assumes r: "rep m L" and q: "\<forall>w. q = Some w \<longrightarrow> queues m (WQ w) \<noteq> None \<and> L (WQ w) = []"
  shows "wait_queue_destroy m q = Ok (drop_wq m q)"
proof (cases q)
  case None
  then show ?thesis by (simp add: wait_queue_destroy_def clear_queue_def drop_wq_def)
next
  case (Some w)
  with q obtain qu where qu: "queues m (WQ w) = Some qu" and e: "L (WQ w) = []" by auto
  from repD [OF r qu] e have "q_head qu = None" by (simp add: qrep_Nil)
  with Some qu show ?thesis by (simp add: wait_queue_destroy_def clear_queue_def fetch_def set_queue_def drop_wq_def)
qed

lemma heap_ok_drop:
  assumes "heap_ok m L D" and "\<forall>w. q = Some w \<longrightarrow> L (WQ w) = []"
  shows "heap_ok (drop_wq m q) L D"
proof (cases q)
  case None
  with assms show ?thesis by (simp add: drop_wq_def)
next
  case (Some w)
  with assms(2) have "rep (drop_wq m q) L" unfolding drop_wq_def using rep_drop_queue [OF heap_ok_rep [OF assms(1)], of "WQ w"] by simp
  with assms(1) show ?thesis by (simp add: heap_ok_def)
qed

definition wake_all :: "(qid \<Rightarrow> nat list) \<Rightarrow> nat option \<Rightarrow> (qid \<Rightarrow> nat list)" where
  "wake_all L q = (case q of None \<Rightarrow> L | Some w \<Rightarrow> L(WQ w := [], RQ := L RQ @ L (WQ w)))"

definition waiting :: "(qid \<Rightarrow> nat list) \<Rightarrow> nat option \<Rightarrow> nat list" where
  "waiting L q = (case q of None \<Rightarrow> [] | Some w \<Rightarrow> L (WQ w))"

lemma wake_all_simps [simp]:
  "wake_all L q RQ = L RQ @ waiting L q" "wake_all L q EQ = L EQ" "q = Some w \<Longrightarrow> wake_all L q (WQ w) = []"
  "q \<noteq> Some w \<Longrightarrow> wake_all L q (WQ w) = L (WQ w)"
  by (auto simp: wake_all_def waiting_def split: option.splits)

lemma wakeup_all_lib:
  assumes ok: "lib_ok s L" and w: "\<forall>w. q = Some w \<longrightarrow> queues (mem s) (WQ w) \<noteq> None"
  shows "\<exists>m. thread_wakeup s q True = Ok (int (length (waiting L q)), s\<lparr>mem := m\<rparr>) \<and> lib_ok (s\<lparr>mem := m\<rparr>) (wake_all L q) \<and>
    woken (node_thread (mem s) ` set (waiting L q)) (mem s) m"
proof (cases q)
  case None
  with ok show ?thesis by (intro exI [of _ "mem s"]) (simp add: thread_wakeup_def wake_all_def waiting_def)
next
  case (Some w')
  from thread_wakeup_all [OF lib_okD(1) [OF ok], of w'] w Some obtain m where
    m: "thread_wakeup s (Some w') True = Ok (int (length (L (WQ w'))), s\<lparr>mem := m\<rparr>)"
      "sched_ok (s\<lparr>mem := m\<rparr>) (L(WQ w' := [], RQ := L RQ @ L (WQ w')))" "woken (node_thread (mem s) ` set (L (WQ w'))) (mem s) m" by auto
  have "lib_ok (s\<lparr>mem := m\<rparr>) (L(WQ w' := [], RQ := L RQ @ L (WQ w')))" by (rule lib_ok_woken [OF ok _ m(3,2)]) simp
  with m Some show ?thesis by (auto simp: wake_all_def waiting_def)
qed

lemma thread_wakeup_mem:
  assumes "thread_wakeup s q all = Ok (n, s\<lparr>mem := m\<rparr>)" and "mem s' = mem s"
  shows "thread_wakeup s' q all = Ok (n, s'\<lparr>mem := m\<rparr>)"
proof (cases q)
  case None
  with assms(1) have "s\<lparr>mem := m\<rparr> = s" "n = 0" by (simp_all add: thread_wakeup_def)
  then have "mem (s\<lparr>mem := m\<rparr>) = mem s" by simp
  with None assms \<open>n = 0\<close> show ?thesis by (simp add: thread_wakeup_def)
next
  case (Some w)
  from assms(1) Some obtain qu where qu: "queues (mem s) (WQ w) = Some qu"
    by (auto simp: thread_wakeup_def fetch_def split: option.splits)
  show ?thesis
  proof (cases "q_size qu = 0")
    case True
    with assms(1) Some qu have "s\<lparr>mem := m\<rparr> = s" "n = 0" by (simp_all add: thread_wakeup_def fetch_def)
    then have "m = mem s" by (metis tsys.select_convs(1) tsys.surjective tsys.update_convs(1))
    with Some qu True assms \<open>n = 0\<close> show ?thesis by (simp add: thread_wakeup_def fetch_def)
  next
    case False
    with assms(1) Some qu obtain m' where "wakeup_loop (Suc (brk (mem s))) (mem s) w all 0 = Ok (n, m')" "s\<lparr>mem := m'\<rparr> = s\<lparr>mem := m\<rparr>"
      by (auto simp: thread_wakeup_def fetch_def outcome_simps simp del: wakeup_loop.simps)
    moreover from this(2) have "m' = m" by (metis tsys.select_convs(1) tsys.surjective tsys.update_convs(1))
    ultimately show ?thesis using False Some qu assms(2) by (simp add: thread_wakeup_def fetch_def del: wakeup_loop.simps)
  qed
qed

text \<open>The lists of the queues after the running thread has moved to the exit queue.\<close>

definition after_exit :: "(qid \<Rightarrow> nat list) \<Rightarrow> (qid \<Rightarrow> nat list)" where
  "after_exit L = L(RQ := tl (L RQ), EQ := L EQ @ [hd (L RQ)])"

lemma after_exit_simps [simp]:
  "after_exit L RQ = tl (L RQ)" "after_exit L EQ = L EQ @ [hd (L RQ)]" "after_exit L (WQ w) = L (WQ w)"
  by (simp_all add: after_exit_def)

lemma all_nodes_after_exit: "L RQ = a # ns \<Longrightarrow> all_nodes (after_exit L) = all_nodes L"
  unfolding all_nodes_static by auto

lemma live_after_exit:
  assumes "rep m L" and "L RQ = a # ns" and "distinct (L RQ)"
  shows "live_nodes (after_exit L) = live_nodes L - {a}"
proof -
  have "a \<notin> set (L (WQ w))" for w using rep_disjoint [OF assms(1), of a RQ "WQ w"] assms(2) by auto
  then show ?thesis unfolding live_nodes_static using assms(2,3) by auto
qed

lemma lib_ok_exit:
  assumes ok: "lib_ok s L" and L: "L RQ = a # ns" "ns \<noteq> []" and tid: "tid = nat (node_id (mem s) a)" and q: "q = thread_wait_queues s ! tid"
    and h: "heap_ok m (after_exit L) {}" and st: "same_threads (drop_wq (mem s) q) m"
    and s': "s' = s\<lparr>intr := False, threads := (threads s)[tid := None], thread_wait_queues := (thread_wait_queues s)[tid := None],
               mem := m, mode := Switch\<rparr>"
  shows "lib_ok s' (after_exit L)"
proof -
  note D = lib_okD [OF ok]
  note S = sched_okD [OF D(1)]
  have dist: "distinct (L RQ)" using heap_freeable [OF sched_heap_ok [OF D(1)]] by (simp add: freeable_def)
  have a: "a \<in> live_nodes L" using L by (simp add: live_nodes_static)
  have qs: "queues m k \<noteq> None \<longleftrightarrow> queues (drop_wq (mem s) q) k \<noteq> None" for k using st unfolding same_threads_def by (metis domIff)
  have tc: "tcbs m = tcbs (mem s)" "stacks m = stacks (mem s)" "brk m = brk (mem s)" using st by (simp_all add: same_threads_def)
  have nt: "node_thread m p = node_thread (mem s) p" if "p \<in> set (L k)" for p k
    using same_tcbs_node(1) [OF same_threads_tcbs [OF st], of p] node_in_heap(1) [OF D(1) that] by simp
  have nid: "node_id m p = node_id (mem s) p" if "p \<in> set (L k)" for p k
    using nt [OF that] tc(1) by (simp add: node_id_def node_thread_def)
  have nd: "node_tcb m p = node_tcb (mem s) p" if "p \<in> set (L k)" for p k using nt [OF that] tc(1) by (simp add: node_tcb_def)
  have live: "live_nodes (after_exit L) = live_nodes L - {a}" by (rule live_after_exit [OF S(1) L(1) dist])
  have "sched_ok s' (after_exit L)"
  proof (rule sched_okI)
    show "\<forall>p \<in> live_nodes (after_exit L). 0 \<le> node_id (mem s') p \<and> nat (node_id (mem s') p) < THREAD_MAX_THREADS \<and>
        threads s' ! nat (node_id (mem s') p) = Some (node_thread (mem s') p)"
      unfolding live
    proof
      fix p assume p: "p \<in> live_nodes L - {a}"
      then obtain k where k: "p \<in> set (L k)" by (auto simp: live_nodes_def)
      have "node_id (mem s) p \<noteq> node_id (mem s) a" using distinct_node_ids [OF D(1) _ a] p by blast
      then have "nat (node_id (mem s) p) \<noteq> tid" unfolding tid using sched_ok_live(1) [OF D(1)] a p by (metis DiffD1 nat_eq_iff)
      with sched_ok_live [OF D(1), of p] p nt [OF k] nid [OF k] show "0 \<le> node_id (mem s') p \<and>
        nat (node_id (mem s') p) < THREAD_MAX_THREADS \<and> threads s' ! nat (node_id (mem s') p) = Some (node_thread (mem s') p)"
        by (simp add: s')
    qed
  qed (use h qs S in \<open>simp_all add: s'\<close>)
  moreover have "wait_ok s'"
  proof -
    have tl: "tid < length (thread_wait_queues s)" unfolding tid S(6) using sched_ok_live(2) [OF D(1) a] .
    have ow: "wq_of s' ow = (if ow = Waiters tid then None else wq_of s ow)" for ow
      using tl by (cases ow) (auto simp: s' nth_list_update)
    have w: "\<forall>ow w. wq_of s ow = Some w \<longrightarrow> queues (mem s) (WQ w) \<noteq> None" "\<forall>ow ow' w. wq_of s ow = Some w \<longrightarrow> wq_of s ow' = Some w \<longrightarrow> ow = ow'"
      using D(2) by (simp_all add: wait_ok_def)
    have "queues m (WQ w) \<noteq> None" if "wq_of s' ow = Some w" for ow w
    proof -
      have "wq_of s ow = Some w" "ow \<noteq> Waiters tid" using that ow by (auto split: if_splits)
      moreover from this have "q \<noteq> Some w" using w(2) tl q by (metis wq_of.simps(1))
      ultimately show ?thesis using w(1) qs by simp
    qed
    moreover have "queues m (WQ w) \<noteq> None \<Longrightarrow> queues (mem s) (WQ w) \<noteq> None" for w using qs by (simp split: if_splits)
    ultimately show ?thesis using D(2) ow tc unfolding wait_ok_def by (simp add: s' split: if_splits)
  qed
  moreover have "locks_ok s' (after_exit L)" using D(3) by (simp add: locks_ok_def s')
  moreover have "threads_ok s' (after_exit L)"
    unfolding threads_ok_def
  proof (intro allI impI)
    fix k p assume k: "k \<noteq> EQ" and p: "p \<in> set (after_exit L k)"
    then have pk: "p \<in> set (L k)" by (cases k) (auto simp: L)
    have "k = RQ \<Longrightarrow> p \<noteq> hd (L RQ)" using p dist L by auto
    with threads_okD [OF D(4) k pk] nd [OF pk] show "t_status (node_tcb (mem s') p) \<in> status_at (mode s') (after_exit L) k p \<and>
      (\<not> (mode s' = Run \<and> k = RQ \<and> p = hd (after_exit L RQ)) \<longrightarrow>
        (\<forall>l. wants_lock (t_context (node_tcb (mem s') p)) = Some l \<longrightarrow> locks s' l \<noteq> None))"
      by (auto simp: s' status_at_def split: if_splits)
  qed
  moreover have "table_ok s' (after_exit L)"
    unfolding table_ok_def
  proof (intro allI impI)
    fix i th assume i: "i < THREAD_MAX_THREADS" "threads s' ! i = Some th"
    have ne: "i \<noteq> tid" using i S(5) by (auto simp: s')
    with i have "threads s ! i = Some th" by (simp add: s')
    with table_okD [OF D(6) i(1)] obtain p where p: "p \<in> live_nodes L" "node_thread (mem s) p = th" "node_id (mem s) p = int i" by blast
    have "p \<noteq> a" using p(3) ne tid by auto
    moreover from p(1) obtain k where "p \<in> set (L k)" by (auto simp: live_nodes_def)
    ultimately show "\<exists>p \<in> live_nodes (after_exit L). node_thread (mem s') p = th \<and> node_id (mem s') p = int i"
      unfolding live using p nt nid by (intro bexI [of _ p]) (simp_all add: s')
  qed
  ultimately show ?thesis using L by (simp add: lib_ok_def)
qed

lemma exit_lib:
  assumes ok: "lib_ok s L" and L: "L RQ = a # ns" and tid: "tid = nat (node_id (mem s) a)" and q: "q = thread_wait_queues s ! tid"
  shows "\<exists>s'. thread_exit s = Ok s' \<and> threads s' = (threads s)[tid := None] \<and> (if ns @ waiting L q = [] then mode s' = Halted
    else mode s' = Switch \<and> lib_ok s' (after_exit (wake_all L q)) \<and>
      (\<forall>p \<in> set (ns @ waiting L q). node_id (mem s') p = node_id (mem s) p))"
proof -
  from lib_ok_current [OF ok] L have cur: "a \<in> live_nodes L" "thread_id s = Ok (node_id (mem s) a)"
    "at_tid (threads s) (node_id (mem s) a) = Ok (Some (node_thread (mem s) a))" "0 \<le> node_id (mem s) a" "tid < THREAD_MAX_THREADS"
    unfolding tid by auto
  note lens = sched_okD(5,6) [OF lib_okD(1) [OF ok]]
  have wq: "at_tid (thread_wait_queues s) (node_id (mem s) a) = Ok q" using cur(4,5) lens(2) by (simp add: at_tid_def q tid)
  have wqo: "wq_of s (Waiters tid) = q" using cur(5) lens(2) q by simp
  have qex: "queues (mem s) (WQ w) \<noteq> None" if "q = Some w" for w
    using lib_okD(2) [OF ok] that wqo unfolding wait_ok_def by blast
  from wakeup_all_lib [OF ok, of q] qex obtain m1 where m1: "thread_wakeup s q True = Ok (int (length (waiting L q)), s\<lparr>mem := m1\<rparr>)"
    "lib_ok (s\<lparr>mem := m1\<rparr>) (wake_all L q)" "woken (node_thread (mem s) ` set (waiting L q)) (mem s) m1" by blast
  let ?L1 = "wake_all L q" and ?m2 = "drop_wq m1 q" and ?ms = "ns @ waiting L q"
  have h1: "heap_ok m1 ?L1 {}" using sched_heap_ok [OF lib_okD(1) [OF m1(2)]] by simp
  have q1: "queues m1 (WQ w) \<noteq> None" if "q = Some w" for w using woken_queue [OF m1(3)] qex [OF that] by blast
  have d: "wait_queue_destroy m1 q = Ok ?m2" by (rule wait_queue_destroy_empty [OF heap_ok_rep [OF h1]]) (use q1 in auto)
  have h2: "heap_ok ?m2 ?L1 {}" by (rule heap_ok_drop [OF h1]) auto
  have rq: "queues ?m2 RQ \<noteq> None" "queues ?m2 EQ \<noteq> None" using sched_okD(2,3) [OF lib_okD(1) [OF m1(2)]] by simp_all
  have L1: "?L1 RQ = a # ?ms" using L by simp
  from heap_pop [OF h2 rq(1) L1] obtain m3 x where m3: "pop_queue ?m2 RQ = Ok (a, m3)" "heap_ok m3 (?L1(RQ := ?ms)) {a}" "same_threads ?m2 m3"
    "nodes m3 a = Some x" "nd_next x = None" by blast
  have q3: "queues m3 k \<noteq> None \<longleftrightarrow> queues ?m2 k \<noteq> None" for k
    using m3(3) unfolding same_threads_def by (metis domIff)
  from q3 [of RQ] rq(1) obtain qu where qu: "queues m3 RQ = Some qu" by auto
  have hd: "q_head qu = None \<longleftrightarrow> ?ms = []"
    using repD [OF heap_ok_rep [OF m3(2)] qu] by (cases "?ms") (auto simp: qrep_Nil qrep_Cons)
  let ?t = "(threads s)[tid := None]" and ?w = "(thread_wait_queues s)[tid := None]"
  have exit: "thread_exit s = (if q_head qu = None then
          and_then (clear_queue m3 (Some EQ)) (\<lambda>m.
          and_then (destroy_all m ?w) (\<lambda>m.
          and_then (free_node m (Some a)) (\<lambda>m.
            Ok (s\<lparr>intr := False, threads := ?t, thread_wait_queues := ?w, mem := m, mode := Halted\<rparr>))))
        else
          and_then (append_node_to_queue m3 EQ a) (\<lambda>m.
            Ok (s\<lparr>intr := False, threads := ?t, thread_wait_queues := ?w, mem := m, mode := Switch\<rparr>)))"
  proof -
    have id: "thread_id (s\<lparr>intr := False\<rparr>) = Ok (node_id (mem s) a)" using cur(2) by (simp add: thread_id_def current_th_def)
    have wk: "thread_wakeup (s\<lparr>intr := False, threads := ?t\<rparr>) q True =
        Ok (int (length (waiting L q)), s\<lparr>intr := False, threads := ?t, mem := m1\<rparr>)"
      using thread_wakeup_mem [OF m1(1), of "s\<lparr>intr := False, threads := ?t\<rparr>"] by simp
    show ?thesis using cur(3) wq d m3(1) qu wk id
      by (simp add: thread_exit_def Let_def tid [symmetric] fetch_def)
  qed
  show ?thesis
  proof (cases "?ms = []")
    case True
    from heap_clear [OF m3(2), of EQ] q3 [of EQ] rq(2) obtain m4 where m4: "clear_queue m3 (Some EQ) = Ok m4"
      "heap_ok m4 (?L1(RQ := ?ms, EQ := [])) {a}" "dom (queues m4) = dom (queues m3)" by blast
    have "\<exists>m5 L5. destroy_all m4 ?w = Ok m5 \<and> heap_ok m5 L5 {a}"
    proof (rule destroy_all_ok [OF m4(2)])
      have own: "wq_of s (Waiters i) = Some w" "i \<noteq> tid" if "i < length ?w" "?w ! i = Some w" for i w
        using that cur(5) lens(2) by (auto simp: nth_list_update split: if_splits)
      have inj: "\<forall>ow ow' w. wq_of s ow = Some w \<longrightarrow> wq_of s ow' = Some w \<longrightarrow> ow = ow'" using lib_okD(2) [OF ok] by (simp add: wait_ok_def)
      show "\<forall>i j w. i < length ?w \<longrightarrow> j < length ?w \<longrightarrow> ?w ! i = Some w \<longrightarrow> ?w ! j = Some w \<longrightarrow> i = j"
        using own(1) inj by (metis owner.inject(1))
      show "\<forall>w. Some w \<in> set ?w \<longrightarrow> queues m4 (WQ w) \<noteq> None"
      proof (intro allI impI)
        fix w assume "Some w \<in> set ?w"
        then obtain i where i: "i < length ?w" "?w ! i = Some w" by (metis in_set_conv_nth)
        have "q \<noteq> Some w" using own [OF i] wqo inj by (metis owner.inject(1))
        moreover have "queues (mem s) (WQ w) \<noteq> None" using own(1) [OF i] lib_okD(2) [OF ok] unfolding wait_ok_def by blast
        then have "queues m1 (WQ w) \<noteq> None" using woken_queue [OF m1(3)] by blast
        ultimately have "queues m3 (WQ w) \<noteq> None" using q3 [of "WQ w"] by simp
        then show "queues m4 (WQ w) \<noteq> None" using m4(3) by (metis domIff)
      qed
    qed
    then obtain m5 L5 where m5: "destroy_all m4 ?w = Ok m5" "heap_ok m5 L5 {a}" by blast
    from heap_ok_node [OF m5(2), of a] obtain n t where n: "nodes m5 a = Some n" "tcbs m5 (nd_thread n) = Some t" by auto
    have "free_node m5 (Some a) \<noteq> Crash c" for c
      using n heap_ok_stack(1) [OF m5(2), of a] by (auto simp: free_node_def fetch_def free_stack_def node_stack_def node_thread_def split: option.splits)
    then obtain m6 where "free_node m5 (Some a) = Ok m6" by (cases "free_node m5 (Some a)") auto
    with True hd m4(1) m5(1) show ?thesis unfolding exit by simp
  next
    case False
    note D1 = lib_okD [OF m1(2)]
    have an: "a \<notin> set ((?L1(RQ := ?ms)) j)" for j
      using m3(2) in_all_nodes [of a "?L1(RQ := ?ms)" j] by (auto simp: heap_ok_def)
    have ab: "a < brk m3" using rep_lt [OF heap_ok_rep [OF h2], of a RQ] L1 m3(3) by (simp add: same_threads_def)
    from append_node_rep [OF heap_ok_rep [OF m3(2)], of EQ a x] q3 [of EQ] rq(2) m3(4,5) ab an obtain m4 where
      m4: "append_node_to_queue m3 EQ a = Ok m4" "rep m4 (?L1(RQ := ?ms, EQ := (?L1(RQ := ?ms)) EQ @ [a]))" "same_threads m3 m4" by auto
    have LX: "?L1(RQ := ?ms, EQ := (?L1(RQ := ?ms)) EQ @ [a]) = after_exit (wake_all L q)" using L by (simp add: after_exit_def)
    have st: "same_threads ?m2 m4" using m3(3) m4(3) by (simp add: same_threads_def)
    have h4: "heap_ok m4 (after_exit (wake_all L q)) {}"
      by (rule heap_move [OF h2 m4(2) [unfolded LX] st]) (simp_all add: all_nodes_after_exit [of "?L1" a "?ms", OF L1])
    have "lib_ok (s\<lparr>intr := False, threads := ?t, thread_wait_queues := ?w, mem := m4, mode := Switch\<rparr>) (after_exit ?L1)"
    proof (rule lib_ok_exit [OF m1(2) L1 False _ _ h4])
      have "nodes (mem s) a \<noteq> None" using node_in_heap(1) [OF lib_okD(1) [OF ok], of a RQ] L by simp
      then have "node_id m1 a = node_id (mem s) a" using same_tcbs_node(2) m1(3) by (simp add: woken_def)
      then show "tid = nat (node_id (mem (s\<lparr>mem := m1\<rparr>)) a)" using tid by simp
    qed (use st q in simp_all)
    moreover have "node_id m4 p = node_id (mem s) p" if p: "p \<in> set ?ms" for p
    proof -
      from p L have "p \<in> set (L RQ) \<or> (\<exists>w. p \<in> set (L (WQ w)))" by (auto simp: waiting_def split: option.splits)
      then obtain k where "p \<in> set (L k)" by blast
      then have n: "nodes (mem s) p \<noteq> None" by (rule node_in_heap(1) [OF lib_okD(1) [OF ok]])
      have sm: "same_tcbs (mem s) m1" using m1(3) by (simp add: woken_def)
      from same_tcbs_node(2,4) [OF sm n] have "node_id m1 p = node_id (mem s) p" "nodes m1 p \<noteq> None" by simp_all
      with same_tcbs_node(2) [OF same_threads_tcbs [OF st], of p] show ?thesis by simp
    qed
    ultimately show ?thesis using False hd m4(1) unfolding exit by auto
  qed
qed

end
