(* ===== verification/Thread_Safe.thy ===== *)
theory Thread_Safe
  imports Thread_Inv
begin

text \<open>
  Programs that use the thread library: every call, every switch and every timer interrupt from a
  reachable state keeps the invariant.
\<close>

section \<open>Killing, and changes of a single thread\<close>

text \<open>
  One thread changes its status or context. \<open>md\<close> is the mode afterwards: the thread at the head of
  the ready queue may be the one that starts to run.
\<close>

lemma lib_ok_tcb:
  assumes ok: "lib_ok s L" and j: "j \<noteq> EQ" and p: "p \<in> set (L j)"
    and t: "t_id t = t_id (node_tcb (mem s) p)" "t_stack t = t_stack (node_tcb (mem s) p)" "t_context t = t_context (node_tcb (mem s) p)"
    and st: "t_status t \<in> status_at md L j p"
    and md: "md = mode s \<or> (md = Run \<and> p = hd (L RQ))"
    and s': "mem s' = (mem s)\<lparr>tcbs := (tcbs (mem s))(node_thread (mem s) p \<mapsto> t)\<rparr>" "threads s' = threads s"
      "thread_wait_queues s' = thread_wait_queues s" "locks s' = locks s" "cvs s' = cvs s" "mode s' = md"
  shows "lib_ok s' L"
proof -
  note D = lib_okD [OF ok]
  have same: "same_tcbs (mem s) (mem s')" unfolding s'(1) using t(1,2) by (intro same_tcbs_update [OF node_in_heap(2) [OF D(1) p]])
  have sch: "sched_ok s' L"
    by (rule sched_ok_move [OF D(1) _ same refl refl s'(2,3)]) (use sched_okD(1) [OF D(1)] in \<open>simp add: s'(1)\<close>)
  have wait: "wait_ok s'" by (rule wait_ok_same [OF D(2) wq_of_cong same]) (simp_all add: s')
  have tc: "node_tcb (mem s') x = (if x = p then t else node_tcb (mem s) x)" if "x \<in> set (L k)" for x k
    using node_thread_inj [OF D(1) that p] by (auto simp: s'(1) node_tcb_def node_thread_def)
  have "threads_ok s' L"
    unfolding threads_ok_def
  proof (intro allI impI)
    fix k x assume k: "k \<noteq> EQ" and x: "x \<in> set (L k)"
    have eq: "k = j" if "x = p" using that x p rep_disjoint [OF sched_okD(1) [OF D(1)], of p j k] by auto
    have hd: "md = mode s \<or> x \<noteq> p \<longrightarrow> md = mode s \<or> x \<noteq> hd (L RQ)" using md by auto
    show "t_status (node_tcb (mem s') x) \<in> status_at (mode s') L k x \<and>
      (\<not> (mode s' = Run \<and> k = RQ \<and> x = hd (L RQ)) \<longrightarrow>
        (\<forall>l. wants_lock (t_context (node_tcb (mem s') x)) = Some l \<longrightarrow> locks s' l \<noteq> None))"
    proof (cases "x = p")
      case True
      with eq st tc [OF x] t(3) s' threads_okD(2) [OF D(4) k x] md show ?thesis by auto
    next
      case False
      with tc [OF x] s' threads_okD [OF D(4) k x] md show ?thesis by (auto simp: status_at_def split: if_splits)
    qed
  qed
  moreover have "table_ok s' L" by (rule table_ok_same [OF D(1,6) same s'(2) refl])
  ultimately show ?thesis using sch wait D(3,5) s' by (simp add: lib_ok_def locks_ok_def)
qed

lemma kill_safe:
  assumes ok: "lib_ok s L" and run: "mode s = Run"
  shows "\<exists>s'. thread_kill s tid = Ok s' \<and> lib_ok s' L \<and> mode s' = Run"
proof -
  note D = lib_okD [OF ok]
  from lib_ok_current [OF ok] obtain a ns where cur: "L RQ = a # ns" "a \<in> live_nodes L" "thread_id s = Ok (node_id (mem s) a)" .
  show ?thesis
  proof (cases "tid = node_id (mem s) a \<or> tid < 0 \<or> tid \<ge> int THREAD_MAX_THREADS \<or> threads s ! nat tid = None")
    case True
    then have "thread_kill s tid = Ok (s\<lparr>ret := THREAD_INVALID\<rparr>)"
      using cur(3) sched_okD(5) [OF D(1)] by (auto simp: thread_kill_def at_tid_def)
    with ok run show ?thesis by simp
  next
    case False
    then obtain th where i: "nat tid < THREAD_MAX_THREADS" "threads s ! nat tid = Some th" "0 \<le> tid" by auto
    from table_okD [OF D(6) i(1,2)] obtain p where p: "p \<in> live_nodes L" "node_id (mem s) p = tid" using i(3) by auto
    have pa: "p \<noteq> a" using False p(2) by auto
    from p(1) obtain j where j: "j \<noteq> EQ" "p \<in> set (L j)" by (auto simp: live_nodes_def)
    let ?t = "(node_tcb (mem s) p)\<lparr>t_status := THREAD_EXITED\<rparr>"
    let ?s = "s\<lparr>mem := (mem s)\<lparr>tcbs := (tcbs (mem s))(node_thread (mem s) p \<mapsto> ?t)\<rparr>, ret := tid\<rparr>"
    have "thread_kill s tid = Ok ?s" using thread_kill_eq [OF D(1) cur(1) p(1) pa] p(2) by (simp add: node_tcb_def)
    moreover have "lib_ok ?s L"
      by (rule lib_ok_tcb [OF ok j, where t = ?t and md = Run]) (use run pa cur(1) in \<open>simp_all add: status_at_def\<close>)
    ultimately show ?thesis using run by simp
  qed
qed

section \<open>Making and destroying wait queues\<close>

definition empty_queue :: thread_queue where
  "empty_queue = \<lparr>q_size = 0, q_head = None, q_tail = None\<rparr>"

lemma no_queue_empty: "rep m L \<Longrightarrow> queues m k = None \<Longrightarrow> L k = []"
  by (auto simp: rep_def split: option.splits dest: spec [of _ k])

lemma rep_new_queue:
  assumes "rep m L" and "queues m k = None" and "brk m \<le> b"
  shows "rep (m\<lparr>brk := b, queues := (queues m)(k \<mapsto> empty_queue)\<rparr>) L"
proof -
  have "case queues m j of None \<Rightarrow> L j = [] | Some q \<Rightarrow> qrep (nodes m) q (L j)" for j using assms(1) by (simp add: rep_def)
  then have "case ((queues m)(k \<mapsto> empty_queue)) j of None \<Rightarrow> L j = [] | Some q \<Rightarrow> qrep (nodes m) q (L j)" for j
    using no_queue_empty [OF assms(1,2)] by (cases "j = k") (simp_all add: empty_queue_def qrep_Nil)
  moreover have "\<forall>k. \<forall>p \<in> set (L k). p < b" using rep_lt [OF assms(1)] assms(3) by (meson less_le_trans)
  ultimately show ?thesis using assms(1) by (simp add: rep_def cong: option.case_cong)
qed

text \<open>Only wait queues and their owners change.\<close>

lemma lib_ok_wait_queues:
  assumes ok: "lib_ok s L" and r: "rep (mem s') L" and wait: "wait_ok s'" and lk: "locks_ok s' L"
    and m: "nodes (mem s') = nodes (mem s)" "tcbs (mem s') = tcbs (mem s)" "stacks (mem s') = stacks (mem s)"
      "queues (mem s') RQ = queues (mem s) RQ" "queues (mem s') EQ = queues (mem s) EQ"
    and s': "threads s' = threads s" "length (thread_wait_queues s') = length (thread_wait_queues s)" "mode s' = mode s"
    and need: "\<forall>k p l. k \<noteq> EQ \<longrightarrow> p \<in> set (L k) \<longrightarrow> \<not> (mode s = Run \<and> k = RQ \<and> p = hd (L RQ)) \<longrightarrow>
      wants_lock (t_context (node_tcb (mem s) p)) = Some l \<longrightarrow> locks s' l \<noteq> None"
  shows "lib_ok s' L"
proof -
  note D = lib_okD [OF ok]
  have n: "node_thread (mem s') = node_thread (mem s)" "node_stack (mem s') = node_stack (mem s)" "node_id (mem s') = node_id (mem s)"
    "node_tcb (mem s') = node_tcb (mem s)"
    by (simp_all add: fun_eq_iff node_thread_def node_stack_def node_id_def node_tcb_def m)
  have "threaded (mem s') = threaded (mem s)" by (simp add: fun_eq_iff threaded_def m)
  then have "sched_ok s' L" using D(1) r unfolding sched_ok_def n m s' by simp
  moreover have "threads_ok s' L" using D(4) need unfolding threads_ok_def n s' by blast
  moreover have "table_ok s' L" using D(6) unfolding table_ok_def n s' by simp
  ultimately show ?thesis using wait lk D(5) by (simp add: lib_ok_def)
qed

lemma wait_ok_new:
  assumes ok: "wait_ok s" and w: "brk (mem s) \<le> w" "w < b"
    and m: "mem s' = (mem s)\<lparr>brk := b, queues := (queues (mem s))(WQ w \<mapsto> empty_queue)\<rparr>"
    and ow: "\<forall>ow v. wq_of s' ow = Some v \<longrightarrow> wq_of s ow = Some v \<or> (v = w \<and> ow = own)"
  shows "wait_ok s'"
proof -
  have old: "wq_of s ow = Some v \<Longrightarrow> v < brk (mem s)" for ow v using ok unfolding wait_ok_def by blast
  have ex: "wq_of s ow = Some v \<Longrightarrow> queues (mem s) (WQ v) \<noteq> None" for ow v using ok unfolding wait_ok_def by blast
  have inj: "wq_of s ow = Some v \<Longrightarrow> wq_of s ow' = Some v \<Longrightarrow> ow = ow'" for ow ow' v using ok unfolding wait_ok_def by blast
  have lt: "queues (mem s) (WQ v) \<noteq> None \<Longrightarrow> v < brk (mem s)" "tcbs (mem s) th \<noteq> None \<Longrightarrow> th < brk (mem s)" "x \<in> stacks (mem s) \<Longrightarrow> x < brk (mem s)" for v th x
    using ok unfolding wait_ok_def by blast+
  show ?thesis
    unfolding wait_ok_def
  proof (intro conjI allI impI ballI)
    fix ow v assume "wq_of s' ow = Some v"
    with ow ex [of ow v] show "queues (mem s') (WQ v) \<noteq> None" by (auto simp: m)
  next
    fix ow ow' v assume "wq_of s' ow = Some v" "wq_of s' ow' = Some v"
    with ow inj old [of _ v] w show "ow = ow'" by (metis leD)
  next
    fix v assume "queues (mem s') (WQ v) \<noteq> None"
    with lt(1) [of v] w show "v < brk (mem s')" by (auto simp: m split: if_splits)
  next
    fix th assume "tcbs (mem s') th \<noteq> None"
    with lt(2) [of th] w show "th < brk (mem s')" by (auto simp: m)
  next
    fix x assume "x \<in> stacks (mem s')"
    with lt(3) [of x] w show "x < brk (mem s')" by (auto simp: m)
  qed
qed

lemma lib_ok_new_queue:
  assumes ok: "lib_ok s L" and w: "brk (mem s) \<le> w" "w < b"
    and m: "mem s' = (mem s)\<lparr>brk := b, queues := (queues (mem s))(WQ w \<mapsto> empty_queue)\<rparr>"
    and ow: "\<forall>ow v. wq_of s' ow = Some v \<longrightarrow> wq_of s ow = Some v \<or> (v = w \<and> ow = own)"
    and s': "threads s' = threads s" "length (thread_wait_queues s') = length (thread_wait_queues s)" "mode s' = mode s"
    and lk: "\<forall>l lk. locks s' l = Some lk \<longrightarrow> locks s l = Some lk \<or> l_wq lk = w" "dom (locks s) \<subseteq> dom (locks s')"
  shows "lib_ok s' L"
proof -
  note D = lib_okD [OF ok]
  have none: "queues (mem s) (WQ w) = None" using D(2) w(1) unfolding wait_ok_def by (meson leD)
  have r: "rep (mem s') L" unfolding m using rep_new_queue [OF sched_okD(1) [OF D(1)] none] w by simp
  have e: "L (WQ w) = []" by (rule no_queue_empty [OF sched_okD(1) [OF D(1)] none])
  have lko: "locks_ok s' L" using D(3) lk(1) e unfolding locks_ok_def by metis
  show ?thesis
  proof (rule lib_ok_wait_queues [OF ok r wait_ok_new [OF D(2) w m ow] lko])
    show "\<forall>k p l. k \<noteq> EQ \<longrightarrow> p \<in> set (L k) \<longrightarrow> \<not> (mode s = Run \<and> k = RQ \<and> p = hd (L RQ)) \<longrightarrow>
      wants_lock (t_context (node_tcb (mem s) p)) = Some l \<longrightarrow> locks s' l \<noteq> None"
      using threads_okD(2) [OF D(4)] lk(2) by (metis domIff subsetD)
  qed (use s' in \<open>simp_all add: m\<close>)
qed

lemma lib_ok_drop_queue:
  assumes ok: "lib_ok s L" and e: "L (WQ w) = []"
    and m: "mem s' = drop_wq (mem s) (Some w)"
    and ow: "\<forall>ow v. wq_of s' ow = Some v \<longrightarrow> wq_of s ow = Some v \<and> v \<noteq> w"
    and s': "threads s' = threads s" "length (thread_wait_queues s') = length (thread_wait_queues s)" "mode s' = mode s"
    and lk: "\<forall>l lk. locks s' l = Some lk \<longrightarrow> locks s l = Some lk"
    and need: "\<forall>k p l. k \<noteq> EQ \<longrightarrow> p \<in> set (L k) \<longrightarrow> \<not> (mode s = Run \<and> k = RQ \<and> p = hd (L RQ)) \<longrightarrow>
      wants_lock (t_context (node_tcb (mem s) p)) = Some l \<longrightarrow> locks s' l \<noteq> None"
  shows "lib_ok s' L"
proof -
  note D = lib_okD [OF ok]
  have r: "rep (mem s') L" unfolding m using heap_ok_rep [OF heap_ok_drop [OF sched_heap_ok [OF D(1)]]] e by simp
  have lko: "locks_ok s' L" using D(3) lk unfolding locks_ok_def by blast
  have wait: "wait_ok s'"
  proof -
    have q: "queues (mem s') (WQ v) \<noteq> None \<longleftrightarrow> v \<noteq> w \<and> queues (mem s) (WQ v) \<noteq> None" for v by (simp add: m)
    have t: "tcbs (mem s') = tcbs (mem s)" "stacks (mem s') = stacks (mem s)" "brk (mem s') = brk (mem s)" by (simp_all add: m)
    show ?thesis using D(2) ow unfolding wait_ok_def t q by blast
  qed
  show ?thesis by (rule lib_ok_wait_queues [OF ok r wait lko]) (use s' need in \<open>simp_all add: m\<close>)
qed

section \<open>Creating threads\<close>

lemma lib_ok_brk:
  assumes ok: "lib_ok s L" and b: "brk (mem s) \<le> b" and m: "mem s' = (mem s)\<lparr>brk := b\<rparr>"
    and s': "threads s' = threads s" "thread_wait_queues s' = thread_wait_queues s" "locks s' = locks s" "cvs s' = cvs s" "mode s' = mode s"
  shows "lib_ok s' L"
proof (rule lib_ok_wait_queues [OF ok])
  note D = lib_okD [OF ok]
  have "\<forall>k. \<forall>p \<in> set (L k). p < b" using rep_lt [OF sched_okD(1) [OF D(1)]] b by (meson less_le_trans)
  then show "rep (mem s') L" using sched_okD(1) [OF D(1)] by (simp add: m rep_def cong: option.case_cong)
  have "wq_of s' = wq_of s" by (rule wq_of_cong) (rule s')+
  then show "wait_ok s'" using D(2) b by (fastforce simp: wait_ok_def m)
  show "locks_ok s' L" using D(3) s' by (simp add: locks_ok_def)
  show "\<forall>k p l. k \<noteq> EQ \<longrightarrow> p \<in> set (L k) \<longrightarrow> \<not> (mode s = Run \<and> k = RQ \<and> p = hd (L RQ)) \<longrightarrow>
      wants_lock (t_context (node_tcb (mem s) p)) = Some l \<longrightarrow> locks s' l \<noteq> None"
    using threads_okD(2) [OF D(4)] s' by metis
qed (simp_all add: m s')

lemma free_tid_Some:
  assumes "free_tid s = Some i"
  shows "i < THREAD_MAX_THREADS" "threads s ! i = None" "\<forall>j < i. threads s ! j \<noteq> None"
proof -
  from assms obtain k where k: "k < THREAD_MAX_THREADS" "threads s ! k = None" "i = k" "\<forall>j < k. threads s ! j \<noteq> None"
    unfolding free_tid_def find_Some_iff by auto
  then show "i < THREAD_MAX_THREADS" "threads s ! i = None" "\<forall>j < i. threads s ! j \<noteq> None" by simp_all
qed

text \<open>The memory with a new thread structure and its stack, in no queue yet.\<close>

definition with_thread :: "tmem \<Rightarrow> nat \<Rightarrow> tmem" where
  "with_thread m i = m\<lparr>brk := Suc (Suc (brk m)), stacks := insert (Suc (brk m)) (stacks m),
     tcbs := (tcbs m)(brk m \<mapsto> \<lparr>t_id = int i, t_status = THREAD_READY, t_context = In_stub, t_stack = Some (Suc (brk m))\<rparr>)\<rparr>"

lemma create_lib:
  assumes ok: "lib_ok s L" and i: "free_tid s = Some i"
  shows "\<exists>s' n. thread_create s True True True = Ok s' \<and> lib_ok s' (L(RQ := L RQ @ [n])) \<and> mode s' = mode s \<and>
    node_id (mem s') n = int i \<and> ret s' = int i \<and> threads s' = (threads s)[i := Some (brk (mem s))] \<and>
    locks s' = locks s \<and> cvs s' = cvs s \<and> thread_wait_queues s' = thread_wait_queues s \<and>
    (\<forall>p \<in> set (L RQ). node_id (mem s') p = node_id (mem s) p) \<and>
    t_status (node_tcb (mem s') n) = THREAD_READY \<and> t_context (node_tcb (mem s') n) = In_stub"
proof -
  note D = lib_okD [OF ok]
  note S = sched_okD [OF D(1)]
  note I = free_tid_Some [OF i]
  let ?m = "with_thread (mem s) i" and ?th = "brk (mem s)" and ?n = "Suc (Suc (brk (mem s)))" and ?L = "L(RQ := L RQ @ [Suc (Suc (brk (mem s)))])"
  let ?t = "\<lparr>t_id = int i, t_status = THREAD_READY, t_context = In_stub, t_stack = Some (Suc (brk (mem s)))\<rparr>"
  have fresh: "tcbs (mem s) th \<noteq> None \<Longrightarrow> th < ?th" "x \<in> stacks (mem s) \<Longrightarrow> x < ?th" "queues (mem s) (WQ w) \<noteq> None \<Longrightarrow> w < ?th" for th x w
    using D(2) unfolding wait_ok_def by blast+
  have "\<forall>k. \<forall>p \<in> set (L k). p < brk ?m" using rep_lt [OF S(1)] by (simp add: with_thread_def less_Suc_eq)
  then have "rep ?m L" using S(1) by (simp add: rep_def with_thread_def cong: option.case_cong)
  from append_to_queue_rep [OF this, of RQ ?th] S(2) obtain m' where
    m': "append_to_queue ?m RQ ?th True = Ok (True, m')" "rep m' ?L" "brk m' = Suc ?n" "tcbs m' = tcbs ?m"
      "stacks m' = stacks ?m" "dom (queues m') = dom (queues ?m)" "node_thread m' ?n = ?th" "nodes m' ?n \<noteq> None"
      "\<forall>p \<noteq> ?n. map_option nd_thread (nodes m' p) = map_option nd_thread (nodes ?m p)"
    by (auto simp: with_thread_def)
  have tcb': "tcbs m' = (tcbs (mem s))(?th \<mapsto> ?t)" "stacks m' = insert (Suc ?th) (stacks (mem s))"
    using m'(4,5) by (simp_all add: with_thread_def)
  have qd: "queues m' k \<noteq> None \<longleftrightarrow> queues (mem s) k \<noteq> None" for k using m'(6) unfolding with_thread_def by (simp add: set_eq_iff domIff)
  let ?s = "s\<lparr>mem := m', threads := (threads s)[i := Some ?th], ret := int i\<rparr>"
  have create: "thread_create s True True True = Ok ?s"
    using i m'(1) by (simp add: thread_create_def with_thread_def Let_def)
  have old: "p < ?th" "node_thread m' p = node_thread (mem s) p" "node_thread (mem s) p < ?th" "nodes m' p \<noteq> None"
    "tcbs m' (node_thread (mem s) p) = tcbs (mem s) (node_thread (mem s) p)" if p: "p \<in> set (L k)" for p k
  proof -
    show lt: "p < ?th" using rep_lt [OF S(1) p] .
    then have e: "map_option nd_thread (nodes m' p) = map_option nd_thread (nodes (mem s) p)" using m'(9) by (simp add: with_thread_def)
    then show "nodes m' p \<noteq> None" "node_thread m' p = node_thread (mem s) p"
      using node_in_heap(1) [OF D(1) p] by (auto simp: node_thread_def)
    show t: "node_thread (mem s) p < ?th" using fresh(1) node_in_heap(2) [OF D(1) p] by simp
    then show "tcbs m' (node_thread (mem s) p) = tcbs (mem s) (node_thread (mem s) p)" by (simp add: tcb')
  qed
  have nd: "node_tcb m' p = node_tcb (mem s) p" "node_id m' p = node_id (mem s) p" "node_stack m' p = node_stack (mem s) p" if p: "p \<in> set (L k)" for p k
    using old [OF p] by (simp_all add: node_tcb_def node_id_def node_stack_def node_thread_def [symmetric])
  have new: "node_tcb m' ?n = ?t" "node_id m' ?n = int i" "node_stack m' ?n = Some (Suc ?th)"
    using m'(7) tcb' by (simp_all add: node_tcb_def node_id_def node_stack_def node_thread_def [symmetric])
  have all: "all_nodes ?L = insert ?n (all_nodes L)" and live: "live_nodes ?L = insert ?n (live_nodes L)"
    unfolding all_nodes_static live_nodes_static by auto
  have an: "p \<in> all_nodes L \<Longrightarrow> \<exists>k. p \<in> set (L k)" for p by (auto simp: all_nodes_def)
  have ln: "p \<in> live_nodes L \<Longrightarrow> \<exists>k. p \<in> set (L k)" for p by (auto simp: live_nodes_def)
  note H = sched_heap_ok [OF D(1)]
  have stk: "node_stack (mem s) p = Some x \<Longrightarrow> x < ?th" if "p \<in> all_nodes L" for p x
    using heap_ok_stack(1) [OF H, of p x] that fresh(2) by simp
  have heap: "heap_ok m' ?L {}"
  proof (rule heap_okI [OF m'(2)], unfold all Un_empty_right)
    show "\<exists>n t. nodes m' p = Some n \<and> tcbs m' (nd_thread n) = Some t" if "p \<in> insert ?n (all_nodes L)" for p
    proof (cases "p = ?n")
      case True
      with m'(7,8) tcb' show ?thesis by (auto simp: node_thread_def)
    next
      case False
      with that an obtain k where p: "p \<in> set (L k)" by blast
      from old(4) [OF p] obtain n where "nodes m' p = Some n" by auto
      with old(2,5) [OF p] node_in_heap(2) [OF D(1) p] show ?thesis by (auto simp: node_thread_def)
    qed
    show "p = q" if "p \<in> insert ?n (all_nodes L)" "q \<in> insert ?n (all_nodes L)" "node_thread m' p = node_thread m' q" for p q
      using that m'(7) old(2,3) an heap_ok_inj [OF H, of p q] by (metis Un_empty_right insertE less_irrefl)
    show "a \<in> stacks m'" if "p \<in> insert ?n (all_nodes L)" "node_stack m' p = Some a" for p a
      using that new(3) nd(3) an heap_ok_stack(1) [OF H, of p a] tcb'(2) by (metis Un_empty_right insertE insertI1 insertI2 option.inject)
    show "p = q" if "p \<in> insert ?n (all_nodes L)" "q \<in> insert ?n (all_nodes L)" "node_stack m' p = Some a" "node_stack m' q = Some a" for p q a
    proof -
      have "x \<in> all_nodes L \<Longrightarrow> node_stack m' x \<noteq> Some (Suc ?th)" for x using stk [of x "Suc ?th"] nd(3) an by fastforce
      then show ?thesis using that new(3) nd(3) an heap_ok_stack(2) [OF H, of p a q] by (metis Un_empty_right insertE)
    qed
  qed simp
  have sch: "sched_ok ?s ?L"
  proof (rule sched_okI)
    show "\<forall>p \<in> live_nodes ?L. 0 \<le> node_id (mem ?s) p \<and> nat (node_id (mem ?s) p) < THREAD_MAX_THREADS \<and>
        threads ?s ! nat (node_id (mem ?s) p) = Some (node_thread (mem ?s) p)"
      unfolding live
    proof
      fix p assume "p \<in> insert ?n (live_nodes L)"
      then consider "p = ?n" | k where "p \<in> live_nodes L" "p \<in> set (L k)" using ln by blast
      then show "0 \<le> node_id (mem ?s) p \<and> nat (node_id (mem ?s) p) < THREAD_MAX_THREADS \<and>
        threads ?s ! nat (node_id (mem ?s) p) = Some (node_thread (mem ?s) p)"
      proof cases
        case 1
        then show ?thesis using new(2) m'(7) I(1) S(5) by simp
      next
        case 2
        note sched_ok_live [OF D(1) 2(1)]
        moreover from this I(2) have "nat (node_id (mem s) p) \<noteq> i" by auto
        ultimately show ?thesis using nd(2) [OF 2(2)] old(2) [OF 2(2)] by simp
      qed
    qed
  qed (use heap qd S in simp_all)
  have "wait_ok ?s"
  proof -
    have wo: "wq_of ?s = wq_of s" by (rule wq_of_cong) simp_all
    have mm: "mem ?s = m'" and lt: "x < ?th \<Longrightarrow> x < brk m'" for x by (simp_all add: m'(3))
    show ?thesis
      unfolding wait_ok_def wo mm qd
    proof (intro conjI)
      show "\<forall>ow w. wq_of s ow = Some w \<longrightarrow> queues (mem s) (WQ w) \<noteq> None"
        "\<forall>ow ow' w. wq_of s ow = Some w \<longrightarrow> wq_of s ow' = Some w \<longrightarrow> ow = ow'" using D(2) unfolding wait_ok_def by blast+
      show "\<forall>w. queues (mem s) (WQ w) \<noteq> None \<longrightarrow> w < brk m'" using fresh(3) lt by blast
      show "\<forall>th. tcbs m' th \<noteq> None \<longrightarrow> th < brk m'" using fresh(1) lt m'(3) unfolding tcb' by (metis fun_upd_apply less_Suc_eq)
      show "\<forall>a \<in> stacks m'. a < brk m'" using fresh(2) lt m'(3) unfolding tcb' by (metis insertE less_Suc_eq)
    qed
  qed
  moreover have "locks_ok ?s ?L" using D(3) by (simp add: locks_ok_def)
  moreover have "threads_ok ?s ?L"
    unfolding threads_ok_def
  proof (intro allI impI)
    fix k p assume k: "k \<noteq> EQ" and p: "p \<in> set (?L k)"
    have h: "hd (?L RQ) = hd (L RQ)" "hd (L RQ) \<in> set (L RQ)" using D(5) by simp_all
    show "t_status (node_tcb (mem ?s) p) \<in> status_at (mode ?s) ?L k p \<and>
      (\<not> (mode ?s = Run \<and> k = RQ \<and> p = hd (?L RQ)) \<longrightarrow>
        (\<forall>l. wants_lock (t_context (node_tcb (mem ?s) p)) = Some l \<longrightarrow> locks ?s l \<noteq> None))"
    proof (cases "p \<in> set (L k)")
      case True
      with threads_okD [OF D(4) k True] nd(1) [OF True] h(1) show ?thesis by (auto simp: status_at_def)
    next
      case False
      with p have e: "p = ?n" "k = RQ" by (auto split: if_splits)
      moreover from old(1) [OF h(2)] have "?n \<noteq> hd (L RQ)" by simp
      ultimately show ?thesis using new(1) h(1) by (simp add: status_at_def)
    qed
  qed
  moreover have "table_ok ?s ?L"
    unfolding table_ok_def
  proof (intro allI impI)
    fix j th assume j: "j < THREAD_MAX_THREADS" "threads ?s ! j = Some th"
    show "\<exists>p \<in> live_nodes ?L. node_thread (mem ?s) p = th \<and> node_id (mem ?s) p = int j"
    proof (cases "j = i")
      case True
      with j S(5) show ?thesis unfolding live using m'(7) new(2) by (intro bexI [of _ ?n]) simp_all
    next
      case False
      with j have "threads s ! j = Some th" by simp
      from table_okD [OF D(6) j(1) this] obtain p where p: "p \<in> live_nodes L" "node_thread (mem s) p = th" "node_id (mem s) p = int j" by blast
      from ln [OF p(1)] obtain k where "p \<in> set (L k)" by blast
      with p old(2) nd(2) show ?thesis unfolding live by (intro bexI [of _ p]) simp_all
    qed
  qed
  ultimately have "lib_ok ?s ?L" using sch by (simp add: lib_ok_def)
  with create new nd(2) [of _ RQ] show ?thesis by (intro exI [of _ ?s] exI [of _ ?n]) simp
qed

lemma create_safe:
  assumes ok: "lib_ok s L"
  shows "\<exists>s' L'. thread_create s b1 b2 b3 = Ok s' \<and> lib_ok s' L' \<and> mode s' = mode s"
proof (cases "free_tid s")
  case None
  with ok show ?thesis by (auto simp: thread_create_def)
next
  case (Some i)
  consider "\<not> b1 \<or> \<not> b2" | "b1" "b2" "b3" | "b1" "b2" "\<not> b3" by blast
  then show ?thesis
  proof cases
    case 1
    with Some ok show ?thesis by (auto simp: thread_create_def)
  next
    case 2
    with create_lib [OF ok Some] show ?thesis by auto
  next
    case 3
    note W = lib_okD(2) [OF ok]
    have "tcbs (mem s) (brk (mem s)) = None" "Suc (brk (mem s)) \<notin> stacks (mem s)"
      using W unfolding wait_ok_def by (meson less_irrefl, meson Suc_n_not_le_n less_imp_le)
    then have "(tcbs (mem s))(brk (mem s) := None) = tcbs (mem s)" "insert (Suc (brk (mem s))) (stacks (mem s)) - {Suc (brk (mem s))} = stacks (mem s)" by auto
    with 3 Some have "thread_create s b1 b2 b3 = Ok (s\<lparr>mem := (mem s)\<lparr>brk := Suc (Suc (brk (mem s)))\<rparr>, ret := THREAD_NOMEMORY\<rparr>)"
      by (simp add: thread_create_def append_to_queue_def Let_def)
    moreover have "lib_ok (s\<lparr>mem := (mem s)\<lparr>brk := Suc (Suc (brk (mem s)))\<rparr>, ret := THREAD_NOMEMORY\<rparr>) L"
      by (rule lib_ok_brk [OF ok, where b = "Suc (Suc (brk (mem s)))"]) simp_all
    ultimately show ?thesis by auto
  qed
qed

section \<open>Locks and condition variables\<close>

text \<open>Taking or giving back a lock, with its wait queue empty when it is free.\<close>

lemma lib_ok_set_lock:
  assumes ok: "lib_ok s L" and l: "locks s l = Some lk" and wq: "l_wq lk' = l_wq lk" and e: "\<not> locked lk' \<longrightarrow> L (WQ (l_wq lk)) = []"
    and s': "mem s' = mem s" "threads s' = threads s" "thread_wait_queues s' = thread_wait_queues s"
      "locks s' = (locks s)(l \<mapsto> lk')" "cvs s' = cvs s" "mode s' = mode s"
  shows "lib_ok s' L"
proof (rule lib_ok_wait_queues [OF ok])
  note D = lib_okD [OF ok]
  show "rep (mem s') L" using sched_okD(1) [OF D(1)] s' by simp
  have "wq_of s' = wq_of s"
  proof
    fix ow show "wq_of s' ow = wq_of s ow" using l wq by (cases ow) (simp_all add: s')
  qed
  then show "wait_ok s'" using D(2) by (simp add: wait_ok_def s')
  show "locks_ok s' L" using D(3) e wq by (auto simp: locks_ok_def s')
  show "\<forall>k p l. k \<noteq> EQ \<longrightarrow> p \<in> set (L k) \<longrightarrow> \<not> (mode s = Run \<and> k = RQ \<and> p = hd (L RQ)) \<longrightarrow>
      wants_lock (t_context (node_tcb (mem s) p)) = Some l \<longrightarrow> locks s' l \<noteq> None"
    using threads_okD(2) [OF D(4)] by (simp add: s')
qed (simp_all add: s')

text \<open>The mode does not matter to the calls that give up the processor.\<close>

lemma current_th_mode [simp]: "current_th (s\<lparr>mode := md\<rparr>) = current_th s" "thread_id (s\<lparr>mode := md\<rparr>) = thread_id s"
  by (simp_all add: current_th_def thread_id_def)

lemma if_and_then: "and_then (if b then x else y) f = (if b then and_then x f else and_then y f)"
  by simp

lemma acquire_loop_mode: "acquire_loop (s\<lparr>mode := md\<rparr>) l e outer = acquire_loop s l e outer"
proof -
  have cm: "current_th (s\<lparr>mode := md, mem := m\<rparr>) = current_th (s\<lparr>mem := m\<rparr>)" for m by (simp add: current_th_def)
  then show ?thesis
    by (simp add: acquire_loop_def sleep_switch_def switch_from_def Let_def and_then_assoc if_and_then split_beta cong: if_cong)
qed

text \<open>
  The outcome of a step of the library: a well-formed state, or a stop at an assertion or in an endless loop.
\<close>

definition safe :: "tsys outcome \<Rightarrow> bool" where
  "safe r \<longleftrightarrow> (\<exists>s L. r = Ok s \<and> (mode s = Halted \<or> lib_ok s L)) \<or> r = Crash AssertFail \<or> r = Crash Diverges"

lemma safe_Ok: "lib_ok s L \<Longrightarrow> safe (Ok s)"
  by (auto simp: safe_def)

lemma lock_queue:
  assumes ok: "lib_ok s L" and l: "locks s l = Some lk"
  shows "queues (mem s) (WQ (l_wq lk)) \<noteq> None" "locks s l' = Some lk' \<Longrightarrow> l_wq lk' = l_wq lk \<Longrightarrow> l' = l"
proof -
  note W = lib_okD(2) [OF ok, unfolded wait_ok_def]
  have o1: "wq_of s (Of_lock l) = Some (l_wq lk)" using l by simp
  with W show "queues (mem s) (WQ (l_wq lk)) \<noteq> None" by blast
  assume "locks s l' = Some lk'" "l_wq lk' = l_wq lk"
  then have "wq_of s (Of_lock l') = Some (l_wq lk)" by simp
  with o1 W have "Of_lock l' = Of_lock l" by blast
  then show "l' = l" by simp
qed

lemma cv_queue:
  assumes ok: "lib_ok s L" and c: "cvs s c = Some v"
  shows "queues (mem s) (WQ (cv_wq v)) \<noteq> None" "locks s l = Some lk \<Longrightarrow> l_wq lk \<noteq> cv_wq v"
proof -
  note W = lib_okD(2) [OF ok, unfolded wait_ok_def]
  have o1: "wq_of s (Of_cv c) = Some (cv_wq v)" using c by simp
  with W show "queues (mem s) (WQ (cv_wq v)) \<noteq> None" by blast
  assume "locks s l = Some lk"
  then have "wq_of s (Of_lock l) = Some (l_wq lk)" by simp
  with o1 W show "l_wq lk \<noteq> cv_wq v" by (metis owner.distinct(5))
qed

lemma acquire_safe:
  assumes ok: "lib_ok (s\<lparr>mode := Run\<rparr>) L" and l: "locks s l \<noteq> None"
  shows "safe (acquire_loop s l e outer)"
proof -
  let ?s = "s\<lparr>mode := Run\<rparr>"
  from l obtain lk where lk: "locks ?s l = Some lk" by auto
  have "safe (acquire_loop ?s l e outer)"
  proof (cases "locked lk")
    case True
    have "stops_or_returns ?s (sleep_switch ?s (Some (l_wq lk)) (From_acquire l e outer))"
    proof (rule sleep_safe [OF ok])
      show "\<forall>w. Some (l_wq lk) = Some w \<longrightarrow> queues (mem ?s) (WQ w) \<noteq> None \<and> (\<forall>l lk. locks ?s l = Some lk \<longrightarrow> l_wq lk = w \<longrightarrow> locked lk)"
        using lock_queue [OF ok lk] lk True by (metis option.inject)
    qed (use l in simp)
    with True lk show ?thesis unfolding stops_or_returns_def
      by (auto simp: acquire_loop_def fetch_def safe_def)
  next
    case False
    from lib_ok_current [OF ok] obtain a where a: "thread_id ?s = Ok (node_id (mem ?s) a)" by metis
    have "lib_ok (s\<lparr>locks := (locks s)(l \<mapsto> lk\<lparr>locked := True, l_thread := node_id (mem s) a\<rparr>),
        intr := (case outer of None \<Rightarrow> e | Some e \<Rightarrow> e), mode := Run\<rparr>) L"
      by (rule lib_ok_set_lock [OF ok lk, where lk' = "lk\<lparr>locked := True, l_thread := node_id (mem s) a\<rparr>"]) simp_all
    with False lk a show ?thesis by (auto simp: acquire_loop_def fetch_def safe_def)
  qed
  then show ?thesis by (simp add: acquire_loop_mode)
qed

text \<open>Releasing a lock: every waiting thread is made ready, in order.\<close>

lemma release_lib:
  assumes ok: "lib_ok s L" and l: "locks s l = Some lk" and held: "locked lk" "thread_id s = Ok (l_thread lk)"
  shows "\<exists>s'. lock_release s l = Ok s' \<and> lib_ok s' (wake_all L (Some (l_wq lk))) \<and> mode s' = mode s \<and> intr s' = intr s \<and>
    locks s' = (locks s)(l \<mapsto> lk\<lparr>locked := False\<rparr>) \<and> cvs s' = cvs s \<and> same_tcbs (mem s) (mem s')"
proof -
  from wakeup_all_lib [OF ok, of "Some (l_wq lk)"] lock_queue(1) [OF ok l] obtain m where
    m: "thread_wakeup s (Some (l_wq lk)) True = Ok (int (length (waiting L (Some (l_wq lk)))), s\<lparr>mem := m\<rparr>)"
      "lib_ok (s\<lparr>mem := m\<rparr>) (wake_all L (Some (l_wq lk)))" "same_tcbs (mem s) m" unfolding woken_def by blast
  let ?s0 = "s\<lparr>locks := (locks s)(l \<mapsto> lk\<lparr>locked := False\<rparr>)\<rparr>"
  from thread_wakeup_mem [OF m(1), of ?s0] have
    wk: "thread_wakeup ?s0 (Some (l_wq lk)) True = Ok (int (length (waiting L (Some (l_wq lk)))), ?s0\<lparr>mem := m\<rparr>)" by simp
  have "lib_ok (?s0\<lparr>mem := m\<rparr>) (wake_all L (Some (l_wq lk)))"
    by (rule lib_ok_set_lock [OF m(2), of l lk "lk\<lparr>locked := False\<rparr>"]) (use l in simp_all)
  with l held wk m(3) show ?thesis by (simp add: lock_release_def fetch_def)
qed

lemma release_safe:
  assumes ok: "lib_ok s L" and l: "locks s l \<noteq> None"
  shows "lock_release s l = Crash AssertFail \<or> (\<exists>s' L'. lock_release s l = Ok s' \<and> lib_ok s' L' \<and> mode s' = mode s \<and>
    dom (locks s') = dom (locks s) \<and> cvs s' = cvs s)"
proof -
  from l obtain lk where lk: "locks s l = Some lk" by auto
  from lib_ok_current [OF ok] obtain a where a: "thread_id s = Ok (node_id (mem s) a)" by metis
  show ?thesis
  proof (cases "locked lk \<and> l_thread lk = node_id (mem s) a")
    case True
    with a have "locked lk" "thread_id s = Ok (l_thread lk)" by simp_all
    from release_lib [OF ok lk this] lk show ?thesis by (auto simp: insert_absorb)
  next
    case False
    with lk a have "lock_release s l = Crash AssertFail" by (auto simp: lock_release_def fetch_def c_assert_def)
    then show ?thesis by simp
  qed
qed

lemma cv_wait_safe:
  assumes ok: "lib_ok s L" and run: "mode s = Run" and c: "cvs s c \<noteq> None" and l: "locks s l \<noteq> None"
  shows "safe (cv_wait s c l)"
proof -
  let ?s = "s\<lparr>intr := False\<rparr>"
  have ok': "lib_ok ?s L" using ok by simp
  from c obtain v where v: "cvs s c = Some v" by auto
  from l obtain lk where lk: "locks s l = Some lk" by auto
  from lib_ok_current [OF ok'] obtain a where a: "thread_id ?s = Ok (node_id (mem ?s) a)" by metis
  show ?thesis
  proof (cases "locked lk \<and> l_thread lk = node_id (mem s) a")
    case False
    with v lk a have "cv_wait s c l = Crash AssertFail" by (auto simp: cv_wait_def Let_def fetch_def c_assert_def)
    then show ?thesis by (simp add: safe_def)
  next
    case True
    with a have "locked lk" "thread_id ?s = Ok (l_thread lk)" by simp_all
    from release_lib [OF ok' _ this, of l] lk obtain s1 where s1: "lock_release ?s l = Ok s1"
      "lib_ok s1 (wake_all L (Some (l_wq lk)))" "mode s1 = Run" "locks s1 = (locks s)(l \<mapsto> lk\<lparr>locked := False\<rparr>)" "cvs s1 = cvs s"
      using run by auto
    have cvq: "cvs s1 c = Some v" using v s1(5) by simp
    have "stops_or_returns s1 (sleep_switch s1 (Some (cv_wq v)) (From_cv_wait l (intr s)))"
      by (rule sleep_safe [OF s1(2)]) (use cv_queue [OF s1(2) cvq] s1(4) in auto)
    moreover have "cv_wait s c l = and_then (sleep_switch s1 (Some (cv_wq v)) (From_cv_wait l (intr s))) (\<lambda>(r, s').
             case r of None \<Rightarrow> Ok s' | Some _ \<Rightarrow> acquire_loop s' l False (Some (intr s)))"
      using True v lk a s1(1) by (simp add: cv_wait_def Let_def fetch_def)
    moreover have "s1\<lparr>mode := Run\<rparr> = s1" using s1(3) by simp
    then have "safe (acquire_loop s1 l False (Some (intr s)))" using acquire_safe [of s1 _ l] s1(2,4) by simp
    ultimately show ?thesis unfolding stops_or_returns_def by (auto simp: safe_def)
  qed
qed

lemma cv_wake_safe:
  assumes ok: "lib_ok s L" and c: "cvs s c \<noteq> None" and l: "locks s l \<noteq> None"
  shows "safe (cv_wake s c l all)"
proof -
  from c obtain v where v: "cvs s c = Some v" by auto
  from l obtain lk where lk: "locks s l = Some lk" by auto
  from lib_ok_current [OF ok] obtain a where a: "thread_id s = Ok (node_id (mem s) a)" by metis
  from wakeup_safe [OF ok, of "Some (cv_wq v)" all] cv_queue(1) [OF ok v] obtain n m L' where
    m: "thread_wakeup s (Some (cv_wq v)) all = Ok (n, s\<lparr>mem := m\<rparr>)" "lib_ok (s\<lparr>mem := m\<rparr>) L'" by blast
  show ?thesis
  proof (cases "locked lk \<and> l_thread lk = node_id (mem s) a")
    case True
    with v lk a m(1) have "cv_wake s c l all = Ok (s\<lparr>mem := m\<rparr>)" by (simp add: cv_wake_def fetch_def)
    with m(2) show ?thesis by (auto simp: safe_def)
  next
    case False
    with v lk a have "cv_wake s c l all = Crash AssertFail" by (auto simp: cv_wake_def fetch_def c_assert_def)
    then show ?thesis by (simp add: safe_def)
  qed
qed

section \<open>Resuming a thread\<close>

lemma status_at_EQ [simp]: "status_at md (L(EQ := x)) k p = status_at md L k p"
  by (simp add: status_at_def)

lemma clear_exited_lib:
  assumes ok: "lib_ok s L"
  shows "\<exists>m. clear_queue (mem s) (Some EQ) = Ok m \<and> lib_ok (s\<lparr>mem := m\<rparr>) (L(EQ := []))"
proof -
  note D = lib_okD [OF ok]
  from clear_exited [OF D(1)] obtain m where
    m: "clear_queue (mem s) (Some EQ) = Ok m" "sched_ok (s\<lparr>mem := m\<rparr>) (L(EQ := []))" "dom (queues m) = dom (queues (mem s))"
      "brk m = brk (mem s)" "stacks m \<subseteq> stacks (mem s)" "\<forall>th. tcbs m th \<noteq> None \<longrightarrow> tcbs m th = tcbs (mem s) th"
      "\<forall>p \<in> live_nodes L. tcbs m (node_thread (mem s) p) = tcbs (mem s) (node_thread (mem s) p) \<and> nodes m p = nodes (mem s) p" by blast
  have n: "node_thread m p = node_thread (mem s) p" "node_tcb m p = node_tcb (mem s) p" "node_id m p = node_id (mem s) p" if "p \<in> live_nodes L" for p
    using m(7) that by (simp_all add: node_thread_def node_tcb_def node_id_def)
  have live: "live_nodes (L(EQ := [])) = live_nodes L" by (simp add: live_nodes_static)
  have wq: "wq_of (s\<lparr>mem := m\<rparr>) = wq_of s" by (rule wq_of_cong) simp_all
  have "wait_ok (s\<lparr>mem := m\<rparr>)"
  proof (rule wait_ok_frame [OF D(2) wq])
    show "dom (tcbs (mem (s\<lparr>mem := m\<rparr>))) \<subseteq> dom (tcbs (mem s))" using m(6) by (auto simp: domIff)
  qed (use m(3-5) in simp_all)
  moreover have "threads_ok (s\<lparr>mem := m\<rparr>) (L(EQ := []))"
    unfolding threads_ok_def
  proof (intro allI impI)
    fix k p assume k: "k \<noteq> EQ" and "p \<in> set ((L(EQ := [])) k)"
    then have p: "p \<in> set (L k)" by simp
    then have "p \<in> live_nodes L" using k by (auto simp: live_nodes_def)
    with threads_okD [OF D(4) k p] n(2) show "t_status (node_tcb (mem (s\<lparr>mem := m\<rparr>)) p) \<in> status_at (mode (s\<lparr>mem := m\<rparr>)) (L(EQ := [])) k p \<and>
      (\<not> (mode (s\<lparr>mem := m\<rparr>) = Run \<and> k = RQ \<and> p = hd ((L(EQ := [])) RQ)) \<longrightarrow>
        (\<forall>l. wants_lock (t_context (node_tcb (mem (s\<lparr>mem := m\<rparr>)) p)) = Some l \<longrightarrow> locks (s\<lparr>mem := m\<rparr>) l \<noteq> None))"
      by simp
  qed
  moreover have "table_ok (s\<lparr>mem := m\<rparr>) (L(EQ := []))" using D(6) n unfolding table_ok_def live by fastforce
  ultimately show ?thesis using m(1,2) D(3,5) by (auto simp: lib_ok_def locks_ok_def)
qed

lemma return_call_safe:
  assumes ok: "lib_ok (s\<lparr>mode := Run\<rparr>) L" and l: "\<forall>l. caller_lock c = Some l \<longrightarrow> locks s l \<noteq> None"
  shows "safe (return_call s r c)"
proof -
  have x: "lib_ok (s\<lparr>intr := i, mode := Run, ret := q\<rparr>) L" "lib_ok (s\<lparr>intr := i, mode := Run\<rparr>) L" "lib_ok (s\<lparr>mode := Run, ret := q\<rparr>) L" for i q
    using ok lib_ok_cong [of "s\<lparr>intr := i, mode := Run, ret := q\<rparr>" "s\<lparr>mode := Run\<rparr>" L]
      lib_ok_cong [of "s\<lparr>intr := i, mode := Run\<rparr>" "s\<lparr>mode := Run\<rparr>" L] by simp_all
  show ?thesis
  proof (cases c)
    case (From_acquire k e outer)
    with l ok show ?thesis by (simp add: return_call_def acquire_safe)
  next
    case (From_cv_wait k e)
    with l acquire_safe [of "s\<lparr>intr := False\<rparr>" L k] x(2) [of False] show ?thesis by (simp add: return_call_def)
  next
    case (From_wait tid e)
    with safe_Ok [OF x(1) [where i = e and q = tid]] show ?thesis by (simp add: return_call_def return_to_def)
  qed (use safe_Ok [OF x(3)] safe_Ok [OF x(2)] in \<open>simp_all add: return_call_def return_to_def\<close>)
qed

lemma resume_safe:
  assumes ok: "lib_ok s L" and md: "mode s = Switch"
  shows "safe (resume s)"
proof -
  from lib_ok_current [OF ok] obtain a ns where cur: "L RQ = a # ns" "current_th s = Ok (node_thread (mem s) a, node_tcb (mem s) a)" .
  let ?t = "node_tcb (mem s) a"
  let ?s = "if t_context ?t = In_stub then s\<lparr>intr := True\<rparr> else s"
  have ok': "lib_ok ?s L" using ok by simp
  have m': "mem ?s = mem s" by simp
  show ?thesis
  proof (cases "t_status ?t = THREAD_EXITED")
    case True
    from exit_lib [OF ok' cur(1) refl refl] obtain s' where "thread_exit ?s = Ok s'" "mode s' = Halted \<or> (\<exists>L. lib_ok s' L)"
      by (metis (no_types, lifting))
    with True cur(2) show ?thesis by (auto simp: resume_def Let_def safe_def)
  next
    case False
    note D = lib_okD [OF ok]
    have a: "a \<in> set (L RQ)" using cur(1) by simp
    let ?r = "?t\<lparr>t_status := THREAD_RUNNING\<rparr>"
    let ?m = "(mem s)\<lparr>tcbs := (tcbs (mem s))(node_thread (mem s) a \<mapsto> ?r)\<rparr>"
    have st: "set_thread_status (mem s) (node_thread (mem s) a) THREAD_RUNNING = Ok ?m"
      using set_thread_status_eq [OF node_in_heap(2) [OF D(1) a]] False by simp
    have ok1: "lib_ok (s\<lparr>mem := ?m, mode := Run\<rparr>) L"
      by (rule lib_ok_tcb [OF ok _ a, where t = ?r and md = Run]) (use cur(1) in \<open>simp_all add: status_at_def\<close>)
    from clear_exited_lib [OF ok1] obtain m where m: "clear_queue ?m (Some EQ) = Ok m" and ok2: "lib_ok (s\<lparr>mode := Run, mem := m\<rparr>) (L(EQ := []))"
      by auto
    let ?u = "?s\<lparr>mem := m\<rparr>"
    have u: "lib_ok (?u\<lparr>intr := e, mode := Run\<rparr>) (L(EQ := []))" "lib_ok (?u\<lparr>mode := Run\<rparr>) (L(EQ := []))" for e
    proof -
      have "lib_ok (?u\<lparr>mode := Run\<rparr>) (L(EQ := [])) = lib_ok (s\<lparr>mode := Run, mem := m\<rparr>) (L(EQ := []))"
        by (rule lib_ok_cong) simp_all
      with ok2 show "lib_ok (?u\<lparr>mode := Run\<rparr>) (L(EQ := []))" by simp
      have "lib_ok (?u\<lparr>intr := e, mode := Run\<rparr>) (L(EQ := [])) = lib_ok (s\<lparr>mode := Run, mem := m\<rparr>) (L(EQ := []))"
        by (rule lib_ok_cong) simp_all
      with ok2 show "lib_ok (?u\<lparr>intr := e, mode := Run\<rparr>) (L(EQ := []))" by simp
    qed
    have lk: "\<forall>l. wants_lock (t_context ?t) = Some l \<longrightarrow> locks s l \<noteq> None"
      using threads_okD(2) [OF D(4) _ a] md by simp
    have res: "resume s = (case t_context ?t of In_stub \<Rightarrow> Ok (?u\<lparr>mode := Run\<rparr>)
         | In_yield want_tid enabled c \<Rightarrow> return_call (?u\<lparr>intr := enabled\<rparr>) want_tid c
         | In_sleep ret_id enabled c \<Rightarrow> return_call (?u\<lparr>intr := enabled\<rparr>) ret_id c)"
      using cur(2) False st m by (simp add: resume_def Let_def)
    show ?thesis
    proof (cases "t_context ?t")
      case In_stub
      with res u(2) show ?thesis by (auto simp: safe_def)
    next
      case (In_yield w e c)
      have "safe (return_call (?u\<lparr>intr := e\<rparr>) w c)"
        by (rule return_call_safe [where L = "L(EQ := [])"]) (use u(1) [of e] lk In_yield in simp_all)
      with In_yield res show ?thesis by simp
    next
      case (In_sleep w e c)
      have "safe (return_call (?u\<lparr>intr := e\<rparr>) w c)"
        by (rule return_call_safe [where L = "L(EQ := [])"]) (use u(1) [of e] lk In_sleep in simp_all)
      with In_sleep res show ?thesis by simp
    qed
  qed
qed

section \<open>Programs\<close>

text \<open>
  The calls a program can make, in the thread that runs, and the timer interrupt. The arguments of
  \<open>Create\<close> tell whether there is memory for the thread structure, the stack and the list node.
\<close>

datatype action =
    Create bool bool bool
  | Yield int
  | Exit
  | Kill int
  | New_wait_queue
  | Destroy_wait_queue nat
  | Sleep "nat option"
  | Wakeup "nat option" bool
  | Wait int
  | New_lock
  | Destroy_lock nat
  | Acquire nat
  | Release nat
  | New_cv
  | Destroy_cv nat
  | Cv_wait nat nat
  | Signal nat nat
  | Broadcast nat nat
  | Tick

fun perform :: "tsys \<Rightarrow> action \<Rightarrow> tsys outcome" where
  "perform s (Create b1 b2 b3) = thread_create s b1 b2 b3"
| "perform s (Yield want_tid) = thread_yield s want_tid"
| "perform s Exit = thread_exit s"
| "perform s (Kill tid) = thread_kill s tid"
| "perform s New_wait_queue = (let (w, s) = wait_queue_create s in Ok (s\<lparr>ret := int w\<rparr>))"
| "perform s (Destroy_wait_queue w) = and_then (wait_queue_destroy (mem s) (Some w)) (\<lambda>m. Ok (s\<lparr>mem := m\<rparr>))"
| "perform s (Sleep q) = thread_sleep s q"
| "perform s (Wakeup q all) = and_then (thread_wakeup s q all) (\<lambda>(n, s). Ok (s\<lparr>ret := n\<rparr>))"
| "perform s (Wait tid) = thread_wait s tid"
| "perform s New_lock = Ok (lock_create s)"
| "perform s (Destroy_lock l) = lock_destroy s l"
| "perform s (Acquire l) = lock_acquire s l"
| "perform s (Release l) = lock_release s l"
| "perform s New_cv = Ok (cv_create s)"
| "perform s (Destroy_cv c) = cv_destroy s c"
| "perform s (Cv_wait c l) = cv_wait s c l"
| "perform s (Signal c l) = cv_signal s c l"
| "perform s (Broadcast c l) = cv_broadcast s c l"
| "perform s Tick = interrupt_handler s"

text \<open>
  What a program has to respect: it uses only wait queues, locks and condition variables that exist, sleeps
  only on wait queues of its own, passes \<open>thread_wait\<close> an identifier below \<^verbatim>\<open>THREAD_MAX_THREADS\<close> (the code does
  not check it), destroys a wait queue only when it is empty (the code does not check that either) and a lock
  only when no thread is still about to take it. The timer interrupts only while interrupts are enabled.
\<close>

definition own_queue :: "tsys \<Rightarrow> nat \<Rightarrow> bool" where
  "own_queue s w \<longleftrightarrow> queues (mem s) (WQ w) \<noteq> None \<and> Some w \<notin> set (thread_wait_queues s) \<and>
     (\<forall>l. map_option l_wq (locks s l) \<noteq> Some w) \<and> (\<forall>c. map_option cv_wq (cvs s c) \<noteq> Some w)"

definition lock_unwanted :: "tsys \<Rightarrow> nat \<Rightarrow> bool" where
  "lock_unwanted s l \<longleftrightarrow> (\<forall>i < THREAD_MAX_THREADS. \<forall>th t. threads s ! i = Some th \<longrightarrow> tcbs (mem s) th = Some t \<longrightarrow>
     t_status t \<noteq> THREAD_RUNNING \<longrightarrow> wants_lock (t_context t) \<noteq> Some l)"

fun allowed :: "tsys \<Rightarrow> action \<Rightarrow> bool" where
  "allowed s (Destroy_wait_queue w) \<longleftrightarrow> own_queue s w \<and> map_option q_size (queues (mem s) (WQ w)) = Some 0"
| "allowed s (Sleep q) \<longleftrightarrow> (\<forall>w. q = Some w \<longrightarrow> own_queue s w)"
| "allowed s (Wakeup q all) \<longleftrightarrow> (\<forall>w. q = Some w \<longrightarrow> own_queue s w)"
| "allowed s (Wait tid) \<longleftrightarrow> tid < int THREAD_MAX_THREADS"
| "allowed s (Destroy_lock l) \<longleftrightarrow> locks s l \<noteq> None \<and> lock_unwanted s l"
| "allowed s (Acquire l) \<longleftrightarrow> locks s l \<noteq> None"
| "allowed s (Release l) \<longleftrightarrow> locks s l \<noteq> None"
| "allowed s (Destroy_cv c) \<longleftrightarrow> cvs s c \<noteq> None"
| "allowed s (Cv_wait c l) \<longleftrightarrow> cvs s c \<noteq> None \<and> locks s l \<noteq> None"
| "allowed s (Signal c l) \<longleftrightarrow> cvs s c \<noteq> None \<and> locks s l \<noteq> None"
| "allowed s (Broadcast c l) \<longleftrightarrow> cvs s c \<noteq> None \<and> locks s l \<noteq> None"
| "allowed s Tick \<longleftrightarrow> intr s"
| "allowed s _ \<longleftrightarrow> True"

inductive thread_step :: "tsys \<Rightarrow> tsys outcome \<Rightarrow> bool" where
  call: "mode s = Run \<Longrightarrow> allowed s act \<Longrightarrow> thread_step s (perform s act)"
| switch: "mode s = Switch \<Longrightarrow> thread_step s (resume s)"

inductive reachable :: "tsys \<Rightarrow> bool" where
  init: "thread_init None = Ok s \<Longrightarrow> reachable s"
| step: "reachable s \<Longrightarrow> thread_step s (Ok s') \<Longrightarrow> reachable s'"

inductive_cases thread_stepE: "thread_step s r"

lemma stops_or_returns_safe:
  assumes "lib_ok s L" and "mode s = Run" and "stops_or_returns s r"
  shows "safe (and_then r (\<lambda>(x, s). Ok (case x of None \<Rightarrow> s | Some y \<Rightarrow> return_to s y)))"
proof -
  have "safe (Ok (return_to s y))" for y
    using assms(1,2) lib_ok_cong [of "return_to s y" s L] by (intro safe_Ok [of _ L]) (simp add: return_to_def)
  with assms(3) show ?thesis by (auto simp: stops_or_returns_def intro: safe_Ok)
qed

lemma own_queue_wq: "own_queue s w \<Longrightarrow> wq_of s ow \<noteq> Some w"
  by (cases ow) (auto simp: own_queue_def, metis nth_mem)

lemma new_queue_lib:
  assumes ok: "lib_ok s L"
  shows "lib_ok (snd (wait_queue_create s)) L" "mem (snd (wait_queue_create s)) = (mem s)\<lparr>brk := Suc (brk (mem s)),
     queues := (queues (mem s))(WQ (brk (mem s)) \<mapsto> empty_queue)\<rparr>" "fst (wait_queue_create s) = brk (mem s)"
proof -
  show m: "mem (snd (wait_queue_create s)) = (mem s)\<lparr>brk := Suc (brk (mem s)), queues := (queues (mem s))(WQ (brk (mem s)) \<mapsto> empty_queue)\<rparr>"
    "fst (wait_queue_create s) = brk (mem s)" by (simp_all add: wait_queue_create_def Let_def empty_queue_def)
  have wq: "wq_of (snd (wait_queue_create s)) = wq_of s" by (rule wq_of_cong) (simp_all add: wait_queue_create_def Let_def)
  show "lib_ok (snd (wait_queue_create s)) L"
    by (rule lib_ok_new_queue [OF ok order_refl lessI m(1)]) (use wq in \<open>simp_all add: wait_queue_create_def Let_def\<close>)
qed

lemma lock_create_lib:
  assumes ok: "lib_ok s L"
  shows "lib_ok (lock_create s) L"
proof (rule lib_ok_new_queue [OF ok, where w = "Suc (brk (mem s))" and b = "Suc (Suc (brk (mem s)))" and own = "Of_lock (brk (mem s))"])
  let ?s = "lock_create s"
  show "\<forall>ow v. wq_of ?s ow = Some v \<longrightarrow> wq_of s ow = Some v \<or> (v = Suc (brk (mem s)) \<and> ow = Of_lock (brk (mem s)))"
  proof (intro allI impI)
    fix ow v assume "wq_of ?s ow = Some v"
    then show "wq_of s ow = Some v \<or> (v = Suc (brk (mem s)) \<and> ow = Of_lock (brk (mem s)))"
      by (cases ow) (auto simp: lock_create_def wait_queue_create_def Let_def split: if_splits)
  qed
qed (auto simp: lock_create_def wait_queue_create_def Let_def empty_queue_def split: if_splits)

lemma cv_create_lib:
  assumes ok: "lib_ok s L"
  shows "lib_ok (cv_create s) L"
proof (rule lib_ok_new_queue [OF ok, where w = "Suc (brk (mem s))" and b = "Suc (Suc (brk (mem s)))" and own = "Of_cv (brk (mem s))"])
  let ?s = "cv_create s"
  show "\<forall>ow v. wq_of ?s ow = Some v \<longrightarrow> wq_of s ow = Some v \<or> (v = Suc (brk (mem s)) \<and> ow = Of_cv (brk (mem s)))"
  proof (intro allI impI)
    fix ow v assume "wq_of ?s ow = Some v"
    then show "wq_of s ow = Some v \<or> (v = Suc (brk (mem s)) \<and> ow = Of_cv (brk (mem s)))"
      by (cases ow) (auto simp: cv_create_def wait_queue_create_def Let_def split: if_splits)
  qed
qed (auto simp: cv_create_def wait_queue_create_def Let_def empty_queue_def split: if_splits)

lemma queue_size_empty:
  assumes "sched_ok s L" and "queues (mem s) k = Some q" and "q_size q = 0"
  shows "L k = []"
  using repD [OF sched_okD(1) [OF assms(1)] assms(2)] assms(3) by (simp add: qrep_def)

lemma destroy_wait_queue_safe:
  assumes ok: "lib_ok s L" and al: "allowed s (Destroy_wait_queue w)"
  shows "safe (perform s (Destroy_wait_queue w))"
proof -
  note D = lib_okD [OF ok]
  from al obtain q where q: "queues (mem s) (WQ w) = Some q" "q_size q = 0" by auto
  have e: "L (WQ w) = []" by (rule queue_size_empty [OF D(1) q])
  have "wait_queue_destroy (mem s) (Some w) = Ok (drop_wq (mem s) (Some w))"
    by (rule wait_queue_destroy_empty [OF sched_okD(1) [OF D(1)]]) (use q e in simp)
  moreover have "lib_ok (s\<lparr>mem := drop_wq (mem s) (Some w)\<rparr>) L"
  proof (rule lib_ok_drop_queue [OF ok e])
    have "wq_of (s\<lparr>mem := drop_wq (mem s) (Some w)\<rparr>) = wq_of s" by (rule wq_of_cong) simp_all
    then show "\<forall>ow v. wq_of (s\<lparr>mem := drop_wq (mem s) (Some w)\<rparr>) ow = Some v \<longrightarrow> wq_of s ow = Some v \<and> v \<noteq> w"
      using al own_queue_wq by auto
  qed (use threads_okD(2) [OF D(4)] in auto)
  ultimately show ?thesis by (auto intro: safe_Ok)
qed

text \<open>A thread that is not running and has been left with a context is in the table, so the client's promise covers it.\<close>

lemma unwanted:
  assumes ok: "lib_ok s L" and run: "mode s = Run" and un: "lock_unwanted s l" and k: "k \<noteq> EQ" "p \<in> set (L k)" "\<not> (k = RQ \<and> p = hd (L RQ))"
  shows "wants_lock (t_context (node_tcb (mem s) p)) \<noteq> Some l"
proof -
  note D = lib_okD [OF ok]
  have p: "p \<in> live_nodes L" using k by (auto simp: live_nodes_def)
  note Q = sched_ok_live [OF D(1) p]
  have "t_status (node_tcb (mem s) p) \<noteq> THREAD_RUNNING"
    using threads_okD(1) [OF D(4) k(1,2)] k(3) by (auto simp: status_at_def split: if_splits)
  with un Q(2,3) node_in_heap(2) [OF D(1) k(2)] show ?thesis unfolding lock_unwanted_def by blast
qed

lemma destroy_lock_safe:
  assumes ok: "lib_ok s L" and run: "mode s = Run" and al: "allowed s (Destroy_lock l)"
  shows "safe (lock_destroy s l)"
proof -
  note D = lib_okD [OF ok]
  from al obtain lk where lk: "locks s l = Some lk" by auto
  note Q = lock_queue [OF ok lk]
  show ?thesis
  proof (cases "locked lk")
    case True
    with lk show ?thesis by (simp add: lock_destroy_def fetch_def safe_def)
  next
    case False
    have e: "L (WQ (l_wq lk)) = []" using D(3) lk False by (simp add: locks_ok_def)
    have "wait_queue_destroy (mem s) (Some (l_wq lk)) = Ok (drop_wq (mem s) (Some (l_wq lk)))"
      by (rule wait_queue_destroy_empty [OF sched_okD(1) [OF D(1)]]) (use Q(1) e in simp)
    moreover have "lib_ok (s\<lparr>mem := drop_wq (mem s) (Some (l_wq lk)), locks := (locks s)(l := None)\<rparr>) L" (is "lib_ok ?s L")
    proof (rule lib_ok_drop_queue [OF ok e])
      have inj: "\<forall>ow ow' w. wq_of s ow = Some w \<longrightarrow> wq_of s ow' = Some w \<longrightarrow> ow = ow'" using D(2) by (simp add: wait_ok_def)
      have o1: "wq_of s (Of_lock l) = Some (l_wq lk)" using lk by simp
      have ow: "wq_of ?s ow = (if ow = Of_lock l then None else wq_of s ow)" for ow by (cases ow) simp_all
      then show "\<forall>ow v. wq_of ?s ow = Some v \<longrightarrow> wq_of s ow = Some v \<and> v \<noteq> l_wq lk"
        using inj o1 by (metis option.distinct(1))
      show "\<forall>k p l'. k \<noteq> EQ \<longrightarrow> p \<in> set (L k) \<longrightarrow> \<not> (mode s = Run \<and> k = RQ \<and> p = hd (L RQ)) \<longrightarrow>
        wants_lock (t_context (node_tcb (mem s) p)) = Some l' \<longrightarrow> locks ?s l' \<noteq> None"
      proof (intro allI impI)
        fix k p l' assume k: "k \<noteq> EQ" "p \<in> set (L k)" "\<not> (mode s = Run \<and> k = RQ \<and> p = hd (L RQ))"
          and w: "wants_lock (t_context (node_tcb (mem s) p)) = Some l'"
        have "l' \<noteq> l" using unwanted [OF ok run _ k(1,2)] al k(3) run w by auto
        with threads_okD(2) [OF D(4) k w] show "locks ?s l' \<noteq> None" by simp
      qed
    qed (auto split: if_splits)
    ultimately show ?thesis using lk False by (auto simp: lock_destroy_def fetch_def intro: safe_Ok)
  qed
qed

lemma destroy_cv_safe:
  assumes ok: "lib_ok s L" and c: "cvs s c \<noteq> None"
  shows "safe (cv_destroy s c)"
proof -
  note D = lib_okD [OF ok]
  from c obtain v where v: "cvs s c = Some v" by auto
  from cv_queue(1) [OF ok v] obtain q where q: "queues (mem s) (WQ (cv_wq v)) = Some q" by auto
  show ?thesis
  proof (cases "q_size q = 0")
    case False
    with v q show ?thesis by (simp add: cv_destroy_def fetch_def safe_def)
  next
    case True
    have e: "L (WQ (cv_wq v)) = []" by (rule queue_size_empty [OF D(1) q True])
    have "wait_queue_destroy (mem s) (Some (cv_wq v)) = Ok (drop_wq (mem s) (Some (cv_wq v)))"
      by (rule wait_queue_destroy_empty [OF sched_okD(1) [OF D(1)]]) (use q e in simp)
    moreover have "lib_ok (s\<lparr>mem := drop_wq (mem s) (Some (cv_wq v)), cvs := (cvs s)(c := None)\<rparr>) L" (is "lib_ok ?s L")
    proof (rule lib_ok_drop_queue [OF ok e])
      have inj: "\<forall>ow ow' w. wq_of s ow = Some w \<longrightarrow> wq_of s ow' = Some w \<longrightarrow> ow = ow'" using D(2) by (simp add: wait_ok_def)
      have o1: "wq_of s (Of_cv c) = Some (cv_wq v)" using v by simp
      have ow: "wq_of ?s ow = (if ow = Of_cv c then None else wq_of s ow)" for ow by (cases ow) simp_all
      then show "\<forall>ow w. wq_of ?s ow = Some w \<longrightarrow> wq_of s ow = Some w \<and> w \<noteq> cv_wq v"
        using inj o1 by (metis option.distinct(1))
    qed (use threads_okD(2) [OF D(4)] in auto)
    ultimately show ?thesis using v q True by (auto simp: cv_destroy_def fetch_def intro: safe_Ok)
  qed
qed

section \<open>Every step is safe\<close>

lemma wait_safe:
  assumes ok: "lib_ok s L" and run: "mode s = Run" and tid: "tid < int THREAD_MAX_THREADS"
  shows "safe (thread_wait s tid)"
proof -
  let ?s = "s\<lparr>intr := False\<rparr>"
  have ok': "lib_ok ?s L" using ok by simp
  note D = lib_okD [OF ok']
  note S = sched_okD [OF D(1)]
  from lib_ok_current [OF ok'] obtain a where a: "thread_id ?s = Ok (node_id (mem ?s) a)" by metis
  have nt: "0 \<le> tid \<Longrightarrow> nat tid < THREAD_MAX_THREADS" using tid by (simp add: nat_less_iff)
  have inv: "safe (Ok (?s\<lparr>intr := intr s, ret := THREAD_INVALID\<rparr>))" using ok by (intro safe_Ok [of _ L]) simp
  consider "tid < 0 \<or> tid = node_id (mem s) a" | "0 \<le> tid" "tid \<noteq> node_id (mem s) a" "threads s ! nat tid = None"
    | th where "0 \<le> tid" "tid \<noteq> node_id (mem s) a" "threads s ! nat tid = Some th" by fastforce
  then show ?thesis
  proof cases
    case 1
    with a inv show ?thesis by (auto simp: thread_wait_def Let_def)
  next
    case 2
    with a inv nt S(5) show ?thesis by (simp add: thread_wait_def Let_def at_tid_def)
  next
    case (3 th)
    have lt: "nat tid < length (thread_wait_queues s)" using nt 3(1) S(6) by simp
    define r where "r = (case thread_wait_queues s ! nat tid of Some w \<Rightarrow> (w, ?s)
        | None \<Rightarrow> let (w, s) = wait_queue_create ?s in (w, s\<lparr>thread_wait_queues := (thread_wait_queues s)[nat tid := Some w]\<rparr>))"
    have w: "lib_ok (snd r) L \<and> mode (snd r) = Run \<and> wq_of (snd r) (Waiters (nat tid)) = Some (fst r)"
    proof (cases "thread_wait_queues s ! nat tid")
      case None
      have "lib_ok (snd r) L"
      proof (rule lib_ok_new_queue [OF ok' order_refl lessI, where own = "Waiters (nat tid)"])
        show "\<forall>ow v. wq_of (snd r) ow = Some v \<longrightarrow> wq_of ?s ow = Some v \<or> (v = brk (mem ?s) \<and> ow = Waiters (nat tid))"
        proof (intro allI impI)
          fix ow v assume "wq_of (snd r) ow = Some v"
          with None lt show "wq_of ?s ow = Some v \<or> (v = brk (mem ?s) \<and> ow = Waiters (nat tid))"
            by (cases ow) (auto simp: r_def wait_queue_create_def Let_def nth_list_update split: if_splits)
        qed
      qed (use None in \<open>simp_all add: r_def wait_queue_create_def Let_def empty_queue_def\<close>)
      with None lt run show ?thesis by (simp add: r_def wait_queue_create_def Let_def)
    next
      case (Some w)
      with ok' run lt show ?thesis by (simp add: r_def)
    qed
    note W = lib_okD(2) [of "snd r" L, unfolded wait_ok_def]
    have "stops_or_returns (snd r) (sleep_switch (snd r) (Some (fst r)) (From_wait tid (intr s)))"
    proof (rule sleep_safe)
      show "lib_ok (snd r) L" using w by simp
      have n: "locks (snd r) l = Some lk \<Longrightarrow> l_wq lk \<noteq> fst r" for l lk
        using W w by (metis option.simps(9) owner.distinct(1) wq_of.simps(2))
      have "queues (mem (snd r)) (WQ (fst r)) \<noteq> None" using W w by metis
      with n show "\<forall>v. Some (fst r) = Some v \<longrightarrow> queues (mem (snd r)) (WQ v) \<noteq> None \<and>
        (\<forall>l lk. locks (snd r) l = Some lk \<longrightarrow> l_wq lk = v \<longrightarrow> locked lk)" by auto
    qed simp
    moreover have "thread_wait s tid = and_then (sleep_switch (snd r) (Some (fst r)) (From_wait tid (intr s))) (\<lambda>(x, s').
        Ok (case x of None \<Rightarrow> s' | Some _ \<Rightarrow> s'\<lparr>intr := intr s, ret := tid\<rparr>))"
      using 3 a lt nt S(5) by (simp add: thread_wait_def Let_def at_tid_def r_def split_beta)
    moreover have "safe (Ok ((snd r)\<lparr>intr := intr s, ret := tid\<rparr>))" using w by (intro safe_Ok [of _ L]) simp
    ultimately show ?thesis by (auto simp: stops_or_returns_def intro: safe_Ok)
  qed
qed

lemma tick_safe:
  assumes ok: "lib_ok s L"
  shows "safe (interrupt_handler s)"
proof -
  have "stops_or_returns (s\<lparr>intr := False\<rparr>) (yield_switch (s\<lparr>intr := False\<rparr>) THREAD_ANY From_handler)"
    using ok by (intro yield_safe [of _ L]) simp_all
  moreover have "safe (Ok (s\<lparr>intr := intr s\<rparr>))" using ok by (intro safe_Ok [of _ L]) simp
  ultimately show ?thesis by (auto simp: interrupt_handler_def stops_or_returns_def intro: safe_Ok)
qed

lemma exit_safe:
  assumes ok: "lib_ok s L"
  shows "safe (thread_exit s)"
proof -
  from lib_ok_current [OF ok] obtain a ns where "L RQ = a # ns" .
  from exit_lib [OF ok this refl refl] show ?thesis unfolding safe_def by (metis (no_types, lifting))
qed

lemma perform_safe:
  assumes ok: "lib_ok s L" and run: "mode s = Run" and al: "allowed s act"
  shows "safe (perform s act)"
proof (cases act)
  case (Create b1 b2 b3)
  from create_safe [OF ok, of b1 b2 b3] Create show ?thesis by (auto intro: safe_Ok)
next
  case (Yield w)
  have "stops_or_returns s (yield_switch s w From_program)" by (rule yield_safe [OF ok]) simp
  from stops_or_returns_safe [OF ok run this] Yield show ?thesis by (simp add: thread_yield_def)
next
  case Exit
  with exit_safe [OF ok] show ?thesis by simp
next
  case (Kill tid)
  with kill_safe [OF ok run, of tid] show ?thesis by (auto intro: safe_Ok)
next
  case New_wait_queue
  with new_queue_lib(1) [OF ok] show ?thesis by (auto simp: split_beta intro: safe_Ok)
next
  case (Destroy_wait_queue w)
  with destroy_wait_queue_safe [OF ok, of w] al show ?thesis by simp
next
  case (Sleep q)
  have "stops_or_returns s (sleep_switch s q From_program)"
    by (rule sleep_safe [OF ok]) (use al Sleep own_queue_def in auto)
  from stops_or_returns_safe [OF ok run this] Sleep show ?thesis by (simp add: thread_sleep_def)
next
  case (Wakeup q all)
  have "\<forall>w. q = Some w \<longrightarrow> queues (mem s) (WQ w) \<noteq> None" using al Wakeup by (auto simp: own_queue_def)
  from wakeup_safe [OF ok this, of all] obtain n m L' where "thread_wakeup s q all = Ok (n, s\<lparr>mem := m\<rparr>)" "lib_ok (s\<lparr>mem := m\<rparr>) L'" by blast
  with Wakeup safe_Ok [of "s\<lparr>mem := m, ret := n\<rparr>" L'] show ?thesis by simp
next
  case (Wait tid)
  with wait_safe [OF ok run, of tid] al show ?thesis by simp
next
  case New_lock
  with safe_Ok [OF lock_create_lib [OF ok]] show ?thesis by simp
next
  case (Destroy_lock l)
  with destroy_lock_safe [OF ok run, of l] al show ?thesis by simp
next
  case (Acquire l)
  have "s\<lparr>intr := False, mode := Run\<rparr> = s\<lparr>intr := False\<rparr>" using run by simp
  then have "lib_ok (s\<lparr>intr := False, mode := Run\<rparr>) L" using ok by simp
  with acquire_safe [of "s\<lparr>intr := False\<rparr>" L l "intr s" None] Acquire al show ?thesis by (simp add: lock_acquire_def)
next
  case (Release l)
  with release_safe [OF ok, of l] al show ?thesis by (auto simp: safe_def)
next
  case New_cv
  with safe_Ok [OF cv_create_lib [OF ok]] show ?thesis by simp
next
  case (Destroy_cv c)
  with destroy_cv_safe [OF ok, of c] al show ?thesis by simp
next
  case (Cv_wait c l)
  with cv_wait_safe [OF ok run, of c l] al show ?thesis by simp
next
  case (Signal c l)
  with cv_wake_safe [OF ok, of c l False] al show ?thesis by (simp add: cv_signal_def)
next
  case (Broadcast c l)
  with cv_wake_safe [OF ok, of c l True] al show ?thesis by (simp add: cv_broadcast_def)
next
  case Tick
  with tick_safe [OF ok] show ?thesis by simp
qed

section \<open>Reachable states\<close>

definition init_sys :: tsys where
  "init_sys = \<lparr>mem = \<lparr>nodes = [1 \<mapsto> \<lparr>nd_thread = 0, nd_next = None\<rparr>],
       tcbs = [0 \<mapsto> \<lparr>t_id = 0, t_status = THREAD_RUNNING, t_context = In_stub, t_stack = None\<rparr>],
       stacks = {}, queues = [RQ \<mapsto> \<lparr>q_size = 1, q_head = Some 1, q_tail = Some 1\<rparr>, EQ \<mapsto> empty_queue], brk = 2\<rparr>,
     threads = Some 0 # replicate (THREAD_MAX_THREADS - 1) None, thread_wait_queues = replicate THREAD_MAX_THREADS None,
     locks = Map.empty, cvs = Map.empty, intr = True, mode = Run, ret = 0\<rparr>"

definition init_lists :: "qid \<Rightarrow> nat list" where
  "init_lists = (\<lambda>_. [])(RQ := [1])"

lemma thread_init_eq: "thread_init None = Ok init_sys"
  by (simp add: thread_init_def append_to_queue_def append_node_to_queue_def Let_def fetch_def set_queue_def init_sys_def empty_queue_def
      fun_upd_twist)

lemma init_sets: "live_nodes init_lists = {1}" "all_nodes init_lists = {1}"
  by (simp_all add: live_nodes_static all_nodes_static init_lists_def)

lemma init_node: "node_thread (mem init_sys) 1 = 0" "node_id (mem init_sys) 1 = 0" "node_stack (mem init_sys) 1 = None"
  "node_tcb (mem init_sys) 1 = \<lparr>t_id = 0, t_status = THREAD_RUNNING, t_context = In_stub, t_stack = None\<rparr>"
  by (simp_all add: node_thread_def node_id_def node_stack_def node_tcb_def init_sys_def)

lemma init_rep: "rep (mem init_sys) init_lists"
  unfolding rep_def
proof (intro conjI allI)
  fix k show "case queues (mem init_sys) k of None \<Rightarrow> init_lists k = [] | Some q \<Rightarrow> qrep (nodes (mem init_sys)) q (init_lists k)"
    by (cases k) (simp_all add: init_sys_def init_lists_def empty_queue_def qrep_Nil qrep_Cons)
qed (auto simp: init_lists_def init_sys_def)

lemma init_lib: "lib_ok init_sys init_lists"
  unfolding lib_ok_def
proof (intro conjI)
  show "sched_ok init_sys init_lists"
  proof (rule sched_okI)
    show "heap_ok (mem init_sys) init_lists {}"
      by (rule heap_okI [OF init_rep]) (auto simp: init_sets init_node [simplified], auto simp: init_sys_def)
    show "\<forall>p \<in> live_nodes init_lists. 0 \<le> node_id (mem init_sys) p \<and> nat (node_id (mem init_sys) p) < THREAD_MAX_THREADS \<and>
        threads init_sys ! nat (node_id (mem init_sys) p) = Some (node_thread (mem init_sys) p)"
      using init_node by (simp add: init_sets THREAD_MAX_THREADS_def) (simp add: init_sys_def)
  qed (simp_all add: init_sys_def THREAD_MAX_THREADS_def)
  have "wq_of init_sys ow = None" for ow by (cases ow) (simp_all add: init_sys_def)
  then show "wait_ok init_sys" unfolding wait_ok_def by (simp add: init_sys_def)
  show "locks_ok init_sys init_lists" by (simp add: locks_ok_def init_sys_def)
  show "threads_ok init_sys init_lists"
    using init_node(4) by (simp add: threads_ok_def init_lists_def status_at_def) (simp add: init_sys_def)
  show "table_ok init_sys init_lists"
    unfolding table_ok_def init_sets
  proof (intro allI impI)
    fix i th assume "i < THREAD_MAX_THREADS" "threads init_sys ! i = Some th"
    then have "i = 0 \<and> th = 0" by (cases i) (auto simp: init_sys_def)
    with init_node show "\<exists>p \<in> {1}. node_thread (mem init_sys) p = th \<and> node_id (mem init_sys) p = int i" by simp
  qed
  show "init_lists RQ \<noteq> []" by (simp add: init_lists_def)
qed

lemma reachable_init: "reachable init_sys"
  by (rule reachable.init [OF thread_init_eq])

lemma step_safe:
  assumes "mode s = Halted \<or> (\<exists>L. lib_ok s L)" and "thread_step s r"
  shows "safe r"
  using assms(2) assms(1) by cases (auto intro: perform_safe resume_safe)

lemma reachable_lib: "reachable s \<Longrightarrow> mode s = Halted \<or> (\<exists>L. lib_ok s L)"
proof (induction rule: reachable.induct)
  case (init s)
  then have "s = init_sys" using thread_init_eq by simp
  with init_lib show ?case by blast
next
  case (step s s')
  from step_safe [OF step.IH step.hyps(2)] show ?case by (auto simp: safe_def)
qed

end
