(* ===== verification/Thread_Props.thy ===== *)
theory Thread_Props
  imports Thread_Safe
begin

text \<open>
  The properties of the thread library: memory safety of every program, the statuses of threads, and
  what each call does to the lists of thread identifiers.
\<close>

section \<open>What the calls do, by thread identifiers\<close>

text \<open>The identifiers of the threads in a queue, in order; the first of the ready queue is the running thread.\<close>

definition queue_ids :: "tsys \<Rightarrow> qid \<Rightarrow> int list" where
  "queue_ids s k = map (node_id (mem s)) (queue_list (mem s) k)"

lemma queue_ids_lib: "sched_ok s L \<Longrightarrow> queue_ids s k = map (node_id (mem s)) (L k)"
  using queue_list_rep [OF sched_okD(1)] by (simp add: queue_ids_def)

lemma queue_ids_same:
  assumes ok: "sched_ok s L" and ok': "sched_ok s' L'" and same: "same_tcbs (mem s) (mem s')" and sub: "set (L' k) \<subseteq> (\<Union>k. set (L k))"
  shows "queue_ids s' k = map (node_id (mem s)) (L' k)"
proof -
  have "node_id (mem s') p = node_id (mem s) p" if "p \<in> set (L' k)" for p
  proof -
    from that sub obtain j where "p \<in> set (L j)" by blast
    from same_tcbs_node(2) [OF same node_in_heap(1) [OF ok this]] show ?thesis .
  qed
  then show ?thesis by (simp add: queue_ids_lib [OF ok'])
qed

lemma reachable_run:
  assumes "reachable s" and "mode s = Run"
  obtains L where "lib_ok s L"
  using reachable_lib [OF assms(1)] assms(2) by auto

lemma live_ids_distinct:
  assumes "sched_ok s L"
  shows "distinct (map (node_id (mem s)) (L RQ))"
proof -
  have "distinct (L RQ)" using heap_freeable [OF sched_heap_ok [OF assms]] by (simp add: freeable_def)
  moreover have "inj_on (node_id (mem s)) (set (L RQ))"
    using distinct_node_ids [OF assms] by (auto simp: inj_on_def live_nodes_static)
  ultimately show ?thesis by (simp add: distinct_map)
qed

text \<open>
  The specification of yielding on the list of ready identifiers: an error, or the new list, whose first
  thread runs next.
\<close>

fun yield_ids :: "int \<Rightarrow> int list \<Rightarrow> int + int list" where
  "yield_ids want [] = Inl THREAD_INVALID"
| "yield_ids want (a # ids) =
     (if want = THREAD_ANY then if ids = [] then Inl THREAD_NONE else Inr (ids @ [a])
      else if want = THREAD_SELF \<or> want = a then Inr (a # ids)
      else if want \<in> set ids then Inr (want # remove1 want ids @ [a])
      else Inl THREAD_INVALID)"

lemma yield_refines:
  assumes ok: "lib_ok s L" and run: "mode s = Run"
  shows "case yield_ids want (queue_ids s RQ) of
      Inl e \<Rightarrow> thread_yield s want = Ok (s\<lparr>ret := e\<rparr>)
    | Inr ids \<Rightarrow> \<exists>s'. thread_yield s want = Ok s' \<and> mode s' = Switch \<and> queue_ids s' RQ = ids"
proof -
  note S = lib_okD(1) [OF ok]
  from lib_ok_current [OF ok] obtain a ns where L: "L RQ = a # ns" and pos: "0 \<le> node_id (mem s) a" .
  have ids: "queue_ids s RQ = node_id (mem s) a # map (node_id (mem s)) ns" using queue_ids_lib [OF S, of RQ] L by simp
  have ret: "return_to s e = s\<lparr>ret := e\<rparr>" for e using run by (simp add: return_to_def)
  have new: "queue_ids s' RQ = map (node_id (mem s)) ms" if "sched_ok s' (L(RQ := ms))" "left s th st c s'" "set ms \<subseteq> set (L RQ)" for s' ms th st c
    using queue_ids_same [OF S that(1), of RQ] that(2,3) unfolding left_def by auto
  consider (any) "want = THREAD_ANY" | (self) "want = THREAD_SELF \<or> want = node_id (mem s) a"
    | (other) "want \<noteq> THREAD_ANY" "want \<noteq> THREAD_SELF" "want \<noteq> node_id (mem s) a" by blast
  then show ?thesis
  proof cases
    case any
    show ?thesis
    proof (cases ns)
      case Nil
      with any yield_any_alone [OF S, of a From_program] L ret ids show ?thesis by (simp add: thread_yield_def)
    next
      case (Cons b ms)
      with L have L': "L RQ = a # b # ms" by simp
      from yield_any [OF S L', of From_program] obtain s' where s': "yield_switch s THREAD_ANY From_program = Ok (None, s')"
        "sched_ok s' (L(RQ := b # ms @ [a]))" "left s (node_thread (mem s) a) THREAD_READY (In_yield (node_id (mem s) b) (intr s) From_program) s'" by blast
      have "queue_ids s' RQ = map (node_id (mem s)) (b # ms @ [a])" using new [OF s'(2,3)] L' by auto
      with any s'(1,3) ids Cons show ?thesis by (auto simp: thread_yield_def left_def)
    qed
  next
    case self
    then have "want \<noteq> THREAD_ANY" using pos by (auto simp: THREAD_ANY_def THREAD_SELF_def)
    moreover from yield_self [OF S L self, of From_program] obtain s' where s': "yield_switch s want From_program = Ok (None, s')" "sched_ok s' L"
      "left s (node_thread (mem s) a) THREAD_READY (In_yield (node_id (mem s) a) (intr s) From_program) s'" by blast
    moreover have "queue_ids s' RQ = queue_ids s RQ"
      using new [of s' "L RQ"] s'(2,3) queue_ids_lib [OF S, of RQ] by simp
    ultimately show ?thesis using self ids by (auto simp: thread_yield_def left_def)
  next
    case other
    show ?thesis
    proof (cases "want \<in> node_id (mem s) ` set ns")
      case False
      with yield_to [OF S L other, of From_program] other ids ret show ?thesis by (simp add: thread_yield_def)
    next
      case True
      with yield_to [OF S L other, of From_program] obtain s' w us vs where s': "ns = us @ w # vs" "node_id (mem s) w = want"
        "yield_switch s want From_program = Ok (None, s')" "sched_ok s' (L(RQ := w # us @ vs @ [a]))"
        "left s (node_thread (mem s) a) THREAD_READY (In_yield want (intr s) From_program) s'" by auto
      have "distinct (map (node_id (mem s)) ns)" using live_ids_distinct [OF S] L by simp
      then have "remove1 want (map (node_id (mem s)) ns) = map (node_id (mem s)) (us @ vs)"
        using s'(1,2) by (auto simp: remove1_append image_iff)
      moreover have "queue_ids s' RQ = map (node_id (mem s)) (w # us @ vs @ [a])" using new [OF s'(4,5)] L s'(1) by auto
      ultimately show ?thesis using True other ids s' by (auto simp: thread_yield_def left_def)
    qed
  qed
qed

section \<open>Properties\<close>





text \<open>
  Yielding implements its specification on the list of ready threads (C4). \<open>THREAD_ANY\<close> runs the next thread and moves the caller
  to the end, \<open>THREAD_SELF\<close> keeps the order, an identifier in the ready queue is moved to the front with the caller
  at the end; an identifier that is not ready gives \<open>THREAD_INVALID\<close> and a lone thread \<open>THREAD_NONE\<close>, and the caller goes on.
\<close>

theorem thread_yield_correct:
  assumes "reachable s" and "mode s = Run"
  shows "case yield_ids want (queue_ids s RQ) of
      Inl e \<Rightarrow> thread_yield s want = Ok (s\<lparr>ret := e\<rparr>)
    | Inr ids \<Rightarrow> \<exists>s'. thread_yield s want = Ok s' \<and> mode s' = Switch \<and> queue_ids s' RQ = ids"
proof -
  from reachable_run [OF assms] obtain L where "lib_ok s L" .
  from yield_refines [OF this assms(2)] show ?thesis .
qed

theorem thread_yield_correct_witness:
  "thread_yield init_sys THREAD_ANY = Ok (init_sys\<lparr>ret := THREAD_NONE\<rparr>)"
proof -
  have "queue_ids init_sys RQ = [0]" by (simp add: queue_ids_lib [OF lib_okD(1) [OF init_lib]] init_lists_def init_node [simplified])
  moreover have "mode init_sys = Run" by (simp add: init_sys_def)
  ultimately show ?thesis using thread_yield_correct [OF reachable_init, of THREAD_ANY] by simp
qed

text \<open>
  Creating a thread (C39). If a thread identifier is free and there is memory, the new thread gets the least free identifier, is
  recorded in the thread table and put at the end of the ready queue; if all are taken, the result is
  \<open>THREAD_NOMORE\<close> and nothing changes. The caller goes on running in either case.
\<close>

theorem thread_create_correct:
  assumes "reachable s" and "mode s = Run"
  shows "case find (\<lambda>i. threads s ! i = None) [0..<THREAD_MAX_THREADS] of
      None \<Rightarrow> thread_create s True True True = Ok (s\<lparr>ret := THREAD_NOMORE\<rparr>)
    | Some i \<Rightarrow> \<exists>s' th. thread_create s True True True = Ok s' \<and> mode s' = Run \<and> ret s' = int i \<and>
        threads s' = (threads s)[i := Some th] \<and> queue_ids s' RQ = queue_ids s RQ @ [int i]"
proof -
  from reachable_run [OF assms] obtain L where ok: "lib_ok s L" .
  show ?thesis
  proof (cases "find (\<lambda>i. threads s ! i = None) [0..<THREAD_MAX_THREADS]")
    case None
    then show ?thesis by (simp add: thread_create_def free_tid_def)
  next
    case (Some i)
    then have "free_tid s = Some i" by (simp add: free_tid_def)
    from create_lib [OF ok this] obtain s' n where s': "thread_create s True True True = Ok s'" "lib_ok s' (L(RQ := L RQ @ [n]))"
      "mode s' = mode s" "node_id (mem s') n = int i" "ret s' = int i" "threads s' = (threads s)[i := Some (brk (mem s))]"
      "\<forall>p \<in> set (L RQ). node_id (mem s') p = node_id (mem s) p" by blast
    have "queue_ids s' RQ = queue_ids s RQ @ [int i]"
      using s'(4,7) by (simp add: queue_ids_lib [OF lib_okD(1) [OF s'(2)]] queue_ids_lib [OF lib_okD(1) [OF ok]])
    with Some s' assms(2) show ?thesis by auto
  qed
qed

theorem thread_create_correct_witness:
  "\<exists>s'. thread_create init_sys True True True = Ok s' \<and> ret s' = 1 \<and> queue_ids s' RQ = [0, 1]"
proof -
  have ids: "queue_ids init_sys RQ = [0]" by (simp add: queue_ids_lib [OF lib_okD(1) [OF init_lib]] init_lists_def init_node [simplified])
  have lt: "1 < THREAD_MAX_THREADS" by (simp add: THREAD_MAX_THREADS_def)
  then have "[0..<THREAD_MAX_THREADS] = 0 # 1 # [Suc 1..<THREAD_MAX_THREADS]"
    using upt_conv_Cons [of 0 THREAD_MAX_THREADS] upt_conv_Cons [of 1 THREAD_MAX_THREADS] by simp
  then have "find (\<lambda>i. threads init_sys ! i = None) [0..<THREAD_MAX_THREADS] = Some 1" using lt by (simp add: init_sys_def)
  moreover have "mode init_sys = Run" by (simp add: init_sys_def)
  ultimately show ?thesis using thread_create_correct [OF reachable_init] ids by auto
qed

text \<open>
  Taking a lock (C36). A free lock is taken at once by the running thread. When the lock is held, nobody takes it: the caller is
  put at the end of the queue of the lock and the next ready thread runs, with the lock still held by its holder; if the
  caller is the only thread that can run, the call never returns.
\<close>

theorem lock_acquire_correct:
  assumes "reachable s" and "mode s = Run" and lk: "locks s l = Some lk"
  shows "if \<not> locked lk then
      \<exists>s' tid. thread_id s = Ok tid \<and> lock_acquire s l = Ok s' \<and> mode s' = Run \<and> intr s' = intr s \<and>
        locks s' = (locks s)(l \<mapsto> lk\<lparr>locked := True, l_thread := tid\<rparr>) \<and> mem s' = mem s
    else case queue_ids s RQ of
      a # b # ids \<Rightarrow> \<exists>s'. lock_acquire s l = Ok s' \<and> mode s' = Switch \<and> locks s' = locks s \<and>
        queue_ids s' RQ = b # ids \<and> queue_ids s' (WQ (l_wq lk)) = queue_ids s (WQ (l_wq lk)) @ [a]
    | _ \<Rightarrow> lock_acquire s l = Crash Diverges"
proof -
  from reachable_run [OF assms(1,2)] obtain L where ok: "lib_ok s L" .
  let ?s = "s\<lparr>intr := False\<rparr>"
  have ok': "lib_ok ?s L" using ok by simp
  note S = lib_okD(1) [OF ok'] and S0 = lib_okD(1) [OF ok]
  from lib_ok_current [OF ok'] obtain a ns where a: "L RQ = a # ns" "thread_id ?s = Ok (node_id (mem ?s) a)" .
  have tid: "thread_id s = Ok (node_id (mem s) a)" using a(2) by (simp add: thread_id_def current_th_def)
  note ids = queue_ids_lib [OF S0]
  show ?thesis
  proof (cases "locked lk")
    case False
    with lk a(2) tid assms(2) show ?thesis by (simp add: lock_acquire_def acquire_loop_def fetch_def)
  next
    case True
    show ?thesis
    proof (cases ns)
      case Nil
      with sleep_alone [OF S, of a] a(1) True lk ids [of RQ] show ?thesis
        by (simp add: lock_acquire_def acquire_loop_def fetch_def)
    next
      case (Cons b ms)
      with a(1) have L: "L RQ = a # b # ms" by simp
      have q: "queues (mem ?s) (WQ (l_wq lk)) \<noteq> None" using lock_queue(1) [OF ok lk] by simp
      from sleep_ok [OF S L q, of "From_acquire l (intr s) None"] obtain s' where
        s': "sleep_switch ?s (Some (l_wq lk)) (From_acquire l (intr s) None) = Ok (None, s')"
          "sched_ok s' (L(RQ := b # ms, WQ (l_wq lk) := L (WQ (l_wq lk)) @ [a]))"
          "left ?s (node_thread (mem ?s) a) THREAD_BLOCKED (In_sleep (node_id (mem ?s) b) (intr ?s) (From_acquire l (intr s) None)) s'" by blast
      have same: "same_tcbs (mem s) (mem s')" "locks s' = locks s" "mode s' = Switch" using s'(3) by (simp_all add: left_def)
      have 1: "queue_ids s' RQ = map (node_id (mem s)) (b # ms)"
      proof -
        have "set (L RQ) \<subseteq> (\<Union>k. set (L k))" by blast
        moreover have "set (b # ms) \<subseteq> set (L RQ)" using L by auto
        ultimately have "set (b # ms) \<subseteq> (\<Union>k. set (L k))" by (rule subset_trans [rotated])
        then have "set ((L(RQ := b # ms, WQ (l_wq lk) := L (WQ (l_wq lk)) @ [a])) RQ) \<subseteq> (\<Union>k. set (L k))" by simp
        from queue_ids_same [OF S0 s'(2) same(1) this] show ?thesis by simp
      qed
      have "a \<in> (\<Union>k. set (L k))" using L by (intro UN_I [of RQ]) simp_all
      then have "set (L (WQ (l_wq lk)) @ [a]) \<subseteq> (\<Union>k. set (L k))" by auto
      then have 2: "queue_ids s' (WQ (l_wq lk)) = map (node_id (mem s)) (L (WQ (l_wq lk)) @ [a])"
        using queue_ids_same [OF S0 s'(2) same(1), of "WQ (l_wq lk)"] by simp
      have "lock_acquire s l = Ok s'" using s'(1) True lk by (simp add: lock_acquire_def acquire_loop_def fetch_def)
      with True L ids same 1 2 show ?thesis by simp
    qed
  qed
qed

text \<open>A state with one lock, for the witnesses.\<close>

definition one_lock :: tsys where
  "one_lock = lock_create init_sys"

lemma one_lock_simps: "mode one_lock = Run" "locks one_lock = [2 \<mapsto> \<lparr>locked = False, l_thread = 0, l_wq = 3\<rparr>]" "thread_id one_lock = Ok 0"
  by (simp_all add: one_lock_def lock_create_def wait_queue_create_def init_sys_def Let_def thread_id_def current_th_def fetch_def deref_def)

lemma reachable_one_lock: "reachable one_lock"
proof -
  have "thread_step init_sys (perform init_sys New_lock)" by (rule thread_step.call) (simp_all add: init_sys_def)
  then have "thread_step init_sys (Ok one_lock)" by (simp add: one_lock_def)
  with reachable_init show ?thesis by (rule reachable.step)
qed

theorem lock_acquire_correct_witness:
  "\<exists>s'. lock_acquire one_lock 2 = Ok s' \<and> locks s' 2 = Some \<lparr>locked = True, l_thread = 0, l_wq = 3\<rparr>"
  using lock_acquire_correct [OF reachable_one_lock one_lock_simps(1), of 2] by (auto simp: one_lock_simps)

text \<open>
  Giving a lock back (C37). A thread that does not hold the lock is stopped by the assertion. The holder makes the lock free and every
  thread that waits for it ready, in the order they came, behind the threads that are ready already; none of them
  holds the lock yet.
\<close>

theorem lock_release_correct:
  assumes "reachable s" and "mode s = Run" and lk: "locks s l = Some lk"
  shows "if locked lk \<and> thread_id s = Ok (l_thread lk) then
      \<exists>s'. lock_release s l = Ok s' \<and> mode s' = Run \<and> locks s' = (locks s)(l \<mapsto> lk\<lparr>locked := False\<rparr>) \<and>
        queue_ids s' RQ = queue_ids s RQ @ queue_ids s (WQ (l_wq lk)) \<and> queue_ids s' (WQ (l_wq lk)) = []
    else lock_release s l = Crash AssertFail"
proof -
  from reachable_run [OF assms(1,2)] obtain L where ok: "lib_ok s L" .
  from lib_ok_current [OF ok] obtain a where a: "thread_id s = Ok (node_id (mem s) a)" by metis
  note ids = queue_ids_lib [OF lib_okD(1) [OF ok]]
  show ?thesis
  proof (cases "locked lk \<and> thread_id s = Ok (l_thread lk)")
    case True
    then have "locked lk" "thread_id s = Ok (l_thread lk)" by simp_all
    from release_lib [OF ok lk this] obtain s' where s': "lock_release s l = Ok s'" "lib_ok s' (wake_all L (Some (l_wq lk)))"
      "mode s' = mode s" "locks s' = (locks s)(l \<mapsto> lk\<lparr>locked := False\<rparr>)" "same_tcbs (mem s) (mem s')" by blast
    let ?L = "wake_all L (Some (l_wq lk))"
    have "set (?L RQ) \<subseteq> (\<Union>k. set (L k))" by (auto simp: waiting_def)
    from queue_ids_same [OF lib_okD(1) [OF ok] lib_okD(1) [OF s'(2)] s'(5) this]
    have "queue_ids s' RQ = map (node_id (mem s)) (?L RQ)" .
    moreover have "queue_ids s' (WQ (l_wq lk)) = []" using queue_ids_lib [OF lib_okD(1) [OF s'(2)]] by simp
    ultimately show ?thesis using True s' assms(2) ids by (auto simp: waiting_def)
  next
    case False
    with lk a show ?thesis by (auto simp: lock_release_def fetch_def c_assert_def)
  qed
qed

theorem lock_release_correct_witness:
  "lock_release one_lock 2 = Crash AssertFail"
  using lock_release_correct [OF reachable_one_lock one_lock_simps(1), of 2] by (simp add: one_lock_simps)



text \<open>
  \<open>thread_wait\<close> does not check its argument against the size of the thread table: an identifier of
  \<^verbatim>\<open>THREAD_MAX_THREADS\<close> or more makes it read past the end of the array.
\<close>

theorem thread_wait_out_of_range:
  assumes "reachable s" and "mode s = Run" and "tid \<ge> int THREAD_MAX_THREADS"
  shows "thread_wait s tid = Crash MemFault"
proof -
  from reachable_run [OF assms(1,2)] obtain L where ok: "lib_ok (s\<lparr>intr := False\<rparr>) L" by (metis lib_ok_intr)
  from lib_ok_current [OF this] obtain a where a: "thread_id (s\<lparr>intr := False\<rparr>) = Ok (node_id (mem (s\<lparr>intr := False\<rparr>)) a)"
    "0 \<le> node_id (mem (s\<lparr>intr := False\<rparr>)) a" "nat (node_id (mem (s\<lparr>intr := False\<rparr>)) a) < THREAD_MAX_THREADS" by metis
  have big: "\<not> nat tid < THREAD_MAX_THREADS" "0 \<le> tid" using assms(3) by (simp_all add: not_less le_nat_iff)
  then have "tid \<noteq> node_id (mem s) a" using a(3) by auto
  moreover have "length (threads s) = THREAD_MAX_THREADS" using sched_okD(5) [OF lib_okD(1) [OF ok]] by simp
  ultimately have "at_tid (threads s) tid = Crash MemFault" "tid \<noteq> node_id (mem s) a" using big by (simp_all add: at_tid_def)
  with a(1) big(2) show ?thesis by (simp add: thread_wait_def Let_def)
qed

theorem thread_wait_out_of_range_witness: "thread_wait init_sys 1024 = Crash MemFault"
  using thread_wait_out_of_range [OF reachable_init, of 1024] by (simp add: init_sys_def THREAD_MAX_THREADS_def)

lemma destroy_all_none: "destroy_all m (replicate n None) = Ok m"
  by (induction n) (simp_all add: wait_queue_destroy_def clear_queue_def)

text \<open>
  \<open>thread_init\<close> leaves the stack pointer of the first thread unset. If the memory it got was not zero, the exit of that thread
  as the last one frees a pointer that no allocation returned.
\<close>

theorem thread_init_wild_stack:
  "\<exists>s. thread_init (Some junk) = Ok s \<and> thread_exit s = Crash MemFault"
proof -
  have lt: "0 < THREAD_MAX_THREADS" by (simp add: THREAD_MAX_THREADS_def)
  have upd: "(replicate THREAD_MAX_THREADS None)[0 := (None :: nat option)] = replicate THREAD_MAX_THREADS None" by (simp add: list_update_same_conv lt)
  show ?thesis
    using lt upd
    by (simp add: thread_init_def append_to_queue_def append_node_to_queue_def Let_def fetch_def set_queue_def thread_exit_def thread_id_def
        current_th_def deref_def at_tid_def thread_wakeup_def wait_queue_destroy_def clear_queue_def pop_queue_def set_next_def
        destroy_all_none free_node_def free_stack_def)
qed

end
