(* ===== verification/Web_Cache.thy ===== *)
theory Web_Cache
  imports Interfaces
begin

text \<open>
  The file cache of \<^verbatim>\<open>webserver/server_thread.c\<close>: a hash table of entries and a list of their use order, both linked in
  memory. The operations are those of the code, on an explicit store; the lemmas relate the links to the lists they represent.
\<close>

section \<open>Definitions\<close>

text \<open>
  The djb2 hash on \<^verbatim>\<open>unsigned long\<close>; a \<^verbatim>\<open>char\<close> is signed, so it is extended with its sign. A C string is the
  list of its bytes before the terminating zero.
\<close>

type_synonym cstring = "byte list"

fun hash_from :: "64 word \<Rightarrow> cstring \<Rightarrow> 64 word" where
  "hash_from h [] = h"
| "hash_from h (c # str) = hash_from (push_bit 5 h + h + word_of_int (sint c)) str"

definition hash :: "cstring \<Rightarrow> 64 word" where
  "hash str = hash_from 5381 str"

record file_data =
  file_name :: cstring
  file_buf :: "byte list"
  file_size :: int

record CacheEntry =
  ce_data :: nat
  in_use :: int
  ce_next :: "nat option"

record LRUEntry =
  le_entry :: nat
  le_next :: "nat option"

record LRUList =
  l_head :: "nat option"
  l_tail :: "nat option"
  l_size :: int

text \<open>
  The cache and the memory it refers to, by address. The table holds unused entries of which only the field
  \<^verbatim>\<open>next\<close> matters; \<open>table\<close> lists those. Addresses that were freed are not in the maps. The mutex of the
  cache makes each of the operations below one step.
\<close>

record Cache =
  table :: "nat option list"
  LRU :: LRUList
  c_size :: int
  capacity :: int
  max_cache_size :: int
  lnodes :: "nat \<Rightarrow> LRUEntry option"
  centries :: "nat \<Rightarrow> CacheEntry option"
  fdata :: "nat \<Rightarrow> file_data option"
  wbrk :: nat

definition at_addr :: "(nat \<Rightarrow> 'b option) \<Rightarrow> nat \<Rightarrow> 'b outcome" where
  "at_addr m a = (case m a of None \<Rightarrow> Crash MemFault | Some x \<Rightarrow> Ok x)"

definition non_null :: "nat option \<Rightarrow> nat outcome" where
  "non_null p = (case p of None \<Rightarrow> Crash MemFault | Some a \<Rightarrow> Ok a)"

definition set_le_next :: "Cache \<Rightarrow> nat \<Rightarrow> nat option \<Rightarrow> Cache outcome" where
  "set_le_next c p nx = and_then (at_addr (lnodes c) p) (\<lambda>n. Ok (c\<lparr>lnodes := (lnodes c)(p \<mapsto> n\<lparr>le_next := nx\<rparr>)\<rparr>))"

definition set_LRU :: "Cache \<Rightarrow> LRUList \<Rightarrow> Cache" where
  "set_LRU c l = c\<lparr>LRU := l\<rparr>"

definition free_lnode :: "Cache \<Rightarrow> nat \<Rightarrow> Cache outcome" where
  "free_lnode c p = and_then (at_addr (lnodes c) p) (\<lambda>_. Ok (c\<lparr>lnodes := (lnodes c)(p := None)\<rparr>))"

section \<open>The list of least recently used entries\<close>

text \<open>
  A loop over a list makes at most one step per address handed out so far; one that makes more has met
  an address twice and never ends.
\<close>

fun find_LRU_loop :: "nat \<Rightarrow> Cache \<Rightarrow> nat option \<Rightarrow> nat option \<Rightarrow> nat \<Rightarrow> (nat option \<times> nat option) outcome" where
  "find_LRU_loop 0 c prev current target = Crash Diverges"
| "find_LRU_loop (Suc fuel) c prev current target =
     (case current of None \<Rightarrow> Ok (None, prev)
      | Some p \<Rightarrow>
          and_then (at_addr (lnodes c) p) (\<lambda>n.
            if le_entry n = target then Ok (Some p, prev) else find_LRU_loop fuel c (Some p) (le_next n) target))"

definition find_in_LRU :: "Cache \<Rightarrow> nat \<Rightarrow> nat option outcome" where
  "find_in_LRU c target = and_then (find_LRU_loop (Suc (wbrk c)) c None (l_head (LRU c)) target) (\<lambda>(p, _). Ok p)"

definition find_in_LRU_with_prev :: "Cache \<Rightarrow> nat \<Rightarrow> (nat option \<times> nat option) outcome" where
  "find_in_LRU_with_prev c target = find_LRU_loop (Suc (wbrk c)) c None (l_head (LRU c)) target"

definition add_to_LRU :: "Cache \<Rightarrow> nat \<Rightarrow> Cache outcome" where
  "add_to_LRU c entry =
     (let node = wbrk c; l = LRU c;
          c = c\<lparr>lnodes := (lnodes c)(node \<mapsto> \<lparr>le_entry = entry, le_next = None\<rparr>), wbrk := Suc node\<rparr> in
      if l_head l = None then
        Ok (set_LRU c (l\<lparr>l_head := Some node, l_tail := Some node, l_size := l_size l + 1\<rparr>))
      else
        and_then (non_null (l_tail l)) (\<lambda>t.
        and_then (set_le_next c t (Some node)) (\<lambda>c.
          Ok (set_LRU c (l\<lparr>l_tail := Some node, l_size := l_size l + 1\<rparr>)))))"

definition LRU_move_head_to_end :: "Cache \<Rightarrow> Cache outcome" where
  "LRU_move_head_to_end c =
     (let l = LRU c in
      if l_size l \<le> 1 then Ok c
      else
        and_then (non_null (l_head l)) (\<lambda>old_head.
        and_then (at_addr (lnodes c) old_head) (\<lambda>n.
        and_then (non_null (l_tail l)) (\<lambda>t.
        and_then (set_le_next c t (Some old_head)) (\<lambda>c.
        and_then (set_le_next c old_head None) (\<lambda>c.
          Ok (set_LRU c (l\<lparr>l_head := le_next n, l_tail := Some old_head\<rparr>))))))))"

definition move_node_to_end :: "Cache \<Rightarrow> nat \<Rightarrow> Cache outcome" where
  "move_node_to_end c entry =
     (let l = LRU c in
      if l_size l \<le> 1 then Ok c
      else
        and_then (find_in_LRU_with_prev c entry) (\<lambda>(node, prev).
          case node of None \<Rightarrow> Ok c
          | Some n \<Rightarrow>
              if Some n = l_head l then LRU_move_head_to_end c
              else if Some n \<noteq> l_tail l then
                and_then (non_null prev) (\<lambda>pv.
                and_then (at_addr (lnodes c) n) (\<lambda>x.
                and_then (set_le_next c pv (le_next x)) (\<lambda>c.
                and_then (set_le_next c n None) (\<lambda>c.
                and_then (non_null (l_tail l)) (\<lambda>t.
                and_then (set_le_next c t (Some n)) (\<lambda>c.
                  Ok (set_LRU c (l\<lparr>l_tail := Some n\<rparr>))))))))
              else Ok c))"

definition pop_LRU :: "Cache \<Rightarrow> (nat \<times> Cache) outcome" where
  "pop_LRU c =
     (let l = LRU c in
      and_then (non_null (l_head l)) (\<lambda>old_head.
      and_then (at_addr (lnodes c) old_head) (\<lambda>n.
      and_then (set_le_next c old_head None) (\<lambda>c.
        Ok (old_head, set_LRU c (l\<lparr>l_head := le_next n, l_size := l_size l - 1\<rparr>))))))"

definition remove_from_LRU :: "Cache \<Rightarrow> nat \<Rightarrow> Cache outcome" where
  "remove_from_LRU c target =
     (let l = LRU c in
      if l_size l = 1 then
        and_then (non_null (l_head l)) (\<lambda>h.
        and_then (free_lnode c h) (\<lambda>c. Ok (set_LRU c (l\<lparr>l_head := None, l_tail := None, l_size := 0\<rparr>))))
      else
        and_then (find_LRU_loop (Suc (wbrk c)) c None (l_head l) target) (\<lambda>(current, prev).
          case current of None \<Rightarrow> Ok c
          | Some p \<Rightarrow>
              and_then (at_addr (lnodes c) p) (\<lambda>n.
              and_then
                (case prev of None \<Rightarrow> Ok (c, l\<lparr>l_head := le_next n\<rparr>)
                 | Some pv \<Rightarrow> and_then (set_le_next c pv (le_next n)) (\<lambda>c. Ok (c, l))) (\<lambda>(c, l).
              and_then (set_le_next c p None) (\<lambda>c.
              and_then (free_lnode c p) (\<lambda>c.
                Ok (set_LRU c (l\<lparr>l_tail := (if Some p = l_tail l then prev else l_tail l), l_size := l_size l - 1\<rparr>))))))))"

definition remove_node_from_LRU :: "Cache \<Rightarrow> nat \<Rightarrow> nat option \<Rightarrow> (nat option \<times> Cache) outcome" where
  "remove_node_from_LRU c target prev =
     (let l = LRU c in
      and_then
        (if l_size l = 1 then Ok (None, c, l\<lparr>l_head := None, l_tail := None\<rparr>)
         else
           case prev of None \<Rightarrow>
               and_then (non_null (l_head l)) (\<lambda>h.
               and_then (at_addr (lnodes c) h) (\<lambda>n.
               and_then (set_le_next c target None) (\<lambda>c.
                 Ok (le_next n, c, l\<lparr>l_head := le_next n\<rparr>))))
           | Some pv \<Rightarrow>
               and_then (at_addr (lnodes c) target) (\<lambda>n.
               and_then (set_le_next c pv (le_next n)) (\<lambda>c.
               and_then (set_le_next c target None) (\<lambda>c.
                 Ok (le_next n, c, l\<lparr>l_tail := (if Some target = l_tail l then prev else l_tail l)\<rparr>)))))
        (\<lambda>(ret, c, l).
      and_then (free_lnode c target) (\<lambda>c.
        Ok (ret, set_LRU c (l\<lparr>l_size := l_size l - 1\<rparr>)))))"

fun clear_LRU_loop :: "nat \<Rightarrow> Cache \<Rightarrow> nat option \<Rightarrow> Cache outcome" where
  "clear_LRU_loop 0 c head = Crash Diverges"
| "clear_LRU_loop (Suc fuel) c head =
     (case head of None \<Rightarrow> Ok c
      | Some p \<Rightarrow>
          and_then (at_addr (lnodes c) p) (\<lambda>n.
          and_then (free_lnode c p) (\<lambda>c. clear_LRU_loop fuel c (le_next n))))"

definition clear_LRU :: "Cache \<Rightarrow> Cache outcome" where
  "clear_LRU c =
     and_then (clear_LRU_loop (Suc (wbrk c)) c (l_head (LRU c))) (\<lambda>c.
       Ok (set_LRU c ((LRU c)\<lparr>l_head := None, l_tail := None, l_size := 0\<rparr>)))"

section \<open>The hash table\<close>

text \<open>The owner of a \<^verbatim>\<open>next\<close> field: an entry of the table or an allocated entry.\<close>

datatype cref = Slot nat | Entry nat

definition next_of :: "Cache \<Rightarrow> cref \<Rightarrow> nat option outcome" where
  "next_of c r =
     (case r of Slot k \<Rightarrow> if k < length (table c) then Ok (table c ! k) else Crash MemFault
      | Entry e \<Rightarrow> and_then (at_addr (centries c) e) (\<lambda>x. Ok (ce_next x)))"

definition set_next_of :: "Cache \<Rightarrow> cref \<Rightarrow> nat option \<Rightarrow> Cache outcome" where
  "set_next_of c r nx =
     (case r of Slot k \<Rightarrow> if k < length (table c) then Ok (c\<lparr>table := (table c)[k := nx]\<rparr>) else Crash MemFault
      | Entry e \<Rightarrow> and_then (at_addr (centries c) e) (\<lambda>x. Ok (c\<lparr>centries := (centries c)(e \<mapsto> x\<lparr>ce_next := nx\<rparr>)\<rparr>)))"

definition key_of :: "Cache \<Rightarrow> cstring \<Rightarrow> nat" where
  "key_of c filename = unat (hash filename mod word_of_int (capacity c))"

definition name_of :: "Cache \<Rightarrow> nat \<Rightarrow> cstring outcome" where
  "name_of c e = and_then (at_addr (centries c) e) (\<lambda>x. and_then (at_addr (fdata c) (ce_data x)) (\<lambda>d. Ok (file_name d)))"

fun find_name :: "nat \<Rightarrow> Cache \<Rightarrow> cref \<Rightarrow> cstring \<Rightarrow> nat option outcome" where
  "find_name 0 c r filename = Crash Diverges"
| "find_name (Suc fuel) c r filename =
     and_then (next_of c r) (\<lambda>nx.
       case nx of None \<Rightarrow> Ok None
       | Some e \<Rightarrow> and_then (name_of c e) (\<lambda>nm. if nm = filename then Ok (Some e) else find_name fuel c (Entry e) filename))"

definition cache_lookup :: "Cache \<Rightarrow> cstring \<Rightarrow> (nat option \<times> Cache) outcome" where
  "cache_lookup c filename =
     and_then (find_name (Suc (wbrk c)) c (Slot (key_of c filename)) filename) (\<lambda>hit.
       case hit of None \<Rightarrow> Ok (None, c)
       | Some e \<Rightarrow>
           and_then (at_addr (centries c) e) (\<lambda>x.
           let c = c\<lparr>centries := (centries c)(e \<mapsto> x\<lparr>in_use := in_use x + 1\<rparr>)\<rparr> in
           and_then (move_node_to_end c e) (\<lambda>c. Ok (Some e, c))))"

definition cache_exists :: "Cache \<Rightarrow> cstring \<Rightarrow> bool outcome" where
  "cache_exists c filename =
     and_then (find_name (Suc (wbrk c)) c (Slot (key_of c filename)) filename) (\<lambda>hit. Ok (hit \<noteq> None))"

fun find_prev :: "nat \<Rightarrow> Cache \<Rightarrow> cref \<Rightarrow> nat \<Rightarrow> cref option outcome" where
  "find_prev 0 c r target = Crash Diverges"
| "find_prev (Suc fuel) c r target =
     and_then (next_of c r) (\<lambda>nx.
       case nx of None \<Rightarrow> Ok None
       | Some e \<Rightarrow> if e = target then Ok (Some r) else find_prev fuel c (Entry e) target)"

definition remove_from_cache :: "Cache \<Rightarrow> nat \<Rightarrow> Cache outcome" where
  "remove_from_cache c target =
     and_then (name_of c target) (\<lambda>nm.
     and_then (find_prev (Suc (wbrk c)) c (Slot (key_of c nm)) target) (\<lambda>hit.
       case hit of None \<Rightarrow> Ok c
       | Some prev \<Rightarrow>
           and_then (next_of c (Entry target)) (\<lambda>nx.
           and_then (set_next_of c prev nx) (\<lambda>c.
           and_then (set_next_of c (Entry target) None) (\<lambda>c.
           and_then (at_addr (centries c) target) (\<lambda>x.
           and_then (at_addr (fdata c) (ce_data x)) (\<lambda>d.
             Ok (c\<lparr>c_size := c_size c - file_size d, centries := (centries c)(target := None)\<rparr>))))))))"

text \<open>
  Evicting entries nobody uses, from the least recently used on, until enough is freed. The loop removes the entries
  it passes or moves on, so it makes at most one step per entry.
\<close>

fun evict_loop :: "nat \<Rightarrow> Cache \<Rightarrow> nat option \<Rightarrow> nat option \<Rightarrow> 64 word \<Rightarrow> 64 word \<Rightarrow> (64 word \<times> Cache) outcome" where
  "evict_loop 0 c prev current evicted_amount amount_to_evict = Crash Diverges"
| "evict_loop (Suc fuel) c prev current evicted_amount amount_to_evict =
     (case current of None \<Rightarrow> Ok (evicted_amount, c)
      | Some p \<Rightarrow>
          and_then (at_addr (lnodes c) p) (\<lambda>n.
          and_then (at_addr (centries c) (le_entry n)) (\<lambda>x.
            if in_use x > 0 then evict_loop fuel c (Some p) (le_next n) evicted_amount amount_to_evict
            else
              and_then (at_addr (fdata c) (ce_data x)) (\<lambda>d.
              let evicted_amount = evicted_amount + word_of_int (file_size d) in
              and_then (remove_node_from_LRU c p prev) (\<lambda>(current, c).
              and_then (remove_from_cache c (le_entry n)) (\<lambda>c.
                if evicted_amount \<ge> amount_to_evict then Ok (evicted_amount, c)
                else evict_loop fuel c prev current evicted_amount amount_to_evict))))))"

definition cache_evict :: "Cache \<Rightarrow> 64 word \<Rightarrow> (64 word \<times> Cache) outcome" where
  "cache_evict c amount_to_evict = evict_loop (Suc (wbrk c)) c None (l_head (LRU c)) 0 amount_to_evict"

fun last_ref :: "nat \<Rightarrow> Cache \<Rightarrow> cref \<Rightarrow> cref outcome" where
  "last_ref 0 c r = Crash Diverges"
| "last_ref (Suc fuel) c r =
     and_then (next_of c r) (\<lambda>nx. case nx of None \<Rightarrow> Ok r | Some e \<Rightarrow> last_ref fuel c (Entry e))"

text \<open>\<open>append_entry\<close> is the last part of \<open>cache_insert\<close>, when there is room for the file.\<close>

definition append_entry :: "Cache \<Rightarrow> nat \<Rightarrow> file_data \<Rightarrow> Cache outcome" where
  "append_entry c file d =
     and_then (last_ref (Suc (wbrk c)) c (Slot (key_of c (file_name d)))) (\<lambda>r.
     let entry = wbrk c in
     and_then (set_next_of (c\<lparr>wbrk := Suc entry,
                 centries := (centries c)(entry \<mapsto> \<lparr>ce_data = file, in_use = 0, ce_next = None\<rparr>)\<rparr>) r (Some entry)) (\<lambda>c.
       add_to_LRU (c\<lparr>c_size := c_size c + file_size d\<rparr>) entry))"

definition cache_insert :: "Cache \<Rightarrow> nat \<Rightarrow> (int \<times> Cache) outcome" where
  "cache_insert c file =
     and_then (at_addr (fdata c) file) (\<lambda>d.
     and_then (cache_exists c (file_name d)) (\<lambda>ex.
       if ex then Ok (0, c)
       else if file_size d > max_cache_size c then Ok (0, c)
       else
         and_then
           (if c_size c + file_size d > max_cache_size c
            then and_then (cache_evict c (word_of_int (file_size d - (max_cache_size c - c_size c)))) (\<lambda>(_, c). Ok c)
            else Ok c) (\<lambda>c.
         if c_size c + file_size d > max_cache_size c then Ok (0, c)
         else and_then (append_entry c file d) (\<lambda>c. Ok (1, c)))))"

section \<open>Linked lists\<close>

text \<open>\<open>nchain f x ns y\<close>: following \<open>f\<close> from \<open>x\<close> one meets the nodes \<open>ns\<close> and then \<open>y\<close>.\<close>

primrec nchain :: "(nat \<Rightarrow> nat option option) \<Rightarrow> nat option \<Rightarrow> nat list \<Rightarrow> nat option \<Rightarrow> bool" where
  "nchain f x [] y \<longleftrightarrow> x = y"
| "nchain f x (a # as) y \<longleftrightarrow> x = Some a \<and> (\<exists>n. f a = Some n \<and> nchain f n as y)"

lemma nchain_append: "nchain f x (as @ bs) y \<longleftrightarrow> (\<exists>z. nchain f x as z \<and> nchain f z bs y)"
  by (induction as arbitrary: x) auto

lemma nchain_cong: "(\<And>a. a \<in> set as \<Longrightarrow> f a = g a) \<Longrightarrow> nchain f x as y = nchain g x as y"
  by (induction as arbitrary: x) auto

lemma nchain_upd [simp]: "a \<notin> set as \<Longrightarrow> nchain (f(a := v)) x as y = nchain f x as y"
  by (rule nchain_cong) auto

lemma nchain_head: "nchain f x ns None \<Longrightarrow> x = (case ns of [] \<Rightarrow> None | n # _ \<Rightarrow> Some n)"
  by (cases ns) auto

lemma nchain_head': "nchain f x ns None \<Longrightarrow> x = None \<longleftrightarrow> ns = []"
  by (cases ns) auto

lemma nchain_node: "nchain f x ns y \<Longrightarrow> a \<in> set ns \<Longrightarrow> f a \<noteq> None"
  by (induction ns arbitrary: x) auto

lemma nchain_redirect: "nchain f x (as @ [t]) y \<Longrightarrow> t \<notin> set as \<Longrightarrow> nchain (f(t \<mapsto> z)) x (as @ [t]) z"
  by (auto simp: nchain_append)

section \<open>The list of least recently used entries\<close>

definition lnx :: "Cache \<Rightarrow> nat \<Rightarrow> nat option option" where
  "lnx c p = map_option le_next (lnodes c p)"

definition lru_rep :: "Cache \<Rightarrow> nat list \<Rightarrow> bool" where
  "lru_rep c ns \<longleftrightarrow> distinct ns \<and> nchain (lnx c) (l_head (LRU c)) ns None \<and> l_size (LRU c) = int (length ns) \<and>
     (ns \<noteq> [] \<longrightarrow> l_tail (LRU c) = Some (last ns)) \<and> (\<forall>p \<in> set ns. p < wbrk c)"

definition entry_at :: "Cache \<Rightarrow> nat \<Rightarrow> nat" where
  "entry_at c p = le_entry (the (lnodes c p))"

text \<open>Operations on the list change it and its nodes' links only.\<close>

definition lru_change :: "Cache \<Rightarrow> Cache \<Rightarrow> bool" where
  "lru_change c c' \<longleftrightarrow> table c' = table c \<and> c_size c' = c_size c \<and> capacity c' = capacity c \<and> max_cache_size c' = max_cache_size c \<and>
     centries c' = centries c \<and> fdata c' = fdata c \<and> wbrk c' = wbrk c"

lemma lru_change_refl [simp]: "lru_change c c"
  by (simp add: lru_change_def)

lemma lru_length: "lru_rep c ns \<Longrightarrow> length ns \<le> wbrk c"
proof -
  assume r: "lru_rep c ns"
  then have "set ns \<subseteq> {..<wbrk c}" by (auto simp: lru_rep_def)
  then have "card (set ns) \<le> wbrk c" using card_mono [of "{..<wbrk c}" "set ns"] by simp
  with r show ?thesis by (simp add: lru_rep_def distinct_card)
qed

lemma lru_node:
  assumes "lru_rep c ns" and "p \<in> set ns"
  obtains n where "lnodes c p = Some n"
  using nchain_node [of "lnx c" "l_head (LRU c)" ns None p] assms by (auto simp: lru_rep_def lnx_def)

lemma set_le_next_eq: "lnodes c p = Some n \<Longrightarrow> set_le_next c p nx = Ok (c\<lparr>lnodes := (lnodes c)(p \<mapsto> n\<lparr>le_next := nx\<rparr>)\<rparr>)"
  by (simp add: set_le_next_def at_addr_def)

lemma lnx_upd [simp]: "lnx (c\<lparr>lnodes := (lnodes c)(p \<mapsto> n)\<rparr>) = (lnx c)(p \<mapsto> le_next n)" "lnx (c\<lparr>lnodes := (lnodes c)(p := None)\<rparr>) = (lnx c)(p := None)"
  by (auto simp: lnx_def fun_eq_iff)

lemma find_LRU_loop_rep:
  "nchain (lnx c) x ns None \<Longrightarrow> length ns < fuel \<Longrightarrow>
   find_LRU_loop fuel c pv x e =
     Ok (let us = takeWhile (\<lambda>p. entry_at c p \<noteq> e) ns; pv' = (if us = [] then pv else Some (last us)) in
         if us = ns then (None, pv') else (Some (ns ! length us), pv'))"
proof (induction ns arbitrary: x fuel pv)
  case Nil
  then show ?case by (cases fuel) auto
next
  case (Cons a ns)
  from Cons.prems(2) obtain f where f: "fuel = Suc f" "length ns < f" by (cases fuel) auto
  from Cons.prems(1) obtain n where n: "x = Some a" "lnodes c a = Some n" "nchain (lnx c) (le_next n) ns None"
    using lnx_def [of c a] by auto
  show ?case
  proof (cases "le_entry n = e")
    case True
    with n f show ?thesis by (simp add: at_addr_def entry_at_def)
  next
    case False
    then have "entry_at c a \<noteq> e" using n(2) by (simp add: entry_at_def)
    with False n f Cons.IH [OF n(3) f(2), of "Some a"] show ?thesis by (auto simp: at_addr_def Let_def)
  qed
qed

lemma find_in_LRU_found:
  assumes r: "lru_rep c (us @ p # vs)" and e: "entry_at c p = e" "\<forall>q \<in> set us. entry_at c q \<noteq> e"
  shows "find_LRU_loop (Suc (wbrk c)) c None (l_head (LRU c)) e = Ok (Some p, if us = [] then None else Some (last us))"
proof -
  have "takeWhile (\<lambda>q. entry_at c q \<noteq> e) (us @ p # vs) = us" using e by simp
  moreover have "length (us @ p # vs) < Suc (wbrk c)" using lru_length [OF r] by simp
  moreover have "nchain (lnx c) (l_head (LRU c)) (us @ p # vs) None" using r by (simp add: lru_rep_def)
  ultimately show ?thesis by (simp add: find_LRU_loop_rep Let_def nth_append del: find_LRU_loop.simps)
qed

lemma add_to_LRU_rep:
  assumes r: "lru_rep c ns"
  shows "\<exists>c'. add_to_LRU c e = Ok c' \<and> lru_rep c' (ns @ [wbrk c]) \<and> lru_change (c\<lparr>wbrk := Suc (wbrk c)\<rparr>) c' \<and>
    (\<forall>p \<in> set ns. entry_at c' p = entry_at c p) \<and> entry_at c' (wbrk c) = e"
proof -
  have new: "wbrk c \<notin> set ns" using r by (auto simp: lru_rep_def)
  have R: "distinct ns" "nchain (lnx c) (l_head (LRU c)) ns None" "l_size (LRU c) = int (length ns)" "\<forall>p \<in> set ns. p < wbrk c"
    using r by (simp_all add: lru_rep_def)
  show ?thesis
  proof (cases "ns = []")
    case True
    with R(2) have "l_head (LRU c) = None" by simp
    with True R show ?thesis by (simp add: add_to_LRU_def Let_def set_LRU_def lru_rep_def lru_change_def entry_at_def lnx_def)
  next
    case False
    then obtain as t where ns: "ns = as @ [t]" by (metis rev_exhaust)
    with r have tl: "l_tail (LRU c) = Some t" by (simp add: lru_rep_def)
    have hd: "l_head (LRU c) \<noteq> None" using nchain_head' [OF R(2)] False by simp
    from lru_node [OF r, of t] ns obtain n where n: "lnodes c t = Some n" by auto
    have tn: "t \<noteq> wbrk c" using new ns by auto
    let ?x = "\<lparr>le_entry = e, le_next = None\<rparr> :: LRUEntry"
    let ?f = "(lnx c)(wbrk c \<mapsto> None, t \<mapsto> Some (wbrk c))"
    have "nchain ((lnx c)(wbrk c \<mapsto> None)) (l_head (LRU c)) ns None" using R(2) new by simp
    then have "nchain ?f (l_head (LRU c)) ns (Some (wbrk c))"
      unfolding ns by (rule nchain_redirect) (use R(1) ns in simp)
    then have ch: "nchain ?f (l_head (LRU c)) (ns @ [wbrk c]) None" using tn by (auto simp: nchain_append)
    let ?c = "c\<lparr>lnodes := (lnodes c)(wbrk c \<mapsto> ?x, t \<mapsto> n\<lparr>le_next := Some (wbrk c)\<rparr>), wbrk := Suc (wbrk c),
        LRU := (LRU c)\<lparr>l_tail := Some (wbrk c), l_size := l_size (LRU c) + 1\<rparr>\<rparr>"
    have "add_to_LRU c e = Ok ?c"
      using hd tl n tn by (auto simp: add_to_LRU_def Let_def non_null_def set_le_next_def at_addr_def set_LRU_def)
    moreover have "lnx ?c = ?f" by (auto simp: lnx_def fun_eq_iff)
    then have "lru_rep ?c (ns @ [wbrk c])" using ch R new by (auto simp: lru_rep_def less_Suc_eq)
    moreover have "\<forall>p \<in> set ns. entry_at ?c p = entry_at c p" using n new by (auto simp: entry_at_def)
    moreover have "entry_at ?c (wbrk c) = e" using tn by (simp add: entry_at_def)
    ultimately show ?thesis by (intro exI [of _ ?c]) (simp add: lru_change_def)
  qed
qed

lemma lru_repI:
  assumes "lru_change c c'" and "\<forall>p \<in> set ms. p < wbrk c" and "distinct ms" and "nchain (lnx c') (l_head (LRU c')) ms None"
    and "l_size (LRU c') = int (length ms)" and "ms \<noteq> [] \<Longrightarrow> l_tail (LRU c') = Some (last ms)"
  shows "lru_rep c' ms"
  using assms by (simp add: lru_rep_def lru_change_def)

lemma move_head_rep:
  assumes r: "lru_rep c ns"
  shows "\<exists>c'. LRU_move_head_to_end c = Ok c' \<and> lru_rep c' (rotate1 ns) \<and> lru_change c c' \<and> (\<forall>p. entry_at c' p = entry_at c p)"
proof (cases "length ns \<le> 1")
  case True
  then have "rotate1 ns = ns" by (cases ns) auto
  moreover have "LRU_move_head_to_end c = Ok c" using True r by (simp add: LRU_move_head_to_end_def lru_rep_def Let_def)
  ultimately show ?thesis using r by (intro exI [of _ c]) simp
next
  case False
  then obtain a bs t where ns: "ns = a # bs @ [t]" by (metis One_nat_def length_0_conv le_Suc_eq list.exhaust list.size(3,4) rev_exhaust add.commute le_zero_eq plus_1_eq_Suc)
  have R: "distinct ns" "nchain (lnx c) (l_head (LRU c)) ns None" "l_size (LRU c) = int (length ns)" "\<forall>p \<in> set ns. p < wbrk c" "l_tail (LRU c) = Some t"
    using r ns by (simp_all add: lru_rep_def)
  from lru_node [OF r, of a] ns obtain x where x: "lnodes c a = Some x" by auto
  from lru_node [OF r, of t] ns obtain y where y: "lnodes c t = Some y" by auto
  have at: "a \<noteq> t" "a \<notin> set (bs @ [t])" "t \<notin> set bs" using R(1) ns by auto
  have hd: "l_head (LRU c) = Some a" "nchain (lnx c) (le_next x) (bs @ [t]) None" using R(2) x by (simp_all add: ns lnx_def)
  let ?f = "(lnx c)(t \<mapsto> Some a, a \<mapsto> None)"
  have "nchain ((lnx c)(t \<mapsto> Some a)) (le_next x) (bs @ [t]) (Some a)" by (rule nchain_redirect [OF hd(2) at(3)])
  then have "nchain ?f (le_next x) (bs @ [t]) (Some a)" using at by simp
  then have ch: "nchain ?f (le_next x) (bs @ [t] @ [a]) None" using at by (auto simp: nchain_append)
  let ?c = "c\<lparr>lnodes := (lnodes c)(t \<mapsto> y\<lparr>le_next := Some a\<rparr>, a \<mapsto> x\<lparr>le_next := None\<rparr>),
      LRU := (LRU c)\<lparr>l_head := le_next x, l_tail := Some a\<rparr>\<rparr>"
  have "LRU_move_head_to_end c = Ok ?c"
    using R(3) hd R(5) x y at ns by (simp add: LRU_move_head_to_end_def Let_def non_null_def at_addr_def set_le_next_def set_LRU_def)
  moreover have "lnx ?c = ?f" by (auto simp: lnx_def fun_eq_iff)
  then have "lru_rep ?c (rotate1 ns)"
    by (intro lru_repI [of c]) (use ch R ns in \<open>auto simp: lru_change_def\<close>)
  moreover have "\<forall>p. entry_at ?c p = entry_at c p" using x y by (simp add: entry_at_def)
  ultimately show ?thesis by (intro exI [of _ ?c]) (simp add: lru_change_def)
qed

text \<open>Moving the node of an entry to the end.\<close>

lemma lru_move_node_rep:
  assumes r: "lru_rep c ns" and ns: "ns = us @ p # vs" and e: "entry_at c p = e" "\<forall>q \<in> set us. entry_at c q \<noteq> e"
  shows "\<exists>c'. move_node_to_end c e = Ok c' \<and> lru_rep c' (us @ vs @ [p]) \<and> lru_change c c' \<and> (\<forall>q. entry_at c' q = entry_at c q)"
proof (cases "length ns \<le> 1")
  case True
  with ns have "us = []" "vs = []" by auto
  with True r ns show ?thesis by (intro exI [of _ c]) (simp add: move_node_to_end_def lru_rep_def Let_def)
next
  case False
  have R: "distinct ns" "nchain (lnx c) (l_head (LRU c)) ns None" "l_size (LRU c) = int (length ns)" "\<forall>p \<in> set ns. p < wbrk c" "l_tail (LRU c) = Some (last ns)"
    using r ns by (simp_all add: lru_rep_def)
  have find: "find_in_LRU_with_prev c e = Ok (Some p, if us = [] then None else Some (last us))"
    unfolding find_in_LRU_with_prev_def using find_in_LRU_found [OF _ e, of vs] r ns by simp
  have size: "\<not> l_size (LRU c) \<le> 1" using False R(3) by simp
  show ?thesis
  proof (cases "us = []")
    case True
    then have "l_head (LRU c) = Some p" using R(2) ns by simp
    then have "move_node_to_end c e = LRU_move_head_to_end c" using find size by (simp add: move_node_to_end_def Let_def)
    with move_head_rep [OF r] ns True show ?thesis by simp
  next
    case us: False
    then obtain as pv where us': "us = as @ [pv]" by (metis rev_exhaust)
    have nh: "Some p \<noteq> l_head (LRU c)" using nchain_head [OF R(2)] R(1) ns us' by (cases as) auto
    show ?thesis
    proof (cases "vs = []")
      case True
      then have "move_node_to_end c e = Ok c" using find size nh R(5) ns by (simp add: move_node_to_end_def Let_def)
      with r ns True show ?thesis by (intro exI [of _ c]) simp
    next
      case False
      then obtain bs t where vs: "vs = bs @ [t]" by (metis rev_exhaust)
      with R(1) ns us' have d: "p \<noteq> t" "pv \<noteq> t" "p \<noteq> pv" "t \<notin> set bs" "p \<notin> set bs" "pv \<notin> set bs" "p \<notin> set as" "pv \<notin> set as" "t \<notin> set as" by auto
      have mem: "pv \<in> set ns" "p \<in> set ns" "t \<in> set ns" using ns us' vs by auto
      obtain y where y: "lnodes c pv = Some y" using lru_node [OF r mem(1)] .
      obtain x where x: "lnodes c p = Some x" using lru_node [OF r mem(2)] .
      obtain z where z: "lnodes c t = Some z" using lru_node [OF r mem(3)] .
      let ?f = "(lnx c)(pv \<mapsto> le_next x, p \<mapsto> None, t \<mapsto> Some p)"
      from R(2) have ch: "nchain (lnx c) (l_head (LRU c)) (as @ [pv]) (Some p)" "nchain (lnx c) (le_next x) (bs @ [t]) None"
        using x by (auto simp: ns us' vs nchain_append lnx_def)
      have "nchain ((lnx c)(pv \<mapsto> le_next x)) (l_head (LRU c)) (as @ [pv]) (le_next x)" by (rule nchain_redirect [OF ch(1)]) (use d in simp)
      then have c1: "nchain ?f (l_head (LRU c)) (as @ [pv]) (le_next x)" using d by simp
      have "nchain ((lnx c)(t \<mapsto> Some p)) (le_next x) (bs @ [t]) (Some p)" by (rule nchain_redirect [OF ch(2)]) (use d in simp)
      moreover have "nchain ?f (le_next x) (bs @ [t]) (Some p) = nchain ((lnx c)(t \<mapsto> Some p)) (le_next x) (bs @ [t]) (Some p)"
        by (rule nchain_cong) (use d in auto)
      ultimately have c2: "nchain ?f (le_next x) (bs @ [t]) (Some p)" by simp
      have c3: "nchain ?f (Some p) [p] None" using d by simp
      have all: "nchain ?f (l_head (LRU c)) (us @ vs @ [p]) None"
        unfolding us' vs using c1 c2 c3 unfolding nchain_append by blast
      let ?c = "c\<lparr>lnodes := (lnodes c)(pv \<mapsto> y\<lparr>le_next := le_next x\<rparr>, p \<mapsto> x\<lparr>le_next := None\<rparr>, t \<mapsto> z\<lparr>le_next := Some p\<rparr>),
          LRU := (LRU c)\<lparr>l_tail := Some p\<rparr>\<rparr>"
      have "move_node_to_end c e = Ok ?c"
        using find size nh R(5) x y z d ns us' vs by (simp add: move_node_to_end_def Let_def non_null_def at_addr_def set_le_next_def set_LRU_def)
      moreover have "lnx ?c = ?f" by (auto simp: lnx_def fun_eq_iff)
      then have "lru_rep ?c (us @ vs @ [p])"
        by (intro lru_repI [of c]) (use all R ns in \<open>auto simp: lru_change_def\<close>)
      moreover have "\<forall>q. entry_at ?c q = entry_at c q" using x y z by (simp add: entry_at_def)
      ultimately show ?thesis by (intro exI [of _ ?c]) (simp add: lru_change_def)
    qed
  qed
qed

text \<open>Taking a node out of the list.\<close>

lemma remove_node_rep:
  assumes r: "lru_rep c (us @ p # vs)"
  shows "\<exists>c'. remove_node_from_LRU c p (if us = [] then None else Some (last us)) = Ok (if vs = [] then None else Some (hd vs), c') \<and>
    lru_rep c' (us @ vs) \<and> lru_change c c' \<and> (\<forall>q \<in> set (us @ vs). entry_at c' q = entry_at c q)"
proof -
  let ?ns = "us @ p # vs"
  have R: "distinct ?ns" "nchain (lnx c) (l_head (LRU c)) ?ns None" "l_size (LRU c) = int (length ?ns)" "\<forall>p \<in> set ?ns. p < wbrk c" "l_tail (LRU c) = Some (last ?ns)"
    using r by (simp_all add: lru_rep_def)
  obtain x where x: "lnodes c p = Some x" using lru_node [OF r, of p] by auto
  from R(2) have ch: "nchain (lnx c) (l_head (LRU c)) us (Some p)" "nchain (lnx c) (le_next x) vs None" using x by (auto simp: nchain_append lnx_def)
  have nx: "le_next x = (if vs = [] then None else Some (hd vs))" using nchain_head [OF ch(2)] by (cases vs) auto
  have d: "p \<notin> set us" "p \<notin> set vs" "distinct (us @ vs)" using R(1) by auto
  show ?thesis
  proof (cases "length ?ns = 1")
    case True
    then have e: "us = []" "vs = []" by auto
    let ?c = "c\<lparr>lnodes := (lnodes c)(p := None), LRU := (LRU c)\<lparr>l_head := None, l_tail := None, l_size := l_size (LRU c) - 1\<rparr>\<rparr>"
    have "remove_node_from_LRU c p None = Ok (None, ?c)"
      using True R(3) x by (simp add: remove_node_from_LRU_def Let_def free_lnode_def at_addr_def set_LRU_def)
    moreover have "lru_rep ?c []" using R(3) e by (simp add: lru_rep_def)
    ultimately show ?thesis using e by (intro exI [of _ ?c]) (simp add: lru_change_def)
  next
    case False
    then have size: "l_size (LRU c) \<noteq> 1" unfolding R(3) by (metis of_nat_eq_1_iff)
    show ?thesis
    proof (cases "us = []")
      case True
      then have hd: "l_head (LRU c) = Some p" using ch(1) by simp
      let ?c = "c\<lparr>lnodes := (lnodes c)(p := None), LRU := (LRU c)\<lparr>l_head := le_next x, l_size := l_size (LRU c) - 1\<rparr>\<rparr>"
      have "remove_node_from_LRU c p None = Ok (le_next x, ?c)"
        using size hd x by (simp add: remove_node_from_LRU_def Let_def free_lnode_def at_addr_def set_LRU_def non_null_def set_le_next_def)
      moreover have "lnx ?c = (lnx c)(p := None)" by (auto simp: lnx_def fun_eq_iff)
      then have "lru_rep ?c vs"
        by (intro lru_repI [of c]) (use ch(2) d R True in \<open>auto simp: lru_change_def split: if_splits\<close>)
      moreover have "\<forall>q \<in> set vs. entry_at ?c q = entry_at c q" using d by (auto simp: entry_at_def)
      ultimately show ?thesis using True nx by (intro exI [of _ ?c]) (simp add: lru_change_def)
    next
      case us: False
      then obtain as pv where us': "us = as @ [pv]" by (metis rev_exhaust)
      with R(1) have d': "p \<noteq> pv" "pv \<notin> set as" "pv \<notin> set vs" by auto
      obtain y where y: "lnodes c pv = Some y" using lru_node [OF r, of pv] us' by auto
      let ?f = "(lnx c)(pv \<mapsto> le_next x, p := None)"
      have "nchain ((lnx c)(pv \<mapsto> le_next x)) (l_head (LRU c)) us (le_next x)"
        unfolding us' by (rule nchain_redirect [OF ch(1) [unfolded us'] d'(2)])
      then have "nchain ?f (l_head (LRU c)) us (le_next x)" using d by simp
      moreover have "nchain ?f (le_next x) vs None" using ch(2) d d' by simp
      ultimately have all: "nchain ?f (l_head (LRU c)) (us @ vs) None" by (auto simp: nchain_append)
      let ?c = "c\<lparr>lnodes := (lnodes c)(pv \<mapsto> y\<lparr>le_next := le_next x\<rparr>, p := None),
          LRU := (LRU c)\<lparr>l_tail := (if Some p = l_tail (LRU c) then Some pv else l_tail (LRU c)), l_size := l_size (LRU c) - 1\<rparr>\<rparr>"
      have "remove_node_from_LRU c p (Some pv) = Ok (le_next x, ?c)"
        using size x y d' by (simp add: remove_node_from_LRU_def Let_def free_lnode_def at_addr_def set_LRU_def non_null_def set_le_next_def)
      moreover have "lnx ?c = ?f" by (auto simp: lnx_def fun_eq_iff)
      then have "lru_rep ?c (us @ vs)"
        by (intro lru_repI [of c]) (use all d R us' in \<open>auto simp: lru_change_def split: if_splits\<close>)
      moreover have "\<forall>q \<in> set (us @ vs). entry_at ?c q = entry_at c q" using d y by (auto simp: entry_at_def)
      ultimately show ?thesis using us us' nx by (intro exI [of _ ?c]) (simp add: lru_change_def)
    qed
  qed
qed

section \<open>The hash table\<close>

definition cnx :: "Cache \<Rightarrow> nat \<Rightarrow> nat option option" where
  "cnx c e = map_option ce_next (centries c e)"

definition table_rep :: "Cache \<Rightarrow> (nat \<Rightarrow> nat list) \<Rightarrow> bool" where
  "table_rep c B \<longleftrightarrow> (\<forall>k < length (table c). distinct (B k) \<and> nchain (cnx c) (table c ! k) (B k) None) \<and>
     (\<forall>j k. j \<noteq> k \<longrightarrow> set (B j) \<inter> set (B k) = {}) \<and> (\<forall>k. \<forall>e \<in> set (B k). e < wbrk c) \<and> (\<forall>k \<ge> length (table c). B k = [])"

text \<open>The owner of the last link after the entries \<open>us\<close> of a bucket.\<close>

definition ref_of :: "nat \<Rightarrow> nat list \<Rightarrow> cref" where
  "ref_of k us = (if us = [] then Slot k else Entry (last us))"

lemma ref_of_simps [simp]: "ref_of k [] = Slot k" "ref_of k (us @ [e]) = Entry e"
  by (simp_all add: ref_of_def)

lemma table_repD:
  assumes "table_rep c B" and "k < length (table c)"
  shows "distinct (B k)" "nchain (cnx c) (table c ! k) (B k) None" "length (B k) \<le> wbrk c"
proof -
  show d: "distinct (B k)" and "nchain (cnx c) (table c ! k) (B k) None" using assms by (simp_all add: table_rep_def)
  have "set (B k) \<subseteq> {..<wbrk c}" using assms by (auto simp: table_rep_def)
  then show "length (B k) \<le> wbrk c" using card_mono [of "{..<wbrk c}" "set (B k)"] distinct_card [OF d] by simp
qed

lemma next_of_ref:
  assumes "k < length (table c)" and "nchain (cnx c) (table c ! k) (us @ vs) None"
  shows "next_of c (ref_of k us) = Ok (case vs of [] \<Rightarrow> None | e # _ \<Rightarrow> Some e)"
proof (cases us rule: rev_cases)
  case Nil
  with assms nchain_head [of "cnx c" "table c ! k" vs] show ?thesis by (simp add: next_of_def)
next
  case (snoc as e)
  with assms(2) obtain x where x: "centries c e = Some x" "nchain (cnx c) (ce_next x) vs None"
    using cnx_def [of c e] by (auto simp: nchain_append)
  with snoc nchain_head [OF x(2)] show ?thesis by (simp add: next_of_def at_addr_def)
qed

definition edata :: "Cache \<Rightarrow> nat \<Rightarrow> file_data" where
  "edata c e = the (fdata c (ce_data (the (centries c e))))"

definition euse :: "Cache \<Rightarrow> nat \<Rightarrow> int" where
  "euse c e = in_use (the (centries c e))"

definition ptr :: "Cache \<Rightarrow> nat \<Rightarrow> nat" where
  "ptr c e = ce_data (the (centries c e))"

definition has_data :: "Cache \<Rightarrow> nat \<Rightarrow> bool" where
  "has_data c e \<longleftrightarrow> (\<exists>x. centries c e = Some x \<and> fdata c (ce_data x) \<noteq> None)"

lemma name_of_data: "has_data c e \<Longrightarrow> name_of c e = Ok (file_name (edata c e))"
  by (auto simp: has_data_def name_of_def at_addr_def edata_def)

lemma find_name_rep:
  "k < length (table c) \<Longrightarrow> nchain (cnx c) (table c ! k) (us @ vs) None \<Longrightarrow> \<forall>e \<in> set vs. has_data c e \<Longrightarrow> length vs < fuel \<Longrightarrow>
   find_name fuel c (ref_of k us) fn = Ok (find (\<lambda>e. file_name (edata c e) = fn) vs)"
proof (induction vs arbitrary: us fuel)
  case Nil
  then obtain f where "fuel = Suc f" by (cases fuel) auto
  with next_of_ref [OF Nil(1,2)] show ?case by simp
next
  case (Cons e vs)
  from Cons.prems(4) obtain f where f: "fuel = Suc f" "length vs < f" by (cases fuel) auto
  from Cons.IH [of "us @ [e]" f] Cons.prems f next_of_ref [OF Cons.prems(1,2)] name_of_data [of c e] show ?case by simp
qed

lemma find_prev_rep:
  "k < length (table c) \<Longrightarrow> nchain (cnx c) (table c ! k) (us @ vs) None \<Longrightarrow> length vs < fuel \<Longrightarrow>
   find_prev fuel c (ref_of k us) e = Ok (if e \<in> set vs then Some (ref_of k (us @ takeWhile (\<lambda>x. x \<noteq> e) vs)) else None)"
proof (induction vs arbitrary: us fuel)
  case Nil
  then obtain f where "fuel = Suc f" by (cases fuel) auto
  with next_of_ref [OF Nil(1,2)] show ?case by simp
next
  case (Cons a vs)
  from Cons.prems(3) obtain f where f: "fuel = Suc f" "length vs < f" by (cases fuel) auto
  from Cons.IH [of "us @ [a]" f] Cons.prems f next_of_ref [OF Cons.prems(1,2)] show ?case by auto
qed

lemma last_ref_rep:
  "k < length (table c) \<Longrightarrow> nchain (cnx c) (table c ! k) (us @ vs) None \<Longrightarrow> length vs < fuel \<Longrightarrow>
   last_ref fuel c (ref_of k us) = Ok (ref_of k (us @ vs))"
proof (induction vs arbitrary: us fuel)
  case Nil
  then obtain f where "fuel = Suc f" by (cases fuel) auto
  with next_of_ref [OF Nil(1,2)] show ?case by simp
next
  case (Cons a vs)
  from Cons.prems(3) obtain f where f: "fuel = Suc f" "length vs < f" by (cases fuel) auto
  from Cons.IH [of "us @ [a]" f] Cons.prems f next_of_ref [OF Cons.prems(1,2)] show ?case by simp
qed

text \<open>Redirecting the link after a prefix of a bucket.\<close>

definition link_change :: "Cache \<Rightarrow> Cache \<Rightarrow> bool" where
  "link_change c c' \<longleftrightarrow> LRU c' = LRU c \<and> lnodes c' = lnodes c \<and> c_size c' = c_size c \<and> capacity c' = capacity c \<and>
     max_cache_size c' = max_cache_size c \<and> fdata c' = fdata c \<and> wbrk c' = wbrk c \<and> length (table c') = length (table c) \<and>
     (\<forall>e. map_option (\<lambda>x. (ce_data x, in_use x)) (centries c' e) = map_option (\<lambda>x. (ce_data x, in_use x)) (centries c e))"

lemma set_next_ref:
  assumes k: "k < length (table c)" and ch: "nchain (cnx c) (table c ! k) us z" and d: "distinct us"
  shows "\<exists>c'. set_next_of c (ref_of k us) nx = Ok c' \<and> nchain (cnx c') (table c' ! k) us nx \<and> link_change c c' \<and>
    (\<forall>e. e \<notin> set us \<longrightarrow> centries c' e = centries c e) \<and> (\<forall>j. j \<noteq> k \<longrightarrow> table c' ! j = table c ! j) \<and>
    (us = [] \<longrightarrow> centries c' = centries c)"
proof (cases us rule: rev_cases)
  case Nil
  let ?c = "c\<lparr>table := (table c)[k := nx]\<rparr>"
  from Nil k have "set_next_of c (ref_of k us) nx = Ok ?c" by (simp add: set_next_of_def)
  with Nil k show ?thesis by (intro exI [of _ ?c]) (simp add: link_change_def)
next
  case (snoc as e)
  with ch obtain x where x: "centries c e = Some x" using cnx_def [of c e] by (auto simp: nchain_append)
  let ?c = "c\<lparr>centries := (centries c)(e \<mapsto> x\<lparr>ce_next := nx\<rparr>)\<rparr>"
  have "set_next_of c (ref_of k us) nx = Ok ?c" using snoc x by (simp add: set_next_of_def at_addr_def)
  moreover have f: "cnx ?c = (cnx c)(e \<mapsto> nx)" by (auto simp: cnx_def fun_eq_iff)
  have "nchain (cnx ?c) (table ?c ! k) us nx" unfolding f snoc using nchain_redirect [OF ch [unfolded snoc]] d snoc by simp
  ultimately show ?thesis using snoc x by (intro exI [of _ ?c]) (simp add: link_change_def)
qed

lemma link_change_entry:
  assumes "link_change c c'"
  shows "euse c' e = euse c e" "edata c' e = edata c e" "has_data c' e = has_data c e" "ptr c' e = ptr c e" "centries c' e = None \<longleftrightarrow> centries c e = None"
proof -
  from assms have e: "map_option (\<lambda>x. (ce_data x, in_use x)) (centries c' e) = map_option (\<lambda>x. (ce_data x, in_use x)) (centries c e)"
    and f: "fdata c' = fdata c" by (simp_all add: link_change_def)
  show "centries c' e = None \<longleftrightarrow> centries c e = None" using e by (cases "centries c e"; cases "centries c' e") auto
  show "euse c' e = euse c e" "edata c' e = edata c e" "has_data c' e = has_data c e" "ptr c' e = ptr c e"
    using e f by (cases "centries c e"; cases "centries c' e"; auto simp: euse_def edata_def has_data_def ptr_def)+
qed

end
