(* ===== verification/Web_CacheInv.thy ===== *)
theory Web_CacheInv
  imports Web_Cache
begin

text \<open>
  The invariant of the file cache (table, use order, names and sizes agree) and the effect of lookup, eviction and insertion on the list of
  entries.
\<close>

abbreviation fname :: "Cache \<Rightarrow> nat \<Rightarrow> cstring" where
  "fname c e \<equiv> file_name (edata c e)"

abbreviation fsize :: "Cache \<Rightarrow> nat \<Rightarrow> int" where
  "fsize c e \<equiv> file_size (edata c e)"

text \<open>Nothing but the table, its links and the size of the cache changes; the entries of \<open>S\<close> keep their data and use counts.\<close>

definition table_change :: "nat set \<Rightarrow> Cache \<Rightarrow> Cache \<Rightarrow> bool" where
  "table_change S c c' \<longleftrightarrow> LRU c' = LRU c \<and> lnodes c' = lnodes c \<and> capacity c' = capacity c \<and>
     max_cache_size c' = max_cache_size c \<and> fdata c' = fdata c \<and> wbrk c' = wbrk c \<and> length (table c') = length (table c) \<and>
     (\<forall>e \<in> S. euse c' e = euse c e \<and> edata c' e = edata c e \<and> has_data c' e = has_data c e \<and> ptr c' e = ptr c e)"

lemma table_rep_sub:
  assumes "table_rep c B" and "\<And>k. set (B' k) \<subseteq> set (B k)" and "length (table c') = length (table c)" and "wbrk c' = wbrk c"
    and "\<And>k. k < length (table c) \<Longrightarrow> distinct (B' k) \<and> nchain (cnx c') (table c' ! k) (B' k) None"
  shows "table_rep c' B'"
  unfolding table_rep_def
proof (intro conjI allI impI ballI)
  fix j k :: nat assume "j \<noteq> k"
  with assms(1) have "set (B j) \<inter> set (B k) = {}" by (simp add: table_rep_def)
  with assms(2) [of j] assms(2) [of k] show "set (B' j) \<inter> set (B' k) = {}" by blast
next
  fix k e assume "e \<in> set (B' k)"
  with assms(2) [of k] have "e \<in> set (B k)" by blast
  with assms(1,4) show "e < wbrk c'" by (simp add: table_rep_def)
next
  fix k assume "length (table c') \<le> k"
  with assms(1,3) have "B k = []" by (simp add: table_rep_def)
  with assms(2) [of k] show "B' k = []" by simp
qed (use assms(3,5) in auto)

lemma remove_from_cache_rep:
  assumes t: "table_rep c B" and k: "k = key_of c (fname c e)" "k < length (table c)" and e: "e \<in> set (B k)" "has_data c e"
  shows "\<exists>c'. remove_from_cache c e = Ok c' \<and> table_rep c' (B(k := remove1 e (B k))) \<and> c_size c' = c_size c - fsize c e \<and>
    table_change (- {e}) c c'"
proof -
  note D = table_repD [OF t k(2)]
  from e(1) obtain us ws where B: "B k = us @ e # ws" "e \<notin> set us" by (meson split_list_first)
  then have rm: "remove1 e (B k) = us @ ws" by (simp add: remove1_append)
  have d: "distinct us" "distinct ws" "set us \<inter> set ws = {}" "e \<notin> set ws" using D(1) B by auto
  from D(2) obtain x where x: "centries c e = Some x" "nchain (cnx c) (table c ! k) us (Some e)" "nchain (cnx c) (ce_next x) ws None"
    using cnx_def [of c e] by (auto simp: B nchain_append)
  have "takeWhile (\<lambda>x. x \<noteq> e) (us @ e # ws) = us" using B(2) by (subst takeWhile_append2) auto
  then have "find_prev (Suc (wbrk c)) c (Slot k) e = Ok (Some (ref_of k us))"
    using find_prev_rep [OF k(2), of "[]" "B k" "Suc (wbrk c)" e] D B e(1) by (simp del: find_prev.simps)
  moreover have "next_of c (Entry e) = Ok (ce_next x)" using x(1) by (simp add: next_of_def at_addr_def)
  moreover obtain c1 where c1: "set_next_of c (ref_of k us) (ce_next x) = Ok c1" "nchain (cnx c1) (table c1 ! k) us (ce_next x)" "link_change c c1"
    "\<forall>e. e \<notin> set us \<longrightarrow> centries c1 e = centries c e" "\<forall>j. j \<noteq> k \<longrightarrow> table c1 ! j = table c ! j"
    using set_next_ref [OF k(2) x(2) d(1), of "ce_next x"] by blast
  moreover have x1: "centries c1 e = Some x" using c1(4) B(2) x(1) by simp
  moreover have f1: "fdata c1 = fdata c" using c1(3) by (simp add: link_change_def)
  moreover obtain fd where fd: "fdata c (ce_data x) = Some fd" using e(2) x(1) by (auto simp: has_data_def)
  moreover have fd': "edata c e = fd" using fd x(1) by (simp add: edata_def)
  let ?c = "c1\<lparr>c_size := c_size c1 - file_size fd, centries := (centries c1)(e := None)\<rparr>"
  have "set_next_of c1 (Entry e) None = Ok (c1\<lparr>centries := (centries c1)(e \<mapsto> x\<lparr>ce_next := None\<rparr>)\<rparr>)"
    using x1 by (simp add: set_next_of_def at_addr_def)
  ultimately have ok: "remove_from_cache c e = Ok ?c"
    using name_of_data [OF e(2)] k(1) by (simp add: remove_from_cache_def at_addr_def)
  have cn: "cnx ?c = (cnx c1)(e := None)" by (auto simp: cnx_def fun_eq_iff)
  have "nchain (cnx c1) (ce_next x) ws None = nchain (cnx c) (ce_next x) ws None"
    by (rule nchain_cong) (use c1(4) d in \<open>auto simp: cnx_def\<close>)
  with x(3) c1(2) have chk: "nchain (cnx c1) (table c1 ! k) (us @ ws) None" by (auto simp: nchain_append)
  have chj: "nchain (cnx c1) (table c1 ! j) (B j) None" if "j < length (table c)" "j \<noteq> k" for j
  proof -
    have "set (B j) \<inter> set (B k) = {}" using t that by (auto simp: table_rep_def)
    then have "nchain (cnx c1) (table c ! j) (B j) None = nchain (cnx c) (table c ! j) (B j) None"
      by (intro nchain_cong) (use c1(4) B in \<open>auto simp: cnx_def\<close>)
    with c1(5) that t show ?thesis by (simp add: table_rep_def)
  qed
  have nj: "e \<notin> set (B j)" if "j \<noteq> k" for j using t that e(1) by (auto simp: table_rep_def)
  have len: "length (table c1) = length (table c)" "wbrk c1 = wbrk c" "c_size c1 = c_size c" using c1(3) by (simp_all add: link_change_def)
  have "table_rep ?c (B(k := remove1 e (B k)))"
    unfolding rm
  proof (rule table_rep_sub [OF t])
    fix j assume "j < length (table c)"
    then show "distinct ((B(k := us @ ws)) j) \<and> nchain (cnx ?c) (table ?c ! j) ((B(k := us @ ws)) j) None"
      unfolding cn using chk chj [of j] nj [of j] d B(2) t by (auto simp: table_rep_def)
  qed (use B len in auto)
  moreover have "table_change (- {e}) c ?c"
    using c1(3) link_change_entry [OF c1(3)] unfolding table_change_def link_change_def
    by (auto simp: euse_def edata_def has_data_def ptr_def)
  ultimately show ?thesis using ok len fd' by auto
qed

section \<open>The invariant of the cache\<close>

text \<open>
  The entries \<open>es\<close>, from the least to the most recently used: each has its data, no name occurs
  twice, and the size of the cache is the sum of the sizes of the files and within the limit.
\<close>

definition entries_ok :: "Cache \<Rightarrow> nat list \<Rightarrow> bool" where
  "entries_ok c es \<longleftrightarrow> distinct es \<and> (\<forall>e \<in> set es. has_data c e \<and> 0 \<le> fsize c e \<and> 0 \<le> euse c e) \<and> inj_on (fname c) (set es) \<and>
     c_size c = sum_list (map (fsize c) es) \<and> c_size c \<le> max_cache_size c \<and> max_cache_size c < 2 ^ 31 \<and>
     capacity c = int (length (table c)) \<and> 0 < capacity c \<and> capacity c < 2 ^ 63"

definition cache_parts :: "Cache \<Rightarrow> nat list \<Rightarrow> (nat \<Rightarrow> nat list) \<Rightarrow> bool" where
  "cache_parts c ns B \<longleftrightarrow> lru_rep c ns \<and> table_rep c B \<and> entries_ok c (map (entry_at c) ns) \<and>
     (\<Union>k. set (B k)) = entry_at c ` set ns \<and> (\<forall>k. \<forall>e \<in> set (B k). key_of c (fname c e) = k)"

definition cache_ok :: "Cache \<Rightarrow> nat list \<Rightarrow> bool" where
  "cache_ok c es \<longleftrightarrow> (\<exists>ns B. cache_parts c ns B \<and> map (entry_at c) ns = es)"

text \<open>What an operation leaves as it was, the entries of \<open>S\<close> included.\<close>

definition cache_keep :: "nat set \<Rightarrow> Cache \<Rightarrow> Cache \<Rightarrow> bool" where
  "cache_keep S c c' \<longleftrightarrow> capacity c' = capacity c \<and> max_cache_size c' = max_cache_size c \<and> fdata c' = fdata c \<and>
     (\<forall>e \<in> S. euse c' e = euse c e \<and> edata c' e = edata c e \<and> has_data c' e = has_data c e \<and> ptr c' e = ptr c e)"

lemma cache_keep_refl [simp]: "cache_keep S c c"
  by (simp add: cache_keep_def)

lemma cache_keep_trans: "cache_keep S c c' \<Longrightarrow> cache_keep T c' c'' \<Longrightarrow> U \<subseteq> S \<Longrightarrow> U \<subseteq> T \<Longrightarrow> cache_keep U c c''"
  unfolding cache_keep_def by (metis subsetD)

lemma lru_change_data:
  assumes "lru_change c c'"
  shows "edata c' e = edata c e" "euse c' e = euse c e" "has_data c' e = has_data c e" "key_of c' n = key_of c n" "table_rep c' B = table_rep c B" "ptr c' e = ptr c e"
  using assms by (simp_all add: lru_change_def ptr_def edata_def euse_def has_data_def key_of_def table_rep_def cnx_def [abs_def])

text \<open>The specification of the eviction: drop unused entries from the front until the amount is reached.\<close>

fun evict_spec :: "(nat \<Rightarrow> int) \<Rightarrow> (nat \<Rightarrow> int) \<Rightarrow> nat list \<Rightarrow> int \<Rightarrow> nat list" where
  "evict_spec use sz [] m = []"
| "evict_spec use sz (e # es) m =
     (if use e > 0 then e # evict_spec use sz es m else if m \<le> sz e then es else evict_spec use sz es (m - sz e))"

lemma evict_spec_cong: "(\<And>e. e \<in> set es \<Longrightarrow> u e = u' e \<and> s e = s' e) \<Longrightarrow> evict_spec u s es m = evict_spec u' s' es m"
  by (induction es arbitrary: m) auto

lemma evict_spec_sub: "set (evict_spec u s es m) \<subseteq> set es"
  by (induction es arbitrary: m) auto

lemma sum_list_rm: "sum_list (map f (us @ p # vs)) = (f p :: int) + sum_list (map f (us @ vs))"
  by simp

lemma entries_ok_rm:
  assumes ok: "entries_ok c (us @ e # vs)" and k: "cache_keep (- {e}) c c'" and s: "c_size c' = c_size c - fsize c e" and l: "length (table c') = length (table c)"
  shows "entries_ok c' (us @ vs)"
proof -
  have D: "distinct (us @ e # vs)" "inj_on (fname c) (set (us @ e # vs))" using ok by (simp_all only: entries_ok_def)
  then have ne: "e \<notin> set (us @ vs)" by simp
  have same: "edata c' x = edata c x" "euse c' x = euse c x" "has_data c' x = has_data c x" if "x \<in> set (us @ vs)" for x
    using k ne that unfolding cache_keep_def by (metis ComplI singletonD)+
  have m: "map (fsize c') (us @ vs) = map (fsize c) (us @ vs)" by (rule map_cong) (simp_all only: same)
  have "inj_on (fname c) (set (us @ vs))" by (rule inj_on_subset [OF D(2)]) auto
  then have inj: "inj_on (fname c') (set (us @ vs))" using same(1) by (simp add: inj_on_def)
  have "0 \<le> fsize c e" "c_size c = fsize c e + sum_list (map (fsize c) (us @ vs))" using ok by (simp_all add: entries_ok_def)
  moreover have "capacity c' = capacity c" "max_cache_size c' = max_cache_size c" using k by (simp_all add: cache_keep_def)
  moreover have "\<forall>x \<in> set (us @ vs). has_data c' x \<and> 0 \<le> fsize c' x \<and> 0 \<le> euse c' x" using same ok by (simp add: entries_ok_def)
  moreover have "0 < length (table c)" using ok unfolding entries_ok_def by linarith
  ultimately show ?thesis using ok inj s l D(1) unfolding entries_ok_def m by simp
qed

lemma evict_step:
  assumes ok: "cache_parts c (us @ p # vs) B"
  shows "\<exists>c1 c2 B'. remove_node_from_LRU c p (if us = [] then None else Some (last us)) = Ok (if vs = [] then None else Some (hd vs), c1) \<and>
    remove_from_cache c1 (entry_at c p) = Ok c2 \<and> cache_parts c2 (us @ vs) B' \<and> wbrk c2 = wbrk c \<and>
    (\<forall>q \<in> set (us @ vs). entry_at c2 q = entry_at c q) \<and> cache_keep (- {entry_at c p}) c c2"
proof -
  let ?e = "entry_at c p" and ?ns = "us @ p # vs"
  from ok have O: "lru_rep c ?ns" "table_rep c B" "entries_ok c (map (entry_at c) ?ns)" "(\<Union>k. set (B k)) = entry_at c ` set ?ns"
    "\<forall>k. \<forall>e \<in> set (B k). key_of c (fname c e) = k" unfolding cache_parts_def by blast+
  from remove_node_rep [OF O(1)] obtain c1 where c1: "remove_node_from_LRU c p (if us = [] then None else Some (last us)) = Ok (if vs = [] then None else Some (hd vs), c1)"
    "lru_rep c1 (us @ vs)" "lru_change c c1" "\<forall>q \<in> set (us @ vs). entry_at c1 q = entry_at c q" by blast
  note L = lru_change_data [OF c1(3)]
  have "?e \<in> (\<Union>k. set (B k))" using O(4) by auto
  then obtain k where k: "?e \<in> set (B k)" "key_of c (fname c ?e) = k" using O(5) by blast
  have kl: "k < length (table c)" using k(1) O(2) by (metis empty_iff empty_set linorder_not_less table_rep_def)
  have tab: "table c1 = table c" "wbrk c1 = wbrk c" "c_size c1 = c_size c" using c1(3) by (simp_all add: lru_change_def)
  have h: "has_data c ?e" using O(3) by (simp add: entries_ok_def)
  obtain c2 where c2: "remove_from_cache c1 ?e = Ok c2" "table_rep c2 (B(k := remove1 ?e (B k)))" "c_size c2 = c_size c1 - fsize c1 ?e" "table_change (- {?e}) c1 c2"
    using remove_from_cache_rep [of c1 B k ?e] k kl O(2) h by (auto simp: L tab)
  have keep: "cache_keep (- {?e}) c c2" using c1(3) c2(4) L by (simp add: cache_keep_def lru_change_def table_change_def)
  have T: "lnodes c2 = lnodes c1" "LRU c2 = LRU c1" "wbrk c2 = wbrk c1" "length (table c2) = length (table c)" "capacity c2 = capacity c"
    using c2(4) tab c1(3) by (simp_all add: table_change_def lru_change_def)
  have ea: "\<forall>q \<in> set (us @ vs). entry_at c2 q = entry_at c q" using c1(4) T(1) by (simp add: entry_at_def)
  have rep: "lru_rep c2 (us @ vs)" using c1(2) T by (simp add: lru_rep_def lnx_def [abs_def])
  have es: "map (entry_at c2) (us @ vs) = map (entry_at c) us @ map (entry_at c) vs" using ea by simp
  have "entries_ok c2 (map (entry_at c) us @ map (entry_at c) vs)"
    by (rule entries_ok_rm [of c _ ?e]) (use O(3) keep c2(3) L T tab in simp_all)
  moreover have "(\<Union>j. set ((B(k := remove1 ?e (B k))) j)) = entry_at c2 ` set (us @ vs)"
  proof -
    have "distinct (B k)" using O(2) kl by (simp add: table_rep_def)
    then have rm: "set (remove1 ?e (B k)) = set (B k) - {?e}" by simp
    have "?e \<notin> set (B j)" if "j \<noteq> k" for j using O(2) that k(1) by (auto simp: table_rep_def)
    then have "(\<Union>j. set ((B(k := remove1 ?e (B k))) j)) = (\<Union>j. set (B j)) - {?e}" using rm by (auto split: if_splits)
    also have "\<dots> = entry_at c ` set (us @ vs)"
    proof -
      have "distinct (map (entry_at c) ?ns)" using O(3) by (simp only: entries_ok_def)
      then have "?e \<notin> entry_at c ` set (us @ vs)" by (simp add: image_Un)
      then show ?thesis unfolding O(4) by auto
    qed
    also have "\<dots> = entry_at c2 ` set (us @ vs)" using ea by (intro image_cong) simp_all
    finally show ?thesis .
  qed
  moreover have "key_of c2 (fname c2 x) = j" if "x \<in> set ((B(k := remove1 ?e (B k))) j)" for j x
  proof -
    from that O(2) k(1) kl have "x \<noteq> ?e" "x \<in> set (B j)" by (auto simp: table_rep_def split: if_splits)
    then have "edata c2 x = edata c x" "key_of c (fname c x) = j" using keep O(5) by (simp_all add: cache_keep_def)
    then show ?thesis using T(5) by (simp add: key_of_def)
  qed
  ultimately have "cache_parts c2 (us @ vs) (B(k := remove1 ?e (B k)))"
    unfolding cache_parts_def es using rep c2(2) by blast
  with c1(1) c2(1) ea keep T(3) tab show ?thesis by metis
qed

lemma word_of_int_le: "0 \<le> x \<Longrightarrow> x < 2 ^ 64 \<Longrightarrow> 0 \<le> y \<Longrightarrow> y < 2 ^ 64 \<Longrightarrow> (word_of_int x :: 64 word) \<le> word_of_int y \<longleftrightarrow> x \<le> y"
  by (simp add: word_le_def uint_word_of_int)

lemma cache_parts_node:
  assumes ok: "cache_parts c ns B" and p: "p \<in> set ns"
  obtains n x d where "lnodes c p = Some n" "le_entry n = entry_at c p" "centries c (entry_at c p) = Some x" "in_use x = euse c (entry_at c p)"
    "fdata c (ce_data x) = Some d" "d = edata c (entry_at c p)" "0 \<le> file_size d"
proof -
  from ok have "lru_rep c ns" and h: "has_data c (entry_at c p)" "0 \<le> fsize c (entry_at c p)" using p by (auto simp: cache_parts_def entries_ok_def)
  then obtain n where "lnodes c p = Some n" using lru_node p by blast
  with h that show ?thesis by (auto simp: has_data_def entry_at_def euse_def edata_def)
qed

lemma evict_loop_rep:
  assumes "cache_parts c (us @ vs) B" and "length vs < fuel" and "0 \<le> a" and "a + sum_list (map (fsize c) (map (entry_at c) vs)) < 2 ^ 63" and "0 < m" and "m < 2 ^ 63"
  shows "\<exists>w c' ns' B'. evict_loop fuel c (if us = [] then None else Some (last us)) (if vs = [] then None else Some (hd vs)) (word_of_int a) (word_of_int m) = Ok (w, c') \<and>
    cache_parts c' ns' B' \<and> wbrk c' = wbrk c \<and>
    map (entry_at c') ns' = map (entry_at c) us @ evict_spec (euse c) (fsize c) (map (entry_at c) vs) (m - a) \<and>
    cache_keep (set (map (entry_at c') ns')) c c'"
  using assms
proof (induction vs arbitrary: us c B a fuel)
  case Nil
  then obtain f where "fuel = Suc f" by (cases fuel) auto
  with Nil.prems(1) show ?case by (intro exI [of _ "word_of_int a"] exI [of _ c] exI [of _ us] exI [of _ B]) simp
next
  case (Cons p vs)
  from Cons.prems(2) obtain f where f: "fuel = Suc f" "length vs < f" by (cases fuel) auto
  note ok = Cons.prems(1)
  obtain n x d where N: "lnodes c p = Some n" "le_entry n = entry_at c p" "centries c (entry_at c p) = Some x" "in_use x = euse c (entry_at c p)"
    "fdata c (ce_data x) = Some d" "d = edata c (entry_at c p)" "0 \<le> file_size d"
    using cache_parts_node [OF ok, of p] by auto
  have "nchain (lnx c) (l_head (LRU c)) (us @ p # vs) None" using ok by (simp add: cache_parts_def lru_rep_def)
  then have "nchain (lnx c) (le_next n) vs None" using N(1) by (auto simp: nchain_append lnx_def)
  then have nx: "le_next n = (if vs = [] then None else Some (hd vs))" by (cases vs) auto
  show ?case
  proof (cases "euse c (entry_at c p) > 0")
    case True
    have "a + sum_list (map (fsize c) (map (entry_at c) vs)) < 2 ^ 63" using Cons.prems(4) N(6,7) by simp
    with Cons.IH [of c "us @ [p]" B f a] ok f Cons.prems(3,5,6) show ?thesis using True N nx f(1) by (simp add: at_addr_def)
  next
    case False
    let ?e = "entry_at c p"
    obtain c1 c2 B' where S: "remove_node_from_LRU c p (if us = [] then None else Some (last us)) = Ok (if vs = [] then None else Some (hd vs), c1)"
      "remove_from_cache c1 ?e = Ok c2" "cache_parts c2 (us @ vs) B'" "wbrk c2 = wbrk c" "\<forall>q \<in> set (us @ vs). entry_at c2 q = entry_at c q" "cache_keep (- {?e}) c c2"
      using evict_step [OF ok] by blast
    have "distinct (map (entry_at c) (us @ p # vs))" using ok by (simp only: cache_parts_def entries_ok_def)
    then have ne: "?e \<notin> set (map (entry_at c) us)" "?e \<notin> set (map (entry_at c) vs)" by auto
    have es: "map (entry_at c2) us = map (entry_at c) us" "map (entry_at c2) vs = map (entry_at c) vs" using S(5) by simp_all
    have same: "euse c2 y = euse c y" "edata c2 y = edata c y" if "y \<noteq> ?e" for y using S(6) that by (simp_all add: cache_keep_def)
    have sums: "map (fsize c2) (map (entry_at c) vs) = map (fsize c) (map (entry_at c) vs)"
      by (rule map_cong) (use same(2) ne(2) in \<open>metis\<close>)+
    have "evict_spec (euse c2) (fsize c2) (map (entry_at c) vs) k = evict_spec (euse c) (fsize c) (map (entry_at c) vs) k" for k
      by (rule evict_spec_cong) (use same ne(2) in \<open>metis\<close>)
    note spec = this
    have nn: "0 \<le> sum_list (map (fsize c) (map (entry_at c) vs))"
      using ok by (intro sum_list_nonneg) (auto simp: cache_parts_def entries_ok_def)
    have bound: "a + file_size d + sum_list (map (fsize c) (map (entry_at c) vs)) < 2 ^ 63" using Cons.prems(4) N(6) by simp
    have ge: "(word_of_int (a + file_size d) :: 64 word) \<ge> word_of_int m \<longleftrightarrow> m \<le> a + file_size d"
      by (rule word_of_int_le) (use Cons.prems(3,5,6) N(7) bound nn in \<open>simp\<close>)+
    have add: "(word_of_int a :: 64 word) + word_of_int (file_size d) = word_of_int (a + file_size d)" by simp
    have step: "evict_loop fuel c (if us = [] then None else Some (last us)) (if p # vs = [] then None else Some (hd (p # vs))) (word_of_int a) (word_of_int m) =
      (if m \<le> a + file_size d then Ok (word_of_int (a + file_size d), c2)
       else evict_loop f c2 (if us = [] then None else Some (last us)) (if vs = [] then None else Some (hd vs)) (word_of_int (a + file_size d)) (word_of_int m))"
      using False N(1-5) S(1,2) by (simp add: f(1) at_addr_def Let_def add ge del: of_int_add)
    show ?thesis
    proof (cases "m \<le> a + file_size d")
      case True
      have "evict_spec (euse c) (fsize c) (map (entry_at c) (p # vs)) (m - a) = map (entry_at c) vs" using False True N(6) by simp
      moreover have "?e \<notin> set (map (entry_at c2) (us @ vs))" using ne es by simp
      then have "cache_keep (set (map (entry_at c2) (us @ vs))) c c2" by (intro cache_keep_trans [OF S(6) cache_keep_refl [of "set (map (entry_at c2) (us @ vs))"]]) auto
      ultimately show ?thesis using step True S(3,4) es by (intro exI [of _ "word_of_int (a + file_size d)"] exI [of _ c2] exI [of _ "us @ vs"] exI [of _ B']) simp
    next
      case far: False
      have bound2: "a + file_size d + sum_list (map (fsize c2) (map (entry_at c2) vs)) < 2 ^ 63" unfolding es sums by (rule bound)
      have nneg: "0 \<le> a + file_size d" using Cons.prems(3) N(7) by simp
      from Cons.IH [OF S(3) f(2) nneg bound2 Cons.prems(5,6)] obtain w c' ns' B2 where I:
        "evict_loop f c2 (if us = [] then None else Some (last us)) (if vs = [] then None else Some (hd vs)) (word_of_int (a + file_size d)) (word_of_int m) = Ok (w, c')"
        "cache_parts c' ns' B2" "wbrk c' = wbrk c2"
        "map (entry_at c') ns' = map (entry_at c) us @ evict_spec (euse c) (fsize c) (map (entry_at c) vs) (m - (a + file_size d))"
        "cache_keep (set (map (entry_at c') ns')) c2 c'"
        unfolding es spec by blast
      have "evict_spec (euse c) (fsize c) (map (entry_at c) (p # vs)) (m - a) = evict_spec (euse c) (fsize c) (map (entry_at c) vs) (m - (a + file_size d))"
        using False far N(6) by (simp add: algebra_simps)
      moreover have "?e \<notin> set (map (entry_at c') ns')" unfolding I(4) using ne evict_spec_sub [of "euse c" "fsize c" "map (entry_at c) vs"] by auto
      then have "cache_keep (set (map (entry_at c') ns')) c c'" by (intro cache_keep_trans [OF S(6) I(5)]) auto
      ultimately show ?thesis using step far I S(4) by (intro exI [of _ w] exI [of _ c'] exI [of _ ns'] exI [of _ B2]) simp
    qed
  qed
qed

lemma cache_okE:
  assumes "cache_ok c es"
  obtains ns B where "cache_parts c ns B" "map (entry_at c) ns = es" "entries_ok c es" "lru_rep c ns" "table_rep c B" "(\<Union>k. set (B k)) = set es"
  using assms by (force simp: cache_ok_def cache_parts_def)

theorem cache_evict_rep:
  assumes ok: "cache_ok c es" and m: "0 < m" "m < 2 ^ 63"
  shows "\<exists>w c'. cache_evict c (word_of_int m) = Ok (w, c') \<and> wbrk c' = wbrk c \<and> cache_ok c' (evict_spec (euse c) (fsize c) es m) \<and>
    cache_keep (set (evict_spec (euse c) (fsize c) es m)) c c'"
proof -
  obtain ns B where O: "cache_parts c ns B" "map (entry_at c) ns = es" "entries_ok c es" "lru_rep c ns" using cache_okE [OF ok] .
  have "sum_list (map (fsize c) es) < 2 ^ 63" using O(3) by (simp add: entries_ok_def)
  then have b: "0 + sum_list (map (fsize c) (map (entry_at c) ns)) < 2 ^ 63" using O(2) by simp
  have h: "l_head (LRU c) = (if ns = [] then None else Some (hd ns))" using O(4) by (cases ns) (auto simp: lru_rep_def)
  have len: "length ns < Suc (wbrk c)" using lru_length [OF O(4)] by simp
  have O': "cache_parts c ([] @ ns) B" using O(1) by simp
  from evict_loop_rep [OF O' len order_refl b m] O(2) h show ?thesis
    by (fastforce simp: cache_evict_def cache_ok_def simp del: evict_loop.simps)
qed

lemma find_unique:
  assumes "\<And>x y. x \<in> set xs \<Longrightarrow> y \<in> set xs \<Longrightarrow> P x \<Longrightarrow> P y \<Longrightarrow> x = y"
  shows "find P xs = Some e \<longleftrightarrow> e \<in> set xs \<and> P e"
  using assms by (induction xs) auto

lemma key_of_bound: "entries_ok c es \<Longrightarrow> key_of c fn < length (table c)"
proof -
  assume "entries_ok c es"
  then have c: "capacity c = int (length (table c))" "0 < capacity c" "capacity c < 2 ^ 63" unfolding entries_ok_def by blast+
  have u: "uint (word_of_int (capacity c) :: 64 word) = capacity c" using c(2,3) by (simp add: uint_word_of_int)
  then have "uint (hash fn mod word_of_int (capacity c)) < capacity c" using c by (simp add: uint_mod_distrib)
  then have "nat (uint (hash fn mod word_of_int (capacity c))) < length (table c)" using c(1) uint_ge_0 [of "hash fn mod word_of_int (capacity c)"] by (subst nat_less_iff) simp_all
  then show ?thesis by (simp only: key_of_def unat_eq_nat_uint)
qed

definition cache_hit :: "Cache \<Rightarrow> nat list \<Rightarrow> cstring \<Rightarrow> nat option" where
  "cache_hit c es fn = find (\<lambda>e. fname c e = fn) es"

lemma cache_hit_Some: "entries_ok c es \<Longrightarrow> cache_hit c es fn = Some e \<longleftrightarrow> e \<in> set es \<and> fname c e = fn"
  unfolding cache_hit_def by (rule find_unique) (metis entries_ok_def inj_on_def)

lemma find_name_ok:
  assumes ok: "cache_parts c ns B"
  shows "find_name (Suc (wbrk c)) c (Slot (key_of c fn)) fn = Ok (cache_hit c (map (entry_at c) ns) fn)"
proof -
  let ?k = "key_of c fn" and ?es = "map (entry_at c) ns"
  from ok have O: "table_rep c B" "entries_ok c ?es" "(\<Union>k. set (B k)) = set ?es" "\<forall>k. \<forall>e \<in> set (B k). key_of c (fname c e) = k"
    unfolding cache_parts_def by auto
  have k: "?k < length (table c)" by (rule key_of_bound [OF O(2)])
  note D = table_repD [OF O(1) k]
  have sub: "set (B ?k) \<subseteq> set ?es" using O(3) by blast
  then have "\<forall>e \<in> set (B ?k). has_data c e" using O(2) by (auto simp: entries_ok_def)
  then have "find_name (Suc (wbrk c)) c (ref_of ?k []) fn = Ok (find (\<lambda>e. fname c e = fn) (B ?k))"
    by (intro find_name_rep) (use k D in simp_all)
  moreover have "find (\<lambda>e. fname c e = fn) (B ?k) = cache_hit c ?es fn"
  proof -
    have bucket: "e \<in> set (B ?k)" if a: "e \<in> set ?es" "fname c e = fn" for e
    proof -
      obtain j where j: "e \<in> set (B j)" using a(1) [folded O(3)] by blast
      then have "key_of c (fname c e) = j" using O(4) by blast
      with j a(2) show ?thesis by simp
    qed
    have inj: "inj_on (fname c) (set (B ?k))" using O(2) inj_on_subset [OF _ sub] unfolding entries_ok_def by blast
    have uniq: "find (\<lambda>e. fname c e = fn) (B ?k) = Some e \<longleftrightarrow> e \<in> set (B ?k) \<and> fname c e = fn" for e
      by (rule find_unique) (use inj in \<open>auto dest: inj_onD\<close>)
    have both: "find (\<lambda>e. fname c e = fn) (B ?k) = Some e \<longleftrightarrow> cache_hit c ?es fn = Some e" for e
      unfolding uniq cache_hit_Some [OF O(2)] using bucket sub by blast
    then show ?thesis by (metis not_None_eq)
  qed
  ultimately show ?thesis by (simp del: find_name.simps)
qed

lemma entries_ok_perm: "entries_ok c (us @ e # vs) \<Longrightarrow> entries_ok c (us @ vs @ [e])"
  unfolding entries_ok_def by (auto simp: inj_on_def)

text \<open>Changing the use count of an entry.\<close>

definition with_use :: "Cache \<Rightarrow> nat \<Rightarrow> int \<Rightarrow> Cache" where
  "with_use c e u = (case centries c e of None \<Rightarrow> c | Some x \<Rightarrow> c\<lparr>centries := (centries c)(e \<mapsto> x\<lparr>in_use := u\<rparr>)\<rparr>)"

lemma with_use_data [simp]:
  "edata (with_use c e u) x = edata c x" "has_data (with_use c e u) x = has_data c x" "ptr (with_use c e u) x = ptr c x" "cnx (with_use c e u) = cnx c"
  "centries c e \<noteq> None \<Longrightarrow> euse (with_use c e u) x = (if x = e then u else euse c x)"
  "table (with_use c e u) = table c" "LRU (with_use c e u) = LRU c" "c_size (with_use c e u) = c_size c" "capacity (with_use c e u) = capacity c"
  "max_cache_size (with_use c e u) = max_cache_size c" "lnodes (with_use c e u) = lnodes c" "fdata (with_use c e u) = fdata c" "wbrk (with_use c e u) = wbrk c"
  by (auto simp: with_use_def ptr_def edata_def has_data_def cnx_def fun_eq_iff euse_def split: option.split)

lemma with_use_parts:
  assumes ok: "cache_parts c ns B" and e: "e \<in> entry_at c ` set ns" "0 \<le> u"
  shows "cache_parts (with_use c e u) ns B"
proof -
  have ea: "entry_at (with_use c e u) = entry_at c" by (simp add: fun_eq_iff entry_at_def)
  have ex: "centries c e \<noteq> None" using ok e by (auto simp: cache_parts_def entries_ok_def has_data_def)
  have "entries_ok (with_use c e u) es = entries_ok c es" if "entries_ok c es" for es
    using that e(2) ex by (simp add: entries_ok_def)
  moreover have "lru_rep (with_use c e u) ns = lru_rep c ns" by (simp add: lru_rep_def lnx_def [abs_def])
  moreover have "table_rep (with_use c e u) B = table_rep c B" by (simp add: table_rep_def)
  moreover have "key_of (with_use c e u) = key_of c" by (simp add: fun_eq_iff key_of_def)
  ultimately show ?thesis using ok by (simp add: cache_parts_def ea)
qed

lemma lru_change_parts:
  assumes ok: "cache_parts c ns B" and ch: "lru_change c c'" and r: "lru_rep c' ns'" and es: "entries_ok c (map (entry_at c') ns')"
    and s: "entry_at c' ` set ns' = entry_at c ` set ns"
  shows "cache_parts c' ns' B"
proof -
  have "entries_ok c' (map (entry_at c') ns')" using es ch lru_change_data [OF ch] by (auto simp: entries_ok_def lru_change_def)
  then show ?thesis using ok r s lru_change_data [OF ch] by (simp add: cache_parts_def)
qed

theorem cache_lookup_rep:
  assumes ok: "cache_ok c es"
  shows "case cache_hit c es fn of
      None \<Rightarrow> cache_lookup c fn = Ok (None, c)
    | Some e \<Rightarrow> \<exists>c'. cache_lookup c fn = Ok (Some e, c') \<and> cache_ok c' (remove1 e es @ [e]) \<and> wbrk c' = wbrk c \<and>
        cache_keep (- {e}) c c' \<and> euse c' e = euse c e + 1 \<and> edata c' e = edata c e \<and> ptr c' e = ptr c e"
proof -
  obtain ns B where O: "cache_parts c ns B" "map (entry_at c) ns = es" "entries_ok c es" using cache_okE [OF ok] .
  note F = find_name_ok [OF O(1), unfolded O(2)]
  show ?thesis
  proof (cases "cache_hit c es fn")
    case None
    with F show ?thesis by (simp add: cache_lookup_def del: find_name.simps)
  next
    case (Some e)
    then have e: "e \<in> set es" by (simp add: cache_hit_Some [OF O(3)])
    then obtain x where x: "centries c e = Some x" using O(3) by (auto simp: entries_ok_def has_data_def)
    let ?c = "with_use c e (euse c e + 1)"
    have ea: "entry_at ?c = entry_at c" by (simp add: fun_eq_iff entry_at_def)
    have up: "0 \<le> euse c e + 1" using O(3) e by (simp add: entries_ok_def)
    have P: "cache_parts ?c ns B" by (rule with_use_parts [OF O(1)]) (use e O(2) up in auto)
    from e O(2) obtain p where "p \<in> set ns" "entry_at c p = e" by auto
    then obtain us vs where ns: "ns = us @ p # vs" "entry_at c p = e" by (meson split_list)
    have "distinct (map (entry_at c) ns)" using O(2,3) by (simp add: entries_ok_def)
    then have ne: "e \<notin> entry_at c ` set us" "e \<notin> entry_at c ` set vs" using ns by auto
    have L: "lru_rep ?c ns" using P by (simp add: cache_parts_def)
    have "\<exists>c'. move_node_to_end ?c e = Ok c' \<and> lru_rep c' (us @ vs @ [p]) \<and> lru_change ?c c' \<and> (\<forall>q. entry_at c' q = entry_at ?c q)"
      by (rule lru_move_node_rep [OF L ns(1)]) (use ns ea in simp, use ne(1) ea in \<open>metis imageI\<close>)
    then obtain c' where M: "move_node_to_end ?c e = Ok c'" "lru_rep c' (us @ vs @ [p])" "lru_change ?c c'" "\<forall>q. entry_at c' q = entry_at c q"
      unfolding ea by blast
    have ea': "entry_at c' = entry_at c" using M(4) by (simp add: fun_eq_iff)
    have es: "es = map (entry_at c) us @ e # map (entry_at c) vs" using O(2) ns by auto
    then have rm: "remove1 e es @ [e] = map (entry_at c') (us @ vs @ [p])" using ne M(4) ns(2) by (simp add: remove1_append)
    have "entries_ok ?c (map (entry_at ?c) ns)" using P by (simp only: cache_parts_def)
    then have "entries_ok ?c (map (entry_at c) us @ map (entry_at c) vs @ [e])"
      using entries_ok_perm [of ?c "map (entry_at c) us" e "map (entry_at c) vs"] ea ns by simp
    then have "entries_ok ?c (map (entry_at c') (us @ vs @ [p]))" using ea' ns(2) by simp
    moreover have "entry_at c' ` set (us @ vs @ [p]) = entry_at ?c ` set ns" using M(4) ns(1) ea by (simp add: image_Un Un_commute)
    ultimately have "cache_parts c' (us @ vs @ [p]) B" by (intro lru_change_parts [OF P M(3,2)])
    then have ok': "cache_ok c' (remove1 e es @ [e])" unfolding rm cache_ok_def by blast
    have "cache_lookup c fn = Ok (Some e, c')"
      using F Some x M(1) by (simp add: cache_lookup_def at_addr_def Let_def with_use_def euse_def del: find_name.simps)
    moreover have "cache_keep (- {e}) c c'" "wbrk c' = wbrk c" "euse c' e = euse c e + 1" "edata c' e = edata c e" "ptr c' e = ptr c e"
      using M(3) lru_change_data [OF M(3)] x by (simp_all add: cache_keep_def lru_change_def)
    ultimately show ?thesis using Some ok' by simp
  qed
qed

lemma cache_exists_rep: "cache_ok c es \<Longrightarrow> cache_exists c fn = Ok (cache_hit c es fn \<noteq> None)"
  by (auto elim!: cache_okE simp: cache_exists_def find_name_ok simp del: find_name.simps)

section \<open>Inserting a file\<close>

lemma cache_ok_bound: "cache_ok c es \<Longrightarrow> e \<in> set es \<Longrightarrow> e < wbrk c"
proof (erule cache_okE)
  fix B assume e: "e \<in> set es" and t: "table_rep c B" "(\<Union>k. set (B k)) = set es"
  from e [folded t(2)] obtain k where "e \<in> set (B k)" by blast
  then show ?thesis using t(1) by (simp add: table_rep_def)
qed

lemma append_entry_table:
  assumes t: "table_rep c B" and k: "k < length (table c)" and c0: "c0 = c\<lparr>wbrk := Suc (wbrk c), centries := (centries c)(wbrk c \<mapsto> x)\<rparr>" and x: "ce_next x = None"
  shows "\<exists>c'. last_ref (Suc (wbrk c)) c (Slot k) = Ok (ref_of k (B k)) \<and> set_next_of c0 (ref_of k (B k)) (Some (wbrk c)) = Ok c' \<and>
    table_rep c' (B(k := B k @ [wbrk c])) \<and> link_change c0 c'"
proof -
  note D = table_repD [OF t k]
  have bnd: "e < wbrk c" if "e \<in> set (B j)" for e j using t that by (auto simp: table_rep_def)
  have cn: "cnx c0 = (cnx c)(wbrk c \<mapsto> None)" using x by (auto simp: c0 cnx_def fun_eq_iff)
  have new: "wbrk c \<notin> set (B j)" for j using bnd [of "wbrk c" j] by auto
  have ch: "nchain (cnx c0) (table c0 ! k) (B k) None" using D(2) new by (simp add: cn) (simp add: c0)
  have "last_ref (Suc (wbrk c)) c (ref_of k []) = Ok (ref_of k (B k))" using last_ref_rep [OF k, of "[]" "B k" "Suc (wbrk c)"] D by (simp del: last_ref.simps)
  moreover have k0: "k < length (table c0)" using k by (simp add: c0)
  obtain c' where c': "set_next_of c0 (ref_of k (B k)) (Some (wbrk c)) = Ok c'" "nchain (cnx c') (table c' ! k) (B k) (Some (wbrk c))" "link_change c0 c'"
    "\<forall>e. e \<notin> set (B k) \<longrightarrow> centries c' e = centries c0 e" "\<forall>j. j \<noteq> k \<longrightarrow> table c' ! j = table c0 ! j"
    using set_next_ref [OF k0 ch D(1), of "Some (wbrk c)"] by blast
  have "cnx c' (wbrk c) = Some None" using c'(4) new [of k] x by (simp add: cnx_def c0)
  with c'(2) have chk: "nchain (cnx c') (table c' ! k) (B k @ [wbrk c]) None" by (auto simp: nchain_append)
  have chj: "nchain (cnx c') (table c' ! j) (B j) None" if j: "j < length (table c)" "j \<noteq> k" for j
  proof -
    have dis: "set (B j) \<inter> set (B k) = {}" using t j by (auto simp: table_rep_def)
    have "nchain (cnx c') (table c ! j) (B j) None = nchain (cnx c) (table c ! j) (B j) None"
    proof (rule nchain_cong)
      fix a assume "a \<in> set (B j)"
      then have "a \<notin> set (B k)" "a \<noteq> wbrk c" using dis new by auto
      then show "cnx c' a = cnx c a" using c'(4) by (simp add: cnx_def c0)
    qed
    moreover have "table c' ! j = table c ! j" using c'(5) j by (simp add: c0)
    ultimately show ?thesis using t j by (simp add: table_rep_def)
  qed
  have len: "length (table c') = length (table c)" "wbrk c' = Suc (wbrk c)" using c'(3) by (simp_all add: link_change_def c0)
  have "table_rep c' (B(k := B k @ [wbrk c]))"
    unfolding table_rep_def len
  proof (intro conjI allI impI ballI)
    fix j i :: nat assume "j \<noteq> i"
    then show "set ((B(k := B k @ [wbrk c])) j) \<inter> set ((B(k := B k @ [wbrk c])) i) = {}" using t new by (auto simp: table_rep_def)
  next
    fix j e assume "e \<in> set ((B(k := B k @ [wbrk c])) j)"
    then show "e < Suc (wbrk c)" using bnd by (fastforce split: if_splits)
  next
    fix j assume "length (table c) \<le> j"
    then show "(B(k := B k @ [wbrk c])) j = []" using t k by (simp add: table_rep_def)
  next
    fix j assume j: "j < length (table c)"
    then show "nchain (cnx c') (table c' ! j) ((B(k := B k @ [wbrk c])) j) None" using chk chj by simp
    show "distinct ((B(k := B k @ [wbrk c])) j)" using table_repD(1) [OF t j] new by auto
  qed
  with calculation c' show ?thesis by (intro exI [of _ c']) simp
qed

lemma entries_ok_add:
  assumes ok: "entries_ok c es" and k: "cache_keep (set es) c c'" and new: "e \<notin> set es" "has_data c' e" "0 \<le> fsize c' e" "euse c' e = 0"
    "\<forall>x \<in> set es. fname c x \<noteq> fname c' e" and s: "c_size c' = c_size c + fsize c' e" "c_size c' \<le> max_cache_size c'" and l: "length (table c') = length (table c)"
  shows "entries_ok c' (es @ [e])"
proof -
  have same: "edata c' x = edata c x" "euse c' x = euse c x" "has_data c' x = has_data c x" if "x \<in> set es" for x using k that by (simp_all add: cache_keep_def)
  have m: "map (fsize c') es = map (fsize c) es" by (rule map_cong) (simp_all only: same)
  have D: "distinct es" "inj_on (fname c) (set es)" "0 < length (table c)" using ok unfolding entries_ok_def by linarith+
  have inj: "inj_on (fname c') (set (es @ [e]))" using D(2) same(1) new(1,5) by (auto simp: inj_on_def)
  have all: "\<forall>x \<in> set (es @ [e]). has_data c' x \<and> 0 \<le> fsize c' x \<and> 0 \<le> euse c' x" using same ok new by (auto simp: entries_ok_def)
  have "capacity c' = capacity c" "max_cache_size c' = max_cache_size c" using k by (simp_all add: cache_keep_def)
  moreover have "c_size c' = sum_list (map (fsize c') (es @ [e]))" using s(1) ok unfolding entries_ok_def map_append m by simp
  ultimately show ?thesis using ok inj all s(2) l D new(1) unfolding entries_ok_def by simp
qed

lemma append_entry_rep:
  assumes ok: "cache_ok c es" and d: "fdata c file = Some d" "0 \<le> file_size d" and miss: "cache_hit c es (file_name d) = None"
    and room: "c_size c + file_size d \<le> max_cache_size c"
  shows "\<exists>c'. append_entry c file d = Ok c' \<and> cache_ok c' (es @ [wbrk c]) \<and> wbrk c \<le> wbrk c' \<and> cache_keep (- {wbrk c}) c c' \<and>
    edata c' (wbrk c) = d \<and> euse c' (wbrk c) = 0 \<and> ptr c' (wbrk c) = file"
proof -
  obtain ns B where O: "cache_parts c ns B" "map (entry_at c) ns = es" "entries_ok c es" "lru_rep c ns" "table_rep c B" "(\<Union>k. set (B k)) = set es" using cache_okE [OF ok] .
  let ?k = "key_of c (file_name d)" and ?x = "\<lparr>ce_data = file, in_use = 0, ce_next = None\<rparr> :: CacheEntry"
  let ?c0 = "c\<lparr>wbrk := Suc (wbrk c), centries := (centries c)(wbrk c \<mapsto> ?x)\<rparr>"
  have k: "?k < length (table c)" by (rule key_of_bound [OF O(3)])
  obtain c1 where c1: "last_ref (Suc (wbrk c)) c (Slot ?k) = Ok (ref_of ?k (B ?k))" "set_next_of ?c0 (ref_of ?k (B ?k)) (Some (wbrk c)) = Ok c1"
    "table_rep c1 (B(?k := B ?k @ [wbrk c]))" "link_change ?c0 c1"
    using append_entry_table [OF O(5) k refl, of ?x] by auto
  let ?c2 = "c1\<lparr>c_size := c_size c1 + file_size d\<rparr>"
  have L1: "lnodes c1 = lnodes c" "LRU c1 = LRU c" "wbrk c1 = Suc (wbrk c)" "c_size c1 = c_size c" "capacity c1 = capacity c" "max_cache_size c1 = max_cache_size c"
    "fdata c1 = fdata c" "length (table c1) = length (table c)" using c1(4) by (simp_all add: link_change_def)
  have "lru_rep ?c2 ns" using O(4) L1 unfolding lru_rep_def lnx_def [abs_def] by auto
  then obtain c' where c': "add_to_LRU ?c2 (wbrk c) = Ok c'" "lru_rep c' (ns @ [wbrk c1])" "lru_change (?c2\<lparr>wbrk := Suc (wbrk c1)\<rparr>) c'"
    "\<forall>p \<in> set ns. entry_at c' p = entry_at c p" "entry_at c' (wbrk c1) = wbrk c"
    using add_to_LRU_rep [of ?c2 ns "wbrk c"] L1(1) by (auto simp: entry_at_def)
  have run: "append_entry c file d = Ok c'" using c1(1,2) c'(1) by (simp add: append_entry_def Let_def del: last_ref.simps)
  have C: "centries c' = centries c1" "table c' = table c1" "fdata c' = fdata c" "capacity c' = capacity c" "max_cache_size c' = max_cache_size c"
    "c_size c' = c_size c + file_size d" "wbrk c' = Suc (Suc (wbrk c))" using c'(3) L1 by (simp_all add: lru_change_def)
  note E = link_change_entry [OF c1(4)]
  have D: "edata c' e = edata ?c0 e" "euse c' e = euse ?c0 e" "has_data c' e = has_data ?c0 e" "ptr c' e = ptr ?c0 e" for e
    using E [of e] C(1,3) L1(7) by (simp_all add: edata_def euse_def has_data_def ptr_def)
  have keep: "cache_keep (- {wbrk c}) c c'" unfolding cache_keep_def D using C by (simp add: edata_def euse_def has_data_def ptr_def)
  have newd: "edata c' (wbrk c) = d" "euse c' (wbrk c) = 0" "has_data c' (wbrk c)" "ptr c' (wbrk c) = file" unfolding D using d(1) by (simp_all add: edata_def euse_def has_data_def ptr_def)
  have ne: "wbrk c \<notin> set es" using cache_ok_bound [OF ok, of "wbrk c"] by auto
  have keep': "cache_keep (set es) c c'" using keep ne unfolding cache_keep_def by auto
  have es': "map (entry_at c') (ns @ [wbrk c1]) = es @ [wbrk c]" unfolding O(2) [symmetric] using c'(4,5) by simp
  have "entries_ok c' (es @ [wbrk c])"
  proof (rule entries_ok_add [OF O(3) keep' ne])
    show "\<forall>x \<in> set es. fname c x \<noteq> fname c' (wbrk c)" using miss newd(1) by (auto simp: cache_hit_def find_None_iff)
  qed (use newd d(2) room C L1(8) in simp_all)
  moreover have "(\<Union>j. set ((B(?k := B ?k @ [wbrk c])) j)) = set (es @ [wbrk c])"
    unfolding set_append O(6) [symmetric] by (auto split: if_splits)
  then have "(\<Union>j. set ((B(?k := B ?k @ [wbrk c])) j)) = entry_at c' ` set (ns @ [wbrk c1])"
    unfolding es' [symmetric] set_map .
  moreover have "key_of c' (fname c' e) = j" if e: "e \<in> set ((B(?k := B ?k @ [wbrk c])) j)" for e j
  proof (cases "e = wbrk c")
    case True
    have "wbrk c \<notin> set (B j)" using ne O(6) by blast
    with e True have "j = ?k" by (auto split: if_splits)
    with True newd(1) C(4) show ?thesis by (simp add: key_of_def)
  next
    case False
    with e have "e \<in> set (B j)" by (auto split: if_splits)
    then have "key_of c (fname c e) = j" using O(1) by (simp add: cache_parts_def)
    with False keep C(4) show ?thesis by (simp add: cache_keep_def key_of_def)
  qed
  moreover have "table_rep c' (B(?k := B ?k @ [wbrk c]))"
    using c1(3) C(1,2,7) L1(3) unfolding table_rep_def cnx_def [abs_def] by (metis less_Suc_eq)
  ultimately have "cache_parts c' (ns @ [wbrk c1]) (B(?k := B ?k @ [wbrk c]))" using c'(2) unfolding cache_parts_def es' by blast
  then have "cache_ok c' (es @ [wbrk c])" unfolding cache_ok_def es' [symmetric] by blast
  then show ?thesis using run keep newd C(7) by (intro exI [of _ c']) simp
qed

text \<open>The entries in the order of the list, as a walk over its nodes.\<close>

fun walk_LRU :: "nat \<Rightarrow> Cache \<Rightarrow> nat option \<Rightarrow> nat list" where
  "walk_LRU 0 c p = []"
| "walk_LRU (Suc fuel) c p =
     (case p of None \<Rightarrow> [] | Some a \<Rightarrow> (case lnodes c a of None \<Rightarrow> [] | Some n \<Rightarrow> le_entry n # walk_LRU fuel c (le_next n)))"

definition entries_of :: "Cache \<Rightarrow> nat list" where
  "entries_of c = walk_LRU (wbrk c) c (l_head (LRU c))"

definition cache_inv :: "Cache \<Rightarrow> bool" where
  "cache_inv c \<longleftrightarrow> cache_ok c (entries_of c)"

lemma walk_LRU_rep: "nchain (lnx c) x ns None \<Longrightarrow> length ns \<le> fuel \<Longrightarrow> walk_LRU fuel c x = map (entry_at c) ns"
proof (induction ns arbitrary: x fuel)
  case Nil
  then show ?case by (cases fuel) auto
next
  case (Cons a ns)
  then obtain f where f: "fuel = Suc f" "length ns \<le> f" by (cases fuel) auto
  from Cons.prems(1) obtain n where n: "x = Some a" "lnodes c a = Some n" "nchain (lnx c) (le_next n) ns None"
    using lnx_def [of c a] by auto
  with Cons.IH [OF n(3) f(2)] f show ?case by (simp add: entry_at_def)
qed

lemma cache_ok_entries: "cache_ok c es \<Longrightarrow> entries_of c = es"
proof (erule cache_okE)
  fix ns assume r: "lru_rep c ns" and es: "map (entry_at c) ns = es"
  from r have "nchain (lnx c) (l_head (LRU c)) ns None" by (simp add: lru_rep_def)
  from walk_LRU_rep [OF this lru_length [OF r]] es show "entries_of c = es" by (simp add: entries_of_def)
qed

lemma cache_ok_inv: "cache_ok c es \<longleftrightarrow> cache_inv c \<and> entries_of c = es"
  using cache_ok_entries by (auto simp: cache_inv_def)

lemma evict_spec_used: "e \<in> set es \<Longrightarrow> use e > 0 \<Longrightarrow> e \<in> set (evict_spec use sz es m)"
  by (induction es arbitrary: m) auto

lemma cache_hit_sub: "cache_hit c es fn = None \<Longrightarrow> set es' \<subseteq> set es \<Longrightarrow> cache_keep (set es') c c' \<Longrightarrow> cache_hit c' es' fn = None"
  by (auto simp: cache_hit_def find_None_iff cache_keep_def)

theorem cache_insert_rep:
  assumes ok: "cache_ok c es" and d: "fdata c file = Some d" "0 \<le> file_size d"
    and es': "es' = (if c_size c + file_size d > max_cache_size c then evict_spec (euse c) (fsize c) es (c_size c + file_size d - max_cache_size c) else es)"
  shows "\<exists>r c'. cache_insert c file = Ok (r, c') \<and> wbrk c \<le> wbrk c' \<and>
    (if cache_hit c es (file_name d) \<noteq> None \<or> file_size d > max_cache_size c then r = 0 \<and> c' = c
     else if sum_list (map (fsize c) es') + file_size d > max_cache_size c then r = 0 \<and> cache_ok c' es' \<and> cache_keep (set es') c c'
     else r = 1 \<and> cache_ok c' (es' @ [wbrk c]) \<and> cache_keep (set es') c c' \<and> edata c' (wbrk c) = d \<and> euse c' (wbrk c) = 0 \<and> ptr c' (wbrk c) = file)"
proof (cases "cache_hit c es (file_name d) \<noteq> None \<or> file_size d > max_cache_size c")
  case True
  then show ?thesis using cache_exists_rep [OF ok] d(1) by (auto simp: cache_insert_def at_addr_def)
next
  case False
  then have F: "cache_hit c es (file_name d) = None" "\<not> file_size d > max_cache_size c" by simp_all
  let ?m = "c_size c + file_size d - max_cache_size c"
  have O: "entries_ok c es" using ok by (auto elim: cache_okE)
  have sub: "set es' \<subseteq> set es" using evict_spec_sub by (auto simp: es')
  have "\<exists>c1. (if c_size c + file_size d > max_cache_size c then and_then (cache_evict c (word_of_int (file_size d - (max_cache_size c - c_size c)))) (\<lambda>(_, c). Ok c) else Ok c) = Ok c1 \<and>
    cache_ok c1 es' \<and> cache_keep (set es') c c1 \<and> wbrk c1 = wbrk c"
  proof (cases "c_size c + file_size d > max_cache_size c")
    case True
    have "?m < 2 ^ 63" using O F(2) by (simp add: entries_ok_def)
    with cache_evict_rep [OF ok, of ?m] True show ?thesis by (auto simp: es' algebra_simps)
  next
    case False
    with ok show ?thesis by (simp add: es')
  qed
  then obtain c1 where c1: "(if c_size c + file_size d > max_cache_size c then and_then (cache_evict c (word_of_int (file_size d - (max_cache_size c - c_size c)))) (\<lambda>(_, c). Ok c) else Ok c) = Ok c1"
    "cache_ok c1 es'" "cache_keep (set es') c c1" "wbrk c1 = wbrk c" by blast
  have K: "fdata c1 = fdata c" "max_cache_size c1 = max_cache_size c" using c1(3) by (simp_all add: cache_keep_def)
  have "c_size c1 = sum_list (map (fsize c1) es')" using c1(2) by (auto elim!: cache_okE simp: entries_ok_def)
  also have "map (fsize c1) es' = map (fsize c) es'" by (rule map_cong) (use c1(3) in \<open>simp_all add: cache_keep_def\<close>)
  finally have size: "c_size c1 = sum_list (map (fsize c) es')" .
  have run: "cache_insert c file = (if sum_list (map (fsize c) es') + file_size d > max_cache_size c then Ok (0, c1)
      else and_then (append_entry c1 file d) (\<lambda>c. Ok (1, c)))"
    using cache_exists_rep [OF ok] d(1) F c1(1) K size by (simp add: cache_insert_def at_addr_def)
  show ?thesis
  proof (cases "sum_list (map (fsize c) es') + file_size d > max_cache_size c")
    case True
    then show ?thesis using run c1 F by simp
  next
    case fits: False
    have "cache_hit c1 es' (file_name d) = None" by (rule cache_hit_sub [OF F(1) sub c1(3)])
    then obtain c' where c': "append_entry c1 file d = Ok c'" "cache_ok c' (es' @ [wbrk c])" "wbrk c \<le> wbrk c'" "cache_keep (- {wbrk c}) c1 c'"
      "edata c' (wbrk c) = d" "euse c' (wbrk c) = 0" "ptr c' (wbrk c) = file"
      using append_entry_rep [OF c1(2), of "file" d] d fits size K c1(4) by auto
    have "wbrk c \<notin> set es'" using cache_ok_bound [OF ok, of "wbrk c"] sub by auto
    then have "cache_keep (set es') c c'" by (intro cache_keep_trans [OF c1(3) c'(4)]) auto
    with run fits F c' show ?thesis by simp
  qed
qed

end
