(* ===== verification/Web_CacheProps.thy ===== *)
theory Web_CacheProps
  imports Web_CacheInv
begin

text \<open>
  The file cache implements the interface \<open>lru_cache\<close>; its creation and destruction; the properties of the cache.
\<close>

section \<open>The cache implements its specification\<close>

definition item_of :: "Cache \<Rightarrow> nat \<Rightarrow> cstring item" where
  "item_of c e = \<lparr>it_name = fname c e, it_size = fsize c e, it_uses = euse c e\<rparr>"

definition items :: "Cache \<Rightarrow> cstring item list" where
  "items c = map (item_of c) (entries_of c)"

definition data_of :: "Cache \<Rightarrow> nat \<Rightarrow> (cstring \<times> int) option" where
  "data_of c f = map_option (\<lambda>d. (file_name d, file_size d)) (fdata c f)"

lemma item_of_simps [simp]: "it_name (item_of c e) = fname c e" "it_size (item_of c e) = fsize c e" "it_uses (item_of c e) = euse c e"
  by (simp_all add: item_of_def)

lemma evict_items: "map (item_of c) (evict_spec (euse c) (fsize c) es m) = spec_evict m (map (item_of c) es)"
  by (induction es arbitrary: m) auto

lemma total_items: "total_size (map (item_of c) es) = sum_list (map (fsize c) es)"
  by (induction es) (simp_all add: total_size_def)

lemma items_keep: "cache_keep S c c' \<Longrightarrow> set es \<subseteq> S \<Longrightarrow> map (item_of c') es = map (item_of c) es"
  by (auto simp: cache_keep_def item_of_def)

lemma hit_name: "cache_hit c es nm \<noteq> None \<longleftrightarrow> nm \<in> it_name ` set (map (item_of c) es)"
  by (auto simp: cache_hit_def find_None_iff image_iff)

lemma find_item: "find (\<lambda>i. it_name i = nm) (map (item_of c) es) = map_option (item_of c) (cache_hit c es nm)"
  unfolding cache_hit_def by (induction es) auto

lemma cache_inv_entries: "cache_inv c \<Longrightarrow> entries_ok c (entries_of c)"
  by (auto simp: cache_inv_def elim: cache_okE)

lemma lookup_refines:
  assumes inv: "cache_inv c"
  shows "\<exists>r c'. cache_lookup c nm = Ok (r, c') \<and> cache_inv c' \<and> items c' = spec_lookup nm (items c) \<and>
      (r \<noteq> None \<longleftrightarrow> nm \<in> it_name ` set (items c)) \<and> max_cache_size c' = max_cache_size c \<and> data_of c' = data_of c"
proof -
  let ?es = "entries_of c"
  from inv have ok: "cache_ok c ?es" by (simp add: cache_inv_def)
  note L = cache_lookup_rep [OF ok, of nm]
  show ?thesis
  proof (cases "cache_hit c ?es nm")
    case None
    then show ?thesis using L inv hit_name [of c ?es nm] by (simp add: items_def spec_lookup_def find_item)
  next
    case (Some e)
    with L obtain c' where c': "cache_lookup c nm = Ok (Some e, c')" "cache_ok c' (remove1 e ?es @ [e])" "cache_keep (- {e}) c c'"
      "euse c' e = euse c e + 1" "edata c' e = edata c e" by auto
    have e: "e \<in> set ?es" "fname c e = nm" using Some cache_hit_Some [OF cache_inv_entries [OF inv]] by simp_all
    have ent: "distinct ?es" "inj_on (fname c) (set ?es)" using cache_inv_entries [OF inv] by (simp_all add: entries_ok_def)
    have "filter (\<lambda>x. fname c x \<noteq> nm) ?es = filter (\<lambda>x. x \<noteq> e) ?es"
      by (rule filter_cong) (use ent(2) e in \<open>auto dest: inj_onD\<close>)
    then have rm: "remove1 e ?es = filter (\<lambda>x. fname c x \<noteq> nm) ?es" using ent(1) by (simp add: distinct_remove1_removeAll removeAll_filter_not_eq eq_commute)
    have keep: "map (item_of c') (remove1 e ?es) = map (item_of c) (remove1 e ?es)"
      by (rule items_keep [OF c'(3)]) (use ent(1) in auto)
    have "items c' = map (item_of c') (remove1 e ?es @ [e])" using c'(2) by (simp add: items_def cache_ok_inv)
    also have "\<dots> = spec_lookup nm (items c)"
      unfolding map_append keep using Some c'(4,5)
      by (simp add: rm items_def spec_lookup_def find_item item_of_def filter_map o_def)
    finally have I: "items c' = spec_lookup nm (items c)" .
    moreover have "nm \<in> it_name ` set (items c)" using hit_name [of c ?es nm] Some by (simp add: items_def)
    moreover have "data_of c' = data_of c" "max_cache_size c' = max_cache_size c" using c'(3) by (auto simp: cache_keep_def data_of_def fun_eq_iff)
    moreover have "cache_inv c'" using c'(2) by (simp add: cache_ok_inv)
    ultimately show ?thesis using c'(1) by auto
  qed
qed

lemma insert_refines:
  assumes inv: "cache_inv c" and d: "data_of c f = Some (nm, sz)" and sz: "0 \<le> sz"
  shows "\<exists>c'. cache_insert c f = Ok (fst (spec_insert (max_cache_size c) nm sz (items c)), c') \<and> cache_inv c' \<and>
      items c' = snd (spec_insert (max_cache_size c) nm sz (items c)) \<and> max_cache_size c' = max_cache_size c \<and> data_of c' = data_of c"
proof -
  let ?es = "entries_of c" and ?mx = "max_cache_size c"
  from inv have ok: "cache_ok c ?es" by (simp add: cache_inv_def)
  from d obtain fd where fd: "fdata c f = Some fd" "file_name fd = nm" "file_size fd = sz" by (auto simp: data_of_def)
  have size: "c_size c = sum_list (map (fsize c) ?es)" using cache_inv_entries [OF inv] by (simp add: entries_ok_def)
  define es' where "es' = (if c_size c + file_size fd > ?mx then evict_spec (euse c) (fsize c) ?es (c_size c + file_size fd - ?mx) else ?es)"
  have room: "map (item_of c) es' = spec_room ?mx sz (items c)"
    by (simp add: es'_def spec_room_def items_def evict_items total_items size fd)
  then have tot: "sum_list (map (fsize c) es') = total_size (spec_room ?mx sz (items c))" by (metis total_items)
  from cache_insert_rep [OF ok fd(1) _ es'_def] sz fd obtain r c' where R: "cache_insert c f = Ok (r, c')"
    "if cache_hit c ?es nm \<noteq> None \<or> sz > ?mx then r = 0 \<and> c' = c
     else if sum_list (map (fsize c) es') + sz > ?mx then r = 0 \<and> cache_ok c' es' \<and> cache_keep (set es') c c'
     else r = 1 \<and> cache_ok c' (es' @ [wbrk c]) \<and> cache_keep (set es') c c' \<and> edata c' (wbrk c) = fd \<and> euse c' (wbrk c) = 0" by auto
  have hit: "cache_hit c ?es nm \<noteq> None \<longleftrightarrow> nm \<in> it_name ` set (items c)" using hit_name [of c ?es nm] by (simp add: items_def)
  have keep: "map (item_of c') es' = spec_room ?mx sz (items c) \<and> max_cache_size c' = ?mx \<and> data_of c' = data_of c" if "cache_keep (set es') c c'"
    using items_keep [OF that order_refl] room that by (auto simp: cache_keep_def data_of_def fun_eq_iff)
  show ?thesis
  proof (cases "nm \<in> it_name ` set (items c) \<or> sz > ?mx")
    case True
    then show ?thesis using R hit inv by (auto simp: spec_insert_def)
  next
    case new: False
    show ?thesis
    proof (cases "total_size (spec_room ?mx sz (items c)) + sz > ?mx")
      case True
      with R(2) new hit tot have "r = 0" "cache_ok c' es'" "cache_keep (set es') c c'" by auto
      with keep new True R(1) show ?thesis by (simp add: spec_insert_def cache_ok_inv items_def)
    next
      case False
      with R(2) new hit tot have "r = 1" "cache_ok c' (es' @ [wbrk c])" "cache_keep (set es') c c'" "edata c' (wbrk c) = fd" "euse c' (wbrk c) = 0" by auto
      with keep new False R(1) fd show ?thesis by (simp add: spec_insert_def cache_ok_inv items_def item_of_def)
    qed
  qed
qed

lemma items_bounds:
  assumes "cache_inv c"
  shows "total_size (items c) \<le> max_cache_size c \<and> distinct (map it_name (items c)) \<and> (\<forall>i \<in> set (items c). 0 \<le> it_size i \<and> 0 \<le> it_uses i)"
  using cache_inv_entries [OF assms] by (auto simp: items_def total_items entries_ok_def distinct_map o_def)

interpretation wc: lru_cache cache_inv items max_cache_size data_of cache_lookup cache_insert
  by unfold_locales (rule lookup_refines insert_refines items_bounds; assumption)+

section \<open>Creating and destroying\<close>

text \<open>
  A file record whose name and buffer are \<^verbatim>\<open>NULL\<close> has empty ones here; nothing reads them before they
  are set.
\<close>

definition file_data_init :: "Cache \<Rightarrow> nat \<times> Cache" where
  "file_data_init c = (wbrk c, c\<lparr>fdata := (fdata c)(wbrk c \<mapsto> \<lparr>file_name = [], file_buf = [], file_size = 0\<rparr>), wbrk := Suc (wbrk c)\<rparr>)"

definition file_data_free :: "Cache \<Rightarrow> nat \<Rightarrow> Cache outcome" where
  "file_data_free c data = and_then (at_addr (fdata c) data) (\<lambda>_. Ok (c\<lparr>fdata := (fdata c)(data := None)\<rparr>))"

fun clear_chain :: "nat \<Rightarrow> Cache \<Rightarrow> nat option \<Rightarrow> Cache outcome" where
  "clear_chain 0 c entry = Crash Diverges"
| "clear_chain (Suc fuel) c entry =
     (case entry of None \<Rightarrow> Ok c
      | Some e \<Rightarrow>
          and_then (at_addr (centries c) e) (\<lambda>x.
          and_then (file_data_free c (ce_data x)) (\<lambda>c.
            clear_chain fuel (c\<lparr>centries := (centries c)(e := None)\<rparr>) (ce_next x))))"

fun clear_slots :: "nat \<Rightarrow> nat \<Rightarrow> Cache \<Rightarrow> Cache outcome" where
  "clear_slots 0 i c = Ok c"
| "clear_slots (Suc n) i c =
     and_then (next_of c (Slot i)) (\<lambda>entry. and_then (clear_chain (Suc (wbrk c)) c entry) (\<lambda>c. clear_slots n (Suc i) c))"

definition cache_clear :: "Cache \<Rightarrow> Cache outcome" where
  "cache_clear c = clear_slots (nat (capacity c)) 0 c"

text \<open>\<open>destroy_LRU\<close> and \<open>cache_destroy\<close> end with \<^verbatim>\<open>free\<close>; the last statement of \<open>cache_destroy\<close> unlocks the mutex inside the freed cache.\<close>

definition destroy_LRU :: "Cache \<Rightarrow> Cache outcome" where
  "destroy_LRU c = clear_LRU c"

definition cache_destroy :: "Cache option \<Rightarrow> unit outcome" where
  "cache_destroy cache =
     (case cache of None \<Rightarrow> Ok ()
      | Some c \<Rightarrow> and_then (cache_clear c) (\<lambda>c. and_then (destroy_LRU c) (\<lambda>c. Crash MemFault)))"

text \<open>The part of \<open>server_init\<close> that builds the cache.\<close>

definition cache_init :: "int \<Rightarrow> Cache" where
  "cache_init max_size =
     \<lparr>table = replicate 5000 None, LRU = \<lparr>l_head = None, l_tail = None, l_size = 0\<rparr>, c_size = 0, capacity = 5000, max_cache_size = max_size,
      lnodes = (\<lambda>_. None), centries = (\<lambda>_. None), fdata = (\<lambda>_. None), wbrk = 0\<rparr>"

lemma cache_init_inv:
  assumes "0 \<le> m" and "m < 2 ^ 31"
  shows "cache_inv (cache_init m\<lparr>fdata := F, wbrk := w\<rparr>)" "items (cache_init m\<lparr>fdata := F, wbrk := w\<rparr>) = []"
proof -
  let ?c = "cache_init m\<lparr>fdata := F, wbrk := w\<rparr>"
  have "cache_parts ?c [] (\<lambda>_. [])"
    using assms by (simp add: cache_parts_def lru_rep_def table_rep_def entries_ok_def cache_init_def)
  then have "cache_ok ?c []" by (auto simp: cache_ok_def)
  then show "cache_inv ?c" "items ?c = []" by (simp_all add: cache_ok_inv items_def)
qed

lemma clear_chain_rep:
  "nchain (cnx c) x es None \<Longrightarrow> distinct es \<Longrightarrow> \<forall>e \<in> set es. has_data c e \<Longrightarrow> inj_on (ptr c) (set es) \<Longrightarrow> length es < fuel \<Longrightarrow>
   clear_chain fuel c x = Ok (c\<lparr>centries := centries c |` (- set es), fdata := fdata c |` (- ptr c ` set es)\<rparr>)"
proof (induction es arbitrary: c x fuel)
  case Nil
  then obtain f where "fuel = Suc f" by (cases fuel) auto
  with Nil.prems(1) show ?case by simp
next
  case (Cons e es)
  from Cons.prems(5) obtain f where f: "fuel = Suc f" "length es < f" by (cases fuel) auto
  from Cons.prems(1) obtain y where y: "x = Some e" "centries c e = Some y" "nchain (cnx c) (ce_next y) es None" using cnx_def [of c e] by auto
  from Cons.prems(3) y obtain d where d: "fdata c (ce_data y) = Some d" by (auto simp: has_data_def)
  let ?c = "c\<lparr>fdata := (fdata c)(ce_data y := None), centries := (centries c)(e := None)\<rparr>"
  have ne: "e \<notin> set es" using Cons.prems(2) by simp
  have pe: "ptr c e = ce_data y" using y(2) by (simp add: ptr_def)
  have ptr: "ptr ?c a = ptr c a" if "a \<in> set es" for a using that ne by (auto simp: ptr_def)
  have ptrne: "ptr c a \<noteq> ce_data y" if "a \<in> set es" for a using Cons.prems(4) that ne pe by (auto simp: inj_on_def)
  have "nchain (cnx ?c) (ce_next y) es None"
    using y(3) by (subst nchain_cong [of _ _ "cnx c"]) (use ne in \<open>auto simp: cnx_def\<close>)
  moreover have "has_data ?c a" if a: "a \<in> set es" for a
  proof -
    from a Cons.prems(3) obtain z where "centries c a = Some z" "fdata c (ce_data z) \<noteq> None" by (auto simp: has_data_def)
    with ptrne [OF a] a ne show ?thesis by (auto simp: has_data_def ptr_def)
  qed
  moreover have "inj_on (ptr ?c) (set es)" using Cons.prems(4) ptr by (auto simp: inj_on_def)
  ultimately have "clear_chain f ?c (ce_next y) = Ok (?c\<lparr>centries := centries ?c |` (- set es), fdata := fdata ?c |` (- ptr ?c ` set es)\<rparr>)"
    using Cons.prems(2) f(2) by (intro Cons.IH) auto
  moreover have "centries ?c |` (- set es) = centries c |` (- set (e # es))" by (auto simp: restrict_map_def fun_eq_iff)
  moreover have "ptr ?c ` set es = ptr c ` set es" by (intro image_cong) (simp_all only: ptr)
  then have "fdata ?c |` (- ptr ?c ` set es) = fdata c |` (- ptr c ` set (e # es))" using pe by (auto simp: restrict_map_def fun_eq_iff)
  ultimately show ?case using f(1) y d by (simp add: at_addr_def file_data_free_def)
qed

lemma clear_slots_rep:
  assumes t: "table_rep c B" and h: "\<forall>k. \<forall>e \<in> set (B k). has_data c e" and inj: "inj_on (ptr c) (\<Union>k. set (B k))"
  shows "i + n \<le> length (table c) \<Longrightarrow>
    clear_slots n i (c\<lparr>centries := centries c |` (- (\<Union>k < i. set (B k))), fdata := fdata c |` (- ptr c ` (\<Union>k < i. set (B k)))\<rparr>) =
    Ok (c\<lparr>centries := centries c |` (- (\<Union>k < i + n. set (B k))), fdata := fdata c |` (- ptr c ` (\<Union>k < i + n. set (B k)))\<rparr>)"
proof (induction n arbitrary: i)
  case (Suc n)
  let ?D = "\<Union>k < i. set (B k)"
  let ?c = "c\<lparr>centries := centries c |` (- ?D), fdata := fdata c |` (- ptr c ` ?D)\<rparr>"
  have i: "i < length (table c)" using Suc.prems by simp
  note D = table_repD [OF t i]
  have dis: "a \<notin> ?D" if "a \<in> set (B i)" for a
  proof
    assume "a \<in> ?D"
    then obtain j where "j < i" "a \<in> set (B j)" by blast
    moreover have "set (B j) \<inter> set (B i) = {}" using t \<open>j < i\<close> by (simp add: table_rep_def)
    ultimately show False using that by blast
  qed
  have same: "centries ?c a = centries c a" if "a \<in> set (B i)" for a using dis [OF that] by (simp add: restrict_map_def)
  have ptr: "ptr ?c a = ptr c a" if "a \<in> set (B i)" for a using same [OF that] by (simp add: ptr_def)
  have ptrne: "ptr c a \<notin> ptr c ` ?D" if "a \<in> set (B i)" for a
  proof
    assume "ptr c a \<in> ptr c ` ?D"
    then obtain b where b: "b \<in> ?D" "ptr c a = ptr c b" by blast
    then have "a = b" using inj_onD [OF inj b(2)] that by blast
    with dis [OF that] b(1) show False by simp
  qed
  have data: "has_data ?c a" if a: "a \<in> set (B i)" for a
  proof -
    from h a have "has_data c a" by blast
    then obtain x where x: "centries c a = Some x" "fdata c (ce_data x) \<noteq> None" by (auto simp: has_data_def)
    with ptrne [OF a] same [OF a] show ?thesis by (simp add: has_data_def ptr_def restrict_map_def)
  qed
  have "nchain (cnx ?c) (table c ! i) (B i) None"
    using D(2) by (subst nchain_cong [of _ _ "cnx c"]) (use same in \<open>simp_all add: cnx_def\<close>)
  moreover have "inj_on (ptr ?c) (set (B i))" using inj ptr by (auto simp: inj_on_def)
  ultimately have "clear_chain (Suc (wbrk c)) ?c (table c ! i) = Ok (?c\<lparr>centries := centries ?c |` (- set (B i)), fdata := fdata ?c |` (- ptr ?c ` set (B i))\<rparr>)"
    using D data by (intro clear_chain_rep) auto
  moreover have "centries ?c |` (- set (B i)) = centries c |` (- (\<Union>k < Suc i. set (B k)))"
    by (auto simp: restrict_map_def fun_eq_iff less_Suc_eq)
  moreover have "ptr ?c ` set (B i) = ptr c ` set (B i)" by (intro image_cong) (simp_all only: ptr)
  then have "fdata ?c |` (- ptr ?c ` set (B i)) = fdata c |` (- ptr c ` (\<Union>k < Suc i. set (B k)))"
    by (simp add: lessThan_Suc image_Un restrict_map_def fun_eq_iff)
  ultimately have "clear_slots (Suc n) i ?c =
      clear_slots n (Suc i) (c\<lparr>centries := centries c |` (- (\<Union>k < Suc i. set (B k))), fdata := fdata c |` (- ptr c ` (\<Union>k < Suc i. set (B k)))\<rparr>)"
    using i by (simp add: next_of_def del: clear_chain.simps)
  with Suc.IH [of "Suc i"] Suc.prems show ?case by simp
qed simp

lemma clear_LRU_loop_rep:
  "nchain (lnx c) x ns None \<Longrightarrow> distinct ns \<Longrightarrow> length ns < fuel \<Longrightarrow> clear_LRU_loop fuel c x = Ok (c\<lparr>lnodes := lnodes c |` (- set ns)\<rparr>)"
proof (induction ns arbitrary: c x fuel)
  case Nil
  then obtain f where "fuel = Suc f" by (cases fuel) auto
  with Nil.prems(1) show ?case by simp
next
  case (Cons p ns)
  from Cons.prems(3) obtain f where f: "fuel = Suc f" "length ns < f" by (cases fuel) auto
  from Cons.prems(1) obtain n where n: "x = Some p" "lnodes c p = Some n" "nchain (lnx c) (le_next n) ns None" using lnx_def [of c p] by auto
  let ?c = "c\<lparr>lnodes := (lnodes c)(p := None)\<rparr>"
  have ch: "nchain (lnx ?c) (le_next n) ns None"
    using n(3) by (subst nchain_cong [of _ _ "lnx c"]) (use Cons.prems(2) in \<open>auto simp: lnx_def\<close>)
  have "clear_LRU_loop f ?c (le_next n) = Ok (?c\<lparr>lnodes := lnodes ?c |` (- set ns)\<rparr>)"
    by (rule Cons.IH [OF ch]) (use Cons.prems(2) f(2) in simp_all)
  moreover have "lnodes ?c |` (- set ns) = lnodes c |` (- set (p # ns))" by (auto simp: restrict_map_def fun_eq_iff)
  ultimately show ?case using f(1) n by (simp add: at_addr_def free_lnode_def)
qed

section \<open>Properties of the cache\<close>

text \<open>
  (C8) Looking up a file name on a cache that satisfies its invariant always returns, keeps the invariant, and refines \<open>spec_lookup\<close>:
  a cached name gives its entry, counts one more user of it and makes it the most recently used one;
  any other name gives \<^verbatim>\<open>NULL\<close> and changes nothing.
\<close>

theorem cache_lookup_correct:
  assumes "cache_inv c"
  shows "\<exists>r c'. cache_lookup c nm = Ok (r, c') \<and> cache_inv c' \<and> items c' = spec_lookup nm (items c) \<and>
    (case r of None \<Rightarrow> nm \<notin> it_name ` set (items c) \<and> c' = c | Some e \<Rightarrow> e \<in> set (entries_of c) \<and> name_of c' e = Ok nm)"
proof -
  obtain r c' where L: "cache_lookup c nm = Ok (r, c')" "cache_inv c'" "items c' = spec_lookup nm (items c)" "r \<noteq> None \<longleftrightarrow> nm \<in> it_name ` set (items c)"
    using lookup_refines [OF assms, of nm] by blast
  have "case r of None \<Rightarrow> c' = c | Some e \<Rightarrow> e \<in> set (entries_of c) \<and> name_of c' e = Ok nm"
  proof (cases "cache_hit c (entries_of c) nm")
    case None
    then show ?thesis using L(1) cache_lookup_rep [of c "entries_of c" nm] assms by (simp add: cache_inv_def)
  next
    case (Some e)
    then have e: "e \<in> set (entries_of c)" "fname c e = nm" using cache_hit_Some [OF cache_inv_entries [OF assms]] by simp_all
    from Some have "r = Some e" "cache_ok c' (remove1 e (entries_of c) @ [e])" "edata c' e = edata c e"
      using L(1) cache_lookup_rep [of c "entries_of c" nm] assms by (auto simp: cache_inv_def)
    moreover from this have "has_data c' e" by (auto elim!: cache_okE simp: entries_ok_def)
    ultimately show ?thesis using e by (simp add: name_of_data)
  qed
  with L show ?thesis by (cases r) auto
qed

definition sample_cache :: Cache where
  "sample_cache = cache_init 10\<lparr>fdata := [0 \<mapsto> \<lparr>file_name = [97], file_buf = [1, 2, 3, 4], file_size = 4\<rparr>], wbrk := 1\<rparr>"

lemma sample_cache_inv: "cache_inv sample_cache" "items sample_cache = []" "max_cache_size sample_cache = 10" "data_of sample_cache 0 = Some ([97], 4)"
  using cache_init_inv [of 10] by (simp_all add: sample_cache_def data_of_def) (simp add: cache_init_def)

theorem cache_lookup_correct_witness: "\<exists>c'. cache_lookup sample_cache [97] = Ok (None, c') \<and> cache_inv c'"
  using cache_lookup_correct [OF sample_cache_inv(1), of "[97]"] sample_cache_inv(2) by (auto simp: spec_lookup_def items_def split: option.splits)

text \<open>
  (C9) Inserting a file whose record is set up refines \<open>spec_insert\<close>: nothing happens when the name is cached or the file is
  larger than the cache; otherwise unused entries go, least recently used first, until the file fits, and the file becomes the
  most recently used entry if it does. The return value says whether it was inserted.
\<close>

theorem cache_insert_correct:
  assumes "cache_inv c" and "data_of c f = Some (nm, sz)" and "0 \<le> sz"
  shows "\<exists>c'. cache_insert c f = Ok (fst (spec_insert (max_cache_size c) nm sz (items c)), c') \<and> cache_inv c' \<and>
    items c' = snd (spec_insert (max_cache_size c) nm sz (items c)) \<and> data_of c' = data_of c"
  using insert_refines [OF assms] by blast

theorem cache_insert_correct_witness:
  "\<exists>c'. cache_insert sample_cache 0 = Ok (1, c') \<and> items c' = [\<lparr>it_name = [97], it_size = 4, it_uses = 0\<rparr>]"
  using cache_insert_correct [OF sample_cache_inv(1,4)] sample_cache_inv(2,3) by (auto simp: spec_insert_def spec_room_def total_size_def)

text \<open>
  (C10) An insertion never makes the cache exceed its limit and never drops an entry that is in use, and it succeeds exactly when the
  name is new and the file fits beside the entries in use.
\<close>

theorem cache_insert_keeps_used:
  assumes "cache_inv c" and "data_of c f = Some (nm, sz)" and "0 \<le> sz"
  shows "\<exists>r c'. cache_insert c f = Ok (r, c') \<and> cache_inv c' \<and> total_size (items c') \<le> max_cache_size c \<and>
    (r = 1 \<longleftrightarrow> nm \<notin> it_name ` set (items c) \<and> total_size (filter (\<lambda>i. it_uses i > 0) (items c)) + sz \<le> max_cache_size c) \<and>
    (\<forall>i \<in> set (items c). it_uses i > 0 \<longrightarrow> i \<in> set (items c'))"
  by (rule wc.insert_result [OF assms])

theorem cache_insert_keeps_used_witness:
  "\<exists>c'. cache_insert sample_cache 0 = Ok (1, c') \<and> cache_inv c'" (is ?P)
proof -
  obtain r c' where "cache_insert sample_cache 0 = Ok (r, c')" "cache_inv c'" "r = 1"
    using cache_insert_keeps_used [OF sample_cache_inv(1,4)] sample_cache_inv(2,3) by (auto simp: total_size_def)
  then show ?P by blast
qed

text \<open>
  After a successful insertion the next lookup of the name hits, and the file is then the most recently used entry with one user.
\<close>

theorem cache_lookup_after_insert:
  assumes "cache_inv c" and "data_of c f = Some (nm, sz)" and "0 \<le> sz" and "cache_insert c f = Ok (1, c')"
  shows "\<exists>e c''. cache_lookup c' nm = Ok (Some e, c'') \<and> cache_inv c'' \<and> (\<exists>its. items c'' = its @ [\<lparr>it_name = nm, it_size = sz, it_uses = 1\<rparr>])"
  by (rule wc.lookup_after_insert [OF assms])

theorem cache_lookup_after_insert_witness:
  "\<exists>c' e c''. cache_insert sample_cache 0 = Ok (1, c') \<and> cache_lookup c' [97] = Ok (Some e, c'')"
proof -
  obtain c' where c': "cache_insert sample_cache 0 = Ok (1, c')"
    using insert_refines [OF sample_cache_inv(1,4)] sample_cache_inv(2,3) by (auto simp: spec_insert_def spec_room_def total_size_def)
  with cache_lookup_after_insert [OF sample_cache_inv(1,4) _ c'] show ?thesis by auto
qed

text \<open>
  \<open>cache_clear\<close> followed by \<open>destroy_LRU\<close> frees each node, each entry and the data of each entry once;
  the unlocking at the end of \<open>cache_destroy\<close> is then an access to freed memory.
\<close>

theorem cache_destroy_use_after_free:
  assumes inv: "cache_inv c"
  shows "\<exists>c1 c2. cache_clear c = Ok c1 \<and> destroy_LRU c1 = Ok c2 \<and> (\<forall>e \<in> set (entries_of c). centries c2 e = None) \<and>
    fdata c2 = fdata c |` (- ptr c ` set (entries_of c)) \<and> LRU c2 = \<lparr>l_head = None, l_tail = None, l_size = 0\<rparr> \<and> cache_destroy (Some c) = Crash MemFault"
proof -
  obtain ns B where O: "map (entry_at c) ns = entries_of c" "entries_ok c (entries_of c)" "lru_rep c ns" "table_rep c B" "(\<Union>k. set (B k)) = set (entries_of c)"
    using inv unfolding cache_inv_def by (elim cache_okE)
  have h: "\<forall>k. \<forall>e \<in> set (B k). has_data c e"
  proof (intro allI ballI)
    fix k e assume that: "e \<in> set (B k)"
    have "e \<in> set (entries_of c)" unfolding O(5) [symmetric] using that by blast
    then show "has_data c e" using O(2) by (simp add: entries_ok_def)
  qed
  have inj: "inj_on (ptr c) (\<Union>k. set (B k))" unfolding O(5)
  proof (rule inj_onI)
    fix a b assume ab: "a \<in> set (entries_of c)" "b \<in> set (entries_of c)" "ptr c a = ptr c b"
    then have "fname c a = fname c b" by (simp add: edata_def ptr_def)
    moreover have "inj_on (fname c) (set (entries_of c))" using O(2) by (simp add: entries_ok_def)
    ultimately show "a = b" using ab by (simp add: inj_on_def)
  qed
  have len: "nat (capacity c) = length (table c)" using O(2) by (simp add: entries_ok_def)
  have "(\<Union>k < length (table c). set (B k)) = set (entries_of c)"
  proof -
    have "k < length (table c)" if "x \<in> set (B k)" for x k
      using O(4) that unfolding table_rep_def by (metis empty_iff empty_set linorder_not_less)
    then have "(\<Union>k < length (table c). set (B k)) = (\<Union>k. set (B k))" by auto
    then show ?thesis by (simp only: O(5))
  qed
  then have cl: "cache_clear c = Ok (c\<lparr>centries := centries c |` (- set (entries_of c)), fdata := fdata c |` (- ptr c ` set (entries_of c))\<rparr>)" (is "_ = Ok ?c1")
    using clear_slots_rep [OF O(4) h inj, of 0 "length (table c)"] by (simp add: cache_clear_def len restrict_map_def)
  have ch: "nchain (lnx ?c1) (l_head (LRU ?c1)) ns None" "distinct ns" using O(3) by (simp_all add: lru_rep_def lnx_def [abs_def])
  then have "clear_LRU_loop (Suc (wbrk ?c1)) ?c1 (l_head (LRU ?c1)) = Ok (?c1\<lparr>lnodes := lnodes ?c1 |` (- set ns)\<rparr>)"
    using lru_length [OF O(3)] by (intro clear_LRU_loop_rep) simp_all
  then have "destroy_LRU ?c1 = Ok (?c1\<lparr>lnodes := lnodes c |` (- set ns), LRU := \<lparr>l_head = None, l_tail = None, l_size = 0\<rparr>\<rparr>)"
    by (simp add: destroy_LRU_def clear_LRU_def set_LRU_def del: clear_LRU_loop.simps)
  with cl show ?thesis by (simp add: cache_destroy_def)
qed

theorem cache_destroy_use_after_free_witness: "cache_destroy (Some sample_cache) = Crash MemFault"
  using cache_destroy_use_after_free [OF sample_cache_inv(1)] by blast

end
