(* ===== verification/Web_Request.thy ===== *)
theory Web_Request
  imports Web_Cache
begin

text \<open>
  Robust reading and writing of \<^verbatim>\<open>webserver/common.c\<close> and the handling of one request in \<^verbatim>\<open>webserver/request.c\<close>. What the network and
  the file system deliver is an argument of the functions.
\<close>

section \<open>Robust input and output\<close>

text \<open>
  A descriptor that is read is the list of what the next calls of \<^verbatim>\<open>read\<close> return: bytes (none at the end of the input), an interruption by a
  signal, or another error. A call that asks for fewer bytes than are there leaves the rest.
\<close>

datatype rd = Data "byte list" | Intr | Fail

fun sys_read :: "nat \<Rightarrow> rd list \<Rightarrow> rd \<times> rd list" where
  "sys_read n [] = (Data [], [])"
| "sys_read n (Intr # s) = (Intr, s)"
| "sys_read n (Fail # s) = (Fail, s)"
| "sys_read n (Data bs # s) = (if n < length bs then (Data (take n bs), Data (drop n bs) # s) else (Data bs, s))"

function rio_read_loop :: "nat \<Rightarrow> byte list \<Rightarrow> rd list \<Rightarrow> byte list option \<times> rd list" where
  "rio_read_loop nleft buf s =
     (if nleft = 0 then (Some buf, s)
      else
        case sys_read nleft s of
          (Intr, s) \<Rightarrow> rio_read_loop nleft buf s
        | (Fail, s) \<Rightarrow> (None, s)
        | (Data bs, s) \<Rightarrow> if bs = [] then (Some buf, s) else rio_read_loop (nleft - length bs) (buf @ bs) s)"
  by pat_completeness auto

lemma sys_read_length: "sys_read n s = (r, s') \<Longrightarrow> length s' \<le> length s \<and> (r = Intr \<longrightarrow> length s' < length s)"
  by (cases "(n, s)" rule: sys_read.cases) (auto split: if_splits)

termination rio_read_loop
  by (relation "measure (\<lambda>(nleft, buf, s). nleft + length s)") (auto dest!: sys_read_length [OF sym] intro: add_less_le_mono diff_less)

declare rio_read_loop.simps [simp del]

definition rio_read :: "nat \<Rightarrow> rd list \<Rightarrow> byte list option \<times> rd list" where
  "rio_read n s = rio_read_loop n [] s"

text \<open>
  Each call of \<^verbatim>\<open>write\<close> takes a number of bytes, or returns no more than zero, with \<^verbatim>\<open>errno\<close> set to \<^verbatim>\<open>EINTR\<close> or not. Where the list of results ends
  the call does not return. The result is what was sent, and whether the write succeeded.
\<close>

datatype wr = Wrote nat | WErr bool

fun rio_write :: "byte list \<Rightarrow> wr list \<Rightarrow> (bool \<times> byte list) option" where
  "rio_write [] ws = Some (True, [])"
| "rio_write (b # bs) [] = None"
| "rio_write (b # bs) (WErr eintr # ws) = (if eintr then rio_write (b # bs) ws else Some (False, []))"
| "rio_write (b # bs) (Wrote k # ws) = map_option (\<lambda>(ok, out). (ok, take k (b # bs) @ out)) (rio_write (drop k (b # bs)) ws)"

text \<open>The buffered reader: the unread bytes of its buffer, and the descriptor.\<close>

definition RIO_BUFSIZE :: nat where "RIO_BUFSIZE = 8192"

record rio =
  rio_buf :: "byte list"
  rio_fd :: "rd list"

definition rio_init :: "rd list \<Rightarrow> rio" where
  "rio_init fd = \<lparr>rio_buf = [], rio_fd = fd\<rparr>"

text \<open>\<open>rio_fill\<close> is the loop that refills the buffer: \<open>Some True\<close> bytes are there, \<open>Some False\<close> end of the input, \<open>None\<close> an error.\<close>

fun fill_loop :: "rd list \<Rightarrow> bool option \<times> rio" where
  "fill_loop [] = (Some False, \<lparr>rio_buf = [], rio_fd = []\<rparr>)"
| "fill_loop (Intr # s) = fill_loop s"
| "fill_loop (Fail # s) = (None, \<lparr>rio_buf = [], rio_fd = s\<rparr>)"
| "fill_loop (Data bs # s) =
     (case sys_read RIO_BUFSIZE (Data bs # s) of
        (Data bs', s') \<Rightarrow> (if bs' = [] then (Some False, \<lparr>rio_buf = [], rio_fd = s'\<rparr>) else (Some True, \<lparr>rio_buf = bs', rio_fd = s'\<rparr>))
      | (_, s') \<Rightarrow> (None, \<lparr>rio_buf = [], rio_fd = s'\<rparr>))"

definition rio_readb :: "rio \<Rightarrow> nat \<Rightarrow> byte list option \<times> rio" where
  "rio_readb rp n =
     (let (r, rp) = (if rio_buf rp = [] then fill_loop (rio_fd rp) else (Some True, rp)) in
      case r of None \<Rightarrow> (None, rp)
      | Some False \<Rightarrow> (Some [], rp)
      | Some True \<Rightarrow> (Some (take n (rio_buf rp)), rp\<lparr>rio_buf := drop n (rio_buf rp)\<rparr>))"

text \<open>
  A line: at most \<open>maxlen\<close> bytes, up to and with the newline. The result is the number of bytes and what is in the user's buffer, which
  has \<open>cells\<close> bytes. At the end of the input without data nothing is written.
\<close>

definition NEWLINE :: byte where "NEWLINE = 10"

fun readline_loop :: "nat \<Rightarrow> rio \<Rightarrow> byte list \<Rightarrow> (byte list \<times> bool) option \<times> rio" where
  "readline_loop 0 rp acc = (Some (acc, False), rp)"
| "readline_loop (Suc k) rp acc =
     (case rio_readb rp 1 of
        (Some [c], rp) \<Rightarrow> if c = NEWLINE then (Some (acc @ [c], False), rp) else readline_loop k rp (acc @ [c])
      | (Some _, rp) \<Rightarrow> (Some (acc, acc = []), rp)
      | (None, rp) \<Rightarrow> (None, rp))"

definition rio_readlineb :: "nat \<Rightarrow> rio \<Rightarrow> byte list \<Rightarrow> nat \<Rightarrow> (int \<times> byte list \<times> rio) outcome" where
  "rio_readlineb cells rp buf maxlen =
     (case readline_loop maxlen rp [] of
        (None, rp) \<Rightarrow> Ok (- 1, buf, rp)
      | (Some (acc, eof), rp) \<Rightarrow>
          if eof then Ok (0, buf, rp)
          else mem_check (length acc < cells) (Ok (int (length acc), acc, rp)))"

section \<open>Requests\<close>

definition MAXLINE :: nat where "MAXLINE = 8192"

definition bytes_of :: "string \<Rightarrow> byte list" where
  "bytes_of s = map of_char s"

text \<open>The C string in a buffer ends before the first zero byte.\<close>

definition c_str :: "byte list \<Rightarrow> cstring" where
  "c_str buf = takeWhile (\<lambda>b. b \<noteq> 0) buf"

definition is_space :: "byte \<Rightarrow> bool" where
  "is_space b \<longleftrightarrow> b \<in> {9, 10, 11, 12, 13, 32}"

text \<open>\<open>scan_word\<close> is one conversion \<^verbatim>\<open>%s\<close>: skip white space, then take what follows up to the next white space.\<close>

definition scan_word :: "byte list \<Rightarrow> byte list \<times> byte list" where
  "scan_word s = (let s = dropWhile is_space s in (takeWhile (\<lambda>b. \<not> is_space b) s, dropWhile (\<lambda>b. \<not> is_space b) s))"

definition lower :: "byte \<Rightarrow> byte" where
  "lower b = (if 65 \<le> b \<and> b \<le> 90 then b + 32 else b)"

definition strcasecmp_eq :: "cstring \<Rightarrow> cstring \<Rightarrow> bool" where
  "strcasecmp_eq a b \<longleftrightarrow> map lower a = map lower b"

fun strstr :: "cstring \<Rightarrow> cstring \<Rightarrow> bool" where
  "strstr [] sub \<longleftrightarrow> sub = []"
| "strstr (c # s) sub \<longleftrightarrow> take (length sub) (c # s) = sub \<or> strstr s sub"

text \<open>\<open>strrchr\<close>: what starts at the last occurrence of a character.\<close>

definition strrchr :: "cstring \<Rightarrow> byte \<Rightarrow> cstring option" where
  "strrchr s c = (if c \<in> set s then Some (c # rev (takeWhile (\<lambda>b. b \<noteq> c) (rev s))) else None)"

definition request_parse_URI :: "cstring \<Rightarrow> nat \<Rightarrow> cstring" where
  "request_parse_URI uri maxlen = take (maxlen - 1) (bytes_of ''./'' @ uri)"

definition request_get_file_type :: "cstring \<Rightarrow> cstring" where
  "request_get_file_type filename =
     (if strstr filename (bytes_of ''.html'') then bytes_of ''text/html''
      else if strstr filename (bytes_of ''.gif'') then bytes_of ''image/gif''
      else if strstr filename (bytes_of ''.jpg'') then bytes_of ''image/jpeg''
      else bytes_of ''text/plain'')"

text \<open>Reading lines up to an empty one. The loop ends only when that line comes, so it takes fuel.\<close>

fun read_headers_loop :: "nat \<Rightarrow> rio \<Rightarrow> byte list \<Rightarrow> rio outcome" where
  "read_headers_loop 0 rp buf = Crash Diverges"
| "read_headers_loop (Suc fuel) rp buf =
     (if c_str buf = [13, 10] then Ok rp
      else and_then (rio_readlineb MAXLINE rp buf MAXLINE) (\<lambda>(n, buf, rp).
        if n < 0 then Crash ExitCall else read_headers_loop fuel rp buf))"

definition request_read_headers :: "nat \<Rightarrow> rio \<Rightarrow> byte list \<Rightarrow> rio outcome" where
  "request_read_headers fuel rp buf =
     and_then (rio_readlineb MAXLINE rp buf MAXLINE) (\<lambda>(n, buf, rp).
       if n < 0 then Crash ExitCall else read_headers_loop fuel rp buf)"

text \<open>
  The three words of the request line. A word the line does not have leaves what was in the memory of the variable, so those contents
  are arguments (\<open>buf\<close>, \<open>method\<close>, \<open>uri\<close>, and \<open>hbuf\<close> for the buffer of \<open>request_read_headers\<close>). The result is the file name, or \<open>None\<close> after the error reply.
\<close>

definition request_init :: "nat \<Rightarrow> rd list \<Rightarrow> byte list \<Rightarrow> cstring \<Rightarrow> cstring \<Rightarrow> byte list \<Rightarrow> cstring option outcome" where
  "request_init fuel fd buf method uri hbuf =
     and_then (rio_readlineb MAXLINE (rio_init fd) buf MAXLINE) (\<lambda>(n, buf, rp).
       if n < 0 then Crash ExitCall
       else
         let (w, rest) = scan_word (c_str buf);
             method = (if w = [] then method else w);
             (w', rest) = scan_word rest;
             uri = (if w' = [] then uri else w') in
         if \<not> strcasecmp_eq method (bytes_of ''GET'') then Ok None
         else and_then (request_read_headers fuel rp hbuf) (\<lambda>rp. Ok (Some (request_parse_URI uri MAXLINE))))"

text \<open>What \<^verbatim>\<open>stat\<close> and \<^verbatim>\<open>open\<close> find under a name: nothing, something that is no readable regular file, or a file with its contents.\<close>

datatype fs_object = Absent | Forbidden | File "byte list"

definition name_allowed :: "cstring \<Rightarrow> bool" where
  "name_allowed nm \<longleftrightarrow> (nm = [] \<or> hd nm \<noteq> 47) \<and> \<not> strstr nm [46, 46] \<and> strrchr nm 46 \<notin> {Some [46, 99], Some [46, 104]}"

text \<open>
  \<open>request_readfile\<close> fills in the size, an \<^verbatim>\<open>int\<close>, and the contents. The size of a huge file wraps around; \<^verbatim>\<open>Malloc\<close> of a negative size ends the
  process.
\<close>

definition request_readfile :: "file_data \<Rightarrow> fs_object \<Rightarrow> file_data option outcome" where
  "request_readfile data obj =
     (if \<not> name_allowed (file_name data) then Ok None
      else
        case obj of Absent \<Rightarrow> Ok None | Forbidden \<Rightarrow> Ok None
        | File bs \<Rightarrow>
            let size = sint (word_of_int (int (length bs)) :: 32 word) in
            if size = 0 then Ok (Some (data\<lparr>file_size := 0\<rparr>))
            else if size < 0 then Crash ExitCall
            else Ok (Some (data\<lparr>file_size := size, file_buf := take (nat size) bs\<rparr>)))"

fun decimal :: "nat \<Rightarrow> byte list" where
  "decimal n = (if n < 10 then [of_nat (48 + n)] else decimal (n div 10) @ [of_nat (48 + n mod 10)])"

declare decimal.simps [simp del]

definition csum :: "byte list \<Rightarrow> 32 word" where
  "csum buf = foldl (\<lambda>s b. s + ucast b) 0 buf"

text \<open>The reply: the header and the contents.\<close>

definition request_sendfile :: "file_data \<Rightarrow> byte list" where
  "request_sendfile data =
     bytes_of ''HTTP/1.0 200 OK'' @ [13, 10] @ bytes_of ''Server: OS Web Server'' @ [13, 10] @
     bytes_of ''Content-Type: '' @ request_get_file_type (file_name data) @ [13, 10] @
     bytes_of ''Content-Length: '' @ decimal (nat (file_size data)) @ [13, 10] @
     bytes_of ''Content-Csum: '' @ decimal (unat (csum (take (nat (file_size data)) (file_buf data)))) @ [13, 10, 13, 10] @
     take (nat (file_size data)) (file_buf data)"

section \<open>Reading and writing\<close>

text \<open>The bytes a descriptor delivers before the end of the input, whatever the pieces and interruptions.\<close>

fun input :: "rd list \<Rightarrow> byte list" where
  "input [] = []"
| "input (Data bs # s) = bs @ input s"
| "input (r # s) = input s"

definition no_fail :: "rd list \<Rightarrow> bool" where
  "no_fail s \<longleftrightarrow> Fail \<notin> set s \<and> Data [] \<notin> set s"

lemma sys_read_input:
  assumes "no_fail s" and "0 < n"
  shows "case sys_read n s of
      (Intr, s') \<Rightarrow> no_fail s' \<and> input s' = input s
    | (Fail, s') \<Rightarrow> False
    | (Data bs, s') \<Rightarrow> length bs \<le> n \<and> (if bs = [] then input s = [] else no_fail s' \<and> input s = bs @ input s')"
  using assms by (cases "(n, s)" rule: sys_read.cases) (auto simp: no_fail_def append_assoc [symmetric] simp del: append_assoc)

lemma rio_read_loop_input:
  "no_fail s \<Longrightarrow> fst (rio_read_loop n buf s) = Some (buf @ take n (input s))"
proof (induction n buf s rule: rio_read_loop.induct)
  case (1 n buf s)
  show ?case
  proof (cases "n = 0")
    case True
    then show ?thesis by (subst rio_read_loop.simps) simp
  next
    case False
    obtain r s' where r: "sys_read n s = (r, s')" by fastforce
    note S = sys_read_input [OF 1(3), of n, unfolded r]
    show ?thesis
    proof (cases r)
      case (Data bs)
      then have "fst (rio_read_loop (n - length bs) (buf @ bs) s') = Some ((buf @ bs) @ take (n - length bs) (input s'))" if "bs \<noteq> []"
        using 1(1) [OF False r [symmetric] Data that] S that False by simp
      with Data S False r show ?thesis by (subst rio_read_loop.simps) auto
    next
      case Intr
      with S False r 1(2) [OF False r [symmetric]] show ?thesis by (subst rio_read_loop.simps) simp
    next
      case Fail
      with S False show ?thesis by simp
    qed
  qed
qed

definition rio_rest :: "rio \<Rightarrow> byte list" where
  "rio_rest rp = rio_buf rp @ input (rio_fd rp)"

definition rio_ok :: "rio \<Rightarrow> bool" where
  "rio_ok rp \<longleftrightarrow> no_fail (rio_fd rp)"

lemma fill_loop_input:
  "no_fail s \<Longrightarrow> \<exists>rp. fill_loop s = (Some (input s \<noteq> []), rp) \<and> rio_ok rp \<and> rio_rest rp = input s \<and> (rio_buf rp = [] \<longleftrightarrow> input s = [])"
proof (induction s rule: fill_loop.induct)
  case (4 bs s)
  then show ?case by (auto simp: no_fail_def rio_ok_def rio_rest_def RIO_BUFSIZE_def append_assoc [symmetric] simp del: append_assoc)
qed (auto simp: no_fail_def rio_ok_def rio_rest_def)

lemma rio_readb_one:
  assumes "rio_ok rp"
  shows "\<exists>rp'. rio_readb rp 1 = (Some (take 1 (rio_rest rp)), rp') \<and> rio_ok rp' \<and> rio_rest rp' = drop 1 (rio_rest rp)"
proof (cases "rio_buf rp")
  case Nil
  from fill_loop_input [of "rio_fd rp"] assms obtain rp1 where F: "fill_loop (rio_fd rp) = (Some (input (rio_fd rp) \<noteq> []), rp1)" "rio_ok rp1"
    "rio_rest rp1 = input (rio_fd rp)" "rio_buf rp1 = [] \<longleftrightarrow> input (rio_fd rp) = []" by (auto simp: rio_ok_def)
  show ?thesis
  proof (cases "input (rio_fd rp) = []")
    case True
    with F Nil show ?thesis by (simp add: rio_readb_def rio_rest_def)
  next
    case False
    with F(4) obtain a as where "rio_buf rp1 = a # as" by (cases "rio_buf rp1") auto
    with F Nil show ?thesis by (simp add: rio_readb_def rio_rest_def rio_ok_def F(3) [unfolded rio_rest_def, symmetric])
  qed
next
  case (Cons c cs)
  with assms show ?thesis by (simp add: rio_readb_def rio_rest_def rio_ok_def)
qed

text \<open>The first line of the input: at most \<open>n\<close> bytes, up to and with the newline.\<close>

fun first_line :: "nat \<Rightarrow> byte list \<Rightarrow> byte list" where
  "first_line 0 s = []"
| "first_line (Suc n) [] = []"
| "first_line (Suc n) (c # s) = (if c = NEWLINE then [c] else c # first_line n s)"

lemma readline_loop_input:
  "rio_ok rp \<Longrightarrow> \<exists>rp'. readline_loop n rp acc = (Some (acc @ first_line n (rio_rest rp), acc = [] \<and> rio_rest rp = [] \<and> 0 < n), rp') \<and> rio_ok rp' \<and>
     rio_rest rp' = drop (length (first_line n (rio_rest rp))) (rio_rest rp)"
proof (induction n arbitrary: rp acc)
  case 0
  then show ?case by simp
next
  case (Suc n)
  from rio_readb_one [OF Suc.prems] obtain rp1 where R: "rio_readb rp 1 = (Some (take 1 (rio_rest rp)), rp1)" "rio_ok rp1" "rio_rest rp1 = drop 1 (rio_rest rp)" by blast
  show ?case
  proof (cases "rio_rest rp")
    case Nil
    with R show ?thesis by simp
  next
    case (Cons c cs)
    with R Suc.IH [OF R(2), of "acc @ [c]"] show ?thesis by auto
  qed
qed

lemma first_line_length: "length (first_line n s) \<le> n" "length (first_line n s) \<le> length s"
  by (induction n s rule: first_line.induct) auto

lemma first_line_long: "NEWLINE \<notin> set (take n s) \<Longrightarrow> first_line n s = take n s"
  by (induction n s rule: first_line.induct) auto

text \<open>
  However the network cuts the input into pieces and however often a signal interrupts, \<open>rio_read\<close> returns exactly the next bytes of
  the input, as many as were asked for or as there are.
\<close>

theorem rio_read_correct: "no_fail s \<Longrightarrow> fst (rio_read n s) = Some (take n (input s))"
  by (simp add: rio_read_def rio_read_loop_input)

theorem rio_read_correct_witness: "fst (rio_read 3 [Intr, Data [1, 2], Intr, Data [3, 4]]) = Some [1, 2, 3]"
  using rio_read_correct [of "[Intr, Data [1, 2], Intr, Data [3, 4]]" 3] by (simp add: no_fail_def)

text \<open>
  (C15) \<open>rio_readlineb\<close> returns the next line of the input whatever the pieces, and leaves the rest for the next call; but its terminating zero
  goes one byte behind the line, outside a buffer of \<open>maxlen\<close> bytes when the line has \<open>maxlen\<close> bytes or more.
\<close>

theorem rio_readlineb_correct:
  assumes "rio_ok rp" and "0 < maxlen"
  shows "if rio_rest rp = [] then (\<exists>rp'. rio_readlineb cells rp buf maxlen = Ok (0, buf, rp') \<and> rio_ok rp' \<and> rio_rest rp' = [])
    else let line = first_line maxlen (rio_rest rp) in
      if length line < cells
      then (\<exists>rp'. rio_readlineb cells rp buf maxlen = Ok (int (length line), line, rp') \<and> rio_ok rp' \<and> rio_rest rp' = drop (length line) (rio_rest rp))
      else rio_readlineb cells rp buf maxlen = Crash MemFault"
  using readline_loop_input [OF assms(1), of maxlen "[]"] assms(2) by (auto simp: rio_readlineb_def Let_def)

theorem rio_readlineb_correct_witness:
  "rio_readlineb 2 (rio_init [Data [65], Data [66]]) [] 2 = Crash MemFault \<and>
   (\<exists>rp'. rio_readlineb 3 (rio_init [Data [65], Data [10, 66]]) [] 2 = Ok (2, [65, 10], rp'))"
proof -
  let ?a = "rio_init [Data [65], Data [66]]" and ?b = "rio_init [Data [65], Data [10, 66]]"
  have "rio_ok ?a" "rio_ok ?b" "rio_rest ?a = [65, 66]" "rio_rest ?b = [65, 10, 66]" by (simp_all add: rio_ok_def rio_init_def no_fail_def rio_rest_def)
  moreover have "first_line 2 [65, 66] = [65, 66]" "first_line 2 [65, 10, 66] = [65, 10]" by code_simp+
  ultimately show ?thesis using rio_readlineb_correct [of ?a 2 2 "[]"] rio_readlineb_correct [of ?b 2 3 "[]"] by (auto simp: Let_def)
qed

lemma read_headers_eof:
  "rio_ok rp \<Longrightarrow> rio_rest rp = [] \<Longrightarrow> c_str buf \<noteq> [13, 10] \<Longrightarrow> read_headers_loop fuel rp buf = Crash Diverges"
proof (induction fuel arbitrary: rp)
  case (Suc fuel)
  then obtain rp' where "rio_readlineb MAXLINE rp buf MAXLINE = Ok (0, buf, rp')" "rio_ok rp'" "rio_rest rp' = []"
    using readline_loop_input [OF Suc.prems(1), of MAXLINE "[]"] by (auto simp: rio_readlineb_def MAXLINE_def)
  with Suc show ?case by simp
qed simp



text \<open>
  \<open>rio_write\<close> that reports success has sent all the bytes in order; a failed one has sent a prefix of them.
\<close>

theorem rio_write_correct: "rio_write bs ws = Some (ok, out) \<Longrightarrow> (if ok then out = bs else \<exists>rest. bs = out @ rest)"
proof (induction bs ws arbitrary: out rule: rio_write.induct)
  case (4 b bs k ws)
  then obtain out' where o: "rio_write (drop k (b # bs)) ws = Some (ok, out')" "out = take k (b # bs) @ out'" by auto
  from 4(1) [OF o(1)] show ?case unfolding o(2) by (metis append.assoc append_take_drop_id)
qed (auto split: if_splits)

theorem rio_write_correct_witness: "rio_write [1, 2, 3] [Wrote 1, WErr True, Wrote 2] = Some (True, [1, 2, 3])"
  using rio_write_correct [of "[1, 2, 3]" "[Wrote 1, WErr True, Wrote 2]" True] by simp

lemma strstr_iff: "strstr s sub \<longleftrightarrow> (\<exists>a b. s = a @ sub @ b)"
proof (induction s)
  case (Cons c s)
  show ?case
  proof
    assume "strstr (c # s) sub"
    then consider "take (length sub) (c # s) = sub" | "strstr s sub" by auto
    then show "\<exists>a b. c # s = a @ sub @ b"
    proof cases
      case 1
      then show ?thesis by (metis append_Nil append_take_drop_id)
    next
      case 2
      then show ?thesis using Cons by (metis append_Cons)
    qed
  next
    assume "\<exists>a b. c # s = a @ sub @ b"
    then obtain a b where ab: "c # s = a @ sub @ b" by blast
    show "strstr (c # s) sub"
    proof (cases a)
      case Nil
      with ab show ?thesis by (metis append_Nil append_eq_conv_conj strstr.simps(2))
    next
      case (Cons x xs)
      with ab Cons.IH show ?thesis by auto
    qed
  qed
qed simp

lemma readfile_size:
  assumes "request_readfile d obj = Ok (Some d')" and "file_buf d = []"
  shows "file_name d' = file_name d \<and> file_size d' = int (length (file_buf d'))"
proof -
  have ok: "name_allowed (file_name d)" using assms(1) by (simp add: request_readfile_def split: if_splits)
  then obtain bs where bs: "obj = File bs" using assms(1) by (cases obj) (auto simp: request_readfile_def)
  let ?n = "sint (word_of_int (int (length bs)) :: 32 word)"
  have "?n \<le> int (length bs)" if "0 \<le> ?n"
  proof -
    have s: "?n = signed_take_bit 31 (int (length bs))" by (subst sint_sbintrunc') simp
    with that have "\<not> bit (int (length bs)) 31" by (simp add: not_less [symmetric])
    then show ?thesis unfolding s by (simp add: signed_take_bit_eq_if_positive take_bit_eq_mod zmod_le_nonneg_dividend)
  qed
  with assms ok bs show ?thesis by (auto simp: request_readfile_def Let_def min_def split: if_splits)
qed

lemma strrchr_end: "c \<notin> set ext \<Longrightarrow> strrchr (a @ c # ext) c = Some (c # ext)"
proof -
  assume "c \<notin> set ext"
  then have "takeWhile (\<lambda>b. b \<noteq> c) (rev ext @ c # rev a) = rev ext" by (subst takeWhile_append2) auto
  then show ?thesis by (simp add: strrchr_def)
qed

text \<open>
  A file that \<open>request_readfile\<close> gives out keeps its name, which has no \<^verbatim>\<open>..\<close> in it, does not start with \<^verbatim>\<open>/\<close> and does not end in \<^verbatim>\<open>.c\<close> or
  \<^verbatim>\<open>.h\<close>, and its size is the number of bytes in its buffer.
\<close>

theorem request_readfile_confined:
  assumes "request_readfile d obj = Ok (Some d')" and "file_buf d = []"
  shows "file_name d' = file_name d \<and> (\<forall>a b. file_name d \<noteq> a @ bytes_of ''..'' @ b) \<and> (\<forall>a. file_name d \<noteq> bytes_of ''/'' @ a) \<and>
    (\<forall>a. file_name d \<noteq> a @ bytes_of ''.c'') \<and> (\<forall>a. file_name d \<noteq> a @ bytes_of ''.h'') \<and> file_size d' = int (length (file_buf d'))"
proof -
  have ok: "name_allowed (file_name d)" using assms(1) by (simp add: request_readfile_def split: if_splits)
  have lits: "bytes_of ''..'' = [46, 46]" "bytes_of ''/'' = [47]" "bytes_of ''.c'' = [46, 99]" "bytes_of ''.h'' = [46, 104]" by code_simp+
  have "\<not> strstr (file_name d) [46, 46]" using ok by (simp add: name_allowed_def)
  then have 1: "\<forall>a b. file_name d \<noteq> a @ [46, 46] @ b" unfolding strstr_iff by blast
  have 2: "\<forall>a. file_name d \<noteq> [47] @ a" using ok by (auto simp: name_allowed_def)
  have 3: "\<forall>a. file_name d \<noteq> a @ [46, 99]" "\<forall>a. file_name d \<noteq> a @ [46, 104]"
    using ok strrchr_end [of 46 "[99]"] strrchr_end [of 46 "[104]"] by (auto simp: name_allowed_def)
  have "file_name d' = file_name d \<and> file_size d' = int (length (file_buf d'))" by (rule readfile_size [OF assms])
  with 1 2 3 show ?thesis unfolding lits by blast
qed

theorem request_readfile_confined_witness:
  "request_readfile \<lparr>file_name = [46, 47, 97], file_buf = [], file_size = 0\<rparr> (File [1, 2]) = Ok (Some \<lparr>file_name = [46, 47, 97], file_buf = [1, 2], file_size = 2\<rparr>) \<and>
   (\<forall>a b. [46, 47, 97] \<noteq> a @ bytes_of ''..'' @ b)"
proof -
  have "request_readfile \<lparr>file_name = [46, 47, 97], file_buf = [], file_size = 0\<rparr> (File [1, 2]) = Ok (Some \<lparr>file_name = [46, 47, 97], file_buf = [1, 2], file_size = 2\<rparr>)"
    by code_simp
  with request_readfile_confined [OF this] show ?thesis by simp
qed

end
