(* ===== verification/Web_Server.thy ===== *)
theory Web_Server
  imports Web_CacheProps Web_Request "HOL-Library.Multiset"
begin

text \<open>
  The server of \<^verbatim>\<open>webserver/server_thread.c\<close>: the ring buffer of connections, the work on a request, the worker threads and the
  main thread as a system of atomic steps; the ring buffer implements the interface \<open>fifo_queue\<close>; the heap of the cache and the work in progress agree.
\<close>

section \<open>Definitions\<close>

text \<open>
  The ring buffer of connections. \<open>requests\<close> lists the cells of the allocated memory; it is \<open>None\<close> when \<open>server_init\<close> did not set the pointer. The
  server record holds the heap of the cache; \<open>cache_on\<close> says whether \<^verbatim>\<open>sv->cache\<close> is not null.
\<close>

record request_buffer =
  requests :: "int list option"
  rin :: int
  rout :: int
  max_size :: int

record server =
  nr_threads :: int
  max_requests :: int
  exiting :: bool
  buffer :: request_buffer
  cache_on :: bool
  heap :: Cache

text \<open>
  \<open>junk\<close> lists what fresh memory for the buffer holds and \<open>slack\<close> how many cells the allocator hands out beyond those asked for (the standard promises
  none).
\<close>

definition server_init :: "(nat \<Rightarrow> int) \<Rightarrow> nat \<Rightarrow> int \<Rightarrow> int \<Rightarrow> int \<Rightarrow> server" where
  "server_init junk slack nthreads max_req max_cache =
     \<lparr>nr_threads = nthreads, max_requests = max_req + 1, exiting = False,
      buffer = (if nthreads > 0 \<and> max_req + 1 > 1
        then \<lparr>requests = Some (map junk [0..<nat max_req + slack]), rin = 0, rout = 0, max_size = max_req + 1\<rparr>
        else \<lparr>requests = None, rin = 0, rout = 0, max_size = 0\<rparr>),
      cache_on = (max_cache > 0), heap = cache_init max_cache\<rparr>"

definition buffer_full :: "request_buffer \<Rightarrow> bool" where
  "buffer_full b \<longleftrightarrow> c_mod (rin b - rout b + max_size b) (max_size b) = max_size b - 1"

text \<open>
  The critical sections of \<open>add_request\<close> and \<open>take_request\<close>. The result is \<open>None\<close> when the caller has to wait on the condition variable; otherwise
  it says whether the other side is woken up.
\<close>

definition cell :: "request_buffer \<Rightarrow> int \<Rightarrow> int outcome" where
  "cell b i = (case requests b of None \<Rightarrow> Crash MemFault
     | Some xs \<Rightarrow> mem_check (0 \<le> i \<and> i < int (length xs)) (Ok (xs ! nat i)))"

definition set_cell :: "request_buffer \<Rightarrow> int \<Rightarrow> int \<Rightarrow> request_buffer outcome" where
  "set_cell b i x = (case requests b of None \<Rightarrow> Crash MemFault
     | Some xs \<Rightarrow> mem_check (0 \<le> i \<and> i < int (length xs)) (Ok (b\<lparr>requests := Some (xs[nat i := x])\<rparr>)))"

definition add_request :: "request_buffer \<Rightarrow> int \<Rightarrow> (bool \<times> request_buffer) option outcome" where
  "add_request b connfd =
     (if buffer_full b then Ok None
      else and_then (set_cell b (rin b) connfd) (\<lambda>b.
        Ok (Some (rin b = rout b, b\<lparr>rin := c_mod (rin b + 1) (max_size b)\<rparr>))))"

definition take_request :: "bool \<Rightarrow> request_buffer \<Rightarrow> (int \<times> bool \<times> request_buffer) option outcome" where
  "take_request exit b =
     (if \<not> exit \<and> rin b = rout b then Ok None
      else and_then (cell b (rout b)) (\<lambda>connfd.
        Ok (Some (connfd, buffer_full b, b\<lparr>rout := c_mod (rout b + 1) (max_size b)\<rparr>))))"

text \<open>
  The work on a connection, between its accesses to the cache. \<open>Reading\<close>: the name was not in the cache and the file is being read. \<open>Sending\<close>: the
  thread sends the file it read. \<open>Using\<close>: the thread sends the data of a cache entry it holds.
\<close>

datatype job = is_Got: Got int | Reading nat | Sending nat | Using nat nat

text \<open>What the outside answers: the file name \<open>request_init\<close> found (or none), and what the file system has under a name.\<close>

definition serve_begin :: "server \<Rightarrow> cstring option \<Rightarrow> (job option \<times> server) outcome" where
  "serve_begin sv name =
     (let (data, h) = file_data_init (heap sv) in
      case name of
        None \<Rightarrow> and_then (file_data_free h data) (\<lambda>h. Ok (None, sv\<lparr>heap := h\<rparr>))
      | Some nm \<Rightarrow>
          and_then (at_addr (fdata h) data) (\<lambda>d.
          let h = h\<lparr>fdata := (fdata h)(data \<mapsto> d\<lparr>file_name := nm\<rparr>)\<rparr> in
          and_then (if cache_on sv then cache_lookup h nm else Ok (None, h)) (\<lambda>(hit, h).
            case hit of
              Some e \<Rightarrow>
                and_then (file_data_free h data) (\<lambda>h.
                and_then (at_addr (centries h) e) (\<lambda>x. Ok (Some (Using e (ce_data x)), sv\<lparr>heap := h\<rparr>)))
            | None \<Rightarrow> Ok (Some (Reading data), sv\<lparr>heap := h\<rparr>))))"

definition serve_read :: "server \<Rightarrow> nat \<Rightarrow> fs_object \<Rightarrow> (job option \<times> server) outcome" where
  "serve_read sv data obj =
     and_then (at_addr (fdata (heap sv)) data) (\<lambda>d.
     and_then (request_readfile d obj) (\<lambda>r.
       case r of None \<Rightarrow> Ok (None, sv)
       | Some d' \<Rightarrow>
           let h = (heap sv)\<lparr>fdata := (fdata (heap sv))(data \<mapsto> d')\<rparr> in
           if cache_on sv then and_then (cache_insert h data) (\<lambda>(_, h). Ok (Some (Sending data), sv\<lparr>heap := h\<rparr>))
           else Ok (Some (Sending data), sv\<lparr>heap := h\<rparr>)))"

definition release_entry :: "Cache \<Rightarrow> nat \<Rightarrow> Cache outcome" where
  "release_entry c e =
     and_then (at_addr (centries c) e) (\<lambda>x.
       c_assert (in_use x - 1 \<ge> 0) (Ok (c\<lparr>centries := (centries c)(e \<mapsto> x\<lparr>in_use := in_use x - 1\<rparr>)\<rparr>)))"

text \<open>One step of \<open>do_server_request\<close>; it gives the reply it sends, and the rest of the work if there is any.\<close>

definition job_step :: "server \<Rightarrow> job \<Rightarrow> cstring option \<Rightarrow> fs_object \<Rightarrow> (file_data option \<times> job option \<times> server) outcome" where
  "job_step sv j name obj =
     (case j of
        Got connfd \<Rightarrow> and_then (serve_begin sv name) (\<lambda>(j, sv). Ok (None, j, sv))
      | Reading data \<Rightarrow> and_then (serve_read sv data obj) (\<lambda>(j, sv). Ok (None, j, sv))
      | Sending data \<Rightarrow> and_then (at_addr (fdata (heap sv)) data) (\<lambda>d. Ok (Some d, None, sv))
      | Using e data \<Rightarrow>
          and_then (at_addr (fdata (heap sv)) data) (\<lambda>d.
          and_then (release_entry (heap sv) e) (\<lambda>h. Ok (Some d, None, sv\<lparr>heap := h\<rparr>))))"

section \<open>Threads\<close>

text \<open>
  A worker is at the test of its loop, before the lock of \<open>take_request\<close>, holds the lock and is about to wait, sleeps, works on a request, or has
  exited. The main thread waits for a connection, is before the lock of \<open>add_request\<close>, sleeps until the buffer has room,
  works on a request itself (when there are no workers), or is in one of the steps of \<open>server_exit\<close>.
\<close>

datatype wpc = WLoop | WLock | WAbout | WAsleep | WJob job | WExited

datatype mpc = MAccept | MLock int | MAsleep int | MJob job | MExiting | MJoin | MDone

record sys =
  sv :: server
  main :: mpc
  workers :: "wpc list"
  replies :: "file_data list"

text \<open>\<open>Run i\<close> is a step of worker \<open>i\<close> with the answers of the outside, \<open>Spurious i\<close> a wakeup without a signal.\<close>

datatype label = Run nat "cstring option" fs_object | Spurious nat | Accept int | RunMain "cstring option" fs_object | Exit

definition lock_free :: "sys \<Rightarrow> bool" where
  "lock_free s \<longleftrightarrow> WAbout \<notin> set (workers s)"

definition wake_worker :: "wpc \<Rightarrow> wpc" where
  "wake_worker w = (if w = WAsleep then WLock else w)"

definition wake_main :: "mpc \<Rightarrow> mpc" where
  "wake_main m = (case m of MAsleep connfd \<Rightarrow> MLock connfd | _ \<Rightarrow> m)"

definition add_reply :: "file_data option \<Rightarrow> sys \<Rightarrow> sys" where
  "add_reply r s = (case r of None \<Rightarrow> s | Some d \<Rightarrow> s\<lparr>replies := replies s @ [d]\<rparr>)"

text \<open>\<open>None\<close>: the thread has no step here.\<close>

definition worker_step :: "sys \<Rightarrow> nat \<Rightarrow> cstring option \<Rightarrow> fs_object \<Rightarrow> sys outcome option" where
  "worker_step s i name obj =
     (if i < length (workers s) then
        case workers s ! i of
          WLoop \<Rightarrow> Some (Ok (s\<lparr>workers := (workers s)[i := if exiting (sv s) then WExited else WLock]\<rparr>))
        | WLock \<Rightarrow>
            if \<not> lock_free s then None
            else Some (and_then (take_request (exiting (sv s)) (buffer (sv s))) (\<lambda>r.
              case r of None \<Rightarrow> Ok (s\<lparr>workers := (workers s)[i := WAbout]\<rparr>)
              | Some (connfd, wake, b) \<Rightarrow>
                  Ok (s\<lparr>sv := (sv s)\<lparr>buffer := b\<rparr>, main := (if wake then wake_main (main s) else main s),
                        workers := (workers s)[i := WJob (Got connfd)]\<rparr>)))
        | WAbout \<Rightarrow> Some (Ok (s\<lparr>workers := (workers s)[i := WAsleep]\<rparr>))
        | WJob j \<Rightarrow>
            if is_Got j \<and> exiting (sv s) then Some (Ok (s\<lparr>workers := (workers s)[i := WLoop]\<rparr>))
            else Some (and_then (job_step (sv s) j name obj) (\<lambda>(r, j', t).
              Ok (add_reply r (s\<lparr>sv := t, workers := (workers s)[i := case j' of None \<Rightarrow> WLoop | Some j' \<Rightarrow> WJob j']\<rparr>))))
        | _ \<Rightarrow> None
      else None)"

text \<open>\<open>server_request\<close> of the main thread.\<close>

definition server_request :: "sys \<Rightarrow> int \<Rightarrow> sys" where
  "server_request s connfd =
     s\<lparr>main := (if nr_threads (sv s) = 0 \<or> max_requests (sv s) \<le> 1 then MJob (Got connfd) else MLock connfd)\<rparr>"

text \<open>\<open>wild\<close>: the pointers that \<open>server_init\<close> did not set are not null; \<^verbatim>\<open>free\<close> of such a pointer is an error.\<close>

definition server_exit_frees :: "bool \<Rightarrow> server \<Rightarrow> unit outcome" where
  "server_exit_frees wild t = (if requests (buffer t) = None \<and> wild then Crash MemFault else Ok ())"

definition main_step :: "bool \<Rightarrow> sys \<Rightarrow> cstring option \<Rightarrow> fs_object \<Rightarrow> sys outcome option" where
  "main_step wild s name obj =
     (case main s of
        MLock connfd \<Rightarrow>
          if \<not> lock_free s then None
          else Some (and_then (add_request (buffer (sv s)) connfd) (\<lambda>r.
            case r of None \<Rightarrow> Ok (s\<lparr>main := MAsleep connfd\<rparr>)
            | Some (wake, b) \<Rightarrow>
                Ok (s\<lparr>sv := (sv s)\<lparr>buffer := b\<rparr>, main := MAccept, workers := (if wake then map wake_worker (workers s) else workers s)\<rparr>)))
      | MJob j \<Rightarrow>
          Some (and_then (job_step (sv s) j name obj) (\<lambda>(r, j', t).
            Ok (add_reply r (s\<lparr>sv := t, main := (case j' of None \<Rightarrow> MAccept | Some j' \<Rightarrow> MJob j')\<rparr>))))
      | MExiting \<Rightarrow>
          Some (Ok (s\<lparr>main := MJoin, workers := (if max_requests (sv s) > 1 \<and> nr_threads (sv s) > 0 then map wake_worker (workers s) else workers s)\<rparr>))
      | MJoin \<Rightarrow>
          if set (workers s) \<subseteq> {WExited} then Some (and_then (server_exit_frees wild (sv s)) (\<lambda>_. Ok (s\<lparr>main := MDone\<rparr>))) else None
      | _ \<Rightarrow> None)"

fun sys_step :: "bool \<Rightarrow> label \<Rightarrow> sys \<Rightarrow> sys outcome option" where
  "sys_step wild (Run i name obj) s = worker_step s i name obj"
| "sys_step wild (Spurious i) s =
     (if i < length (workers s) \<and> workers s ! i = WAsleep then Some (Ok (s\<lparr>workers := (workers s)[i := WLock]\<rparr>)) else None)"
| "sys_step wild (Accept connfd) s = (if main s = MAccept then Some (Ok (server_request s connfd)) else None)"
| "sys_step wild (RunMain name obj) s = main_step wild s name obj"
| "sys_step wild Exit s =
     (if main s = MAccept then Some (Ok (s\<lparr>sv := (sv s)\<lparr>exiting := True\<rparr>, main := MExiting\<rparr>)) else None)"

definition sys_init :: "(nat \<Rightarrow> int) \<Rightarrow> nat \<Rightarrow> int \<Rightarrow> int \<Rightarrow> int \<Rightarrow> sys" where
  "sys_init junk slack nthreads max_req max_cache =
     \<lparr>sv = server_init junk slack nthreads max_req max_cache, main = MAccept,
      workers = (if nthreads > 0 \<and> max_req + 1 > 1 then replicate (nat nthreads) WLoop else []), replies = []\<rparr>"

inductive sys_reach :: "bool \<Rightarrow> sys \<Rightarrow> sys \<Rightarrow> bool" for wild s0 where
  start: "sys_reach wild s0 s0"
| step: "sys_reach wild s0 s \<Longrightarrow> sys_step wild l s = Some (Ok s') \<Longrightarrow> sys_reach wild s0 s'"

section \<open>The ring buffer is a queue\<close>

definition ring_ok :: "request_buffer \<Rightarrow> bool" where
  "ring_ok b \<longleftrightarrow> (\<exists>xs. requests b = Some xs \<and> max_size b \<le> int (length xs)) \<and> 1 < max_size b \<and>
     0 \<le> rin b \<and> rin b < max_size b \<and> 0 \<le> rout b \<and> rout b < max_size b"

definition ring_count :: "request_buffer \<Rightarrow> nat" where
  "ring_count b = nat ((rin b - rout b) mod max_size b)"

definition ring_slot :: "request_buffer \<Rightarrow> nat \<Rightarrow> nat" where
  "ring_slot b k = nat ((rout b + int k) mod max_size b)"

definition ring_contents :: "request_buffer \<Rightarrow> int list" where
  "ring_contents b = map (\<lambda>k. the (requests b) ! ring_slot b k) [0..<ring_count b]"

lemma ring_count_int: "ring_ok b \<Longrightarrow> int (ring_count b) = (rin b - rout b) mod max_size b"
  by (simp add: ring_ok_def ring_count_def)

lemma buffer_full_iff: "ring_ok b \<Longrightarrow> buffer_full b \<longleftrightarrow> int (ring_count b) = max_size b - 1"
  by (simp add: buffer_full_def ring_count_int) (simp add: ring_ok_def)

lemma ring_empty_iff: "ring_ok b \<Longrightarrow> rin b = rout b \<longleftrightarrow> ring_count b = 0"
proof -
  assume r: "ring_ok b"
  have "rin b mod max_size b = rin b" "rout b mod max_size b = rout b" using r by (simp_all add: ring_ok_def)
  then have "rin b = rout b \<longleftrightarrow> (rin b - rout b) mod max_size b = 0" by (metis mod_eq_dvd_iff mod_0_imp_dvd dvd_imp_mod_0)
  also have "\<dots> \<longleftrightarrow> int (ring_count b) = 0" by (simp add: ring_count_int [OF r])
  finally show ?thesis by simp
qed

lemma ring_count_less: "ring_ok b \<Longrightarrow> int (ring_count b) < max_size b"
  by (simp add: ring_count_int) (simp add: ring_ok_def)

lemma ring_slot_less: "ring_ok b \<Longrightarrow> int (ring_slot b k) < max_size b"
  by (simp add: ring_slot_def ring_ok_def)

lemma ring_slot_end: "ring_ok b \<Longrightarrow> ring_slot b (ring_count b) = nat (rin b)"
proof -
  assume r: "ring_ok b"
  have "(rout b + int (ring_count b)) mod max_size b = rin b mod max_size b" by (simp add: ring_count_int [OF r] mod_add_right_eq)
  then show ?thesis using r by (simp add: ring_slot_def ring_ok_def)
qed

lemma ring_slot_inj:
  assumes r: "ring_ok b" and k: "k < ring_count b"
  shows "ring_slot b k \<noteq> nat (rin b)"
proof
  assume "ring_slot b k = nat (rin b)"
  with ring_slot_end [OF r] have "ring_slot b k = ring_slot b (ring_count b)" by simp
  moreover have "0 < max_size b" using r by (simp add: ring_ok_def)
  ultimately have "(rout b + int k) mod max_size b = (rout b + int (ring_count b)) mod max_size b" by (simp add: ring_slot_def eq_nat_nat_iff)
  then have "int k mod max_size b = int (ring_count b) mod max_size b" by (metis add_diff_cancel_left' mod_diff_left_eq)
  moreover have "int k < max_size b" "int (ring_count b) < max_size b" using ring_count_less [OF r] k by simp_all
  ultimately show False using k by simp
qed

lemma mod_shift_add: "(m :: int) > 0 \<Longrightarrow> a mod m < m - 1 \<Longrightarrow> (a + 1) mod m = a mod m + 1"
proof -
  assume "m > 0" "a mod m < m - 1"
  then have "(a mod m + 1) mod m = a mod m + 1" by (intro mod_pos_pos_trivial) auto
  then show ?thesis by (simp add: mod_add_left_eq)
qed

lemma mod_shift_sub: "(m :: int) > 0 \<Longrightarrow> 0 < a mod m \<Longrightarrow> (a - 1) mod m = a mod m - 1"
proof -
  assume "m > 0" "0 < a mod m"
  moreover from this have "a mod m < m" by simp
  ultimately have "(a mod m - 1) mod m = a mod m - 1" by (intro mod_pos_pos_trivial) auto
  then show ?thesis by (simp add: mod_diff_left_eq)
qed

lemma add_request_ring:
  assumes r: "ring_ok b" and room: "\<not> buffer_full b"
  shows "\<exists>b'. add_request b x = Ok (Some (ring_contents b = [], b')) \<and> ring_ok b' \<and> ring_contents b' = ring_contents b @ [x] \<and> max_size b' = max_size b"
proof -
  from r obtain xs where xs: "requests b = Some xs" "max_size b \<le> int (length xs)" by (auto simp: ring_ok_def)
  have R: "1 < max_size b" "0 \<le> rin b" "rin b < max_size b" "0 \<le> rout b" "rout b < max_size b" using r by (simp_all add: ring_ok_def)
  let ?b = "b\<lparr>requests := Some (xs[nat (rin b) := x]), rin := (rin b + 1) mod max_size b\<rparr>"
  have ok: "ring_ok ?b" using R xs by (simp add: ring_ok_def)
  have "(rin b - rout b) mod max_size b < max_size b - 1"
    using room ring_count_less [OF r] unfolding buffer_full_iff [OF r] ring_count_int [OF r] by linarith
  then have "(rin b - rout b + 1) mod max_size b = (rin b - rout b) mod max_size b + 1" using mod_shift_add [of "max_size b"] R(1) by simp
  moreover have "((rin b + 1) mod max_size b - rout b) mod max_size b = (rin b - rout b + 1) mod max_size b"
    by (simp add: mod_diff_left_eq algebra_simps)
  ultimately have "int (ring_count ?b) = int (ring_count b) + 1" using ring_count_int [OF ok] ring_count_int [OF r] by simp
  then have cnt: "ring_count ?b = Suc (ring_count b)" by simp
  have slot: "ring_slot ?b k = ring_slot b k" for k by (simp add: ring_slot_def)
  have "map (\<lambda>k. xs[nat (rin b) := x] ! ring_slot b k) [0..<ring_count b] = map (\<lambda>k. xs ! ring_slot b k) [0..<ring_count b]"
    by (rule map_cong) (simp, metis ring_slot_inj [OF r] atLeastLessThan_iff nth_list_update_neq set_upt)
  moreover have "xs[nat (rin b) := x] ! ring_slot b (ring_count b) = x"
    using ring_slot_end [OF r] xs(2) R by (simp add: nat_less_iff)
  ultimately have con: "ring_contents ?b = ring_contents b @ [x]" by (simp add: ring_contents_def cnt slot xs(1))
  have "add_request b x = Ok (Some (ring_contents b = [], ?b))"
    using room R xs ring_empty_iff [OF r] by (simp add: add_request_def set_cell_def ring_contents_def)
  with ok con show ?thesis by auto
qed

lemma take_request_ring:
  assumes r: "ring_ok b" and c: "ring_contents b = x # ys"
  shows "\<exists>b'. take_request ex b = Ok (Some (x, buffer_full b, b')) \<and> ring_ok b' \<and> ring_contents b' = ys \<and> max_size b' = max_size b"
proof -
  from r obtain xs where xs: "requests b = Some xs" "max_size b \<le> int (length xs)" by (auto simp: ring_ok_def)
  have R: "1 < max_size b" "0 \<le> rin b" "rin b < max_size b" "0 \<le> rout b" "rout b < max_size b" using r by (simp_all add: ring_ok_def)
  let ?b = "b\<lparr>rout := (rout b + 1) mod max_size b\<rparr>"
  have ok: "ring_ok ?b" using R xs by (simp add: ring_ok_def)
  obtain n where n: "ring_count b = Suc n" using c by (cases "ring_count b") (auto simp: ring_contents_def)
  have "(rin b - (rout b + 1) mod max_size b) mod max_size b = (rin b - rout b - 1) mod max_size b" by (simp add: mod_diff_right_eq algebra_simps)
  also have "\<dots> = (rin b - rout b) mod max_size b - 1"
    by (rule mod_shift_sub) (use R(1) n ring_count_int [OF r] in simp_all)
  finally have "int (ring_count ?b) = int n" using ring_count_int [OF ok] ring_count_int [OF r] n by simp
  then have cnt: "ring_count ?b = n" by simp
  have slot: "ring_slot ?b k = ring_slot b (Suc k)" for k
    using mod_add_left_eq [of "rout b + 1" "max_size b" "int k"] by (simp add: ring_slot_def add.assoc)
  have "[0..<Suc n] = 0 # map Suc [0..<n]" by (simp add: map_Suc_upt upt_conv_Cons)
  then have "ring_contents b = xs ! nat (rout b) # ring_contents ?b"
    using R by (simp add: ring_contents_def n cnt slot xs(1) o_def) (simp add: ring_slot_def)
  with c have "x = xs ! nat (rout b)" "ys = ring_contents ?b" by simp_all
  moreover have "rin b \<noteq> rout b" using ring_empty_iff [OF r] n by simp
  ultimately show ?thesis using R xs ok by (intro exI [of _ ?b]) (simp add: take_request_def cell_def)
qed

definition ring_enq :: "request_buffer \<Rightarrow> int \<Rightarrow> request_buffer outcome" where
  "ring_enq b x = and_then (add_request b x) (\<lambda>r. case r of None \<Rightarrow> Crash Diverges | Some (_, b) \<Rightarrow> Ok b)"

definition ring_deq :: "request_buffer \<Rightarrow> (int \<times> request_buffer) outcome" where
  "ring_deq b = and_then (take_request False b) (\<lambda>r. case r of None \<Rightarrow> Crash Diverges | Some (x, _, b) \<Rightarrow> Ok (x, b))"

interpretation rq: fifo_queue ring_ok ring_contents "\<lambda>b. \<not> buffer_full b" ring_enq ring_deq
proof
  fix b x assume "ring_ok b" "\<not> buffer_full b"
  from add_request_ring [OF this, of x] show "\<exists>b'. ring_enq b x = Ok b' \<and> ring_ok b' \<and> ring_contents b' = ring_contents b @ [x]" by (auto simp: ring_enq_def)
next
  fix b x xs assume "ring_ok b" "ring_contents b = x # xs"
  from take_request_ring [OF this, of False] show "\<exists>b'. ring_deq b = Ok (x, b') \<and> ring_ok b' \<and> ring_contents b' = xs" by (auto simp: ring_deq_def)
qed

section \<open>The cache as the threads see it\<close>

lemma cache_ok_fdata:
  assumes ok: "cache_ok c es" and F: "\<forall>e \<in> set es. F (ptr c e) = fdata c (ptr c e)" and w: "wbrk c \<le> w"
  shows "cache_ok (c\<lparr>fdata := F, wbrk := w\<rparr>) es" "\<forall>e \<in> set es. edata (c\<lparr>fdata := F, wbrk := w\<rparr>) e = edata c e"
proof -
  let ?c = "c\<lparr>fdata := F, wbrk := w\<rparr>"
  obtain ns B where O: "cache_parts c ns B" "map (entry_at c) ns = es" "entries_ok c es" "lru_rep c ns" "table_rep c B" "(\<Union>k. set (B k)) = set es" using cache_okE [OF ok] .
  have ea: "entry_at ?c = entry_at c" by (simp add: fun_eq_iff entry_at_def)
  have E: "edata ?c e = edata c e" "euse ?c e = euse c e" "has_data ?c e = has_data c e" if e: "e \<in> set es" for e
  proof -
    have "has_data c e" using O(3) e by (simp add: entries_ok_def)
    then obtain x where x: "centries c e = Some x" by (auto simp: has_data_def)
    then have "F (ce_data x) = fdata c (ce_data x)" using F e by (auto simp: ptr_def)
    with x show "edata ?c e = edata c e" "euse ?c e = euse c e" "has_data ?c e = has_data c e" by (simp_all add: edata_def euse_def has_data_def)
  qed
  then show "\<forall>e \<in> set es. edata ?c e = edata c e" by blast
  have m: "map (fsize ?c) es = map (fsize c) es" by (rule map_cong) (simp_all only: E)
  have i: "inj_on (fname ?c) (set es) = inj_on (fname c) (set es)" by (rule inj_on_cong) (simp_all only: E)
  have "entries_ok ?c es" using O(3) E unfolding entries_ok_def m i by auto
  moreover have "lru_rep ?c ns" using O(4) w by (auto simp: lru_rep_def lnx_def [abs_def])
  moreover have "e < w" if "e \<in> set (B k)" for e k using O(5) w that unfolding table_rep_def by (meson less_le_trans)
  then have "table_rep ?c B" using O(5) unfolding table_rep_def cnx_def [abs_def] by simp
  moreover have "key_of ?c (fname ?c e) = k" if e: "e \<in> set (B k)" for e k
  proof -
    have "e \<in> set es" unfolding O(6) [symmetric] using e by blast
    then show ?thesis using E(1) [of e] O(1) e by (simp add: cache_parts_def key_of_def)
  qed
  ultimately have "cache_parts ?c ns B" using O(1,2) by (simp add: cache_parts_def ea)
  then show "cache_ok ?c es" using O(2) ea unfolding cache_ok_def by auto
qed

lemma cache_inv_ok: "cache_inv c \<Longrightarrow> cache_ok c (entries_of c)"
  by (simp add: cache_inv_def)

lemma lookup_heap:
  assumes inv: "cache_inv h"
  shows "\<exists>r h'. cache_lookup h nm = Ok (r, h') \<and> cache_inv h' \<and> set (entries_of h') = set (entries_of h) \<and> wbrk h' = wbrk h \<and> fdata h' = fdata h \<and>
    (\<forall>x. edata h' x = edata h x \<and> ptr h' x = ptr h x \<and> euse h' x = euse h x + (if r = Some x then 1 else 0)) \<and>
    (\<forall>e. r = Some e \<longrightarrow> e \<in> set (entries_of h) \<and> fname h e = nm)"
proof -
  note L = cache_lookup_rep [OF cache_inv_ok [OF inv], of nm]
  show ?thesis
  proof (cases "cache_hit h (entries_of h) nm")
    case None
    with L inv show ?thesis by simp
  next
    case (Some e)
    then have e: "e \<in> set (entries_of h)" "fname h e = nm" using cache_hit_Some [OF cache_inv_entries [OF inv]] by simp_all
    from Some L obtain h' where h': "cache_lookup h nm = Ok (Some e, h')" "cache_ok h' (remove1 e (entries_of h) @ [e])" "wbrk h' = wbrk h"
      "cache_keep (- {e}) h h'" "euse h' e = euse h e + 1" "edata h' e = edata h e" "ptr h' e = ptr h e" by auto
    have K: "fdata h' = fdata h" "\<And>x. x \<noteq> e \<Longrightarrow> euse h' x = euse h x \<and> edata h' x = edata h x \<and> ptr h' x = ptr h x" using h'(4) by (simp_all add: cache_keep_def)
    have "edata h' x = edata h x \<and> ptr h' x = ptr h x \<and> euse h' x = euse h x + (if Some e = Some x then 1 else 0)" for x
      using K(2) [of x] h'(5-7) by (cases "x = e") auto
    moreover have "distinct (entries_of h)" using cache_inv_entries [OF inv] by (simp add: entries_ok_def)
    then have "set (entries_of h') = set (entries_of h)" using h'(2) e(1) by (auto simp: cache_ok_inv)
    ultimately show ?thesis using h'(1-3) K(1) e by (intro exI [of _ "Some e"] exI [of _ h']) (auto simp: cache_ok_inv)
  qed
qed

lemma insert_heap:
  assumes inv: "cache_inv h" and d: "fdata h f = Some d" "0 \<le> file_size d"
  shows "\<exists>r h'. cache_insert h f = Ok (r, h') \<and> cache_inv h' \<and> fdata h' = fdata h \<and> wbrk h \<le> wbrk h' \<and>
    (\<forall>x \<in> set (entries_of h'). x \<in> set (entries_of h) \<and> euse h' x = euse h x \<and> edata h' x = edata h x \<and> ptr h' x = ptr h x \<or>
       x = wbrk h \<and> x \<notin> set (entries_of h) \<and> euse h' x = 0 \<and> edata h' x = d \<and> ptr h' x = f) \<and>
    (\<forall>x \<in> set (entries_of h). 0 < euse h x \<longrightarrow> x \<in> set (entries_of h'))"
proof -
  let ?es = "entries_of h" and ?mx = "max_cache_size h"
  define es' where "es' = (if c_size h + file_size d > ?mx then evict_spec (euse h) (fsize h) ?es (c_size h + file_size d - ?mx) else ?es)"
  have sub: "set es' \<subseteq> set ?es" using evict_spec_sub by (auto simp: es'_def)
  have used: "x \<in> set es'" if "x \<in> set ?es" "0 < euse h x" for x using that evict_spec_used by (simp add: es'_def)
  have new: "wbrk h \<notin> set ?es" using cache_ok_bound [OF cache_inv_ok [OF inv], of "wbrk h"] by auto
  obtain r h' where R: "cache_insert h f = Ok (r, h')" "wbrk h \<le> wbrk h'"
    "h' = h \<or> (cache_ok h' es' \<or> cache_ok h' (es' @ [wbrk h]) \<and> edata h' (wbrk h) = d \<and> euse h' (wbrk h) = 0 \<and> ptr h' (wbrk h) = f) \<and> cache_keep (set es') h h'"
    using cache_insert_rep [OF cache_inv_ok [OF inv] d es'_def] by (auto split: if_splits)
  show ?thesis
  proof (cases "h' = h")
    case True
    with R inv show ?thesis by auto
  next
    case False
    with R(3) have K: "cache_keep (set es') h h'" and ok: "cache_ok h' es' \<or> cache_ok h' (es' @ [wbrk h]) \<and> edata h' (wbrk h) = d \<and> euse h' (wbrk h) = 0 \<and> ptr h' (wbrk h) = f" by simp_all
    then have fd: "fdata h' = fdata h" and K': "\<And>x. x \<in> set es' \<Longrightarrow> euse h' x = euse h x \<and> edata h' x = edata h x \<and> ptr h' x = ptr h x" by (auto simp: cache_keep_def)
    have inv': "cache_inv h'" using ok by (auto simp: cache_ok_inv)
    have ent: "entries_of h' = es' \<or> entries_of h' = es' @ [wbrk h] \<and> edata h' (wbrk h) = d \<and> euse h' (wbrk h) = 0 \<and> ptr h' (wbrk h) = f" using ok by (auto simp: cache_ok_inv)
    have "x \<in> set ?es \<and> euse h' x = euse h x \<and> edata h' x = edata h x \<and> ptr h' x = ptr h x \<or> x = wbrk h \<and> x \<notin> set ?es \<and> euse h' x = 0 \<and> edata h' x = d \<and> ptr h' x = f"
      if "x \<in> set (entries_of h')" for x
      using that ent K' [of x] sub new by auto
    moreover have "x \<in> set (entries_of h')" if "x \<in> set ?es" "0 < euse h x" for x using ent used [OF that] by auto
    ultimately show ?thesis using R(1,2) fd inv' by (intro exI [of _ r] exI [of _ h']) blast
  qed
qed

lemma release_heap:
  assumes inv: "cache_inv h" and e: "e \<in> set (entries_of h)" "0 < euse h e"
  shows "release_entry h e = Ok (with_use h e (euse h e - 1)) \<and> cache_inv (with_use h e (euse h e - 1)) \<and> entries_of (with_use h e (euse h e - 1)) = entries_of h \<and> centries h e \<noteq> None"
proof -
  obtain ns B where O: "cache_parts h ns B" "map (entry_at h) ns = entries_of h" "entries_ok h (entries_of h)" using cache_okE [OF cache_inv_ok [OF inv]] .
  obtain x where x: "centries h e = Some x" using O(3) e(1) by (auto simp: entries_ok_def has_data_def)
  let ?h = "with_use h e (euse h e - 1)"
  have ea: "entry_at ?h = entry_at h" by (simp add: fun_eq_iff entry_at_def)
  have "e \<in> entry_at h ` set ns" using e(1) O(2) by (metis set_map)
  then have "cache_parts ?h ns B" by (rule with_use_parts [OF O(1)]) (use e(2) in simp)
  then have "cache_ok ?h (entries_of h)" using O(2) ea unfolding cache_ok_def by auto
  moreover have "release_entry h e = Ok ?h" using x e(2) by (simp add: release_entry_def at_addr_def with_use_def euse_def)
  ultimately show ?thesis using x by (simp add: cache_ok_inv)
qed

section \<open>The heap and the work in progress\<close>

definition good :: "file_data \<Rightarrow> bool" where
  "good d \<longleftrightarrow> name_allowed (file_name d) \<and> file_size d = int (length (file_buf d))"

fun holds :: "job \<Rightarrow> nat option" where
  "holds (Using e d) = Some e"
| "holds _ = None"

definition uses :: "job multiset \<Rightarrow> nat \<Rightarrow> nat" where
  "uses M e = size (filter_mset (\<lambda>j. holds j = Some e) M)"

fun job_ok :: "Cache \<Rightarrow> job multiset \<Rightarrow> job \<Rightarrow> bool" where
  "job_ok h M (Got c) \<longleftrightarrow> True"
| "job_ok h M (Reading d) \<longleftrightarrow> count M (Reading d) \<le> 1 \<and> Sending d \<notin># M \<and> d \<notin> ptr h ` set (entries_of h) \<and> (\<exists>x. fdata h d = Some x \<and> file_buf x = [])"
| "job_ok h M (Sending d) \<longleftrightarrow> (\<exists>x. fdata h d = Some x \<and> good x)"
| "job_ok h M (Using e d) \<longleftrightarrow> e \<in> set (entries_of h) \<and> ptr h e = d"

definition wheap_ok :: "Cache \<Rightarrow> job multiset \<Rightarrow> bool" where
  "wheap_ok h M \<longleftrightarrow> cache_inv h \<and> (\<forall>d. fdata h d \<noteq> None \<longrightarrow> d < wbrk h) \<and>
     (\<forall>e \<in> set (entries_of h). euse h e = int (uses M e) \<and> good (edata h e)) \<and> (\<forall>j \<in># M. job_ok h M j)"

lemma uses_add: "uses (add_mset j M) e = (if holds j = Some e then Suc (uses M e) else uses M e)"
  by (simp add: uses_def)

lemma wheap_okD:
  assumes "wheap_ok h M"
  shows "cache_inv h" "fdata h d \<noteq> None \<Longrightarrow> d < wbrk h" "e \<in> set (entries_of h) \<Longrightarrow> euse h e = int (uses M e)" "e \<in> set (entries_of h) \<Longrightarrow> good (edata h e)"
    "j \<in># M \<Longrightarrow> job_ok h M j"
  using assms by (auto simp: wheap_ok_def)

lemma wheap_okI:
  assumes "cache_inv h" and "\<And>d. fdata h d \<noteq> None \<Longrightarrow> d < wbrk h" and "\<And>e. e \<in> set (entries_of h) \<Longrightarrow> euse h e = int (uses M e) \<and> good (edata h e)"
    and "\<And>j. j \<in># M \<Longrightarrow> job_ok h M j"
  shows "wheap_ok h M"
  using assms by (auto simp: wheap_ok_def)

lemma entry_data:
  assumes "cache_inv h" and "e \<in> set (entries_of h)"
  shows "fdata h (ptr h e) = Some (edata h e)"
  using cache_inv_entries [OF assms(1)] assms(2) by (auto simp: entries_ok_def has_data_def ptr_def edata_def)

lemma job_ok_less: "job_ok h (add_mset j R) i \<Longrightarrow> job_ok h R i"
  by (cases i) (auto split: if_splits)

lemma wheap_ok_drop:
  assumes ok: "wheap_ok h (add_mset j R)" and j: "holds j = None"
  shows "wheap_ok h R"
proof (rule wheap_okI)
  show "cache_inv h" by (rule wheap_okD(1) [OF ok])
  show "d < wbrk h" if "fdata h d \<noteq> None" for d by (rule wheap_okD(2) [OF ok that])
  show "euse h e = int (uses R e) \<and> good (edata h e)" if "e \<in> set (entries_of h)" for e
    using wheap_okD(3,4) [OF ok that] j by (simp add: uses_add)
  show "job_ok h R i" if "i \<in># R" for i by (rule job_ok_less [of h j]) (use wheap_okD(5) [OF ok, of i] that in simp)
qed

text \<open>A fresh file record.\<close>

lemma wheap_ok_fresh:
  assumes ok: "wheap_ok h R"
  shows "wheap_ok (h\<lparr>fdata := (fdata h)(wbrk h \<mapsto> x), wbrk := Suc (wbrk h)\<rparr>) R" (is "wheap_ok ?h R")
    "file_buf x = [] \<Longrightarrow> wheap_ok (h\<lparr>fdata := (fdata h)(wbrk h \<mapsto> x), wbrk := Suc (wbrk h)\<rparr>) (add_mset (Reading (wbrk h)) R)"
    "entries_of (h\<lparr>fdata := (fdata h)(wbrk h \<mapsto> x), wbrk := Suc (wbrk h)\<rparr>) = entries_of h"
proof -
  note D = wheap_okD [OF ok]
  have pl: "ptr h e < wbrk h" if "e \<in> set (entries_of h)" for e using entry_data [OF D(1) that] D(2) by simp
  have F: "\<forall>e \<in> set (entries_of h). ((fdata h)(wbrk h \<mapsto> x)) (ptr h e) = fdata h (ptr h e)" using pl by (metis fun_upd_other less_irrefl)
  have C: "cache_ok ?h (entries_of h)" "\<forall>e \<in> set (entries_of h). edata ?h e = edata h e"
    using cache_ok_fdata [where F = "(fdata h)(wbrk h \<mapsto> x)" and w = "Suc (wbrk h)", OF cache_inv_ok [OF D(1)] F] by simp_all
  show ent: "entries_of ?h = entries_of h" using C(1) by (simp add: cache_ok_inv)
  have pt: "ptr ?h = ptr h" "euse ?h = euse h" by (simp_all add: ptr_def euse_def fun_eq_iff)
  have jobs: "job_ok ?h R j" if j: "j \<in># R" for j
    using D(5) [OF j] D(2) by (cases j) (fastforce simp: ent pt)+
  have inv: "cache_inv ?h" using C(1) by (simp add: cache_ok_inv)
  show ok': "wheap_ok ?h R"
    by (rule wheap_okI) (use inv jobs D(2,3,4) C(2) ent pt in \<open>auto simp: less_Suc_eq split: if_splits\<close>)
  assume fb: "file_buf x = []"
  have lt: "d < wbrk h" if "Reading d \<in># R \<or> Sending d \<in># R" for d using that D(5) [of "Reading d"] D(5) [of "Sending d"] D(2) [of d] by auto
  show "wheap_ok ?h (add_mset (Reading (wbrk h)) R)"
  proof (rule wheap_okI)
    fix j assume "j \<in># add_mset (Reading (wbrk h)) R"
    then consider "j = Reading (wbrk h)" | "j \<in># R" by auto
    then show "job_ok ?h (add_mset (Reading (wbrk h)) R) j"
    proof cases
      case 1
      have "Reading (wbrk h) \<notin># R" "Sending (wbrk h) \<notin># R" using lt [of "wbrk h"] by auto
      moreover have "wbrk h \<notin> ptr h ` set (entries_of h)" using pl by (metis imageE less_irrefl)
      ultimately show ?thesis using 1 fb by (simp add: ent pt not_in_iff)
    next
      case 2
      then show ?thesis using jobs [OF 2] lt by (cases j) auto
    qed
  qed (use wheap_okD [OF ok'] in \<open>auto simp: uses_add\<close>)
qed

text \<open>A thread changes its own record.\<close>

lemma private_update:
  assumes ok: "wheap_ok h (add_mset (Reading d) R)"
  shows "wheap_ok (h\<lparr>fdata := (fdata h)(d := v)\<rparr>) R" (is "wheap_ok ?h R")
    "v = Some x \<Longrightarrow> good x \<Longrightarrow> wheap_ok (h\<lparr>fdata := (fdata h)(d := v)\<rparr>) (add_mset (Sending d) R)"
    "entries_of (h\<lparr>fdata := (fdata h)(d := v)\<rparr>) = entries_of h"
proof -
  note D = wheap_okD [OF ok]
  have J: "count R (Reading d) = 0" "Sending d \<notin># R" "d \<notin> ptr h ` set (entries_of h)" "\<exists>x. fdata h d = Some x" using D(5) [of "Reading d"] by auto
  have F: "\<forall>e \<in> set (entries_of h). ((fdata h)(d := v)) (ptr h e) = fdata h (ptr h e)" using J(3) by (metis fun_upd_other imageI)
  have C: "cache_ok ?h (entries_of h)" "\<forall>e \<in> set (entries_of h). edata ?h e = edata h e"
    using cache_ok_fdata [where F = "(fdata h)(d := v)" and w = "wbrk h", OF cache_inv_ok [OF D(1)] F] by simp_all
  show ent: "entries_of ?h = entries_of h" using C(1) by (simp add: cache_ok_inv)
  have pt: "ptr ?h = ptr h" "euse ?h = euse h" by (simp_all add: ptr_def euse_def fun_eq_iff)
  have inv: "cache_inv ?h" using C(1) by (simp add: cache_ok_inv)
  have other: "j \<noteq> Reading d" "j \<noteq> Sending d" if "j \<in># R" for j using that J(1,2) by (auto simp: count_eq_zero_iff)
  have jobs: "job_ok ?h R j" if j: "j \<in># R" for j
  proof -
    have "job_ok h R j" by (rule job_ok_less [of h "Reading d"]) (use D(5) [of j] j in simp)
    then show ?thesis using other [OF j] by (cases j) (auto simp: ent pt)
  qed
  have lt: "a < wbrk ?h" if "fdata ?h a \<noteq> None" for a using that D(2) [of a] D(2) [of d] J(4) by (auto split: if_splits)
  have use: "euse ?h e = int (uses R e) \<and> good (edata ?h e)" if "e \<in> set (entries_of ?h)" for e
    using that D(3,4) [of e] C(2) by (simp add: ent pt uses_add)
  show "wheap_ok ?h R" by (rule wheap_okI [OF inv lt use jobs])
  assume v: "v = Some x" "good x"
  show "wheap_ok ?h (add_mset (Sending d) R)"
  proof (rule wheap_okI [OF inv lt])
    fix j assume "j \<in># add_mset (Sending d) R"
    then consider "j = Sending d" | "j \<in># R" by auto
    then show "job_ok ?h (add_mset (Sending d) R) j"
    proof cases
      case 1
      then show ?thesis using v by simp
    next
      case 2
      then show ?thesis using jobs [OF 2] other [OF 2] by (cases j) auto
    qed
  qed (use use in \<open>simp_all add: uses_add\<close>)
qed

lemma lookup_ok:
  assumes ok: "wheap_ok h M"
  shows "\<exists>r h'. cache_lookup h nm = Ok (r, h') \<and> fdata h' = fdata h \<and>
    wheap_ok h' (case r of None \<Rightarrow> M | Some e \<Rightarrow> add_mset (Using e (ptr h' e)) M) \<and> (\<forall>e. r = Some e \<longrightarrow> e \<in> set (entries_of h'))"
proof -
  note D = wheap_okD [OF ok]
  obtain r h' where L: "cache_lookup h nm = Ok (r, h')" "cache_inv h'" "set (entries_of h') = set (entries_of h)" "wbrk h' = wbrk h" "fdata h' = fdata h"
    "\<And>x. edata h' x = edata h x" "\<And>x. ptr h' x = ptr h x" "\<And>x. euse h' x = euse h x + (if r = Some x then 1 else 0)"
    "\<And>e. r = Some e \<Longrightarrow> e \<in> set (entries_of h)" using lookup_heap [OF D(1), of nm] by blast
  let ?M = "case r of None \<Rightarrow> M | Some e \<Rightarrow> add_mset (Using e (ptr h' e)) M"
  have pt: "ptr h' = ptr h" using L(7) by (simp add: fun_eq_iff)
  have "wheap_ok h' ?M"
  proof (rule wheap_okI [OF L(2)])
    show "d < wbrk h'" if "fdata h' d \<noteq> None" for d using that D(2) L(4,5) by simp
    show "euse h' e = int (uses ?M e) \<and> good (edata h' e)" if "e \<in> set (entries_of h')" for e
      using that D(3,4) [of e] L(3,6,8) by (cases r) (auto simp: uses_add)
    fix j assume j: "j \<in># ?M"
    then consider "j \<in># M" | e where "r = Some e" "j = Using e (ptr h' e)" by (cases r) auto
    then show "job_ok h' ?M j"
    proof cases
      case 1
      then show ?thesis using D(5) [OF 1] L(3,5) by (cases j; cases r) (auto simp: pt)
    next
      case 2
      then show ?thesis using L(3) L(9) by simp
    qed
  qed
  then show ?thesis using L(1,3,5,9) by blast
qed

lemma insert_ok:
  assumes ok: "wheap_ok h (add_mset (Sending f) R)" and d: "fdata h f = Some d"
  shows "\<exists>r h'. cache_insert h f = Ok (r, h') \<and> wheap_ok h' (add_mset (Sending f) R)"
proof -
  let ?M = "add_mset (Sending f) R"
  note D = wheap_okD [OF ok]
  have g: "good d" using D(5) [of "Sending f"] d by auto
  then have sz: "0 \<le> file_size d" by (simp add: good_def)
  obtain r h' where L: "cache_insert h f = Ok (r, h')" "cache_inv h'" "fdata h' = fdata h" "wbrk h \<le> wbrk h'"
    "\<forall>x \<in> set (entries_of h'). x \<in> set (entries_of h) \<and> euse h' x = euse h x \<and> edata h' x = edata h x \<and> ptr h' x = ptr h x \<or>
       x = wbrk h \<and> x \<notin> set (entries_of h) \<and> euse h' x = 0 \<and> edata h' x = d \<and> ptr h' x = f"
    "\<forall>x \<in> set (entries_of h). 0 < euse h x \<longrightarrow> x \<in> set (entries_of h')"
    using insert_heap [OF D(1) d sz] by blast
  have held: "e \<in> set (entries_of h)" if "holds j = Some e" "j \<in># ?M" for j e
    using that D(5) [OF that(2)] by (cases j) auto
  have unused: "uses ?M e = 0" if "e \<notin> set (entries_of h)" for e using that held by (force simp: uses_def)
  have "wheap_ok h' ?M"
  proof (rule wheap_okI [OF L(2)])
    show "a < wbrk h'" if "fdata h' a \<noteq> None" for a using that D(2) [of a] L(3,4) by simp
    fix e assume e: "e \<in> set (entries_of h')"
    then show "euse h' e = int (uses ?M e) \<and> good (edata h' e)" using L(5) D(3,4) [of e] unused [of e] g by auto
  next
    fix j assume j: "j \<in># ?M"
    show "job_ok h' ?M j"
    proof (cases j)
      case (Reading a)
      with D(5) [OF j] have A: "a \<noteq> f" "a \<notin> ptr h ` set (entries_of h)" by auto
      have "a \<notin> ptr h' ` set (entries_of h')"
      proof
        assume "a \<in> ptr h' ` set (entries_of h')"
        then obtain e where e: "e \<in> set (entries_of h')" "a = ptr h' e" by blast
        with L(5) A(1) have "e \<in> set (entries_of h)" "ptr h' e = ptr h e" by auto
        with A(2) e(2) show False by auto
      qed
      with Reading D(5) [OF j] L(3) show ?thesis by simp
    next
      case (Using e a)
      with D(5) [OF j] have e: "e \<in> set (entries_of h)" "ptr h e = a" by auto
      have "uses ?M e \<noteq> 0" using j Using by (auto simp: uses_def)
      then have "0 < euse h e" using D(3) [OF e(1)] by simp
      then have "e \<in> set (entries_of h')" using L(6) e(1) by simp
      then show ?thesis using L(5) e Using by auto
    qed (use D(5) [OF j] L(3) in simp_all)
  qed
  with L(1) show ?thesis by blast
qed

lemma release_ok:
  assumes ok: "wheap_ok h (add_mset (Using e d) R)"
  shows "\<exists>h' x. release_entry h e = Ok h' \<and> wheap_ok h' R \<and> fdata h d = Some x \<and> good x"
proof -
  note D = wheap_okD [OF ok]
  have e: "e \<in> set (entries_of h)" "ptr h e = d" using D(5) [of "Using e d"] by auto
  have pos: "0 < euse h e" using D(3) [OF e(1)] by (simp add: uses_add)
  let ?h = "with_use h e (euse h e - 1)"
  have L: "release_entry h e = Ok ?h" "cache_inv ?h" "entries_of ?h = entries_of h" "centries h e \<noteq> None" using release_heap [OF D(1) e(1) pos] by auto
  have use: "euse ?h x = (if x = e then euse h e - 1 else euse h x)" for x using L(4) by simp
  have "wheap_ok ?h R"
  proof (rule wheap_okI [OF L(2)])
    show "a < wbrk ?h" if "fdata ?h a \<noteq> None" for a using that D(2) [of a] by simp
    show "euse ?h x = int (uses R x) \<and> good (edata ?h x)" if "x \<in> set (entries_of ?h)" for x
      using that D(3,4) [of x] unfolding use by (auto simp: L(3) uses_add split: if_splits)
    fix j assume j: "j \<in># R"
    have "job_ok h R j" by (rule job_ok_less [of h "Using e d"]) (use D(5) [of j] j in simp)
    moreover have "ptr ?h = ptr h" by (simp add: fun_eq_iff)
    ultimately show "job_ok ?h R j" using L(3) by (cases j) auto
  qed
  with L(1) entry_data [OF D(1) e(1)] e D(4) [OF e(1)] show ?thesis by auto
qed

lemma readfile_cases: "request_readfile d obj = Crash ExitCall \<or> request_readfile d obj = Ok None \<or> (\<exists>d'. request_readfile d obj = Ok (Some d'))"
  by (cases obj) (auto simp: request_readfile_def Let_def)

text \<open>Every step of a request keeps the heap in order; at most it ends the process in \<^verbatim>\<open>Malloc\<close>.\<close>

lemma job_step_ok:
  assumes ok: "wheap_ok (heap t) (add_mset j R)"
  shows "job_step t j name obj = Crash ExitCall \<or>
    (\<exists>r j' t'. job_step t j name obj = Ok (r, j', t') \<and> t' = t\<lparr>heap := heap t'\<rparr> \<and> wheap_ok (heap t') (case j' of None \<Rightarrow> R | Some j' \<Rightarrow> add_mset j' R) \<and> (\<forall>d. r = Some d \<longrightarrow> good d))"
proof (cases j)
  case (Got connfd)
  let ?h = "heap t"
  have R: "wheap_ok ?h R" by (rule wheap_ok_drop [OF ok]) (simp add: Got)
  note fresh = wheap_ok_fresh(2) [OF R]
  show ?thesis
  proof (cases name)
    case None
    have "wheap_ok (?h\<lparr>wbrk := Suc (wbrk ?h), fdata := (fdata ?h)(wbrk ?h := None)\<rparr>) R"
      using private_update(1) [OF fresh [of "\<lparr>file_name = [], file_buf = [], file_size = 0\<rparr>"], of None] by simp
    then show ?thesis using Got None by (simp add: job_step_def serve_begin_def file_data_init_def file_data_free_def at_addr_def)
  next
    case (Some nm)
    let ?d = "\<lparr>file_name = nm, file_buf = [], file_size = 0\<rparr>"
    let ?h1 = "?h\<lparr>wbrk := Suc (wbrk ?h), fdata := (fdata ?h)(wbrk ?h \<mapsto> ?d)\<rparr>"
    have eq: "?h1 = ?h\<lparr>fdata := (fdata ?h)(wbrk ?h \<mapsto> ?d), wbrk := Suc (wbrk ?h)\<rparr>" by simp
    have h1: "wheap_ok ?h1 (add_mset (Reading (wbrk ?h)) R)" unfolding eq by (rule fresh) simp
    show ?thesis
    proof (cases "cache_on t")
      case False
      then show ?thesis using h1 Got Some by (simp add: job_step_def serve_begin_def file_data_init_def at_addr_def Let_def)
    next
      case True
      obtain r h2 where L: "cache_lookup ?h1 nm = Ok (r, h2)" "fdata h2 = fdata ?h1" "wheap_ok h2 (case r of None \<Rightarrow> add_mset (Reading (wbrk ?h)) R | Some e \<Rightarrow> add_mset (Using e (ptr h2 e)) (add_mset (Reading (wbrk ?h)) R))"
        "\<forall>e. r = Some e \<longrightarrow> e \<in> set (entries_of h2)" using lookup_ok [OF h1, of nm] by blast
      show ?thesis
      proof (cases r)
        case None
        then show ?thesis using L True Got Some by (simp add: job_step_def serve_begin_def file_data_init_def at_addr_def Let_def)
      next
        case hit: (Some e)
        let ?h3 = "h2\<lparr>fdata := (fdata h2)(wbrk ?h := None)\<rparr>"
        have ok2: "wheap_ok h2 (add_mset (Reading (wbrk ?h)) (add_mset (Using e (ptr h2 e)) R))" using L(3) hit by (simp add: add_mset_commute)
        have "has_data h2 e" using L(4) hit cache_inv_entries [OF wheap_okD(1) [OF ok2]] by (simp add: entries_ok_def)
        then obtain x where x: "centries h2 e = Some x" by (auto simp: has_data_def)
        have "wheap_ok ?h3 (add_mset (Using e (ce_data x)) R)" using private_update(1) [OF ok2, of None] x by (simp add: ptr_def)
        moreover have "job_step t j name obj = Ok (None, Some (Using e (ce_data x)), t\<lparr>heap := ?h3\<rparr>)"
          using L(1,2) hit True Got Some x by (simp add: job_step_def serve_begin_def file_data_init_def file_data_free_def at_addr_def Let_def)
        ultimately show ?thesis by simp
      qed
    qed
  qed
next
  case (Reading data)
  let ?h = "heap t"
  from wheap_okD(5) [OF ok, of j] Reading obtain d where d: "fdata ?h data = Some d" "file_buf d = []" by auto
  have R: "wheap_ok ?h R" by (rule wheap_ok_drop [OF ok]) (simp add: Reading)
  consider (exit) "request_readfile d obj = Crash ExitCall" | (fail) "request_readfile d obj = Ok None" | (ok) d' where "request_readfile d obj = Ok (Some d')"
    using readfile_cases by blast
  then show ?thesis
  proof cases
    case exit
    then show ?thesis using d Reading by (simp add: job_step_def serve_read_def at_addr_def)
  next
    case fail
    then show ?thesis using d Reading R by (simp add: job_step_def serve_read_def at_addr_def)
  next
    case (ok d')
    then have "name_allowed (file_name d)" by (simp add: request_readfile_def split: if_splits)
    moreover have "file_name d' = file_name d \<and> file_size d' = int (length (file_buf d'))" using readfile_size [OF ok d(2)] .
    ultimately have g: "good d'" by (simp add: good_def)
    let ?h1 = "?h\<lparr>fdata := (fdata ?h)(data \<mapsto> d')\<rparr>"
    have h1: "wheap_ok ?h1 (add_mset (Sending data) R)" by (rule private_update(2) [OF assms [unfolded Reading] refl g])
    then obtain r h2 where "cache_insert ?h1 data = Ok (r, h2)" "wheap_ok h2 (add_mset (Sending data) R)" using insert_ok [OF h1, of d'] by auto
    then show ?thesis using d Reading ok h1 by (cases "cache_on t") (simp_all add: job_step_def serve_read_def at_addr_def Let_def)
  qed
next
  case (Sending data)
  from wheap_okD(5) [OF ok, of j] Sending obtain d where d: "fdata (heap t) data = Some d" "good d" by auto
  have "wheap_ok (heap t) R" by (rule wheap_ok_drop [OF ok]) (simp add: Sending)
  then show ?thesis using d Sending by (simp add: job_step_def at_addr_def)
next
  case (Using e data)
  from release_ok [OF ok [unfolded Using]] obtain h' x where "release_entry (heap t) e = Ok h'" "wheap_ok h' R" "fdata (heap t) data = Some x" "good x" by blast
  then show ?thesis using Using by (simp add: job_step_def at_addr_def)
qed

end
