(* ===== verification/Web_ServerProps.thy ===== *)
theory Web_ServerProps
  imports Web_Server
begin

text \<open>
  The invariant of the running server, over all interleavings of its threads, and the properties of the server.
\<close>

section \<open>The invariant of the server\<close>

fun main_jobs :: "mpc \<Rightarrow> job multiset" where
  "main_jobs (MJob j) = {#j#}"
| "main_jobs _ = {#}"

fun w_jobs :: "wpc \<Rightarrow> job multiset" where
  "w_jobs (WJob j) = {#j#}"
| "w_jobs _ = {#}"

definition jobs :: "sys \<Rightarrow> job multiset" where
  "jobs s = main_jobs (main s) + sum_list (map w_jobs (workers s))"

definition threaded :: "server \<Rightarrow> bool" where
  "threaded t \<longleftrightarrow> nr_threads t > 0 \<and> max_requests t > 1"

text \<open>A thread that sleeps has a reason to: no wakeup was lost.\<close>

definition sleep_ok :: "sys \<Rightarrow> bool" where
  "sleep_ok s \<longleftrightarrow> WExited \<notin> set (workers s) \<and>
     (WAsleep \<in> set (workers s) \<or> WAbout \<in> set (workers s) \<longrightarrow> ring_contents (buffer (sv s)) = []) \<and>
     (\<forall>connfd. main s = MAsleep connfd \<longrightarrow> buffer_full (buffer (sv s)))"

definition sys_ok :: "sys \<Rightarrow> bool" where
  "sys_ok s \<longleftrightarrow> wheap_ok (heap (sv s)) (jobs s) \<and> (\<forall>d \<in> set (replies s). good d) \<and>
     (threaded (sv s) \<longrightarrow> ring_ok (buffer (sv s))) \<and>
     (\<not> threaded (sv s) \<longrightarrow> (nr_threads (sv s) = 0 \<or> max_requests (sv s) \<le> 1) \<and> workers s = [] \<and> (\<forall>connfd. main s \<noteq> MLock connfd \<and> main s \<noteq> MAsleep connfd)) \<and>
     (exiting (sv s) \<longleftrightarrow> main s \<in> {MExiting, MJoin, MDone}) \<and> (\<not> exiting (sv s) \<longrightarrow> sleep_ok s)"

lemma sum_update:
  assumes "i < length ws"
  shows "sum_list (map w_jobs (ws[i := w])) + w_jobs (ws ! i) = sum_list (map w_jobs ws) + w_jobs w"
proof -
  have ws: "ws = take i ws @ ws ! i # drop (Suc i) ws" using assms by (rule id_take_nth_drop)
  have "ws[i := w] = take i ws @ w # drop (Suc i) ws" using assms by (rule upd_conv_take_nth_drop)
  then have "sum_list (map w_jobs (ws[i := w])) = sum_list (map w_jobs (take i ws)) + w_jobs w + sum_list (map w_jobs (drop (Suc i) ws))" by simp
  moreover have "sum_list (map w_jobs ws) = sum_list (map w_jobs (take i ws)) + w_jobs (ws ! i) + sum_list (map w_jobs (drop (Suc i) ws))"
    by (subst ws) simp
  ultimately show ?thesis by simp
qed

lemma wake_jobs [simp]: "w_jobs \<circ> wake_worker = w_jobs"
  by (auto simp: wake_worker_def fun_eq_iff)

lemma wake_main_jobs [simp]: "main_jobs (wake_main m) = main_jobs m"
  by (cases m) (auto simp: wake_main_def)

text \<open>A worker changes from a state without a job to another.\<close>

lemma jobs_idle: "i < length (workers s) \<Longrightarrow> w_jobs (workers s ! i) = {#} \<Longrightarrow> w_jobs w = {#} \<Longrightarrow> sum_list (map w_jobs ((workers s)[i := w])) = sum_list (map w_jobs (workers s))"
  using sum_update [of i "workers s" w] by simp

lemma take_request_exit:
  assumes r: "ring_ok b"
  shows "\<exists>x b'. take_request True b = Ok (Some (x, buffer_full b, b')) \<and> ring_ok b'"
proof -
  from r obtain xs where xs: "requests b = Some xs" "max_size b \<le> int (length xs)" by (auto simp: ring_ok_def)
  have R: "1 < max_size b" "0 \<le> rin b" "rin b < max_size b" "0 \<le> rout b" "rout b < max_size b" using r by (simp_all add: ring_ok_def)
  have "ring_ok (b\<lparr>rout := (rout b + 1) mod max_size b\<rparr>)" using R xs by (simp add: ring_ok_def)
  then show ?thesis using R xs by (simp add: take_request_def cell_def)
qed

lemma wheap_ok_got: "wheap_ok h M \<Longrightarrow> wheap_ok h (add_mset (Got c) M)"
proof (rule wheap_okI)
  assume ok: "wheap_ok h M"
  show "cache_inv h" by (rule wheap_okD(1) [OF ok])
  show "d < wbrk h" if "fdata h d \<noteq> None" for d by (rule wheap_okD(2) [OF ok that])
  show "euse h e = int (uses (add_mset (Got c) M) e) \<and> good (edata h e)" if "e \<in> set (entries_of h)" for e
    using wheap_okD(3,4) [OF ok that] by (simp add: uses_add)
  show "job_ok h (add_mset (Got c) M) j" if "j \<in># add_mset (Got c) M" for j
    using that wheap_okD(5) [OF ok, of j] by (cases j) auto
qed

lemma sys_okD:
  assumes "sys_ok s"
  shows "wheap_ok (heap (sv s)) (jobs s)" "\<forall>d \<in> set (replies s). good d" "threaded (sv s) \<Longrightarrow> ring_ok (buffer (sv s))"
    "\<not> threaded (sv s) \<Longrightarrow> (nr_threads (sv s) = 0 \<or> max_requests (sv s) \<le> 1) \<and> workers s = [] \<and> (\<forall>connfd. main s \<noteq> MLock connfd \<and> main s \<noteq> MAsleep connfd)"
    "exiting (sv s) \<longleftrightarrow> main s \<in> {MExiting, MJoin, MDone}" "\<not> exiting (sv s) \<Longrightarrow> sleep_ok s"
  using assms by (simp_all add: sys_ok_def)

lemma worker_threaded: "sys_ok s \<Longrightarrow> i < length (workers s) \<Longrightarrow> threaded (sv s)"
  using sys_okD(4) by fastforce

lemma jobs_at:
  assumes i: "i < length ws"
  obtains R where "sum_list (map w_jobs ws) = w_jobs (ws ! i) + R" "\<And>w. sum_list (map w_jobs (ws[i := w])) = w_jobs w + R"
proof -
  let ?R = "sum_list (map w_jobs (ws[i := WLoop]))"
  have 1: "sum_list (map w_jobs ws) = w_jobs (ws ! i) + ?R" using sum_update [OF i, of WLoop] by (simp add: add.commute)
  moreover have "sum_list (map w_jobs (ws[i := w])) = w_jobs w + ?R" for w using sum_update [OF i, of w] unfolding 1 by (simp add: add.commute add.left_commute)
  ultimately show ?thesis using that by blast
qed

text \<open>Replacing the state of a worker, with the rest of the server as it is.\<close>

lemma set_worker_ok:
  assumes ok: "sys_ok s" and i: "i < length (workers s)" and j: "w_jobs (workers s ! i) = {#}" "w_jobs w = {#}"
    and slp: "\<not> exiting (sv s) \<Longrightarrow> w \<noteq> WExited \<and> (w = WAsleep \<or> w = WAbout \<longrightarrow> ring_contents (buffer (sv s)) = [])"
  shows "sys_ok (s\<lparr>workers := (workers s)[i := w]\<rparr>)"
proof -
  note D = sys_okD [OF ok]
  have "jobs (s\<lparr>workers := (workers s)[i := w]\<rparr>) = jobs s" using jobs_idle [OF i j] by (simp add: jobs_def)
  moreover have "sleep_ok (s\<lparr>workers := (workers s)[i := w]\<rparr>)" if "\<not> exiting (sv s)"
    using D(6) [OF that] slp [OF that] set_update_subset_insert [of "workers s" i w] by (auto simp: sleep_ok_def)
  ultimately show ?thesis using D worker_threaded [OF ok i] by (simp add: sys_ok_def)
qed

definition step_safe :: "sys outcome \<Rightarrow> bool" where
  "step_safe r \<longleftrightarrow> r = Crash ExitCall \<or> (\<exists>s. r = Ok s \<and> sys_ok s)"

lemma step_safe_Ok [simp]: "step_safe (Ok s) \<longleftrightarrow> sys_ok s"
  by (simp add: step_safe_def)

lemma step_safe_Exit [simp]: "step_safe (Crash ExitCall)"
  by (simp add: step_safe_def)

lemma worker_take_ok:
  assumes ok: "sys_ok s" and i: "i < length (workers s)" and w: "workers s ! i = WLock" and lf: "lock_free s"
  shows "\<exists>r. worker_step s i name obj = Some r \<and> step_safe r"
proof -
  note D = sys_okD [OF ok]
  have th: "threaded (sv s)" by (rule worker_threaded [OF ok i])
  have r: "ring_ok (buffer (sv s))" by (rule D(3) [OF th])
  let ?b = "buffer (sv s)" and ?ws = "workers s"
  obtain R where R: "sum_list (map w_jobs ?ws) = w_jobs (?ws ! i) + R" "\<And>v. sum_list (map w_jobs (?ws[i := v])) = w_jobs v + R" using jobs_at [OF i] by blast
  have taken: "sys_ok (s\<lparr>sv := (sv s)\<lparr>buffer := b\<rparr>, main := (if buffer_full ?b then wake_main (main s) else main s), workers := ?ws[i := WJob (Got x)]\<rparr>)" (is "sys_ok ?s")
    if b: "ring_ok b" and ne: "\<not> exiting (sv s) \<Longrightarrow> ring_contents ?b \<noteq> []" for b x
  proof -
    have "jobs ?s = add_mset (Got x) (jobs s)" using R w by (simp add: jobs_def)
    then have "wheap_ok (heap (sv s)) (jobs ?s)" using wheap_ok_got [OF D(1)] by simp
    moreover have "sleep_ok ?s" if nx: "\<not> exiting (sv s)"
      using D(6) [OF nx] ne [OF nx] set_update_subset_insert [of ?ws i "WJob (Got x)"]
      by (auto simp: sleep_ok_def wake_main_def split: mpc.splits)
    moreover have "wake_main (main s) \<in> {MExiting, MJoin, MDone} \<longleftrightarrow> main s \<in> {MExiting, MJoin, MDone}" by (cases "main s") (auto simp: wake_main_def)
    ultimately show ?thesis using D(2,5) th b by (simp add: sys_ok_def threaded_def)
  qed
  show ?thesis
  proof (cases "exiting (sv s)")
    case True
    with take_request_exit [OF r] taken i w lf show ?thesis by (fastforce simp: worker_step_def)
  next
    case False
    show ?thesis
    proof (cases "ring_contents ?b")
      case Nil
      then have "rin ?b = rout ?b" using ring_empty_iff [OF r] by (simp add: ring_contents_def)
      then have "worker_step s i name obj = Some (Ok (s\<lparr>workers := ?ws[i := WAbout]\<rparr>))" using False i w lf by (simp add: worker_step_def take_request_def)
      moreover have "sys_ok (s\<lparr>workers := ?ws[i := WAbout]\<rparr>)" by (rule set_worker_ok [OF ok i]) (simp_all add: w Nil)
      ultimately show ?thesis by simp
    next
      case (Cons x ys)
      with take_request_ring [OF r, of x ys False] taken False i w lf show ?thesis by (fastforce simp: worker_step_def)
    qed
  qed
qed

lemma add_reply_simps [simp]: "sv (add_reply r s) = sv s" "main (add_reply r s) = main s" "workers (add_reply r s) = workers s" "jobs (add_reply r s) = jobs s"
  "sleep_ok (add_reply r s) = sleep_ok s"
  by (auto simp: add_reply_def jobs_def sleep_ok_def split: option.split)

lemma add_reply_good: "\<forall>d \<in> set (replies s). good d \<Longrightarrow> \<forall>d. r = Some d \<longrightarrow> good d \<Longrightarrow> \<forall>d \<in> set (replies (add_reply r s)). good d"
  by (auto simp: add_reply_def split: option.split)

lemma job_step_same:
  assumes "wheap_ok (heap t) (add_mset j R)" and "job_step t j name obj = Ok (r, j', t')"
  shows "buffer t' = buffer t" "exiting t' = exiting t" "nr_threads t' = nr_threads t" "max_requests t' = max_requests t" "threaded t' = threaded t"
proof -
  from job_step_ok [OF assms(1), of name obj] assms(2) have t': "t' = t\<lparr>heap := heap t'\<rparr>" by auto
  show "buffer t' = buffer t" "exiting t' = exiting t" "nr_threads t' = nr_threads t" "max_requests t' = max_requests t" "threaded t' = threaded t"
    by (subst t', simp add: threaded_def)+
qed

text \<open>A step of a job, whoever runs it: \<open>s'\<close> is the state with the new server and the rest of the job.\<close>

lemma run_job_ok:
  assumes ok: "sys_ok s" and js: "jobs s = add_mset j R" and st: "job_step (sv s) j name obj = Ok (r, j', t')"
    and s': "sv s' = t'" "replies s' = replies s" "jobs s' = (case j' of None \<Rightarrow> R | Some j' \<Rightarrow> add_mset j' R)"
    and same: "\<not> threaded (sv s) \<Longrightarrow> workers s' = [] \<and> (\<forall>connfd. main s' \<noteq> MLock connfd \<and> main s' \<noteq> MAsleep connfd)"
      "exiting (sv s) \<longleftrightarrow> main s' \<in> {MExiting, MJoin, MDone}"
      "\<not> exiting (sv s) \<Longrightarrow> (WExited \<in> set (workers s') \<longrightarrow> WExited \<in> set (workers s)) \<and> (WAsleep \<in> set (workers s') \<longrightarrow> WAsleep \<in> set (workers s)) \<and>
        (WAbout \<in> set (workers s') \<longrightarrow> WAbout \<in> set (workers s)) \<and> (\<forall>connfd. main s' = MAsleep connfd \<longrightarrow> main s = MAsleep connfd)"
  shows "sys_ok (add_reply r s')"
proof -
  note D = sys_okD [OF ok]
  have h: "wheap_ok (heap (sv s)) (add_mset j R)" using D(1) js by simp
  from job_step_ok [OF h, of name obj] st have
    T: "wheap_ok (heap t') (case j' of None \<Rightarrow> R | Some j' \<Rightarrow> add_mset j' R)" "\<forall>d. r = Some d \<longrightarrow> good d" by auto
  note f = job_step_same [OF h st]
  have "sleep_ok s'" if "\<not> exiting (sv s)" using D(6) [OF that] same(3) [OF that] s'(1) f(1) by (auto simp: sleep_ok_def)
  then show ?thesis
    using T(1) s' add_reply_good [of s' r] D(2) T(2) f D(3,4) same(1,2) by (simp add: sys_ok_def)
qed

lemma worker_step_ok:
  assumes ok: "sys_ok s" and st: "worker_step s i name obj = Some r"
  shows "step_safe r"
proof -
  note D = sys_okD [OF ok]
  let ?ws = "workers s"
  have i: "i < length ?ws" using st by (simp add: worker_step_def split: if_splits)
  show ?thesis
  proof (cases "?ws ! i")
    case WLoop
    then have "r = Ok (s\<lparr>workers := ?ws[i := if exiting (sv s) then WExited else WLock]\<rparr>)" using st i by (simp add: worker_step_def)
    moreover have "sys_ok (s\<lparr>workers := ?ws[i := if exiting (sv s) then WExited else WLock]\<rparr>)" by (rule set_worker_ok [OF ok i]) (simp_all add: WLoop)
    ultimately show ?thesis by simp
  next
    case WLock
    with st i have lf: "lock_free s" by (simp add: worker_step_def split: if_splits)
    from worker_take_ok [OF ok i WLock lf, of name obj] st show ?thesis by auto
  next
    case WAbout
    then have "r = Ok (s\<lparr>workers := ?ws[i := WAsleep]\<rparr>)" using st i by (simp add: worker_step_def)
    moreover have "WAbout \<in> set ?ws" using WAbout i nth_mem by metis
    then have "sys_ok (s\<lparr>workers := ?ws[i := WAsleep]\<rparr>)" using D(6) by (intro set_worker_ok [OF ok i]) (simp_all add: WAbout sleep_ok_def)
    ultimately show ?thesis by simp
  next
    case (WJob j)
    obtain R where R: "sum_list (map w_jobs ?ws) = w_jobs (?ws ! i) + R" "\<And>v. sum_list (map w_jobs (?ws[i := v])) = w_jobs v + R" using jobs_at [OF i] by blast
    then have js: "jobs s = add_mset j (main_jobs (main s) + R)" using WJob by (simp add: jobs_def)
    have th: "threaded (sv s)" by (rule worker_threaded [OF ok i])
    have mem: "x \<in> set (?ws[i := v]) \<longrightarrow> x = v \<or> x \<in> set ?ws" for x v using set_update_subset_insert by fastforce
    show ?thesis
    proof (cases "is_Got j \<and> exiting (sv s)")
      case True
      then obtain c where c: "j = Got c" by (cases j) auto
      let ?s = "s\<lparr>workers := ?ws[i := WLoop]\<rparr>"
      have "jobs ?s = main_jobs (main s) + R" using R by (simp add: jobs_def)
      then have "wheap_ok (heap (sv ?s)) (jobs ?s)" using wheap_ok_drop [of "heap (sv s)" j] D(1) js c by simp
      then have "sys_ok ?s" using D(2,3,5) th True by (simp add: sys_ok_def)
      then show ?thesis using st i WJob True by (auto simp: worker_step_def)
    next
      case False
      then have st': "r = and_then (job_step (sv s) j name obj) (\<lambda>(r, j', t). Ok (add_reply r (s\<lparr>sv := t, workers := ?ws[i := case j' of None \<Rightarrow> WLoop | Some j' \<Rightarrow> WJob j']\<rparr>)))"
        using st i WJob by (auto simp: worker_step_def)
      consider "job_step (sv s) j name obj = Crash ExitCall" | q j' t where "job_step (sv s) j name obj = Ok (q, j', t)"
        using job_step_ok [of "sv s" j "main_jobs (main s) + R" name obj] D(1) js by auto
      then show ?thesis
      proof cases
        case 2
        let ?w = "case j' of None \<Rightarrow> WLoop | Some j' \<Rightarrow> WJob j'"
        have "sys_ok (add_reply q (s\<lparr>sv := t, workers := ?ws[i := ?w]\<rparr>))"
          by (rule run_job_ok [OF ok js 2]) (use D(5) th mem [of WExited ?w] mem [of WAsleep ?w] mem [of WAbout ?w] R in \<open>auto simp: jobs_def split: option.splits\<close>)
        then show ?thesis using st' 2 by simp
      qed (use st' in simp)
    qed
  qed (use st i in \<open>simp_all add: worker_step_def\<close>)
qed

lemma main_add_ok:
  assumes ok: "sys_ok s" and m: "main s = MLock connfd" and lf: "lock_free s"
  shows "\<exists>r. main_step wild s name obj = Some r \<and> step_safe r"
proof -
  note D = sys_okD [OF ok]
  have th: "threaded (sv s)" using D(4) m by auto
  have nx: "\<not> exiting (sv s)" using D(5) m by simp
  have r: "ring_ok (buffer (sv s))" by (rule D(3) [OF th])
  show ?thesis
  proof (cases "buffer_full (buffer (sv s))")
    case True
    have "sys_ok (s\<lparr>main := MAsleep connfd\<rparr>)" using D th nx True m by (simp add: sys_ok_def sleep_ok_def jobs_def)
    then show ?thesis using True m lf by (simp add: main_step_def add_request_def)
  next
    case False
    from add_request_ring [OF r False, of connfd] obtain b where
      b: "add_request (buffer (sv s)) connfd = Ok (Some (ring_contents (buffer (sv s)) = [], b))" "ring_ok b" "ring_contents b = ring_contents (buffer (sv s)) @ [connfd]" by blast
    let ?ws = "if ring_contents (buffer (sv s)) = [] then map wake_worker (workers s) else workers s"
    let ?s = "s\<lparr>sv := (sv s)\<lparr>buffer := b\<rparr>, main := MAccept, workers := ?ws\<rparr>"
    have "jobs ?s = jobs s" using m by (simp add: jobs_def)
    moreover have "WAbout \<notin> set (workers s)" using lf by (simp add: lock_free_def)
    then have "WAbout \<notin> set ?ws \<and> WAsleep \<notin> set ?ws \<and> WExited \<notin> set ?ws"
      using D(6) [OF nx] by (auto simp: sleep_ok_def wake_worker_def split: if_splits)
    ultimately have "sys_ok ?s" using D(1,2) th b(2) nx by (simp add: sys_ok_def threaded_def sleep_ok_def)
    then show ?thesis using b(1) m lf by (simp add: main_step_def)
  qed
qed

lemma main_step_ok:
  assumes ok: "sys_ok s" and st: "main_step wild s name obj = Some r" and wild: "wild \<Longrightarrow> threaded (sv s)"
  shows "step_safe r"
proof -
  note D = sys_okD [OF ok]
  show ?thesis
  proof (cases "main s")
    case (MLock connfd)
    with st have lf: "lock_free s" by (simp add: main_step_def split: if_splits)
    from main_add_ok [OF ok MLock lf, of wild name obj] st show ?thesis by auto
  next
    case (MJob j)
    let ?R = "sum_list (map w_jobs (workers s))"
    have js: "jobs s = add_mset j ?R" using MJob by (simp add: jobs_def)
    have nx: "\<not> exiting (sv s)" using D(5) MJob by simp
    have st': "r = and_then (job_step (sv s) j name obj) (\<lambda>(r, j', t). Ok (add_reply r (s\<lparr>sv := t, main := (case j' of None \<Rightarrow> MAccept | Some j' \<Rightarrow> MJob j')\<rparr>)))"
      using st MJob by (auto simp: main_step_def)
    consider "job_step (sv s) j name obj = Crash ExitCall" | q j' t where "job_step (sv s) j name obj = Ok (q, j', t)"
      using job_step_ok [of "sv s" j ?R name obj] D(1) js by auto
    then show ?thesis
    proof cases
      case 2
      have "sys_ok (add_reply q (s\<lparr>sv := t, main := (case j' of None \<Rightarrow> MAccept | Some j' \<Rightarrow> MJob j')\<rparr>))"
        by (rule run_job_ok [OF ok js 2]) (use D(4,5) nx in \<open>auto simp: jobs_def split: option.splits\<close>)
      then show ?thesis using st' 2 by simp
    qed (use st' in simp)
  next
    case MExiting
    let ?ws = "if max_requests (sv s) > 1 \<and> nr_threads (sv s) > 0 then map wake_worker (workers s) else workers s"
    have "sys_ok (s\<lparr>main := MJoin, workers := ?ws\<rparr>)" using D MExiting by (simp add: sys_ok_def jobs_def)
    then show ?thesis using st MExiting by (auto simp: main_step_def)
  next
    case MJoin
    have "sys_ok (s\<lparr>main := MDone\<rparr>)" using D MJoin by (simp add: sys_ok_def jobs_def)
    moreover have "server_exit_frees wild (sv s) = Ok ()" using wild D(3) by (auto simp: server_exit_frees_def ring_ok_def)
    ultimately show ?thesis using st MJoin by (auto simp: main_step_def split: if_splits)
  qed (use st in \<open>simp_all add: main_step_def\<close>)
qed

lemma sys_step_ok:
  assumes ok: "sys_ok s" and st: "sys_step wild l s = Some r" and wild: "wild \<Longrightarrow> threaded (sv s)"
  shows "step_safe r"
proof (cases l)
  case (Run i name obj)
  with worker_step_ok [OF ok] st show ?thesis by simp
next
  case (Spurious i)
  then have i: "i < length (workers s)" "workers s ! i = WAsleep" and r: "r = Ok (s\<lparr>workers := (workers s)[i := WLock]\<rparr>)" using st by (auto split: if_splits)
  have "sys_ok (s\<lparr>workers := (workers s)[i := WLock]\<rparr>)" by (rule set_worker_ok [OF ok i(1)]) (simp_all add: i)
  with r show ?thesis by simp
next
  case (Accept connfd)
  then have m: "main s = MAccept" and r: "r = Ok (server_request s connfd)" using st by (auto split: if_splits)
  note D = sys_okD [OF ok]
  have "sys_ok (server_request s connfd)"
  proof (cases "threaded (sv s)")
    case True
    then show ?thesis using D m by (simp add: sys_ok_def server_request_def threaded_def jobs_def sleep_ok_def)
  next
    case False
    then have "nr_threads (sv s) = 0 \<or> max_requests (sv s) \<le> 1" using D(4) by blast
    then have sr: "server_request s connfd = s\<lparr>main := MJob (Got connfd)\<rparr>" by (simp add: server_request_def)
    have "jobs (s\<lparr>main := MJob (Got connfd)\<rparr>) = add_mset (Got connfd) (jobs s)" using m by (simp add: jobs_def)
    then show ?thesis unfolding sr using D m False wheap_ok_got [OF D(1)] by (simp add: sys_ok_def sleep_ok_def)
  qed
  with r show ?thesis by simp
next
  case (RunMain name obj)
  with main_step_ok [OF ok _ wild] st show ?thesis by simp
next
  case Exit
  then have m: "main s = MAccept" and r: "r = Ok (s\<lparr>sv := (sv s)\<lparr>exiting := True\<rparr>, main := MExiting\<rparr>)" using st by (auto split: if_splits)
  note D = sys_okD [OF ok]
  have "sys_ok (s\<lparr>sv := (sv s)\<lparr>exiting := True\<rparr>, main := MExiting\<rparr>)" using D m by (simp add: sys_ok_def threaded_def jobs_def)
  with r show ?thesis by simp
qed

lemma jobs_worker:
  assumes "i < length (workers s)" and "workers s ! i = WJob j"
  obtains R where "jobs s = add_mset j R"
proof -
  obtain R where "sum_list (map w_jobs (workers s)) = w_jobs (workers s ! i) + R" using jobs_at [OF assms(1)] by blast
  then have "jobs s = add_mset j (main_jobs (main s) + R)" using assms(2) by (simp add: jobs_def)
  then show ?thesis by (rule that)
qed

lemma server_same:
  assumes ok: "sys_ok s" and st: "sys_step wild l s = Some (Ok s')"
  shows "threaded (sv s') = threaded (sv s)"
proof (cases l)
  case (Run i name obj)
  with st have i: "i < length (workers s)" by (simp add: worker_step_def split: if_splits)
  show ?thesis
  proof (cases "workers s ! i")
    case (WJob j)
    then obtain R where "jobs s = add_mset j R" using jobs_worker [OF i] by blast
    then have h: "wheap_ok (heap (sv s)) (add_mset j R)" using sys_okD(1) [OF ok] by simp
    show ?thesis using st Run i WJob job_step_same(5) [OF h] by (auto simp: worker_step_def and_then_Ok_iff split: if_splits)
  next
    case WLock
    with st Run i obtain q where "take_request (exiting (sv s)) (buffer (sv s)) = Ok q" and
      q: "(case q of None \<Rightarrow> Ok (s\<lparr>workers := (workers s)[i := WAbout]\<rparr>)
        | Some (connfd, wake, b) \<Rightarrow> Ok (s\<lparr>sv := (sv s)\<lparr>buffer := b\<rparr>, main := (if wake then wake_main (main s) else main s), workers := (workers s)[i := WJob (Got connfd)]\<rparr>)) = Ok s'"
      by (auto simp: worker_step_def and_then_Ok_iff split: if_splits)
    then show ?thesis by (cases q) (auto simp: threaded_def split: prod.splits)
  qed (use st Run i in \<open>auto simp: worker_step_def threaded_def\<close>)
next
  case (RunMain name obj)
  show ?thesis
  proof (cases "main s")
    case (MJob j)
    then have h: "wheap_ok (heap (sv s)) (add_mset j (sum_list (map w_jobs (workers s))))" using sys_okD(1) [OF ok] by (simp add: jobs_def)
    show ?thesis using st RunMain MJob job_step_same(5) [OF h] by (auto simp: main_step_def and_then_Ok_iff)
  next
    case (MLock connfd)
    with st RunMain obtain q where "add_request (buffer (sv s)) connfd = Ok q" and
      q: "(case q of None \<Rightarrow> Ok (s\<lparr>main := MAsleep connfd\<rparr>)
        | Some (wake, b) \<Rightarrow> Ok (s\<lparr>sv := (sv s)\<lparr>buffer := b\<rparr>, main := MAccept, workers := (if wake then map wake_worker (workers s) else workers s)\<rparr>)) = Ok s'"
      by (auto simp: main_step_def and_then_Ok_iff split: if_splits)
    then show ?thesis by (cases q) (auto simp: threaded_def split: prod.splits)
  qed (use st RunMain in \<open>auto simp: main_step_def and_then_Ok_iff threaded_def split: if_splits\<close>)
qed (use st in \<open>auto simp: server_request_def threaded_def split: if_splits\<close>)

lemma sys_init_ok:
  assumes "0 \<le> nthreads" and "0 \<le> max_req" and "0 \<le> max_cache" and "max_cache < 2 ^ 31" and slack: "1 \<le> slack"
  shows "sys_ok (sys_init junk slack nthreads max_req max_cache)"
proof -
  let ?h = "cache_init max_cache"
  have h: "?h = ?h\<lparr>fdata := (\<lambda>_. None), wbrk := 0\<rparr>" by (simp add: cache_init_def)
  have ok: "cache_inv ?h" "items ?h = []" using cache_init_inv [OF assms(3,4), where F = "\<lambda>_. None" and w = 0] by (simp_all only: h [symmetric])
  then have "entries_of ?h = []" by (simp add: items_def)
  then have "wheap_ok ?h {#}" using ok(1) by (auto simp: wheap_ok_def cache_init_def)
  moreover have "sum_list (map w_jobs (replicate n WLoop)) = {#}" for n by (induction n) auto
  moreover have "ring_ok (buffer (server_init junk slack nthreads max_req max_cache))" "ring_contents (buffer (server_init junk slack nthreads max_req max_cache)) = []"
    if "nthreads > 0" "max_req > 0"
    using that slack assms by (auto simp: server_init_def ring_ok_def ring_contents_def ring_count_def)
  ultimately show ?thesis using assms
    by (auto simp: sys_init_def server_init_def sys_ok_def jobs_def threaded_def sleep_ok_def)
qed

lemma reach_ok:
  assumes "sys_reach wild s0 s" and "sys_ok s0" and "wild \<Longrightarrow> threaded (sv s0)"
  shows "sys_ok s \<and> (threaded (sv s) = threaded (sv s0))"
  using assms
proof (induction rule: sys_reach.induct)
  case (step s l s')
  then have IH: "sys_ok s" "threaded (sv s) = threaded (sv s0)" by auto
  with step have "step_safe (Ok s')" using sys_step_ok [OF IH(1) step(2)] by auto
  then show ?case using IH server_same [OF IH(1) step(2)] by simp
qed simp

section \<open>Properties of the server\<close>

text \<open>The starting states: the arguments \<^verbatim>\<open>main\<close> lets through.\<close>

definition valid_args :: "int \<Rightarrow> int \<Rightarrow> int \<Rightarrow> bool" where
  "valid_args nthreads max_req max_cache \<longleftrightarrow> 0 \<le> nthreads \<and> 0 \<le> max_req \<and> 0 \<le> max_cache \<and> max_cache < 2 ^ 31"

lemma reach_init:
  assumes "valid_args nthreads max_req max_cache" and "1 \<le> slack" and "wild \<Longrightarrow> nthreads > 0 \<and> max_req > 0"
    and "sys_reach wild (sys_init junk slack nthreads max_req max_cache) s"
  shows "sys_ok s" "threaded (sv s) \<longleftrightarrow> nthreads > 0 \<and> max_req > 0"
proof -
  let ?init = "sys_init junk slack nthreads max_req max_cache"
  have th: "threaded (sv ?init) \<longleftrightarrow> nthreads > 0 \<and> max_req > 0" by (auto simp: sys_init_def server_init_def threaded_def)
  have "sys_ok ?init" using assms(1,2) by (intro sys_init_ok) (simp_all add: valid_args_def)
  from reach_ok [OF assms(4) this] assms(3) th show "sys_ok s" "threaded (sv s) \<longleftrightarrow> nthreads > 0 \<and> max_req > 0" by auto
qed






text \<open>A run of a server without workers and without a cache that serves one file.\<close>

lemma sample_reply:
  "\<exists>s. sys_reach False (sys_init (\<lambda>_. 0) 1 0 0 0) s \<and> replies s = [\<lparr>file_name = [46, 47, 97], file_buf = [1], file_size = 1\<rparr>]"
proof -
  let ?init = "sys_init (\<lambda>_. 0) 1 0 0 0" and ?nm = "[46, 47, 97] :: cstring"
  let ?d = "\<lparr>file_name = ?nm, file_buf = [1], file_size = 1\<rparr> :: file_data"
  have rf: "request_readfile \<lparr>file_name = ?nm, file_buf = [], file_size = 0\<rparr> (File [1]) = Ok (Some ?d)" by code_simp
  obtain s1 where s1: "sys_step False (Accept 7) ?init = Some (Ok s1)" "main s1 = MJob (Got 7)" "sv s1 = sv ?init" "replies s1 = []"
    by (simp add: sys_init_def server_request_def server_init_def)
  have c: "\<not> cache_on (sv s1)" "wbrk (heap (sv s1)) = 0" unfolding s1(3) by (simp_all add: sys_init_def server_init_def cache_init_def)
  obtain s2 where s2: "sys_step False (RunMain (Some ?nm) Absent) s1 = Some (Ok s2)" "main s2 = MJob (Reading 0)" "replies s2 = []" "\<not> cache_on (sv s2)"
    "fdata (heap (sv s2)) 0 = Some \<lparr>file_name = ?nm, file_buf = [], file_size = 0\<rparr>"
    using s1 c by (simp add: main_step_def job_step_def serve_begin_def file_data_init_def at_addr_def add_reply_def Let_def)
  obtain s3 where s3: "sys_step False (RunMain None (File [1])) s2 = Some (Ok s3)" "main s3 = MJob (Sending 0)" "replies s3 = []" "fdata (heap (sv s3)) 0 = Some ?d"
    using s2 rf by (simp add: main_step_def job_step_def serve_read_def at_addr_def add_reply_def Let_def)
  obtain s4 where "sys_step False (RunMain None Absent) s3 = Some (Ok s4)" "replies s4 = [?d]"
    using s3 by (simp add: main_step_def job_step_def at_addr_def add_reply_def)
  with s1(1) s2(1) s3(1) show ?thesis by (meson sys_reach.intros)
qed



lemma sample_busy:
  "\<exists>s. sys_reach True (sys_init (\<lambda>_. 0) 1 1 1 0) s \<and> \<not> exiting (sv s) \<and> ring_contents (buffer (sv s)) \<noteq> [] \<and> length (workers s) = 1"
proof -
  let ?init = "sys_init (\<lambda>_. 0) 1 1 1 0"
  obtain s1 where s1: "sys_step True (Accept 7) ?init = Some (Ok s1)" "main s1 = MLock 7" "sv s1 = sv ?init" "workers s1 = [WLoop]"
    by (simp add: sys_init_def server_request_def server_init_def)
  have ok: "ring_ok (buffer (sv s1))" "\<not> buffer_full (buffer (sv s1))" "\<not> exiting (sv s1)" unfolding s1(3)
    by (simp_all add: sys_init_def server_init_def ring_ok_def buffer_full_def)
  from add_request_ring [OF ok(1,2), of 7] obtain b' where b: "add_request (buffer (sv s1)) 7 = Ok (Some (ring_contents (buffer (sv s1)) = [], b'))"
    "ring_contents b' = ring_contents (buffer (sv s1)) @ [7]" by blast
  obtain s2 where s2: "sys_step True (RunMain None Absent) s1 = Some (Ok s2)" "buffer (sv s2) = b'" "\<not> exiting (sv s2)" "length (workers s2) = 1"
    using s1 ok b(1) by (simp add: main_step_def lock_free_def)
  have "sys_reach True ?init s2" by (rule sys_reach.step [OF sys_reach.step [OF sys_reach.start s1(1)] s2(1)])
  with s2 b(2) show ?thesis by auto
qed


text \<open>
  (C14) The exit of the server can hang: a worker that has found the buffer empty and the server not exiting goes to sleep after \<open>server_exit\<close>, which does
  not take the lock, has set the flag and sent its wakeup. Then nothing but a spurious wakeup can happen any more, and the main thread waits for the worker for ever.
\<close>

theorem server_exit_lost_wakeup:
  assumes "0 < max_req"
  shows "\<exists>s. sys_reach wild (sys_init junk slack 1 max_req max_cache) s \<and> main s = MJoin \<and> exiting (sv s) \<and> (\<forall>l. sys_step wild l s \<noteq> None \<longrightarrow> (\<exists>i. l = Spurious i))"
proof -
  let ?init = "sys_init junk slack 1 max_req max_cache"
  let ?t = "server_init junk slack 1 max_req max_cache" and ?t' = "(server_init junk slack 1 max_req max_cache)\<lparr>exiting := True\<rparr>"
  have s0: "?init = \<lparr>sv = ?t, main = MAccept, workers = [WLoop], replies = []\<rparr>" using assms by (simp add: sys_init_def)
  have t: "\<not> exiting ?t" "rin (buffer ?t) = rout (buffer ?t)" "max_requests ?t > 1" "nr_threads ?t > 0" using assms by (simp_all add: server_init_def)
  let ?s = "\<lambda>t m w. \<lparr>sv = t, main = m, workers = [w], replies = []\<rparr> :: sys"
  have 1: "sys_step wild (Run 0 None Absent) (?s ?t MAccept WLoop) = Some (Ok (?s ?t MAccept WLock))" using t by (simp add: worker_step_def)
  have 2: "sys_step wild (Run 0 None Absent) (?s ?t MAccept WLock) = Some (Ok (?s ?t MAccept WAbout))" using t by (simp add: worker_step_def lock_free_def take_request_def)
  have 3: "sys_step wild Exit (?s ?t MAccept WAbout) = Some (Ok (?s ?t' MExiting WAbout))" by simp
  have 4: "sys_step wild (RunMain None Absent) (?s ?t' MExiting WAbout) = Some (Ok (?s ?t' MJoin WAbout))" using t by (simp add: main_step_def wake_worker_def)
  have 5: "sys_step wild (Run 0 None Absent) (?s ?t' MJoin WAbout) = Some (Ok (?s ?t' MJoin WAsleep))" by (simp add: worker_step_def)
  have "sys_reach wild ?init (?s ?t' MJoin WAsleep)"
    unfolding s0 by (rule sys_reach.step [OF sys_reach.step [OF sys_reach.step [OF sys_reach.step [OF sys_reach.step [OF sys_reach.start 1] 2] 3] 4] 5])
  moreover have "\<exists>i. l = Spurious i" if "sys_step wild l (?s ?t' MJoin WAsleep) \<noteq> None" for l
    using that by (cases l) (auto simp: worker_step_def main_step_def split: if_splits)
  ultimately show ?thesis by (intro exI [of _ "?s ?t' MJoin WAsleep"]) simp
qed

theorem server_exit_lost_wakeup_witness:
  "\<exists>s. sys_reach True (sys_init (\<lambda>_. 0) 1 1 4 100) s \<and> main s = MJoin \<and> (\<forall>l. sys_step True l s = None \<or> (\<exists>i. l = Spurious i))"
  using server_exit_lost_wakeup [of 4 True "\<lambda>_. 0" 1 100] by fastforce

fun add_all :: "int list \<Rightarrow> request_buffer \<Rightarrow> request_buffer outcome" where
  "add_all [] b = Ok b"
| "add_all (x # xs) b = and_then (ring_enq b x) (add_all xs)"

lemma add_all_init:
  "requests b = Some ys \<Longrightarrow> length ys = n \<Longrightarrow> max_size b = int n + 1 \<Longrightarrow> rout b = 0 \<Longrightarrow> rin b = int k \<Longrightarrow> k + length xs = n \<Longrightarrow>
   \<exists>b' zs. add_all xs b = Ok b' \<and> requests b' = Some zs \<and> length zs = n \<and> max_size b' = int n + 1 \<and> rout b' = 0 \<and> rin b' = int n"
proof (induction xs arbitrary: b ys k)
  case (Cons x xs)
  have nf: "\<not> buffer_full b" using Cons.prems by (simp add: buffer_full_def)
  let ?b = "b\<lparr>requests := Some (ys[k := x]), rin := int k + 1\<rparr>"
  have "ring_enq b x = Ok ?b" using nf Cons.prems by (simp add: ring_enq_def add_request_def set_cell_def)
  with Cons.IH [of ?b "ys[k := x]" "Suc k"] Cons.prems show ?case by auto
qed auto

text \<open>
  (C13) The buffer has one cell less than its indices: with the memory the code asks for, after \<open>n\<close> requests were added and one was taken, the next one is written
  behind the end of the buffer of \<open>n\<close> cells.
\<close>

theorem server_buffer_overflow:
  assumes "0 < nthreads" and "0 < n" and "length xs = n"
  shows "\<exists>b b' x. add_all xs (buffer (server_init junk 0 nthreads (int n) max_cache)) = Ok b \<and> ring_deq b = Ok (x, b') \<and> add_request b' connfd = Crash MemFault"
proof -
  let ?b0 = "buffer (server_init junk 0 nthreads (int n) max_cache)"
  obtain b zs where b: "add_all xs ?b0 = Ok b" "requests b = Some zs" "length zs = n" "max_size b = int n + 1" "rout b = 0" "rin b = int n"
    using add_all_init [of ?b0 "map junk [0..<n]" n 0 xs] assms by (auto simp: server_init_def)
  have "ring_deq b = Ok (zs ! 0, b\<lparr>rout := 1\<rparr>)" using b assms(2) by (simp add: ring_deq_def take_request_def cell_def)
  moreover have "(2 * int n) mod (int n + 1) = int n - 1"
  proof -
    have "(2 * int n) mod (int n + 1) = (int n - 1 + 1 * (int n + 1)) mod (int n + 1)" by (simp add: algebra_simps)
    also have "\<dots> = (int n - 1) mod (int n + 1)" by (rule mod_mult_self1)
    also have "\<dots> = int n - 1" using assms(2) by (intro mod_pos_pos_trivial) auto
    finally show ?thesis .
  qed
  then have "add_request (b\<lparr>rout := 1\<rparr>) connfd = Crash MemFault"
    using b assms(2) by (simp add: add_request_def buffer_full_def set_cell_def algebra_simps)
  ultimately show ?thesis using b(1) by blast
qed

theorem server_buffer_overflow_witness:
  "\<exists>b b' x. add_all [5, 6] (buffer (server_init (\<lambda>_. 0) 0 1 2 100)) = Ok b \<and> ring_deq b = Ok (x, b') \<and> add_request b' 7 = Crash MemFault"
  using server_buffer_overflow [of 1 2 "[5, 6]"] by simp

text \<open>
  When the server runs without workers, \<open>server_init\<close> leaves the pointers to the buffer and to the threads unset, and \<open>server_exit\<close> passes them to \<^verbatim>\<open>free\<close>.
\<close>

theorem server_exit_wild_free:
  "\<exists>s. sys_reach True (sys_init junk slack 0 max_req max_cache) s \<and> sys_step True (RunMain None Absent) s = Some (Crash MemFault)"
proof -
  let ?init = "sys_init junk slack 0 max_req max_cache"
  let ?t = "(server_init junk slack 0 max_req max_cache)\<lparr>exiting := True\<rparr>"
  have 1: "sys_step True Exit ?init = Some (Ok (?init\<lparr>sv := ?t, main := MExiting\<rparr>))" by (simp add: sys_init_def)
  have 2: "sys_step True (RunMain None Absent) (?init\<lparr>sv := ?t, main := MExiting\<rparr>) = Some (Ok (?init\<lparr>sv := ?t, main := MJoin\<rparr>))"
    by (simp add: sys_init_def main_step_def server_init_def)
  have "sys_step True (RunMain None Absent) (?init\<lparr>sv := ?t, main := MJoin\<rparr>) = Some (Crash MemFault)"
    by (simp add: sys_init_def main_step_def server_init_def server_exit_frees_def)
  then show ?thesis using sys_reach.step [OF sys_reach.step [OF sys_reach.start 1] 2] by blast
qed



end
