(* ===== verification/Spec2Isabelle.thy ===== *)
theory Spec2Isabelle
  imports FS_CmdProps FS_ShellRun Thread_Props Web_ServerProps
begin

text \<open>
  A verification development for the programs of an operating-systems course: a user-level thread library
  (\<^verbatim>\<open>threads/\<close>), a file system in a regular file (\<^verbatim>\<open>fs/\<close>) and a multi-threaded web server with a file cache
  (\<^verbatim>\<open>webserver/\<close>). The three programs share no code; the theories of each are named after it.

  \<^bold>\<open>Conventions.\<close> A C function is a function on the state it can reach that returns an \<open>outcome\<close> (theory \<open>Prelude\<close>): \<open>Ok\<close> with
  the return value and the new state, or \<open>Crash\<close> with the reason the process stops: a failed \<^verbatim>\<open>assert\<close>, a call of \<^verbatim>\<open>exit\<close>, a memory fault (an access
  outside an object, through an invalid pointer, or of memory that was never written), a signed overflow, or a call that never returns. A claim that a function works is therefore also a claim that none of
  these happens. Error numbers are ordinary negative return values. Integers of the on-disk structures and unsigned counters keep their width;
  \<^verbatim>\<open>int\<close> values that are only compared and copied are mathematical integers, and conversions between the two are written out. \<^verbatim>\<open>malloc\<close> is taken to succeed and to return an address
  that is not in use, unless a theory says otherwise.

  \<^bold>\<open>The thread library.\<close> \<open>Thread_Queue\<close> is the linked queue of thread control blocks in an explicit store of nodes (the static functions at the top of
  \<^verbatim>\<open>threads/thread.c\<close>), with its abstraction to a list and the proof that it is a first-in first-out queue (the locale \<open>fifo_queue\<close> of \<open>Interfaces\<close>).
  \<open>Thread_Sched\<close> has every call of \<^verbatim>\<open>thread.h\<close> and the interrupt functions: creation, yield, exit, kill, sleep, wakeup, wait, locks and condition variables.
  A saved processor context is the rest of the call it was saved in, and \<open>resume\<close> continues it. \<open>Thread_Inv\<close> states the invariant and proves that every call keeps it,
  \<open>Thread_Safe\<close> closes it under all sequences of calls, switches and timer interrupts, and \<open>Thread_Props\<close> has the properties: memory safety of every reachable state, exactly one running thread, the effect of each call on the lists
  of ready and waiting threads, and the calls the code gets wrong. The walks over a queue in the store take fuel, one more than the number of addresses handed out so far; a list without a cycle is never longer, which the invariant turns into a proof that
  the fuel does not run out.

  \<^bold>\<open>The file system.\<close> Bottom up, in the order the code calls it:
  \<open>FS_Bitmap\<close> (\<^verbatim>\<open>bitmap.c\<close>: allocation of single bits, an instance of the locale \<open>index_allocator\<close>),
  \<open>FS_Block\<close> (\<^verbatim>\<open>block.c\<close>: whole blocks of the device, with the behaviour at the end of the file),
  \<open>FS_Super\<close> (\<^verbatim>\<open>super.c\<close>: free maps written through to the device, allocation of blocks and inode numbers, and the invariant \<open>super_inv\<close> that memory and device agree),
  \<open>FS_Inode\<close> (\<^verbatim>\<open>inode.c\<close>: the on-disk inode, its encoding and write-back),
  \<open>FS_ReadWrite\<close> (\<^verbatim>\<open>read_write.c\<close>: the definitions), \<open>FS_FileMap\<close> (the block map of a file: direct, indirect and doubly indirect blocks; lookup and allocation, including the
  release of what was allocated when the device fills up), \<open>FS_FileData\<close> (reading and writing byte ranges as operations on the list of bytes of a file, and the frame: no block of another file changes),
  \<open>FS_FileFree\<close> (truncation frees exactly the blocks of the file) and \<open>FS_Dir\<close> (\<^verbatim>\<open>dir.c\<close>: directory entries in the bytes of a directory, lookup and insertion).
  On top of these, \<open>FS_ITable\<close> has the inodes in memory (\<^verbatim>\<open>inode.c\<close>: reference-counted objects found through a hash table) and \<open>FS_Core\<close> the invariant \<open>core_inv\<close> of a mounted file system: every inode in use is a consistent file, no
  block belongs to two files or to none, memory and device agree up to objects marked dirty. \<open>FS_Tree\<close> and \<open>FS_TreeInv\<close> are the functions of \<^verbatim>\<open>dir.c\<close> that create and remove files and directories, and the invariant \<open>fs_inv\<close> that the directories
  form a tree with root 0; \<open>view\<close> is that tree as a user sees it. \<open>FS_Mount\<close> makes, opens and closes a file system (\<^verbatim>\<open>super.c\<close>, \<^verbatim>\<open>mktestfs.c\<close>), \<open>FS_Text\<close> has the conversions of \<^verbatim>\<open>common.c\<close>.

  The program \<^verbatim>\<open>testfs\<close> is in \<open>FS_Cmd\<close> and \<open>FS_List\<close> (the commands of \<^verbatim>\<open>dir.c\<close> and \<^verbatim>\<open>file.c\<close> on a session: file system, context, output), \<open>FS_CmdProps\<close> (what each command does to the tree), \<open>FS_Shell\<close> (\<^verbatim>\<open>testfs.c\<close>: command table,
  parser, loop and \<^verbatim>\<open>main\<close>, with the words of a line as a reference definition), \<open>FS_ShellSpec\<close> (the specification of the shell: \<open>tree_fails\<close> has the reasons a command may fail for, \<open>tree_step\<close> the steps of the commands) and \<open>FS_ShellRun\<close>
  (the whole program is a run of the specification, from opening the file to closing it). Between two commands the invariant \<open>shell_ok\<close> holds: the tree is consistent and the current directory is the only object in memory, with one user and nothing to write back.
  Two situations are outside the specification because the code leaves a state that breaks the invariant: a command that runs out of space may leave a directory half changed, and \<open>ls\<close> on a file keeps an inode in memory. The run theorem therefore covers the
  input up to the first such report.

  Parameters and bounds of the file system. The recursions of \<^verbatim>\<open>testfs_pwd\<close> and \<^verbatim>\<open>testfs_ls\<close> take fuel; a path has fewer steps than there are directories, and \<open>ls_fuel\<close>, the number of inodes times the largest number of entries, is enough for every listing. A new object
  in memory gets an address that was never used before. There is one super block. \<open>mem\<close> tells which allocations of \<^verbatim>\<open>testfs_init_super_block\<close> succeed and \<open>junk\<close>, \<open>ctx\<close> are the contents of memory that was never written. What \<^verbatim>\<open>strtok_r\<close> does with a null string and a
  null \<^verbatim>\<open>save\<close> is undefined; the parameter \<open>lenient\<close> distinguishes the implementations that return null from those that fault. \<^verbatim>\<open>strerror\<close> is a parameter. Directories are below \<open>2\<^sup>3\<^sup>1\<close> bytes, since offsets in them have type \<^verbatim>\<open>int\<close>; the run theorem
  bounds the length of the input so that none grows beyond.

  \<^bold>\<open>The web server.\<close> \<open>Web_Cache\<close> (the file cache of \<^verbatim>\<open>server_thread.c\<close>: hash table with chaining and the list in order of use, in an explicit store),
  \<open>Web_CacheInv\<close> (its invariant), \<open>Web_CacheProps\<close> (it refines a specification of a least-recently-used cache, the locale \<open>lru_cache\<close>),
  \<open>Web_Request\<close> (\<^verbatim>\<open>request.c\<close> and the robust I/O of \<^verbatim>\<open>common.c\<close> over an input that arrives in arbitrary pieces),
  \<open>Web_Server\<close> (the ring buffer of connections, the workers, the main thread and exit as atomic steps between lock operations) and \<open>Web_ServerProps\<close> (safety over all interleavings, use counts, no lost wakeup, order of service, and
  the errors in the start and the exit of the server).

  \<^bold>\<open>Not modelled.\<close> Signals, \<^verbatim>\<open>ucontext\<close> internals, sockets and printing of the host; the random distributions and the load generators of the web server (floating point, sockets);
  option parsing with \<^verbatim>\<open>popt\<close>, whose results are parameters of \<open>testfs_main\<close> and \<open>mktestfs\<close>; the list macros of \<^verbatim>\<open>fs/list.h\<close> except the hash function, since a hash bucket is a list of addresses; host I/O errors of the device;
  \<^verbatim>\<open>show_ucontext.c\<close> (inspection of registers), the warm-up exercises and the test programs.
\<close>

end
